(* ===== verification/Prelude.thy ===== *)
theory Prelude
  imports Main "HOL-Library.Word"
begin

text \<open>
  Facts the components share: the machine's size type, powers of two, division by powers of
  two, and the collections of simplification rules that the component theories fill.
\<close>

unbundle bit_operations_syntax

named_theorems size_simps \<open>closed values of the sizes of the program's structs and types\<close>

section \<open>The size type\<close>

text \<open>
  Values of \<open>size_t\<close> are natural numbers below \<open>2 ^ 64\<close>. Where the C code can leave that
  range the model writes the reduction \<open>mod 2 ^ 64\<close> out.
\<close>

type_synonym size_t = nat

abbreviation (input) size_limit :: nat where
  "size_limit \<equiv> 2 ^ 64"

abbreviation (input) CHAR_BIT :: nat where
  "CHAR_BIT \<equiv> 8"

section \<open>Powers of two\<close>

lemma power_two_less_iff [simp]: "((2::nat) ^ a < 2 ^ b) = (a < b)"
  by simp

lemma power_two_between_unique:
  fixes n :: nat
  assumes "2 ^ a \<le> n" "n < 2 ^ Suc a" "2 ^ b \<le> n" "n < 2 ^ Suc b"
  shows "a = b"
proof -
  have "(2::nat) ^ a < 2 ^ Suc b" and "(2::nat) ^ b < 2 ^ Suc a"
    using assms by linarith+
  then have "a < Suc b" and "b < Suc a"
    by (simp_all only: power_two_less_iff)
  then show ?thesis by simp
qed

lemma power_two_unique_up:
  fixes m :: nat
  assumes "m \<le> 2 ^ a" "2 ^ a < 2 * m" "m \<le> 2 ^ b" "2 ^ b < 2 * m"
  shows "a = b"
proof -
  have "(2::nat) ^ a < 2 ^ Suc b" and "(2::nat) ^ b < 2 ^ Suc a"
    using assms by simp_all
  then show ?thesis
    by (simp only: power_two_less_iff less_Suc_eq_le)
qed

section \<open>Lists updated by index\<close>

lemma nth_update_if:
  "j < length xs \<Longrightarrow> xs[i := v] ! j = (if i = j then v else xs ! j)"
  by (simp add: nth_list_update)

end
