(* ===== verification/Buddy_Bits.thy ===== *)
theory Buddy_Bits
  imports Prelude
begin

text \<open>
  The bit and integer helpers at the end of \<open>buddy_alloc.h\<close> (popcount, count trailing zeroes,
  highest bit position, ceiling power of two, integer square root), and what each of them
  computes. Every table is the source's table; every loop is the source's loop.
\<close>

section \<open>Definitions\<close>

definition popcount_lookup :: "nat list" where
  "popcount_lookup =
    [0,1,1,2,1,2,2,3,1,2,2,3,2,3,3,4,1,2,2,3,2,3,3,4,2,3,3,4,3,4,4,5,
     1,2,2,3,2,3,3,4,2,3,3,4,3,4,4,5,2,3,3,4,3,4,4,5,3,4,4,5,4,5,5,6,
     1,2,2,3,2,3,3,4,2,3,3,4,3,4,4,5,2,3,3,4,3,4,4,5,3,4,4,5,4,5,5,6,
     2,3,3,4,3,4,4,5,3,4,4,5,4,5,5,6,3,4,4,5,4,5,5,6,4,5,5,6,5,6,6,7,
     1,2,2,3,2,3,3,4,2,3,3,4,3,4,4,5,2,3,3,4,3,4,4,5,3,4,4,5,4,5,5,6,
     2,3,3,4,3,4,4,5,3,4,4,5,4,5,5,6,3,4,4,5,4,5,5,6,4,5,5,6,5,6,6,7,
     2,3,3,4,3,4,4,5,3,4,4,5,4,5,5,6,3,4,4,5,4,5,5,6,4,5,5,6,5,6,6,7,
     3,4,4,5,4,5,5,6,4,5,5,6,5,6,6,7,4,5,5,6,5,6,6,7,5,6,6,7,6,7,7,8]"

definition popcount_byte :: "8 word \<Rightarrow> nat" where
  "popcount_byte b = popcount_lookup ! unat b"

definition lookup67 :: "int list" where
  "lookup67 =
    [64,  0,  1, 39,  2, 15, 40, 23,
      3, 12, 16, 59, 41, 19, 24, 54,
      4, -1, 13, 10, 17, 62, 60, 28,
     42, 30, 20, 51, 25, 44, 55, 47,
      5, 32, -1, 38, 14, 22, 11, 58,
     18, 53, 63,  9, 61, 27, 29, 50,
     43, 46, 31, 37, 21, 57, 52,  8,
     26, 49, 45, 36, 56,  7, 48, 35,
      6, 34, 33, -1]"

text \<open>
  \<open>val & -val\<close> is taken on the unsigned 64-bit type; the table entry is a signed char that is
  converted to an unsigned one.
\<close>

definition count_trailing_zeroes :: "size_t \<Rightarrow> nat" where
  "count_trailing_zeroes val =
     nat (lookup67 ! ((val AND ((2 ^ 64 - val) mod 2 ^ 64)) mod 67) mod 256)"

fun highest_bit_loop :: "(size_t \<times> size_t) list \<Rightarrow> size_t \<Rightarrow> size_t \<Rightarrow> size_t" where
  "highest_bit_loop [] value result = result + value"
| "highest_bit_loop ((all_set, count) # rest) value result =
     (if value \<ge> all_set
      then highest_bit_loop rest (drop_bit count value) (result + count)
      else highest_bit_loop rest value result)"

definition highest_bit_position :: "size_t \<Rightarrow> size_t" where
  "highest_bit_position value =
     highest_bit_loop
       (zip [4294967295, 65535, 255, 15, 7, 3, 1] [32, 16, 8, 4, 2, 1, 1]) value 0"

definition two_to_the_power_of :: "size_t \<Rightarrow> size_t" where
  "two_to_the_power_of order = push_bit order 1 mod 2 ^ 64"

definition ceiling_power_of_two :: "size_t \<Rightarrow> size_t" where
  "ceiling_power_of_two value =
     (let value = value + (if value = 0 then 1 else 0)
      in two_to_the_power_of
           (highest_bit_position ((value + value - 1) mod 2 ^ 64) - 1))"

text \<open>
  The square root: \<open>isqrt_align\<close> is the first loop, which looks for the highest power of four
  that is at most the argument, \<open>isqrt_loop\<close> the second.
\<close>

function isqrt_align :: "size_t \<Rightarrow> size_t \<Rightarrow> size_t" where
  "isqrt_align cursor op =
     (if cursor > op then isqrt_align (drop_bit 2 cursor) op else cursor)"
  by pat_completeness auto
termination
  by (relation "measure fst") (auto simp: drop_bit_eq_div)

function isqrt_loop :: "size_t \<Rightarrow> size_t \<Rightarrow> size_t \<Rightarrow> size_t" where
  "isqrt_loop cursor op result =
     (if cursor \<noteq> 0
      then if op \<ge> result + cursor
           then isqrt_loop (drop_bit 2 cursor) (op - (result + cursor))
                  (drop_bit 1 (result + 2 * cursor))
           else isqrt_loop (drop_bit 2 cursor) op (drop_bit 1 result)
      else result)"
  by pat_completeness auto
termination
  by (relation "measure fst") (auto simp: drop_bit_eq_div)

definition integer_square_root :: "size_t \<Rightarrow> size_t" where
  "integer_square_root op =
     isqrt_loop (isqrt_align (drop_bit 1 ((2 ^ 64 - 1) - drop_bit 1 (2 ^ 64 - 1))) op) op 0"

declare isqrt_align.simps [simp del] isqrt_loop.simps [simp del]

section \<open>Popcount\<close>

text \<open>The 256-entry table is the doubling table: each half is the previous one plus one.\<close>

fun pop_table :: "nat \<Rightarrow> nat list" where
  "pop_table 0 = [0]"
| "pop_table (Suc k) = pop_table k @ map Suc (pop_table k)"

lemma popcount_lookup_pop_table: "popcount_lookup = pop_table 8"
  by (simp add: popcount_lookup_def eval_nat_numeral)

lemma length_pop_table [simp]: "length (pop_table k) = 2 ^ k"
  by (induction k) auto

lemma pop_table_nth:
  "n < 2 ^ k \<Longrightarrow> pop_table k ! n = card {i. i < k \<and> bit n i}"
proof (induction k arbitrary: n)
  case 0
  then show ?case by simp
next
  case (Suc k)
  show ?case
  proof (cases "n < 2 ^ k")
    case True
    then have "\<not> bit n k" by (simp add: bit_iff_odd)
    then have "{i. i < Suc k \<and> bit n i} = {i. i < k \<and> bit n i}"
      by (auto simp: less_Suc_eq)
    with Suc.IH [OF True] True show ?thesis by (simp add: nth_append)
  next
    case False
    define m where "m = n - 2 ^ k"
    have m: "m < 2 ^ k" and n: "n = m + 2 ^ k" using False Suc.prems by (auto simp: m_def)
    have "take_bit k n = m" using m by (simp add: n take_bit_eq_mod)
    then have low: "bit n i = bit m i" if "i < k" for i
      using that by (metis bit_take_bit_iff)
    have "bit n k" using m by (simp add: n bit_iff_odd div_add_self2)
    with low have "{i. i < Suc k \<and> bit n i} = insert k {i. i < k \<and> bit m i}"
      by (auto simp: less_Suc_eq)
    then show ?thesis using Suc.IH [OF m] m by (simp add: n nth_append)
  qed
qed

lemma popcount_byte_card: "popcount_byte b = card {i. i < 8 \<and> bit b i}"
proof -
  have "unat b < 2 ^ 8" using unsigned_less [of b] by simp
  then show ?thesis
    by (simp only: popcount_byte_def popcount_lookup_pop_table pop_table_nth)
      (simp add: bit_unsigned_iff)
qed

section \<open>Highest set bit\<close>

text \<open>The specification: the number of binary digits.\<close>

fun bit_len :: "nat \<Rightarrow> nat" where
  "bit_len v = (if v = 0 then 0 else Suc (bit_len (v div 2)))"

declare bit_len.simps [simp del]

lemma bit_len_0 [simp]: "bit_len 0 = 0"
  by (subst bit_len.simps) simp

lemma bit_len_pos: "0 < v \<Longrightarrow> bit_len v = Suc (bit_len (v div 2))"
  by (subst bit_len.simps) simp

lemma bit_len_le: "v < 2 ^ bit_len v"
proof (induction v rule: bit_len.induct)
  case (1 v)
  then show ?case by (cases "v = 0") (auto simp: bit_len_pos)
qed

lemma bit_len_ge: "0 < v \<Longrightarrow> 2 ^ (bit_len v - 1) \<le> v"
proof (induction v rule: bit_len.induct)
  case (1 v)
  show ?case
  proof (cases "v div 2 = 0")
    case True
    with 1 show ?thesis by (simp add: bit_len_pos)
  next
    case False
    with 1 have "2 ^ (bit_len (v div 2) - 1) \<le> v div 2" by simp
    moreover obtain k where "bit_len (v div 2) = Suc k" using False bit_len_pos by blast
    ultimately show ?thesis using 1 by (simp add: bit_len_pos)
  qed
qed

lemma bit_len_shift: "2 ^ c \<le> Suc v \<Longrightarrow> bit_len v = c + bit_len (drop_bit c v)"
proof (induction c arbitrary: v)
  case 0
  then show ?case by simp
next
  case (Suc c)
  have "(2::nat) \<le> 2 ^ Suc c" by simp
  with Suc.prems have pos: "0 < v" by linarith
  have "2 ^ c \<le> Suc (v div 2)" using Suc.prems by simp
  from Suc.IH [OF this] pos show ?case
    by (simp add: bit_len_pos drop_bit_Suc)
qed

lemma bit_len_small: "v < 16 \<Longrightarrow>
    highest_bit_loop (zip [7, 3, 1] [2, 1, 1]) v r = r + bit_len v"
proof -
  have "\<forall>v \<in> {..<16}. highest_bit_loop (zip [7, 3, 1] [2, 1, 1]) v r = r + bit_len v"
    by (simp add: lessThan_nat_numeral lessThan_Suc bit_len_pos drop_bit_eq_div)
  then show "v < 16 \<Longrightarrow> ?thesis" by simp
qed

lemma highest_bit_loop_step:
  assumes "2 ^ c = Suc a" and "v < 2 ^ (2 * c)"
    and "\<And>v r. v < 2 ^ c \<Longrightarrow> highest_bit_loop rest v r = r + bit_len v"
  shows "highest_bit_loop ((a, c) # rest) v r = r + bit_len v"
proof (cases "v \<ge> a")
  case True
  have "drop_bit c v < 2 ^ c"
    using assms(2) by (simp add: drop_bit_eq_div less_mult_imp_div_less power_add [symmetric] mult_2 [symmetric])
  with True assms bit_len_shift [of c v] show ?thesis by simp
next
  case False
  with assms show ?thesis by simp
qed

lemma highest_bit_position_bit_len:
  assumes "v < 2 ^ 64"
  shows "highest_bit_position v = bit_len v"
proof -
  have 1: "highest_bit_loop (zip [15, 7, 3, 1] [4, 2, 1, 1]) v r = r + bit_len v" if "v < 2 ^ 8" for v r
    using highest_bit_loop_step [of 4 15 v "zip [7, 3, 1] [2, 1, 1]" r] bit_len_small that by simp
  have 2: "highest_bit_loop (zip [255, 15, 7, 3, 1] [8, 4, 2, 1, 1]) v r = r + bit_len v" if "v < 2 ^ 16" for v r
    using highest_bit_loop_step [of 8 255 v "zip [15, 7, 3, 1] [4, 2, 1, 1]" r] 1 that by simp
  have 3: "highest_bit_loop (zip [65535, 255, 15, 7, 3, 1] [16, 8, 4, 2, 1, 1]) v r = r + bit_len v"
    if "v < 2 ^ 32" for v r
    using highest_bit_loop_step [of 16 65535 v "zip [255, 15, 7, 3, 1] [8, 4, 2, 1, 1]" r] 2 that by simp
  show ?thesis
    using highest_bit_loop_step [of 32 4294967295 v "zip [65535, 255, 15, 7, 3, 1] [16, 8, 4, 2, 1, 1]" 0]
      3 assms by (simp add: highest_bit_position_def)
qed

section \<open>Ceiling power of two\<close>

lemma two_to_the_power_of_eq [simp]: "k < 64 \<Longrightarrow> two_to_the_power_of k = 2 ^ k"
  using power_strict_increasing [of k 64 "2::nat"]
  by (simp add: two_to_the_power_of_def push_bit_eq_mult)

lemma ceiling_power_of_two_spec:
  assumes "0 < v" "v \<le> 2 ^ 63"
  shows "\<exists>k \<le> 63. ceiling_power_of_two v = 2 ^ k \<and> v \<le> 2 ^ k \<and> 2 ^ k < 2 * v"
proof -
  define w where "w = v + v - 1"
  have w: "0 < w" "w < 2 ^ 64" using assms by (auto simp: w_def)
  obtain k where k: "bit_len w = Suc k" using w(1) bit_len_pos by blast
  have lo: "2 ^ k \<le> w" and hi: "w < 2 ^ Suc k"
    using bit_len_ge [OF w(1)] bit_len_le [of w] by (simp_all add: k)
  have "(2::nat) ^ k < 2 ^ 64" using lo w(2) by linarith
  then have k63: "k \<le> 63" by (simp only: power_two_less_iff)
  have "ceiling_power_of_two v = 2 ^ k"
    using assms(1) w k63
    by (simp add: ceiling_power_of_two_def highest_bit_position_bit_len k flip: w_def One_nat_def)
  with lo hi k63 assms show ?thesis by (auto simp: w_def intro!: exI [of _ k])
qed

lemma ceiling_power_of_two_eqI:
  assumes "0 < v" "v \<le> 2 ^ 63" "v \<le> 2 ^ k" "2 ^ k < 2 * v"
  shows "ceiling_power_of_two v = 2 ^ k"
  using ceiling_power_of_two_spec [OF assms(1,2)] power_two_unique_up [of v k] assms(3,4) by metis

lemma ceiling_power_of_two_power [simp]: "k \<le> 63 \<Longrightarrow> ceiling_power_of_two (2 ^ k) = 2 ^ k"
  using power_increasing [of k 63 "2::nat"]
  by (intro ceiling_power_of_two_eqI) simp_all

lemma ceiling_power_of_two_0 [simp]: "ceiling_power_of_two 0 = 1"
  using ceiling_power_of_two_power [of 0] by (simp add: ceiling_power_of_two_def)

text \<open>Above \<open>2 ^ 63\<close> the doubling in the source wraps, and the result is too small.\<close>

lemma ceiling_power_of_two_wraps:
  assumes "0 < d" "2 ^ 63 + d < 2 ^ 64"
  shows "ceiling_power_of_two (2 ^ 63 + d) = ceiling_power_of_two d"
proof -
  have "2 ^ 63 + d + (2 ^ 63 + d) - 1 = (d + d - 1) + (2 ^ 64 :: nat)"
    using assms by simp
  then have "(2 ^ 63 + d + (2 ^ 63 + d) - 1) mod 2 ^ 64 = (d + d - 1) mod (2 ^ 64 :: nat)"
    by (simp only: mod_add_self2)
  then show ?thesis
    using assms by (simp only: ceiling_power_of_two_def Let_def) simp
qed

section \<open>Trailing zeroes\<close>

lemma and_complement: "(a::nat) < 2 ^ n \<Longrightarrow> a AND (2 ^ n - 1 - a) = 0"
proof (induction n arbitrary: a)
  case 0
  then show ?case by simp
next
  case (Suc n)
  have "a div 2 < 2 ^ n" using Suc.prems by auto
  from Suc.IH [OF this] have "a div 2 AND (2 ^ n - 1 - a div 2) = 0" .
  moreover have "(2 ^ Suc n - 1 - a) div 2 = 2 ^ n - 1 - a div 2" 
    using Suc.prems by simp
  moreover have "odd (2 ^ Suc n - 1 - a) = even a" using Suc.prems by auto
  ultimately show ?case by (subst and_rec) simp
qed

lemma and_minus_odd:
  assumes "odd m" "m < 2 ^ j"
  shows "(m::nat) AND (2 ^ j - m) = 1"
proof -
  obtain a where a: "m = 2 * a + 1" using assms(1) by (auto elim: oddE)
  obtain n where j: "j = Suc n" using assms a by (cases j) auto
  have an: "a < 2 ^ n" using assms(2) by (simp add: a j)
  have eq: "2 ^ j - m = 2 * (2 ^ n - 1 - a) + 1" using an by (simp add: a j)
  have "(2 * a + 1) AND (2 * b + 1) = 2 * (a AND b) + 1" for b :: nat
    by (subst and_rec) simp
  then have "(2 * a + 1) AND (2 * (2 ^ n - 1 - a) + 1) = 1"
    using and_complement [OF an] by simp
  then show ?thesis by (simp only: eq flip: a)
qed

lemma and_minus_lowest:
  assumes "odd m" "2 ^ k * m < 2 ^ n"
  shows "(2 ^ k * m) AND (2 ^ n - 2 ^ k * m) = (2 ^ k :: nat)"
proof -
  have "2 ^ k * 1 \<le> 2 ^ k * m" using assms(1) by (cases m) auto
  then have "(2::nat) ^ k < 2 ^ n" using assms(2) by linarith
  then have kn: "k < n" by (simp only: power_two_less_iff)
  then have "(2::nat) ^ n = 2 ^ k * 2 ^ (n - k)" by (simp add: power_add [symmetric])
  with assms(2) have lt: "m < 2 ^ (n - k)" and
    eq: "2 ^ n - 2 ^ k * m = 2 ^ k * (2 ^ (n - k) - m)" by (simp_all add: diff_mult_distrib2)
  have "push_bit k m AND push_bit k (2 ^ (n - k) - m) = push_bit k 1"
    by (simp only: push_bit_and [symmetric] and_minus_odd [OF assms(1) lt])
  then show ?thesis
    by (simp only: push_bit_eq_mult mult.commute [of _ "2 ^ k"] eq mult_1_right)
qed

lemma lookup67_power: "k < 64 \<Longrightarrow> lookup67 ! (2 ^ k mod 67) = int k"
proof -
  have "\<forall>k \<in> {..<64}. lookup67 ! (2 ^ k mod 67) = int k"
    by (simp add: lessThan_nat_numeral lessThan_Suc lookup67_def)
  then show "k < 64 \<Longrightarrow> ?thesis" by simp
qed

lemma count_trailing_zeroes_spec:
  assumes "odd m" "2 ^ k * m < 2 ^ 64"
  shows "count_trailing_zeroes (2 ^ k * m) = k"
proof -
  have "2 ^ k * 1 \<le> 2 ^ k * m" using assms(1) by (cases m) auto
  then have "(2::nat) ^ k < 2 ^ 64" using assms(2) by linarith
  then have k: "k < 64" by (simp only: power_two_less_iff)
  have "0 < 2 ^ k * m" using assms(1) by (cases m) auto
  then have "(2 ^ 64 - 2 ^ k * m) mod 2 ^ 64 = 2 ^ 64 - 2 ^ k * m" by simp
  then show ?thesis
    using and_minus_lowest [OF assms] k lookup67_power [OF k]
    by (simp add: count_trailing_zeroes_def del: mod_less)
qed

lemma count_trailing_zeroes_power [simp]: "k < 64 \<Longrightarrow> count_trailing_zeroes (2 ^ k) = k"
  using count_trailing_zeroes_spec [of 1 k] power_strict_increasing [of k 64 "2::nat"] by simp

section \<open>Integer square root\<close>

lemma four_power: "(4::nat) ^ k = 2 ^ k * 2 ^ k"
  by (simp add: power_mult_distrib [symmetric])

lemma isqrt_loop_spec:
  assumes "R * R + rest = n" "n < (R + 2 ^ Suc k) * (R + 2 ^ Suc k)" "2 ^ Suc k dvd R"
  shows "\<exists>r. isqrt_loop (4 ^ k) rest (2 ^ Suc k * R) = r \<and> r * r \<le> n \<and> n < (r + 1) * (r + 1)"
  using assms
proof (induction k arbitrary: R rest)
  case 0
  have stop: "isqrt_loop 0 op r = r" for op r by (subst isqrt_loop.simps) simp
  have half: "(2 * R + 2) div 2 = R + 1" by simp
  show ?case
  proof (cases "rest \<ge> 2 * R + 1")
    case True
    then have "isqrt_loop (4 ^ 0) rest (2 ^ Suc 0 * R) = R + 1"
      by (subst isqrt_loop.simps) (simp add: stop drop_bit_eq_div half)
    then show ?thesis using 0 True by (simp add: algebra_simps)
  next
    case False
    then have "isqrt_loop (4 ^ 0) rest (2 ^ Suc 0 * R) = R"
      by (subst isqrt_loop.simps) (simp add: stop drop_bit_eq_div)
    then show ?thesis using 0 False by (simp add: algebra_simps)
  qed
next
  case (Suc k)
  have quarter: "drop_bit 2 (4 ^ Suc k) = (4 ^ k :: nat)" by (simp add: drop_bit_eq_div)
  let ?R' = "R + 2 ^ Suc k"
  show ?case
  proof (cases "rest \<ge> 2 ^ Suc (Suc k) * R + 4 ^ Suc k")
    case True
    have "?R' * ?R' + (rest - (2 ^ Suc (Suc k) * R + 4 ^ Suc k)) = n"
      using Suc.prems(1) True by (simp add: four_power algebra_simps)
    moreover have "n < (?R' + 2 ^ Suc k) * (?R' + 2 ^ Suc k)"
      using Suc.prems(2) by (simp add: algebra_simps)
    moreover have "2 ^ Suc k dvd ?R'" using Suc.prems(3)
      by (meson dvd_add dvd_refl dvd_trans le_imp_power_dvd le_SucI order_refl)
    ultimately have "\<exists>r. isqrt_loop (4 ^ k) (rest - (2 ^ Suc (Suc k) * R + 4 ^ Suc k)) (2 ^ Suc k * ?R') = r \<and> r * r \<le> n \<and> n < (r + 1) * (r + 1)"
      by (rule Suc.IH)
    moreover have "2 ^ Suc (Suc k) * R + 2 * 4 ^ Suc k = 2 * (2 ^ Suc k * ?R')"
      by (simp add: four_power algebra_simps)
    then have "drop_bit 1 (2 ^ Suc (Suc k) * R + 2 * 4 ^ Suc k) = 2 ^ Suc k * ?R'"
      by (simp only: drop_bit_eq_div power_one_right nonzero_mult_div_cancel_left zero_neq_numeral not_False_eq_True)
    ultimately show ?thesis using True
      by (subst isqrt_loop.simps) (simp add: quarter del: power_Suc)
  next
    case False
    have "rest < 2 ^ Suc (Suc k) * R + 4 ^ Suc k" using False by simp
    then have "n < ?R' * ?R'" using Suc.prems(1) by (simp add: four_power algebra_simps)
    moreover have "2 ^ Suc k dvd R" using Suc.prems(3)
      by (meson dvd_trans le_imp_power_dvd le_SucI order_refl)
    ultimately have "\<exists>r. isqrt_loop (4 ^ k) rest (2 ^ Suc k * R) = r \<and> r * r \<le> n \<and> n < (r + 1) * (r + 1)"
      using Suc.prems(1) Suc.IH by blast
    moreover have "drop_bit 1 (2 ^ Suc (Suc k) * R) = 2 ^ Suc k * R"
      by (simp add: drop_bit_eq_div)
    ultimately show ?thesis using False
      by (subst isqrt_loop.simps) (simp add: quarter del: power_Suc)
  qed
qed

lemma isqrt_align_spec:
  assumes "n < 4 ^ Suc k"
  shows "\<exists>j. (isqrt_align (4 ^ k) n = 4 ^ j \<and> n < 4 ^ Suc j) \<or> (isqrt_align (4 ^ k) n = 0 \<and> n = 0)"
  using assms
proof (induction k)
  case 0
  have "isqrt_align 0 0 = 0" by (subst isqrt_align.simps) simp
  then have "isqrt_align 1 0 = 0" by (subst isqrt_align.simps) (simp add: drop_bit_eq_div)
  moreover have "isqrt_align 1 n = 4 ^ 0" if "n \<noteq> 0"
    using that by (subst isqrt_align.simps) simp
  ultimately show ?case using 0 by (cases "n = 0") (auto intro!: exI [of _ 0])
next
  case (Suc k)
  have quarter: "drop_bit 2 (4 ^ Suc k) = (4 ^ k :: nat)" by (simp add: drop_bit_eq_div)
  show ?case
  proof (cases "4 ^ Suc k > n")
    case True
    with Suc.IH show ?thesis by (subst isqrt_align.simps, subst (2) isqrt_align.simps) (simp add: quarter del: power_Suc)
  next
    case False
    with Suc.prems show ?thesis by (subst isqrt_align.simps) (auto intro!: exI [of _ "Suc k"])
  qed
qed

lemma integer_square_root_spec:
  assumes "n < 2 ^ 64"
  shows "integer_square_root n * integer_square_root n \<le> n
    \<and> n < (integer_square_root n + 1) * (integer_square_root n + 1)"
proof -
  have start: "drop_bit 1 ((2 ^ 64 - 1) - drop_bit 1 (2 ^ 64 - 1)) = (4 ^ 31 :: nat)"
    by (simp add: drop_bit_eq_div)
  have "n < 4 ^ Suc 31" using assms by simp
  from isqrt_align_spec [OF this] obtain j where
    "isqrt_align (4 ^ 31) n = 4 ^ j \<and> n < 4 ^ Suc j \<or> isqrt_align (4 ^ 31) n = 0 \<and> n = 0" ..
  then show ?thesis
  proof (elim disjE conjE)
    assume 1: "isqrt_align (4 ^ 31) n = 4 ^ j" "n < 4 ^ Suc j"
    have "n < (0 + 2 ^ Suc j) * (0 + 2 ^ Suc j)" using 1(2) by (simp only: four_power add_0)
    from isqrt_loop_spec [OF _ this, of n] 1(1) show ?thesis
      by (simp add: integer_square_root_def start del: power_Suc)
  next
    assume "isqrt_align (4 ^ 31) n = 0" "n = 0"
    then show ?thesis by (simp add: integer_square_root_def start isqrt_loop.simps [of 0])
  qed
qed

end
