(* ===== verification/Buddy_Bitset.thy ===== *)
theory Buddy_Bitset
  imports Buddy_Bits
begin

text \<open>
  The char-backed bitset of \<open>buddy_alloc.h\<close>: a list of bytes, the mask tables, and the range
  operations that work bytewise. \<open>bit_at\<close> is the abstraction: the bit of the list of bytes
  with a given number. Each operation is shown to be the expected one on bits.
\<close>

section \<open>Definitions\<close>

type_synonym bitset = "8 word list"

definition bitset_sizeof :: "size_t \<Rightarrow> size_t" where
  "bitset_sizeof elements = (elements + CHAR_BIT - 1) div CHAR_BIT"

definition bitset_index_mask :: "8 word list" where
  "bitset_index_mask = [1, 2, 4, 8, 16, 32, 64, 128]"

definition bitset_set :: "bitset \<Rightarrow> size_t \<Rightarrow> bitset" where
  "bitset_set bitset pos =
     (let bucket = pos div CHAR_BIT; index = pos mod CHAR_BIT
      in bitset[bucket := bitset ! bucket OR bitset_index_mask ! index])"

definition bitset_clear :: "bitset \<Rightarrow> size_t \<Rightarrow> bitset" where
  "bitset_clear bitset pos =
     (let bucket = pos div CHAR_BIT; index = pos mod CHAR_BIT
      in bitset[bucket := bitset ! bucket AND NOT (bitset_index_mask ! index)])"

definition bitset_test :: "bitset \<Rightarrow> size_t \<Rightarrow> bool" where
  "bitset_test bitset pos =
     (let bucket = pos div CHAR_BIT; index = pos mod CHAR_BIT
      in bitset ! bucket AND bitset_index_mask ! index \<noteq> 0)"

definition bitset_char_mask :: "8 word list list" where
  "bitset_char_mask =
    [[1, 3, 7, 15, 31, 63, 127, 255],
     [0, 2, 6, 14, 30, 62, 126, 254],
     [0, 0, 4, 12, 28, 60, 124, 252],
     [0, 0, 0,  8, 24, 56, 120, 248],
     [0, 0, 0,  0, 16, 48, 112, 240],
     [0, 0, 0,  0,  0, 32,  96, 224],
     [0, 0, 0,  0,  0,  0,  64, 192],
     [0, 0, 0,  0,  0,  0,   0, 128]]"

record bitset_range =
  from_bucket :: size_t
  to_bucket :: size_t
  from_index :: nat
  to_index :: nat

definition to_bitset_range :: "size_t \<Rightarrow> size_t \<Rightarrow> bitset_range" where
  "to_bitset_range from_pos to_pos =
     \<lparr>from_bucket = from_pos div CHAR_BIT, to_bucket = to_pos div CHAR_BIT,
      from_index = from_pos mod CHAR_BIT, to_index = to_pos mod CHAR_BIT\<rparr>"

text \<open>\<open>memset (bitset + start, value, n)\<close> on the bytes of the bitset.\<close>

definition memset_bytes :: "bitset \<Rightarrow> nat \<Rightarrow> 8 word \<Rightarrow> nat \<Rightarrow> bitset" where
  "memset_bytes bitset start value n =
     take start bitset @ replicate n value @ drop (start + n) bitset"

definition bitset_set_range :: "bitset \<Rightarrow> bitset_range \<Rightarrow> bitset" where
  "bitset_set_range bitset rng =
     (if from_bucket rng = to_bucket rng
      then bitset[from_bucket rng := bitset ! from_bucket rng OR
             bitset_char_mask ! from_index rng ! to_index rng]
      else
        let b1 = bitset[from_bucket rng := bitset ! from_bucket rng OR
                   bitset_char_mask ! from_index rng ! 7];
            b2 = b1[to_bucket rng := b1 ! to_bucket rng OR
                   bitset_char_mask ! 0 ! to_index rng];
            from' = from_bucket rng + 1
        in if to_bucket rng - from' \<noteq> 0
           then memset_bytes b2 from' 255 (to_bucket rng - from')
           else b2)"

definition bitset_clear_range :: "bitset \<Rightarrow> bitset_range \<Rightarrow> bitset" where
  "bitset_clear_range bitset rng =
     (if from_bucket rng = to_bucket rng
      then bitset[from_bucket rng := bitset ! from_bucket rng AND
             NOT (bitset_char_mask ! from_index rng ! to_index rng)]
      else
        let b1 = bitset[from_bucket rng := bitset ! from_bucket rng AND
                   NOT (bitset_char_mask ! from_index rng ! 7)];
            b2 = b1[to_bucket rng := b1 ! to_bucket rng AND
                   NOT (bitset_char_mask ! 0 ! to_index rng)];
            from' = from_bucket rng + 1
        in if to_bucket rng - from' \<noteq> 0
           then memset_bytes b2 from' 0 (to_bucket rng - from')
           else b2)"

text \<open>The loop \<open>while (++from_bucket != to_bucket)\<close>, entered with \<open>from_bucket < to_bucket\<close>.\<close>

function count_buckets :: "bitset \<Rightarrow> size_t \<Rightarrow> size_t \<Rightarrow> size_t" where
  "count_buckets bitset from_b to_b =
     (if Suc from_b < to_b
      then popcount_byte (bitset ! Suc from_b) + count_buckets bitset (Suc from_b) to_b
      else 0)"
  by pat_completeness auto
termination
  by (relation "measure (\<lambda>(b, f, t). t - f)") auto

definition bitset_count_range :: "bitset \<Rightarrow> bitset_range \<Rightarrow> size_t" where
  "bitset_count_range bitset rng =
     (if from_bucket rng = to_bucket rng
      then popcount_byte (bitset ! from_bucket rng AND
             bitset_char_mask ! from_index rng ! to_index rng)
      else popcount_byte (bitset ! from_bucket rng AND bitset_char_mask ! from_index rng ! 7)
         + popcount_byte (bitset ! to_bucket rng AND bitset_char_mask ! 0 ! to_index rng)
         + count_buckets bitset (from_bucket rng) (to_bucket rng))"

text \<open>One iteration of the shift loops: move the bit at \<open>at\<close> to \<open>dst\<close>, then clear it.\<close>

definition bitset_move_bit :: "bitset \<Rightarrow> size_t \<Rightarrow> size_t \<Rightarrow> bitset" where
  "bitset_move_bit bitset at dst =
     bitset_clear (if bitset_test bitset at then bitset_set bitset dst
                   else bitset_clear bitset dst) at"

fun bitset_shift_left_loop :: "bitset \<Rightarrow> size_t \<Rightarrow> size_t \<Rightarrow> size_t \<Rightarrow> bitset" where
  "bitset_shift_left_loop bitset at 0 by_n = bitset"
| "bitset_shift_left_loop bitset at (Suc n) by_n =
     bitset_shift_left_loop (bitset_move_bit bitset at (at - by_n)) (Suc at) n by_n"

definition bitset_shift_left :: "bitset \<Rightarrow> size_t \<Rightarrow> size_t \<Rightarrow> size_t \<Rightarrow> bitset" where
  "bitset_shift_left bitset from_pos to_pos by_n =
     bitset_shift_left_loop bitset from_pos (to_pos - from_pos) by_n"

text \<open>
  The right shift counts a signed \<open>length\<close> down to zero inclusive, so it also moves the bit at
  \<open>to_pos\<close>. A byte behind the list is memory that the model does not have: the code writes to it, the
  list stays as it is, and what is said of the shift is said of shifts that stay inside.
\<close>

fun bitset_shift_right_loop :: "bitset \<Rightarrow> size_t \<Rightarrow> nat \<Rightarrow> size_t \<Rightarrow> bitset" where
  "bitset_shift_right_loop bitset from_pos 0 by_n =
     bitset_move_bit bitset from_pos ((from_pos + by_n) mod 2 ^ 64)"
| "bitset_shift_right_loop bitset from_pos (Suc length_n) by_n =
     bitset_shift_right_loop
       (bitset_move_bit bitset (from_pos + Suc length_n) ((from_pos + Suc length_n + by_n) mod 2 ^ 64))
       from_pos length_n by_n"

definition bitset_shift_right :: "bitset \<Rightarrow> size_t \<Rightarrow> size_t \<Rightarrow> size_t \<Rightarrow> bitset" where
  "bitset_shift_right bitset from_pos to_pos by_n =
     (if to_pos < from_pos then bitset
      else bitset_shift_right_loop bitset from_pos (to_pos - from_pos) by_n)"

declare count_buckets.simps [simp del]

section \<open>Bits of a bitset\<close>

definition bit_at :: "bitset \<Rightarrow> nat \<Rightarrow> bool" where
  "bit_at bs i \<longleftrightarrow> bit (bs ! (i div 8)) (i mod 8)"

lemma less_8_cases:
  "(i::nat) < 8 \<Longrightarrow> i = 0 \<or> i = 1 \<or> i = 2 \<or> i = 3 \<or> i = 4 \<or> i = 5 \<or> i = 6 \<or> i = 7"
  by arith

lemma index_mask_power: "i < 8 \<Longrightarrow> bitset_index_mask ! i = 2 ^ i"
  by (drule less_8_cases) (auto simp: bitset_index_mask_def)

lemma bit_index_mask: "i < 8 \<Longrightarrow> bit (bitset_index_mask ! i) j \<longleftrightarrow> j = i"
  by (auto simp: index_mask_power bit_exp_iff)

definition char_mask_bits :: bool where
  "char_mask_bits \<longleftrightarrow> (\<forall>a \<in> set [0..<8]. \<forall>b \<in> set [0..<8]. \<forall>j \<in> set [0..<8].
     bit (bitset_char_mask ! a ! b) j = (a \<le> j \<and> j \<le> b))"

lemma char_mask_bits: char_mask_bits
  unfolding char_mask_bits_def by code_simp

lemma bit_char_mask:
  "a < 8 \<Longrightarrow> b < 8 \<Longrightarrow> bit (bitset_char_mask ! a ! b) j = (a \<le> j \<and> j \<le> b)"
proof (cases "j < 8")
  case True
  then show "a < 8 \<Longrightarrow> b < 8 \<Longrightarrow> ?thesis"
    using char_mask_bits unfolding char_mask_bits_def by simp
next
  case False
  then show "a < 8 \<Longrightarrow> b < 8 \<Longrightarrow> ?thesis"
    using bit_imp_le_length [of "bitset_char_mask ! a ! b" j] by auto
qed

lemma div_8_less: "i < 8 * n \<Longrightarrow> i div 8 < (n::nat)"
  by (simp add: less_mult_imp_div_less mult.commute)

lemma same_bucket_bit: "(i::nat) div 8 = p div 8 \<and> i mod 8 = p mod 8 \<longleftrightarrow> i = p"
  by (metis div_mult_mod_eq)

lemma bitset_test_bit_at: "bitset_test bs pos = bit_at bs pos"
proof -
  have "bs ! (pos div 8) AND bitset_index_mask ! (pos mod 8) \<noteq> 0 \<longleftrightarrow>
      bit (bs ! (pos div 8)) (pos mod 8)"
    using bit_index_mask [of "pos mod 8"] by (subst bit_eq_iff) (auto simp: bit_and_iff)
  then show ?thesis by (simp add: bitset_test_def bit_at_def Let_def)
qed

lemma bit_at_update:
  assumes "i < 8 * length bs"
  shows "bit_at (bs[k := w]) i = (if i div 8 = k then bit w (i mod 8) else bit_at bs i)"
  using div_8_less [OF assms] by (auto simp: bit_at_def nth_list_update)

lemma length_bitset_ops [simp]:
  "length (bitset_set bs p) = length bs"
  "length (bitset_clear bs p) = length bs"
  "length (bitset_move_bit bs p q) = length bs"
  by (simp_all add: bitset_set_def bitset_clear_def bitset_move_bit_def Let_def)

lemma bit_at_set:
  "i < 8 * length bs \<Longrightarrow> bit_at (bitset_set bs p) i = (i = p \<or> bit_at bs i)"
  using same_bucket_bit [of i p]
  by (auto simp: bitset_set_def Let_def bit_at_update bit_or_iff bit_index_mask) (auto simp: bit_at_def)

lemma bit_at_clear:
  "i < 8 * length bs \<Longrightarrow> bit_at (bitset_clear bs p) i = (i \<noteq> p \<and> bit_at bs i)"
  using same_bucket_bit [of i p]
  by (auto simp: bitset_clear_def Let_def bit_at_update bit_and_iff bit_not_iff bit_index_mask)
    (auto simp: bit_at_def)

section \<open>Ranges\<close>

lemma length_memset [simp]:
  "start + n \<le> length bs \<Longrightarrow> length (memset_bytes bs start v n) = length bs"
  by (simp add: memset_bytes_def)

lemma memset_nth:
  assumes "start + n \<le> length bs" "j < length bs"
  shows "memset_bytes bs start v n ! j = (if start \<le> j \<and> j < start + n then v else bs ! j)"
  using assms by (auto simp: memset_bytes_def nth_append min_def)

lemma bit_at_memset:
  assumes "start + n \<le> length bs" "i < 8 * length bs"
  shows "bit_at (memset_bytes bs start v n) i =
    (if start \<le> i div 8 \<and> i div 8 < start + n then bit v (i mod 8) else bit_at bs i)"
  using assms div_8_less [OF assms(2)] by (simp add: bit_at_def memset_nth)

lemma le_by_bucket:
  fixes a i :: nat
  shows "a \<le> i \<longleftrightarrow> a div 8 < i div 8 \<or> (a div 8 = i div 8 \<and> a mod 8 \<le> i mod 8)"
proof -
  have "8 * qa + ra \<le> 8 * qi + ri \<longleftrightarrow> qa < qi \<or> (qa = qi \<and> ra \<le> ri)"
    if "ra < 8" "ri < 8" for qa ra qi ri :: nat
    using that by arith
  from this [of "a mod 8" "i mod 8" "a div 8" "i div 8"] show ?thesis by simp
qed

lemma between_by_bucket:
  fixes a b i :: nat
  assumes "a div 8 < b div 8"
  shows "a \<le> i \<and> i \<le> b \<longleftrightarrow>
    (i div 8 = a div 8 \<and> a mod 8 \<le> i mod 8) \<or> (i div 8 = b div 8 \<and> i mod 8 \<le> b mod 8)
    \<or> (a div 8 < i div 8 \<and> i div 8 < b div 8)"
  using assms by (subst (1 2) le_by_bucket) auto

lemma bit_255_int: "bit (255 :: int) j \<longleftrightarrow> j < 8"
proof -
  have 255: "(255 :: int) = mask 8" by (simp add: mask_eq_exp_minus_1)
  show ?thesis unfolding 255 by (auto simp: bit_mask_iff)
qed

lemma mod_8_le_7: "(i::nat) mod 8 \<le> 7"
  using mod_less_divisor [of 8 i] by linarith

lemma between_same_bucket:
  fixes a b i :: nat
  assumes "a div 8 = b div 8"
  shows "a \<le> i \<and> i \<le> b \<longleftrightarrow> i div 8 = a div 8 \<and> a mod 8 \<le> i mod 8 \<and> i mod 8 \<le> b mod 8"
  using assms by (subst (1 2) le_by_bucket) auto

lemma bit_255: "bit (255 :: 8 word) j \<longleftrightarrow> j < 8"
proof -
  have 255: "(255 :: 8 word) = mask 8" by (simp add: mask_eq_exp_minus_1)
  show ?thesis unfolding 255 by (auto simp: bit_mask_iff)
qed

lemma memset_zero [simp]: "memset_bytes bs start v 0 = bs"
  by (simp add: memset_bytes_def)

lemma memset_if [simp]:
  "(if n \<noteq> 0 then memset_bytes bs start v n else bs) = memset_bytes bs start v n"
  by simp

text \<open>
  A range over two or more bytes: two masked end bytes, then a constant run between them. \<open>g\<close> is
  the effect on an end byte.
\<close>

lemma bit_at_two_ends:
  assumes lt: "a div 8 < b div 8" and bl: "b div 8 < length bs" and i: "i < 8 * length bs"
    and b1: "b1 = bs[a div 8 := wa]"
    and b2: "b2 = memset_bytes (b1[b div 8 := wb]) (a div 8 + 1) v (b div 8 - (a div 8 + 1))"
  shows "bit_at b2 i =
    (if i div 8 = a div 8 then bit wa (i mod 8)
     else if i div 8 = b div 8 then bit wb (i mod 8)
     else if a div 8 < i div 8 \<and> i div 8 < b div 8 then bit v (i mod 8)
     else bit_at bs i)"
proof -
  have "bit_at b2 i = (if a div 8 + 1 \<le> i div 8 \<and> i div 8 < b div 8 then bit v (i mod 8)
      else bit_at (b1[b div 8 := wb]) i)"
    using lt bl i by (simp add: b1 b2 bit_at_memset)
  moreover have "bit_at (b1[b div 8 := wb]) i =
      (if i div 8 = b div 8 then bit wb (i mod 8)
       else if i div 8 = a div 8 then bit wa (i mod 8) else bit_at bs i)"
    using i by (simp add: b1 bit_at_update)
  ultimately show ?thesis using lt by (simp only: Suc_eq_plus1 [symmetric] Suc_le_eq) simp
qed

lemma range_ops_two_ends:
  assumes "a div 8 < b div 8"
  shows "bitset_set_range bs (to_bitset_range a b) =
      memset_bytes (bs[a div 8 := bs ! (a div 8) OR bitset_char_mask ! (a mod 8) ! 7,
          b div 8 := bs ! (b div 8) OR bitset_char_mask ! 0 ! (b mod 8)])
        (a div 8 + 1) 255 (b div 8 - (a div 8 + 1))"
    and "bitset_clear_range bs (to_bitset_range a b) =
      memset_bytes (bs[a div 8 := bs ! (a div 8) AND NOT (bitset_char_mask ! (a mod 8) ! 7),
          b div 8 := bs ! (b div 8) AND NOT (bitset_char_mask ! 0 ! (b mod 8))])
        (a div 8 + 1) 0 (b div 8 - (a div 8 + 1))"
  using assms
  by (simp_all only: bitset_set_range_def bitset_clear_range_def to_bitset_range_def Let_def
      bitset_range.simps memset_if less_imp_neq if_False) simp_all

lemma bitset_set_range_spec:
  assumes "a \<le> b" "b < 8 * length bs"
  shows "length (bitset_set_range bs (to_bitset_range a b)) = length bs"
    and "i < 8 * length bs \<Longrightarrow> bit_at (bitset_set_range bs (to_bitset_range a b)) i =
      (a \<le> i \<and> i \<le> b \<or> bit_at bs i)"
proof -
  have bl: "b div 8 < length bs" using div_8_less [OF assms(2)] .
  have ab: "a div 8 \<le> b div 8" using assms(1) by (simp add: div_le_mono)
  show "length (bitset_set_range bs (to_bitset_range a b)) = length bs"
    using bl by (simp add: bitset_set_range_def to_bitset_range_def Let_def)
  assume i: "i < 8 * length bs"
  show "bit_at (bitset_set_range bs (to_bitset_range a b)) i = (a \<le> i \<and> i \<le> b \<or> bit_at bs i)"
  proof (cases "a div 8 = b div 8")
    case True
    then show ?thesis
      using i unfolding between_same_bucket [OF True]
      by (auto simp: bitset_set_range_def to_bitset_range_def bit_at_update bit_or_iff bit_char_mask)
        (auto simp: bit_at_def)
  next
    case False
    with ab have lt: "a div 8 < b div 8" by simp
    have "bit_at (bitset_set_range bs (to_bitset_range a b)) i =
      (if i div 8 = a div 8 then bit_at bs i \<or> a mod 8 \<le> i mod 8
       else if i div 8 = b div 8 then bit_at bs i \<or> i mod 8 \<le> b mod 8
       else a div 8 < i div 8 \<and> i div 8 < b div 8 \<or> bit_at bs i)"
      unfolding range_ops_two_ends [OF lt] bit_at_two_ends [OF lt bl i refl refl]
      by (auto simp: mod_8_le_7 bit_at_def [of bs] bit_or_iff bit_char_mask bit_255_int)
    then show ?thesis unfolding between_by_bucket [OF lt] using lt by (cases "i div 8 = a div 8") auto
  qed
qed

lemma bitset_clear_range_spec:
  assumes "a \<le> b" "b < 8 * length bs"
  shows "length (bitset_clear_range bs (to_bitset_range a b)) = length bs"
    and "i < 8 * length bs \<Longrightarrow> bit_at (bitset_clear_range bs (to_bitset_range a b)) i =
      (\<not> (a \<le> i \<and> i \<le> b) \<and> bit_at bs i)"
proof -
  have bl: "b div 8 < length bs" using div_8_less [OF assms(2)] .
  have ab: "a div 8 \<le> b div 8" using assms(1) by (simp add: div_le_mono)
  show "length (bitset_clear_range bs (to_bitset_range a b)) = length bs"
    using bl by (simp add: bitset_clear_range_def to_bitset_range_def Let_def)
  assume i: "i < 8 * length bs"
  show "bit_at (bitset_clear_range bs (to_bitset_range a b)) i = (\<not> (a \<le> i \<and> i \<le> b) \<and> bit_at bs i)"
  proof (cases "a div 8 = b div 8")
    case True
    then show ?thesis
      using i unfolding between_same_bucket [OF True]
      by (auto simp: bitset_clear_range_def to_bitset_range_def bit_at_update bit_and_iff bit_not_iff
          bit_char_mask) (auto simp: bit_at_def)
  next
    case False
    with ab have lt: "a div 8 < b div 8" by simp
    have "bit_at (bitset_clear_range bs (to_bitset_range a b)) i =
      (if i div 8 = a div 8 then bit_at bs i \<and> \<not> a mod 8 \<le> i mod 8
       else if i div 8 = b div 8 then bit_at bs i \<and> \<not> i mod 8 \<le> b mod 8
       else \<not> (a div 8 < i div 8 \<and> i div 8 < b div 8) \<and> bit_at bs i)"
      unfolding range_ops_two_ends [OF lt] bit_at_two_ends [OF lt bl i refl refl]
      by (simp add: mod_8_le_7 bit_at_def [of bs] bit_and_iff bit_not_iff bit_char_mask)
    then show ?thesis unfolding between_by_bucket [OF lt] using lt by (cases "i div 8 = a div 8") auto
  qed
qed

lemma finite_bucket_le: "finite {i::nat. i div 8 \<le> q \<and> P i}"
proof (rule finite_subset [of _ "{..<8 * Suc q}"])
  show "{i. i div 8 \<le> q \<and> P i} \<subseteq> {..<8 * Suc q}"
    by (auto simp: div_less_iff_less_mult mult.commute simp flip: less_Suc_eq_le)
qed simp

lemma card_in_bucket:
  assumes "b < 8"
  shows "card {j. a \<le> j \<and> j \<le> b \<and> bit (bs ! q) j} =
    card {i. i div 8 = q \<and> a \<le> i mod 8 \<and> i mod 8 \<le> b \<and> bit_at bs i}"
proof -
  have "{i. i div 8 = q \<and> a \<le> i mod 8 \<and> i mod 8 \<le> b \<and> bit_at bs i} =
    (\<lambda>j. 8 * q + j) ` {j. a \<le> j \<and> j \<le> b \<and> bit (bs ! q) j}" (is "?here = ?img")
  proof
    show "?here \<subseteq> ?img"
    proof
      fix i assume i: "i \<in> ?here"
      then have "i = 8 * q + i mod 8" by (metis (mono_tags, lifting) mem_Collect_eq mult_div_mod_eq)
      with i show "i \<in> ?img" by (auto simp: bit_at_def)
    qed
    show "?img \<subseteq> ?here" using assms by (auto simp: bit_at_def)
  qed
  then show ?thesis by (simp add: card_image inj_on_def)
qed

lemma card_in_low_bucket:
  assumes "b < 8"
  shows "card {j. j \<le> b \<and> bit (bs ! q) j} =
    card {i. i div 8 = q \<and> i mod 8 \<le> b \<and> bit_at bs i}"
  using card_in_bucket [OF assms, of 0] by simp

lemma card_whole_bucket: "popcount_byte (bs ! q) = card {i. i div 8 = q \<and> bit_at bs i}"
proof -
  have "{i. i < 8 \<and> bit (bs ! q) i} = {j. j \<le> 7 \<and> bit (bs ! q) j}" by auto
  then show ?thesis
    using card_in_low_bucket [of 7] by (simp add: popcount_byte_card mod_8_le_7)
qed

lemma count_buckets_card:
  assumes "to_b \<le> length bs"
  shows "count_buckets bs from_b to_b =
    card {i. Suc from_b \<le> i div 8 \<and> i div 8 < to_b \<and> bit_at bs i}"
  using assms
proof (induction bs from_b to_b rule: count_buckets.induct)
  case (1 bs f t)
  show ?case
  proof (cases "Suc f < t")
    case False
    then have "{i. Suc f \<le> i div 8 \<and> i div 8 < t \<and> bit_at bs i} = {}" by force
    then have "card {i. Suc f \<le> i div 8 \<and> i div 8 < t \<and> bit_at bs i} = 0" by (simp only: card.empty)
    with False show ?thesis by (subst count_buckets.simps) simp
  next
    case True
    let ?rest = "{i. Suc (Suc f) \<le> i div 8 \<and> i div 8 < t \<and> bit_at bs i}"
    let ?here = "{i. i div 8 = Suc f \<and> bit_at bs i}"
    have "card ?here = popcount_byte (bs ! Suc f)"
      by (simp only: card_whole_bucket)
    moreover have "{i. Suc f \<le> i div 8 \<and> i div 8 < t \<and> bit_at bs i} = ?here \<union> ?rest"
      using True by auto
    moreover have "finite ?here"
      by (rule finite_subset [OF _ finite_bucket_le [of "Suc f" "bit_at bs"]]) auto
    moreover have "finite ?rest"
      by (rule finite_subset [OF _ finite_bucket_le [of t "bit_at bs"]]) auto
    moreover have "?here \<inter> ?rest = {}" by auto
    ultimately have "card {i. Suc f \<le> i div 8 \<and> i div 8 < t \<and> bit_at bs i}
        = popcount_byte (bs ! Suc f) + card ?rest"
      by (simp add: card_Un_disjoint)
    with True 1 show ?thesis by (subst count_buckets.simps) simp
  qed
qed

lemma popcount_masked:
  assumes "a < 8" "b < 8"
  shows "popcount_byte (w AND bitset_char_mask ! a ! b) = card {j. a \<le> j \<and> j \<le> b \<and> bit w j}"
proof -
  have "{i. i < 8 \<and> bit (w AND bitset_char_mask ! a ! b) i} = {j. a \<le> j \<and> j \<le> b \<and> bit w j}"
    using assms by (auto simp: bit_and_iff bit_char_mask)
  then show ?thesis by (simp add: popcount_byte_card)
qed

lemma bitset_count_range_spec:
  assumes "a \<le> b" "b < 8 * length bs"
  shows "bitset_count_range bs (to_bitset_range a b) = card {i. a \<le> i \<and> i \<le> b \<and> bit_at bs i}"
proof (cases "a div 8 = b div 8")
  case True
  have "{i. a \<le> i \<and> i \<le> b \<and> bit_at bs i} =
      {i. i div 8 = a div 8 \<and> a mod 8 \<le> i mod 8 \<and> i mod 8 \<le> b mod 8 \<and> bit_at bs i}"
    using between_same_bucket [OF True] by blast
  with True show ?thesis
    by (simp add: bitset_count_range_def to_bitset_range_def popcount_masked card_in_bucket)
next
  case False
  with assms(1) have lt: "a div 8 < b div 8" by (simp add: div_le_mono le_neq_implies_less)
  have bl: "b div 8 \<le> length bs" using div_8_less [OF assms(2)] by simp
  let ?A = "{i. i div 8 = a div 8 \<and> a mod 8 \<le> i mod 8 \<and> i mod 8 \<le> 7 \<and> bit_at bs i}"
  let ?B = "{i. i div 8 = b div 8 \<and> 0 \<le> i mod 8 \<and> i mod 8 \<le> b mod 8 \<and> bit_at bs i}"
  let ?C = "{i. Suc (a div 8) \<le> i div 8 \<and> i div 8 < b div 8 \<and> bit_at bs i}"
  have "finite ?A" "finite ?B" "finite ?C"
    using lt by (auto intro: finite_subset [OF _ finite_bucket_le [of "b div 8" "\<lambda>_. True"]])
  moreover have "{i. a \<le> i \<and> i \<le> b \<and> bit_at bs i} = ?A \<union> ?B \<union> ?C"
    by (simp only: between_by_bucket [OF lt] conj_assoc [symmetric]) (use mod_8_le_7 in fastforce)
  moreover have "?A \<inter> ?B = {}" "(?A \<union> ?B) \<inter> ?C = {}" using lt by auto
  ultimately have "card {i. a \<le> i \<and> i \<le> b \<and> bit_at bs i} = card ?A + card ?B + card ?C"
    by (simp add: card_Un_disjoint)
  with False show ?thesis
    by (simp add: bitset_count_range_def to_bitset_range_def popcount_masked card_in_bucket
        card_in_low_bucket count_buckets_card [OF bl])
qed

section \<open>Shifts\<close>

lemma bit_at_move:
  assumes "i < 8 * length bs" "at \<noteq> dst"
  shows "bit_at (bitset_move_bit bs at dst) i =
    (if i = dst then bit_at bs at else i \<noteq> at \<and> bit_at bs i)"
  using assms by (auto simp: bitset_move_bit_def bit_at_clear bit_at_set bitset_test_bit_at)

lemma length_shift_left_loop [simp]:
  "length (bitset_shift_left_loop bs at n k) = length bs"
  by (induction n arbitrary: bs at) simp_all

lemma bit_at_shift_left_loop:
  assumes "i < 8 * length bs" "0 < k" "k \<le> at" "at + n \<le> 8 * length bs"
  shows "bit_at (bitset_shift_left_loop bs at n k) i =
    (if at - k \<le> i \<and> i + k < at + n then bit_at bs (i + k)
     else \<not> (at \<le> i \<and> i < at + n) \<and> bit_at bs i)"
  using assms
proof (induction n arbitrary: bs at)
  case 0
  then show ?case by auto
next
  case (Suc n)
  obtain a where a: "at = a + k" using Suc.prems(3) by (metis le_add_diff_inverse2)
  let ?bs = "bitset_move_bit bs (a + k) a"
  have loop: "bit_at (bitset_shift_left_loop ?bs (Suc (a + k)) n k) i =
    (if Suc a \<le> i \<and> i < Suc (a + n) then bit_at ?bs (i + k)
     else \<not> (Suc (a + k) \<le> i \<and> i < Suc (a + k + n)) \<and> bit_at ?bs i)"
    using Suc.IH [of ?bs "Suc (a + k)"] Suc.prems a by simp
  have up: "bit_at ?bs (i + k) = bit_at bs (i + k)" if "Suc a \<le> i" "i < Suc (a + n)"
    using that Suc.prems a by (subst bit_at_move) auto
  have here: "bit_at ?bs i = (if i = a then bit_at bs (a + k) else i \<noteq> a + k \<and> bit_at bs i)"
    using Suc.prems a by (intro bit_at_move) auto
  have goal: "bit_at (bitset_shift_left_loop ?bs (Suc (a + k)) n k) i =
    (if a \<le> i \<and> i < Suc (a + n) then bit_at bs (i + k)
     else \<not> (a + k \<le> i \<and> i < Suc (a + k + n)) \<and> bit_at bs i)"
  proof -
    consider "i < a" | "i = a" | "a < i" "i < Suc (a + n)" | "a < i" "\<not> i < Suc (a + n)" by linarith
    then show ?thesis
    proof cases
      case 1
      with loop here show ?thesis by simp
    next
      case 2
      with loop here show ?thesis by simp
    next
      case 3
      with loop up show ?thesis by simp
    next
      case 4
      have "i \<noteq> a + k \<Longrightarrow> Suc (a + k) \<le> i \<longleftrightarrow> a + k \<le> i" by linarith
      with 4 loop here show ?thesis by (cases "i = a + k") simp_all
    qed
  qed
  have "i + k < at + Suc n \<longleftrightarrow> i < Suc (a + n)" "at - k = a" "at + Suc n = Suc (a + k + n)"
    using a by auto
  with goal show ?case by (simp add: a)
qed

lemma length_shift_right_loop [simp]:
  "length (bitset_shift_right_loop bs at n k) = length bs"
  by (induction n arbitrary: bs) simp_all

lemma bit_at_shift_right_loop:
  assumes "i < 8 * length bs" "0 < k" "at + n + k < 2 ^ 64"
  shows "bit_at (bitset_shift_right_loop bs at n k) i =
    (if at + k \<le> i \<and> i \<le> at + n + k then bit_at bs (i - k)
     else \<not> (at \<le> i \<and> i \<le> at + n) \<and> bit_at bs i)"
  using assms
proof (induction n arbitrary: bs)
  case 0
  then show ?case by (auto simp: bit_at_move)
next
  case (Suc n)
  let ?bs = "bitset_move_bit bs (at + Suc n) (at + Suc n + k)"
  have "bit_at (bitset_shift_right_loop ?bs at n k) i =
    (if at + k \<le> i \<and> i \<le> at + n + k then bit_at ?bs (i - k)
     else \<not> (at \<le> i \<and> i \<le> at + n) \<and> bit_at ?bs i)"
    using Suc.prems by (intro Suc.IH) simp_all
  moreover have "bit_at ?bs (i - k) = bit_at bs (i - k)" if "at + k \<le> i" "i \<le> at + n + k"
    using that Suc.prems by (subst bit_at_move) auto
  moreover have "bit_at ?bs i =
      (if i = at + Suc n + k then bit_at bs (at + Suc n) else i \<noteq> at + Suc n \<and> bit_at bs i)"
    using Suc.prems by (intro bit_at_move) auto
  ultimately show ?case using Suc.prems by (cases "i = at + Suc n + k") auto
qed

end
