(* ===== verification/Buddy_Tree.thy ===== *)
theory Buddy_Tree
  imports Buddy_Bitset
begin

text \<open>
  The buddy allocation tree of \<open>buddy_alloc.h\<close>: heap-numbered positions, the packed layout of
  the per-node counters in the bitset, navigation, mark, release, the search for a free
  position, grow and shrink. This theory holds the definitions only.

  \<open>struct buddy_tree\<close> is followed in memory by the bitset and by the memo table of
  \<open>size_for_order\<close>. The record keeps the bytes of that memory that hold the bitset in
  \<open>tree_bits\<close> (the list may be longer than the bitset, as the caller may have left room to grow)
  and the table's entries in \<open>size_for_order_table\<close>; \<open>size_for_order_offset\<close> is the index, in
  units of \<open>size_t\<close>, at which the C code puts the table. The flags field is only used by the
  change tracking that the program does not compile in.
\<close>

section \<open>Types\<close>

record buddy_tree_pos =
  pos_index :: size_t
  pos_depth :: size_t

abbreviation mk_pos :: "size_t \<Rightarrow> size_t \<Rightarrow> buddy_tree_pos" where
  "mk_pos i d \<equiv> \<lparr>pos_index = i, pos_depth = d\<rparr>"

definition INVALID_POS :: buddy_tree_pos where
  "INVALID_POS = mk_pos 0 0"

record buddy_tree_interval =
  interval_from :: buddy_tree_pos
  interval_to :: buddy_tree_pos

record buddy_tree_walk_state =
  starting_pos :: buddy_tree_pos
  current_pos :: buddy_tree_pos
  going_up :: bool
  walk_done :: bool

datatype buddy_tree_release_status =
  BUDDY_TREE_RELEASE_SUCCESS | BUDDY_TREE_RELEASE_FAIL_PARTIALLY_USED

record buddy_tree =
  upper_pos_bound :: size_t
  size_for_order_offset :: size_t
  tree_order :: nat
  tree_bits :: bitset
  size_for_order_table :: "size_t list"

record internal_position =
  local_offset :: size_t
  bitset_location :: size_t

definition sizeof_size_t :: nat where
  "sizeof_size_t = 8"

definition sizeof_struct_buddy_tree :: nat where
  "sizeof_struct_buddy_tree = 24"

lemmas tree_sizes [size_simps] = sizeof_size_t_def sizeof_struct_buddy_tree_def

section \<open>Positions\<close>

definition buddy_tree_root :: buddy_tree_pos where
  "buddy_tree_root = mk_pos 1 1"

definition buddy_tree_leftmost_child_internal :: "size_t \<Rightarrow> buddy_tree_pos" where
  "buddy_tree_leftmost_child_internal order_n =
     mk_pos (two_to_the_power_of (order_n - 1)) order_n"

definition buddy_tree_leftmost_child :: "buddy_tree \<Rightarrow> buddy_tree_pos" where
  "buddy_tree_leftmost_child t = buddy_tree_leftmost_child_internal (tree_order t)"

definition buddy_tree_depth :: "buddy_tree_pos \<Rightarrow> size_t" where
  "buddy_tree_depth pos = pos_depth pos"

definition buddy_tree_left_child :: "buddy_tree_pos \<Rightarrow> buddy_tree_pos" where
  "buddy_tree_left_child pos = mk_pos (pos_index pos * 2) (pos_depth pos + 1)"

definition buddy_tree_right_child :: "buddy_tree_pos \<Rightarrow> buddy_tree_pos" where
  "buddy_tree_right_child pos = mk_pos (pos_index pos * 2 + 1) (pos_depth pos + 1)"

definition buddy_tree_sibling :: "buddy_tree_pos \<Rightarrow> buddy_tree_pos" where
  "buddy_tree_sibling pos = mk_pos (pos_index pos XOR 1) (pos_depth pos)"

definition buddy_tree_parent :: "buddy_tree_pos \<Rightarrow> buddy_tree_pos" where
  "buddy_tree_parent pos = mk_pos (pos_index pos div 2) (pos_depth pos - 1)"

definition buddy_tree_right_adjacent :: "buddy_tree_pos \<Rightarrow> buddy_tree_pos" where
  "buddy_tree_right_adjacent pos =
     (if ((pos_index pos + 1) XOR pos_index pos) > pos_index pos then INVALID_POS
      else mk_pos (pos_index pos + 1) (pos_depth pos))"

text \<open>\<open>index & ~mask\<close> on the 64-bit type.\<close>

definition buddy_tree_index_internal :: "buddy_tree_pos \<Rightarrow> size_t" where
  "buddy_tree_index_internal pos =
     (let mask_n = two_to_the_power_of (pos_depth pos - 1)
      in pos_index pos AND (2 ^ 64 - 1 - mask_n))"

definition buddy_tree_index :: "buddy_tree_pos \<Rightarrow> size_t" where
  "buddy_tree_index pos = buddy_tree_index_internal pos"

definition buddy_tree_valid :: "buddy_tree \<Rightarrow> buddy_tree_pos \<Rightarrow> bool" where
  "buddy_tree_valid t pos \<longleftrightarrow> pos_index pos \<noteq> 0 \<and> pos_index pos < upper_pos_bound t"

definition buddy_tree_order :: "buddy_tree \<Rightarrow> nat" where
  "buddy_tree_order t = tree_order t"

fun to_interval_loop :: "nat \<Rightarrow> buddy_tree_interval \<Rightarrow> buddy_tree_interval" where
  "to_interval_loop 0 r = r"
| "to_interval_loop (Suc n) r =
     to_interval_loop n \<lparr>interval_from = buddy_tree_left_child (interval_from r),
                         interval_to = buddy_tree_right_child (interval_to r)\<rparr>"

definition to_buddy_tree_interval :: "buddy_tree \<Rightarrow> buddy_tree_pos \<Rightarrow> buddy_tree_interval" where
  "to_buddy_tree_interval t pos =
     to_interval_loop (tree_order t - pos_depth pos) \<lparr>interval_from = pos, interval_to = pos\<rparr>"

definition buddy_tree_interval_contains ::
    "buddy_tree_interval \<Rightarrow> buddy_tree_interval \<Rightarrow> bool" where
  "buddy_tree_interval_contains outer inner \<longleftrightarrow>
     pos_index (interval_from inner) \<ge> pos_index (interval_from outer)
     \<and> pos_index (interval_from inner) \<le> pos_index (interval_to outer)
     \<and> pos_index (interval_to inner) \<ge> pos_index (interval_from outer)
     \<and> pos_index (interval_to inner) \<le> pos_index (interval_to outer)"

section \<open>Layout of the counters in the bitset\<close>

text \<open>The loop runs while \<open>order != to\<close>; every call has \<open>to <= order\<close>.\<close>

fun size_for_order_loop :: "nat \<Rightarrow> nat \<Rightarrow> size_t \<Rightarrow> size_t \<Rightarrow> size_t" where
  "size_for_order_loop order_n to_n result multi =
     (if order_n > to_n
      then size_for_order_loop (order_n - 1) to_n ((result + order_n * multi) mod 2 ^ 64) (multi * 2 mod 2 ^ 64)
      else result)"

declare size_for_order_loop.simps [simp del]

definition size_for_order :: "nat \<Rightarrow> nat \<Rightarrow> size_t" where
  "size_for_order order_n to_n = size_for_order_loop order_n to_n 0 1"

definition buddy_tree_size_for_order :: "buddy_tree \<Rightarrow> nat \<Rightarrow> size_t" where
  "buddy_tree_size_for_order t to_n = size_for_order_table t ! to_n"

text \<open>
  The position's depth is at most one more than the order (the children of a leaf), where the
  difference \<open>order - depth + 1\<close> of the C code is zero.
\<close>

definition buddy_tree_internal_position_order ::
    "size_t \<Rightarrow> buddy_tree_pos \<Rightarrow> internal_position" where
  "buddy_tree_internal_position_order order_n pos =
     (let local_n = order_n + 1 - buddy_tree_depth pos;
          total_offset = size_for_order order_n local_n;
          local_index = buddy_tree_index_internal pos
      in \<lparr>local_offset = local_n, bitset_location = (total_offset + local_n * local_index) mod 2 ^ 64\<rparr>)"

definition buddy_tree_internal_position_tree ::
    "buddy_tree \<Rightarrow> buddy_tree_pos \<Rightarrow> internal_position" where
  "buddy_tree_internal_position_tree t pos =
     (let local_n = tree_order t + 1 - buddy_tree_depth pos;
          total_offset = buddy_tree_size_for_order t local_n;
          local_index = buddy_tree_index_internal pos
      in \<lparr>local_offset = local_n, bitset_location = (total_offset + local_n * local_index) mod 2 ^ 64\<rparr>)"

definition padded_bitset_size :: "nat \<Rightarrow> size_t" where
  "padded_bitset_size order_n =
     (let bitset_size = bitset_sizeof (size_for_order order_n 0)
      in if bitset_size mod sizeof_size_t \<noteq> 0
         then bitset_size + bitset_size mod sizeof_size_t else bitset_size)"

definition buddy_tree_sizeof :: "nat \<Rightarrow> size_t" where
  "buddy_tree_sizeof order_n =
     sizeof_struct_buddy_tree + padded_bitset_size order_n + (order_n + 2) * sizeof_size_t"

definition buddy_tree_populate_size_for_order :: "buddy_tree \<Rightarrow> buddy_tree" where
  "buddy_tree_populate_size_for_order t =
     t\<lparr>size_for_order_offset := padded_bitset_size (tree_order t) div sizeof_size_t + 1,
       size_for_order_table :=
         map (\<lambda>i. size_for_order (tree_order t) i) [0..<tree_order t + 1]\<rparr>"

text \<open>\<open>mem\<close> is the memory after the struct at the address where the tree is built.\<close>

definition buddy_tree_init :: "bitset \<Rightarrow> nat \<Rightarrow> buddy_tree" where
  "buddy_tree_init mem order_n =
     (let size = buddy_tree_sizeof order_n - sizeof_struct_buddy_tree
      in buddy_tree_populate_size_for_order
           \<lparr>upper_pos_bound = two_to_the_power_of order_n, size_for_order_offset = 0,
            tree_order = order_n, tree_bits = replicate size 0 @ drop size mem,
            size_for_order_table = []\<rparr>)"

section \<open>Reading and writing a counter\<close>

definition write_to_internal_position ::
    "buddy_tree \<Rightarrow> internal_position \<Rightarrow> size_t \<Rightarrow> buddy_tree" where
  "write_to_internal_position t pos value =
     (let clear_range = to_bitset_range (bitset_location pos)
                          (bitset_location pos + local_offset pos - 1);
          cleared = bitset_clear_range (tree_bits t) clear_range
      in t\<lparr>tree_bits :=
             if value \<noteq> 0
             then bitset_set_range cleared
                    (to_bitset_range (bitset_location pos) (bitset_location pos + value - 1))
             else cleared\<rparr>)"

definition read_from_internal_position :: "bitset \<Rightarrow> internal_position \<Rightarrow> size_t" where
  "read_from_internal_position bitset pos =
     (if \<not> bitset_test bitset (bitset_location pos) then 0
      else bitset_count_range bitset
             (to_bitset_range (bitset_location pos)
                (bitset_location pos + local_offset pos - 1)))"

definition compare_with_internal_position ::
    "bitset \<Rightarrow> internal_position \<Rightarrow> size_t \<Rightarrow> bool" where
  "compare_with_internal_position bitset pos value =
     bitset_test bitset (bitset_location pos + value - 1)"

definition buddy_tree_status :: "buddy_tree \<Rightarrow> buddy_tree_pos \<Rightarrow> size_t" where
  "buddy_tree_status t pos =
     read_from_internal_position (tree_bits t) (buddy_tree_internal_position_tree t pos)"

section \<open>Mark, release, search\<close>

text \<open>The loop runs while \<open>index != 1\<close>; positions have a nonzero index.\<close>

function update_parent_chain ::
    "buddy_tree \<Rightarrow> buddy_tree_pos \<Rightarrow> internal_position \<Rightarrow> size_t \<Rightarrow> buddy_tree" where
  "update_parent_chain t pos pos_internal size_current =
     (if pos_index pos > 1
      then
        let sib_internal = pos_internal\<lparr>bitset_location :=
              bitset_location pos_internal + local_offset pos_internal
              - 2 * local_offset pos_internal * (pos_index pos AND 1)\<rparr>;
            size_sibling = read_from_internal_position (tree_bits t) sib_internal;
            par = buddy_tree_parent pos;
            par_internal = buddy_tree_internal_position_tree t par;
            size_parent = read_from_internal_position (tree_bits t) par_internal;
            target_parent = (if size_current \<noteq> 0 \<or> size_sibling \<noteq> 0 then 1 else 0)
              * ((if size_current \<le> size_sibling then size_current else size_sibling) + 1)
        in if target_parent = size_parent then t
           else update_parent_chain (write_to_internal_position t par_internal target_parent)
                  par par_internal target_parent
      else t)"
  by pat_completeness auto
termination
  by (relation "measure (\<lambda>(t, pos, pi, sc). pos_index pos)") (auto simp: buddy_tree_parent_def)

declare update_parent_chain.simps [simp del]

definition buddy_tree_mark :: "buddy_tree \<Rightarrow> buddy_tree_pos \<Rightarrow> buddy_tree" where
  "buddy_tree_mark t pos =
     (let internal = buddy_tree_internal_position_tree t pos
      in update_parent_chain (write_to_internal_position t internal (local_offset internal))
           pos internal (local_offset internal))"

definition buddy_tree_release ::
    "buddy_tree \<Rightarrow> buddy_tree_pos \<Rightarrow> buddy_tree_release_status \<times> buddy_tree" where
  "buddy_tree_release t pos =
     (let internal = buddy_tree_internal_position_tree t pos
      in if read_from_internal_position (tree_bits t) internal \<noteq> local_offset internal
         then (BUDDY_TREE_RELEASE_FAIL_PARTIALLY_USED, t)
         else (BUDDY_TREE_RELEASE_SUCCESS,
               update_parent_chain (write_to_internal_position t internal 0) pos internal 0))"

text \<open>\<open>target_status\<close> and \<open>target_depth\<close> are of type \<open>uint8_t\<close>.\<close>

definition uint8_dec :: "nat \<Rightarrow> nat" where
  "uint8_dec x = (x + 255) mod 256"

function find_free_loop ::
    "buddy_tree \<Rightarrow> buddy_tree_pos \<Rightarrow> nat \<Rightarrow> size_t \<Rightarrow> nat \<Rightarrow> buddy_tree_pos" where
  "find_free_loop t cur target_status current_depth target_depth =
     (if current_depth < target_depth
      then
        let target_status = uint8_dec target_status;
            current_depth = current_depth + 1;
            left_pos = buddy_tree_left_child cur;
            right_pos = buddy_tree_sibling left_pos;
            left_internal = buddy_tree_internal_position_tree t left_pos;
            right_internal = left_internal\<lparr>bitset_location :=
              bitset_location left_internal + local_offset left_internal\<rparr>;
            next_pos =
              (if compare_with_internal_position (tree_bits t) left_internal (target_status + 1)
               then right_pos
               else if compare_with_internal_position (tree_bits t) right_internal
                         (target_status + 1)
               then left_pos
               else
                 let right_status = read_from_internal_position (tree_bits t) right_internal
                 in if right_status \<noteq> 0
                    then if compare_with_internal_position (tree_bits t) left_internal right_status
                         then left_pos else right_pos
                    else left_pos)
        in find_free_loop t next_pos target_status current_depth target_depth
      else cur)"
  by pat_completeness auto
termination
  by (relation "measure (\<lambda>(t, cur, ts, cd, td). td - cd)") auto

declare find_free_loop.simps [simp del]

definition buddy_tree_find_free :: "buddy_tree \<Rightarrow> nat \<Rightarrow> buddy_tree_pos" where
  "buddy_tree_find_free t target_depth =
     (let current_pos = buddy_tree_root;
          target_status = uint8_dec target_depth;
          current_depth = buddy_tree_depth current_pos
      in if buddy_tree_status t current_pos > target_status then INVALID_POS
         else find_free_loop t current_pos target_status current_depth target_depth)"

function is_free_loop :: "buddy_tree \<Rightarrow> buddy_tree_pos \<Rightarrow> bool" where
  "is_free_loop t pos =
     (if buddy_tree_valid t pos
      then
        let internal = buddy_tree_internal_position_tree t pos;
            value = read_from_internal_position (tree_bits t) internal
        in if value \<noteq> 0 then value \<noteq> local_offset internal
           else is_free_loop t (buddy_tree_parent pos)
      else True)"
  by pat_completeness auto
termination
  by (relation "measure (\<lambda>(t, pos). pos_index pos)")
    (auto simp: buddy_tree_parent_def buddy_tree_valid_def)

declare is_free_loop.simps [simp del]

definition buddy_tree_is_free :: "buddy_tree \<Rightarrow> buddy_tree_pos \<Rightarrow> bool" where
  "buddy_tree_is_free t pos =
     (if buddy_tree_status t pos \<noteq> 0 then False else is_free_loop t (buddy_tree_parent pos))"

definition buddy_tree_can_shrink :: "buddy_tree \<Rightarrow> bool" where
  "buddy_tree_can_shrink t =
     (if buddy_tree_status t (buddy_tree_right_child buddy_tree_root) \<noteq> 0 then False
      else
        let root_internal = buddy_tree_internal_position_tree t buddy_tree_root;
            root_value = read_from_internal_position (tree_bits t) root_internal
        in root_value \<noteq> local_offset root_internal)"

end
