(* ===== verification/Buddy_Layout.thy ===== *)
theory Buddy_Layout
  imports Buddy_Tree
begin

text \<open>
  Positions and the bitset layout of the buddy tree: the position of a node is determined by its
  heap number, the counters of different nodes occupy disjoint runs of bits inside the bitset,
  and the memo table of \<open>size_for_order\<close> lies behind the bitset and inside the memory that
  \<open>buddy_tree_sizeof\<close> asks for.
\<close>

section \<open>Nodes by heap number\<close>

definition node :: "nat \<Rightarrow> nat \<Rightarrow> bool" where
  "node n i \<longleftrightarrow> 0 < i \<and> i < 2 ^ n"

definition npos :: "nat \<Rightarrow> buddy_tree_pos" where
  "npos i = mk_pos i (bit_len i)"

text \<open>The width of a node's counter: its distance to the level below the leaves.\<close>

definition cap :: "nat \<Rightarrow> nat \<Rightarrow> nat" where
  "cap n i = n + 1 - bit_len i"

lemma bit_len_le_iff: "bit_len i \<le> n \<longleftrightarrow> i < 2 ^ n"
proof
  assume "bit_len i \<le> n"
  then have "(2::nat) ^ bit_len i \<le> 2 ^ n" by (rule power_increasing) simp
  then show "i < 2 ^ n" using bit_len_le [of i] by linarith
next
  assume i: "i < 2 ^ n"
  show "bit_len i \<le> n"
  proof (cases "i = 0")
    case False
    then have "2 ^ (bit_len i - 1) < (2::nat) ^ n" using bit_len_ge [of i] i by linarith
    then have "bit_len i - 1 < n" by (simp only: power_two_less_iff)
    then show ?thesis by linarith
  qed simp
qed

lemma bit_len_less_iff: "d < bit_len i \<longleftrightarrow> 2 ^ d \<le> i"
  using bit_len_le_iff [of i d] by linarith

lemma bit_len_double [simp]: "0 < i \<Longrightarrow> bit_len (2 * i) = Suc (bit_len i)"
  by (simp add: bit_len_pos)

lemma bit_len_double_Suc [simp]: "bit_len (Suc (2 * i)) = Suc (bit_len i)"
  by (simp add: bit_len_pos)

lemma bit_len_half: "1 < i \<Longrightarrow> bit_len (i div 2) = bit_len i - 1"
  by (simp add: bit_len_pos [of i])

lemma bit_len_1 [simp]: "bit_len (Suc 0) = 1"
  by (simp add: bit_len_pos)

lemma bit_len_eqI: "2 ^ d \<le> i \<Longrightarrow> i < 2 ^ Suc d \<Longrightarrow> bit_len i = Suc d"
  using bit_len_less_iff [of d i] bit_len_le_iff [of i "Suc d"] by linarith

lemma bit_len_power [simp]: "bit_len (2 ^ d) = Suc d"
  by (rule bit_len_eqI) simp_all

lemma bit_len_mono: "i \<le> j \<Longrightarrow> bit_len i \<le> bit_len j"
  using bit_len_le [of j] by (simp add: bit_len_le_iff)

lemma node_children [simp]:
  "0 < i \<Longrightarrow> node n (2 * i) \<longleftrightarrow> bit_len i < n"
  "0 < i \<Longrightarrow> node n (Suc (2 * i)) \<longleftrightarrow> bit_len i < n"
  by (auto simp: node_def bit_len_le_iff [symmetric] Suc_le_eq)

lemma node_bit_len: "node n i \<Longrightarrow> bit_len i \<le> n"
  by (simp add: node_def bit_len_le_iff)

lemma node_pos: "node n i \<Longrightarrow> 0 < i"
  by (simp add: node_def)

lemma node_half: "node n i \<Longrightarrow> 1 < i \<Longrightarrow> node n (i div 2)"
  by (auto simp: node_def)

lemma node_root [simp]: "node n (Suc 0) \<longleftrightarrow> 0 < n"
  using power_strict_increasing_iff [of "2::nat" 0 n] by (simp add: node_def)

lemma cap_le: "cap n i \<le> n + 1"
  by (simp add: cap_def)

lemma cap_pos: "node n i \<Longrightarrow> 0 < cap n i"
  using node_bit_len by (simp add: cap_def le_imp_less_Suc)

lemma cap_half: "node n i \<Longrightarrow> 1 < i \<Longrightarrow> cap n (i div 2) = Suc (cap n i)"
proof -
  assume i: "node n i" "1 < i"
  then obtain d where "bit_len i = Suc d" using bit_len_pos by (metis node_pos)
  then show ?thesis using node_bit_len [OF i(1)] bit_len_half [OF i(2)] by (simp add: cap_def)
qed

lemma cap_children:
  "0 < i \<Longrightarrow> bit_len i < n \<Longrightarrow> Suc (cap n (2 * i)) = cap n i"
  "0 < i \<Longrightarrow> bit_len i < n \<Longrightarrow> Suc (cap n (Suc (2 * i))) = cap n i"
  by (simp_all add: cap_def)

section \<open>Navigation on canonical positions\<close>

lemma npos_simps [simp]: "pos_index (npos i) = i" "pos_depth (npos i) = bit_len i"
  "buddy_tree_depth (npos i) = bit_len i"
  by (simp_all add: npos_def buddy_tree_depth_def)

lemma root_npos: "buddy_tree_root = npos 1"
  by (simp add: buddy_tree_root_def npos_def)

lemma left_child_npos: "0 < i \<Longrightarrow> buddy_tree_left_child (npos i) = npos (2 * i)"
  using bit_len_double [of i] by (simp add: buddy_tree_left_child_def npos_def mult.commute)

lemma right_child_npos: "buddy_tree_right_child (npos i) = npos (Suc (2 * i))"
  using bit_len_double_Suc [of i] by (simp add: buddy_tree_right_child_def npos_def mult.commute)

lemma parent_npos: "1 < i \<Longrightarrow> buddy_tree_parent (npos i) = npos (i div 2)"
  by (simp add: buddy_tree_parent_def npos_def bit_len_half)

lemma even_xor_1: "(2 * i) XOR 1 = Suc (2 * (i::nat))"
  by (subst xor_rec) simp

lemma sibling_npos_left: "0 < i \<Longrightarrow> buddy_tree_sibling (npos (2 * i)) = npos (Suc (2 * i))"
  using even_xor_1 [of i] by (simp add: buddy_tree_sibling_def npos_def)

lemma and_1_odd: "(i::nat) AND 1 = (if odd i then 1 else 0)"
  by (simp add: and_one_eq mod_2_eq_odd)

lemma bit_complement:
  "(a::nat) < 2 ^ n \<Longrightarrow> bit (2 ^ n - 1 - a) j \<longleftrightarrow> j < n \<and> \<not> bit a j"
proof (induction n arbitrary: a j)
  case 0
  then show ?case by simp
next
  case (Suc n)
  have half: "a div 2 < 2 ^ n" using Suc.prems by auto
  have "(2 ^ Suc n - 1 - a) div 2 = 2 ^ n - 1 - a div 2" using Suc.prems by simp
  moreover have "odd (2 ^ Suc n - 1 - a) = even a" using Suc.prems by auto
  ultimately show ?case
    using Suc.IH [OF half] by (cases j) (simp_all add: bit_Suc bit_0 del: power_Suc)
qed

lemma bit_imp_power_le: "bit (m::nat) j \<Longrightarrow> 2 ^ j \<le> m"
  by (rule ccontr) (simp add: bit_iff_odd)

lemma clear_top_bit:
  assumes "2 ^ k \<le> i" "i < 2 ^ Suc k" "k < 64"
  shows "i AND (2 ^ 64 - 1 - 2 ^ k) = i - (2 ^ k :: nat)"
proof -
  define m where "m = i - 2 ^ k"
  have i: "i = 2 ^ k + m" and m: "m < 2 ^ k" using assms by (auto simp: m_def)
  have low: "bit m j \<Longrightarrow> j < k" for j
    using bit_imp_power_le [of m j] m by (meson le_less_trans power_two_less_iff)
  then have low64: "bit m j \<Longrightarrow> j < 64" for j using assms(3) by (meson less_trans)
  have "i = 2 ^ k OR m"
    unfolding i by (rule disjunctive_add) (use low in \<open>auto simp: bit_exp_iff\<close>)
  then have bits: "bit i j = (j = k \<or> bit m j)" for j by (auto simp: bit_or_iff bit_exp_iff)
  have "(2::nat) ^ k < 2 ^ 64" using assms(3) by (simp only: power_two_less_iff)
  from bit_complement [OF this] have "i AND (2 ^ 64 - 1 - 2 ^ k) = m"
    using low low64 by (intro bit_eqI) (auto simp: bit_and_iff bits bit_exp_iff simp del: One_nat_def)
  then show ?thesis by (simp add: m_def)
qed

lemma index_internal_npos:
  assumes "node n i" "n \<le> 64"
  shows "buddy_tree_index_internal (npos i) = i - 2 ^ (bit_len i - 1)"
proof -
  obtain d where d: "bit_len i = Suc d" using node_pos [OF assms(1)] bit_len_pos by blast
  have "d < 64" using node_bit_len [OF assms(1)] assms(2) d by simp
  moreover have "2 ^ d \<le> i" "i < 2 ^ Suc d"
    using bit_len_ge [OF node_pos [OF assms(1)]] bit_len_le [of i] by (simp_all add: d)
  ultimately show ?thesis
    using clear_top_bit [of d i] by (simp add: buddy_tree_index_internal_def d Let_def)
qed

section \<open>Row offsets\<close>

text \<open>The bits of the rows below the last \<open>l\<close> orders, without the wrap-around of the code.\<close>

fun row_bits :: "nat \<Rightarrow> nat \<Rightarrow> nat" where
  "row_bits 0 l = 0"
| "row_bits (Suc n) l = (if l < Suc n then Suc n + 2 * row_bits n l else 0)"

lemma size_for_order_loop_bits:
  "r < 2 ^ 64 \<Longrightarrow> size_for_order_loop n l r m = (r + m * row_bits n l) mod 2 ^ 64"
proof (induction n arbitrary: r m)
  case 0
  then show ?case by (simp add: size_for_order_loop.simps)
next
  case (Suc n)
  have "((r + Suc n * m) mod 2 ^ 64 + (m * 2 mod 2 ^ 64) * row_bits n l) mod 2 ^ 64
      = (r + m * (Suc n + 2 * row_bits n l)) mod 2 ^ 64" (is "?a = ?b")
  proof -
    have "?a = ((r + Suc n * m) + (m * 2) * row_bits n l) mod 2 ^ 64"
      by (metis mod_add_eq mod_mod_trivial mod_mult_left_eq)
    then show ?thesis by (simp add: algebra_simps)
  qed
  then show ?case using Suc by (subst size_for_order_loop.simps) simp
qed

lemma row_bits_same [simp]: "row_bits n n = 0"
  by (cases n) simp_all

lemma row_bits_rec: "l \<le> n \<Longrightarrow> row_bits (Suc n) l = Suc n + 2 * row_bits n l"
  by simp

declare row_bits.simps(2) [simp del]

lemma row_bits_down:
  "l < n \<Longrightarrow> row_bits n l = row_bits n (Suc l) + Suc l * 2 ^ (n - Suc l)"
proof (induction n)
  case 0
  then show ?case by simp
next
  case (Suc n)
  show ?case
  proof (cases "l = n")
    case True
    then show ?thesis by (simp add: row_bits_rec)
  next
    case False
    with Suc have "row_bits n l = row_bits n (Suc l) + Suc l * 2 ^ (n - Suc l)" by simp
    moreover have "(2::nat) ^ (Suc n - Suc l) = 2 * 2 ^ (n - Suc l)"
      using False Suc.prems by (simp add: Suc_diff_le flip: power_Suc)
    ultimately show ?thesis
      using False Suc.prems by (simp add: row_bits_rec algebra_simps del: power_Suc)
  qed
qed

lemma row_bits_total: "row_bits n 0 + n + 2 = 2 ^ Suc n"
proof (induction n)
  case (Suc n)
  then show ?case by (simp add: row_bits_rec)
qed simp

lemma row_bits_le: "row_bits n l \<le> row_bits n 0"
  by (induction n) (simp_all add: row_bits.simps(2))

text \<open>No wrap-around up to order 63.\<close>

lemma row_bits_small: "n \<le> 63 \<Longrightarrow> row_bits n l < 2 ^ 64"
proof -
  assume "n \<le> 63"
  then have "(2::nat) ^ Suc n \<le> 2 ^ 64" by (intro power_increasing) simp_all
  then show ?thesis using row_bits_total [of n] row_bits_le [of n l] by linarith
qed

lemma size_for_order_row_bits: "n \<le> 63 \<Longrightarrow> size_for_order n l = row_bits n l"
  using size_for_order_loop_bits [of 0 n l 1] row_bits_small [of n l] by (simp add: size_for_order_def)

text \<open>The first bit of the row of depth \<open>d\<close>, and the first bit of a node's counter.\<close>

definition row_start :: "nat \<Rightarrow> nat \<Rightarrow> nat" where
  "row_start n d = row_bits n (n + 1 - d)"

definition loc :: "nat \<Rightarrow> nat \<Rightarrow> nat" where
  "loc n i = row_start n (bit_len i) + cap n i * (i - 2 ^ (bit_len i - 1))"

lemma row_start_Suc:
  assumes "1 \<le> d" "d \<le> n"
  shows "row_start n (Suc d) = row_start n d + (n + 1 - d) * 2 ^ (d - 1)"
proof -
  have "n - d < n" using assms by simp
  from row_bits_down [OF this] show ?thesis
    using assms by (simp add: row_start_def Suc_diff_le)
qed

lemma row_start_mono: "1 \<le> d \<Longrightarrow> d \<le> e \<Longrightarrow> e \<le> Suc n \<Longrightarrow> row_start n d \<le> row_start n e"
proof (induction e)
  case (Suc e)
  show ?case
  proof (cases "d = Suc e")
    case False
    with Suc have "row_start n d \<le> row_start n e" "row_start n e \<le> row_start n (Suc e)"
      by (simp_all add: row_start_Suc)
    then show ?thesis by linarith
  qed simp
qed simp

lemma loc_row_end:
  assumes "node n i"
  shows "loc n i + cap n i \<le> row_start n (Suc (bit_len i))"
proof -
  obtain d where d: "bit_len i = Suc d" using node_pos [OF assms] bit_len_pos by blast
  have "i < 2 ^ Suc d" "2 ^ d \<le> i"
    using bit_len_le [of i] bit_len_ge [OF node_pos [OF assms]] by (simp_all add: d)
  then have "i - 2 ^ d + 1 \<le> 2 ^ d" by simp
  then have "cap n i * (i - 2 ^ d + 1) \<le> cap n i * 2 ^ d" by (rule mult_le_mono2)
  moreover have "row_start n (Suc (Suc d)) = row_start n (Suc d) + cap n i * 2 ^ d"
    using row_start_Suc [of "Suc d" n] node_bit_len [OF assms] by (simp add: d cap_def)
  ultimately show ?thesis by (simp add: loc_def d algebra_simps)
qed

lemma loc_disjoint:
  assumes "node n i" "node n j" "i < j"
  shows "loc n i + cap n i \<le> loc n j"
proof (cases "bit_len i = bit_len j")
  case True
  obtain d where d: "bit_len i = Suc d" using node_pos [OF assms(1)] bit_len_pos by blast
  have dj: "bit_len j = Suc d" and c: "cap n j = cap n i" using True d by (simp_all add: cap_def)
  have "2 ^ d \<le> i" using bit_len_ge [OF node_pos [OF assms(1)]] by (simp add: d)
  then have "i - 2 ^ d + 1 \<le> j - 2 ^ d" using assms(3) by simp
  then have "cap n i * (i - 2 ^ d + 1) \<le> cap n i * (j - 2 ^ d)" by (rule mult_le_mono2)
  then show ?thesis by (simp add: loc_def d dj c)
next
  case False
  with assms(3) bit_len_mono [of i j] have "bit_len i < bit_len j" by simp
  then have "row_start n (Suc (bit_len i)) \<le> row_start n (bit_len j)"
    using node_bit_len [OF assms(2)] by (intro row_start_mono) auto
  also have "\<dots> \<le> loc n j" by (simp add: loc_def)
  finally show ?thesis using loc_row_end [OF assms(1)] by linarith
qed

lemma loc_total:
  assumes "node n i"
  shows "loc n i + cap n i \<le> row_bits n 0"
proof -
  have "row_start n (Suc (bit_len i)) \<le> row_start n (Suc n)"
    using node_bit_len [OF assms] by (intro row_start_mono) auto
  then show ?thesis using loc_row_end [OF assms] by (simp add: row_start_def)
qed

lemma loc_small: "node n i \<Longrightarrow> n \<le> 63 \<Longrightarrow> loc n i + cap n i < 2 ^ 64"
  using loc_total [of n i] row_bits_small [of n 0] by linarith

lemma loc_right_sibling: "0 < i \<Longrightarrow> loc n (Suc (2 * i)) = loc n (2 * i) + cap n (2 * i)"
proof -
  assume i: "0 < i"
  then have "2 ^ bit_len i \<le> 2 * i"
    using bit_len_ge [of i] bit_len_pos [of i] by simp
  then show ?thesis using i by (simp add: loc_def cap_def Suc_diff_le)
qed

section \<open>Layout of the memory behind the struct\<close>

lemma bitset_sizeof_covers: "b \<le> 8 * bitset_sizeof b"
  by (simp add: bitset_sizeof_def)

text \<open>
  The table starts behind the last byte of the bitset and ends inside the memory that
  \<open>buddy_tree_sizeof\<close> accounts for, although the padding added to the bitset's size is not the
  distance to the next multiple of eight.
\<close>

lemma table_layout:
  "bitset_sizeof (size_for_order n 0) \<le> sizeof_size_t * (padded_bitset_size n div sizeof_size_t + 1)"
  "sizeof_struct_buddy_tree + sizeof_size_t * (padded_bitset_size n div sizeof_size_t + 1 + (n + 1))
     \<le> buddy_tree_sizeof n"
proof -
  have "bitset_sizeof (size_for_order n 0) \<le> padded_bitset_size n"
    by (simp add: padded_bitset_size_def Let_def)
  moreover have "p \<le> 8 * (p div 8 + 1)" for p :: nat by simp
  ultimately show "bitset_sizeof (size_for_order n 0)
      \<le> sizeof_size_t * (padded_bitset_size n div sizeof_size_t + 1)"
    unfolding sizeof_size_t_def by (meson le_trans)
  have "8 * (p div 8 + 1 + (n + 1)) \<le> p + (n + 2) * 8" for p :: nat by simp
  then show "sizeof_struct_buddy_tree
      + sizeof_size_t * (padded_bitset_size n div sizeof_size_t + 1 + (n + 1)) \<le> buddy_tree_sizeof n"
    by (simp add: buddy_tree_sizeof_def sizeof_size_t_def)
qed

end
