(* ===== verification/Buddy_Status.thy ===== *)
theory Buddy_Status
  imports Buddy_Layout
begin

text \<open>
  The abstract buddy tree: a status for every heap-numbered node, with the effect of marking and
  releasing a node on it. This is the specification that the bit-level tree of \<open>Buddy_Tree\<close>
  implements: a status is zero for a free node, the full width for a node without any room, and
  otherwise the distance down to the nearest free descendant.
\<close>

section \<open>Specification\<close>

type_synonym status = "nat \<Rightarrow> nat"

definition parent_value :: "nat \<Rightarrow> nat \<Rightarrow> nat" where
  "parent_value l r = (if l \<noteq> 0 \<or> r \<noteq> 0 then min l r + 1 else 0)"

definition sib :: "nat \<Rightarrow> nat" where
  "sib i = (if even i then i + 1 else i - 1)"

function chain :: "status \<Rightarrow> nat \<Rightarrow> status" where
  "chain s i =
     (if i > 1
      then
        let v = parent_value (s i) (s (sib i))
        in if v = s (i div 2) then s else chain (s(i div 2 := v)) (i div 2)
      else s)"
  by pat_completeness auto
termination
  by (relation "measure snd") auto

declare chain.simps [simp del]

lemma chain_step:
  "1 < i \<Longrightarrow> chain s i =
    (if parent_value (s i) (s (sib i)) = s (i div 2) then s
     else chain (s(i div 2 := parent_value (s i) (s (sib i)))) (i div 2))"
  by (subst chain.simps) (simp add: Let_def del: fun_upd_apply)

lemma chain_same:
  "1 < i \<Longrightarrow> parent_value (s i) (s (sib i)) = s (i div 2) \<Longrightarrow> chain s i = s"
  by (rule trans [OF chain_step]) (assumption, rule if_P)

lemma chain_write:
  "1 < i \<Longrightarrow> parent_value (s i) (s (sib i)) \<noteq> s (i div 2) \<Longrightarrow>
    chain s i = chain (s(i div 2 := parent_value (s i) (s (sib i)))) (i div 2)"
  by (rule trans [OF chain_step]) (assumption, rule if_not_P)

lemma chain_stop: "\<not> 1 < i \<Longrightarrow> chain s i = s"
  by (subst chain.simps) simp

definition amark :: "nat \<Rightarrow> status \<Rightarrow> nat \<Rightarrow> status" where
  "amark n s i = chain (s(i := cap n i)) i"

definition arelease :: "status \<Rightarrow> nat \<Rightarrow> status" where
  "arelease s i = chain (s(i := 0)) i"

definition node_ok :: "nat \<Rightarrow> status \<Rightarrow> nat \<Rightarrow> bool" where
  "node_ok n s i \<longleftrightarrow>
     (if s (2 * i) \<noteq> 0 \<or> s (Suc (2 * i)) \<noteq> 0
      then s i = min (s (2 * i)) (s (Suc (2 * i))) + 1
      else s i = 0 \<or> s i = cap n i)"

text \<open>\<open>inner\<close>: a node with children. \<open>tree_ok\<close> is the invariant of the tree.\<close>

definition inner :: "nat \<Rightarrow> nat \<Rightarrow> bool" where
  "inner n i \<longleftrightarrow> 0 < i \<and> bit_len i < n"

definition bounded :: "nat \<Rightarrow> status \<Rightarrow> bool" where
  "bounded n s \<longleftrightarrow> (\<forall>i. node n i \<longrightarrow> s i \<le> cap n i)"

definition tree_ok :: "nat \<Rightarrow> status \<Rightarrow> bool" where
  "tree_ok n s \<longleftrightarrow> bounded n s \<and> (\<forall>i. inner n i \<longrightarrow> node_ok n s i)"

definition ancestor :: "nat \<Rightarrow> nat \<Rightarrow> bool" where
  "ancestor a i \<longleftrightarrow> (\<exists>k. a = i div 2 ^ k \<and> 0 < a)"

definition full :: "nat \<Rightarrow> status \<Rightarrow> nat \<Rightarrow> bool" where
  "full n s i \<longleftrightarrow> s i = cap n i"

text \<open>A node that can be handed out, and the nodes that are handed out.\<close>

definition afree :: "nat \<Rightarrow> status \<Rightarrow> nat \<Rightarrow> bool" where
  "afree n s i \<longleftrightarrow> node n i \<and> s i = 0 \<and> (\<forall>a. ancestor a i \<longrightarrow> \<not> full n s a)"

definition allocated :: "nat \<Rightarrow> status \<Rightarrow> nat set" where
  "allocated n s = {i. node n i \<and> full n s i \<and> (inner n i \<longrightarrow> s (2 * i) = 0)}"

section \<open>Ancestors\<close>

lemma ancestor_refl: "0 < i \<Longrightarrow> ancestor i i"
  unfolding ancestor_def by (intro exI [of _ 0]) simp

lemma ancestor_half: "ancestor a (i div 2) \<Longrightarrow> ancestor a i"
  unfolding ancestor_def by (metis div_mult2_eq power_Suc)

lemma ancestor_cases:
  assumes "ancestor a i"
  obtains "a = i" | "ancestor a (i div 2)"
proof -
  from assms obtain k where k: "a = i div 2 ^ k" "0 < a" unfolding ancestor_def by blast
  show thesis
  proof (cases k)
    case 0
    with k that(1) show ?thesis by simp
  next
    case (Suc m)
    then have "a = i div 2 div 2 ^ m" using k(1) by (simp add: div_mult2_eq)
    with k(2) that(2) show ?thesis unfolding ancestor_def by blast
  qed
qed

lemma ancestor_iff: "0 < i \<Longrightarrow> ancestor a i \<longleftrightarrow> a = i \<or> ancestor a (i div 2)"
  using ancestor_cases ancestor_refl ancestor_half by metis

lemma ancestor_le: "ancestor a i \<Longrightarrow> a \<le> i"
  unfolding ancestor_def by auto

lemma ancestor_pos: "ancestor a i \<Longrightarrow> 0 < a \<and> 0 < i"
  unfolding ancestor_def by (metis div_0 less_nat_zero_code neq0_conv)

lemma ancestor_node: "ancestor a i \<Longrightarrow> node n i \<Longrightarrow> node n a"
  using ancestor_le ancestor_pos by (fastforce simp: node_def)

lemma ancestor_trans: "ancestor a b \<Longrightarrow> ancestor b c \<Longrightarrow> ancestor a c"
  unfolding ancestor_def by (metis div_mult2_eq power_add)

lemma not_ancestor_0 [simp]: "\<not> ancestor a 0"
  using ancestor_pos by blast

lemma ancestor_half_self: "\<not> ancestor i (i div 2)"
  using ancestor_le [of i "i div 2"] ancestor_pos [of i "i div 2"] by fastforce

text \<open>Induction along the path from an ancestor down to a node.\<close>

lemma ancestor_induct [consumes 1, case_names refl step]:
  assumes "ancestor a i" and "0 < a \<Longrightarrow> P a"
    and "\<And>j. ancestor a (j div 2) \<Longrightarrow> P (j div 2) \<Longrightarrow> P j"
  shows "P i"
  using assms(1)
proof (induction i rule: less_induct)
  case (less i)
  from less.prems show ?case
  proof (cases rule: ancestor_cases)
    case 1
    then show ?thesis using assms(2) ancestor_pos [OF less.prems] by simp
  next
    case 2
    have "i div 2 < i" using ancestor_pos [OF less.prems] by simp
    then show ?thesis using 2 less.IH assms(3) by blast
  qed
qed

section \<open>Siblings and parents\<close>

lemma half_cases: obtains "i = 2 * (i div 2)" | "i = Suc (2 * (i div 2))"
  by (metis mod_2_eq_odd even_two_times_div_two odd_two_times_div_two_succ Suc_eq_plus1)

lemma sib_simps [simp]: "sib (2 * i) = Suc (2 * i)" "sib (Suc (2 * i)) = 2 * i"
  by (simp_all add: sib_def)

lemma parent_value_sym: "parent_value l r = parent_value r l"
  by (simp add: parent_value_def min.commute)

lemma parent_value_sib:
  "parent_value (s i) (s (sib i)) = parent_value (s (2 * (i div 2))) (s (Suc (2 * (i div 2))))"
  by (rule half_cases [of i]) (metis sib_simps parent_value_sym)+

lemma node_ok_value:
  "s i = parent_value (s (2 * i)) (s (Suc (2 * i))) \<Longrightarrow> node_ok n s i"
  by (simp add: node_ok_def parent_value_def)

lemma node_okD:
  "node_ok n s i \<Longrightarrow> s i \<noteq> cap n i \<Longrightarrow> s i = parent_value (s (2 * i)) (s (Suc (2 * i)))"
  by (auto simp: node_ok_def parent_value_def split: if_splits)

lemma node_ok_cong:
  "s i = s' i \<Longrightarrow> s (2 * i) = s' (2 * i) \<Longrightarrow> s (Suc (2 * i)) = s' (Suc (2 * i)) \<Longrightarrow>
    node_ok n s i = node_ok n s' i"
  by (simp add: node_ok_def)

lemma inner_half: "node n i \<Longrightarrow> 1 < i \<Longrightarrow> inner n (i div 2)"
  using node_bit_len [of n i] bit_len_less_iff [of 0 i] by (auto simp: inner_def bit_len_half)

lemma inner_node: "inner n i \<Longrightarrow> node n i"
  by (simp add: inner_def node_def bit_len_le_iff [symmetric])

lemma inner_children: "inner n i \<Longrightarrow> node n (2 * i)" "inner n i \<Longrightarrow> node n (Suc (2 * i))"
  by (simp_all add: inner_def)

lemma inner_cap: "inner n i \<Longrightarrow> cap n i = Suc (cap n (2 * i))"
  "inner n i \<Longrightarrow> cap n i = Suc (cap n (Suc (2 * i)))"
  using cap_children [of i n] by (simp_all add: inner_def)

lemma leaf_cap: "node n i \<Longrightarrow> \<not> inner n i \<Longrightarrow> cap n i = 1"
  using node_bit_len [of n i] by (auto simp: inner_def cap_def node_def)

lemma cap_ge_2: "inner n i \<Longrightarrow> 2 \<le> cap n i"
  using inner_cap(1) [of n i] cap_pos [OF inner_children(1), of n i] by (simp add: Suc_le_eq)

section \<open>The chain update keeps the invariant\<close>

lemma parent_value_le:
  "l \<le> c \<Longrightarrow> r \<le> c \<Longrightarrow> parent_value l r \<le> Suc c"
  by (auto simp: parent_value_def)

lemma bounded_parent_value:
  assumes "bounded n s" "inner n i"
  shows "parent_value (s (2 * i)) (s (Suc (2 * i))) \<le> cap n i"
  using assms(1) inner_children [OF assms(2)] inner_cap [OF assms(2)]
  by (metis bounded_def parent_value_le Suc_inject)

lemma bounded_update: "bounded n s \<Longrightarrow> v \<le> cap n i \<Longrightarrow> bounded n (s(i := v))"
  by (simp add: bounded_def)

lemma bounded_chain:
  "bounded n s \<Longrightarrow> node n i \<Longrightarrow> bounded n (chain s i)"
proof (induction s i rule: chain.induct)
  case (1 s i)
  show ?case
  proof (cases "1 < i")
    case True
    have le: "parent_value (s i) (s (sib i)) \<le> cap n (i div 2)"
      using bounded_parent_value [OF 1(2) inner_half [OF 1(3) True]] by (simp only: parent_value_sib)
    show ?thesis
      using 1(1) [OF True refl _ bounded_update [OF 1(2) le] node_half [OF 1(3) True]] 1(2) True
      by (subst chain.simps) (simp add: Let_def del: fun_upd_apply)
  next
    case False
    with 1 show ?thesis by (subst chain.simps) simp
  qed
qed

text \<open>
  A property of a node and its children that holds whenever the node's value is computed from
  the children holds everywhere after the update, if it held outside the start's parent before.
\<close>

lemma chain_keeps:
  assumes cong: "\<And>s s' j. s j = s' j \<Longrightarrow> s (2 * j) = s' (2 * j) \<Longrightarrow>
      s (Suc (2 * j)) = s' (Suc (2 * j)) \<Longrightarrow> Q s j \<Longrightarrow> Q s' j"
    and exact: "\<And>s j. s j = parent_value (s (2 * j)) (s (Suc (2 * j))) \<Longrightarrow> Q s j"
    and "\<forall>j. 0 < j \<and> J j \<longrightarrow> 2 * j \<noteq> i \<and> Suc (2 * j) \<noteq> i \<longrightarrow> Q s j" "0 < i"
  shows "\<forall>j. 0 < j \<and> J j \<longrightarrow> Q (chain s i) j"
  using assms(3,4)
proof (induction s i rule: chain.induct)
  case (1 s i)
  have other: "2 * j \<noteq> i \<and> Suc (2 * j) \<noteq> i" if "j \<noteq> i div 2" for j using that by auto
  show ?case
  proof (cases "1 < i")
    case True
    let ?v = "parent_value (s i) (s (sib i))" and ?p = "i div 2"
    have v: "?v = parent_value (s (2 * ?p)) (s (Suc (2 * ?p)))" by (rule parent_value_sib)
    have p: "0 < ?p" using True by simp
    show ?thesis
    proof (cases "?v = s ?p")
      case eq: True
      have "Q s ?p" using v eq by (intro exact) simp
      then have "0 < j \<and> J j \<longrightarrow> Q s j" for j using 1(2) other [of j] by metis
      then show ?thesis unfolding chain_same [OF True eq] by (intro allI)
    next
      case False
      have "\<forall>j. 0 < j \<and> J j \<longrightarrow> 2 * j \<noteq> ?p \<and> Suc (2 * j) \<noteq> ?p \<longrightarrow> Q (s(?p := ?v)) j"
      proof (intro allI impI)
        fix j assume j: "0 < j \<and> J j" "2 * j \<noteq> ?p \<and> Suc (2 * j) \<noteq> ?p"
        show "Q (s(?p := ?v)) j"
        proof (cases "j = ?p")
          case True
          show ?thesis unfolding True using v p by (intro exact) simp
        next
          case False
          then have "Q s j" using 1(2) j(1) other by blast
          then show ?thesis using False j(2) by - (rule cong [of s j], auto)
        qed
      qed
      from 1(1) [OF True refl False this p] show ?thesis
        unfolding chain_write [OF True False] .
    qed
  next
    case False
    then have "2 * j \<noteq> i \<and> Suc (2 * j) \<noteq> i" if "0 < j" for j using that by auto
    with 1(2) have "\<forall>j. 0 < j \<and> J j \<longrightarrow> Q s j" by blast
    then show ?thesis by (simp only: chain_stop [OF False])
  qed
qed

lemma chain_node_ok:
  assumes "\<forall>j. 0 < j \<and> inner n j \<longrightarrow> 2 * j \<noteq> i \<and> Suc (2 * j) \<noteq> i \<longrightarrow> node_ok n s j" "0 < i"
  shows "\<forall>j. 0 < j \<and> inner n j \<longrightarrow> node_ok n (chain s i) j"
proof (rule chain_keeps [where Q = "node_ok n", OF _ _ assms])
  show "node_ok n s' j" if "s j = s' j" "s (2 * j) = s' (2 * j)"
    "s (Suc (2 * j)) = s' (Suc (2 * j))" "node_ok n s j" for s s' j
    using node_ok_cong [of s j s' n] that by blast
qed (rule node_ok_value)

lemma tree_ok_set:
  assumes ok: "tree_ok n s" and i: "node n i" and v: "v = 0 \<or> v = cap n i"
    and zero: "inner n i \<Longrightarrow> s (2 * i) = 0 \<and> s (Suc (2 * i)) = 0"
  shows "tree_ok n (chain (s(i := v)) i)"
proof -
  let ?s = "s(i := v)"
  have "bounded n ?s" using ok v by (auto simp: tree_ok_def intro!: bounded_update)
  moreover have "\<forall>j. 0 < j \<and> inner n j \<longrightarrow> 2 * j \<noteq> i \<and> Suc (2 * j) \<noteq> i \<longrightarrow> node_ok n ?s j"
  proof (intro allI impI)
    fix j assume j: "0 < j \<and> inner n j" "2 * j \<noteq> i \<and> Suc (2 * j) \<noteq> i"
    show "node_ok n ?s j"
    proof (cases "j = i")
      case True
      with zero j(1) v node_pos [OF i] show ?thesis by (auto simp: node_ok_def)
    next
      case False
      with ok j show ?thesis by (subst node_ok_cong [of _ _ s]) (auto simp: tree_ok_def)
    qed
  qed
  ultimately show ?thesis
    using bounded_chain [OF _ i] chain_node_ok [OF _ node_pos [OF i]]
    by (simp add: tree_ok_def inner_def)
qed

section \<open>Frame\<close>

lemma chain_other:
  "\<not> ancestor j (i div 2) \<Longrightarrow> chain s i j = s j"
proof (induction s i rule: chain.induct)
  case (1 s i)
  show ?case
  proof (cases "1 < i")
    case True
    then have "0 < i div 2" by simp
    then have above: "j \<noteq> i div 2" "\<not> ancestor j (i div 2 div 2)"
      using 1(2) ancestor_refl [of "i div 2"] ancestor_half [of j "i div 2"] by blast+
    show ?thesis
    proof (cases "parent_value (s i) (s (sib i)) = s (i div 2)")
      case False
      from 1(1) [OF True refl False above(2)] show ?thesis
        unfolding chain_write [OF True False] by (simp only: fun_upd_other [OF above(1)])
    qed (simp only: chain_same [OF True])
  qed (simp add: chain_stop)
qed

lemma chain_self: "chain s i i = s i"
  by (rule chain_other) (rule ancestor_half_self)

lemma not_ancestor_child:
  "\<not> ancestor j i \<Longrightarrow> 0 < j \<Longrightarrow> \<not> ancestor (2 * j) i \<and> \<not> ancestor (Suc (2 * j)) i"
proof -
  assume j: "\<not> ancestor j i" "0 < j"
  have "ancestor j (2 * j)" "ancestor j (Suc (2 * j))"
    using j(2) by (auto simp: ancestor_iff [of "2 * j"] ancestor_iff [of "Suc (2 * j)"] ancestor_refl)
  then show ?thesis using j(1) ancestor_trans by blast
qed

lemma child_towards:
  assumes "ancestor a i"
  shows "a \<noteq> i \<longrightarrow> ancestor (2 * a) i \<or> ancestor (Suc (2 * a)) i"
  using assms
proof (induction rule: ancestor_induct)
  case (step j)
  have "0 < j" using ancestor_pos [OF step.hyps] by auto
  show ?case
  proof (cases "a = j div 2")
    case True
    then show ?thesis using ancestor_refl [OF \<open>0 < j\<close>] half_cases [of j] by metis
  next
    case False
    then show ?thesis using step.IH ancestor_half by blast
  qed
qed simp

lemma node_half_inner:
  assumes "node n i" "ancestor a (i div 2)"
  shows "inner n a"
proof -
  have "1 < i" using ancestor_pos [OF assms(2)] by linarith
  from inner_half [OF assms(1) this] show ?thesis
    using ancestor_le [OF assms(2)] ancestor_pos [OF assms(2)] bit_len_mono [of a "i div 2"]
    by (auto simp: inner_def)
qed

section \<open>What a status says\<close>

lemma tree_okD: "tree_ok n s \<Longrightarrow> inner n i \<Longrightarrow> node_ok n s i"
  and tree_ok_le: "tree_ok n s \<Longrightarrow> node n i \<Longrightarrow> s i \<le> cap n i"
  by (simp_all add: tree_ok_def bounded_def)

lemma zero_children:
  "tree_ok n s \<Longrightarrow> inner n i \<Longrightarrow> s i = 0 \<Longrightarrow> s (2 * i) = 0 \<and> s (Suc (2 * i)) = 0"
  using tree_okD [of n s i] by (auto simp: node_ok_def split: if_splits)

lemma zero_below:
  assumes "tree_ok n s" "s a = 0" "ancestor a i"
  shows "node n i \<longrightarrow> s i = 0"
  using assms(3)
proof (induction rule: ancestor_induct)
  case (step j)
  have j: "1 < j" using ancestor_pos [OF step.hyps] by linarith
  show ?case
  proof
    assume nj: "node n j"
    have "s (j div 2) = 0" using step.IH node_half [OF nj j] by blast
    from zero_children [OF assms(1) inner_half [OF nj j] this] show "s j = 0"
      using half_cases [of j] by metis
  qed
qed (simp add: assms)

text \<open>An ancestor of a node whose value follows from its children's is not handed out.\<close>

definition exact :: "status \<Rightarrow> nat \<Rightarrow> bool" where
  "exact s i \<longleftrightarrow> s i = parent_value (s (2 * i)) (s (Suc (2 * i)))"

lemma exact_not_allocated:
  assumes "exact s i" "inner n i"
  shows "i \<notin> allocated n s"
  using assms cap_ge_2 [OF assms(2)]
  by (auto simp: exact_def allocated_def full_def parent_value_def split: if_splits)

lemma not_allocated_exact:
  assumes "tree_ok n s" "inner n i" "i \<notin> allocated n s"
  shows "exact s i"
proof (cases "s (2 * i) = 0 \<and> s (Suc (2 * i)) = 0")
  case True
  then show ?thesis using assms tree_okD [OF assms(1,2)] inner_node [OF assms(2)]
    by (auto simp: exact_def allocated_def full_def node_ok_def parent_value_def)
next
  case False
  then show ?thesis using tree_okD [OF assms(1,2)]
    by (auto simp: exact_def node_ok_def parent_value_def)
qed

lemma allocated_children:
  assumes "tree_ok n s" "i \<in> allocated n s" "inner n i"
  shows "s (2 * i) = 0 \<and> s (Suc (2 * i)) = 0"
proof -
  have "s (2 * i) = 0" "s i = cap n i" using assms by (auto simp: allocated_def full_def)
  with tree_okD [OF assms(1,3)] cap_ge_2 [OF assms(3)] show ?thesis
    by (auto simp: node_ok_def split: if_splits)
qed

lemma allocated_above:
  assumes "tree_ok n s" "i \<in> allocated n s" "ancestor i j" "i \<noteq> j" "node n j"
  shows "s j = 0"
proof -
  have c: "ancestor (2 * i) j \<or> ancestor (Suc (2 * i)) j" using child_towards [OF assms(3)] assms(4) by simp
  have "node n (2 * i) \<or> node n (Suc (2 * i))" using c assms(5) ancestor_node by blast
  then have "inner n i" using ancestor_pos [OF assms(3)] by (auto simp: inner_def)
  from allocated_children [OF assms(1,2) this] c zero_below [OF assms(1)] assms(5) show ?thesis by blast
qed

text \<open>The nodes that are handed out lie in disjoint subtrees.\<close>

lemma allocated_antichain:
  assumes "tree_ok n s" "i \<in> allocated n s" "j \<in> allocated n s" "ancestor i j"
  shows "i = j"
proof (rule ccontr)
  assume "i \<noteq> j"
  with allocated_above [OF assms(1,2,4)] assms(3) cap_pos [of n j] show False
    by (auto simp: allocated_def full_def)
qed

lemma room_from:
  assumes "ancestor a i"
  shows "\<forall>k. s i \<le> k \<longrightarrow> (\<forall>a. ancestor a (i div 2) \<longrightarrow> exact s a) \<longrightarrow>
    s a + bit_len a \<le> bit_len i + k"
  using assms
proof (induction rule: ancestor_induct)
  case refl
  then show ?case by simp
next
  case (step j)
  have j: "1 < j" using ancestor_pos [OF step.hyps] by linarith
  show ?case
  proof (intro allI impI)
    fix k assume k: "s j \<le> k" "\<forall>a. ancestor a (j div 2) \<longrightarrow> exact s a"
    have "exact s (j div 2)" using k(2) ancestor_refl [of "j div 2"] j by simp
    then have "s (j div 2) = parent_value (s j) (s (sib j))"
      by (simp only: exact_def parent_value_sib)
    then have "s (j div 2) \<le> Suc k" using k(1) by (auto simp: parent_value_def)
    moreover have "\<forall>a. ancestor a (j div 2 div 2) \<longrightarrow> exact s a"
      using k(2) ancestor_half by blast
    ultimately have "s a + bit_len a \<le> bit_len (j div 2) + Suc k" using step.IH by blast
    then show "s a + bit_len a \<le> bit_len j + k" using bit_len_half [OF j] bit_len_less_iff [of 0 j] j by simp
  qed
qed

lemma room:
  "s i = 0 \<Longrightarrow> (\<And>a. ancestor a (i div 2) \<Longrightarrow> exact s a) \<Longrightarrow> ancestor a i \<Longrightarrow>
    s a + bit_len a \<le> bit_len i"
  using room_from [of a i s] by (metis add.right_neutral order_refl)

section \<open>Free nodes\<close>

lemma exact_afree:
  assumes i: "node n i" "s i = 0" and above: "\<And>a. ancestor a (i div 2) \<Longrightarrow> exact s a"
  shows "afree n s i"
proof -
  have "\<not> full n s a" if "ancestor a i" for a
    using room [OF i(2) above that] node_bit_len [OF i(1)] by (simp add: full_def cap_def)
  with i show ?thesis by (simp add: afree_def)
qed

lemma afree_above:
  assumes "tree_ok n s" "afree n s i" "ancestor a i"
  shows "a \<notin> allocated n s"
  using assms(2,3) by (auto simp: afree_def allocated_def)

lemma afree_below:
  assumes "tree_ok n s" "afree n s i" "ancestor i d"
  shows "d \<notin> allocated n s"
  using zero_below [OF assms(1) _ assms(3)] assms(2) cap_pos [of n d]
  by (auto simp: afree_def allocated_def full_def)

lemma allocated_below:
  "tree_ok n s \<Longrightarrow> node n i \<Longrightarrow> s i \<noteq> 0 \<Longrightarrow> \<exists>d \<in> allocated n s. ancestor i d"
proof (induction "n - bit_len i" arbitrary: i rule: less_induct)
  case less
  show ?case
  proof (cases "inner n i")
    case False
    then have "s i = cap n i"
      using leaf_cap [OF less.prems(2)] tree_ok_le [OF less.prems(1,2)] less.prems(3) by simp
    then have "i \<in> allocated n s" using False less.prems by (simp add: allocated_def full_def)
    then show ?thesis using ancestor_refl node_pos [OF less.prems(2)] by blast
  next
    case True
    then have pos: "0 < i" and deep: "bit_len i < n" by (simp_all add: inner_def)
    have down: "\<exists>d \<in> allocated n s. ancestor i d" if "c div 2 = i" "node n c" "s c \<noteq> 0" "bit_len c = Suc (bit_len i)" for c
    proof -
      have "\<exists>d \<in> allocated n s. ancestor c d"
        using less.hyps [of c] less.prems(1) that deep by simp
      moreover have "ancestor i c" using that(1) pos ancestor_refl ancestor_half by blast
      ultimately show ?thesis using ancestor_trans by blast
    qed
    show ?thesis
    proof (cases "s (2 * i) = 0 \<and> s (Suc (2 * i)) = 0")
      case both: True
      then have "i \<in> allocated n s"
        using tree_okD [OF less.prems(1) True] less.prems
        by (auto simp: node_ok_def allocated_def full_def)
      then show ?thesis using ancestor_refl [OF pos] by blast
    next
      case False
      then show ?thesis
        using down [of "2 * i"] down [of "Suc (2 * i)"] inner_children [OF True] pos by auto
    qed
  qed
qed

lemma full_below:
  assumes "tree_ok n s" "full n s a" "ancestor a i"
  shows "node n i \<longrightarrow> full n s i \<or> (\<exists>b \<in> allocated n s. ancestor b i)"
  using assms(3)
proof (induction rule: ancestor_induct)
  case (step j)
  have j: "1 < j" using ancestor_pos [OF step.hyps] by linarith
  let ?p = "j div 2"
  show ?case
  proof
    assume nj: "node n j"
    have inn: "inner n ?p" using inner_half [OF nj j] .
    have up: "ancestor ?p j" using ancestor_half [OF ancestor_refl, of j] j by simp
    from step.IH node_half [OF nj j] consider "full n s ?p" "?p \<notin> allocated n s"
      | b where "b \<in> allocated n s" "ancestor b j"
      using up ancestor_trans by blast
    then show "full n s j \<or> (\<exists>b \<in> allocated n s. ancestor b j)"
    proof cases
      case 1
      have "exact s ?p" by (rule not_allocated_exact [OF assms(1) inn 1(2)])
      then have "cap n ?p = parent_value (s j) (s (sib j))"
        using 1(1) by (simp only: exact_def full_def parent_value_sib)
      then have "cap n j \<le> s j"
        using cap_half [OF nj j] cap_pos [OF nj] by (auto simp: parent_value_def split: if_splits)
      then show ?thesis using tree_ok_le [OF assms(1) nj] by (simp add: full_def)
    qed blast
  qed
qed (simp add: assms)

text \<open>
  A node is free exactly if it neither contains nor lies inside a node that is handed out.
\<close>

lemma afree_iff:
  assumes "tree_ok n s" "node n i"
  shows "afree n s i \<longleftrightarrow> (\<forall>d \<in> allocated n s. \<not> ancestor d i \<and> \<not> ancestor i d)"
proof
  assume "afree n s i"
  then show "\<forall>d \<in> allocated n s. \<not> ancestor d i \<and> \<not> ancestor i d"
    using afree_above [OF assms(1)] afree_below [OF assms(1)] by blast
next
  assume apart: "\<forall>d \<in> allocated n s. \<not> ancestor d i \<and> \<not> ancestor i d"
  then have "s i = 0" using allocated_below [OF assms] by blast
  moreover have "\<not> full n s a" if "ancestor a i" for a
  proof
    assume "full n s a"
    from full_below [OF assms(1) this that] assms(2) apart have "full n s i" by blast
    then show False using \<open>s i = 0\<close> cap_pos [OF assms(2)] by (simp add: full_def)
  qed
  ultimately show "afree n s i" using assms(2) by (simp add: afree_def)
qed

section \<open>Marking and releasing\<close>

lemma allocated_cong:
  "s' j = s j \<Longrightarrow> s' (2 * j) = s (2 * j) \<Longrightarrow> j \<in> allocated n s' \<longleftrightarrow> j \<in> allocated n s"
  by (simp add: allocated_def full_def)

lemma chain_allocated_other:
  assumes "\<not> ancestor j i" "0 < j" "0 < i"
  shows "j \<in> allocated n (chain (s(i := v)) i) \<longleftrightarrow> j \<in> allocated n s"
proof -
  have ji: "j \<noteq> i" "\<not> ancestor j (i div 2)" using assms ancestor_refl ancestor_half by blast+
  have "2 * j \<noteq> i" "\<not> ancestor (2 * j) (i div 2)"
    using not_ancestor_child [OF assms(1,2)] ancestor_refl [OF assms(3)] ancestor_half by blast+
  with ji show ?thesis by (intro allocated_cong) (simp_all add: chain_other)
qed

lemma child_nonzero_not_allocated:
  assumes "tree_ok n s" "ancestor a i" "a \<noteq> i" "node n i" "s i \<noteq> 0"
  shows "a \<notin> allocated n s"
  using allocated_above [OF assms(1) _ assms(2,3,4)] assms(5) by blast

lemma amark_ok:
  assumes ok: "tree_ok n s" and free: "afree n s i"
  shows "tree_ok n (amark n s i)" and "allocated n (amark n s i) = insert i (allocated n s)"
proof -
  let ?s = "amark n s i"
  have i: "node n i" "s i = 0" "0 < i" using free node_pos by (auto simp: afree_def)
  have zero: "s (2 * i) = 0 \<and> s (Suc (2 * i)) = 0" if "inner n i"
    using zero_children [OF ok that i(2)] .
  show ok': "tree_ok n ?s" unfolding amark_def using tree_ok_set [OF ok i(1) _ zero] by simp
  have self: "?s i = cap n i" by (simp add: amark_def chain_self)
  have "\<not> ancestor (2 * i) (i div 2)" using ancestor_le [of "2 * i" "i div 2"] i(3) by auto
  then have "?s (2 * i) = s (2 * i)" using i(3) by (simp add: amark_def chain_other)
  then have "i \<in> allocated n ?s" using self i zero by (auto simp: allocated_def full_def)
  moreover have "j \<in> allocated n ?s \<longleftrightarrow> j \<in> allocated n s" if "j \<noteq> i" for j
  proof (cases "ancestor j i")
    case True
    then have "j \<notin> allocated n ?s"
      using child_nonzero_not_allocated [OF ok' True that i(1)] self cap_pos [OF i(1)] by simp
    then show ?thesis using afree_above [OF ok free True] by blast
  next
    case False
    show ?thesis
    proof (cases "0 < j")
      case True
      from chain_allocated_other [OF False this i(3)] show ?thesis by (simp add: amark_def)
    qed (auto simp: allocated_def node_def)
  qed
  ultimately show "allocated n ?s = insert i (allocated n s)"
    by (intro set_eqI) (metis insert_iff)
qed

lemma exact_ancestors_chain:
  assumes "node n i" "\<And>a. ancestor a (i div 2) \<Longrightarrow> exact s a"
  shows "ancestor a (i div 2) \<Longrightarrow> exact (chain (s(i := v)) i) a"
proof -
  have "\<forall>j. 0 < j \<and> ancestor j (i div 2) \<longrightarrow> exact (chain (s(i := v)) i) j"
  proof (rule chain_keeps [where Q = exact])
    show "\<forall>j. 0 < j \<and> ancestor j (i div 2) \<longrightarrow> 2 * j \<noteq> i \<and> Suc (2 * j) \<noteq> i \<longrightarrow>
        exact (s(i := v)) j"
    proof (intro allI impI)
      fix j assume j: "0 < j \<and> ancestor j (i div 2)" "2 * j \<noteq> i \<and> Suc (2 * j) \<noteq> i"
      then have "j \<noteq> i" using ancestor_half_self by blast
      with j assms(2) show "exact (s(i := v)) j" by (simp add: exact_def)
    qed
  qed (use node_pos [OF assms(1)] in \<open>simp_all add: exact_def\<close>)
  then show "ancestor a (i div 2) \<Longrightarrow> ?thesis" using ancestor_pos by blast
qed

lemma arelease_ok:
  assumes ok: "tree_ok n s" and i: "i \<in> allocated n s"
  shows "tree_ok n (arelease s i)" and "allocated n (arelease s i) = allocated n s - {i}"
    and "afree n (arelease s i) i"
proof -
  let ?s = "arelease s i"
  have n: "node n i" "s i \<noteq> 0" using i cap_pos [of n i] by (auto simp: allocated_def full_def)
  have pos: "0 < i" using node_pos [OF n(1)] .
  show ok': "tree_ok n ?s"
    unfolding arelease_def using tree_ok_set [OF ok n(1) _ allocated_children [OF ok i]] by simp
  have self: "?s i = 0" by (simp add: arelease_def chain_self)
  have "exact s a" if a: "ancestor a (i div 2)" for a
  proof -
    have "a \<noteq> i" using a ancestor_half_self by blast
    then have "a \<notin> allocated n s"
      using child_nonzero_not_allocated [OF ok ancestor_half [OF a] _ n] by blast
    then show ?thesis using not_allocated_exact [OF ok node_half_inner [OF n(1) a]] by blast
  qed
  from exact_ancestors_chain [OF n(1) this]
  have exact: "ancestor a (i div 2) \<Longrightarrow> exact ?s a" for a by (simp add: arelease_def)
  show free: "afree n ?s i" by (rule exact_afree [OF n(1) self exact])
  then have "i \<notin> allocated n ?s" using afree_above [OF ok'] ancestor_refl [OF pos] by blast
  moreover have "j \<in> allocated n ?s \<longleftrightarrow> j \<in> allocated n s" if "j \<noteq> i" for j
  proof (cases "ancestor j i")
    case True
    then show ?thesis
      using afree_above [OF ok' free True] child_nonzero_not_allocated [OF ok True that n] by blast
  next
    case False
    show ?thesis
    proof (cases "0 < j")
      case True
      from chain_allocated_other [OF False this pos] show ?thesis by (simp add: arelease_def)
    qed (auto simp: allocated_def node_def)
  qed
  ultimately show "allocated n ?s = allocated n s - {i}"
    by (intro set_eqI) (metis Diff_iff singletonD singletonI)
qed

end
