(* ===== verification/Buddy_Refine.thy ===== *)
theory Buddy_Refine
  imports Buddy_Status
begin

text \<open>
  The bit-level tree implements the abstract one. Counters are written in unary, so that one test
  of a bit compares a counter with a bound; a write to one node leaves the counters of all others
  alone. Through this interface, \<open>mark\<close>, \<open>release\<close> and the search of \<open>Buddy_Tree\<close> act on the
  statuses as \<open>Buddy_Status\<close> specifies.
\<close>

section \<open>The interface of the counters\<close>

locale field_store =
  fixes fmt :: "'s \<Rightarrow> bool" and keys :: "'k set" and width :: "'k \<Rightarrow> nat"
    and rd :: "'s \<Rightarrow> 'k \<Rightarrow> nat" and wr :: "'s \<Rightarrow> 'k \<Rightarrow> nat \<Rightarrow> 's"
    and at_least :: "'s \<Rightarrow> 'k \<Rightarrow> nat \<Rightarrow> bool"
  assumes fmt_wr: "fmt s \<Longrightarrow> k \<in> keys \<Longrightarrow> v \<le> width k \<Longrightarrow> fmt (wr s k v)"
    and rd_wr: "fmt s \<Longrightarrow> k \<in> keys \<Longrightarrow> v \<le> width k \<Longrightarrow> j \<in> keys \<Longrightarrow>
      rd (wr s k v) j = (if j = k then v else rd s j)"
    and rd_le: "fmt s \<Longrightarrow> k \<in> keys \<Longrightarrow> rd s k \<le> width k"
    and at_least_rd: "fmt s \<Longrightarrow> k \<in> keys \<Longrightarrow> 1 \<le> v \<Longrightarrow> v \<le> width k \<Longrightarrow>
      at_least s k v \<longleftrightarrow> v \<le> rd s k"
begin

definition view :: "'s \<Rightarrow> 'k \<Rightarrow> nat" where
  "view s k = (if k \<in> keys then rd s k else 0)"

lemma view_rd: "k \<in> keys \<Longrightarrow> view s k = rd s k"
  by (simp add: view_def)

lemma view_le: "fmt s \<Longrightarrow> k \<in> keys \<Longrightarrow> view s k \<le> width k"
  by (simp add: view_def rd_le)

lemma view_wr:
  "fmt s \<Longrightarrow> k \<in> keys \<Longrightarrow> v \<le> width k \<Longrightarrow> view (wr s k v) = (view s)(k := v)"
  by (rule ext) (auto simp: view_def rd_wr)

lemma view_at_least:
  "fmt s \<Longrightarrow> k \<in> keys \<Longrightarrow> v < width k \<Longrightarrow> at_least s k (Suc v) \<longleftrightarrow> v < view s k"
  by (simp add: view_def at_least_rd Suc_le_eq)

end

section \<open>Unary counters\<close>

definition unary :: "bitset \<Rightarrow> nat \<Rightarrow> nat \<Rightarrow> nat \<Rightarrow> bool" where
  "unary bs a w v \<longleftrightarrow> v \<le> w \<and> (\<forall>i < w. bit_at bs (a + i) = (i < v))"

lemma unary_read:
  assumes "unary bs a w v" "0 < w" "a + w \<le> 8 * length bs"
  shows "read_from_internal_position bs \<lparr>local_offset = w, bitset_location = a\<rparr> = v"
proof (cases "v = 0")
  case True
  with assms have "\<not> bit_at bs a" by (force simp: unary_def)
  with True show ?thesis by (simp add: read_from_internal_position_def bitset_test_bit_at)
next
  case False
  have at: "bit_at bs i = (i < a + v)" if "a \<le> i" "i < a + w" for i
    using assms(1) that by (auto simp: unary_def dest: spec [of _ "i - a"])
  have "{i. a \<le> i \<and> i \<le> a + w - 1 \<and> bit_at bs i} = {a..<a + v}"
    using at assms(1,2) by (auto simp: unary_def)
  moreover have "bit_at bs a" using at [of a] False assms(2) by simp
  ultimately show ?thesis using assms
    by (simp add: read_from_internal_position_def bitset_test_bit_at bitset_count_range_spec)
qed

lemma unary_compare:
  assumes "unary bs a w v" "1 \<le> k" "k \<le> w"
  shows "compare_with_internal_position bs \<lparr>local_offset = w, bitset_location = a\<rparr> k \<longleftrightarrow> k \<le> v"
proof -
  obtain j where k: "k = Suc j" using assms(2) by (cases k) auto
  have "bit_at bs (a + j) = (j < v)" using assms by (simp add: unary_def k)
  then show ?thesis unfolding k
    by (auto simp: compare_with_internal_position_def bitset_test_bit_at)
qed

definition write_bits :: "bitset \<Rightarrow> nat \<Rightarrow> nat \<Rightarrow> nat \<Rightarrow> bitset" where
  "write_bits bs a w v =
     (let cleared = bitset_clear_range bs (to_bitset_range a (a + w - 1))
      in if v \<noteq> 0 then bitset_set_range cleared (to_bitset_range a (a + v - 1)) else cleared)"

lemma write_bits:
  "write_to_internal_position t \<lparr>local_offset = w, bitset_location = a\<rparr> v =
    t\<lparr>tree_bits := write_bits (tree_bits t) a w v\<rparr>"
  by (simp add: write_to_internal_position_def write_bits_def Let_def)

lemma write_bits_spec:
  assumes "0 < w" "v \<le> w" "a + w \<le> 8 * length bs"
  shows "length (write_bits bs a w v) = length bs"
    and "i < 8 * length bs \<Longrightarrow> bit_at (write_bits bs a w v) i =
      (if a \<le> i \<and> i < a + w then i < a + v else bit_at bs i)"
proof -
  let ?c = "bitset_clear_range bs (to_bitset_range a (a + w - 1))"
  have c: "length ?c = length bs"
    "i < 8 * length bs \<Longrightarrow> bit_at ?c i = (\<not> (a \<le> i \<and> i \<le> a + w - 1) \<and> bit_at bs i)" for i
    using bitset_clear_range_spec [of a "a + w - 1" bs] assms by auto
  have s: "length (bitset_set_range ?c (to_bitset_range a (a + v - 1))) = length bs"
    "i < 8 * length bs \<Longrightarrow> bit_at (bitset_set_range ?c (to_bitset_range a (a + v - 1))) i =
      (a \<le> i \<and> i \<le> a + v - 1 \<or> bit_at ?c i)" if "v \<noteq> 0" for i
    using bitset_set_range_spec [of a "a + v - 1" ?c] assms that c(1) by auto
  show "length (write_bits bs a w v) = length bs" using c(1) s(1) by (simp add: write_bits_def Let_def)
  show "i < 8 * length bs \<Longrightarrow> bit_at (write_bits bs a w v) i =
      (if a \<le> i \<and> i < a + w then i < a + v else bit_at bs i)"
    using c(2) [of i] s(2) [of i] assms(1,2) by (auto simp: write_bits_def Let_def)
qed

lemma write_bits_unary:
  assumes "0 < w" "v \<le> w" "a + w \<le> 8 * length bs"
  shows "unary (write_bits bs a w v) a w v"
    and "unary bs b u x \<Longrightarrow> b + u \<le> a \<or> a + w \<le> b \<Longrightarrow> b + u \<le> 8 * length bs \<Longrightarrow>
      unary (write_bits bs a w v) b u x"
  using assms by (auto simp: unary_def write_bits_spec)

section \<open>Well-formed trees\<close>

text \<open>
  The order is bounded by 60: a tree of that order would already need \<open>2 ^ 61\<close> bits, and up to it
  every size and position of the C code stays below \<open>2 ^ 64\<close>, so that no computation wraps.
\<close>

definition max_order :: nat where
  "max_order = 60"

definition tree_wf :: "nat \<Rightarrow> buddy_tree \<Rightarrow> bool" where
  "tree_wf n t \<longleftrightarrow> 0 < n \<and> n \<le> max_order \<and> tree_order t = n \<and> upper_pos_bound t = 2 ^ n
     \<and> size_for_order_table t = map (size_for_order n) [0..<n + 1]
     \<and> size_for_order n 0 \<le> 8 * length (tree_bits t)
     \<and> (\<forall>i. node n i \<longrightarrow> (\<exists>v. unary (tree_bits t) (loc n i) (cap n i) v))"

definition npos_internal :: "nat \<Rightarrow> nat \<Rightarrow> internal_position" where
  "npos_internal n i = \<lparr>local_offset = cap n i, bitset_location = loc n i\<rparr>"

lemma internal_npos:
  assumes "tree_wf n t" "node n i"
  shows "buddy_tree_internal_position_tree t (npos i) = npos_internal n i"
proof -
  have i: "0 < bit_len i" "bit_len i \<le> n"
    using assms(2) node_bit_len node_pos bit_len_less_iff [of 0 i] by fastforce+
  then have "n + 1 - bit_len i < n + 1" by simp
  moreover have "n \<le> 63" using assms(1) by (simp add: tree_wf_def max_order_def)
  ultimately have "map (size_for_order n) [0..<n + 1] ! (n + 1 - bit_len i) = row_start n (bit_len i)"
    by (simp only: nth_map_upt row_start_def size_for_order_row_bits) simp
  moreover have n: "n \<le> 63" using assms(1) by (simp add: tree_wf_def max_order_def)
  moreover have "loc n i < 2 ^ 64" using loc_small [OF assms(2) n] by simp
  ultimately show ?thesis
    using assms index_internal_npos [OF assms(2)]
    by (simp add: buddy_tree_internal_position_tree_def buddy_tree_size_for_order_def tree_wf_def
        npos_internal_def cap_def loc_def Let_def del: upt_Suc)
qed

lemma sibling_npos: "1 < i \<Longrightarrow> node n i \<Longrightarrow>
    (npos_internal n i)\<lparr>bitset_location := bitset_location (npos_internal n i)
        + local_offset (npos_internal n i) - 2 * local_offset (npos_internal n i) * (i AND 1)\<rparr>
      = npos_internal n (sib i)"
proof -
  assume i: "1 < i" "node n i"
  define p where "p = i div 2"
  have p: "0 < p" using i by (simp add: p_def)
  have c: "cap n (Suc (2 * p)) = cap n (2 * p)" using p by (simp add: cap_def)
  show ?thesis
  proof (rule half_cases [of i])
    assume "i = 2 * (i div 2)"
    then have "i = 2 * p" by (simp only: p_def)
    then show ?thesis using loc_right_sibling [OF p, of n] c
      by (simp add: npos_internal_def and_1_odd)
  next
    assume "i = Suc (2 * (i div 2))"
    then have "i = Suc (2 * p)" by (simp only: p_def)
    then show ?thesis using loc_right_sibling [OF p, of n] c
      by (simp add: npos_internal_def and_1_odd)
  qed
qed

definition status_of :: "buddy_tree \<Rightarrow> nat \<Rightarrow> nat" where
  "status_of t i = buddy_tree_status t (npos i)"

definition write_status :: "nat \<Rightarrow> buddy_tree \<Rightarrow> nat \<Rightarrow> nat \<Rightarrow> buddy_tree" where
  "write_status n t i v = write_to_internal_position t (npos_internal n i) v"

definition status_at_least :: "nat \<Rightarrow> buddy_tree \<Rightarrow> nat \<Rightarrow> nat \<Rightarrow> bool" where
  "status_at_least n t i v = compare_with_internal_position (tree_bits t) (npos_internal n i) v"

lemma field_in_bits: "tree_wf n t \<Longrightarrow> node n i \<Longrightarrow> loc n i + cap n i \<le> 8 * length (tree_bits t)"
  using loc_total [of n i] size_for_order_row_bits [of n 0] unfolding tree_wf_def max_order_def by linarith

lemma status_unary:
  assumes "tree_wf n t" "node n i"
  shows "unary (tree_bits t) (loc n i) (cap n i) (status_of t i)"
proof -
  obtain v where v: "unary (tree_bits t) (loc n i) (cap n i) v"
    using assms by (auto simp: tree_wf_def)
  from unary_read [OF this cap_pos [OF assms(2)] field_in_bits [OF assms]] internal_npos [OF assms]
  have "status_of t i = v" by (simp add: status_of_def buddy_tree_status_def npos_internal_def)
  with v show ?thesis by simp
qed

lemma status_unique:
  assumes "tree_wf n t" "node n i" "unary (tree_bits t) (loc n i) (cap n i) v"
  shows "status_of t i = v"
  using unary_read [OF assms(3) cap_pos [OF assms(2)] field_in_bits [OF assms(1,2)]]
    internal_npos [OF assms(1,2)]
  by (simp add: status_of_def buddy_tree_status_def npos_internal_def)

lemma write_status_unary:
  assumes "tree_wf n t" "node n k" "v \<le> cap n k" "node n j"
  shows "unary (tree_bits (write_status n t k v)) (loc n j) (cap n j)
    (if j = k then v else status_of t j)"
proof (cases "j = k")
  case True
  then show ?thesis
    using write_bits_unary(1) [OF cap_pos [OF assms(2)] assms(3) field_in_bits [OF assms(1,2)]]
    by (simp add: write_status_def npos_internal_def write_bits)
next
  case False
  have "loc n j + cap n j \<le> loc n k \<or> loc n k + cap n k \<le> loc n j"
    using loc_disjoint [OF assms(2,4)] loc_disjoint [OF assms(4,2)] False by linarith
  then show ?thesis
    using write_bits_unary(2) [OF cap_pos [OF assms(2)] assms(3) field_in_bits [OF assms(1,2)]
        status_unary [OF assms(1,4)] _ field_in_bits [OF assms(1,4)]] False
    by (simp add: write_status_def npos_internal_def write_bits)
qed

lemma write_status_wf:
  assumes "tree_wf n t" "node n k" "v \<le> cap n k"
  shows "tree_wf n (write_status n t k v)"
proof -
  have "length (tree_bits (write_status n t k v)) = length (tree_bits t)"
    using write_bits_spec(1) [OF cap_pos [OF assms(2)] assms(3) field_in_bits [OF assms(1,2)]]
    by (simp add: write_status_def npos_internal_def write_bits)
  moreover have "tree_order (write_status n t k v) = tree_order t"
    "upper_pos_bound (write_status n t k v) = upper_pos_bound t"
    "size_for_order_table (write_status n t k v) = size_for_order_table t"
    by (simp_all add: write_status_def npos_internal_def write_bits)
  ultimately show ?thesis
    using assms(1) write_status_unary [OF assms] unfolding tree_wf_def by metis
qed

interpretation counters: field_store "tree_wf n" "{i. node n i}" "cap n" status_of
  "write_status n" "status_at_least n" for n
proof
  fix t k v
  assume t: "tree_wf n t" "k \<in> {i. node n i}"
  then have k: "node n k" by simp
  show "v \<le> cap n k \<Longrightarrow> tree_wf n (write_status n t k v)" by (rule write_status_wf [OF t(1) k])
  show "status_of t k \<le> cap n k" using status_unary [OF t(1) k] by (simp add: unary_def)
  show "1 \<le> v \<Longrightarrow> v \<le> cap n k \<Longrightarrow> status_at_least n t k v = (v \<le> status_of t k)"
    using unary_compare [OF status_unary [OF t(1) k]]
    by (simp add: status_at_least_def npos_internal_def)
  fix j assume "v \<le> cap n k" "j \<in> {i. node n i}"
  then show "status_of (write_status n t k v) j = (if j = k then v else status_of t j)"
    using status_unique [OF write_status_wf [OF t(1) k]] write_status_unary [OF t(1) k] by simp
qed

end
