(* ===== verification/Buddy_Tree_Correct.thy ===== *)
theory Buddy_Tree_Correct
  imports Buddy_Refine
begin

text \<open>
  Correctness of mark, release, the free test and the search of the bit-level tree, by refinement
  to the abstract tree.
\<close>

abbreviation statuses :: "nat \<Rightarrow> buddy_tree \<Rightarrow> status" where
  "statuses n t \<equiv> counters.view n t"

definition tree_inv :: "nat \<Rightarrow> buddy_tree \<Rightarrow> bool" where
  "tree_inv n t \<longleftrightarrow> tree_wf n t \<and> tree_ok n (statuses n t)"

text \<open>The nodes handed out, and the nodes that could be, of a tree in memory.\<close>

definition in_use :: "nat \<Rightarrow> buddy_tree \<Rightarrow> nat set" where
  "in_use n t = allocated n (statuses n t)"

definition available :: "nat \<Rightarrow> buddy_tree \<Rightarrow> nat \<Rightarrow> bool" where
  "available n t i \<longleftrightarrow> afree n (statuses n t) i"

lemma statuses_node: "node n i \<Longrightarrow> statuses n t i = status_of t i"
  using counters.view_rd [of i n t] by simp

lemma read_status:
  "tree_wf n t \<Longrightarrow> node n i \<Longrightarrow>
    read_from_internal_position (tree_bits t) (npos_internal n i) = statuses n t i"
  by (simp add: statuses_node status_of_def buddy_tree_status_def internal_npos)

lemma compare_status:
  "tree_wf n t \<Longrightarrow> node n i \<Longrightarrow> v < cap n i \<Longrightarrow>
    compare_with_internal_position (tree_bits t) (npos_internal n i) (Suc v) \<longleftrightarrow>
      v < statuses n t i"
  using counters.view_at_least [of n t i v] by (simp add: status_at_least_def)

lemma write_status:
  assumes "tree_wf n t" "node n i" "v \<le> cap n i"
  shows "tree_wf n (write_to_internal_position t (npos_internal n i) v)"
    "statuses n (write_to_internal_position t (npos_internal n i) v) = (statuses n t)(i := v)"
  using counters.fmt_wr [of n t i v] counters.view_wr [of n t i v] assms
  by (simp_all add: write_status_def)

lemma statuses_bounded: "tree_wf n t \<Longrightarrow> bounded n (statuses n t)"
  using counters.view_le [of n t] by (simp add: bounded_def)

section \<open>Mark and release\<close>

lemma node_sib: "node n i \<Longrightarrow> 1 < i \<Longrightarrow> node n (sib i)"
proof -
  assume i: "node n i" "1 < i"
  have n: "node n (2 * (i div 2))" "node n (Suc (2 * (i div 2)))"
    using inner_children [OF inner_half [OF i]] by simp_all
  show ?thesis using half_cases [of i] n sib_simps by metis
qed

lemma target_parent:
  "(if a \<noteq> 0 \<or> b \<noteq> 0 then 1 else 0) * ((if a \<le> b then a else b) + 1) = parent_value a b"
  by (simp add: parent_value_def min_def)

lemma update_parent_chain_refines:
  assumes "tree_wf n t" "node n i"
  shows "tree_wf n (update_parent_chain t (npos i) (npos_internal n i) (statuses n t i))
    \<and> statuses n (update_parent_chain t (npos i) (npos_internal n i) (statuses n t i))
        = chain (statuses n t) i"
  using assms
proof (induction i arbitrary: t rule: less_induct)
  case (less i)
  let ?s = "statuses n t" and ?p = "i div 2"
  note wf = less.prems(1) and i = less.prems(2)
  show ?case
  proof (cases "1 < i")
    case True
    let ?v = "parent_value (?s i) (?s (sib i))"
    let ?t = "write_to_internal_position t (npos_internal n ?p) ?v"
    have p: "node n ?p" using node_half [OF i True] .
    have v: "?v \<le> cap n ?p"
      using bounded_parent_value [OF statuses_bounded [OF wf] inner_half [OF i True]]
      by (simp only: parent_value_sib)
    have step: "update_parent_chain t (npos i) (npos_internal n i) (?s i) =
        (if ?v = ?s ?p then t else update_parent_chain ?t (npos ?p) (npos_internal n ?p) ?v)"
      by (subst update_parent_chain.simps)
        (simp only: Let_def npos_simps sibling_npos [OF True i] parent_npos [OF True]
          read_status [OF wf node_sib [OF i True]] internal_npos [OF wf p] read_status [OF wf p]
          target_parent True if_True)
    show ?thesis
    proof (cases "?v = ?s ?p")
      case same: True
      show ?thesis unfolding step chain_same [OF True same] using same wf by simp
    next
      case False
      have s: "statuses n ?t = ?s(?p := ?v)" by (rule write_status [OF wf p v])
      have "?p < i" using True by simp
      from less.IH [OF this write_status(1) [OF wf p v] p] show ?thesis
        unfolding step chain_write [OF True False] if_not_P [OF False] s by (simp only: fun_upd_same)
    qed
  next
    case False
    then show ?thesis using wf by (subst (1 2) update_parent_chain.simps) (simp add: chain_stop)
  qed
qed

lemma write_then_chain:
  assumes "tree_wf n t" "node n i" "v \<le> cap n i"
  shows "tree_wf n (update_parent_chain (write_to_internal_position t (npos_internal n i) v)
      (npos i) (npos_internal n i) v)"
    and "statuses n (update_parent_chain (write_to_internal_position t (npos_internal n i) v)
      (npos i) (npos_internal n i) v) = chain ((statuses n t)(i := v)) i"
  using update_parent_chain_refines [OF write_status(1) [OF assms] assms(2)]
  by (simp_all only: write_status(2) [OF assms] fun_upd_same)

lemma buddy_tree_mark_refines:
  assumes "tree_wf n t" "node n i"
  shows "tree_wf n (buddy_tree_mark t (npos i))"
    and "statuses n (buddy_tree_mark t (npos i)) = amark n (statuses n t) i"
  using write_then_chain [OF assms order_refl] internal_npos [OF assms]
  by (simp_all add: buddy_tree_mark_def amark_def npos_internal_def Let_def)

lemma buddy_tree_release_refines:
  assumes "tree_wf n t" "node n i"
  shows "buddy_tree_release t (npos i) =
    (if full n (statuses n t) i
     then (BUDDY_TREE_RELEASE_SUCCESS, snd (buddy_tree_release t (npos i)))
     else (BUDDY_TREE_RELEASE_FAIL_PARTIALLY_USED, t))"
    and "full n (statuses n t) i \<Longrightarrow> tree_wf n (snd (buddy_tree_release t (npos i)))"
    and "full n (statuses n t) i \<Longrightarrow>
      statuses n (snd (buddy_tree_release t (npos i))) = arelease (statuses n t) i"
proof -
  have local_n: "local_offset (npos_internal n i) = cap n i" by (simp add: npos_internal_def)
  have *: "buddy_tree_release t (npos i) =
    (if full n (statuses n t) i
     then (BUDDY_TREE_RELEASE_SUCCESS,
       update_parent_chain (write_to_internal_position t (npos_internal n i) 0)
         (npos i) (npos_internal n i) 0)
     else (BUDDY_TREE_RELEASE_FAIL_PARTIALLY_USED, t))"
    by (simp add: buddy_tree_release_def internal_npos [OF assms] read_status [OF assms]
        local_n full_def Let_def)
  note ** = write_then_chain [OF assms le0]
  show "buddy_tree_release t (npos i) =
    (if full n (statuses n t) i
     then (BUDDY_TREE_RELEASE_SUCCESS, snd (buddy_tree_release t (npos i)))
     else (BUDDY_TREE_RELEASE_FAIL_PARTIALLY_USED, t))"
    using * by simp
  show "full n (statuses n t) i \<Longrightarrow> tree_wf n (snd (buddy_tree_release t (npos i)))"
    using * **(1) by simp
  show "full n (statuses n t) i \<Longrightarrow>
      statuses n (snd (buddy_tree_release t (npos i))) = arelease (statuses n t) i"
    using * **(2) by (simp add: arelease_def)
qed

section \<open>The free test\<close>

lemma npos_valid: "tree_wf n t \<Longrightarrow> buddy_tree_valid t (npos i) \<longleftrightarrow> node n i"
  by (auto simp: buddy_tree_valid_def tree_wf_def node_def)

lemma is_free_loop_root: "tree_wf n t \<Longrightarrow> is_free_loop t (buddy_tree_parent (npos 1))"
  by (subst is_free_loop.simps) (simp add: buddy_tree_valid_def buddy_tree_parent_def)

text \<open>The loop stops at the first ancestor with a nonzero status; above it none is full.\<close>

lemma not_full_above:
  assumes "tree_ok n s" "node n i" "s i \<noteq> cap n i" "s i \<noteq> 0" "ancestor a i"
  shows "\<not> full n s a"
proof
  assume "full n s a"
  from full_below [OF assms(1) this assms(5)] assms(2,3) obtain b where
    "b \<in> allocated n s" "ancestor b i" by (auto simp: full_def)
  then show False
    using allocated_above [OF assms(1), of b i] assms by (auto simp: allocated_def full_def)
qed

lemma is_free_loop_spec:
  assumes "tree_inv n t" "node n i"
  shows "is_free_loop t (npos i) \<longleftrightarrow> (\<forall>a. ancestor a i \<longrightarrow> \<not> full n (statuses n t) a)"
  using assms(2)
proof (induction i rule: less_induct)
  case (less i)
  let ?s = "statuses n t"
  have wf: "tree_wf n t" and ok: "tree_ok n ?s" using assms(1) by (simp_all add: tree_inv_def)
  have i: "0 < i" using node_pos [OF less.prems] .
  have step: "is_free_loop t (npos i) =
      (if ?s i \<noteq> 0 then ?s i \<noteq> cap n i else is_free_loop t (buddy_tree_parent (npos i)))"
    by (subst is_free_loop.simps)
      (simp add: npos_valid [OF wf] less.prems internal_npos [OF wf less.prems]
        read_status [OF wf less.prems], simp add: npos_internal_def)
  show ?case
  proof (cases "?s i = 0")
    case False
    then show ?thesis
      using not_full_above [OF ok less.prems] ancestor_refl [OF i] by (auto simp: step full_def)
  next
    case True
    have self: "\<not> full n ?s i" using True cap_pos [OF less.prems] by (simp add: full_def)
    show ?thesis
    proof (cases "1 < i")
      case big: True
      have "i div 2 < i" using big by simp
      from less.IH [OF this node_half [OF less.prems big]] show ?thesis
        using True self parent_npos [OF big] ancestor_iff [OF i] by (simp only: step) auto
    next
      case False
      then have "i = 1" using i by simp
      then have "ancestor a i \<Longrightarrow> a = i" for a using ancestor_le ancestor_pos by fastforce
      moreover have "is_free_loop t (npos i)"
        unfolding step using True is_free_loop_root [OF wf] \<open>i = 1\<close> by simp
      ultimately show ?thesis using self by blast
    qed
  qed
qed

lemma buddy_tree_is_free_spec:
  assumes "tree_inv n t" "node n i"
  shows "buddy_tree_is_free t (npos i) \<longleftrightarrow> available n t i"
proof -
  have wf: "tree_wf n t" using assms(1) by (simp add: tree_inv_def)
  have i: "0 < i" using node_pos [OF assms(2)] .
  have st: "buddy_tree_status t (npos i) = statuses n t i"
    using assms(2) by (simp add: statuses_node status_of_def)
  have "is_free_loop t (buddy_tree_parent (npos i)) \<longleftrightarrow>
      (\<forall>a. ancestor a (i div 2) \<longrightarrow> \<not> full n (statuses n t) a)"
  proof (cases "1 < i")
    case True
    then show ?thesis
      using is_free_loop_spec [OF assms(1) node_half [OF assms(2) True]] by (simp add: parent_npos)
  next
    case False
    then have "i = 1" using i by simp
    then show ?thesis using is_free_loop_root [OF wf] by simp
  qed
  then show ?thesis
    using assms(2) cap_pos [OF assms(2)] ancestor_iff [OF i]
    by (auto simp: buddy_tree_is_free_def available_def afree_def st full_def)
qed

section \<open>The search\<close>

definition pick_child :: "status \<Rightarrow> nat \<Rightarrow> nat \<Rightarrow> nat" where
  "pick_child s ts i =
     (if ts < s (2 * i) then Suc (2 * i)
      else if ts < s (Suc (2 * i)) then 2 * i
      else if s (Suc (2 * i)) \<noteq> 0
        then (if s (Suc (2 * i)) \<le> s (2 * i) then 2 * i else Suc (2 * i))
      else 2 * i)"

lemma uint8_dec_pos: "0 < x \<Longrightarrow> x < 256 \<Longrightarrow> uint8_dec x = x - 1"
proof -
  assume "0 < x" "x < 256"
  then have "x + 255 = (x - 1) + 256" "x - 1 < 256" by simp_all
  then show ?thesis by (simp only: uint8_dec_def mod_add_self2 mod_less)
qed

lemma right_internal:
  "0 < i \<Longrightarrow> (npos_internal n (2 * i))\<lparr>bitset_location :=
      bitset_location (npos_internal n (2 * i)) + local_offset (npos_internal n (2 * i))\<rparr>
    = npos_internal n (Suc (2 * i))"
  by (simp add: npos_internal_def loc_right_sibling cap_def)

lemma find_free_step:
  assumes inv: "tree_inv n t" and inn: "inner n i" and d: "bit_len i < d" "d \<le> n" and n: "n < 256"
  shows "find_free_loop t (npos i) (d - bit_len i) (bit_len i) d =
    (let j = pick_child (statuses n t) (d - bit_len i - 1) i
     in find_free_loop t (npos j) (d - bit_len j) (bit_len j) d)"
proof -
  let ?s = "statuses n t" and ?l = "2 * i" and ?r = "Suc (2 * i)" and ?ts = "d - bit_len i - 1"
  have wf: "tree_wf n t" using inv by (simp add: tree_inv_def)
  have i: "0 < i" using inn by (simp add: inner_def)
  have l: "node n ?l" and r: "node n ?r" using inner_children [OF inn] .
  have caps: "cap n ?l = n - bit_len i" "cap n ?r = n - bit_len i" using i by (simp_all add: cap_def)
  have dec: "uint8_dec (d - bit_len i) = ?ts" using d n by (intro uint8_dec_pos) auto
  have ts: "?ts < cap n ?l" "?ts < cap n ?r" using d caps by auto
  have cmp_l: "compare_with_internal_position (tree_bits t) (npos_internal n ?l) (?ts + 1) = (?ts < ?s ?l)"
    using compare_status [OF wf l ts(1)] by simp
  have cmp_r: "compare_with_internal_position (tree_bits t) (npos_internal n ?r) (?ts + 1) = (?ts < ?s ?r)"
    using compare_status [OF wf r ts(2)] by simp
  have cmp_s: "compare_with_internal_position (tree_bits t) (npos_internal n ?l) (?s ?r) = (?s ?r \<le> ?s ?l)"
    if nz: "?s ?r \<noteq> 0"
  proof -
    obtain v where v: "?s ?r = Suc v" using not0_implies_Suc [OF nz] by blast
    have "?s ?r \<le> cap n ?r" using statuses_bounded [OF wf] r by (simp add: bounded_def)
    then have "v < cap n ?l" using v caps by simp
    from compare_status [OF wf l this] show ?thesis by (simp only: v Suc_le_eq)
  qed
  have pick: "(if ?ts < ?s ?l then npos ?r else if ?ts < ?s ?r then npos ?l
      else if ?s ?r \<noteq> 0
        then if compare_with_internal_position (tree_bits t) (npos_internal n ?l) (?s ?r)
             then npos ?l else npos ?r
      else npos ?l) = npos (pick_child ?s ?ts i)"
    using cmp_s by (simp add: pick_child_def)
  have depth: "bit_len i + 1 = bit_len (pick_child ?s ?ts i)"
    using i by (simp add: pick_child_def)
  have "find_free_loop t (npos i) (d - bit_len i) (bit_len i) d =
      find_free_loop t (npos (pick_child ?s ?ts i)) ?ts (bit_len i + 1) d"
    by (subst find_free_loop.simps)
      (simp only: d(1) if_True Let_def dec left_child_npos [OF i] sibling_npos_left [OF i]
        internal_npos [OF wf l] right_internal [OF i] cmp_l cmp_r read_status [OF wf r] pick)
  then show ?thesis unfolding Let_def depth [symmetric] by simp
qed

lemma pick_child_small:
  assumes "node_ok n s i" "s i \<noteq> cap n i" "s i \<le> Suc ts"
  shows "s (pick_child s ts i) \<le> ts"
  using node_okD [OF assms(1,2)] assms(3)
  by (auto simp: pick_child_def parent_value_def split: if_splits)

lemma find_free_loop_spec:
  assumes inv: "tree_inv n t" and "node n i" "bit_len i \<le> d" "d \<le> n"
    and "statuses n t i \<le> d - bit_len i"
    and "\<forall>a. ancestor a i \<longrightarrow> \<not> full n (statuses n t) a"
  shows "\<exists>j. find_free_loop t (npos i) (d - bit_len i) (bit_len i) d = npos j
    \<and> bit_len j = d \<and> available n t j"
  using assms(2-)
proof (induction "d - bit_len i" arbitrary: i)
  case 0
  then show ?case
    by (subst find_free_loop.simps) (auto simp: available_def afree_def intro!: exI [of _ i])
next
  case (Suc k)
  let ?s = "statuses n t"
  have ok: "tree_ok n ?s" and n: "n < 256"
    using inv by (simp_all add: tree_inv_def tree_wf_def max_order_def)
  have lt: "bit_len i < d" using Suc.hyps(2) by simp
  have i: "0 < i" using node_pos [OF Suc.prems(1)] .
  have inn: "inner n i" using lt Suc.prems i by (simp add: inner_def)
  define j where "j = pick_child ?s (d - bit_len i - 1) i"
  have jc: "j = 2 * i \<or> j = Suc (2 * i)" by (simp add: j_def pick_child_def)
  then have j: "node n j" "bit_len j = Suc (bit_len i)" "j div 2 = i" "0 < j"
    using inner_children [OF inn] i by auto
  have "?s i \<noteq> cap n i" using Suc.prems(5) ancestor_refl [OF i] by (auto simp: full_def)
  then have small: "?s j \<le> d - bit_len j"
    using pick_child_small [OF tree_okD [OF ok inn]] Suc.prems(4) lt j(2) by (simp add: j_def)
  then have "\<not> full n ?s j" using j(2) Suc.prems(3) lt by (simp add: full_def cap_def)
  then have "\<forall>a. ancestor a j \<longrightarrow> \<not> full n ?s a"
    using Suc.prems(5) ancestor_iff [OF j(4)] j(3) by auto
  from Suc.hyps(1) [OF _ j(1) _ Suc.prems(3) small this] Suc.hyps(2) j(2) lt
  have "\<exists>x. find_free_loop t (npos j) (d - bit_len j) (bit_len j) d = npos x
      \<and> bit_len x = d \<and> available n t x" by simp
  then show ?case
    using find_free_step [OF inv inn lt Suc.prems(3) n] by (simp add: j_def Let_def)
qed

lemma available_room:
  assumes "tree_inv n t" "available n t i" "ancestor a i"
  shows "statuses n t a + bit_len a \<le> bit_len i"
proof (rule room [OF _ _ assms(3)])
  show "statuses n t i = 0" using assms(2) by (simp add: available_def afree_def)
  fix b assume b: "ancestor b (i div 2)"
  have "node n i" using assms(2) by (simp add: available_def afree_def)
  then have "inner n b" using node_half_inner b by blast
  moreover have "b \<notin> allocated n (statuses n t)"
    using assms afree_above ancestor_half [OF b] by (auto simp: tree_inv_def available_def)
  ultimately show "exact (statuses n t) b"
    using not_allocated_exact assms(1) by (auto simp: tree_inv_def)
qed

lemma ancestor_1: "0 < i \<Longrightarrow> ancestor 1 i"
proof (induction i rule: less_induct)
  case (less i)
  show ?case
  proof (cases "i = 1")
    case True
    then show ?thesis using ancestor_refl [of 1] by simp
  next
    case False
    with less.prems have "i div 2 < i" "0 < i div 2" by auto
    from ancestor_half [OF less.IH [OF this]] show ?thesis .
  qed
qed

lemma find_free_cases:
  assumes inv: "tree_inv n t" and d: "1 \<le> d" "d \<le> n"
  shows "(buddy_tree_find_free t d = INVALID_POS \<and> \<not> (\<exists>i. bit_len i = d \<and> available n t i))
    \<or> (\<exists>j. buddy_tree_find_free t d = npos j \<and> bit_len j = d \<and> available n t j)"
proof -
  let ?s = "statuses n t"
  have n: "0 < n" "n < 256" using inv by (simp_all add: tree_inv_def tree_wf_def max_order_def)
  have dec: "uint8_dec d = d - 1" using d n by (intro uint8_dec_pos) auto
  have one: "node n 1" using n by simp
  have st: "buddy_tree_status t (npos 1) = ?s 1" using one by (simp add: statuses_node status_of_def)
  have find: "buddy_tree_find_free t d =
      (if ?s 1 > d - 1 then INVALID_POS else find_free_loop t (npos 1) (d - 1) 1 d)"
    using st dec by (simp add: buddy_tree_find_free_def root_npos)
  show ?thesis
  proof (cases "?s 1 > d - 1")
    case True
    have "\<not> available n t i" if "bit_len i = d" for i
    proof
      assume a: "available n t i"
      then have "0 < i" using node_pos by (auto simp: available_def afree_def)
      from available_room [OF inv a ancestor_1 [OF this]] that True show False by simp
    qed
    with find True show ?thesis by auto
  next
    case False
    then have "\<not> full n ?s 1" using d by (simp add: full_def cap_def)
    moreover have "ancestor a 1 \<Longrightarrow> a = 1" for a
      using ancestor_le [of a 1] ancestor_pos [of a 1] by linarith
    ultimately have "\<forall>a. ancestor a 1 \<longrightarrow> \<not> full n ?s a" by metis
    then have "\<exists>j. find_free_loop t (npos 1) (d - 1) 1 d = npos j \<and> bit_len j = d \<and> available n t j"
      using find_free_loop_spec [OF inv one _ d(2)] False d(1) by simp
    with find False show ?thesis by simp
  qed
qed

end
