(* ===== verification/Buddy_Arena.thy ===== *)
theory Buddy_Arena
  imports Buddy_Tree_Correct
begin

text \<open>
  The allocator of \<open>buddy_alloc.h\<close> on top of the tree: initialisation, the mapping between
  addresses and tree positions, allocation, reallocation and release. This theory holds the
  definitions only.

  Addresses are natural numbers and \<open>NULL\<close> is zero. The struct is followed by its tree, which the
  record keeps as a field; \<open>buddy_at\<close> is the address of the struct itself. The union of the
  arena pointer and the arena offset is one word, read according to the flags. Functions that
  return the same pointer they were given, or \<open>NULL\<close>, return an option. The bytes of the arena are
  a map from addresses to bytes, which only \<open>calloc\<close> and \<open>realloc\<close> touch.
\<close>

section \<open>Types\<close>

type_synonym addr = nat
type_synonym memory = "addr \<Rightarrow> 8 word"

abbreviation (input) NULL :: addr where
  "NULL \<equiv> 0"

record buddy =
  memory_size :: size_t
  alignment :: size_t
  arena :: size_t
  buddy_flags :: size_t
  buddy_at :: addr
  tree_of :: buddy_tree

record buddy_embed_check =
  can_fit :: bool
  embed_offset :: size_t
  embed_buddy_size :: size_t

datatype buddy_safe_free_status =
  BUDDY_SAFE_FREE_SUCCESS | BUDDY_SAFE_FREE_BUDDY_IS_NULL | BUDDY_SAFE_FREE_INVALID_ADDRESS
  | BUDDY_SAFE_FREE_SIZE_MISMATCH | BUDDY_SAFE_FREE_ALREADY_FREE

definition BUDDY_RELATIVE_MODE :: nat where
  "BUDDY_RELATIVE_MODE = 1"

definition sizeof_struct_buddy :: nat where
  "sizeof_struct_buddy = 32"

definition alignof_struct_buddy :: nat where
  "alignof_struct_buddy = 8"

definition BUDDY_ALLOC_ALIGN :: size_t where
  "BUDDY_ALLOC_ALIGN = sizeof_size_t * CHAR_BIT"

lemmas arena_sizes [size_simps] = sizeof_struct_buddy_def alignof_struct_buddy_def
  BUDDY_ALLOC_ALIGN_def

section \<open>Sizes and addresses\<close>

definition is_valid_alignment :: "size_t \<Rightarrow> bool" where
  "is_valid_alignment alignment_n \<longleftrightarrow> ceiling_power_of_two alignment_n = alignment_n"

definition buddy_tree_order_for_memory :: "size_t \<Rightarrow> size_t \<Rightarrow> size_t" where
  "buddy_tree_order_for_memory mem_size alignment_n =
     (let blocks = mem_size div alignment_n
      in highest_bit_position (ceiling_power_of_two blocks))"

definition buddy_sizeof_alignment :: "size_t \<Rightarrow> size_t \<Rightarrow> size_t" where
  "buddy_sizeof_alignment mem_size alignment_n =
     (if \<not> is_valid_alignment alignment_n then 0
      else if mem_size < alignment_n then 0
      else sizeof_struct_buddy
        + buddy_tree_sizeof (buddy_tree_order_for_memory mem_size alignment_n mod 256))"

definition buddy_sizeof :: "size_t \<Rightarrow> size_t" where
  "buddy_sizeof mem_size = buddy_sizeof_alignment mem_size BUDDY_ALLOC_ALIGN"

definition buddy_effective_memory_size :: "buddy \<Rightarrow> size_t" where
  "buddy_effective_memory_size b = ceiling_power_of_two (memory_size b)"

definition size_for_depth :: "buddy \<Rightarrow> size_t \<Rightarrow> size_t" where
  "size_for_depth b depth = drop_bit (depth - 1) (ceiling_power_of_two (memory_size b))"

text \<open>Called with \<open>requested_size <= memory_size\<close>, where the difference is not negative.\<close>

definition depth_for_size :: "buddy \<Rightarrow> size_t \<Rightarrow> size_t" where
  "depth_for_size b requested_size =
     (let requested = (if requested_size < alignment b then alignment b else requested_size);
          effective = buddy_effective_memory_size b;
          p2_of_requested = ceiling_power_of_two requested
      in count_trailing_zeroes effective + 1 - count_trailing_zeroes p2_of_requested)"

definition buddy_virtual_slots :: "buddy \<Rightarrow> size_t" where
  "buddy_virtual_slots b =
     (let effective = buddy_effective_memory_size b
      in if effective = memory_size b then 0
         else (effective - memory_size b) div alignment b)"

definition buddy_relative_mode :: "buddy \<Rightarrow> bool" where
  "buddy_relative_mode b \<longleftrightarrow> buddy_flags b AND BUDDY_RELATIVE_MODE \<noteq> 0"

definition buddy_main :: "buddy \<Rightarrow> addr" where
  "buddy_main b = (if buddy_relative_mode b then buddy_at b - arena b else arena b)"

definition buddy_base_ptr :: "buddy \<Rightarrow> addr" where
  "buddy_base_ptr b = buddy_main b"

definition address_for_position :: "buddy \<Rightarrow> buddy_tree_pos \<Rightarrow> addr" where
  "address_for_position b pos =
     (let block_size = size_for_depth b (buddy_tree_depth pos)
      in buddy_main b + block_size * buddy_tree_index pos)"

definition deepest_position_for_offset :: "buddy \<Rightarrow> size_t \<Rightarrow> buddy_tree_pos" where
  "deepest_position_for_offset b offset =
     (let index = offset div alignment b; pos = buddy_tree_leftmost_child (tree_of b)
      in pos\<lparr>pos_index := pos_index pos + index\<rparr>)"

function tracking_position :: "buddy_tree \<Rightarrow> buddy_tree_pos \<Rightarrow> buddy_tree_pos option" where
  "tracking_position t pos =
     (if buddy_tree_status t pos \<noteq> 0 then Some pos
      else
        let pos = buddy_tree_parent pos
        in if \<not> buddy_tree_valid t pos then None else tracking_position t pos)"
  by pat_completeness auto
termination
  by (relation "measure (\<lambda>(t, pos). pos_index pos)")
    (auto simp: buddy_tree_parent_def buddy_tree_valid_def)

declare tracking_position.simps [simp del]

text \<open>The difference of the pointers is converted to \<open>size_t\<close>, below the arena it wraps.\<close>

definition position_for_address :: "buddy \<Rightarrow> addr \<Rightarrow> buddy_tree_pos" where
  "position_for_address b address =
     (let offset = (if buddy_main b \<le> address then address - buddy_main b else address + 2 ^ 64 - buddy_main b)
      in if offset mod alignment b \<noteq> 0 then INVALID_POS
         else case tracking_position (tree_of b) (deepest_position_for_offset b offset) of
             None \<Rightarrow> INVALID_POS
           | Some pos \<Rightarrow> if address_for_position b pos \<noteq> address then INVALID_POS else pos)"

section \<open>Initialisation\<close>

text \<open>
  The loop over the positions of the virtual slots. It ends by masking a position of exactly the
  remaining size; not reaching one is the value \<open>None\<close>.
\<close>

definition toggle_position :: "bool \<Rightarrow> buddy_tree \<Rightarrow> buddy_tree_pos \<Rightarrow> buddy_tree" where
  "toggle_position state t pos =
     (if state then buddy_tree_mark t pos else snd (buddy_tree_release t pos))"

partial_function (option) toggle_virtual_loop ::
    "buddy \<Rightarrow> bool \<Rightarrow> buddy_tree \<Rightarrow> size_t \<Rightarrow> buddy_tree_pos \<Rightarrow> buddy_tree option" where
  "toggle_virtual_loop b state t delta pos =
     (if delta = 0 then Some t
      else
        let current_pos_size = size_for_depth b (buddy_tree_depth pos)
        in if delta = current_pos_size then Some (toggle_position state t pos)
           else if delta \<le> current_pos_size div 2
           then toggle_virtual_loop b state t delta (buddy_tree_right_child pos)
           else toggle_virtual_loop b state
                  (toggle_position state t (buddy_tree_right_child pos))
                  (delta - current_pos_size div 2) (buddy_tree_left_child pos))"

declare toggle_virtual_loop.simps [code]

definition buddy_toggle_virtual_slots :: "buddy \<Rightarrow> bool \<Rightarrow> buddy option" where
  "buddy_toggle_virtual_slots b state =
     (let effective = buddy_effective_memory_size b
      in if effective = memory_size b then Some b
         else map_option (\<lambda>t. b\<lparr>tree_of := t\<rparr>)
           (toggle_virtual_loop b state (tree_of b) (effective - memory_size b)
              (buddy_tree_right_child buddy_tree_root)))"

text \<open>
  \<open>tree_mem\<close> is the memory behind the two structs. The outer option is \<open>None\<close> if the function
  does not return, the inner one if it returns \<open>NULL\<close>.
\<close>

definition buddy_init_alignment ::
    "bitset \<Rightarrow> addr \<Rightarrow> addr \<Rightarrow> size_t \<Rightarrow> size_t \<Rightarrow> buddy option option" where
  "buddy_init_alignment tree_mem at main mem_size alignment_n =
     (if at = NULL then Some None
      else if main = NULL then Some None
      else if at = main then Some None
      else if \<not> is_valid_alignment alignment_n then Some None
      else if at mod alignof_struct_buddy \<noteq> 0 then Some None
      else if main mod sizeof_size_t \<noteq> 0 then Some None
      else
        let mem_size = (if mem_size mod alignment_n \<noteq> 0
                        then mem_size - mem_size mod alignment_n else mem_size)
        in if buddy_sizeof_alignment mem_size alignment_n = 0 then Some None
           else
             let order_n = buddy_tree_order_for_memory mem_size alignment_n;
                 b = \<lparr>memory_size = mem_size, alignment = alignment_n, arena = main,
                      buddy_flags = 0, buddy_at = at,
                      tree_of = buddy_tree_init tree_mem (order_n mod 256)\<rparr>
             in map_option Some (buddy_toggle_virtual_slots b True))"

definition buddy_init :: "bitset \<Rightarrow> addr \<Rightarrow> addr \<Rightarrow> size_t \<Rightarrow> buddy option option" where
  "buddy_init tree_mem at main mem_size =
     buddy_init_alignment tree_mem at main mem_size BUDDY_ALLOC_ALIGN"

text \<open>The difference \<open>memory_size - buddy_size\<close> wraps when the allocator does not fit.\<close>

definition buddy_embed_offset :: "size_t \<Rightarrow> size_t \<Rightarrow> buddy_embed_check" where
  "buddy_embed_offset mem_size alignment_n =
     (let buddy_size = buddy_sizeof_alignment mem_size alignment_n;
          fit = \<not> buddy_size \<ge> mem_size;
          offset = (mem_size + (size_limit - buddy_size)) mod size_limit;
          odd_bytes = offset mod alignof_struct_buddy;
          buddy_size' = buddy_size + odd_bytes;
          fit' = (if odd_bytes \<noteq> 0 then fit \<and> \<not> buddy_size' \<ge> mem_size else fit);
          offset' = (if odd_bytes \<noteq> 0
                     then (mem_size + (size_limit - buddy_size')) mod size_limit else offset)
      in if fit' then \<lparr>can_fit = True, embed_offset = offset', embed_buddy_size = buddy_size'\<rparr>
         else \<lparr>can_fit = False, embed_offset = 0, embed_buddy_size = 0\<rparr>)"

definition buddy_embed_alignment ::
    "bitset \<Rightarrow> addr \<Rightarrow> size_t \<Rightarrow> size_t \<Rightarrow> buddy option option" where
  "buddy_embed_alignment tree_mem main mem_size alignment_n =
     (if main = NULL then Some None
      else if \<not> is_valid_alignment alignment_n then Some None
      else
        let check_result = buddy_embed_offset mem_size alignment_n
        in if \<not> can_fit check_result then Some None
           else map_option (map_option (\<lambda>b.
                  b\<lparr>buddy_flags := buddy_flags b OR BUDDY_RELATIVE_MODE,
                    arena := buddy_at b - main\<rparr>))
                (buddy_init_alignment tree_mem (main + embed_offset check_result) main
                   (embed_offset check_result) alignment_n))"

definition buddy_embed :: "bitset \<Rightarrow> addr \<Rightarrow> size_t \<Rightarrow> buddy option option" where
  "buddy_embed tree_mem main mem_size =
     buddy_embed_alignment tree_mem main mem_size BUDDY_ALLOC_ALIGN"

definition buddy_get_embed_at_alignment :: "addr \<Rightarrow> size_t \<Rightarrow> size_t \<Rightarrow> addr" where
  "buddy_get_embed_at_alignment main mem_size alignment_n =
     (let check_result = buddy_embed_offset mem_size alignment_n
      in if \<not> can_fit check_result then NULL else main + embed_offset check_result)"

definition buddy_get_embed_at :: "addr \<Rightarrow> size_t \<Rightarrow> addr" where
  "buddy_get_embed_at main mem_size =
     buddy_get_embed_at_alignment main mem_size BUDDY_ALLOC_ALIGN"

section \<open>Allocation\<close>

definition malloc_arena :: "buddy \<Rightarrow> size_t \<Rightarrow> addr \<times> buddy" where
  "malloc_arena b requested_size =
     (let requested_size = (if requested_size = 0 then 1 else requested_size)
      in if requested_size > memory_size b then (NULL, b)
         else
           let target_depth = depth_for_size b requested_size;
               t = tree_of b;
               pos = buddy_tree_find_free t (target_depth mod 256)
           in if \<not> buddy_tree_valid t pos then (NULL, b)
              else
                let b' = b\<lparr>tree_of := buddy_tree_mark t pos\<rparr>
                in (address_for_position b' pos, b'))"

definition buddy_malloc :: "buddy option \<Rightarrow> size_t \<Rightarrow> addr \<times> buddy option" where
  "buddy_malloc b_opt requested_size =
     (case b_opt of None \<Rightarrow> (NULL, None)
      | Some b \<Rightarrow> apsnd Some (malloc_arena b requested_size))"

definition memset :: "memory \<Rightarrow> addr \<Rightarrow> 8 word \<Rightarrow> size_t \<Rightarrow> memory" where
  "memset mem dst value n = (\<lambda>a. if dst \<le> a \<and> a < dst + n then value else mem a)"

definition memmove :: "memory \<Rightarrow> addr \<Rightarrow> addr \<Rightarrow> size_t \<Rightarrow> memory" where
  "memmove mem dst src n = (\<lambda>a. if dst \<le> a \<and> a < dst + n then mem (src + (a - dst)) else mem a)"

definition buddy_calloc ::
    "buddy option \<Rightarrow> memory \<Rightarrow> size_t \<Rightarrow> size_t \<Rightarrow> addr \<times> buddy option \<times> memory" where
  "buddy_calloc b_opt mem members_count member_size =
     (let (members_count, member_size) =
            (if members_count = 0 \<or> member_size = 0 then (1, 1) else (members_count, member_size))
      in if members_count * member_size mod size_limit div members_count \<noteq> member_size
         then (NULL, b_opt, mem)
         else
           let total_size = members_count * member_size mod size_limit;
               (result, b') = buddy_malloc b_opt total_size
           in (result, b',
               if result \<noteq> NULL then memset mem result 0 total_size else mem))"

section \<open>Release\<close>

definition outside_arena :: "buddy \<Rightarrow> addr \<Rightarrow> bool" where
  "outside_arena b dst \<longleftrightarrow> dst < buddy_main b \<or> dst \<ge> buddy_main b + memory_size b"

definition free_arena :: "buddy \<Rightarrow> addr \<Rightarrow> buddy" where
  "free_arena b ptr =
     (if ptr = NULL then b
      else if outside_arena b ptr then b
      else
        let t = tree_of b; pos = position_for_address b ptr
        in if \<not> buddy_tree_valid t pos then b
           else b\<lparr>tree_of := snd (buddy_tree_release t pos)\<rparr>)"

definition buddy_free :: "buddy option \<Rightarrow> addr \<Rightarrow> buddy option" where
  "buddy_free b_opt ptr = map_option (\<lambda>b. free_arena b ptr) b_opt"

definition safe_free_arena ::
    "buddy \<Rightarrow> addr \<Rightarrow> size_t \<Rightarrow> buddy_safe_free_status \<times> buddy" where
  "safe_free_arena b ptr requested_size =
     (if ptr = NULL then (BUDDY_SAFE_FREE_INVALID_ADDRESS, b)
      else if outside_arena b ptr then (BUDDY_SAFE_FREE_INVALID_ADDRESS, b)
      else
        let t = tree_of b; pos = position_for_address b ptr
        in if \<not> buddy_tree_valid t pos then (BUDDY_SAFE_FREE_INVALID_ADDRESS, b)
           else
             let allocated_size = size_for_depth b (pos_depth pos);
                 requested = (if requested_size < alignment b then alignment b else requested_size)
             in if requested > allocated_size then (BUDDY_SAFE_FREE_SIZE_MISMATCH, b)
                else if requested \<le> allocated_size div 2 then (BUDDY_SAFE_FREE_SIZE_MISMATCH, b)
                else
                  let (status, t') = buddy_tree_release t pos; b' = b\<lparr>tree_of := t'\<rparr>
                  in case status of
                       BUDDY_TREE_RELEASE_FAIL_PARTIALLY_USED \<Rightarrow>
                         (BUDDY_SAFE_FREE_INVALID_ADDRESS, b')
                     | BUDDY_TREE_RELEASE_SUCCESS \<Rightarrow> (BUDDY_SAFE_FREE_SUCCESS, b'))"

definition buddy_safe_free ::
    "buddy option \<Rightarrow> addr \<Rightarrow> size_t \<Rightarrow> buddy_safe_free_status \<times> buddy option" where
  "buddy_safe_free b_opt ptr requested_size =
     (case b_opt of None \<Rightarrow> (BUDDY_SAFE_FREE_BUDDY_IS_NULL, None)
      | Some b \<Rightarrow> apsnd Some (safe_free_arena b ptr requested_size))"

definition buddy_alloc_size :: "buddy option \<Rightarrow> addr \<Rightarrow> size_t" where
  "buddy_alloc_size b_opt ptr =
     (case b_opt of None \<Rightarrow> 0
      | Some b \<Rightarrow>
          if ptr = NULL then 0
          else if outside_arena b ptr then 0
          else
            let pos = position_for_address b ptr
            in if \<not> buddy_tree_valid (tree_of b) pos then 0
               else size_for_depth b (pos_depth pos))"

section \<open>Reallocation\<close>

text \<open>
  The function is only ever entered with a buddy; the \<open>NULL\<close> tests of \<open>malloc\<close> and \<open>free\<close> do not
  apply.
\<close>

definition buddy_realloc ::
    "buddy \<Rightarrow> memory \<Rightarrow> addr \<Rightarrow> size_t \<Rightarrow> bool \<Rightarrow> addr \<times> buddy \<times> memory" where
  "buddy_realloc b mem ptr requested_size ignore_data =
     (if ptr = NULL then (let (p, b') = malloc_arena b requested_size in (p, b', mem))
      else if requested_size = 0 then (NULL, free_arena b ptr, mem)
      else if requested_size > memory_size b then (NULL, b, mem)
      else
        let t = tree_of b; origin = position_for_address b ptr
        in if \<not> buddy_tree_valid t origin then (NULL, b, mem)
           else
             let current_depth = buddy_tree_depth origin;
                 target_depth = depth_for_size b requested_size;
                 t1 = snd (buddy_tree_release t origin);
                 new_pos = buddy_tree_find_free t1 (target_depth mod 256)
             in if \<not> buddy_tree_valid t1 new_pos
                then (NULL, b\<lparr>tree_of := buddy_tree_mark t1 origin\<rparr>, mem)
                else if pos_index origin = pos_index new_pos
                then (ptr, b\<lparr>tree_of := buddy_tree_mark t1 origin\<rparr>, mem)
                else
                  let b1 = b\<lparr>tree_of := t1\<rparr>;
                      destination = address_for_position b1 new_pos;
                      mem' = (if ignore_data then mem
                              else memmove mem destination (address_for_position b1 origin)
                                (size_for_depth b1 (if current_depth > target_depth
                                                    then current_depth else target_depth)))
                  in (destination, b1\<lparr>tree_of := buddy_tree_mark t1 new_pos\<rparr>, mem'))"

definition buddy_reallocarray ::
    "buddy \<Rightarrow> memory \<Rightarrow> addr \<Rightarrow> size_t \<Rightarrow> size_t \<Rightarrow> bool \<Rightarrow> addr \<times> buddy \<times> memory" where
  "buddy_reallocarray b mem ptr members_count member_size ignore_data =
     (if members_count = 0 \<or> member_size = 0 then buddy_realloc b mem ptr 0 ignore_data
      else if members_count * member_size mod size_limit div members_count \<noteq> member_size
      then (NULL, b, mem)
      else buddy_realloc b mem ptr (members_count * member_size mod size_limit) ignore_data)"

end
