(* ===== verification/Buddy_Blocks.thy ===== *)
theory Buddy_Blocks
  imports Buddy_Arena
begin

text \<open>
  Which bytes of the arena a node of the tree stands for: blocks of unrelated nodes are disjoint,
  the block of a descendant lies inside that of its ancestor, and every aligned block of the arena
  belongs to a node. \<open>m\<close> is the logarithm of the arena's size rounded up to a power of two.
\<close>

definition block_size :: "nat \<Rightarrow> nat \<Rightarrow> nat" where
  "block_size m i = 2 ^ (m + 1 - bit_len i)"

definition block_start :: "nat \<Rightarrow> nat \<Rightarrow> nat" where
  "block_start m i = (i - 2 ^ (bit_len i - 1)) * block_size m i"

definition block :: "nat \<Rightarrow> nat \<Rightarrow> nat set" where
  "block m i = {block_start m i..<block_start m i + block_size m i}"

lemma block_start_plus:
  assumes "0 < i" "bit_len i \<le> m + 1"
  shows "2 ^ m + block_start m i = i * block_size m i"
proof -
  obtain d where d: "bit_len i = Suc d" using assms(1) bit_len_pos by blast
  have "2 ^ d \<le> i" using bit_len_ge [OF assms(1)] by (simp add: d)
  moreover have "(2::nat) ^ m = 2 ^ d * 2 ^ (m - d)" using assms(2) d by (simp flip: power_add)
  ultimately show ?thesis by (simp add: block_start_def block_size_def d diff_mult_distrib)
qed

lemma in_block_iff:
  assumes "0 < i" "bit_len i \<le> m + 1"
  shows "x \<in> block m i \<longleftrightarrow> i = (2 ^ m + x) div block_size m i"
proof -
  have pos: "0 < block_size m i" by (simp add: block_size_def)
  have "x \<in> block m i \<longleftrightarrow> i * block_size m i \<le> 2 ^ m + x \<and> 2 ^ m + x < Suc i * block_size m i"
    unfolding block_def block_start_plus [OF assms, symmetric] mult_Suc by auto
  also have "\<dots> \<longleftrightarrow> i = (2 ^ m + x) div block_size m i"
    using pos by (metis div_nat_eqI dividend_less_times_div mult.commute mult_Suc_right times_div_less_eq_dividend)
  finally show ?thesis .
qed

lemma block_size_half:
  "1 < i \<Longrightarrow> bit_len i \<le> m + 1 \<Longrightarrow> block_size m (i div 2) = 2 * block_size m i"
proof -
  assume i: "1 < i" "bit_len i \<le> m + 1"
  then obtain d where "bit_len i = Suc d" using bit_len_pos by (metis less_trans zero_less_one)
  then show ?thesis using i bit_len_half [OF i(1)] by (simp add: block_size_def Suc_diff_le)
qed

lemma block_half:
  assumes "1 < i" "bit_len i \<le> m + 1"
  shows "block m i \<subseteq> block m (i div 2)"
proof
  fix x assume x: "x \<in> block m i"
  have "bit_len (i div 2) \<le> m + 1" using assms bit_len_half by simp
  moreover have "0 < i div 2" using assms(1) by simp
  moreover have "i = (2 ^ m + x) div block_size m i" using x assms by (simp add: in_block_iff)
  then have "i div 2 = (2 ^ m + x) div block_size m (i div 2)"
    using block_size_half [OF assms] by (metis div_mult2_eq mult.commute)
  ultimately show "x \<in> block m (i div 2)" by (simp only: in_block_iff)
qed

lemma block_ancestor:
  assumes "ancestor a i"
  shows "bit_len i \<le> m + 1 \<longrightarrow> block m i \<subseteq> block m a"
  using assms
proof (induction rule: ancestor_induct)
  case (step j)
  have j: "1 < j" using ancestor_pos [OF step.hyps] by linarith
  then show ?case
    using step.IH block_half [OF j] bit_len_half [OF j] by (metis diff_le_self order_trans)
qed simp

lemma block_overlap:
  assumes "node n i" "node n j" "n \<le> m + 1" "x \<in> block m i" "x \<in> block m j"
  shows "ancestor i j \<or> ancestor j i"
proof -
  have *: "ancestor i j" if "node n i" "node n j" "x \<in> block m i" "x \<in> block m j"
    "bit_len i \<le> bit_len j" for i j
  proof -
    have i: "0 < i" "bit_len i \<le> m + 1" and j: "0 < j" "bit_len j \<le> m + 1"
      using that assms(3) node_pos node_bit_len by (meson le_trans)+
    have "block_size m i = block_size m j * 2 ^ (bit_len j - bit_len i)"
      using that(5) j(2) by (simp add: block_size_def flip: power_add)
    moreover have "i = (2 ^ m + x) div block_size m i" "j = (2 ^ m + x) div block_size m j"
      using that(3,4) i j by (simp_all only: in_block_iff)
    ultimately have "i = j div 2 ^ (bit_len j - bit_len i)" by (metis div_mult2_eq)
    then show ?thesis using i(1) unfolding ancestor_def by blast
  qed
  from * [of i j] * [of j i] assms show ?thesis by (cases "bit_len i \<le> bit_len j") auto
qed

lemma block_bounds:
  assumes "0 < i" "bit_len i \<le> m + 1"
  shows "block_start m i + block_size m i \<le> 2 ^ m"
proof -
  obtain d where d: "bit_len i = Suc d" using assms(1) bit_len_pos by blast
  have "Suc i \<le> 2 ^ Suc d" using bit_len_le [of i] by (simp add: d)
  then have "Suc i * block_size m i \<le> 2 ^ Suc d * block_size m i" by (rule mult_le_mono1)
  moreover have "2 ^ Suc d * block_size m i = 2 ^ m + 2 ^ m"
    using assms(2) by (simp add: block_size_def d flip: power_add mult_2)
  ultimately show ?thesis using block_start_plus [OF assms] by (simp only: mult_Suc)
qed

lemma block_start_mod: "block_start m i mod block_size m i = 0"
  by (simp add: block_start_def)

lemma block_nonempty: "block_start m i \<in> block m i"
  by (simp add: block_def block_size_def)

text \<open>Every aligned block of a size that the tree has is the block of a node.\<close>

lemma aligned_block:
  assumes "k \<le> m" "m + 1 - k \<le> n" "2 ^ k dvd x" "x + 2 ^ k \<le> 2 ^ m"
  shows "\<exists>i. node n i \<and> bit_len i = m + 1 - k \<and> block_start m i = x \<and> block_size m i = 2 ^ k"
proof -
  obtain c where c: "x = 2 ^ k * c" using assms(3) by blast
  let ?i = "2 ^ (m - k) + c"
  have km: "(2::nat) ^ m = 2 ^ k * 2 ^ (m - k)" using assms(1) by (simp flip: power_add)
  have "2 ^ k * (c + 1) \<le> 2 ^ k * (2 ^ (m - k) :: nat)" using assms(4) by (simp add: c km)
  then have "c + 1 \<le> 2 ^ (m - k)" by (simp only: nat_mult_le_cancel_disj) simp
  then have "c < 2 ^ (m - k)" by simp
  then have len: "bit_len ?i = Suc (m - k)" by (intro bit_len_eqI) simp_all
  then have "node n ?i" using assms(1,2) by (simp add: node_def flip: bit_len_le_iff)
  then show ?thesis using len assms(1) c
    by (intro exI [of _ ?i]) (simp add: block_start_def block_size_def Suc_diff_le)
qed

end
