(* ===== verification/Buddy_Alloc.thy ===== *)
theory Buddy_Alloc
  imports Buddy_Blocks
begin

text \<open>
  Correctness of allocation and release in an arena. The abstraction is the set of live blocks,
  pairs of an offset into the arena and a size. The invariant says that the tree is consistent,
  that the slots behind the end of the arena are masked, and that no masked slot reaches into it.
\<close>

section \<open>The invariant\<close>

definition arena_log :: "buddy \<Rightarrow> nat" where
  "arena_log b = bit_len (buddy_effective_memory_size b) - 1"

definition align_log :: "buddy \<Rightarrow> nat" where
  "align_log b = bit_len (alignment b) - 1"

definition arena_order :: "buddy \<Rightarrow> nat" where
  "arena_order b = arena_log b - align_log b + 1"

definition sizes_ok :: "buddy \<Rightarrow> bool" where
  "sizes_ok b \<longleftrightarrow> alignment b = 2 ^ align_log b \<and> 0 < memory_size b \<and> memory_size b \<le> 2 ^ 63
     \<and> alignment b dvd memory_size b \<and> buddy_main b \<noteq> NULL"

definition used_nodes :: "buddy \<Rightarrow> nat set" where
  "used_nodes b = in_use (arena_order b) (tree_of b)"

definition arena_inv :: "buddy \<Rightarrow> bool" where
  "arena_inv b \<longleftrightarrow> sizes_ok b \<and> tree_inv (arena_order b) (tree_of b)
     \<and> (\<forall>i \<in> used_nodes b. block (arena_log b) i \<subseteq> {..<memory_size b}
          \<or> block (arena_log b) i \<subseteq> {memory_size b..})
     \<and> (\<forall>x. memory_size b \<le> x \<and> x < 2 ^ arena_log b \<longrightarrow>
          (\<exists>i \<in> used_nodes b. x \<in> block (arena_log b) i))"

text \<open>The blocks that are handed out: offset and size.\<close>

definition live :: "buddy \<Rightarrow> (nat \<times> nat) set" where
  "live b = (\<lambda>i. (block_start (arena_log b) i, block_size (arena_log b) i)) `
     {i \<in> used_nodes b. block (arena_log b) i \<subseteq> {..<memory_size b}}"

definition extent :: "nat \<times> nat \<Rightarrow> nat set" where
  "extent p = {fst p..<fst p + snd p}"

section \<open>Sizes\<close>

lemma effective_size:
  assumes "sizes_ok b"
  shows "buddy_effective_memory_size b = 2 ^ arena_log b" "arena_log b \<le> 63"
    "memory_size b \<le> 2 ^ arena_log b" "2 ^ arena_log b < 2 * memory_size b"
proof -
  obtain k where k: "k \<le> 63" "ceiling_power_of_two (memory_size b) = 2 ^ k"
    "memory_size b \<le> 2 ^ k" "2 ^ k < 2 * memory_size b"
    using assms ceiling_power_of_two_spec [of "memory_size b"] by (auto simp: sizes_ok_def)
  then have "arena_log b = k" by (simp add: arena_log_def buddy_effective_memory_size_def)
  with k show "buddy_effective_memory_size b = 2 ^ arena_log b" "arena_log b \<le> 63"
    "memory_size b \<le> 2 ^ arena_log b" "2 ^ arena_log b < 2 * memory_size b"
    by (simp_all add: buddy_effective_memory_size_def)
qed

lemma align_le: "sizes_ok b \<Longrightarrow> align_log b \<le> arena_log b"
proof -
  assume ok: "sizes_ok b"
  then have "alignment b \<le> memory_size b" by (auto simp: sizes_ok_def dest: dvd_imp_le)
  moreover have "alignment b = 2 ^ align_log b" using ok by (simp add: sizes_ok_def)
  ultimately have "(2::nat) ^ align_log b < 2 ^ Suc (arena_log b)"
    using effective_size(3) [OF ok] ok by (simp add: sizes_ok_def)
  then show ?thesis by (simp only: power_two_less_iff less_Suc_eq_le)
qed

lemma size_for_depth_power:
  assumes "sizes_ok b" "1 \<le> d" "d \<le> arena_log b + 1"
  shows "size_for_depth b d = 2 ^ (arena_log b + 1 - d)"
proof -
  have "(2::nat) ^ arena_log b = 2 ^ (d - 1) * 2 ^ (arena_log b + 1 - d)"
    using assms(2,3) by (simp flip: power_add)
  then show ?thesis
    using effective_size(1) [OF assms(1)]
    by (simp add: size_for_depth_def buddy_effective_memory_size_def drop_bit_eq_div)
qed

definition slot_log :: "buddy \<Rightarrow> nat \<Rightarrow> nat" where
  "slot_log b r = bit_len (ceiling_power_of_two (max r (alignment b))) - 1"

lemma slot_log:
  assumes "sizes_ok b" "r \<le> memory_size b"
  shows "ceiling_power_of_two (max r (alignment b)) = 2 ^ slot_log b r"
    "align_log b \<le> slot_log b r" "slot_log b r \<le> arena_log b" "r \<le> 2 ^ slot_log b r"
    "slot_log b r = align_log b \<or> 2 ^ slot_log b r < 2 * r"
proof -
  let ?r = "max r (alignment b)"
  have "alignment b = 2 ^ align_log b" using assms(1) by (simp add: sizes_ok_def)
  then have al: "alignment b \<le> memory_size b" "0 < alignment b"
    using assms(1) by (simp_all add: sizes_ok_def dvd_imp_le)
  moreover have "memory_size b \<le> 2 ^ 63" using assms(1) by (simp only: sizes_ok_def)
  ultimately have r: "0 < ?r" "?r \<le> memory_size b" "?r \<le> 2 ^ 63"
    using assms(2) by (auto simp: max_def)
  obtain k where k: "ceiling_power_of_two ?r = 2 ^ k" "?r \<le> 2 ^ k" "2 ^ k < 2 * ?r"
    using ceiling_power_of_two_spec [OF r(1,3)] by auto
  then have s: "slot_log b r = k" by (simp add: slot_log_def)
  show "ceiling_power_of_two ?r = 2 ^ slot_log b r" using k s by simp
  show "r \<le> 2 ^ slot_log b r" using k(2) s by simp
  have "(2::nat) ^ align_log b \<le> 2 ^ k" using k(2) assms(1) by (simp add: sizes_ok_def)
  then show "align_log b \<le> slot_log b r" using s by simp
  have "2 ^ k < 2 * memory_size b" using less_le_trans [OF k(3)] mult_le_mono2 [OF r(2)] by blast
  then have "(2::nat) ^ k < 2 ^ Suc (arena_log b)"
    using effective_size(3) [OF assms(1)] by simp
  then show "slot_log b r \<le> arena_log b" using s by (simp only: power_two_less_iff less_Suc_eq_le)
  show "slot_log b r = align_log b \<or> 2 ^ slot_log b r < 2 * r"
  proof (cases "alignment b \<le> r")
    case True
    then show ?thesis using k(3) s by (simp add: max_def split: if_splits)
  next
    case False
    then have "2 ^ k < (2::nat) ^ Suc (align_log b)"
      using k(3) assms(1) by (simp add: sizes_ok_def max_def split: if_splits)
    then have "k \<le> align_log b" by (simp only: power_two_less_iff less_Suc_eq_le)
    with \<open>align_log b \<le> slot_log b r\<close> s show ?thesis by simp
  qed
qed

lemma depth_for_size_eq:
  assumes "sizes_ok b" "r \<le> memory_size b"
  shows "depth_for_size b r = arena_log b + 1 - slot_log b r"
    "1 \<le> depth_for_size b r" "depth_for_size b r \<le> arena_order b" "depth_for_size b r < 256"
proof -
  have max: "(if r < alignment b then alignment b else r) = max r (alignment b)" by simp
  show eq: "depth_for_size b r = arena_log b + 1 - slot_log b r"
    unfolding depth_for_size_def Let_def max
    using effective_size(1,2) [OF assms(1)] slot_log [OF assms] by simp
  show "1 \<le> depth_for_size b r" "depth_for_size b r \<le> arena_order b" "depth_for_size b r < 256"
    using eq effective_size(2) [OF assms(1)] slot_log [OF assms] by (simp_all add: arena_order_def)
qed

section \<open>Positions and addresses\<close>

lemma arena_order_le: "sizes_ok b \<Longrightarrow> arena_order b \<le> arena_log b + 1"
  by (simp add: arena_order_def)

lemma node_arena:
  assumes "sizes_ok b" "node (arena_order b) i"
  shows "0 < i" "bit_len i \<le> arena_log b + 1" "1 \<le> bit_len i"
  using assms node_pos node_bit_len [OF assms(2)] arena_order_le [OF assms(1)]
    bit_len_less_iff [of 0 i] by fastforce+

lemma address_npos:
  assumes "sizes_ok b" "node (arena_order b) i"
  shows "address_for_position b (npos i) = buddy_main b + block_start (arena_log b) i"
proof -
  have "arena_order b \<le> 64"
    using arena_order_le [OF assms(1)] effective_size(2) [OF assms(1)] by simp
  from index_internal_npos [OF assms(2) this] show ?thesis
    using size_for_depth_power [OF assms(1)] node_arena [OF assms]
    by (simp add: address_for_position_def buddy_tree_index_def block_start_def block_size_def)
qed

lemma node_block_aligned:
  assumes "sizes_ok b" "node (arena_order b) i"
  shows "alignment b dvd block_size (arena_log b) i" "alignment b dvd block_start (arena_log b) i"
proof -
  have "align_log b \<le> arena_log b + 1 - bit_len i"
    using node_bit_len [OF assms(2)] align_le [OF assms(1)] by (simp add: arena_order_def)
  then show *: "alignment b dvd block_size (arena_log b) i"
    using assms(1) by (simp add: sizes_ok_def block_size_def le_imp_power_dvd)
  show "alignment b dvd block_start (arena_log b) i"
    unfolding block_start_def using * by simp
qed

section \<open>Live blocks\<close>

lemma arena_invD:
  assumes "arena_inv b"
  shows "sizes_ok b" "tree_inv (arena_order b) (tree_of b)"
    "i \<in> used_nodes b \<Longrightarrow> block (arena_log b) i \<subseteq> {..<memory_size b}
          \<or> block (arena_log b) i \<subseteq> {memory_size b..}"
    "memory_size b \<le> x \<Longrightarrow> x < 2 ^ arena_log b \<Longrightarrow> \<exists>i \<in> used_nodes b. x \<in> block (arena_log b) i"
  using assms unfolding arena_inv_def by blast+

lemma used_node: "i \<in> used_nodes b \<Longrightarrow> node (arena_order b) i"
  by (simp add: used_nodes_def in_use_def allocated_def)

lemma used_disjoint:
  assumes "arena_inv b" "i \<in> used_nodes b" "j \<in> used_nodes b"
    "x \<in> block (arena_log b) i" "x \<in> block (arena_log b) j"
  shows "i = j"
proof -
  have "ancestor i j \<or> ancestor j i"
    using block_overlap assms used_node arena_order_le arena_invD(1) by metis
  then show ?thesis
    using allocated_antichain assms(2,3) arena_invD(2) [OF assms(1)]
    unfolding used_nodes_def in_use_def tree_inv_def by metis
qed

lemma live_disjoint:
  assumes "arena_inv b" "p \<in> live b" "q \<in> live b" "p \<noteq> q"
  shows "extent p \<inter> extent q = {}"
proof (rule ccontr)
  assume "extent p \<inter> extent q \<noteq> {}"
  then obtain x where x: "x \<in> extent p" "x \<in> extent q" by blast
  obtain i j where "i \<in> used_nodes b" "j \<in> used_nodes b"
    and p: "p = (block_start (arena_log b) i, block_size (arena_log b) i)"
    and q: "q = (block_start (arena_log b) j, block_size (arena_log b) j)"
    using assms(2,3) by (auto simp: live_def)
  moreover have "x \<in> block (arena_log b) i" "x \<in> block (arena_log b) j"
    using x by (simp_all add: p q extent_def block_def)
  ultimately show False
    using used_disjoint [OF assms(1)] assms(4) p q by blast
qed

lemma live_in_arena:
  assumes "arena_inv b" "(x, s) \<in> live b"
  shows "x + s \<le> memory_size b" "alignment b dvd x" "\<exists>k. s = 2 ^ k" "x mod s = 0"
proof -
  obtain i where i: "i \<in> used_nodes b" "block (arena_log b) i \<subseteq> {..<memory_size b}"
    "x = block_start (arena_log b) i" "s = block_size (arena_log b) i"
    using assms(2) by (auto simp: live_def)
  have "0 < s" by (simp add: i(4) block_size_def)
  then have "x + s - 1 \<in> block (arena_log b) i"
    by (auto simp: block_def simp flip: i(3,4))
  then have "x + s - 1 < memory_size b" using i(2) by blast
  then show "x + s \<le> memory_size b" using \<open>0 < s\<close> by linarith
  show "alignment b dvd x"
    using node_block_aligned(2) [OF arena_invD(1) [OF assms(1)] used_node [OF i(1)]] i(3) by simp
  show "\<exists>k. s = 2 ^ k" by (auto simp: i(4) block_size_def)
  show "x mod s = 0" by (simp add: i(3,4) block_start_mod)
qed

text \<open>Updating the tree of an arena.\<close>

lemma retree_simps [simp]:
  "arena_log (b\<lparr>tree_of := t\<rparr>) = arena_log b" "align_log (b\<lparr>tree_of := t\<rparr>) = align_log b"
  "arena_order (b\<lparr>tree_of := t\<rparr>) = arena_order b" "sizes_ok (b\<lparr>tree_of := t\<rparr>) = sizes_ok b"
  "buddy_main (b\<lparr>tree_of := t\<rparr>) = buddy_main b" "size_for_depth (b\<lparr>tree_of := t\<rparr>) d = size_for_depth b d"
  "address_for_position (b\<lparr>tree_of := t\<rparr>) p = address_for_position b p"
  "used_nodes (b\<lparr>tree_of := t\<rparr>) = in_use (arena_order b) t"
  by (simp_all add: arena_log_def align_log_def arena_order_def sizes_ok_def used_nodes_def
      buddy_effective_memory_size_def buddy_main_def buddy_relative_mode_def size_for_depth_def
      address_for_position_def)

section \<open>Marking and releasing blocks of an arena\<close>

lemma masked_or_inside:
  assumes "arena_inv b" "node (arena_order b) i" "x \<in> block (arena_log b) i" "memory_size b \<le> x"
  shows "\<exists>j \<in> used_nodes b. ancestor j i \<or> ancestor i j"
proof -
  note ok = arena_invD(1) [OF assms(1)]
  have "x < 2 ^ arena_log b"
    using assms(3) block_bounds [OF node_arena(1,2) [OF ok assms(2)]] by (auto simp: block_def)
  then obtain j where "j \<in> used_nodes b" "x \<in> block (arena_log b) j"
    using arena_invD(4) [OF assms(1,4)] by blast
  then show ?thesis
    using block_overlap [OF assms(2) used_node arena_order_le [OF ok] assms(3)] by blast
qed

lemma mark_arena:
  assumes inv: "arena_inv b" and free: "available (arena_order b) (tree_of b) i"
  defines "b' \<equiv> b\<lparr>tree_of := buddy_tree_mark (tree_of b) (npos i)\<rparr>"
  shows "block (arena_log b) i \<subseteq> {..<memory_size b}"
    and "used_nodes b' = insert i (used_nodes b)" "arena_inv b'"
    and "live b' = insert (block_start (arena_log b) i, block_size (arena_log b) i) (live b)"
    and "(block_start (arena_log b) i, block_size (arena_log b) i) \<notin> live b"
proof -
  let ?n = "arena_order b" and ?m = "arena_log b"
  note ok = arena_invD(1) [OF inv] and tree = arena_invD(2) [OF inv]
  have i: "node ?n i" using free by (simp add: available_def afree_def)
  have apart: "\<not> ancestor j i \<and> \<not> ancestor i j" if "j \<in> used_nodes b" for j
    using free that tree i afree_iff
    by (auto simp: available_def used_nodes_def in_use_def tree_inv_def)
  show inside: "block ?m i \<subseteq> {..<memory_size b}"
    using masked_or_inside [OF inv i] apart by (meson lessThan_iff not_less subsetI)
  have t: "tree_inv ?n (buddy_tree_mark (tree_of b) (npos i))"
    "in_use ?n (buddy_tree_mark (tree_of b) (npos i)) = insert i (used_nodes b)"
    using buddy_tree_mark_refines [OF _ i] amark_ok [of ?n "statuses ?n (tree_of b)" i] tree free
    by (simp_all add: tree_inv_def in_use_def used_nodes_def available_def)
  then show used: "used_nodes b' = insert i (used_nodes b)" by (simp add: b'_def)
  show "arena_inv b'"
    using inv t inside unfolding arena_inv_def b'_def by auto
  show "live b' = insert (block_start ?m i, block_size ?m i) (live b)"
    using used inside unfolding live_def by (auto simp: b'_def)
  show "(block_start ?m i, block_size ?m i) \<notin> live b"
  proof
    assume "(block_start ?m i, block_size ?m i) \<in> live b"
    then obtain j where j: "j \<in> used_nodes b" "block_start ?m i = block_start ?m j"
      "block_size ?m i = block_size ?m j" by (auto simp: live_def)
    have "block_start ?m i \<in> block ?m i" "block_start ?m i \<in> block ?m j"
      using j(2,3) block_nonempty by (metis, metis)
    from block_overlap [OF i used_node [OF j(1)] arena_order_le [OF ok] this] apart [OF j(1)]
    show False by blast
  qed
qed

lemma release_arena:
  assumes inv: "arena_inv b" and used: "i \<in> used_nodes b"
    and inside: "block (arena_log b) i \<subseteq> {..<memory_size b}"
  defines "b' \<equiv> b\<lparr>tree_of := snd (buddy_tree_release (tree_of b) (npos i))\<rparr>"
  shows "fst (buddy_tree_release (tree_of b) (npos i)) = BUDDY_TREE_RELEASE_SUCCESS"
    and "used_nodes b' = used_nodes b - {i}" "arena_inv b'"
    and "live b' = live b - {(block_start (arena_log b) i, block_size (arena_log b) i)}"
    and "available (arena_order b) (tree_of b') i"
proof -
  let ?n = "arena_order b" and ?m = "arena_log b"
  note ok = arena_invD(1) [OF inv] and tree = arena_invD(2) [OF inv]
  have i: "node ?n i" using used_node [OF used] .
  have full: "full ?n (statuses ?n (tree_of b)) i" "i \<in> allocated ?n (statuses ?n (tree_of b))"
    using used by (simp_all add: used_nodes_def in_use_def allocated_def)
  have wf: "tree_wf ?n (tree_of b)" "tree_ok ?n (statuses ?n (tree_of b))"
    using tree by (simp_all add: tree_inv_def)
  note r = buddy_tree_release_refines [OF wf(1) i]
  show "fst (buddy_tree_release (tree_of b) (npos i)) = BUDDY_TREE_RELEASE_SUCCESS"
    by (subst r(1)) (simp add: full(1))
  have t: "tree_inv ?n (tree_of b')" "in_use ?n (tree_of b') = used_nodes b - {i}"
    using r(2,3) [OF full(1)] arelease_ok [OF wf(2) full(2)]
    by (simp_all add: b'_def tree_inv_def in_use_def used_nodes_def)
  show "available ?n (tree_of b') i"
    using r(3) [OF full(1)] arelease_ok(3) [OF wf(2) full(2)] by (simp add: available_def b'_def)
  show eq: "used_nodes b' = used_nodes b - {i}" using t(2) by (simp add: b'_def)
  have "\<exists>j \<in> used_nodes b - {i}. x \<in> block ?m j" if "memory_size b \<le> x" "x < 2 ^ ?m" for x
    using arena_invD(4) [OF inv that] inside that(1) by (auto dest!: subsetD)
  then show "arena_inv b'"
    using inv t eq unfolding arena_inv_def by (simp add: b'_def)
  show "live b' = live b - {(block_start ?m i, block_size ?m i)}"
  proof -
    have "j = i" if "j \<in> used_nodes b" "block_start ?m j = block_start ?m i"
      "block_size ?m j = block_size ?m i" for j
      using used_disjoint [OF inv that(1) used block_nonempty] that(2,3) block_nonempty
      by (metis block_def)
    then show ?thesis unfolding live_def eq by (auto simp: b'_def)
  qed
qed

end
