(* ===== verification/Buddy_Correct.thy ===== *)
theory Buddy_Correct
  imports Buddy_Alloc
begin

text \<open>
  What \<open>malloc\<close>, \<open>free\<close>, \<open>realloc\<close> and their variants do to the live blocks of an arena.
\<close>

section \<open>Finding the position of an address\<close>

lemma invalid_pos [simp]: "\<not> buddy_tree_valid t INVALID_POS"
  by (simp add: buddy_tree_valid_def INVALID_POS_def)

text \<open>The nearest ancestor with a status other than zero.\<close>

definition tracks :: "status \<Rightarrow> nat \<Rightarrow> nat \<Rightarrow> bool" where
  "tracks s i p \<longleftrightarrow> ancestor p i \<and> s p \<noteq> 0 \<and> (\<forall>a. ancestor a i \<and> ancestor p a \<and> a \<noteq> p \<longrightarrow> s a = 0)"

lemma ancestor_antisym: "ancestor a b \<Longrightarrow> ancestor b a \<Longrightarrow> a = b"
  using ancestor_le by (simp add: le_antisym)

lemma tracking_position_spec:
  assumes "tree_wf n t" "node n i"
  shows "(tracking_position t (npos i) = None \<and> (\<forall>a. ancestor a i \<longrightarrow> statuses n t a = 0))
    \<or> (\<exists>p. tracking_position t (npos i) = Some (npos p) \<and> tracks (statuses n t) i p)"
  using assms(2)
proof (induction i rule: less_induct)
  case (less i)
  let ?s = "statuses n t"
  have i: "0 < i" using node_pos [OF less.prems] .
  have st: "buddy_tree_status t (npos i) = ?s i"
    using less.prems by (simp add: statuses_node status_of_def)
  show ?case
  proof (cases "?s i = 0")
    case False
    then have "tracking_position t (npos i) = Some (npos i)"
      by (subst tracking_position.simps) (simp add: st)
    moreover have "tracks ?s i i"
      using False ancestor_refl [OF i] ancestor_antisym by (auto simp: tracks_def)
    ultimately show ?thesis by blast
  next
    case True
    show ?thesis
    proof (cases "1 < i")
      case big: True
      note p = node_half [OF less.prems big]
      have step: "tracking_position t (npos i) = tracking_position t (npos (i div 2))"
        using True p by (subst tracking_position.simps)
          (simp add: st parent_npos [OF big] npos_valid [OF assms(1)])
      have up: "tracks ?s i q" if "tracks ?s (i div 2) q" for q
        using that True ancestor_iff [OF i] unfolding tracks_def by metis
      have "i div 2 < i" using big by simp
      from less.IH [OF this p] step True ancestor_iff [OF i] up show ?thesis by metis
    next
      case False
      then have "i = 1" using i by simp
      then have "\<not> buddy_tree_valid t (buddy_tree_parent (npos i))"
        by (simp add: buddy_tree_valid_def buddy_tree_parent_def)
      then have "tracking_position t (npos i) = None"
        using True by (subst tracking_position.simps) (simp add: st)
      moreover have "ancestor a i \<Longrightarrow> a = i" for a
        using \<open>i = 1\<close> ancestor_le [of a i] ancestor_pos [of a i] by linarith
      ultimately show ?thesis using True by metis
    qed
  qed
qed

lemma tracked_full:
  assumes ok: "tree_ok n s" and i: "node n i" "\<not> inner n i" and p: "tracks s i p" "full n s p"
  shows "p \<in> allocated n s"
proof (rule ccontr)
  assume na: "p \<notin> allocated n s"
  have np: "node n p" using p(1) i(1) ancestor_node by (auto simp: tracks_def)
  then have inn: "inner n p" using na p(2) by (auto simp: allocated_def)
  have e: "exact s p" by (rule not_allocated_exact [OF ok inn na])
  have "s (2 * p) \<noteq> 0 \<and> s (Suc (2 * p)) \<noteq> 0"
    using e p(2) cap_ge_2 [OF inn] np na by (auto simp: exact_def full_def parent_value_def split: if_splits)
  moreover have "p \<noteq> i \<Longrightarrow> s (2 * p) = 0 \<or> s (Suc (2 * p)) = 0"
  proof -
    assume "p \<noteq> i"
    then obtain c where c: "ancestor c i" "c = 2 * p \<or> c = Suc (2 * p)"
      using child_towards [of p i] p(1) by (auto simp: tracks_def)
    then have "c div 2 = p" "c \<noteq> p" using node_pos [OF np] by auto
    then have "ancestor p c"
      using c ancestor_half [of p c] ancestor_refl [OF node_pos [OF np]] by simp
    then show ?thesis using p(1) c \<open>c \<noteq> p\<close> by (auto simp: tracks_def)
  qed
  ultimately have "p = i" by metis
  with inn i(2) show False by simp
qed

lemma tracks_allocated:
  assumes "tree_ok n s" "node n i" "j \<in> allocated n s" "ancestor j i"
  shows "tracks s i j"
  using assms allocated_above [OF assms(1,3)] cap_pos [of n j] ancestor_node
  by (fastforce simp: tracks_def allocated_def full_def)

lemma tracks_unique: "tracks s i p \<Longrightarrow> tracks s i q \<Longrightarrow> p = q"
proof -
  assume pq: "tracks s i p" "tracks s i q"
  then have "ancestor p q \<or> ancestor q p"
    unfolding tracks_def ancestor_def
    by (metis (no_types) div_mult2_eq le_add_diff_inverse nle_le power_add)
  then show ?thesis using pq unfolding tracks_def by metis
qed

definition leaf_at :: "buddy \<Rightarrow> nat \<Rightarrow> nat" where
  "leaf_at b x = 2 ^ (arena_order b - 1) + x div alignment b"

lemma leaf_at:
  assumes inv: "arena_inv b" and x: "x < memory_size b"
  shows "node (arena_order b) (leaf_at b x)" "\<not> inner (arena_order b) (leaf_at b x)"
    "x \<in> block (arena_log b) (leaf_at b x)"
    "deepest_position_for_offset b x = npos (leaf_at b x)"
proof -
  note ok = arena_invD(1) [OF inv]
  let ?a = "align_log b" and ?m = "arena_log b"
  have al: "alignment b = 2 ^ ?a" using ok by (simp add: sizes_ok_def)
  have am: "?a \<le> ?m" using align_le [OF ok] .
  have n: "arena_order b - 1 = ?m - ?a" by (simp add: arena_order_def)
  have xm: "x < 2 ^ ?m" using x effective_size(3) [OF ok] by simp
  have mm: "(2::nat) ^ ?m = 2 ^ (?m - ?a) * 2 ^ ?a" using am by (simp flip: power_add)
  have "x div 2 ^ ?a < 2 ^ (?m - ?a)" using xm unfolding mm by (rule less_mult_imp_div_less)
  then have len: "bit_len (leaf_at b x) = Suc (?m - ?a)"
    by (intro bit_len_eqI) (simp_all add: leaf_at_def n al del: One_nat_def)
  show node: "node (arena_order b) (leaf_at b x)"
  proof -
    have "0 < leaf_at b x" by (simp add: leaf_at_def)
    then show ?thesis using len unfolding node_def bit_len_le_iff [symmetric] arena_order_def by simp
  qed
  show "\<not> inner (arena_order b) (leaf_at b x)" using len by (simp add: inner_def arena_order_def)
  have sz: "block_size ?m (leaf_at b x) = 2 ^ ?a" using len am by (simp add: block_size_def)
  have "(2 ^ ?m + x) div 2 ^ ?a = leaf_at b x"
    unfolding mm by (simp add: leaf_at_def n al del: One_nat_def)
  then show "x \<in> block ?m (leaf_at b x)"
    using in_block_iff [OF node_arena(1,2) [OF ok node]] sz by simp
  have t: "tree_order (tree_of b) = arena_order b"
    using arena_invD(2) [OF inv] by (simp add: tree_inv_def tree_wf_def)
  have "arena_order b - 1 < 64" using n effective_size(2) [OF ok] by simp
  moreover have "bit_len (leaf_at b x) = arena_order b" by (simp add: len arena_order_def)
  ultimately show "deepest_position_for_offset b x = npos (leaf_at b x)"
    by (simp add: deepest_position_for_offset_def buddy_tree_leftmost_child_def
        buddy_tree_leftmost_child_internal_def t npos_def) (simp add: leaf_at_def)
qed

text \<open>
  The position found for an offset of the arena: that of the live block that starts there, if
  there is one, and otherwise nothing or a node that a release refuses.
\<close>

lemma position_for_address_spec:
  assumes inv: "arena_inv b" and x: "x < memory_size b"
  shows "(\<exists>i \<in> used_nodes b. block (arena_log b) i \<subseteq> {..<memory_size b}
      \<and> block_start (arena_log b) i = x \<and> position_for_address b (buddy_main b + x) = npos i)
    \<or> ((\<forall>s. (x, s) \<notin> live b)
      \<and> (\<not> buddy_tree_valid (tree_of b) (position_for_address b (buddy_main b + x))
        \<or> (\<exists>i. node (arena_order b) i \<and> position_for_address b (buddy_main b + x) = npos i
             \<and> \<not> full (arena_order b) (statuses (arena_order b) (tree_of b)) i)))"
proof -
  let ?n = "arena_order b" and ?m = "arena_log b" and ?t = "tree_of b"
  let ?s = "statuses ?n ?t" and ?l = "leaf_at b x"
  note ok = arena_invD(1) [OF inv] and leaf = leaf_at [OF inv x]
  have wf: "tree_wf ?n ?t" and tok: "tree_ok ?n ?s"
    using arena_invD(2) [OF inv] by (simp_all add: tree_inv_def)
  have pos: "position_for_address b (buddy_main b + x) =
      (if x mod alignment b \<noteq> 0 then INVALID_POS
       else case tracking_position ?t (npos ?l) of None \<Rightarrow> INVALID_POS
         | Some p \<Rightarrow> if address_for_position b p \<noteq> buddy_main b + x then INVALID_POS else p)"
    by (simp add: position_for_address_def leaf(4))
  have track: "tracks ?s ?l i" if "i \<in> used_nodes b" "x \<in> block ?m i" for i
  proof (rule tracks_allocated [OF tok leaf(1)])
    show i: "i \<in> allocated ?n ?s" using that(1) by (simp add: used_nodes_def in_use_def)
    have "ancestor i ?l \<or> ancestor ?l i"
      using block_overlap [OF used_node [OF that(1)] leaf(1) arena_order_le [OF ok] that(2) leaf(3)] .
    moreover have "?l = i" if a: "ancestor ?l i"
    proof (rule ccontr)
      assume "?l \<noteq> i"
      then have "ancestor (2 * ?l) i \<or> ancestor (Suc (2 * ?l)) i" using child_towards [OF a] by simp
      then have "node ?n (2 * ?l) \<or> node ?n (Suc (2 * ?l))"
        using ancestor_node i by (auto simp: allocated_def)
      then show False using leaf(2) node_pos [OF leaf(1)] by (auto simp: inner_def)
    qed
    ultimately show "ancestor i ?l" by metis
  qed
  show ?thesis
  proof (cases "\<exists>s. (x, s) \<in> live b")
    case True
    then obtain i where i: "i \<in> used_nodes b" "block ?m i \<subseteq> {..<memory_size b}" "x = block_start ?m i"
      by (auto simp: live_def)
    have tr: "tracks ?s ?l i" using track [OF i(1)] block_nonempty i(3) by simp
    then have "tracking_position ?t (npos ?l) = Some (npos i)"
      using tracking_position_spec [OF wf leaf(1)] tracks_unique unfolding tracks_def by metis
    moreover have "x mod alignment b = 0"
      using node_block_aligned(2) [OF ok used_node [OF i(1)]] i(3) by auto
    ultimately show ?thesis
      using pos address_npos [OF ok used_node [OF i(1)]] i by auto
  next
    case none: False
    show ?thesis
    proof (cases "buddy_tree_valid ?t (position_for_address b (buddy_main b + x))")
      case True
      then obtain p where p: "tracking_position ?t (npos ?l) = Some (npos p)" "tracks ?s ?l p"
        "position_for_address b (buddy_main b + x) = npos p"
        "address_for_position b (npos p) = buddy_main b + x"
        using tracking_position_spec [OF wf leaf(1)] unfolding pos
        by (auto split: if_splits)
      have np: "node ?n p" using p(2) leaf(1) ancestor_node by (auto simp: tracks_def)
      have start: "block_start ?m p = x" using p(4) address_npos [OF ok np] by simp
      have "\<not> full ?n ?s p"
      proof
        assume "full ?n ?s p"
        from tracked_full [OF tok leaf(1,2) p(2) this] have u: "p \<in> used_nodes b"
          by (simp add: used_nodes_def in_use_def)
        have "x \<in> block ?m p" using block_nonempty [of ?m p] start by simp
        then have "block ?m p \<subseteq> {..<memory_size b}" using arena_invD(3) [OF inv u] x by auto
        with u start none show False unfolding live_def by blast
      qed
      with none np p(3) show ?thesis by blast
    qed (use none in blast)
  qed
qed

section \<open>Allocation\<close>

lemma available_block:
  assumes inv: "arena_inv b" and i: "node (arena_order b) i" "block (arena_log b) i \<subseteq> {..<memory_size b}"
    and na: "\<not> available (arena_order b) (tree_of b) i"
  shows "\<exists>q \<in> live b. extent q \<inter> block (arena_log b) i \<noteq> {}"
proof -
  let ?n = "arena_order b" and ?m = "arena_log b"
  note ok = arena_invD(1) [OF inv]
  obtain d where d: "d \<in> used_nodes b" "ancestor d i \<or> ancestor i d"
    using na i(1) afree_iff arena_invD(2) [OF inv]
    by (auto simp: available_def tree_inv_def used_nodes_def in_use_def)
  have "bit_len i \<le> ?m + 1" "bit_len d \<le> ?m + 1"
    using node_arena(2) [OF ok] i(1) used_node [OF d(1)] by simp_all
  then have "block ?m i \<subseteq> block ?m d \<or> block ?m d \<subseteq> block ?m i"
    using d(2) block_ancestor by blast
  then obtain x where x: "x \<in> block ?m i" "x \<in> block ?m d" using block_nonempty by blast
  then have "x < memory_size b" using i(2) by auto
  then have "block ?m d \<subseteq> {..<memory_size b}" using arena_invD(3) [OF inv d(1)] x(2) by auto
  then have "(block_start ?m d, block_size ?m d) \<in> live b" using d(1) by (auto simp: live_def)
  moreover have "x \<in> extent (block_start ?m d, block_size ?m d)" using x(2) by (simp add: extent_def block_def)
  ultimately show ?thesis using x(1) by blast
qed

text \<open>\<open>room b k\<close>: an aligned block of \<open>2 ^ k\<close> bytes of the arena meets no live block.\<close>

definition room_for :: "buddy \<Rightarrow> nat \<Rightarrow> bool" where
  "room_for b k \<longleftrightarrow> (\<exists>x. 2 ^ k dvd x \<and> x + 2 ^ k \<le> memory_size b
     \<and> (\<forall>q \<in> live b. extent q \<inter> {x..<x + 2 ^ k} = {}))"

lemma find_free_room:
  assumes inv: "arena_inv b" and r: "r \<le> memory_size b"
  shows "buddy_tree_find_free (tree_of b) (depth_for_size b r) = INVALID_POS \<and> \<not> room_for b (slot_log b r)
    \<or> (\<exists>i. buddy_tree_find_free (tree_of b) (depth_for_size b r) = npos i
        \<and> block_size (arena_log b) i = 2 ^ slot_log b r
        \<and> available (arena_order b) (tree_of b) i)"
proof -
  let ?n = "arena_order b" and ?m = "arena_log b" and ?d = "depth_for_size b r" and ?k = "slot_log b r"
  note ok = arena_invD(1) [OF inv] and d = depth_for_size_eq [OF arena_invD(1) [OF inv] r]
  note k = slot_log [OF ok r]
  have len: "bit_len i = ?d \<Longrightarrow> block_size ?m i = 2 ^ ?k" for i
    using d(1) k(3) by (simp add: block_size_def)
  from find_free_cases [OF arena_invD(2) [OF inv] d(2,3)] show ?thesis
  proof
    assume none: "buddy_tree_find_free (tree_of b) ?d = INVALID_POS
      \<and> \<not> (\<exists>i. bit_len i = ?d \<and> available ?n (tree_of b) i)"
    have "\<not> room_for b ?k"
    proof
      assume "room_for b ?k"
      then obtain x where x: "2 ^ ?k dvd x" "x + 2 ^ ?k \<le> memory_size b"
        "\<forall>q \<in> live b. extent q \<inter> {x..<x + 2 ^ ?k} = {}" by (auto simp: room_for_def)
      have "x + 2 ^ ?k \<le> 2 ^ ?m" using x(2) effective_size(3) [OF ok] by simp
      then obtain i where i: "node ?n i" "bit_len i = ?m + 1 - ?k" "block_start ?m i = x"
        "block_size ?m i = 2 ^ ?k"
        using aligned_block [OF k(3) _ x(1), of ?n] d(1,3) by auto
      then have "block ?m i = {x..<x + 2 ^ ?k}" by (simp add: block_def)
      moreover have "\<not> available ?n (tree_of b) i" using none i(2) d(1) by metis
      ultimately show False using available_block [OF inv i(1)] x(2,3) by fastforce
    qed
    with none show ?thesis by blast
  next
    assume "\<exists>j. buddy_tree_find_free (tree_of b) ?d = npos j \<and> bit_len j = ?d
      \<and> available ?n (tree_of b) j"
    with len show ?thesis by blast
  qed
qed

text \<open>The result of an allocation, as a relation between the arenas before and after it.\<close>

definition malloc_fails :: "buddy \<Rightarrow> size_t \<Rightarrow> bool" where
  "malloc_fails b r \<longleftrightarrow> r > memory_size b \<or> \<not> room_for b (slot_log b r)"

definition block_taken :: "buddy \<Rightarrow> size_t \<Rightarrow> addr \<Rightarrow> buddy \<Rightarrow> bool" where
  "block_taken b r p b' \<longleftrightarrow> (\<exists>x. p = buddy_main b + x \<and> x + 2 ^ slot_log b r \<le> memory_size b
     \<and> x mod 2 ^ slot_log b r = 0 \<and> (x, 2 ^ slot_log b r) \<notin> live b
     \<and> live b' = insert (x, 2 ^ slot_log b r) (live b))"

definition same_arena :: "buddy \<Rightarrow> buddy \<Rightarrow> bool" where
  "same_arena b b' \<longleftrightarrow> b' = b\<lparr>tree_of := tree_of b'\<rparr>"

lemma same_arena_retree [simp]: "same_arena b (b\<lparr>tree_of := t\<rparr>)"
  by (simp add: same_arena_def)

lemma same_arenaD:
  assumes "same_arena b b'"
  shows "memory_size b' = memory_size b" "buddy_main b' = buddy_main b" "alignment b' = alignment b"
    "slot_log b' r = slot_log b r" "arena_log b' = arena_log b" "arena_order b' = arena_order b"
proof -
  obtain t where b': "b' = b\<lparr>tree_of := t\<rparr>" using assms unfolding same_arena_def by blast
  show "memory_size b' = memory_size b" "buddy_main b' = buddy_main b" "alignment b' = alignment b"
    "slot_log b' r = slot_log b r" "arena_log b' = arena_log b" "arena_order b' = arena_order b"
    by (simp_all only: b' retree_simps) (simp_all add: slot_log_def)
qed

lemma npos_inject: "npos i = npos j \<Longrightarrow> i = j"
  by (simp add: npos_def)

lemma npos_valid_arena: "arena_inv b \<Longrightarrow> buddy_tree_valid (tree_of b) (npos i) \<longleftrightarrow> node (arena_order b) i"
  using arena_invD(2) npos_valid by (auto simp: tree_inv_def)

lemma take_block:
  assumes inv: "arena_inv b" and r: "r \<le> memory_size b"
    and i: "block_size (arena_log b) i = 2 ^ slot_log b r" "available (arena_order b) (tree_of b) i"
  defines "b' \<equiv> b\<lparr>tree_of := buddy_tree_mark (tree_of b) (npos i)\<rparr>"
  shows "arena_inv b'" "block_taken b r (address_for_position b (npos i)) b'"
    "address_for_position b (npos i) \<noteq> NULL"
proof -
  note ok = arena_invD(1) [OF inv]
  have node: "node (arena_order b) i" using i(2) by (simp add: available_def afree_def)
  note m = mark_arena [OF inv i(2), folded b'_def]
  show "arena_inv b'" by (rule m(3))
  have p: "address_for_position b (npos i) = buddy_main b + block_start (arena_log b) i"
    by (rule address_npos [OF ok node])
  then show "address_for_position b (npos i) \<noteq> NULL" using ok by (simp add: sizes_ok_def)
  have "block_start (arena_log b) i + block_size (arena_log b) i \<le> memory_size b"
    using m(1) by (auto simp: block_def lessThan_atLeast0 block_size_def)
  then show "block_taken b r (address_for_position b (npos i)) b'"
    using p m(4,5) i(1) block_start_mod [of "arena_log b" i]
    unfolding block_taken_def by (intro exI [of _ "block_start (arena_log b) i"]) simp
qed

lemma malloc_arena_spec:
  assumes inv: "arena_inv b"
  shows "malloc_fails b (max 1 r) \<and> malloc_arena b r = (NULL, b)
    \<or> (\<exists>p b'. malloc_arena b r = (p, b') \<and> p \<noteq> NULL \<and> max 1 r \<le> memory_size b
        \<and> arena_inv b' \<and> same_arena b b' \<and> block_taken b (max 1 r) p b')"
proof -
  define q where "q = max 1 r"
  have eq: "(if r = 0 then 1 else r) = q" by (simp add: q_def)
  show ?thesis unfolding q_def [symmetric]
  proof (cases "q \<le> memory_size b")
    case False
    then show "malloc_fails b q \<and> malloc_arena b r = (NULL, b) \<or> (\<exists>p b'. malloc_arena b r = (p, b')
        \<and> p \<noteq> NULL \<and> q \<le> memory_size b \<and> arena_inv b' \<and> same_arena b b' \<and> block_taken b q p b')"
      unfolding malloc_arena_def eq by (simp add: malloc_fails_def Let_def)
  next
    case r: True
    have d: "depth_for_size b q mod 256 = depth_for_size b q"
      using depth_for_size_eq(4) [OF arena_invD(1) [OF inv] r] by simp
    from find_free_room [OF inv r]
    show "malloc_fails b q \<and> malloc_arena b r = (NULL, b) \<or> (\<exists>p b'. malloc_arena b r = (p, b')
        \<and> p \<noteq> NULL \<and> q \<le> memory_size b \<and> arena_inv b' \<and> same_arena b b' \<and> block_taken b q p b')"
    proof (elim disjE exE conjE)
      assume "buddy_tree_find_free (tree_of b) (depth_for_size b q) = INVALID_POS"
        "\<not> room_for b (slot_log b q)"
      then show ?thesis
        using r unfolding malloc_arena_def eq by (simp add: malloc_fails_def Let_def d)
    next
      fix i
      assume i: "buddy_tree_find_free (tree_of b) (depth_for_size b q) = npos i"
        "block_size (arena_log b) i = 2 ^ slot_log b q" "available (arena_order b) (tree_of b) i"
      have "buddy_tree_valid (tree_of b) (npos i)"
        using i(3) npos_valid_arena [OF inv] by (simp add: available_def afree_def)
      then have "malloc_arena b r = (address_for_position b (npos i),
          b\<lparr>tree_of := buddy_tree_mark (tree_of b) (npos i)\<rparr>)"
        using r i(1) unfolding malloc_arena_def eq by (simp add: Let_def d)
      then show ?thesis using take_block [OF inv r i(2,3)] r by simp
    qed
  qed
qed

end
