(* ===== verification/Buddy_Free.thy ===== *)
theory Buddy_Free
  imports Buddy_Correct
begin

text \<open>
  Release, reallocation and initialisation of an arena.
\<close>

section \<open>Release\<close>

definition starts_at :: "buddy \<Rightarrow> addr \<Rightarrow> (nat \<times> nat) set" where
  "starts_at b p = {q \<in> live b. buddy_main b + fst q = p}"

lemma starts_at_eq:
  assumes "arena_inv b" "i \<in> used_nodes b" "block (arena_log b) i \<subseteq> {..<memory_size b}"
  shows "starts_at b (buddy_main b + block_start (arena_log b) i) =
    {(block_start (arena_log b) i, block_size (arena_log b) i)}"
proof -
  let ?p = "(block_start (arena_log b) i, block_size (arena_log b) i)"
  have p: "?p \<in> live b" using assms(2,3) by (auto simp: live_def)
  have *: "q = ?p" if "q \<in> live b" "fst q = block_start (arena_log b) i" for q
  proof (rule ccontr)
    assume "q \<noteq> ?p"
    from live_disjoint [OF assms(1) that(1) p this] have "extent q \<inter> extent ?p = {}" .
    moreover have "0 < snd q" using that(1) by (auto simp: live_def block_size_def)
    then have "fst q \<in> extent q \<inter> extent ?p"
      using that(2) by (simp add: extent_def block_size_def)
    ultimately show False by blast
  qed
  show ?thesis
  proof
    show "{?p} \<subseteq> starts_at b (buddy_main b + block_start (arena_log b) i)"
      using p by (simp add: starts_at_def)
    show "starts_at b (buddy_main b + block_start (arena_log b) i) \<subseteq> {?p}"
    proof
      fix q assume "q \<in> starts_at b (buddy_main b + block_start (arena_log b) i)"
      then have "q \<in> live b" "fst q = block_start (arena_log b) i" by (simp_all add: starts_at_def)
      from * [OF this] show "q \<in> {?p}" by simp
    qed
  qed
qed

lemma starts_at_outside:
  assumes "arena_inv b" "outside_arena b p"
  shows "starts_at b p = {}"
proof -
  have "snd q > 0" if "q \<in> live b" for q using that by (auto simp: live_def block_size_def)
  then show ?thesis
    using assms live_in_arena(1) [OF assms(1)] by (fastforce simp: starts_at_def outside_arena_def)
qed

text \<open>What a release at an address inside the arena finds.\<close>

lemma position_cases:
  assumes inv: "arena_inv b" and p: "\<not> outside_arena b p"
  obtains (block) i where "i \<in> used_nodes b" "block (arena_log b) i \<subseteq> {..<memory_size b}"
      "position_for_address b p = npos i" "buddy_main b + block_start (arena_log b) i = p"
    | (none) "starts_at b p = {}" "\<not> buddy_tree_valid (tree_of b) (position_for_address b p)"
    | (refused) i where "starts_at b p = {}" "node (arena_order b) i" "position_for_address b p = npos i"
        "buddy_tree_release (tree_of b) (npos i) = (BUDDY_TREE_RELEASE_FAIL_PARTIALLY_USED, tree_of b)"
proof -
  define x where "x = p - buddy_main b"
  have x: "p = buddy_main b + x" "x < memory_size b" using p by (auto simp: x_def outside_arena_def)
  have empty: "(\<forall>s. (x, s) \<notin> live b) \<Longrightarrow> starts_at b p = {}" by (auto simp: starts_at_def x(1))
  from position_for_address_spec [OF inv x(2)] show thesis
  proof (elim disjE bexE conjE exE)
    fix i assume "i \<in> used_nodes b" "block (arena_log b) i \<subseteq> {..<memory_size b}"
      "block_start (arena_log b) i = x" "position_for_address b (buddy_main b + x) = npos i"
    then show thesis using block x(1) by blast
  next
    assume "\<forall>s. (x, s) \<notin> live b" "\<not> buddy_tree_valid (tree_of b) (position_for_address b (buddy_main b + x))"
    then show thesis using none empty x(1) by blast
  next
    fix i assume i: "\<forall>s. (x, s) \<notin> live b" "node (arena_order b) i"
      "position_for_address b (buddy_main b + x) = npos i"
      "\<not> full (arena_order b) (statuses (arena_order b) (tree_of b)) i"
    have "tree_wf (arena_order b) (tree_of b)" using arena_invD(2) [OF inv] by (simp add: tree_inv_def)
    from buddy_tree_release_refines(1) [OF this i(2)] i(4)
    have "buddy_tree_release (tree_of b) (npos i) = (BUDDY_TREE_RELEASE_FAIL_PARTIALLY_USED, tree_of b)"
      by (simp only: if_False)
    then show thesis using refused i empty x(1) by blast
  qed
qed

lemma retree_same [simp]: "b\<lparr>tree_of := tree_of b\<rparr> = b"
  by simp

lemma free_arena_spec:
  assumes inv: "arena_inv b"
  shows "arena_inv (free_arena b p)" "same_arena b (free_arena b p)"
    "live (free_arena b p) = live b - starts_at b p"
    "starts_at b p = {} \<Longrightarrow> free_arena b p = b"
proof -
  have "buddy_main b \<noteq> NULL" using arena_invD(1) [OF inv] by (simp add: sizes_ok_def)
  then have null: "outside_arena b NULL" by (simp add: outside_arena_def)
  have *: "(starts_at b p = {} \<and> free_arena b p = b) \<or> (starts_at b p \<noteq> {} \<and>
    arena_inv (free_arena b p) \<and> same_arena b (free_arena b p)
    \<and> live (free_arena b p) = live b - starts_at b p)"
  proof (cases "outside_arena b p")
    case True
    then show ?thesis using starts_at_outside [OF inv True] by (simp add: free_arena_def)
  next
    case False
    then have p: "p \<noteq> NULL" using null by metis
    from inv False show ?thesis
    proof (cases rule: position_cases)
      case (block i)
      have "buddy_tree_valid (tree_of b) (npos i)"
        using npos_valid_arena [OF inv] used_node [OF block(1)] by simp
      then have "free_arena b p = b\<lparr>tree_of := snd (buddy_tree_release (tree_of b) (npos i))\<rparr>"
        using p False block(3) by (simp add: free_arena_def)
      then show ?thesis
        using release_arena [OF inv block(1,2)] starts_at_eq [OF inv block(1,2)] block(4) by simp
    next
      case none
      then show ?thesis using p False by (simp add: free_arena_def)
    next
      case (refused i)
      then show ?thesis using p False by (simp add: free_arena_def Let_def)
    qed
  qed
  then show "arena_inv (free_arena b p)" "same_arena b (free_arena b p)"
    "live (free_arena b p) = live b - starts_at b p"
    "starts_at b p = {} \<Longrightarrow> free_arena b p = b"
    using inv by (auto simp: same_arena_def)
qed

text \<open>The checked release: it needs the right size, up to the rounding of the allocation.\<close>

lemma used_size_for_depth:
  assumes "arena_inv b" "node (arena_order b) i"
  shows "size_for_depth b (pos_depth (npos i)) = block_size (arena_log b) i"
  using size_for_depth_power [OF arena_invD(1) [OF assms(1)]]
    node_arena [OF arena_invD(1) [OF assms(1)] assms(2)] by (simp add: block_size_def)

definition size_fits :: "buddy \<Rightarrow> size_t \<Rightarrow> nat \<Rightarrow> bool" where
  "size_fits b r s \<longleftrightarrow> max r (alignment b) \<le> s \<and> s div 2 < max r (alignment b)"

lemma safe_free_arena_spec:
  assumes inv: "arena_inv b"
  shows "case safe_free_arena b p r of (st, b') \<Rightarrow> 
    (if \<exists>s. (p - buddy_main b, s) \<in> starts_at b p \<and> size_fits b r s
     then st = BUDDY_SAFE_FREE_SUCCESS \<and> b' = free_arena b p
     else st \<in> {BUDDY_SAFE_FREE_INVALID_ADDRESS, BUDDY_SAFE_FREE_SIZE_MISMATCH} \<and> b' = b)"
proof -
  have "buddy_main b \<noteq> NULL" using arena_invD(1) [OF inv] by (simp add: sizes_ok_def)
  then have null: "outside_arena b NULL" by (simp add: outside_arena_def)
  have max: "(if r < alignment b then alignment b else r) = max r (alignment b)" by simp
  show ?thesis
  proof (cases "outside_arena b p")
    case True
    then show ?thesis using starts_at_outside [OF inv True] by (simp add: safe_free_arena_def)
  next
    case False
    then have p: "p \<noteq> NULL" using null by metis
    from inv False show ?thesis
    proof (cases rule: position_cases)
      case (block i)
      let ?s = "block_size (arena_log b) i"
      have node: "node (arena_order b) i" using used_node [OF block(1)] .
      have v: "buddy_tree_valid (tree_of b) (npos i)"
        using npos_valid_arena [OF inv] node by simp
      have free: "free_arena b p = b\<lparr>tree_of := snd (buddy_tree_release (tree_of b) (npos i))\<rparr>"
        using p False block(3) v by (simp add: free_arena_def)
      have st: "starts_at b p = {(block_start (arena_log b) i, ?s)}"
        using starts_at_eq [OF inv block(1,2)] block(4) by simp
      then have fits: "(\<exists>s. (p - buddy_main b, s) \<in> starts_at b p \<and> size_fits b r s) \<longleftrightarrow> size_fits b r ?s"
        using block(4) by auto
      obtain t' where rel: "buddy_tree_release (tree_of b) (npos i) = (BUDDY_TREE_RELEASE_SUCCESS, t')"
        using release_arena(1) [OF inv block(1,2)] by (cases "buddy_tree_release (tree_of b) (npos i)") auto
      show ?thesis
        unfolding fits safe_free_arena_def Let_def max
        using p False block(3) v used_size_for_depth [OF inv node] rel free
        by (auto simp: size_fits_def)
    next
      case none
      then show ?thesis using p False by (simp add: safe_free_arena_def)
    next
      case (refused i)
      then show ?thesis using p False by (simp add: safe_free_arena_def Let_def)
    qed
  qed
qed

end
