(* ===== verification/Buddy_Realloc.thy ===== *)
theory Buddy_Realloc
  imports Buddy_Free
begin

text \<open>
  Reallocation keeps the block or moves it with its content; an initialised arena satisfies the
  invariant and has no live block.
\<close>

section \<open>Reallocation\<close>

lemma realloc_null: "buddy_realloc b mem NULL r ig = (case malloc_arena b r of (p, b') \<Rightarrow> (p, b', mem))"
  by (simp add: buddy_realloc_def Let_def split: prod.splits)

lemma realloc_zero: "p \<noteq> NULL \<Longrightarrow> buddy_realloc b mem p 0 ig = (NULL, free_arena b p, mem)"
  by (simp add: buddy_realloc_def)

definition moved_bytes :: "memory \<Rightarrow> addr \<Rightarrow> addr \<Rightarrow> nat \<Rightarrow> memory \<Rightarrow> bool" where
  "moved_bytes mem dst src n mem' \<longleftrightarrow> (\<forall>k < n. mem' (dst + k) = mem (src + k))
     \<and> (\<forall>a. a \<notin> {dst..<dst + n} \<longrightarrow> mem' a = mem a)"

lemma memmove_moved: "moved_bytes mem dst src n (memmove mem dst src n)"
  by (auto simp: moved_bytes_def memmove_def)

text \<open>The outcome for a live block at offset \<open>x\<close> of size \<open>s\<close>.\<close>

definition realloc_outcome ::
    "buddy \<Rightarrow> memory \<Rightarrow> nat \<Rightarrow> nat \<Rightarrow> size_t \<Rightarrow> bool \<Rightarrow> addr \<times> buddy \<times> memory \<Rightarrow> bool" where
  "realloc_outcome b mem x s r ignore_data res =
     (case res of (p, b', mem') \<Rightarrow>
        (p = NULL \<and> live b' = live b \<and> mem' = mem)
        \<or> (p = buddy_main b + x \<and> s = 2 ^ slot_log b r \<and> live b' = live b \<and> mem' = mem)
        \<or> (\<exists>y. p = buddy_main b + y \<and> y + 2 ^ slot_log b r \<le> memory_size b
             \<and> live b' = insert (y, 2 ^ slot_log b r) (live b - {(x, s)})
             \<and> (y, 2 ^ slot_log b r) \<notin> live b - {(x, s)}
             \<and> (if ignore_data then mem' = mem
                else moved_bytes mem p (buddy_main b + x) (min s (2 ^ slot_log b r)) mem')))"

lemma realloc_live:
  assumes inv: "arena_inv b" and l: "(x, s) \<in> live b" and r: "0 < r" "r \<le> memory_size b"
  shows "case buddy_realloc b mem (buddy_main b + x) r ig of (p, b', mem') \<Rightarrow>
    arena_inv b' \<and> same_arena b b'
    \<and> realloc_outcome b mem x s r ig (p, b', mem')"
proof -
  let ?m = "arena_log b" and ?n = "arena_order b"
  note ok = arena_invD(1) [OF inv]
  have "0 < s" using l by (auto simp: live_def block_size_def)
  then have x: "x < memory_size b" using live_in_arena(1) [OF inv l] by linarith
  then have p: "\<not> outside_arena b (buddy_main b + x)" "buddy_main b + x \<noteq> NULL"
    using ok by (auto simp: outside_arena_def sizes_ok_def)
  have "starts_at b (buddy_main b + x) \<noteq> {}" using l by (auto simp: starts_at_def)
  with inv p(1) obtain i where i: "i \<in> used_nodes b" "block ?m i \<subseteq> {..<memory_size b}"
    "position_for_address b (buddy_main b + x) = npos i" "x = block_start ?m i"
    by (cases rule: position_cases) auto
  have "(x, s) \<in> starts_at b (buddy_main b + block_start ?m i)"
    using l i(4) by (simp add: starts_at_def)
  then have s: "s = block_size ?m i" by (simp add: starts_at_eq [OF inv i(1,2)])
  have node: "node ?n i" using used_node [OF i(1)] .
  have v: "buddy_tree_valid (tree_of b) (npos i)" using npos_valid_arena [OF inv] node by simp
  define t1 where "t1 = snd (buddy_tree_release (tree_of b) (npos i))"
  define b1 where "b1 = b\<lparr>tree_of := t1\<rparr>"
  note rel = release_arena [OF inv i(1,2), folded t1_def, folded b1_def]
  have b1: "sizes_ok b1" "arena_log b1 = ?m" "arena_order b1 = ?n" "memory_size b1 = memory_size b"
    "buddy_main b1 = buddy_main b" "slot_log b1 r = slot_log b r" "tree_of b1 = t1"
    "depth_for_size b1 r = depth_for_size b r"
    using ok by (simp_all add: b1_def slot_log_def depth_for_size_def buddy_effective_memory_size_def)
  have av: "available (arena_order b1) (tree_of b1) i" using rel(5) b1 by simp
  note restore = mark_arena [OF rel(3) av, unfolded b1]
  have restored: "arena_inv (b\<lparr>tree_of := buddy_tree_mark t1 (npos i)\<rparr>)"
    "live (b\<lparr>tree_of := buddy_tree_mark t1 (npos i)\<rparr>) = live b"
    using restore(3,4) rel(4) l i(4) s by (auto simp: b1_def)
  define d where "d = depth_for_size b r"
  have d: "d mod 256 = d" "1 \<le> d" "d \<le> ?n" "d = ?m + 1 - slot_log b r"
    using depth_for_size_eq [OF ok r(2)] by (simp_all add: d_def)
  have v1: "buddy_tree_valid t1 (npos j) \<longleftrightarrow> node ?n j" for j
    using npos_valid_arena [OF rel(3)] b1 by simp
  have unfold: "buddy_realloc b mem (buddy_main b + x) r ig =
    (let new_pos = buddy_tree_find_free t1 d
     in if \<not> buddy_tree_valid t1 new_pos
        then (NULL, b\<lparr>tree_of := buddy_tree_mark t1 (npos i)\<rparr>, mem)
        else if i = pos_index new_pos
        then (buddy_main b + x, b\<lparr>tree_of := buddy_tree_mark t1 (npos i)\<rparr>, mem)
        else
          let destination = address_for_position b1 new_pos;
              mem' = (if ig then mem
                      else memmove mem destination (address_for_position b1 (npos i))
                        (size_for_depth b1 (if bit_len i > d then bit_len i else d)))
          in (destination, b1\<lparr>tree_of := buddy_tree_mark t1 new_pos\<rparr>, mem'))"
  proof -
    have r': "r \<noteq> 0" "\<not> r > memory_size b" using r by simp_all
    show ?thesis
      unfolding buddy_realloc_def Let_def if_not_P [OF p(2)] if_not_P [OF r'(1)]
        if_not_P [OF r'(2)] i(3) t1_def [symmetric] d_def [symmetric] d(1) b1_def [symmetric]
      by (simp only: v not_True_eq_False if_False npos_simps)
  qed
  from find_free_room [OF rel(3), of r, unfolded b1, OF r(2), folded d_def] show ?thesis
  proof (elim disjE exE conjE)
    assume "buddy_tree_find_free t1 d = INVALID_POS"
    then show ?thesis unfolding unfold using restored by (simp add: realloc_outcome_def)
  next
    fix j assume j: "buddy_tree_find_free t1 d = npos j" "block_size ?m j = 2 ^ slot_log b r"
      "available ?n t1 j"
    have nj: "node ?n j" using j(3) by (simp add: available_def afree_def)
    show ?thesis
    proof (cases "i = j")
      case True
      then have "s = 2 ^ slot_log b r" using j(2) s by simp
      then show ?thesis unfolding unfold using restored j(1) v1 nj True
        by (simp add: realloc_outcome_def)
    next
      case False
      have a: "available (arena_order b1) (tree_of b1) j" using j(3) b1 by simp
      note take = take_block [OF rel(3) _ _ a, of r, unfolded b1, OF r(2) j(2)]
      have size: "size_for_depth b1 (if bit_len i > d then bit_len i else d) = min s (2 ^ slot_log b r)"
      proof -
        have "slot_log b r \<le> ?m" using slot_log [OF ok r(2)] by simp
        then have sl: "2 ^ slot_log b r = (2::nat) ^ (?m + 1 - d)" using d(4) by simp
        have mx: "size_for_depth b1 e = 2 ^ (?m + 1 - e)" if "1 \<le> e" "e \<le> ?n" for e
          using size_for_depth_power [OF b1(1)] that b1(2) arena_order_le [OF ok] by simp
        have i2: "1 \<le> bit_len i" "bit_len i \<le> ?n" using node_arena [OF ok node] node_bit_len [OF node] by simp_all
        show ?thesis unfolding sl s block_size_def using mx [OF i2] mx [OF d(2,3)]
          by (cases "bit_len i > d") (auto simp: min_def)
      qed
      have addr: "address_for_position b1 (npos i) = buddy_main b + x"
        using address_npos [OF b1(1)] node b1 i(4) by simp
      have mem: "moved_bytes mem q (buddy_main b + x) (min s (2 ^ slot_log b r))
        (memmove mem q (address_for_position b1 (npos i))
          (size_for_depth b1 (if bit_len i > d then bit_len i else d)))" for q
        unfolding size addr by (rule memmove_moved)
      obtain y where y: "address_for_position b1 (npos j) = buddy_main b + y"
        "y + 2 ^ slot_log b r \<le> memory_size b"
        "live (b1\<lparr>tree_of := buddy_tree_mark t1 (npos j)\<rparr>) =
          insert (y, 2 ^ slot_log b r) (live b - {(x, s)})"
        "(y, 2 ^ slot_log b r) \<notin> live b - {(x, s)}"
        using take(2) rel(4) i(4) s unfolding block_taken_def b1 by auto
      have same: "same_arena b (b1\<lparr>tree_of := buddy_tree_mark t1 (npos j)\<rparr>)"
        by (simp add: b1_def)
      show ?thesis
        unfolding unfold Let_def j(1) using v1 nj False take(1) y same mem
        by (simp add: realloc_outcome_def)
    qed
  qed
qed

end
