(* ===== verification/Buddy_Init.thy ===== *)
theory Buddy_Init
  imports Buddy_Realloc
begin

text \<open>
  An initialised tree is empty; masking the virtual slots of an arena whose size is not a power of
  two uses exactly the slots behind the end of the arena; an initialised arena satisfies the
  invariant and has no live block.
\<close>

section \<open>The empty tree\<close>

lemma buddy_tree_init_wf:
  assumes "0 < n" "n \<le> max_order"
  shows "tree_wf n (buddy_tree_init mem n)"
    and "\<And>i. node n i \<Longrightarrow> statuses n (buddy_tree_init mem n) i = 0"
proof -
  let ?t = "buddy_tree_init mem n"
  define size where "size = buddy_tree_sizeof n - sizeof_struct_buddy_tree"
  have bits: "tree_bits ?t = replicate size 0 @ drop size mem"
    by (simp add: buddy_tree_init_def buddy_tree_populate_size_for_order_def size_def Let_def)
  have "bitset_sizeof (size_for_order n 0) \<le> size"
    by (simp add: size_def buddy_tree_sizeof_def padded_bitset_size_def Let_def)
  then have "8 * bitset_sizeof (size_for_order n 0) \<le> 8 * size" by simp
  then have room: "size_for_order n 0 \<le> 8 * size"
    using bitset_sizeof_covers [of "size_for_order n 0"] by linarith
  have zero: "\<not> bit_at (tree_bits ?t) i" if "i < 8 * size" for i
    using div_8_less [OF that] by (simp add: bit_at_def bits nth_append)
  have un: "unary (tree_bits ?t) (loc n i) (cap n i) 0" if "node n i" for i
    using loc_total [OF that] room zero assms(2) by (auto simp: unary_def max_order_def size_for_order_row_bits)
  have len: "size_for_order n 0 \<le> 8 * length (tree_bits ?t)" using room by (simp add: bits)
  have fields: "tree_order ?t = n" "upper_pos_bound ?t = 2 ^ n"
    "size_for_order_table ?t = map (size_for_order n) [0..<n + 1]"
    using assms by (simp_all add: buddy_tree_init_def buddy_tree_populate_size_for_order_def
        max_order_def Let_def del: upt_Suc)
  show wf: "tree_wf n ?t"
    unfolding tree_wf_def using assms fields len un by blast
  show "\<And>i. node n i \<Longrightarrow> statuses n ?t i = 0"
    using status_unique [OF wf _ un] by (simp add: statuses_node)
qed

lemma statuses_no_node: "\<not> node n i \<Longrightarrow> statuses n t i = 0"
  by (simp add: counters.view_def)

lemma buddy_tree_init_inv:
  assumes "0 < n" "n \<le> max_order"
  shows "tree_inv n (buddy_tree_init mem n)" "in_use n (buddy_tree_init mem n) = {}"
proof -
  have zero: "statuses n (buddy_tree_init mem n) = (\<lambda>i. 0)"
    using buddy_tree_init_wf(2) [OF assms] statuses_no_node by (metis (no_types))
  show "tree_inv n (buddy_tree_init mem n)"
    using buddy_tree_init_wf(1) [OF assms]
    by (simp add: tree_inv_def zero tree_ok_def bounded_def node_ok_def)
  show "in_use n (buddy_tree_init mem n) = {}"
    using cap_pos by (auto simp: in_use_def allocated_def full_def zero)
qed

section \<open>Masking the virtual slots\<close>

lemma block_children:
  assumes "0 < i" "bit_len i \<le> m"
  shows "block_size m (2 * i) = block_size m i div 2" "block_start m (2 * i) = block_start m i"
    "block_size m (Suc (2 * i)) = block_size m i div 2"
    "block_start m (Suc (2 * i)) = block_start m i + block_size m i div 2"
    "2 * (block_size m i div 2) = block_size m i"
proof -
  obtain e where e: "m + 1 - bit_len i = Suc e" using assms(2) by (metis Suc_diff_le add.commute plus_1_eq_Suc)
  have sz: "block_size m i = 2 * 2 ^ e" using e by (simp add: block_size_def)
  have c: "block_size m (2 * i) = 2 ^ e" "block_size m (Suc (2 * i)) = 2 ^ e"
    using e assms(1) by (simp_all add: block_size_def)
  then show "block_size m (2 * i) = block_size m i div 2"
    "block_size m (Suc (2 * i)) = block_size m i div 2"
    "2 * (block_size m i div 2) = block_size m i" using sz by simp_all
  have "2 ^ m + block_start m (2 * i) = 2 * i * 2 ^ e"
    "2 ^ m + block_start m (Suc (2 * i)) = Suc (2 * i) * 2 ^ e"
    "2 ^ m + block_start m i = i * (2 * 2 ^ e)"
    using block_start_plus [of "2 * i" m] block_start_plus [of "Suc (2 * i)" m] block_start_plus [of i m]
      assms c sz by simp_all
  then show "block_start m (2 * i) = block_start m i"
    "block_start m (Suc (2 * i)) = block_start m i + block_size m i div 2"
    using sz by (simp_all add: algebra_simps)
qed

lemma available_children:
  assumes "tree_inv n t" "available n t i" "inner n i"
  shows "available n t (2 * i)" "available n t (Suc (2 * i))"
proof -
  have i: "0 < i" using assms(3) by (simp add: inner_def)
  note z = zero_children [of n "statuses n t" i]
  have c: "statuses n t (2 * i) = 0" "statuses n t (Suc (2 * i)) = 0"
    using z assms by (auto simp: tree_inv_def available_def afree_def)
  have "\<not> full n (statuses n t) (2 * i)" "\<not> full n (statuses n t) (Suc (2 * i))"
    using c cap_pos inner_children [OF assms(3)] by (fastforce simp: full_def)+
  then show "available n t (2 * i)" "available n t (Suc (2 * i))"
    using assms(2) c inner_children [OF assms(3)] i
      ancestor_iff [of "2 * i"] ancestor_iff [of "Suc (2 * i)"]
    by (auto simp: available_def afree_def)
qed

lemma mark_tree:
  assumes "tree_inv n t" "available n t i"
  shows "tree_inv n (buddy_tree_mark t (npos i))"
    "in_use n (buddy_tree_mark t (npos i)) = insert i (in_use n t)"
  using buddy_tree_mark_refines [of n t i] amark_ok [of n "statuses n t" i] assms
  by (simp_all add: tree_inv_def in_use_def available_def afree_def)

lemma available_iff:
  "tree_inv n t \<Longrightarrow> node n i \<Longrightarrow>
    available n t i \<longleftrightarrow> (\<forall>d \<in> in_use n t. \<not> ancestor d i \<and> \<not> ancestor i d)"
  by (simp add: available_def in_use_def tree_inv_def afree_iff)

lemma left_available:
  assumes "tree_inv n t" "available n t i" "inner n i"
  shows "available n (buddy_tree_mark t (npos (Suc (2 * i)))) (2 * i)"
proof -
  note ch = available_children [OF assms]
  have i: "0 < i" using assms(3) by (simp add: inner_def)
  have "\<not> ancestor (Suc (2 * i)) (2 * i)" using ancestor_le by fastforce
  moreover have "\<not> ancestor (2 * i) (Suc (2 * i))"
    using ancestor_iff [of "Suc (2 * i)" "2 * i"] ancestor_le [of "2 * i" i] i by auto
  ultimately show ?thesis
    using available_iff [OF assms(1)] available_iff [OF mark_tree(1) [OF assms(1) ch(2)]]
      inner_children(1) [OF assms(3)] ch(1) mark_tree(2) [OF assms(1) ch(2)] by auto
qed

lemma toggle_virtual_loop_spec:
  assumes ok: "sizes_ok b" "tree_inv (arena_order b) t" "available (arena_order b) t i"
    and delta: "0 < delta" "alignment b dvd delta" "delta \<le> block_size (arena_log b) i"
    and ending: "block_start (arena_log b) i + block_size (arena_log b) i = e"
  shows "\<exists>t' V. toggle_virtual_loop b True t delta (npos i) = Some t' \<and> tree_inv (arena_order b) t'
    \<and> in_use (arena_order b) t' = in_use (arena_order b) t \<union> V
    \<and> (\<Union>v \<in> V. block (arena_log b) v) = {e - delta..<e}"
  using ok(2,3) delta ending
proof (induction "arena_order b - bit_len i" arbitrary: t i delta e rule: less_induct)
  case less
  let ?n = "arena_order b" and ?m = "arena_log b"
  let ?sz = "block_size ?m i"
  have node: "node ?n i" using less.prems(2) by (simp add: available_def afree_def)
  note ni = node_arena [OF ok(1) node]
  have size: "size_for_depth b (bit_len i) = ?sz"
    using size_for_depth_power [OF ok(1) ni(3,2)] by (simp add: block_size_def)
  have step: "toggle_virtual_loop b True t delta (npos i) =
    (if delta = ?sz then Some (buddy_tree_mark t (npos i))
     else if delta \<le> ?sz div 2 then toggle_virtual_loop b True t delta (npos (Suc (2 * i)))
     else toggle_virtual_loop b True (buddy_tree_mark t (npos (Suc (2 * i)))) (delta - ?sz div 2) (npos (2 * i)))"
    using less.prems(3) by (subst toggle_virtual_loop.simps)
      (simp add: size left_child_npos [OF ni(1)] right_child_npos toggle_position_def Let_def)
  show ?case
  proof (cases "delta = ?sz")
    case True
    then show ?thesis
      using step mark_tree [OF less.prems(1,2)] less.prems(6)
      by (intro exI [of _ "buddy_tree_mark t (npos i)"] exI [of _ "{i}"]) (auto simp: block_def)
  next
    case False
    have inn: "inner ?n i"
    proof (rule ccontr)
      assume "\<not> inner ?n i"
      then have "bit_len i = ?n" using ni(1) node_bit_len [OF node] by (simp add: inner_def)
      then have "?sz = alignment b"
        using ok(1) align_le [OF ok(1)] by (simp add: block_size_def arena_order_def sizes_ok_def)
      with less.prems(3,4,5) False show False by (auto dest: dvd_imp_le)
    qed
    then have lm: "bit_len i \<le> ?m" using arena_order_le [OF ok(1)] by (simp add: inner_def)
    note bc = block_children [OF ni(1) lm]
    have deeper: "?n - bit_len (2 * i) < ?n - bit_len i" "?n - bit_len (Suc (2 * i)) < ?n - bit_len i"
      using inn ni(1) by (simp_all add: inner_def)
    note ch = available_children [OF less.prems(1,2) inn]
    show ?thesis
    proof (cases "delta \<le> ?sz div 2")
      case small: True
      from less.hyps [OF deeper(2) less.prems(1) ch(2) less.prems(3,4), of e] small bc less.prems(6)
      show ?thesis using step False by simp
    next
      case big: False
      let ?t = "buddy_tree_mark t (npos (Suc (2 * i)))" and ?d = "delta - ?sz div 2"
      have "alignment b dvd ?sz div 2"
        using node_block_aligned(1) [OF ok(1) inner_children(1) [OF inn]] bc(1) by simp
      then have "alignment b dvd ?d" using less.prems(4) by (simp add: dvd_diff_nat)
      moreover have "0 < ?d" "?d \<le> block_size ?m (2 * i)" using big bc(1,5) less.prems(5) by linarith+
      ultimately obtain t' V where IH: "toggle_virtual_loop b True ?t ?d (npos (2 * i)) = Some t'"
        "tree_inv ?n t'" "in_use ?n t' = in_use ?n ?t \<union> V"
        "(\<Union>v \<in> V. block ?m v) = {block_start ?m i + ?sz div 2 - ?d..<block_start ?m i + ?sz div 2}"
        using less.hyps [OF deeper(1) mark_tree(1) [OF less.prems(1) ch(2)]
            left_available [OF less.prems(1,2) inn], of ?d "block_start ?m i + ?sz div 2"] bc(1,2)
        by auto
      have "block ?m (Suc (2 * i)) = {block_start ?m i + ?sz div 2..<e}"
        using bc less.prems(6) by (auto simp: block_def)
      moreover have "block_start ?m i + ?sz div 2 - ?d = e - delta"
        using bc(5) less.prems(5,6) big by linarith
      ultimately have "(\<Union>v \<in> insert (Suc (2 * i)) V. block ?m v) = {e - delta..<e}"
        using IH(4) less.prems(3,5,6) bc(5) big by auto
      then show ?thesis
        using step False big IH(1-3) mark_tree(2) [OF less.prems(1) ch(2)]
        by (intro exI [of _ t'] exI [of _ "insert (Suc (2 * i)) V"]) simp
    qed
  qed
qed

section \<open>Initialising an arena\<close>

text \<open>The arguments of a successful initialisation; \<open>a\<close> is the logarithm of the alignment.\<close>

definition init_args :: "addr \<Rightarrow> addr \<Rightarrow> size_t \<Rightarrow> nat \<Rightarrow> bool" where
  "init_args at main mem_size a \<longleftrightarrow> at \<noteq> NULL \<and> main \<noteq> NULL \<and> at \<noteq> main
     \<and> at mod 8 = 0 \<and> main mod 8 = 0 \<and> a \<le> 63 \<and> 2 ^ a \<le> mem_size \<and> mem_size \<le> 2 ^ 63
     \<and> mem_size < 2 ^ (a + max_order - 1)"

lemma order_for_memory:
  assumes "sizes_ok b" "arena_order b \<le> max_order"
  shows "buddy_tree_order_for_memory (memory_size b) (alignment b) = arena_order b"
proof -
  let ?a = "align_log b" and ?m = "arena_log b"
  note e = effective_size [OF assms(1)]
  have al: "alignment b = 2 ^ ?a" using assms(1) by (simp add: sizes_ok_def)
  have am: "?a \<le> ?m" by (rule align_le [OF assms(1)])
  obtain c where c: "memory_size b = 2 ^ ?a * c" using assms(1) al by (auto simp: sizes_ok_def)
  have mm: "(2::nat) ^ ?m = 2 ^ ?a * 2 ^ (?m - ?a)" using am by (simp flip: power_add)
  have "2 ^ ?a * c \<le> 2 ^ ?a * 2 ^ (?m - ?a)" using e(3) by (simp only: c mm)
  then have c1: "c \<le> 2 ^ (?m - ?a)" by (simp only: nat_mult_le_cancel_disj) simp
  have "2 ^ ?a * 2 ^ (?m - ?a) < 2 ^ ?a * (2 * c)" using e(4) by (simp only: c mm mult.left_commute)
  then have c2: "2 ^ (?m - ?a) < 2 * c" by (simp only: nat_mult_less_cancel_disj)
  have small: "?m - ?a \<le> 63" using e(2) by simp
  have "(2::nat) ^ (?m - ?a) \<le> 2 ^ 63" using small by (intro power_increasing) simp_all
  then have c3: "c \<le> 2 ^ 63" "0 < c" using c1 c2 by linarith+
  have "ceiling_power_of_two c = 2 ^ (?m - ?a)"
    by (rule ceiling_power_of_two_eqI [OF c3(2,1) c1 c2])
  moreover have "(2::nat) ^ (?m - ?a) < 2 ^ 64" using small by (simp only: power_two_less_iff)
  ultimately show ?thesis
    by (simp add: buddy_tree_order_for_memory_def c al highest_bit_position_bit_len arena_order_def)
qed

lemma arena_order_bound:
  assumes "sizes_ok b" "memory_size b < 2 ^ (align_log b + max_order - 1)"
  shows "0 < arena_order b" "arena_order b \<le> max_order"
proof -
  show "0 < arena_order b" by (simp add: arena_order_def)
  have "(2::nat) ^ arena_log b < 2 ^ Suc (align_log b + max_order - 1)"
    using effective_size(4) [OF assms(1)] assms(2) by simp
  then have "arena_log b < Suc (align_log b + max_order - 1)" by (simp only: power_two_less_iff)
  then show "arena_order b \<le> max_order" by (simp add: arena_order_def max_order_def)
qed

lemma toggle_virtual_slots_spec:
  assumes ok: "sizes_ok b" "tree_inv (arena_order b) (tree_of b)" and empty: "used_nodes b = {}"
  shows "\<exists>t. buddy_toggle_virtual_slots b True = Some (b\<lparr>tree_of := t\<rparr>)
    \<and> arena_inv (b\<lparr>tree_of := t\<rparr>) \<and> live (b\<lparr>tree_of := t\<rparr>) = {}"
proof -
  let ?n = "arena_order b" and ?m = "arena_log b" and ?ms = "memory_size b"
  note e = effective_size [OF ok(1)]
  have wrap: "\<exists>t. buddy_toggle_virtual_slots b True = Some (b\<lparr>tree_of := t\<rparr>)
      \<and> arena_inv (b\<lparr>tree_of := t\<rparr>) \<and> live (b\<lparr>tree_of := t\<rparr>) = {}"
    if t: "buddy_toggle_virtual_slots b True = Some (b\<lparr>tree_of := t\<rparr>)" "tree_inv ?n t"
      "(\<Union>v \<in> in_use ?n t. block ?m v) = {?ms..<2 ^ ?m}" for t
  proof (intro exI conjI)
    show "arena_inv (b\<lparr>tree_of := t\<rparr>)"
      using t(2,3) ok(1) unfolding arena_inv_def retree_simps by (auto simp: set_eq_iff)
    have "\<not> block ?m v \<subseteq> {..<?ms}" if "v \<in> in_use ?n t" for v
    proof
      assume "block ?m v \<subseteq> {..<?ms}"
      then have "block_start ?m v < ?ms" using block_nonempty by blast
      moreover have "block_start ?m v \<in> {?ms..<2 ^ ?m}" using t(3) that block_nonempty by blast
      ultimately show False by simp
    qed
    then show "live (b\<lparr>tree_of := t\<rparr>) = {}" by (auto simp: live_def)
  qed (rule t(1))
  show ?thesis
  proof (cases "2 ^ ?m = ?ms")
    case True
    then have "buddy_toggle_virtual_slots b True = Some (b\<lparr>tree_of := tree_of b\<rparr>)"
      using e(1) by (simp add: buddy_toggle_virtual_slots_def)
    moreover have "in_use ?n (tree_of b) = {}" using empty by (simp add: used_nodes_def)
    ultimately show ?thesis using ok(2) True by (intro wrap) auto
  next
    case False
    let ?d = "2 ^ ?m - ?ms"
    have "alignment b dvd 2 ^ ?m"
      using ok(1) align_le [OF ok(1)] by (simp add: sizes_ok_def le_imp_power_dvd)
    then have d: "0 < ?d" "alignment b dvd ?d"
      using False e(3) ok(1) by (auto simp: sizes_ok_def)
    have "?m \<noteq> align_log b"
    proof
      assume "?m = align_log b"
      then have "alignment b = 2 ^ ?m" using ok(1) by (simp add: sizes_ok_def)
      then have "2 ^ ?m \<le> ?ms" using ok(1) by (auto simp: sizes_ok_def dest: dvd_imp_le)
      with e(3) False show False by simp
    qed
    then have inn: "inner ?n 1" using align_le [OF ok(1)] by (simp add: inner_def arena_order_def)
    then have m1: "1 \<le> ?m" using arena_order_le [OF ok(1)] by (simp add: inner_def)
    have "available ?n (tree_of b) 1"
      using available_iff [OF ok(2) inner_node [OF inn]] empty by (simp add: used_nodes_def)
    from available_children(2) [OF ok(2) this inn]
    have av: "available ?n (tree_of b) 3" by (simp add: eval_nat_numeral)
    have three: "block_start ?m 3 = 2 ^ ?m div 2" "block_size ?m 3 = 2 ^ ?m div 2"
      using block_children(3,4) [of 1 ?m] m1
      by (simp_all add: block_start_def block_size_def eval_nat_numeral)
    have half: "2 * (2 ^ ?m div 2) = (2 ^ ?m :: nat)" using m1 by (cases ?m) simp_all
    have root: "buddy_tree_right_child buddy_tree_root = npos 3"
      using right_child_npos [of 1] by (simp add: root_npos eval_nat_numeral)
    have "?d \<le> block_size ?m 3" using e(4) half three(2) by linarith
    from toggle_virtual_loop_spec [OF ok av d this, of "2 ^ ?m"] three half
    obtain t V where t: "toggle_virtual_loop b True (tree_of b) ?d (npos 3) = Some t" "tree_inv ?n t"
      "in_use ?n t = in_use ?n (tree_of b) \<union> V" "(\<Union>v \<in> V. block ?m v) = {2 ^ ?m - ?d..<2 ^ ?m}"
      by auto
    have "buddy_toggle_virtual_slots b True = Some (b\<lparr>tree_of := t\<rparr>)"
      using False e(1) t(1) by (simp add: buddy_toggle_virtual_slots_def root)
    moreover have "in_use ?n t = V" using t(3) empty by (simp add: used_nodes_def)
    ultimately show ?thesis using t(2,4) e(3) by (intro wrap) auto
  qed
qed

lemma init_arena:
  assumes args: "init_args at main mem_size a"
  shows "\<exists>b. buddy_init_alignment tree_mem at main mem_size (2 ^ a) = Some (Some b)
    \<and> arena_inv b \<and> live b = {} \<and> buddy_main b = main \<and> buddy_flags b = 0 \<and> buddy_at b = at
    \<and> memory_size b = mem_size - mem_size mod 2 ^ a \<and> alignment b = 2 ^ a"
proof -
  let ?al = "2 ^ a :: nat" and ?ms = "mem_size - mem_size mod 2 ^ a"
  have trim: "(if mem_size mod ?al \<noteq> 0 then mem_size - mem_size mod ?al else mem_size) = ?ms" by simp
  have al: "is_valid_alignment ?al" using args by (simp add: is_valid_alignment_def init_args_def)
  have dv: "?al dvd ?ms" by (simp add: dvd_minus_mod)
  have le: "?al \<le> ?ms"
  proof -
    have "1 \<le> mem_size div ?al" using args by (simp add: init_args_def div_greater_zero_iff Suc_le_eq)
    then have "?al * 1 \<le> ?al * (mem_size div ?al)" by (rule mult_le_mono2)
    then show ?thesis by (simp only: minus_mod_eq_mult_div mult_1_right)
  qed
  define b0 where "b0 = \<lparr>memory_size = ?ms, alignment = ?al, arena = main, buddy_flags = 0,
      buddy_at = at, tree_of = buddy_tree_init tree_mem
        (buddy_tree_order_for_memory ?ms ?al mod 256)\<rparr>"
  have main: "buddy_main b0 = main" by (simp add: b0_def buddy_main_def buddy_relative_mode_def)
  have alog: "align_log b0 = a" by (simp add: align_log_def b0_def)
  have fields: "memory_size b0 = ?ms" "alignment b0 = ?al" by (simp_all add: b0_def)
  have "0 < ?ms" using le by (rule less_le_trans [rotated]) simp
  moreover have "?ms \<le> 2 ^ 63"
    by (rule le_trans [OF diff_le_self]) (use args in \<open>simp only: init_args_def\<close>)
  ultimately have ok: "sizes_ok b0"
    unfolding sizes_ok_def fields main alog using args dv by (simp only: init_args_def simp_thms)
  have "memory_size b0 < 2 ^ (align_log b0 + max_order - 1)"
    using args alog by (simp add: init_args_def b0_def less_imp_diff_less)
  note n = arena_order_bound [OF ok this]
  have ord: "buddy_tree_order_for_memory ?ms ?al = arena_order b0"
    using order_for_memory [OF ok n(2)] by (simp add: b0_def)
  then have tree: "tree_of b0 = buddy_tree_init tree_mem (arena_order b0)"
    using n(2) by (simp add: b0_def max_order_def)
  have inv: "tree_inv (arena_order b0) (tree_of b0)" "used_nodes b0 = {}"
    unfolding tree used_nodes_def using buddy_tree_init_inv [OF n] by simp_all
  have sz: "buddy_sizeof_alignment ?ms ?al \<noteq> 0"
    using al le by (simp add: buddy_sizeof_alignment_def sizeof_struct_buddy_def)
  have "buddy_init_alignment tree_mem at main mem_size ?al =
      map_option Some (buddy_toggle_virtual_slots b0 True)"
    unfolding buddy_init_alignment_def trim Let_def
    using args al sz by (simp add: init_args_def size_simps flip: b0_def)
  moreover obtain t where "buddy_toggle_virtual_slots b0 True = Some (b0\<lparr>tree_of := t\<rparr>)"
    "arena_inv (b0\<lparr>tree_of := t\<rparr>)" "live (b0\<lparr>tree_of := t\<rparr>) = {}"
    using toggle_virtual_slots_spec [OF ok inv] by blast
  ultimately show ?thesis
    by (intro exI [of _ "b0\<lparr>tree_of := t\<rparr>"])
      (simp add: b0_def buddy_main_def buddy_relative_mode_def)
qed

text \<open>
  An embedded arena ends where its own metadata starts; the flag switches its address to be
  relative to the metadata.
\<close>

lemma embed_arena:
  assumes fit: "can_fit (buddy_embed_offset mem_size (2 ^ a))"
    and args: "init_args (main + embed_offset (buddy_embed_offset mem_size (2 ^ a))) main
      (embed_offset (buddy_embed_offset mem_size (2 ^ a))) a"
  shows "\<exists>b. buddy_embed_alignment tree_mem main mem_size (2 ^ a) = Some (Some b)
    \<and> arena_inv b \<and> live b = {} \<and> buddy_main b = main \<and> alignment b = 2 ^ a
    \<and> buddy_at b = main + embed_offset (buddy_embed_offset mem_size (2 ^ a))"
proof -
  let ?o = "embed_offset (buddy_embed_offset mem_size (2 ^ a))"
  obtain b where b: "buddy_init_alignment tree_mem (main + ?o) main ?o (2 ^ a) = Some (Some b)"
    "arena_inv b" "live b = {}" "buddy_main b = main" "buddy_flags b = 0" "buddy_at b = main + ?o"
    "alignment b = 2 ^ a"
    using init_arena [OF args] by blast
  let ?b = "b\<lparr>buddy_flags := buddy_flags b OR BUDDY_RELATIVE_MODE, arena := buddy_at b - main\<rparr>"
  have al: "is_valid_alignment (2 ^ a)" "main \<noteq> NULL"
    using args by (simp_all add: is_valid_alignment_def init_args_def)
  have main: "buddy_main ?b = main"
    using b(5,6) by (simp add: buddy_main_def buddy_relative_mode_def BUDDY_RELATIVE_MODE_def)
  have logs: "arena_log ?b = arena_log b" "align_log ?b = align_log b"
    by (simp_all add: arena_log_def align_log_def buddy_effective_memory_size_def)
  then have order: "arena_order ?b = arena_order b" by (simp add: arena_order_def)
  then have used: "used_nodes ?b = used_nodes b" by (simp add: used_nodes_def)
  have same: "alignment ?b = alignment b" "memory_size ?b = memory_size b" by simp_all
  have "sizes_ok ?b"
    using arena_invD(1) [OF b(2)] unfolding sizes_ok_def logs main same b(4) .
  then have "arena_inv ?b" using b(2) unfolding arena_inv_def logs order used by simp
  moreover have "live ?b = {}" using b(3) unfolding live_def logs used by simp
  ultimately show ?thesis
    using b(1,6,7) al fit main by (intro exI [of _ ?b]) (simp add: buddy_embed_alignment_def Let_def)
qed

end
