(* ===== verification/Buddy_Interface.thy ===== *)
theory Buddy_Interface
  imports Buddy_Init
begin

text \<open>
  The contract between an allocator and its clients: a handed out block meets no other, stays
  handed out until it is given back, and giving back an address frees exactly the block that
  starts there. What a client may conclude about a whole sequence of requests is proved once from
  the contract, and the arena of \<open>buddy_alloc.h\<close> is shown to provide it.
\<close>

section \<open>Sequences of requests\<close>

datatype request = Take nat | Give nat

text \<open>The final state and the addresses returned, in order, by the \<open>Take\<close> requests.\<close>

fun run_requests ::
    "('s \<Rightarrow> nat \<Rightarrow> nat \<times> 's) \<Rightarrow> ('s \<Rightarrow> nat \<Rightarrow> 's) \<Rightarrow> 's \<Rightarrow> request list \<Rightarrow> 's \<times> nat list" where
  "run_requests tk gv s [] = (s, [])"
| "run_requests tk gv s (Take r # rs) =
     (let (p, s1) = tk s r; (s2, ps) = run_requests tk gv s1 rs in (s2, p # ps))"
| "run_requests tk gv s (Give p # rs) = run_requests tk gv (gv s p) rs"

text \<open>What a client that keeps its own books holds: start addresses with the size requested.\<close>

fun ledger :: "request list \<Rightarrow> nat list \<Rightarrow> (nat \<times> nat) set \<Rightarrow> (nat \<times> nat) set" where
  "ledger [] ps h = h"
| "ledger (Take r # rs) (p # ps) h = ledger rs ps (if p = 0 then h else insert (p, r) h)"
| "ledger (Take r # rs) [] h = h"
| "ledger (Give p # rs) ps h = ledger rs ps {q \<in> h. fst q \<noteq> p}"

locale slot_allocator =
  fixes inv :: "'s \<Rightarrow> bool" and blocks :: "'s \<Rightarrow> (nat \<times> nat) set"
    and tk :: "'s \<Rightarrow> nat \<Rightarrow> nat \<times> 's" and gv :: "'s \<Rightarrow> nat \<Rightarrow> 's"
  assumes disjoint: "inv s \<Longrightarrow> p \<in> blocks s \<Longrightarrow> q \<in> blocks s \<Longrightarrow> p \<noteq> q \<Longrightarrow> extent p \<inter> extent q = {}"
    and nonempty: "inv s \<Longrightarrow> p \<in> blocks s \<Longrightarrow> 0 < snd p"
    and tk_inv: "inv s \<Longrightarrow> inv (snd (tk s r))"
    and tk_none: "inv s \<Longrightarrow> fst (tk s r) = 0 \<Longrightarrow> blocks (snd (tk s r)) = blocks s"
    and tk_some: "inv s \<Longrightarrow> fst (tk s r) \<noteq> 0 \<Longrightarrow>
      \<exists>n \<ge> max 1 r. blocks (snd (tk s r)) = insert (fst (tk s r), n) (blocks s) \<and> (fst (tk s r), n) \<notin> blocks s"
    and gv_inv: "inv s \<Longrightarrow> inv (gv s x)"
    and gv_blocks: "inv s \<Longrightarrow> blocks (gv s x) = {q \<in> blocks s. fst q \<noteq> x}"
begin

text \<open>Every entry of the books is covered by a block, and different entries by different blocks.\<close>

definition backed :: "'s \<Rightarrow> (nat \<times> nat) set \<Rightarrow> bool" where
  "backed s h \<longleftrightarrow> inj_on fst h \<and> (\<forall>(p, r) \<in> h. \<exists>n \<ge> max 1 r. (p, n) \<in> blocks s)"

lemma start_unique: "inv s \<Longrightarrow> (p, m) \<in> blocks s \<Longrightarrow> (p, n) \<in> blocks s \<Longrightarrow> m = n"
proof (rule ccontr)
  assume *: "inv s" "(p, m) \<in> blocks s" "(p, n) \<in> blocks s" "m \<noteq> n"
  then have "extent (p, m) \<inter> extent (p, n) = {}" using disjoint by blast
  moreover have "p \<in> extent (p, m)" "p \<in> extent (p, n)"
    using * nonempty by (fastforce simp: extent_def)+
  ultimately show False by blast
qed

lemma tk_fresh: "inv s \<Longrightarrow> fst (tk s r) \<noteq> 0 \<Longrightarrow> (fst (tk s r), m) \<notin> blocks s"
proof
  assume s: "inv s" "fst (tk s r) \<noteq> 0" and m: "(fst (tk s r), m) \<in> blocks s"
  obtain n where n: "blocks (snd (tk s r)) = insert (fst (tk s r), n) (blocks s)"
    "(fst (tk s r), n) \<notin> blocks s" using tk_some [OF s] by blast
  then have "m = n" using start_unique [OF tk_inv [OF s(1)]] m by blast
  with n(2) m show False by simp
qed

lemma backed_take:
  assumes "inv s" "backed s h" "fst (tk s r) \<noteq> 0"
  shows "backed (snd (tk s r)) (insert (fst (tk s r), r) h)"
proof -
  obtain n where n: "n \<ge> max 1 r" "blocks (snd (tk s r)) = insert (fst (tk s r), n) (blocks s)"
    using tk_some [OF assms(1,3)] by blast
  have "fst (tk s r) \<notin> fst ` h"
    using assms(2) tk_fresh [OF assms(1,3)] by (fastforce simp: backed_def)
  with assms(2) n show ?thesis by (auto simp: backed_def)
qed

lemma backed_give: "inv s \<Longrightarrow> backed s h \<Longrightarrow> backed (gv s p) {q \<in> h. fst q \<noteq> p}"
  unfolding backed_def by (fastforce simp: gv_blocks intro: inj_on_subset)

lemma run_backed:
  "inv s \<Longrightarrow> backed s h \<Longrightarrow> run_requests tk gv s rs = (s', ps) \<Longrightarrow> inv s' \<and> backed s' (ledger rs ps h)"
proof (induction rs arbitrary: s h ps)
  case Nil
  then show ?case by simp
next
  case (Cons q rs)
  show ?case
  proof (cases q)
    case (Take r)
    obtain s2 ps' where run: "run_requests tk gv (snd (tk s r)) rs = (s2, ps')" by fastforce
    have eq: "s' = s2" "ps = fst (tk s r) # ps'"
      using Cons.prems(3) run by (auto simp: Take split: prod.splits)
    have "backed (snd (tk s r)) (if fst (tk s r) = 0 then h else insert (fst (tk s r), r) h)"
      using Cons.prems(1,2) backed_take tk_none by (simp add: backed_def)
    from Cons.IH [OF tk_inv [OF Cons.prems(1)] this run [folded eq(1)]]
    show ?thesis by (simp add: Take eq(2))
  next
    case (Give p)
    then show ?thesis
      using Cons.IH [OF gv_inv [OF Cons.prems(1)] backed_give [OF Cons.prems(1,2)]] Cons.prems(3) by simp
  qed
qed

lemma backed_block: "backed s h \<Longrightarrow> p \<in> h \<Longrightarrow> \<exists>n. snd p \<le> n \<and> (fst p, n) \<in> blocks s"
  unfolding backed_def by (cases p) fastforce

lemma backed_disjoint:
  assumes "inv s" "backed s h" "p \<in> h" "q \<in> h" "p \<noteq> q"
  shows "extent p \<inter> extent q = {}"
proof -
  obtain m n where mn: "snd p \<le> m" "(fst p, m) \<in> blocks s" "snd q \<le> n" "(fst q, n) \<in> blocks s"
    using backed_block [OF assms(2,3)] backed_block [OF assms(2,4)] by blast
  have "fst p \<noteq> fst q" using assms by (auto simp: backed_def inj_on_def)
  then have "extent (fst p, m) \<inter> extent (fst q, n) = {}" using disjoint [OF assms(1) mn(2,4)] by simp
  moreover have "extent p \<subseteq> extent (fst p, m)" "extent q \<subseteq> extent (fst q, n)"
    using mn(1,3) by (auto simp: extent_def)
  ultimately show ?thesis by blast
qed

lemma run_disjoint:
  assumes "inv s" "blocks s = {}" "run_requests tk gv s rs = (s', ps)"
    "p \<in> ledger rs ps {}" "q \<in> ledger rs ps {}" "p \<noteq> q"
  shows "extent p \<inter> extent q = {}"
proof -
  have "inv s' \<and> backed s' (ledger rs ps {})"
    by (rule run_backed [OF assms(1) _ assms(3)]) (simp add: backed_def)
  with backed_disjoint assms(4-6) show ?thesis by blast
qed

end

section \<open>The arena provides the contract\<close>

definition block_addresses :: "buddy \<Rightarrow> (nat \<times> nat) set" where
  "block_addresses b = (\<lambda>(x, s). (buddy_main b + x, s)) ` live b"

lemma slot_covers:
  assumes "sizes_ok b" "r \<le> memory_size b"
  shows "r \<le> 2 ^ slot_log b r"
  using slot_log [OF assms] by simp

interpretation arena: slot_allocator arena_inv block_addresses malloc_arena free_arena
proof
  fix s :: buddy and r p :: nat
  assume inv: "arena_inv s"
  note m = malloc_arena_spec [OF inv, of r] and f = free_arena_spec [OF inv, of p]
  show "arena_inv (snd (malloc_arena s r))" using m inv by auto
  have "buddy_main s \<noteq> 0" using arena_invD(1) [OF inv] by (simp add: sizes_ok_def)
  then show "fst (malloc_arena s r) = 0 \<Longrightarrow> block_addresses (snd (malloc_arena s r)) = block_addresses s"
    using m by (auto simp: block_addresses_def)
  show "\<exists>n \<ge> max 1 r. block_addresses (snd (malloc_arena s r)) =
      insert (fst (malloc_arena s r), n) (block_addresses s)
      \<and> (fst (malloc_arena s r), n) \<notin> block_addresses s" if nz: "fst (malloc_arena s r) \<noteq> 0"
  proof -
    obtain q b' where b': "malloc_arena s r = (q, b')" "max 1 r \<le> memory_size s" "same_arena s b'"
      "block_taken s (max 1 r) q b'" using m nz by auto
    let ?n = "2 ^ slot_log s (max 1 r) :: nat"
    obtain x where x: "q = buddy_main s + x" "(x, ?n) \<notin> live s" "live b' = insert (x, ?n) (live s)"
      using b'(4) by (auto simp: block_taken_def)
    have "max 1 r \<le> ?n" by (rule slot_covers [OF arena_invD(1) [OF inv] b'(2)])
    then show ?thesis using b'(1) x same_arenaD(2) [OF b'(3)]
      by (intro exI [of _ ?n]) (auto simp: block_addresses_def)
  qed
  show "arena_inv (free_arena s p)" by (rule f(1))
  show "block_addresses (free_arena s p) = {q \<in> block_addresses s. fst q \<noteq> p}"
    using f(2,3) same_arenaD(2) [OF f(2)] by (auto simp: block_addresses_def starts_at_def)
  fix x y assume xy: "x \<in> block_addresses s"
  show "0 < snd x" using xy by (auto simp: block_addresses_def live_def block_size_def)
  assume "y \<in> block_addresses s" "x \<noteq> y"
  then obtain u v where uv: "u \<in> live s" "v \<in> live s" "u \<noteq> v"
    "x = (buddy_main s + fst u, snd u)" "y = (buddy_main s + fst v, snd v)"
    using xy by (fastforce simp: block_addresses_def)
  from live_disjoint [OF inv uv(1-3)] show "extent x \<inter> extent y = {}"
    by (auto simp: uv(4,5) extent_def)
qed

end
