(* ===== verification/Buddy_Properties.thy ===== *)
theory Buddy_Properties
  imports Buddy_Interface
begin

text \<open>
  The properties of the buddy allocator, with instances on a small arena.
\<close>

section \<open>A small arena\<close>

text \<open>192 bytes of managed memory at address 8192, in slots of 64 bytes, metadata at 4096.\<close>

definition small_arena :: buddy where
  "small_arena = the (the (buddy_init_alignment [] 4096 8192 192 64))"

lemma small_args: "init_args 4096 8192 192 6"
  by (simp add: init_args_def max_order_def)

lemma small_arena: "arena_inv small_arena" "live small_arena = {}" "buddy_main small_arena = 8192"
  "memory_size small_arena = 192" "alignment small_arena = 64"
  using init_arena [OF small_args, of "[]"] by (auto simp: small_arena_def)

text \<open>The same arena after one allocation; in it, exactly one block is live.\<close>

definition small_used :: buddy where
  "small_used = snd (malloc_arena small_arena 64)"

lemma slot_log_small: "memory_size b = 192 \<Longrightarrow> alignment b = 64 \<Longrightarrow> 0 < r \<Longrightarrow> r \<le> 64 \<Longrightarrow> slot_log b r = 6"
  using bit_len_power [of 6] ceiling_power_of_two_power [of 6] by (simp add: slot_log_def max_def)

lemma small_room: "room_for small_arena 6"
  unfolding room_for_def by (intro exI [of _ 0]) (simp add: small_arena)

lemma small_used: "arena_inv small_used" "same_arena small_arena small_used"
  "\<exists>x. live small_used = {(x, 64)} \<and> fst (malloc_arena small_arena 64) = 8192 + x \<and> x < 192"
proof -
  have "slot_log small_arena 64 = 6" by (rule slot_log_small) (simp_all add: small_arena)
  moreover from this have "\<not> malloc_fails small_arena (max 1 64)"
    using small_room by (simp add: malloc_fails_def small_arena)
  ultimately obtain p b' where b': "malloc_arena small_arena 64 = (p, b')" "arena_inv b'"
    "same_arena small_arena b'" "block_taken small_arena 64 p b'"
    using malloc_arena_spec [OF small_arena(1), of 64] by auto
  then show "arena_inv small_used" "same_arena small_arena small_used"
    by (simp_all add: small_used_def)
  from b'(4) show "\<exists>x. live small_used = {(x, 64)} \<and> fst (malloc_arena small_arena 64) = 8192 + x \<and> x < 192"
    using b'(1) \<open>slot_log small_arena 64 = 6\<close>
    by (auto simp: block_taken_def small_used_def small_arena)
qed

lemma small_used_fields: "memory_size small_used = 192" "alignment small_used = 64" "buddy_main small_used = 8192"
  using same_arenaD [OF small_used(2)] small_arena by simp_all

text \<open>There is room for one more slot.\<close>

lemma small_used_room: "\<not> malloc_fails small_used (max 1 64)"
proof -
  obtain x where x: "live small_used = {(x, 64)}" using small_used(3) by blast
  have "x mod 64 = 0" using live_in_arena(4) [OF small_used(1), of x 64] x by simp
  then have "x = 0 \<or> 64 \<le> x" by presburger
  then have "room_for small_used 6"
    unfolding room_for_def small_used_fields
    by (intro exI [of _ "if x = 0 then 64 else 0"]) (auto simp: extent_def x)
  moreover have "slot_log small_used 64 = 6" by (rule slot_log_small) (simp_all add: small_used_fields)
  ultimately show ?thesis by (simp add: malloc_fails_def small_used_fields)
qed

section \<open>Allocation\<close>

text \<open>
  C17: on a consistent arena, \<open>buddy_malloc\<close> either returns \<open>NULL\<close>, leaving the arena as it was, and
  then the request exceeds the arena or every aligned block of the rounded size meets a live one; or
  it returns a block that lies inside the arena, is aligned to its own size, is at least as large as
  the request but less than twice as large (or one slot), and meets no live block, and afterwards
  exactly this block is live in addition.
\<close>

theorem buddy_malloc_correct:
  assumes "arena_inv b"
  shows "(buddy_malloc (Some b) r = (NULL, Some b)
      \<and> (memory_size b < max 1 r \<or> \<not> room_for b (slot_log b (max 1 r))))
    \<or> (\<exists>x s b'. buddy_malloc (Some b) r = (buddy_main b + x, Some b') \<and> arena_inv b' \<and> same_arena b b'
        \<and> max 1 r \<le> s \<and> (s = alignment b \<or> s < 2 * max 1 r)
        \<and> x mod s = 0 \<and> x + s \<le> memory_size b
        \<and> (\<forall>q \<in> live b. extent q \<inter> extent (x, s) = {}) \<and> live b' = insert (x, s) (live b))"
proof -
  let ?r = "max 1 r"
  have *: "\<exists>x s b'. buddy_malloc (Some b) r = (buddy_main b + x, Some b') \<and> arena_inv b'
      \<and> same_arena b b' \<and> ?r \<le> s \<and> (s = alignment b \<or> s < 2 * ?r) \<and> x mod s = 0
      \<and> x + s \<le> memory_size b \<and> (\<forall>q \<in> live b. extent q \<inter> extent (x, s) = {})
      \<and> live b' = insert (x, s) (live b)"
    if m: "malloc_arena b r = (p, b')" "?r \<le> memory_size b" "arena_inv b'" "same_arena b b'"
      "block_taken b ?r p b'" for p b'
  proof -
    let ?s = "2 ^ slot_log b ?r :: nat"
    note ok = arena_invD(1) [OF assms]
    obtain x where x: "p = buddy_main b + x" "x + ?s \<le> memory_size b" "x mod ?s = 0"
      "(x, ?s) \<notin> live b" "live b' = insert (x, ?s) (live b)"
      using m(5) by (auto simp: block_taken_def)
    have "\<forall>q \<in> live b. extent q \<inter> extent (x, ?s) = {}"
      using live_disjoint [OF m(3)] x(4,5) by blast
    moreover have "?s = alignment b \<or> ?s < 2 * ?r" "?r \<le> ?s"
      using slot_log(4,5) [OF ok m(2)] ok by (auto simp: sizes_ok_def)
    ultimately show ?thesis
      using m x by (intro exI [of _ x] exI [of _ ?s] exI [of _ b']) (simp add: buddy_malloc_def)
  qed
  from malloc_arena_spec [OF assms, of r] show ?thesis
  proof (elim disjE conjE exE)
    assume "malloc_fails b ?r" "malloc_arena b r = (NULL, b)"
    then show ?thesis by (simp add: buddy_malloc_def malloc_fails_def)
  qed (use * in blast)
qed

theorem buddy_malloc_correct_witness:
  "arena_inv small_arena \<and> (\<exists>x s b'. buddy_malloc (Some small_arena) 40 = (8192 + x, Some b')
    \<and> arena_inv b' \<and> 40 \<le> s \<and> s < 80 \<and> x + s \<le> 192 \<and> live b' = {(x, s)})"
proof -
  have "room_for small_arena (slot_log small_arena (max 1 40))"
    using small_room slot_log_small [of small_arena 40] by (simp add: small_arena)
  then have "\<not> (buddy_malloc (Some small_arena) 40 = (NULL, Some small_arena)
      \<and> (memory_size small_arena < max 1 40 \<or> \<not> room_for small_arena (slot_log small_arena (max 1 40))))"
    by (simp add: small_arena(4))
  with buddy_malloc_correct [OF small_arena(1), of 40] obtain x s b' where *:
    "buddy_malloc (Some small_arena) 40 = (buddy_main small_arena + x, Some b')" "arena_inv b'"
    "max 1 40 \<le> s" "s = alignment small_arena \<or> s < 2 * max 1 40" "x + s \<le> memory_size small_arena"
    "live b' = insert (x, s) (live small_arena)"
    by blast
  show ?thesis
  proof (intro conjI small_arena(1) exI)
    show "buddy_malloc (Some small_arena) 40 = (8192 + x, Some b')" using *(1) by (simp only: small_arena)
    show "arena_inv b'" "40 \<le> s" "x + s \<le> 192" using *(2,3,5) by (simp_all add: small_arena(4))
    show "s < 80" using *(4) by (simp only: small_arena(5)) linarith
    show "live b' = {(x, s)}" using *(6) by (simp only: small_arena(2))
  qed
qed

text \<open>
  C18: on a consistent arena, \<open>buddy_free\<close> of the start of a live block makes exactly that block
  available again; of any other address (inside a block, already free, masked, outside the arena, or
  \<open>NULL\<close>) it changes nothing.
\<close>

theorem buddy_free_correct:
  assumes "arena_inv b"
  shows "\<exists>b'. buddy_free (Some b) p = Some b' \<and> arena_inv b' \<and> same_arena b b'
    \<and> live b' = {q \<in> live b. buddy_main b + fst q \<noteq> p}
    \<and> ((\<nexists>q. q \<in> live b \<and> buddy_main b + fst q = p) \<longrightarrow> b' = b)"
proof -
  have "starts_at b p = {} \<longleftrightarrow> (\<nexists>q. q \<in> live b \<and> buddy_main b + fst q = p)"
    by (auto simp: starts_at_def)
  then show ?thesis
    using free_arena_spec [OF assms, of p] by (auto simp: buddy_free_def starts_at_def)
qed

theorem buddy_free_correct_witness:
  "\<exists>p b'. live small_used \<noteq> {} \<and> buddy_free (Some small_used) p = Some b' \<and> live b' = {}"
proof -
  obtain x where x: "live small_used = {(x, 64)}" using small_used(3) by blast
  obtain b' where "buddy_free (Some small_used) (buddy_main small_used + x) = Some b'"
    "live b' = {q \<in> live small_used. buddy_main small_used + fst q \<noteq> buddy_main small_used + x}"
    using buddy_free_correct [OF small_used(1)] by blast
  then show ?thesis
    using x by (intro exI [of _ "buddy_main small_used + x"] exI [of _ b']) auto
qed

text \<open>
  C19: after any sequence of allocations and releases on a fresh arena, the blocks that a client
  believes to hold (requested and not given back) are pairwise disjoint, whatever it released in
  between.
\<close>

theorem buddy_requests_disjoint:
  assumes "arena_inv b" "live b = {}"
    and "run_requests malloc_arena free_arena b rs = (b', ps)"
    and "p \<in> ledger rs ps {}" "q \<in> ledger rs ps {}" "p \<noteq> q"
  shows "extent p \<inter> extent q = {}"
  by (rule arena.run_disjoint [OF assms(1) _ assms(3-6)]) (simp add: block_addresses_def assms(2))

theorem buddy_requests_disjoint_witness:
  "\<exists>p q. p \<noteq> q \<and> extent (p, 64) \<inter> extent (q, 64) = {} \<and> 64 < p \<and> 64 < q"
proof -
  obtain p b1 where b1: "malloc_arena small_arena 64 = (p, b1)" by fastforce
  obtain x where x: "live small_used = {(x, 64)}" "p = 8192 + x" "x < 192"
    using small_used(3) b1 by auto
  have b1_used: "b1 = small_used" using b1 by (simp add: small_used_def)
  have slot: "slot_log b1 64 = 6" by (rule slot_log_small) (simp_all add: b1_used small_used_fields)
  have "\<not> malloc_fails b1 (max 1 64)" using small_used_room by (simp add: b1_used)
  then obtain q b2 where b2: "malloc_arena b1 64 = (q, b2)" "q \<noteq> 0"
    "block_taken b1 (max 1 64) q b2"
    using malloc_arena_spec [of b1 64] small_used(1) b1_used by auto
  then obtain y where y: "q = 8192 + y" "(y, 64) \<notin> live b1"
    using slot by (auto simp: block_taken_def b1_used small_used_fields)
  then have pq: "p \<noteq> q" using x b1_used by auto
  have run: "run_requests malloc_arena free_arena small_arena [Take 64, Take 64] = (b2, [p, q])"
    by (simp add: b1 b2(1))
  have "ledger [Take 64, Take 64] [p, q] {} = {(p, 64), (q, 64)}" using b2(2) x(2) by auto
  then have "extent (p, 64) \<inter> extent (q, 64) = {}"
    using buddy_requests_disjoint [OF small_arena(1,2) run, of "(p, 64)" "(q, 64)"] pq by auto
  then show ?thesis using pq x(2) y(1) by (intro exI [of _ p] exI [of _ q]) simp
qed

text \<open>
  C20: \<open>buddy_realloc\<close> of a live block either fails and keeps the block, or keeps it where it is, or
  gives it up for a block of the rounded new size that met no other live block, to which the
  smaller of the two sizes has been copied while no other byte of memory changed.
\<close>

theorem buddy_realloc_correct:
  assumes "arena_inv b" "(x, s) \<in> live b" "0 < r" "r \<le> memory_size b"
    and "buddy_realloc b mem (buddy_main b + x) r ignore_data = (p, b', mem')"
  shows "arena_inv b' \<and> same_arena b b' \<and>
    ((p = NULL \<and> live b' = live b \<and> mem' = mem)
    \<or> (p = buddy_main b + x \<and> s = 2 ^ slot_log b r \<and> live b' = live b \<and> mem' = mem)
    \<or> (\<exists>y t. p = buddy_main b + y \<and> t = 2 ^ slot_log b r \<and> y + t \<le> memory_size b
         \<and> live b' = insert (y, t) (live b - {(x, s)}) \<and> (y, t) \<notin> live b - {(x, s)}
         \<and> (ignore_data \<and> mem' = mem
            \<or> (\<forall>k < min s t. mem' (p + k) = mem (buddy_main b + x + k))
              \<and> (\<forall>a. a \<notin> {p..<p + min s t} \<longrightarrow> mem' a = mem a))))"
  using realloc_live [OF assms(1-4), of mem ignore_data] assms(5)
  by (auto simp: realloc_outcome_def moved_bytes_def split: if_splits)

theorem buddy_realloc_correct_witness:
  "\<exists>x p b' mem'. live small_used = {(x, 64)}
    \<and> buddy_realloc small_used (\<lambda>a. 7) (buddy_main small_used + x) 50 False = (p, b', mem')
    \<and> arena_inv b'"
proof -
  obtain x where x: "live small_used = {(x, 64)}" using small_used(3) by blast
  obtain p b' mem' where r:
    "buddy_realloc small_used (\<lambda>a. 7) (buddy_main small_used + x) 50 False = (p, b', mem')"
    by (cases "buddy_realloc small_used (\<lambda>a. 7) (buddy_main small_used + x) 50 False")
  have "50 \<le> memory_size small_used"
    using same_arenaD(1) [OF small_used(2)] small_arena by simp
  from buddy_realloc_correct [OF small_used(1) _ _ this r, of 64] x r show ?thesis by auto
qed

text \<open>
  C21: \<open>buddy_init_alignment\<close> with valid arguments returns a consistent arena without live blocks
  over the memory it was given, cut down to whole slots; in particular the masking of the virtual
  slots ends.
\<close>

theorem buddy_init_correct:
  assumes "init_args at main mem_size a"
  shows "\<exists>b. buddy_init_alignment tree_mem at main mem_size (2 ^ a) = Some (Some b)
    \<and> arena_inv b \<and> live b = {} \<and> buddy_main b = main \<and> alignment b = 2 ^ a
    \<and> memory_size b = mem_size - mem_size mod 2 ^ a"
  using init_arena [OF assms, of tree_mem] by blast

theorem buddy_init_correct_witness:
  "\<exists>b. buddy_init_alignment [1, 2, 3] 4096 8192 200 64 = Some (Some b) \<and> arena_inv b
    \<and> memory_size b = 192"
proof -
  have "init_args 4096 8192 200 6" by (simp add: init_args_def max_order_def)
  from buddy_init_correct [OF this, of "[1, 2, 3]"] show ?thesis by auto
qed

text \<open>
  C22: \<open>buddy_embed_alignment\<close>, as the program's allocator uses it, returns a consistent empty arena
  that starts at the memory it was given, although the struct only stores the distance.
\<close>

theorem buddy_embed_correct:
  assumes "can_fit (buddy_embed_offset mem_size (2 ^ a))"
    and "init_args (main + embed_offset (buddy_embed_offset mem_size (2 ^ a))) main
      (embed_offset (buddy_embed_offset mem_size (2 ^ a))) a"
  shows "\<exists>b. buddy_embed_alignment tree_mem main mem_size (2 ^ a) = Some (Some b)
    \<and> arena_inv b \<and> live b = {} \<and> buddy_main b = main
    \<and> buddy_at b = buddy_get_embed_at_alignment main mem_size (2 ^ a)"
  using embed_arena [OF assms, of tree_mem] assms(1)
  by (auto simp: buddy_get_embed_at_alignment_def Let_def)

lemma embed_offset_1024: "buddy_embed_offset 1024 64 =
    \<lparr>can_fit = True, embed_offset = 904, embed_buddy_size = 120\<rparr>"
proof -
  have c16: "ceiling_power_of_two 16 = 16" using ceiling_power_of_two_power [of 4] by simp
  have c64: "ceiling_power_of_two 64 = 64" using ceiling_power_of_two_power [of 6] by simp
  have "highest_bit_position 16 = 5" using highest_bit_position_bit_len [of 16] bit_len_power [of 4] by simp
  moreover have "size_for_order 5 0 = 57" using row_bits_total [of 5] by (simp add: size_for_order_row_bits)
  ultimately have "buddy_sizeof_alignment 1024 64 = 120"
    by (simp add: buddy_sizeof_alignment_def is_valid_alignment_def c64 c16 buddy_tree_order_for_memory_def
        buddy_tree_sizeof_def padded_bitset_size_def bitset_sizeof_def size_simps)
  then show ?thesis by (simp add: buddy_embed_offset_def size_simps Let_def)
qed

theorem buddy_embed_correct_witness:
  "\<exists>b. buddy_embed_alignment [] 8192 1024 64 = Some (Some b) \<and> arena_inv b \<and> buddy_main b = 8192
    \<and> buddy_at b = 9096"
proof -
  have "init_args (8192 + 904) 8192 904 6" by (simp add: init_args_def max_order_def)
  then show ?thesis
    using buddy_embed_correct [of 1024 6 8192 "[]"] embed_offset_1024
    by (auto simp: buddy_get_embed_at_alignment_def)
qed

text \<open>
  C23: \<open>buddy_safe_free\<close> releases a block only if the address is the start of a live block and the
  size given fits that block up to the rounding of an allocation; it then does what \<open>buddy_free\<close>
  does, and otherwise reports an error and changes nothing.
\<close>

theorem buddy_safe_free_correct:
  assumes "arena_inv b"
  shows "if \<exists>s. (p - buddy_main b, s) \<in> live b \<and> buddy_main b \<le> p
          \<and> max r (alignment b) \<le> s \<and> s div 2 < max r (alignment b)
    then buddy_safe_free (Some b) p r = (BUDDY_SAFE_FREE_SUCCESS, buddy_free (Some b) p)
    else \<exists>st. buddy_safe_free (Some b) p r = (st, Some b) \<and> st \<noteq> BUDDY_SAFE_FREE_SUCCESS"
proof -
  have "(p - buddy_main b, s) \<in> starts_at b p \<longleftrightarrow> (p - buddy_main b, s) \<in> live b \<and> buddy_main b \<le> p" for s
    by (auto simp: starts_at_def)
  then have iff: "(\<exists>s. (p - buddy_main b, s) \<in> live b \<and> buddy_main b \<le> p
      \<and> max r (alignment b) \<le> s \<and> s div 2 < max r (alignment b)) \<longleftrightarrow>
      (\<exists>s. (p - buddy_main b, s) \<in> starts_at b p \<and> size_fits b r s)"
    by (auto simp: size_fits_def)
  obtain st b' where sb: "safe_free_arena b p r = (st, b')" by fastforce
  have eq: "buddy_safe_free (Some b) p r = (st, Some b')" by (simp add: buddy_safe_free_def sb)
  from safe_free_arena_spec [OF assms, of p r] show ?thesis
    unfolding iff eq buddy_free_def sb by (auto split: if_splits)
qed

theorem buddy_safe_free_correct_witness:
  "\<exists>p. buddy_safe_free (Some small_used) p 50 = (BUDDY_SAFE_FREE_SUCCESS, buddy_free (Some small_used) p)
    \<and> (\<exists>st. buddy_safe_free (Some small_used) p 65 = (st, Some small_used) \<and> st \<noteq> BUDDY_SAFE_FREE_SUCCESS)"
proof -
  obtain x where x: "live small_used = {(x, 64)}" using small_used(3) by blast
  have al: "alignment small_used = 64" using same_arenaD(3) [OF small_used(2)] small_arena(5) by simp
  show ?thesis
    using buddy_safe_free_correct [OF small_used(1), of "buddy_main small_used + x" 50]
      buddy_safe_free_correct [OF small_used(1), of "buddy_main small_used + x" 65]
    by (intro exI [of _ "buddy_main small_used + x"]) (simp add: x al)
qed

text \<open>
  C24: \<open>buddy_calloc\<close> never hands out a block smaller than the product of its arguments: a product
  that does not fit the size type is refused. When it returns a block, all of the requested bytes in
  it are zero, and no byte outside of it has changed.
\<close>

theorem buddy_calloc_correct:
  assumes "arena_inv b" "m < 2 ^ 64" "n < 2 ^ 64"
    and "buddy_calloc (Some b) mem m n = (p, b', mem')"
  shows "(p = NULL \<and> b' = Some b \<and> mem' = mem)
    \<or> (\<exists>c x s. b' = Some c \<and> arena_inv c \<and> p = buddy_main b + x \<and> m * n \<le> s \<and> x + s \<le> memory_size b
        \<and> (x, s) \<notin> live b \<and> live c = insert (x, s) (live b)
        \<and> (\<forall>a. mem' a = (if p \<le> a \<and> a < p + max 1 (m * n) then 0 else mem a)))"
proof -
  define k l where "k = (if m = 0 \<or> n = 0 then 1 else m)" and "l = (if m = 0 \<or> n = 0 then 1 else n)"
  have kl: "(if m = 0 \<or> n = 0 then (1, 1) else (m, n)) = (k, l)" by (simp add: k_def l_def)
  have k: "0 < k" and prod: "k * l = max 1 (m * n)"
    by (auto simp: k_def l_def max_def)
  have "l < 2 ^ 64" using assms(3) by (auto simp: l_def)
  show ?thesis
  proof (cases "k * l mod 2 ^ 64 div k = l")
    case False
    then show ?thesis using assms(4) unfolding buddy_calloc_def kl by simp
  next
    case True
    have "k * l < 2 ^ 64"
    proof (rule ccontr)
      assume "\<not> k * l < 2 ^ 64"
      moreover have "k * l mod 2 ^ 64 < 2 ^ 64" by simp
      ultimately have "k * l mod 2 ^ 64 < k * l" by linarith
      then have "k * l mod 2 ^ 64 div k < l" using k by (simp add: less_mult_imp_div_less mult.commute)
      with True show False by simp
    qed
    then have total: "k * l mod 2 ^ 64 = max 1 (m * n)" by (simp add: prod)
    obtain q c where q: "malloc_arena b (max 1 (m * n)) = (q, c)" by fastforce
    have res: "p = q" "b' = Some c" "mem' = (if q \<noteq> NULL then memset mem q 0 (max 1 (m * n)) else mem)"
      using assms(4) True [unfolded total]
      unfolding buddy_calloc_def kl Let_def prod.case total buddy_malloc_def option.case q apsnd_conv
      by (simp_all only: not_True_eq_False simp_thms if_False prod.inject prod.case) blast
    from malloc_arena_spec [OF assms(1), of "max 1 (m * n)"] show ?thesis
    proof (elim disjE conjE exE)
      assume "malloc_arena b (max 1 (m * n)) = (NULL, b)"
      then show ?thesis using res q by simp
    next
      fix p' c'
      assume c': "malloc_arena b (max 1 (m * n)) = (p', c')" "p' \<noteq> NULL"
        "max 1 (max 1 (m * n)) \<le> memory_size b" "arena_inv c'"
        "block_taken b (max 1 (max 1 (m * n))) p' c'"
      then have eq: "p' = q" "c' = c" using q by simp_all
      have mx: "max 1 (max 1 (m * n)) = max 1 (m * n)" by simp
      obtain x where x: "q = buddy_main b + x" "x + 2 ^ slot_log b (max 1 (m * n)) \<le> memory_size b"
        "(x, 2 ^ slot_log b (max 1 (m * n))) \<notin> live b"
        "live c = insert (x, 2 ^ slot_log b (max 1 (m * n))) (live b)"
        using c'(5) unfolding block_taken_def mx eq by blast
      have "max 1 (m * n) \<le> 2 ^ slot_log b (max 1 (m * n))"
        using slot_log(4) [OF arena_invD(1) [OF assms(1)]] c'(3) mx by metis
      then have "m * n \<le> 2 ^ slot_log b (max 1 (m * n))" by linarith
      then show ?thesis
        using res c'(2,4) x unfolding eq
        by (intro disjI2 exI [of _ c] exI [of _ x] exI [of _ "2 ^ slot_log b (max 1 (m * n))"])
          (simp add: memset_def)
    qed
  qed
qed

theorem buddy_calloc_correct_witness:
  "\<exists>p b' mem'. buddy_calloc (Some small_arena) (\<lambda>a. 9) (2 ^ 33) (2 ^ 33) = (p, b', mem')
    \<and> b' = Some small_arena \<and> mem' = (\<lambda>a. 9)"
proof -
  obtain p b' mem' where c: "buddy_calloc (Some small_arena) (\<lambda>a. 9) (2 ^ 33) (2 ^ 33) = (p, b', mem')"
    by (cases "buddy_calloc (Some small_arena) (\<lambda>a. 9) (2 ^ 33) (2 ^ 33)")
  have "\<not> 2 ^ 33 * 2 ^ 33 \<le> (192 :: nat)" by simp
  with buddy_calloc_correct [OF small_arena(1) _ _ c] c show ?thesis by (auto simp: small_arena)
qed

section \<open>The tree\<close>

text \<open>
  C25: the search returns a free position of the requested depth that neither contains nor lies in an
  allocated one, and it reports failure only if there is none.
\<close>

theorem buddy_tree_find_free_correct:
  assumes "tree_inv n t" "1 \<le> d" "d \<le> n"
  shows "if \<exists>i. node n i \<and> bit_len i = d \<and> (\<forall>a \<in> in_use n t. \<not> ancestor a i \<and> \<not> ancestor i a)
    then \<exists>j. buddy_tree_find_free t d = npos j \<and> node n j \<and> bit_len j = d
      \<and> (\<forall>a \<in> in_use n t. \<not> ancestor a j \<and> \<not> ancestor j a)
    else buddy_tree_find_free t d = INVALID_POS"
proof -
  have "available n t i \<longleftrightarrow> node n i \<and> (\<forall>a \<in> in_use n t. \<not> ancestor a i \<and> \<not> ancestor i a)" for i
    using available_iff [OF assms(1), of i] by (auto simp: available_def afree_def)
  then show ?thesis using find_free_cases [OF assms] by auto
qed

theorem buddy_tree_find_free_correct_witness:
  "\<exists>j. buddy_tree_find_free (buddy_tree_init [] 3) 2 = npos j \<and> bit_len j = 2"
proof -
  have "node 3 2 \<and> bit_len 2 = 2" using bit_len_power [of 1] by (simp add: node_def)
  then show ?thesis
    using buddy_tree_find_free_correct [of 3 "buddy_tree_init [] 3" 2]
      buddy_tree_init_inv [of 3 "[]"] by (auto simp: max_order_def split: if_splits)
qed

text \<open>
  C26: marking a position, on the bits of the tree, does to the statuses of all nodes what the
  abstract tree does, and marking a free position keeps the invariant (a status is the distance to
  the nearest free descendant) and makes exactly that position allocated.
\<close>

theorem buddy_tree_mark_correct:
  assumes "tree_inv n t" "available n t i"
  shows "tree_inv n (buddy_tree_mark t (npos i))
    \<and> in_use n (buddy_tree_mark t (npos i)) = insert i (in_use n t)
    \<and> statuses n (buddy_tree_mark t (npos i)) = amark n (statuses n t) i"
  using mark_tree [OF assms] buddy_tree_mark_refines(2) [of n t i] assms
  by (simp add: tree_inv_def available_def afree_def)

theorem buddy_tree_mark_correct_witness:
  "in_use 3 (buddy_tree_mark (buddy_tree_init [] 3) (npos 5)) = {5}"
proof -
  note init = buddy_tree_init_inv [of 3 "[]"]
  have "node 3 5" by (simp add: node_def)
  then have "available 3 (buddy_tree_init [] 3) 5"
    using available_iff [of 3 "buddy_tree_init [] 3" 5] init by (simp add: max_order_def)
  then show ?thesis
    using buddy_tree_mark_correct [of 3 "buddy_tree_init [] 3" 5] init by (simp add: max_order_def)
qed

text \<open>
  C27: releasing an allocated position keeps the invariant and makes exactly that position
  available again, with its buddies merged up to the root as far as they are free; releasing a
  position that is not full reports this and leaves the tree as it was.
\<close>

theorem buddy_tree_release_correct:
  assumes "tree_inv n t" "node n i"
  shows "(i \<in> in_use n t \<longrightarrow> (\<exists>t'. buddy_tree_release t (npos i) = (BUDDY_TREE_RELEASE_SUCCESS, t')
      \<and> tree_inv n t' \<and> in_use n t' = in_use n t - {i} \<and> available n t' i))
    \<and> (buddy_tree_status t (npos i) \<noteq> cap n i \<longrightarrow>
        buddy_tree_release t (npos i) = (BUDDY_TREE_RELEASE_FAIL_PARTIALLY_USED, t))"
proof -
  have wf: "tree_wf n t" "tree_ok n (statuses n t)" using assms(1) by (simp_all add: tree_inv_def)
  note r = buddy_tree_release_refines [OF wf(1) assms(2)]
  have "buddy_tree_status t (npos i) = statuses n t i"
    using assms(2) by (simp add: statuses_node status_of_def)
  moreover have "\<exists>t'. buddy_tree_release t (npos i) = (BUDDY_TREE_RELEASE_SUCCESS, t')
      \<and> tree_inv n t' \<and> in_use n t' = in_use n t - {i} \<and> available n t' i" if i: "i \<in> in_use n t"
  proof -
    have f: "full n (statuses n t) i" using i by (simp add: in_use_def allocated_def)
    show ?thesis
      using arelease_ok [OF wf(2)] i r(1) r(2,3) [OF f] f
      by (intro exI [of _ "snd (buddy_tree_release t (npos i))"])
        (simp add: tree_inv_def in_use_def available_def)
  qed
  ultimately show ?thesis using r(1) by (auto simp: full_def)
qed

theorem buddy_tree_release_correct_witness:
  "\<exists>t'. buddy_tree_release (buddy_tree_mark (buddy_tree_init [] 3) (npos 5)) (npos 5)
      = (BUDDY_TREE_RELEASE_SUCCESS, t') \<and> in_use 3 t' = {}"
proof -
  note init = buddy_tree_init_inv [of 3 "[]"]
  have n: "node 3 5" by (simp add: node_def)
  then have "available 3 (buddy_tree_init [] 3) 5"
    using available_iff [of 3 "buddy_tree_init [] 3" 5] init by (simp add: max_order_def)
  then show ?thesis
    using mark_tree [of 3 "buddy_tree_init [] 3" 5] init
      buddy_tree_release_correct [OF _ n, of "buddy_tree_mark (buddy_tree_init [] 3) (npos 5)"]
    by (auto simp: max_order_def)
qed

text \<open>
  C28: the free test answers whether a position neither contains nor lies in an allocated one.
\<close>

theorem buddy_tree_is_free_correct:
  assumes "tree_inv n t" "node n i"
  shows "buddy_tree_is_free t (npos i) \<longleftrightarrow> (\<forall>a \<in> in_use n t. \<not> ancestor a i \<and> \<not> ancestor i a)"
  using buddy_tree_is_free_spec [OF assms] available_iff [OF assms] by simp

theorem buddy_tree_is_free_correct_witness: "buddy_tree_is_free (buddy_tree_init [] 3) (npos 6)"
  using buddy_tree_is_free_correct [of 3 "buddy_tree_init [] 3" 6] buddy_tree_init_inv [of 3 "[]"]
  by (simp add: node_def max_order_def)

text \<open>
  C29: up to order 60, the largest that the development treats, the counters of different nodes in the packed layout
  never share a bit, every counter lies inside the bitset, the bitset ends before the memo table, the table ends inside
  the memory that \<open>buddy_tree_sizeof\<close> asks for, and none of these sizes and positions reaches \<open>2 ^ 64\<close>. (At order 64
  the sum in \<open>size_for_order\<close> wraps.)
\<close>

theorem counters_layout:
  assumes "node n i" "node n j" "i \<noteq> j" "n \<le> 60"
  shows "let p = buddy_tree_internal_position_order n (npos i);
             q = buddy_tree_internal_position_order n (npos j)
    in {bitset_location p..<bitset_location p + local_offset p}
         \<inter> {bitset_location q..<bitset_location q + local_offset q} = {}
      \<and> bitset_location p + local_offset p \<le> 8 * bitset_sizeof (size_for_order n 0)
      \<and> bitset_sizeof (size_for_order n 0) \<le> sizeof_size_t * (padded_bitset_size n div sizeof_size_t + 1)
      \<and> sizeof_struct_buddy_tree + sizeof_size_t * (padded_bitset_size n div sizeof_size_t + 1 + (n + 1))
          \<le> buddy_tree_sizeof n
      \<and> bitset_location p + local_offset p < 2 ^ 64 \<and> size_for_order n 0 + CHAR_BIT < 2 ^ 64 \<and> buddy_tree_sizeof n < 2 ^ 64"
proof -
  have n: "n \<le> 63" "n \<le> 64" using assms(4) by simp_all
  have pos: "buddy_tree_internal_position_order n (npos k)
      = \<lparr>local_offset = cap n k, bitset_location = loc n k\<rparr>" if "node n k" for k
    using index_internal_npos [OF that n(2)] loc_small [OF that n(1)]
    by (simp add: buddy_tree_internal_position_order_def cap_def loc_def row_start_def size_for_order_row_bits [OF n(1)] Let_def)
  have "loc n i + cap n i \<le> loc n j \<or> loc n j + cap n j \<le> loc n i"
    using loc_disjoint [OF assms(1,2)] loc_disjoint [OF assms(2,1)] assms(3) by linarith
  then have "{loc n i..<loc n i + cap n i} \<inter> {loc n j..<loc n j + cap n j} = {}" by auto
  moreover have "loc n i + cap n i \<le> 8 * bitset_sizeof (size_for_order n 0)"
    using loc_total [OF assms(1)] bitset_sizeof_covers [of "size_for_order n 0"] unfolding size_for_order_row_bits [OF n(1)] by linarith
  moreover have "(2::nat) ^ Suc n \<le> 2 ^ 61" using assms(4) by (intro power_increasing) simp_all
  then have s: "size_for_order n 0 < 2 ^ 61" using row_bits_total [of n] unfolding size_for_order_row_bits [OF n(1)] by linarith
  moreover have "buddy_tree_sizeof n < 2 ^ 64"
  proof -
    define q where "q = bitset_sizeof (size_for_order n 0)"
    have "q < 2 ^ 60" using s by (simp add: q_def bitset_sizeof_def)
    moreover have "q mod 8 < 8" by simp
    ultimately have "q + q mod 8 + n * 8 < 2 ^ 64 - 40" "q + n * 8 < 2 ^ 64 - 40" using assms(4) by simp_all
    then show ?thesis by (simp add: buddy_tree_sizeof_def padded_bitset_size_def q_def [symmetric] size_simps Let_def)
  qed
  ultimately show ?thesis
    using table_layout [of n] loc_small [OF assms(1) n(1)] pos [OF assms(1)] pos [OF assms(2)] by (simp add: Let_def)
qed

theorem counters_layout_witness:
  "let p = buddy_tree_internal_position_order 2 (npos 2);
       q = buddy_tree_internal_position_order 2 (npos 3)
    in {bitset_location p..<bitset_location p + local_offset p}
         \<inter> {bitset_location q..<bitset_location q + local_offset q} = {}"
  using counters_layout [of 2 2 3] by (simp add: node_def Let_def)

section \<open>Bits\<close>

text \<open>
  C30: the bytewise range operations set, clear and count exactly the bits of the range, in ranges
  within one byte and across bytes.
\<close>

theorem bitset_ranges_correct:
  assumes "a \<le> b" "b < 8 * length bs" "i < 8 * length bs"
  shows "bit_at (bitset_set_range bs (to_bitset_range a b)) i = (a \<le> i \<and> i \<le> b \<or> bit_at bs i)
    \<and> bit_at (bitset_clear_range bs (to_bitset_range a b)) i = (\<not> (a \<le> i \<and> i \<le> b) \<and> bit_at bs i)
    \<and> bitset_count_range bs (to_bitset_range a b) = card {k. a \<le> k \<and> k \<le> b \<and> bit_at bs k}"
  using bitset_set_range_spec(2) [OF assms] bitset_clear_range_spec(2) [OF assms]
    bitset_count_range_spec [OF assms(1,2)] by simp

theorem bitset_ranges_correct_witness:
  "bit_at (bitset_set_range [0, 0, 0] (to_bitset_range 5 18)) 12"
  using bitset_ranges_correct [of 5 18 "[0, 0, 0]" 12] by simp

text \<open>
  C31: the shifts that move the rows of a resized tree copy the range by the distance and clear what
  they left behind, provided that the bits they write are inside the bitset; the right shift also moves the bit
  at the end position.
\<close>

theorem bitset_shift_correct:
  assumes "i < 8 * length bs" "0 < k" "a \<le> b" "8 * length bs \<le> 2 ^ 63"
  shows "(k \<le> a \<and> b \<le> 8 * length bs \<longrightarrow> bit_at (bitset_shift_left bs a b k) i =
      (if a - k \<le> i \<and> i + k < b then bit_at bs (i + k) else \<not> (a \<le> i \<and> i < b) \<and> bit_at bs i))
    \<and> (b + k < 8 * length bs \<longrightarrow> bit_at (bitset_shift_right bs a b k) i =
      (if a + k \<le> i \<and> i \<le> b + k then bit_at bs (i - k) else \<not> (a \<le> i \<and> i \<le> b) \<and> bit_at bs i))"
proof -
  have r: "bit_at (bitset_shift_right bs a b k) i =
      (if a + k \<le> i \<and> i \<le> b + k then bit_at bs (i - k) else \<not> (a \<le> i \<and> i \<le> b) \<and> bit_at bs i)"
    if "b + k < 8 * length bs"
    using bit_at_shift_right_loop [OF assms(1,2), of a "b - a"] assms(3,4) that
    by (simp add: bitset_shift_right_def)
  have "bit_at (bitset_shift_left bs a b k) i =
      (if a - k \<le> i \<and> i + k < b then bit_at bs (i + k) else \<not> (a \<le> i \<and> i < b) \<and> bit_at bs i)"
    if "k \<le> a" "b \<le> 8 * length bs"
    using bit_at_shift_left_loop [OF assms(1,2) that(1), of "b - a"] assms(3) that(2)
    by (simp add: bitset_shift_left_def)
  with r show ?thesis by blast
qed

theorem bitset_shift_correct_witness: "bit_at (bitset_shift_right [1, 0] 0 3 5) 5"
  using bitset_shift_correct [of 5 "[1, 0]" 5 0 3] by (simp add: bit_at_def)

text \<open>
  C32: \<open>ceiling_power_of_two\<close> returns the least power of two that is not below its argument, up to
  the largest one that the type holds, and the bit position and trailing zero count agree with it.
\<close>

theorem ceiling_power_of_two_correct:
  assumes "0 < v" "v \<le> 2 ^ 63"
  shows "\<exists>k \<le> 63. ceiling_power_of_two v = 2 ^ k \<and> v \<le> 2 ^ k \<and> 2 ^ k < 2 * v
    \<and> highest_bit_position (ceiling_power_of_two v) = k + 1
    \<and> count_trailing_zeroes (ceiling_power_of_two v) = k"
proof -
  obtain k where k: "k \<le> 63" "ceiling_power_of_two v = 2 ^ k" "v \<le> 2 ^ k" "2 ^ k < 2 * v"
    using ceiling_power_of_two_spec [OF assms] by blast
  have "(2::nat) ^ k < 2 ^ 64" using k(1) by (simp only: power_two_less_iff)
  then have "highest_bit_position (2 ^ k) = k + 1" by (simp add: highest_bit_position_bit_len)
  then show ?thesis using k by auto
qed

theorem ceiling_power_of_two_correct_witness: "\<exists>k \<le> 63. ceiling_power_of_two 100 = 2 ^ k \<and> 100 \<le> (2::nat) ^ k"
  using ceiling_power_of_two_correct [of 100] by auto

text \<open>
  C33: the digit-by-digit loop computes the integer square root of every value of the type.
\<close>

theorem integer_square_root_correct:
  assumes "n < 2 ^ 64"
  shows "(integer_square_root n)\<^sup>2 \<le> n \<and> n < (integer_square_root n + 1)\<^sup>2"
  using integer_square_root_spec [OF assms] by (simp add: power2_eq_square)

theorem integer_square_root_correct_witness: "(integer_square_root 99)\<^sup>2 \<le> 99"
  using integer_square_root_correct [of 99] by simp

end
