(* ===== verification/Buddy_Resize.thy ===== *)
theory Buddy_Resize
  imports Buddy_Interface
begin

text \<open>
  Walking over a tree, changing its order, and the operations of the arena built on these: the
  emptiness queries, resizing, range reservation, iteration and the statistics. Loops of the form
  \<open>do ... while (buddy_tree_walk ...)\<close> and loops whose end depends on a consistent tree are
  partial functions, so that not returning is the value \<open>None\<close>.
\<close>

section \<open>Walking\<close>

definition buddy_tree_walk_state_root :: buddy_tree_walk_state where
  "buddy_tree_walk_state_root =
     \<lparr>starting_pos = buddy_tree_root, current_pos = buddy_tree_root, going_up = False,
      walk_done = False\<rparr>"

text \<open>The iterations of the loop that are entered with \<open>going_up\<close> set.\<close>

function walk_ascend :: "buddy_tree_walk_state \<Rightarrow> buddy_tree_walk_state" where
  "walk_ascend state =
     (if pos_index (current_pos state) = pos_index (starting_pos state)
      then state\<lparr>walk_done := True, going_up := False\<rparr>
      else if odd (pos_index (current_pos state))
      then walk_ascend (state\<lparr>current_pos := buddy_tree_parent (current_pos state)\<rparr>)
      else state\<lparr>current_pos := buddy_tree_right_adjacent (current_pos state), going_up := False\<rparr>)"
  by pat_completeness auto
termination
  by (relation "measure (\<lambda>state. pos_index (current_pos state))")
    (auto simp: buddy_tree_parent_def elim: oddE)

declare walk_ascend.simps [simp del]

definition buddy_tree_walk :: "buddy_tree \<Rightarrow> buddy_tree_walk_state \<Rightarrow> bool \<times> buddy_tree_walk_state" where
  "buddy_tree_walk t state =
     (let state' =
        (if going_up state then walk_ascend state
         else if buddy_tree_valid t (buddy_tree_left_child (current_pos state))
         then state\<lparr>current_pos := buddy_tree_left_child (current_pos state)\<rparr>
         else walk_ascend (state\<lparr>going_up := True\<rparr>))
      in (\<not> walk_done state', state'))"

section \<open>Changing the order of a tree\<close>

fun grow_rows ::
    "size_t \<Rightarrow> bitset \<Rightarrow> size_t \<Rightarrow> buddy_tree_pos \<Rightarrow> buddy_tree_pos \<Rightarrow> bitset" where
  "grow_rows order_n bits 0 current next_p = bits"
| "grow_rows order_n bits (Suc c) current next_p =
     (let current_internal = buddy_tree_internal_position_order order_n current;
          next_internal = buddy_tree_internal_position_order (order_n + 1) next_p;
          node_count = two_to_the_power_of c;
          shifted = bitset_shift_right bits
            (bitset_location current_internal)
            (bitset_location current_internal + local_offset current_internal * node_count)
            (bitset_location next_internal - bitset_location current_internal);
          cleared = bitset_clear_range shifted
            (to_bitset_range
              (bitset_location next_internal + local_offset next_internal * node_count)
              (bitset_location next_internal + local_offset next_internal * node_count * 2 - 1))
      in grow_rows order_n cleared c (buddy_tree_parent current) (buddy_tree_parent next_p))"

definition grow_step :: "buddy_tree \<Rightarrow> buddy_tree" where
  "grow_step t =
     (let current_order = tree_order t;
          bits = grow_rows current_order (tree_bits t) current_order
            (buddy_tree_leftmost_child_internal current_order)
            (buddy_tree_leftmost_child_internal (current_order + 1));
          t1 = buddy_tree_populate_size_for_order
            (t\<lparr>tree_bits := bits, tree_order := current_order + 1,
               upper_pos_bound := two_to_the_power_of (current_order + 1)\<rparr>);
          pos = buddy_tree_right_child buddy_tree_root
      in update_parent_chain t1 pos (buddy_tree_internal_position_tree t1 pos) 0)"

lemma tree_order_write: "tree_order (write_to_internal_position t p v) = tree_order t"
  by (simp add: write_to_internal_position_def Let_def)

lemma tree_order_chain: "tree_order (update_parent_chain t pos p v) = tree_order t"
proof (induction t pos p v rule: update_parent_chain.induct)
  case (1 t pos p v)
  then show ?case
    by (subst update_parent_chain.simps) (simp add: Let_def tree_order_write)
qed

lemma tree_order_grow_step: "tree_order (grow_step t) = Suc (tree_order t)"
  by (simp add: grow_step_def Let_def tree_order_chain buddy_tree_populate_size_for_order_def)

function buddy_tree_grow :: "buddy_tree \<Rightarrow> nat \<Rightarrow> buddy_tree" where
  "buddy_tree_grow t desired_order =
     (if desired_order > tree_order t then buddy_tree_grow (grow_step t) desired_order else t)"
  by pat_completeness auto
termination
  by (relation "measure (\<lambda>(t, d). d - tree_order t)") (auto simp: tree_order_grow_step)

declare buddy_tree_grow.simps [simp del]

text \<open>The rows of the left subtree move up while \<open>left_start\<close> is a position of the tree.\<close>

function shrink_rows :: "buddy_tree \<Rightarrow> bitset \<Rightarrow> buddy_tree_pos \<Rightarrow> bitset" where
  "shrink_rows t bits left_start =
     (if buddy_tree_valid t left_start
      then
        let current_internal = buddy_tree_internal_position_order (tree_order t) left_start;
            next_internal =
              buddy_tree_internal_position_order (tree_order t - 1) (buddy_tree_parent left_start);
            node_count = two_to_the_power_of (pos_depth left_start - 1)
        in shrink_rows t
             (bitset_shift_left bits
               (bitset_location current_internal)
               (bitset_location current_internal + local_offset current_internal * node_count div 2)
               (bitset_location current_internal - bitset_location next_internal))
             (buddy_tree_left_child left_start)
      else bits)"
  by pat_completeness auto
termination
  by (relation "measure (\<lambda>(t, bits, pos). upper_pos_bound t - pos_index pos)")
    (auto simp: buddy_tree_valid_def buddy_tree_left_child_def)

declare shrink_rows.simps [simp del]

definition shrink_step :: "buddy_tree \<Rightarrow> buddy_tree" where
  "shrink_step t =
     (let next_order = tree_order t - 1;
          bits = shrink_rows t (tree_bits t) (buddy_tree_left_child buddy_tree_root)
      in buddy_tree_populate_size_for_order
           (t\<lparr>tree_bits := bits, tree_order := next_order,
              upper_pos_bound := two_to_the_power_of next_order\<rparr>))"

lemma tree_order_shrink_step: "tree_order (shrink_step t) = tree_order t - 1"
  by (simp add: shrink_step_def Let_def buddy_tree_populate_size_for_order_def)

function buddy_tree_shrink :: "buddy_tree \<Rightarrow> nat \<Rightarrow> buddy_tree" where
  "buddy_tree_shrink t desired_order =
     (if desired_order < tree_order t
      then if \<not> buddy_tree_can_shrink t then t
           else buddy_tree_shrink (shrink_step t) desired_order
      else t)"
  by pat_completeness auto
termination
  by (relation "measure (\<lambda>(t, d). tree_order t)") (auto simp: tree_order_shrink_step)

declare buddy_tree_shrink.simps [simp del]

definition buddy_tree_resize :: "buddy_tree \<Rightarrow> nat \<Rightarrow> buddy_tree" where
  "buddy_tree_resize t desired_order =
     (if tree_order t = desired_order then t
      else if tree_order t < desired_order then buddy_tree_grow t desired_order
      else buddy_tree_shrink t desired_order)"

section \<open>Queries on the arena\<close>

text \<open>The inner loop climbs as long as the parent's interval lies inside the query.\<close>

partial_function (option) enclosing_position ::
    "buddy_tree \<Rightarrow> buddy_tree_interval \<Rightarrow> buddy_tree_pos \<Rightarrow> buddy_tree_interval \<Rightarrow>
     (buddy_tree_pos \<times> buddy_tree_interval) option" where
  "enclosing_position t query pos current_range =
     (let parent_range = to_buddy_tree_interval t (buddy_tree_parent pos)
      in if buddy_tree_interval_contains query parent_range
         then enclosing_position t query (buddy_tree_parent pos) parent_range
         else Some (pos, current_range))"

partial_function (option) is_free_from ::
    "buddy_tree \<Rightarrow> buddy_tree_interval \<Rightarrow> buddy_tree_pos \<Rightarrow> bool option" where
  "is_free_from t query pos =
     (if buddy_tree_valid t pos \<and> pos_index pos < pos_index (interval_to query)
      then Option.bind (enclosing_position t query pos (to_buddy_tree_interval t pos))
        (\<lambda>(pos', current_range).
           if \<not> buddy_tree_is_free t pos' then Some False
           else is_free_from t query (buddy_tree_right_adjacent (interval_to current_range)))
      else Some True)"

declare enclosing_position.simps [code] is_free_from.simps [code]

definition buddy_is_free :: "buddy \<Rightarrow> size_t \<Rightarrow> bool option" where
  "buddy_is_free b from_n =
     (let effective = buddy_effective_memory_size b;
          virtual_slots = buddy_virtual_slots b;
          to_n = effective
            - (if virtual_slots \<noteq> 0 then virtual_slots + 1 else 1) * alignment b;
          from_pos = deepest_position_for_offset b from_n;
          query = \<lparr>interval_from = from_pos, interval_to = deepest_position_for_offset b to_n\<rparr>
      in is_free_from (tree_of b) query from_pos)"

definition buddy_can_shrink :: "buddy option \<Rightarrow> bool option" where
  "buddy_can_shrink b_opt =
     (case b_opt of None \<Rightarrow> Some False | Some b \<Rightarrow> buddy_is_free b (memory_size b div 2))"

definition buddy_is_empty :: "buddy option \<Rightarrow> bool option" where
  "buddy_is_empty b_opt = (case b_opt of None \<Rightarrow> Some False | Some b \<Rightarrow> buddy_is_free b 0)"

definition buddy_is_full :: "buddy option \<Rightarrow> bool" where
  "buddy_is_full b_opt =
     (case b_opt of None \<Rightarrow> False
      | Some b \<Rightarrow> buddy_tree_status (tree_of b) buddy_tree_root = buddy_tree_order (tree_of b))"

definition buddy_arena_size :: "buddy option \<Rightarrow> size_t" where
  "buddy_arena_size b_opt = (case b_opt of None \<Rightarrow> 0 | Some b \<Rightarrow> memory_size b)"

partial_function (option) free_size_loop ::
    "buddy \<Rightarrow> buddy_tree_walk_state \<Rightarrow> size_t \<Rightarrow> size_t option" where
  "free_size_loop b state result =
     (let t = tree_of b;
          pos_status = buddy_tree_status t (current_pos state);
          (state, result) =
            (if pos_status = tree_order t + 1 - pos_depth (current_pos state)
             then (state\<lparr>going_up := True\<rparr>, result)
             else if pos_status = 0
             then (state\<lparr>going_up := True\<rparr>, result + size_for_depth b (pos_depth (current_pos state)))
             else (state, result));
          (more, state') = buddy_tree_walk t state
      in if more then free_size_loop b state' result else Some result)"

declare free_size_loop.simps [code]

definition buddy_arena_free_size :: "buddy \<Rightarrow> size_t option" where
  "buddy_arena_free_size b = free_size_loop b buddy_tree_walk_state_root 0"

section \<open>Resizing an arena\<close>

text \<open>The outer option is \<open>None\<close> if a loop does not end, the inner one is a returned \<open>NULL\<close>.\<close>

definition buddy_resize_standard :: "buddy \<Rightarrow> size_t \<Rightarrow> buddy option option" where
  "buddy_resize_standard b new_size =
     (let new_size = (if new_size mod alignment b \<noteq> 0
                      then new_size - new_size mod alignment b else new_size)
      in Option.bind (buddy_is_free b new_size) (\<lambda>is_free.
           if \<not> is_free then Some None
           else Option.bind (buddy_toggle_virtual_slots b False) (\<lambda>b1.
             let new_order = buddy_tree_order_for_memory new_size (alignment b1);
                 b2 = b1\<lparr>tree_of := buddy_tree_resize (tree_of b1) (new_order mod 256),
                         memory_size := new_size\<rparr>
             in map_option Some (buddy_toggle_virtual_slots b2 True))))"

definition buddy_resize_embedded :: "buddy \<Rightarrow> size_t \<Rightarrow> buddy option option" where
  "buddy_resize_embedded b new_size =
     (let check_result = buddy_embed_offset new_size (alignment b)
      in if \<not> can_fit check_result then Some None
         else map_option (map_option (\<lambda>resized.
                let main = buddy_main resized;
                    destination = main + embed_offset check_result
                in resized\<lparr>buddy_at := destination, arena := destination - main\<rparr>))
              (buddy_resize_standard b (embed_offset check_result)))"

definition buddy_resize :: "buddy \<Rightarrow> size_t \<Rightarrow> buddy option option" where
  "buddy_resize b new_size =
     (if new_size = memory_size b then Some (Some b)
      else if buddy_relative_mode b then buddy_resize_embedded b new_size
      else buddy_resize_standard b new_size)"

section \<open>Ranges\<close>

partial_function (option) toggle_range_loop ::
    "buddy \<Rightarrow> bool \<Rightarrow> buddy_tree \<Rightarrow> size_t \<Rightarrow> buddy_tree_pos \<Rightarrow> buddy_tree option" where
  "toggle_range_loop b state t requested_size pos =
     (if requested_size = 0 then Some t
      else toggle_range_loop b state (toggle_position state t pos)
             (if requested_size < alignment b then 0 else requested_size - alignment b)
             (pos\<lparr>pos_index := pos_index pos + 1\<rparr>))"

declare toggle_range_loop.simps [code]

definition buddy_toggle_range_reservation ::
    "buddy option \<Rightarrow> addr \<Rightarrow> size_t \<Rightarrow> bool \<Rightarrow> buddy option option" where
  "buddy_toggle_range_reservation b_opt ptr requested_size state =
     (case b_opt of None \<Rightarrow> Some None
      | Some b \<Rightarrow>
          if ptr = NULL then Some (Some b)
          else if requested_size = 0 then Some (Some b)
          else if ptr < buddy_main b \<or> ptr + requested_size > buddy_main b + memory_size b
          then Some (Some b)
          else map_option (\<lambda>t. Some (b\<lparr>tree_of := t\<rparr>))
                 (toggle_range_loop b state (tree_of b) requested_size
                    (deepest_position_for_offset b (ptr - buddy_main b))))"

definition buddy_reserve_range :: "buddy option \<Rightarrow> addr \<Rightarrow> size_t \<Rightarrow> buddy option option" where
  "buddy_reserve_range b_opt ptr requested_size =
     buddy_toggle_range_reservation b_opt ptr requested_size True"

definition buddy_unsafe_release_range :: "buddy option \<Rightarrow> addr \<Rightarrow> size_t \<Rightarrow> buddy option option" where
  "buddy_unsafe_release_range b_opt ptr requested_size =
     buddy_toggle_range_reservation b_opt ptr requested_size False"

section \<open>Iteration and statistics\<close>

text \<open>
  The callback is a parameter: it gets the caller's context, the address, the size and whether the
  slot is allocated, and returns a pointer and the context it leaves. One visit either returns or
  goes on to the condition of the loop, to which a \<open>continue\<close> in the source also jumps.
\<close>

definition buddy_walk_visit ::
    "buddy \<Rightarrow> ('c \<Rightarrow> addr \<Rightarrow> size_t \<Rightarrow> bool \<Rightarrow> addr \<times> 'c) \<Rightarrow> buddy_tree_walk_state \<Rightarrow> 'c \<Rightarrow>
     (addr \<times> 'c) + (buddy_tree_walk_state \<times> 'c)" where
  "buddy_walk_visit b fp state ctx =
     (let t = tree_of b;
          main = buddy_main b;
          pos = current_pos state;
          pos_status = buddy_tree_status t pos
      in if pos_status \<noteq> tree_order t + 1 - pos_depth pos then Inr (state, ctx)
         else
           let test_pos = buddy_tree_left_child pos
           in if buddy_tree_valid t test_pos \<and> buddy_tree_status t test_pos \<noteq> 0
              then Inr (state, ctx)
              else
                let pos_size = drop_bit (pos_depth pos - 1) (buddy_effective_memory_size b);
                    address = address_for_position b pos
                in if address - main + pos_size > memory_size b then Inl (NULL, ctx)
                   else
                     let (callback_result, ctx') = fp ctx address pos_size (pos_status > 0)
                     in if callback_result \<noteq> NULL then Inl (callback_result, ctx')
                        else Inr (state\<lparr>going_up := True\<rparr>, ctx'))"

partial_function (option) buddy_walk_loop ::
    "buddy \<Rightarrow> ('c \<Rightarrow> addr \<Rightarrow> size_t \<Rightarrow> bool \<Rightarrow> addr \<times> 'c) \<Rightarrow> buddy_tree_walk_state \<Rightarrow> 'c \<Rightarrow>
     (addr \<times> 'c) option" where
  "buddy_walk_loop b fp state ctx =
     (case buddy_walk_visit b fp state ctx of
        Inl result \<Rightarrow> Some result
      | Inr (state, ctx) \<Rightarrow>
          (let (more, state') = buddy_tree_walk (tree_of b) state
           in if more then buddy_walk_loop b fp state' ctx else Some (NULL, ctx)))"

declare buddy_walk_loop.simps [code]

definition buddy_walk ::
    "buddy option \<Rightarrow> ('c \<Rightarrow> addr \<Rightarrow> size_t \<Rightarrow> bool \<Rightarrow> addr \<times> 'c) option \<Rightarrow> 'c \<Rightarrow> (addr \<times> 'c) option" where
  "buddy_walk b_opt fp_opt ctx =
     (case b_opt of None \<Rightarrow> Some (NULL, ctx)
      | Some b \<Rightarrow> (case fp_opt of None \<Rightarrow> Some (NULL, ctx)
         | Some fp \<Rightarrow> buddy_walk_loop b fp buddy_tree_walk_state_root ctx))"

partial_function (option) fragmentation_loop ::
    "buddy_tree \<Rightarrow> buddy_tree_walk_state \<Rightarrow> size_t \<Rightarrow> size_t \<Rightarrow> (size_t \<times> size_t) option" where
  "fragmentation_loop t state quality total_free_size =
     (let pos = current_pos state;
          pos_status = buddy_tree_status t pos;
          virtual_size = two_to_the_power_of ((tree_order t - pos_depth pos) mod (sizeof_size_t * CHAR_BIT - 1));
          (state, quality, total_free_size) =
            (if pos_status = 0
             then (state\<lparr>going_up := True\<rparr>, (quality + virtual_size * virtual_size) mod size_limit,
                   (total_free_size + virtual_size) mod size_limit)
             else if pos_status = tree_order t + 1 - pos_depth pos
             then (state\<lparr>going_up := True\<rparr>, quality, total_free_size)
             else (state, quality, total_free_size));
          (more, state') = buddy_tree_walk t state
      in if more then fragmentation_loop t state' quality total_free_size
         else Some (quality, total_free_size))"

declare fragmentation_loop.simps [code]

definition buddy_tree_fragmentation :: "buddy_tree \<Rightarrow> nat option" where
  "buddy_tree_fragmentation t =
     (if buddy_tree_status t buddy_tree_root = 0 then Some 0
      else map_option (\<lambda>(quality, total_free_size).
        if total_free_size = 0 then 0
        else
          let quality_percent = push_bit 8 (integer_square_root quality) mod size_limit div total_free_size;
              quality_percent = quality_percent * quality_percent mod size_limit;
              quality_percent = drop_bit 8 quality_percent
          in 255 - (quality_percent AND 255))
        (fragmentation_loop t buddy_tree_walk_state_root 0 0))"

definition buddy_fragmentation :: "buddy option \<Rightarrow> nat option" where
  "buddy_fragmentation b_opt =
     (case b_opt of None \<Rightarrow> Some 0 | Some b \<Rightarrow> buddy_tree_fragmentation (tree_of b))"

text \<open>
  The debug check reads the position it was called with in every iteration, not the one the walk
  has reached.
\<close>

definition invariant_violated :: "buddy_tree \<Rightarrow> buddy_tree_pos \<Rightarrow> bool" where
  "invariant_violated t pos =
     (let current_internal = buddy_tree_internal_position_tree t pos;
          current_status = read_from_internal_position (tree_bits t) current_internal;
          left_status = buddy_tree_status t (buddy_tree_left_child pos);
          right_status = buddy_tree_status t (buddy_tree_right_child pos)
      in if left_status \<noteq> 0 \<or> right_status \<noteq> 0
         then current_status \<noteq> (if left_status \<le> right_status then left_status else right_status) + 1
         else current_status > 0 \<and> current_status < local_offset current_internal)"

partial_function (option) check_invariant_loop ::
    "buddy_tree \<Rightarrow> buddy_tree_pos \<Rightarrow> buddy_tree_walk_state \<Rightarrow> bool \<Rightarrow> bool option" where
  "check_invariant_loop t pos state failed =
     (let failed = (failed \<or> invariant_violated t pos);
          (more, state') = buddy_tree_walk t state
      in if more then check_invariant_loop t pos state' failed else Some failed)"

declare check_invariant_loop.simps [code]

definition buddy_tree_check_invariant :: "buddy_tree \<Rightarrow> buddy_tree_pos \<Rightarrow> bool option" where
  "buddy_tree_check_invariant t pos =
     check_invariant_loop t pos (buddy_tree_walk_state_root\<lparr>current_pos := pos\<rparr>) False"

end
