(* ===== verification/Midl.thy ===== *)
theory Midl
  imports Prelude "HOL-Library.Multiset"
begin

text \<open>
  The ID lists of \<open>liblmdb/midl.c\<close>: arrays whose cell 0 holds the number of entries, with the
  entries in cells 1 and up. An IDL of page numbers (descending) also has the number of cells that
  follow its counter in the cell before the array; an ID2L (ascending) pairs an ID with a pointer.
  \<open>malloc\<close> and \<open>realloc\<close> are the system's: their reply is a parameter, \<open>None\<close> when memory runs out
  and otherwise the value that the new cells happen to hold.
\<close>

section \<open>Types and constants\<close>

type_synonym mdb_id = nat
type_synonym heap_reply = "mdb_id option"

record midl =
  midl_alloclen :: nat
  midl_cells :: "mdb_id list"

record mdb_id2 =
  mid :: mdb_id
  mptr :: nat

definition MDB_IDL_LOGN :: nat where
  "MDB_IDL_LOGN = 16"

definition MDB_IDL_UM_SIZE :: nat where
  "MDB_IDL_UM_SIZE = 2 ^ (MDB_IDL_LOGN + 1)"

definition MDB_IDL_UM_MAX :: nat where
  "MDB_IDL_UM_MAX = MDB_IDL_UM_SIZE - 1"

definition ENOMEM :: int where
  "ENOMEM = 12"

abbreviation (input) uint :: "nat \<Rightarrow> nat" where
  "uint x \<equiv> x mod 2 ^ 32"

definition CMP :: "nat \<Rightarrow> nat \<Rightarrow> int" where
  "CMP x y = (if x < y then -1 else if x > y then 1 else 0)"

section \<open>Search\<close>

text \<open>
  The loop of the three searches; \<open>cmp\<close> is the comparison at a cursor. The variables are those of
  the source, \<open>n\<close> the entries left; the cursor is an \<open>unsigned\<close> and wraps.
\<close>

function search_loop :: "(nat \<Rightarrow> int) \<Rightarrow> nat \<Rightarrow> nat \<Rightarrow> int \<Rightarrow> nat \<Rightarrow> nat" where
  "search_loop cmp base cursor val n =
     (if 0 < n
      then
        let pivot = drop_bit 1 n;
            cursor = uint (base + pivot + 1);
            val = cmp cursor
        in if val < 0 then search_loop cmp base cursor val pivot
           else if val > 0 then search_loop cmp cursor cursor val (n - (pivot + 1))
           else cursor
      else if val > 0 then uint (cursor + 1) else cursor)"
  by pat_completeness auto
termination
  by (relation "measure (\<lambda>(cmp, base, cursor, val, n). n)") (auto simp: drop_bit_eq_div)

declare search_loop.simps [simp del]

definition mdb_midl_search :: "mdb_id list \<Rightarrow> mdb_id \<Rightarrow> nat" where
  "mdb_midl_search ids x = search_loop (\<lambda>cursor. CMP (ids ! cursor) x) 0 1 0 (uint (ids ! 0))"

definition mdb_mid2l_search :: "mdb_id2 list \<Rightarrow> mdb_id \<Rightarrow> nat" where
  "mdb_mid2l_search ids x = search_loop (\<lambda>cursor. CMP x (mid (ids ! cursor))) 0 1 0 (uint (mid (ids ! 0)))"

section \<open>Allocation and growth\<close>

text \<open>\<open>realloc\<close> of the block that starts one cell before the array, to \<open>n + 1\<close> cells.\<close>

definition realloc_cells :: "mdb_id \<Rightarrow> nat \<Rightarrow> mdb_id list \<Rightarrow> mdb_id list" where
  "realloc_cells junk n cells = take n cells @ replicate (n - length cells) junk"

definition mdb_midl_alloc :: "heap_reply \<Rightarrow> nat \<Rightarrow> midl option" where
  "mdb_midl_alloc reply num =
     map_option (\<lambda>junk. \<lparr>midl_alloclen = num, midl_cells = 0 # replicate num junk\<rparr>) reply"

definition mdb_midl_shrink :: "heap_reply \<Rightarrow> midl \<Rightarrow> midl" where
  "mdb_midl_shrink reply idl =
     (if midl_alloclen idl > MDB_IDL_UM_MAX
      then case reply of None \<Rightarrow> idl
           | Some junk \<Rightarrow> \<lparr>midl_alloclen = MDB_IDL_UM_MAX,
               midl_cells = realloc_cells junk (MDB_IDL_UM_MAX + 1) (midl_cells idl)\<rparr>
      else idl)"

definition mdb_midl_grow :: "heap_reply \<Rightarrow> midl \<Rightarrow> nat \<Rightarrow> int \<times> midl" where
  "mdb_midl_grow reply idl num =
     (case reply of None \<Rightarrow> (ENOMEM, idl)
      | Some junk \<Rightarrow> (0, \<lparr>midl_alloclen = midl_alloclen idl + num,
          midl_cells = realloc_cells junk (midl_alloclen idl + num + 1) (midl_cells idl)\<rparr>))"

definition mdb_midl_need :: "heap_reply \<Rightarrow> midl \<Rightarrow> nat \<Rightarrow> int \<times> midl" where
  "mdb_midl_need reply idl num =
     (let num = uint (num + midl_cells idl ! 0)
      in if num > midl_alloclen idl
         then
           let num = uint (num + num div 4 + (256 + 2)) AND (2 ^ 32 - 256)
           in case reply of None \<Rightarrow> (ENOMEM, idl)
              | Some junk \<Rightarrow> (0, \<lparr>midl_alloclen = num - 2,
                  midl_cells = realloc_cells junk (num - 1) (midl_cells idl)\<rparr>)
         else (0, idl))"

definition mdb_midl_append :: "heap_reply \<Rightarrow> midl \<Rightarrow> mdb_id \<Rightarrow> int \<times> midl" where
  "mdb_midl_append reply idl x =
     (let (err, idl) = (if midl_cells idl ! 0 \<ge> midl_alloclen idl
                        then mdb_midl_grow reply idl MDB_IDL_UM_MAX else (0, idl))
      in if err \<noteq> 0 then (ENOMEM, idl)
         else
           let ids = midl_cells idl; len = ids ! 0 + 1
           in (0, idl\<lparr>midl_cells := (ids[0 := len])[len := x]\<rparr>))"

text \<open>\<open>memcpy\<close> between two arrays.\<close>

definition copy_cells :: "'a list \<Rightarrow> nat \<Rightarrow> 'a list \<Rightarrow> nat \<Rightarrow> nat \<Rightarrow> 'a list" where
  "copy_cells dst d src s n = take d dst @ take n (drop s src) @ drop (d + n) dst"

definition mdb_midl_append_list :: "heap_reply \<Rightarrow> midl \<Rightarrow> mdb_id list \<Rightarrow> int \<times> midl" where
  "mdb_midl_append_list reply idl app =
     (let (err, idl) = (if midl_cells idl ! 0 + app ! 0 \<ge> midl_alloclen idl
                        then mdb_midl_grow reply idl (app ! 0) else (0, idl))
      in if err \<noteq> 0 then (ENOMEM, idl)
         else
           let ids = midl_cells idl; len = ids ! 0;
               ids = copy_cells ids (len + 1) app 1 (app ! 0)
           in (0, idl\<lparr>midl_cells := ids[0 := len + app ! 0]\<rparr>))"

text \<open>The loop \<open>while (n) ids[n--] = id++\<close>, with \<open>ids\<close> advanced by \<open>len\<close>.\<close>

fun append_range_loop :: "mdb_id list \<Rightarrow> nat \<Rightarrow> mdb_id \<Rightarrow> nat \<Rightarrow> mdb_id list" where
  "append_range_loop ids len x 0 = ids"
| "append_range_loop ids len x (Suc n) = append_range_loop (ids[len + Suc n := x]) len (x + 1) n"

definition mdb_midl_append_range :: "heap_reply \<Rightarrow> midl \<Rightarrow> mdb_id \<Rightarrow> nat \<Rightarrow> int \<times> midl" where
  "mdb_midl_append_range reply idl x n =
     (let len = midl_cells idl ! 0;
          (err, idl) = (if len + n > midl_alloclen idl
                        then mdb_midl_grow reply idl (n OR MDB_IDL_UM_MAX) else (0, idl))
      in if err \<noteq> 0 then (ENOMEM, idl)
         else (0, idl\<lparr>midl_cells := append_range_loop ((midl_cells idl)[0 := len + n]) len x n\<rparr>))"

section \<open>Merge\<close>

text \<open>
  The two loops of the merge, from the last entries backwards; \<open>None\<close> is a read below the array.
  The delimiter in cell 0 is the largest ID.
\<close>

fun xmerge_scan ::
    "mdb_id list \<Rightarrow> nat \<Rightarrow> nat \<Rightarrow> mdb_id \<Rightarrow> mdb_id \<Rightarrow> (mdb_id list \<times> nat \<times> nat \<times> mdb_id) option" where
  "xmerge_scan idl j k old_id merge_id =
     (if old_id < merge_id
      then (case j of 0 \<Rightarrow> None
            | Suc j' \<Rightarrow> let idl = idl[k := old_id]
                       in xmerge_scan idl j' (k - 1) (idl ! j') merge_id)
      else Some (idl, j, k, old_id))"

declare xmerge_scan.simps [simp del]

fun xmerge_loop ::
    "mdb_id list \<Rightarrow> mdb_id list \<Rightarrow> nat \<Rightarrow> nat \<Rightarrow> nat \<Rightarrow> mdb_id \<Rightarrow> mdb_id list option" where
  "xmerge_loop idl merge 0 j k old_id = Some idl"
| "xmerge_loop idl merge (Suc i) j k old_id =
     (case xmerge_scan idl j k old_id (merge ! Suc i) of None \<Rightarrow> None
      | Some (idl, j, k, old_id) \<Rightarrow>
          xmerge_loop (idl[k := merge ! Suc i]) merge i j (k - 1) old_id)"

definition mdb_midl_xmerge :: "mdb_id list \<Rightarrow> mdb_id list \<Rightarrow> mdb_id list option" where
  "mdb_midl_xmerge idl merge =
     (let i = merge ! 0; j = idl ! 0; total = i + j;
          idl = idl[0 := 2 ^ 64 - 1]
      in map_option (\<lambda>idl. idl[0 := total]) (xmerge_loop idl merge i j total (idl ! j)))"

section \<open>Sort\<close>

definition SMALL :: nat where
  "SMALL = 8"

definition midl_swap :: "mdb_id list \<Rightarrow> nat \<Rightarrow> nat \<Rightarrow> mdb_id list" where
  "midl_swap ids a b = (ids[a := ids ! b])[b := ids ! a]"

text \<open>Insertion sort of the cells \<open>l\<close> to \<open>ir\<close>: one entry sinks past the smaller ones.\<close>

fun insertion_sink :: "mdb_id list \<Rightarrow> nat \<Rightarrow> mdb_id \<Rightarrow> mdb_id list" where
  "insertion_sink ids 0 a = ids[1 := a]"
| "insertion_sink ids (Suc i) a =
     (if ids ! Suc i \<ge> a then ids[Suc i + 1 := a]
      else insertion_sink (ids[Suc i + 1 := ids ! Suc i]) i a)"

definition insertion_sort :: "mdb_id list \<Rightarrow> nat \<Rightarrow> nat \<Rightarrow> mdb_id list" where
  "insertion_sort ids l ir =
     fold (\<lambda>j ids. insertion_sink ids (j - 1) (ids ! j)) [l + 1..<ir + 1] ids"

text \<open>The choice of the pivot; that \<open>l + ir\<close> is an \<open>int\<close> is checked in the main loop.\<close>

definition median_of_three :: "mdb_id list \<Rightarrow> nat \<Rightarrow> nat \<Rightarrow> mdb_id list" where
  "median_of_three ids l ir =
     (let k = drop_bit 1 (l + ir);
          ids = midl_swap ids k (l + 1);
          ids = (if ids ! l < ids ! ir then midl_swap ids l ir else ids);
          ids = (if ids ! (l + 1) < ids ! ir then midl_swap ids (l + 1) ir else ids)
      in if ids ! l < ids ! (l + 1) then midl_swap ids l (l + 1) else ids)"

text \<open>The two scans of the partition loop; \<open>None\<close> is a read outside the array.\<close>

function scan_up :: "mdb_id list \<Rightarrow> nat \<Rightarrow> mdb_id \<Rightarrow> nat option" where
  "scan_up ids i a =
     (if i + 1 < length ids
      then (if ids ! (i + 1) > a then scan_up ids (i + 1) a else Some (i + 1))
      else None)"
  by pat_completeness auto
termination
  by (relation "measure (\<lambda>(ids, i, a). length ids - i)") auto

declare scan_up.simps [simp del]

fun scan_down :: "mdb_id list \<Rightarrow> nat \<Rightarrow> mdb_id \<Rightarrow> nat option" where
  "scan_down ids 0 a = None"
| "scan_down ids (Suc j) a = (if ids ! j < a then scan_down ids j a else Some j)"

partial_function (option) partition_loop ::
    "mdb_id list \<Rightarrow> nat \<Rightarrow> nat \<Rightarrow> mdb_id \<Rightarrow> (mdb_id list \<times> nat \<times> nat) option" where
  "partition_loop ids i j a =
     Option.bind (scan_up ids i a) (\<lambda>i. Option.bind (scan_down ids j a) (\<lambda>j.
       if j < i then Some (ids, i, j) else partition_loop (midl_swap ids i j) i j a))"

definition ISTACK :: nat where
  "ISTACK = 4 * 8 * 2"

definition INT_MAX :: int where
  "INT_MAX = 2 ^ 31 - 1"

text \<open>The conversion of an ID to \<open>int\<close>.\<close>

definition int_of_id :: "mdb_id \<Rightarrow> int" where
  "int_of_id x = (int x + 2 ^ 31) mod 2 ^ 32 - 2 ^ 31"

text \<open>
  The main loop. The stack holds pairs of bounds, the last pushed first; \<open>jstack\<close> is twice its
  length, and a push beyond the \<open>istack\<close> array is \<open>None\<close>. So is an \<open>int\<close> that overflows: \<open>j++\<close> in the insertion
  sort of a segment that ends at \<open>INT_MAX\<close>, and \<open>l + ir\<close> beyond it. The other indices stay between \<open>l\<close> and \<open>ir\<close>.
\<close>

partial_function (option) sort_loop ::
    "mdb_id list \<Rightarrow> int \<Rightarrow> int \<Rightarrow> (int \<times> int) list \<Rightarrow> mdb_id list option" where
  "sort_loop ids l ir stack =
     (if ir - l < int SMALL
      then if INT_MAX \<le> ir then None else
        let ids = insertion_sort ids (nat l) (nat ir)
        in (case stack of [] \<Rightarrow> Some ids | (l, ir) # stack \<Rightarrow> sort_loop ids l ir stack)
      else if INT_MAX < l + ir then None else
        let ids = median_of_three ids (nat l) (nat ir);
            a = ids ! (nat l + 1)
        in Option.bind (partition_loop ids (nat l + 1) (nat ir) a) (\<lambda>(ids, i, j).
             let ids = (ids[nat l + 1 := ids ! j])[j := a];
                 i = int i; j = int j; jstack = 2 * length stack + 2
             in if jstack \<ge> ISTACK then None
                else if ir - i + 1 \<ge> j - l
                then sort_loop ids l (j - 1) ((i, ir) # stack)
                else sort_loop ids i ir ((l, j - 1) # stack)))"

declare partition_loop.simps [code] sort_loop.simps [code]

definition mdb_midl_sort :: "mdb_id list \<Rightarrow> mdb_id list option" where
  "mdb_midl_sort ids = sort_loop ids 1 (int_of_id (ids ! 0)) []"

section \<open>Lists of pairs\<close>

fun shift_up_loop :: "'a list \<Rightarrow> nat \<Rightarrow> nat \<Rightarrow> 'a list" where
  "shift_up_loop ids x i = (if i > x then shift_up_loop (ids[i := ids ! (i - 1)]) x (i - 1) else ids)"

declare shift_up_loop.simps [simp del]

definition mdb_mid2l_insert :: "mdb_id2 list \<Rightarrow> mdb_id2 \<Rightarrow> int \<times> mdb_id2 list" where
  "mdb_mid2l_insert ids p =
     (let x = mdb_mid2l_search ids (mid p)
      in if x < 1 then (-2, ids)
         else if x \<le> mid (ids ! 0) \<and> mid (ids ! x) = mid p then (-1, ids)
         else if mid (ids ! 0) \<ge> MDB_IDL_UM_MAX then (-2, ids)
         else
           let ids = ids[0 := (ids ! 0)\<lparr>mid := mid (ids ! 0) + 1\<rparr>];
               ids = shift_up_loop ids x (uint (mid (ids ! 0)))
           in (0, ids[x := p]))"

definition mdb_mid2l_append :: "mdb_id2 list \<Rightarrow> mdb_id2 \<Rightarrow> int \<times> mdb_id2 list" where
  "mdb_mid2l_append ids p =
     (if mid (ids ! 0) \<ge> MDB_IDL_UM_MAX then (-2, ids)
      else
        let n = mid (ids ! 0) + 1;
            ids = ids[0 := (ids ! 0)\<lparr>mid := n\<rparr>]
        in (0, ids[n := p]))"

section \<open>Search is correct\<close>

text \<open>
  The comparison falls from positive over zero to negative along the entries 1 to \<open>N\<close>; the entries
  up to \<open>base\<close> are known to be positive, those beyond \<open>base + n\<close> to be negative.
\<close>

definition falls :: "(nat \<Rightarrow> int) \<Rightarrow> nat \<Rightarrow> bool" where
  "falls cmp N \<longleftrightarrow> (\<forall>j k. 0 < j \<and> j < k \<and> k \<le> N \<longrightarrow>
     (cmp j < 0 \<longrightarrow> cmp k < 0) \<and> (cmp k > 0 \<longrightarrow> cmp j > 0))"

definition found_at :: "(nat \<Rightarrow> int) \<Rightarrow> nat \<Rightarrow> nat \<Rightarrow> bool" where
  "found_at cmp N c \<longleftrightarrow> 0 < c \<and> c \<le> N + 1 \<and> (c \<le> N \<and> cmp c = 0
     \<or> (\<forall>k. 0 < k \<and> k < c \<longrightarrow> cmp k > 0) \<and> (\<forall>k. c \<le> k \<and> k \<le> N \<longrightarrow> cmp k < 0))"

lemma search_loop_spec:
  assumes "falls cmp N" "\<forall>k. 0 < k \<and> k \<le> base \<longrightarrow> cmp k > 0" "\<forall>k. base + n < k \<and> k \<le> N \<longrightarrow> cmp k < 0"
    "base + n \<le> N" "n = 0 \<longrightarrow> (if val > 0 then cursor = base else cursor = base + 1)" "N + 1 < 2 ^ 32"
  shows "found_at cmp N (search_loop cmp base cursor val n)"
  using assms
proof (induction cmp base cursor val n rule: search_loop.induct)
  case (1 cmp base cursor val n)
  show ?case
  proof (cases "0 < n")
    case False
    then have "search_loop cmp base cursor val n = base + 1"
      using 1(6-8) by (subst search_loop.simps) auto
    then show ?thesis using 1(3-6) False by (auto simp: found_at_def)
  next
    case True
    define pivot where "pivot = drop_bit 1 n"
    let ?c = "base + pivot + 1"
    have p: "pivot < n" using True by (simp add: pivot_def drop_bit_eq_div)
    have u: "uint ?c = ?c" using p 1(6,8) by simp
    have step: "search_loop cmp base cursor val n =
        (if cmp ?c < 0 then search_loop cmp base ?c (cmp ?c) pivot
         else if cmp ?c > 0 then search_loop cmp ?c ?c (cmp ?c) (n - (pivot + 1)) else ?c)"
      using True u [unfolded pivot_def] by (subst search_loop.simps) (simp add: pivot_def Let_def)
    have c: "?c \<le> N" "0 < ?c" using p 1(6) by simp_all
    note mono = 1(3) [unfolded falls_def, rule_format]
    consider "cmp ?c < 0" | "cmp ?c > 0" | "cmp ?c = 0" by linarith
    then show ?thesis
    proof cases
      case 1
      have "\<forall>k. base + pivot < k \<and> k \<le> N \<longrightarrow> cmp k < 0"
        using mono [of ?c] 1 by (metis Suc_eq_plus1 Suc_leI c(2) le_neq_implies_less)
      moreover have "pivot = 0 \<longrightarrow> (if cmp ?c > 0 then ?c = base else ?c = base + 1)"
        using 1 by (cases "pivot = 0") simp_all
      moreover have "base + pivot \<le> N" using p "1.prems"(4) by simp
      ultimately have "found_at cmp N (search_loop cmp base ?c (cmp ?c) pivot)"
        using "1.IH"(1) [OF True pivot_def u [symmetric] refl 1 "1.prems"(1,2)] "1.prems"(6) by blast
      then show ?thesis using 1 by (simp only: step if_True)
    next
      case 2
      have "\<forall>k. 0 < k \<and> k \<le> ?c \<longrightarrow> cmp k > 0"
        using mono [of _ ?c] 2 c by (metis le_neq_implies_less)
      moreover have "?c + (n - (pivot + 1)) = base + n" using p by simp
      moreover have "n - (pivot + 1) = 0 \<longrightarrow> (if cmp ?c > 0 then ?c = ?c else ?c = ?c + 1)" using 2 by simp
      moreover have "\<not> cmp ?c < 0" using 2 by simp
      ultimately have "found_at cmp N (search_loop cmp ?c ?c (cmp ?c) (n - (pivot + 1)))"
        using "1.IH"(2) [OF True pivot_def u [symmetric] refl _ 2 "1.prems"(1)] "1.prems"(3,4,6) by simp
      then show ?thesis using 2 \<open>\<not> cmp ?c < 0\<close> by (simp only: step if_True if_False)
    next
      case 3
      then show ?thesis using step c by (simp add: found_at_def)
    qed
  qed
qed

text \<open>Lists whose entries fill the cells 1 up to the count in cell 0.\<close>

definition entries :: "'a list \<Rightarrow> nat \<Rightarrow> 'a list" where
  "entries cells n = take n (drop 1 cells)"

lemma entries_nth: "k < n \<Longrightarrow> n < length cells \<Longrightarrow> entries cells n ! k = cells ! Suc k"
  by (simp add: entries_def)

lemma length_entries: "n < length cells \<Longrightarrow> length (entries cells n) = n"
  by (simp add: entries_def)

lemma split_entries:
  assumes "n < length cells"
  shows "cells = cells ! 0 # entries cells n @ drop (n + 1) cells"
  using assms by (cases cells) (simp_all add: entries_def)

lemma entries_member:
  assumes "n < length cells"
  shows "q \<in> set (entries cells n) \<longleftrightarrow> (\<exists>k. 0 < k \<and> k \<le> n \<and> cells ! k = q)"
proof
  assume "q \<in> set (entries cells n)"
  then obtain i where "i < n" "cells ! Suc i = q"
    using assms by (auto simp: in_set_conv_nth length_entries entries_nth)
  then show "\<exists>k. 0 < k \<and> k \<le> n \<and> cells ! k = q" by (metis Suc_leI zero_less_Suc)
next
  assume "\<exists>k. 0 < k \<and> k \<le> n \<and> cells ! k = q"
  then obtain k where k: "0 < k" "k \<le> n" "cells ! k = q" by blast
  then have "entries cells n ! (k - 1) = q" "k - 1 < length (entries cells n)"
    using assms by (simp_all add: length_entries entries_nth)
  then show "q \<in> set (entries cells n)" by (metis nth_mem)
qed

lemma sorted_entries_nth:
  assumes "sorted_wrt R (entries cells n)" "n < length cells" "0 < j" "j < k" "k \<le> n"
  shows "R (cells ! j) (cells ! k)"
proof -
  have "R (entries cells n ! (j - 1)) (entries cells n ! (k - 1))"
    using assms by (intro sorted_wrt_nth_less [OF assms(1)]) (simp_all add: length_entries)
  then show ?thesis using assms by (simp add: entries_nth)
qed

lemma midl_falls:
  assumes "sorted_wrt (\<ge>) (entries ids n)" "n < length ids"
  shows "falls (\<lambda>c. CMP (ids ! c) x) n"
  unfolding falls_def
proof (intro allI impI)
  fix j k assume "0 < j \<and> j < k \<and> k \<le> n"
  then have "ids ! k \<le> ids ! j" using sorted_entries_nth [OF assms] by simp
  then show "(CMP (ids ! j) x < 0 \<longrightarrow> CMP (ids ! k) x < 0) \<and> (CMP (ids ! k) x > 0 \<longrightarrow> CMP (ids ! j) x > 0)"
    by (auto simp: CMP_def split: if_splits)
qed

lemma mdb_midl_search_spec:
  assumes "sorted_wrt (\<ge>) (entries ids (ids ! 0))" "ids ! 0 < length ids" "ids ! 0 + 1 < 2 ^ 32"
  shows "found_at (\<lambda>c. CMP (ids ! c) x) (ids ! 0) (mdb_midl_search ids x)"
  unfolding mdb_midl_search_def using assms(3)
  by (simp del: One_nat_def) (rule search_loop_spec [OF midl_falls [OF assms(1,2)]], auto)

lemma mid2l_falls:
  assumes "sorted_wrt (\<lambda>p q. mid p \<le> mid q) (entries ids n)" "n < length ids"
  shows "falls (\<lambda>c. CMP x (mid (ids ! c))) n"
  unfolding falls_def
proof (intro allI impI)
  fix j k assume "0 < j \<and> j < k \<and> k \<le> n"
  then have "mid (ids ! j) \<le> mid (ids ! k)" using sorted_entries_nth [OF assms] by simp
  then show "(CMP x (mid (ids ! j)) < 0 \<longrightarrow> CMP x (mid (ids ! k)) < 0)
      \<and> (CMP x (mid (ids ! k)) > 0 \<longrightarrow> CMP x (mid (ids ! j)) > 0)"
    by (auto simp: CMP_def split: if_splits)
qed

lemma mdb_mid2l_search_spec:
  assumes "sorted_wrt (\<lambda>p q. mid p \<le> mid q) (entries ids (mid (ids ! 0)))"
    "mid (ids ! 0) < length ids" "mid (ids ! 0) + 1 < 2 ^ 32"
  shows "found_at (\<lambda>c. CMP x (mid (ids ! c))) (mid (ids ! 0)) (mdb_mid2l_search ids x)"
  unfolding mdb_mid2l_search_def using assms(3)
  by (simp del: One_nat_def) (rule search_loop_spec [OF mid2l_falls [OF assms(1,2)]], auto)

section \<open>Growing lists\<close>

text \<open>A list in its allocation: the counter and every entry lie inside it.\<close>

definition idl_ok :: "midl \<Rightarrow> bool" where
  "idl_ok idl \<longleftrightarrow> length (midl_cells idl) = midl_alloclen idl + 1 \<and> midl_cells idl ! 0 \<le> midl_alloclen idl"

definition idl_list :: "midl \<Rightarrow> mdb_id list" where
  "idl_list idl = entries (midl_cells idl) (midl_cells idl ! 0)"

lemma realloc_cells_grow:
  assumes "length cells \<le> n"
  shows "length (realloc_cells junk n cells) = n"
    and "k < length cells \<Longrightarrow> realloc_cells junk n cells ! k = cells ! k"
  using assms by (simp_all add: realloc_cells_def nth_append)

lemma entries_cong:
  "n < length a \<Longrightarrow> n < length b \<Longrightarrow> (\<And>k. 0 < k \<Longrightarrow> k \<le> n \<Longrightarrow> a ! k = b ! k) \<Longrightarrow>
    entries a n = entries b n"
  by (rule nth_equalityI) (simp_all add: length_entries entries_nth)

lemma grow_ok:
  assumes "idl_ok idl" "mdb_midl_grow reply idl num = (err, idl')"
  shows "err = 0 \<or> (err = ENOMEM \<and> idl' = idl)"
    and "idl_ok idl'" "midl_cells idl' ! 0 = midl_cells idl ! 0" "idl_list idl' = idl_list idl"
    and "err = 0 \<Longrightarrow> midl_alloclen idl' = midl_alloclen idl + num"
proof -
  have len: "0 < length (midl_cells idl)" "midl_cells idl ! 0 < length (midl_cells idl)"
    "length (midl_cells idl) \<le> midl_alloclen idl + num + 1"
    using assms(1) by (auto simp: idl_ok_def)
  note g = realloc_cells_grow [OF len(3)]
  have e: "entries (realloc_cells j (midl_alloclen idl + num + 1) (midl_cells idl)) (midl_cells idl ! 0)
      = entries (midl_cells idl) (midl_cells idl ! 0)" for j
    using len g by (intro entries_cong) auto
  show "err = 0 \<or> (err = ENOMEM \<and> idl' = idl)" "idl_ok idl'" "midl_cells idl' ! 0 = midl_cells idl ! 0"
    "idl_list idl' = idl_list idl" "err = 0 \<Longrightarrow> midl_alloclen idl' = midl_alloclen idl + num"
    using assms g e len by (auto simp: mdb_midl_grow_def idl_ok_def idl_list_def ENOMEM_def split: option.splits)
qed

lemma um_max_pos: "0 < MDB_IDL_UM_MAX"
  by (simp add: MDB_IDL_UM_MAX_def MDB_IDL_UM_SIZE_def MDB_IDL_LOGN_def)

lemma grow_fails: "mdb_midl_grow reply idl num = (err, idl') \<Longrightarrow> err \<noteq> 0 \<Longrightarrow>
    err = ENOMEM \<and> idl' = idl \<and> reply = None"
  by (cases reply) (auto simp: mdb_midl_grow_def)

text \<open>The first step of every append: make room if a condition asks for it.\<close>

definition make_room :: "heap_reply \<Rightarrow> midl \<Rightarrow> bool \<Rightarrow> nat \<Rightarrow> int \<times> midl" where
  "make_room reply idl too_big num = (if too_big then mdb_midl_grow reply idl num else (0, idl))"

lemma make_room_spec:
  assumes "idl_ok idl" "make_room reply idl too_big num = (err, idl')"
  shows "idl_ok idl'" "midl_cells idl' ! 0 = midl_cells idl ! 0" "idl_list idl' = idl_list idl"
    "err = 0 \<Longrightarrow> midl_alloclen idl' = midl_alloclen idl + (if too_big then num else 0)"
    "err \<noteq> 0 \<Longrightarrow> err = ENOMEM \<and> idl' = idl \<and> reply = None"
proof -
  consider (grow) "too_big" "mdb_midl_grow reply idl num = (err, idl')" | (keep) "\<not> too_big" "err = 0" "idl' = idl"
    using assms(2) by (auto simp: make_room_def split: if_splits)
  then show "idl_ok idl'" "midl_cells idl' ! 0 = midl_cells idl ! 0" "idl_list idl' = idl_list idl"
    "err = 0 \<Longrightarrow> midl_alloclen idl' = midl_alloclen idl + (if too_big then num else 0)"
    "err \<noteq> 0 \<Longrightarrow> err = ENOMEM \<and> idl' = idl \<and> reply = None"
    using assms(1) grow_ok(2-5) [OF assms(1)] grow_fails by (cases; simp)+
qed

lemma entries_append_one:
  assumes "n + 1 < length cells"
  shows "entries ((cells[0 := n + 1])[n + 1 := x]) (n + 1) = entries cells n @ [x]"
  using assms by (intro nth_equalityI) (auto simp: length_entries entries_nth nth_append nth_list_update)

lemma midl_append_spec:
  assumes "idl_ok idl" "mdb_midl_append reply idl x = (err, idl')"
  shows "idl_ok idl' \<and> (err = 0 \<and> idl_list idl' = idl_list idl @ [x]
    \<or> err = ENOMEM \<and> reply = None \<and> idl' = idl)"
proof -
  define g where "g = make_room reply idl (midl_cells idl ! 0 \<ge> midl_alloclen idl) MDB_IDL_UM_MAX"
  obtain e i where ei: "g = (e, i)" by fastforce
  note r = make_room_spec [OF assms(1) ei [unfolded g_def]]
  let ?n = "midl_cells i ! 0"
  have res: "(err, idl') = (if e \<noteq> 0 then (ENOMEM, i)
      else (0, i\<lparr>midl_cells := ((midl_cells i)[0 := ?n + 1])[?n + 1 := x]\<rparr>))"
    using assms(2) ei unfolding mdb_midl_append_def make_room_def [symmetric] g_def [symmetric]
    by (auto simp: Let_def)
  show ?thesis
  proof (cases "e = 0")
    case True
    have room: "?n < midl_alloclen i"
      using r(2) r(4) [OF True] um_max_pos assms(1) by (auto simp: idl_ok_def split: if_splits)
    then have n: "?n + 1 < length (midl_cells i)" using r(1) by (simp add: idl_ok_def)
    then have "0 < length (midl_cells i)" by linarith
    then have cnt: "((midl_cells i)[0 := ?n + 1])[?n + 1 := x] ! 0 = ?n + 1" by simp
    show ?thesis
      using res True r(1,3) room entries_append_one [OF n, of x] cnt n
      by (simp add: idl_ok_def idl_list_def)
  next
    case False
    then show ?thesis using res r(1,5) by simp
  qed
qed

lemma midl_append_list_spec:
  assumes "idl_ok idl" "app ! 0 < length app" "mdb_midl_append_list reply idl app = (err, idl')"
  shows "idl_ok idl' \<and> (err = 0 \<and> idl_list idl' = idl_list idl @ entries app (app ! 0)
    \<or> err = ENOMEM \<and> reply = None \<and> idl' = idl)"
proof -
  let ?m = "app ! 0"
  define g where "g = make_room reply idl (midl_cells idl ! 0 + ?m \<ge> midl_alloclen idl) ?m"
  obtain e i where ei: "g = (e, i)" by fastforce
  note r = make_room_spec [OF assms(1) ei [unfolded g_def]]
  let ?n = "midl_cells i ! 0" and ?c = "midl_cells i"
  let ?c' = "(copy_cells ?c (?n + 1) app 1 ?m)[0 := ?n + ?m]"
  have res: "(err, idl') = (if e \<noteq> 0 then (ENOMEM, i) else (0, i\<lparr>midl_cells := ?c'\<rparr>))"
    using assms(3) ei unfolding mdb_midl_append_list_def make_room_def [symmetric] g_def [symmetric]
    by (auto simp: Let_def)
  show ?thesis
  proof (cases "e = 0")
    case True
    have room: "?n + ?m \<le> midl_alloclen i"
      using r(2) r(4) [OF True] assms(1) by (auto simp: idl_ok_def split: if_splits)
    then have n: "?n + ?m < length ?c" using r(1) by (simp add: idl_ok_def)
    have len: "length ?c' = length ?c" using n assms(2) by (simp add: copy_cells_def)
    have "entries ?c' (?n + ?m) = entries ?c ?n @ entries app ?m"
      using n assms(2) len
      by (intro nth_equalityI)
        (auto simp: length_entries entries_nth nth_append copy_cells_def nth_list_update min_def)
    moreover have "?c' ! 0 = ?n + ?m"
      using n len by (intro nth_list_update_eq) (simp only: length_list_update)
    ultimately show ?thesis
      using res True r(1,3) room len by (simp add: idl_ok_def idl_list_def)
  next
    case False
    then show ?thesis using res r(1,5) by simp
  qed
qed

lemma append_range_loop_nth:
  "len + n < length ids \<Longrightarrow> length (append_range_loop ids len x n) = length ids \<and>
    (\<forall>k < length ids. append_range_loop ids len x n ! k =
      (if len < k \<and> k \<le> len + n then x + (len + n - k) else ids ! k))"
proof (induction n arbitrary: ids x)
  case (Suc n)
  have "len + n < length (ids[len + Suc n := x])" using Suc.prems by simp
  from Suc.IH [OF this, of "x + 1"] show ?case
    using Suc.prems by (auto simp: nth_list_update)
qed auto

lemma nat_le_or: "n \<le> n OR m" for n m :: nat
proof -
  have "int n \<le> int n OR int m" by (rule or_greater_eq) simp
  then show ?thesis by (simp flip: of_nat_or_eq)
qed

lemma midl_append_range_spec:
  assumes "idl_ok idl" "mdb_midl_append_range reply idl x n = (err, idl')"
  shows "idl_ok idl' \<and> (err = 0 \<and> idl_list idl' = idl_list idl @ rev [x..<x + n]
    \<or> err = ENOMEM \<and> reply = None \<and> idl' = idl)"
proof -
  define g where "g = make_room reply idl (midl_cells idl ! 0 + n > midl_alloclen idl) (n OR MDB_IDL_UM_MAX)"
  obtain e i where ei: "g = (e, i)" by fastforce
  note r = make_room_spec [OF assms(1) ei [unfolded g_def]]
  let ?n = "midl_cells i ! 0" and ?c = "midl_cells i"
  let ?c' = "append_range_loop (?c[0 := ?n + n]) ?n x n"
  have res: "(err, idl') = (if e \<noteq> 0 then (ENOMEM, i) else (0, i\<lparr>midl_cells := ?c'\<rparr>))"
    using assms(2) ei r(2) unfolding mdb_midl_append_range_def Let_def make_room_def [symmetric] g_def [symmetric]
    by auto
  show ?thesis
  proof (cases "e = 0")
    case True
    have "n \<le> n OR MDB_IDL_UM_MAX" by (rule nat_le_or)
    then have room: "?n + n \<le> midl_alloclen i"
      using r(2) r(4) [OF True] assms(1) by (auto simp: idl_ok_def split: if_splits)
    then have c: "?n + n < length (?c[0 := ?n + n])" using r(1) by (simp add: idl_ok_def)
    note l = append_range_loop_nth [OF c, of x]
    have pos: "0 < length ?c" using c by (simp only: length_list_update)
    have cnt: "?c' ! 0 = ?n + n" using l pos by (simp del: gr_zeroI length_greater_0_conv)
    have "entries ?c' (?n + n) = entries ?c ?n @ rev [x..<x + n]"
      using c l by (intro nth_equalityI)
        (auto simp: length_entries entries_nth nth_append rev_nth)
    then show ?thesis using res True r(1,3) room l cnt by (simp add: idl_ok_def idl_list_def)
  next
    case False
    then show ?thesis using res r(1,5) by simp
  qed
qed

end
