(* ===== verification/Midl_Lists.thy ===== *)
theory Midl_Lists
  imports Midl
begin

text \<open>
  The operations of \<open>liblmdb/midl.c\<close> that keep a list sorted: insertion into a list of pairs, and
  the merge of two lists of IDs.
\<close>

section \<open>Insertion into a list of pairs\<close>

lemma shift_up_loop_nth:
  "i < length ids \<Longrightarrow> length (shift_up_loop ids x i) = length ids \<and>
    (\<forall>k < length ids. shift_up_loop ids x i ! k = (if x < k \<and> k \<le> i then ids ! (k - 1) else ids ! k))"
proof (induction ids x i rule: shift_up_loop.induct)
  case (1 ids x i)
  show ?case
  proof (cases "i > x")
    case True
    have "i - 1 < length (ids[i := ids ! (i - 1)])" using 1(2) by simp
    from 1(1) [OF True this] show ?thesis
      using True 1(2) by (subst (1 2) shift_up_loop.simps) (auto simp: nth_list_update)
  next
    case False
    then show ?thesis by (subst (1 2) shift_up_loop.simps) auto
  qed
qed

definition id2l_ok :: "mdb_id2 list \<Rightarrow> bool" where
  "id2l_ok ids \<longleftrightarrow> MDB_IDL_UM_SIZE \<le> length ids \<and> mid (ids ! 0) \<le> MDB_IDL_UM_MAX
     \<and> sorted_wrt (\<lambda>p q. mid p < mid q) (entries ids (mid (ids ! 0)))"

definition id2l_list :: "mdb_id2 list \<Rightarrow> mdb_id2 list" where
  "id2l_list ids = entries ids (mid (ids ! 0))"

lemma um_size: "MDB_IDL_UM_MAX < MDB_IDL_UM_SIZE" "MDB_IDL_UM_SIZE < 2 ^ 32"
  by (simp_all add: MDB_IDL_UM_MAX_def MDB_IDL_UM_SIZE_def MDB_IDL_LOGN_def)

lemma entries_insert:
  assumes "0 < x" "x \<le> n + 1" "n + 1 < length ids" "length ids' = length ids"
    "\<And>k. 0 < k \<Longrightarrow> k < x \<Longrightarrow> ids' ! k = ids ! k" "ids' ! x = p"
    "\<And>k. x < k \<Longrightarrow> k \<le> n + 1 \<Longrightarrow> ids' ! k = ids ! (k - 1)"
  shows "entries ids' (n + 1) = take (x - 1) (entries ids n) @ p # drop (x - 1) (entries ids n)"
proof (rule nth_equalityI)
  show "length (entries ids' (n + 1)) = length (take (x - 1) (entries ids n) @ p # drop (x - 1) (entries ids n))"
    using assms(1-4) by (simp add: length_entries)
next
  fix k assume "k < length (entries ids' (n + 1))"
  then have k: "k < n + 1" using assms(3,4) by (simp add: length_entries)
  have L: "entries ids' (n + 1) ! k = ids' ! Suc k" using k assms(3,4) by (simp add: entries_nth)
  consider "k < x - 1" | "k = x - 1" | "x - 1 < k" by linarith
  then show "entries ids' (n + 1) ! k = (take (x - 1) (entries ids n) @ p # drop (x - 1) (entries ids n)) ! k"
    unfolding L
  proof cases
    case 1
    then show "ids' ! Suc k = (take (x - 1) (entries ids n) @ p # drop (x - 1) (entries ids n)) ! k"
      using assms(1-3) assms(5) [of "Suc k"] k by (simp add: nth_append length_entries entries_nth)
  next
    case 2
    then show "ids' ! Suc k = (take (x - 1) (entries ids n) @ p # drop (x - 1) (entries ids n)) ! k"
      using assms(1-3,6) by (simp add: nth_append length_entries)
  next
    case 3
    then obtain d where d: "k = x + d" using assms(1) by (metis Suc_diff_1 Suc_leI le_Suc_ex)
    have "\<not> x + d < x - Suc 0" by simp
    with d show "ids' ! Suc k = (take (x - 1) (entries ids n) @ p # drop (x - 1) (entries ids n)) ! k"
      using assms(1-3) assms(7) [of "Suc k"] k
      by (simp add: nth_append length_entries entries_nth nth_Cons')
  qed
qed

lemma mid2l_search_cases:
  fixes x :: mdb_id
  assumes "id2l_ok ids"
  defines "c \<equiv> mdb_mid2l_search ids x" and "n \<equiv> mid (ids ! 0)"
  shows "0 < c" "c \<le> n + 1"
    "c \<le> n \<and> mid (ids ! c) = x
      \<or> (\<forall>k. 0 < k \<and> k < c \<longrightarrow> mid (ids ! k) < x) \<and> (\<forall>k. c \<le> k \<and> k \<le> n \<longrightarrow> x < mid (ids ! k))"
proof -
  have s: "sorted_wrt (\<lambda>p q. mid p \<le> mid q) (entries ids n)"
    using assms(1) by (auto simp: id2l_ok_def n_def intro: sorted_wrt_mono_rel [rotated])
  have n: "n < length ids" "n + 1 < 2 ^ 32" using assms(1) um_size by (auto simp: id2l_ok_def n_def)
  have "found_at (\<lambda>c. CMP x (mid (ids ! c))) n c"
    unfolding c_def n_def by (rule mdb_mid2l_search_spec) (use s n in \<open>simp_all add: n_def\<close>)
  then show "0 < c" "c \<le> n + 1"
    "c \<le> n \<and> mid (ids ! c) = x
      \<or> (\<forall>k. 0 < k \<and> k < c \<longrightarrow> mid (ids ! k) < x) \<and> (\<forall>k. c \<le> k \<and> k \<le> n \<longrightarrow> x < mid (ids ! k))"
    by (auto simp: found_at_def CMP_def split: if_splits)
qed

lemma id2l_member:
  assumes "id2l_ok ids"
  shows "q \<in> set (id2l_list ids) \<longleftrightarrow> (\<exists>k. 0 < k \<and> k \<le> mid (ids ! 0) \<and> ids ! k = q)"
  unfolding id2l_list_def using assms um_size by (intro entries_member) (auto simp: id2l_ok_def)

lemma mid2l_insert_step:
  fixes p :: mdb_id2
  assumes "id2l_ok ids" "mid (ids ! 0) < MDB_IDL_UM_MAX" "0 < x" "x \<le> mid (ids ! 0) + 1"
  defines "ids' \<equiv> (shift_up_loop (ids[0 := (ids ! 0)\<lparr>mid := mid (ids ! 0) + 1\<rparr>]) x
      (uint (mid (ids ! 0) + 1)))[x := p]"
  shows "length ids' = length ids" "mid (ids' ! 0) = mid (ids ! 0) + 1"
    "id2l_list ids' = take (x - 1) (id2l_list ids) @ p # drop (x - 1) (id2l_list ids)"
proof -
  define n where "n = mid (ids ! 0)"
  let ?a = "ids[0 := (ids ! 0)\<lparr>mid := n + 1\<rparr>]"
  have n: "n + 1 < length ids" "uint (n + 1) = n + 1"
    using assms(1,2) um_size by (auto simp: id2l_ok_def n_def)
  have i: "ids' = (shift_up_loop ?a x (n + 1))[x := p]" unfolding ids'_def n_def [symmetric] n(2) ..
  have "n + 1 < length ?a" using n by simp
  note sh = shift_up_loop_nth [OF this, of x]
  show len: "length ids' = length ids" using sh by (simp add: i)
  have nth: "ids' ! k = (if k = x then p else if x < k \<and> k \<le> n + 1 then ?a ! (k - 1) else ?a ! k)"
    if "k < length ids" for k using sh that assms(4) n by (simp add: i nth_list_update n_def)
  have pos: "0 < length ids" using n by linarith
  have c: "ids' ! 0 = (ids ! 0)\<lparr>mid := n + 1\<rparr>" using nth [OF pos] assms(3) pos by simp
  then show "mid (ids' ! 0) = mid (ids ! 0) + 1" by (simp add: n_def)
  have "entries ids' (n + 1) = take (x - 1) (entries ids n) @ p # drop (x - 1) (entries ids n)"
    using assms(3,4) n nth by (intro entries_insert) (auto simp: len n_def)
  then show "id2l_list ids' = take (x - 1) (id2l_list ids) @ p # drop (x - 1) (id2l_list ids)"
    by (simp add: id2l_list_def c n_def)
qed

lemma sorted_insert_at:
  assumes "sorted_wrt (\<lambda>p q. mid p < mid q) xs" "\<forall>q \<in> set (take k xs). mid q < mid p"
    "\<forall>q \<in> set (drop k xs). mid p < mid q"
  shows "sorted_wrt (\<lambda>p q. mid p < mid q) (take k xs @ p # drop k xs)"
proof -
  have "sorted_wrt (\<lambda>p q. mid p < mid q) (take k xs @ drop k xs)" using assms(1) by simp
  then show ?thesis using assms(2,3) by (auto simp: sorted_wrt_append simp del: append_take_drop_id)
qed

lemma mid2l_insert_spec:
  assumes "id2l_ok ids" "mdb_mid2l_insert ids p = (r, ids')"
  shows "id2l_ok ids' \<and>
    (if \<exists>q \<in> set (id2l_list ids). mid q = mid p then r = -1 \<and> ids' = ids
     else if mid (ids ! 0) = MDB_IDL_UM_MAX then r = -2 \<and> ids' = ids
     else r = 0 \<and> set (id2l_list ids') = insert p (set (id2l_list ids)))"
proof -
  define x where "x = mdb_mid2l_search ids (mid p)"
  let ?n = "mid (ids ! 0)" and ?E = "id2l_list ids"
  note s = mid2l_search_cases [OF assms(1), of "mid p", folded x_def]
  note mem = id2l_member [OF assms(1)]
  have nlen: "?n < length ids" "?n \<le> MDB_IDL_UM_MAX" using assms(1) um_size by (auto simp: id2l_ok_def)
  have dupI: "(\<exists>q \<in> set ?E. mid q = mid p) \<longleftrightarrow> x \<le> ?n \<and> mid (ids ! x) = mid p"
  proof
    assume "\<exists>q \<in> set ?E. mid q = mid p"
    then obtain k where k: "0 < k" "k \<le> ?n" "mid (ids ! k) = mid p" using mem by auto
    then show "x \<le> ?n \<and> mid (ids ! x) = mid p" using s(3) by (metis less_irrefl not_le)
  next
    assume "x \<le> ?n \<and> mid (ids ! x) = mid p"
    then show "\<exists>q \<in> set ?E. mid q = mid p" using mem s(1) by blast
  qed
  consider (dup) "\<exists>q \<in> set ?E. mid q = mid p" | (full) "\<not> (\<exists>q \<in> set ?E. mid q = mid p)" "?n = MDB_IDL_UM_MAX"
    | (ins) "\<not> (\<exists>q \<in> set ?E. mid q = mid p)" "?n < MDB_IDL_UM_MAX" using nlen(2) by linarith
  then show ?thesis
  proof cases
    case dup
    then have "x \<le> ?n" "mid (ids ! x) = mid p" using dupI by auto
    then have "r = -1" "ids' = ids"
      using assms(2) s(1) by (simp_all add: mdb_mid2l_insert_def x_def [symmetric] Let_def)
    then show ?thesis using assms(1) dup by simp
  next
    case full
    then have "\<not> (x \<le> ?n \<and> mid (ids ! x) = mid p)" using dupI by auto
    then have "r = -2" "ids' = ids"
      using assms(2) s(1) full(2) by (auto simp: mdb_mid2l_insert_def x_def [symmetric] Let_def)
    then show ?thesis using assms(1) full by simp
  next
    case ins
    define ids2 where "ids2 = (shift_up_loop (ids[0 := (ids ! 0)\<lparr>mid := ?n + 1\<rparr>]) x (uint (?n + 1)))[x := p]"
    have pos: "0 < length ids" using nlen by linarith
    have nodup: "\<not> (x \<le> ?n \<and> mid (ids ! x) = mid p)" using ins(1) dupI by blast
    have "(r, ids') = (0, ids2)"
      using assms(2) s(1) ins(2) nodup pos
      by (auto simp: mdb_mid2l_insert_def x_def [symmetric] Let_def ids2_def)
    then have ri: "r = 0" "ids' = ids2" by simp_all
    note st = mid2l_insert_step [OF assms(1) ins(2) s(1,2), of p, folded ids2_def]
    have gap: "(\<forall>k. 0 < k \<and> k < x \<longrightarrow> mid (ids ! k) < mid p) \<and> (\<forall>k. x \<le> k \<and> k \<le> ?n \<longrightarrow> mid p < mid (ids ! k))"
      using s(3) nodup by blast
    have E: "?E ! i = ids ! Suc i" "length ?E = ?n" if "i < ?n" for i
      using that nlen(1) by (simp_all add: id2l_list_def entries_nth length_entries)
    have lo: "\<forall>q \<in> set (take (x - 1) ?E). mid q < mid p"
      using gap E by (fastforce simp: in_set_conv_nth id2l_list_def length_entries nlen)
    have hi: "\<forall>q \<in> set (drop (x - 1) ?E). mid p < mid q"
    proof
      fix q assume "q \<in> set (drop (x - 1) ?E)"
      then obtain i where "x - 1 + i < ?n" "q = ?E ! (x - 1 + i)"
        using nlen(1) by (auto simp: in_set_conv_nth id2l_list_def length_entries less_diff_conv add.commute)
      then show "mid p < mid q" using gap E(1) [of "x - 1 + i"] s(1) by simp
    qed
    have "sorted_wrt (\<lambda>p q. mid p < mid q) (id2l_list ids2)"
      unfolding st(3) using assms(1) lo hi
      by (intro sorted_insert_at) (simp_all add: id2l_ok_def id2l_list_def)
    then have "id2l_ok ids2" using assms(1) st ins(2) by (simp add: id2l_ok_def id2l_list_def)
    moreover have "set (id2l_list ids2) = insert p (set (take (x - 1) ?E @ drop (x - 1) ?E))"
      unfolding st(3) by (simp del: append_take_drop_id)
    ultimately show ?thesis using ins ri by simp
  qed
qed

lemma mid2l_append_spec:
  assumes "id2l_ok ids" "\<forall>q \<in> set (id2l_list ids). mid q < mid p" "mdb_mid2l_append ids p = (r, ids')"
  shows "id2l_ok ids' \<and>
    (if mid (ids ! 0) = MDB_IDL_UM_MAX then r = -2 \<and> ids' = ids
     else r = 0 \<and> id2l_list ids' = id2l_list ids @ [p])"
proof (cases "mid (ids ! 0) = MDB_IDL_UM_MAX")
  case True
  then show ?thesis using assms by (simp add: mdb_mid2l_append_def)
next
  case False
  let ?n = "mid (ids ! 0)"
  let ?b = "(ids[0 := (ids ! 0)\<lparr>mid := ?n + 1\<rparr>])[?n + 1 := p]"
  have n: "?n < MDB_IDL_UM_MAX" "?n + 1 < length ids" using assms(1) False um_size by (auto simp: id2l_ok_def)
  then have pos: "0 < length ids" by linarith
  have r: "r = 0" "ids' = ?b" using assms(3) n(1) pos by (simp_all add: mdb_mid2l_append_def Let_def)
  have c: "mid (?b ! 0) = ?n + 1" using pos by simp
  have "entries ?b (?n + 1) = entries ids ?n @ [p]"
    using n(2) by (intro nth_equalityI) (auto simp: length_entries entries_nth nth_append nth_list_update)
  then have l: "id2l_list ?b = id2l_list ids @ [p]" unfolding id2l_list_def c .
  have "sorted_wrt (\<lambda>p q. mid p < mid q) (id2l_list ?b)"
    unfolding l using assms(1,2) by (simp add: sorted_wrt_append id2l_ok_def id2l_list_def)
  then have "id2l_ok ?b" using assms(1) n(1) c by (simp add: id2l_ok_def id2l_list_def)
  then show ?thesis using False r l by simp
qed

section \<open>Merge\<close>

text \<open>
  While the merge runs the array is the delimiter, the entries \<open>A\<close> not yet moved, a gap \<open>G\<close> as long
  as what is left to merge, and the merged tail \<open>R\<close>.
\<close>

lemma xmerge_scan_spec:
  assumes "length G = Suc i" "m \<le> mx"
  shows "\<exists>A' B G'. A = A' @ B \<and> length G' = Suc i \<and> (\<forall>b \<in> set B. b < m)
      \<and> m \<le> last (mx # A')
      \<and> xmerge_scan (mx # A @ G @ R @ T) (length A) (length A + Suc i) (last (mx # A)) m
        = Some (mx # A' @ G' @ B @ R @ T, length A', length A' + Suc i, last (mx # A'))"
  using assms(1)
proof (induction A arbitrary: G R rule: rev_induct)
  case Nil
  then show ?case
    using assms(2) by (intro exI [of _ "[]"] exI [of _ G]) (simp add: xmerge_scan.simps)
next
  case (snoc a A)
  show ?case
  proof (cases "a < m")
    case False
    then show ?thesis
      using snoc.prems by (intro exI [of _ "A @ [a]"] exI [of _ "[]"] exI [of _ G])
        (simp add: xmerge_scan.simps)
  next
    case True
    obtain G0 g where G: "G = G0 @ [g]" "length G0 = i"
      using snoc.prems by (cases G rule: rev_cases) auto
    have upd: "(mx # (A @ [a]) @ G @ R @ T)[length (A @ [a]) + Suc i := a] = mx # A @ (a # G0) @ (a # R) @ T"
      using G by (simp add: list_update_append)
    have at: "(mx # A @ X) ! length A = last (mx # A)" for X :: "mdb_id list"
      by (cases A rule: rev_cases) (simp_all add: nth_append)
    have step: "xmerge_scan (mx # (A @ [a]) @ G @ R @ T) (length (A @ [a])) (length (A @ [a]) + Suc i)
          (last (mx # A @ [a])) m
        = xmerge_scan (mx # A @ (a # G0) @ (a # R) @ T) (length A) (length A + Suc i) (last (mx # A)) m"
      using True upd at by (subst xmerge_scan.simps) (simp add: Let_def)
    have "length (a # G0) = Suc i" using G(2) by simp
    from snoc.IH [OF this, of "a # R"] obtain A' B G' where
      i: "A = A' @ B" "length G' = Suc i" "\<forall>b \<in> set B. b < m" "m \<le> last (mx # A')"
        "xmerge_scan (mx # A @ (a # G0) @ (a # R) @ T) (length A) (length A + Suc i) (last (mx # A)) m
          = Some (mx # A' @ G' @ B @ (a # R) @ T, length A', length A' + Suc i, last (mx # A'))"
      by blast
    show ?thesis
      using i True step by (intro exI [of _ A'] exI [of _ "B @ [a]"] exI [of _ G']) simp
  qed
qed

lemma sorted_desc_last:
  "sorted_wrt (\<ge>) A \<Longrightarrow> (m::nat) \<le> last (mx # A) \<Longrightarrow> a \<in> set A \<Longrightarrow> m \<le> a"
  by (induction A rule: rev_induct) (auto simp: sorted_wrt_append)

lemma xmerge_loop_spec:
  assumes "length G = i" "i < length merge" "merge ! 0 = n" "\<forall>k. 0 < k \<and> k \<le> i \<longrightarrow> merge ! k \<le> mx"
    "sorted_wrt (\<ge>) (entries merge i @ R)" "sorted_wrt (\<ge>) (A @ R)"
  shows "\<exists>L. xmerge_loop (mx # A @ G @ R @ T) merge i (length A) (length A + i) (last (mx # A)) = Some (mx # L @ T)
     \<and> sorted_wrt (\<ge>) L \<and> mset L = mset A + mset (entries merge i) + mset R"
  using assms
proof (induction i arbitrary: A G R)
  case 0
  then show ?case by (auto simp: entries_def)
next
  case (Suc i)
  let ?m = "merge ! Suc i"
  have e: "entries merge (Suc i) = entries merge i @ [?m]"
    using Suc.prems(2) by (simp add: entries_def take_Suc_conv_app_nth)
  have "?m \<le> mx" using Suc.prems(4) by simp
  from xmerge_scan_spec [OF Suc.prems(1) this, of A R T] obtain A' B G' where
    s: "A = A' @ B" "length G' = Suc i" "\<forall>b \<in> set B. b < ?m" "?m \<le> last (mx # A')"
      "xmerge_scan (mx # A @ G @ R @ T) (length A) (length A + Suc i) (last (mx # A)) ?m
        = Some (mx # A' @ G' @ B @ R @ T, length A', length A' + Suc i, last (mx # A'))"
    by blast
  obtain G0 g where G: "G' = G0 @ [g]" "length G0 = i" using s(2) by (cases G' rule: rev_cases) auto
  have upd: "(mx # A' @ G' @ B @ R @ T)[length A' + Suc i := ?m] = mx # A' @ G0 @ (?m # B @ R) @ T"
    using G by (simp add: list_update_append)
  have step: "xmerge_loop (mx # A @ G @ R @ T) merge (Suc i) (length A) (length A + Suc i) (last (mx # A))
      = xmerge_loop (mx # A' @ G0 @ (?m # B @ R) @ T) merge i (length A') (length A' + i) (last (mx # A'))"
    unfolding xmerge_loop.simps s(5) option.case prod.case upd by (simp only: add_Suc_right diff_Suc_1)
  have sA: "sorted_wrt (\<ge>) A'" "sorted_wrt (\<ge>) B" "sorted_wrt (\<ge>) R"
      "\<forall>a \<in> set A'. \<forall>b \<in> set B. b \<le> a" "\<forall>a \<in> set A' \<union> set B. \<forall>r \<in> set R. r \<le> a"
    using Suc.prems(6) s(1) by (auto simp: sorted_wrt_append)
  have sM: "sorted_wrt (\<ge>) (entries merge i)" "\<forall>x \<in> set (entries merge i). ?m \<le> x" "\<forall>r \<in> set R. r \<le> ?m"
      "\<forall>x \<in> set (entries merge i). \<forall>r \<in> set R. r \<le> x"
    using Suc.prems(5) unfolding e by (auto simp: sorted_wrt_append)
  have hiA: "\<forall>a \<in> set A'. ?m \<le> a" using sorted_desc_last [OF sA(1) s(4)] by blast
  have 1: "sorted_wrt (\<ge>) (A' @ ?m # B @ R)"
    using sA sM s(3) hiA by (auto simp: sorted_wrt_append)
  have 2: "sorted_wrt (\<ge>) (entries merge i @ ?m # B @ R)"
    using sA sM s(3) by (force simp: sorted_wrt_append)
  have "\<exists>L. xmerge_loop (mx # A' @ G0 @ (?m # B @ R) @ T) merge i (length A') (length A' + i) (last (mx # A'))
        = Some (mx # L @ T)
     \<and> sorted_wrt (\<ge>) L \<and> mset L = mset A' + mset (entries merge i) + mset (?m # B @ R)"
    using Suc.prems(2-4) 1 2 by (intro Suc.IH G(2)) auto
  then obtain L where L: "xmerge_loop (mx # A' @ G0 @ (?m # B @ R) @ T) merge i (length A') (length A' + i)
      (last (mx # A')) = Some (mx # L @ T)" "sorted_wrt (\<ge>) L"
    "mset L = mset A' + mset (entries merge i) + mset (?m # B @ R)" by blast
  have "mset L = mset A + mset (entries merge (Suc i)) + mset R" by (simp add: L(3) e s(1))
  with L(1,2) step show ?case by metis
qed

lemma mdb_midl_xmerge_spec:
  assumes "idl ! 0 + merge ! 0 < length idl" "merge ! 0 < length merge"
    "sorted_wrt (\<ge>) (entries idl (idl ! 0))" "sorted_wrt (\<ge>) (entries merge (merge ! 0))"
    "\<forall>x \<in> set (entries merge (merge ! 0)). x < 2 ^ 64"
  shows "\<exists>idl'. mdb_midl_xmerge idl merge = Some idl' \<and> length idl' = length idl
     \<and> idl' ! 0 = idl ! 0 + merge ! 0
     \<and> sorted_wrt (\<ge>) (entries idl' (idl' ! 0))
     \<and> mset (entries idl' (idl' ! 0)) = mset (entries idl (idl ! 0)) + mset (entries merge (merge ! 0))"
proof -
  let ?i = "merge ! 0" and ?j = "idl ! 0" and ?mx = "2 ^ 64 - 1 :: nat"
  define A where "A = entries idl ?j"
  define G where "G = take ?i (drop (?j + 1) idl)"
  define T where "T = drop (?j + ?i + 1) idl"
  have jl: "?j < length idl" using assms(1) by simp
  have lens: "length A = ?j" "length G = ?i" using assms(1) by (simp_all add: A_def G_def length_entries)
  have "drop (?j + 1) idl = G @ T"
    unfolding G_def T_def by (metis add.assoc add.commute append_take_drop_id drop_drop)
  then have idl: "idl = ?j # A @ G @ [] @ T" using split_entries [OF jl] by (simp add: A_def)
  then have idl0: "idl[0 := ?mx] = ?mx # A @ G @ [] @ T" by (metis list_update_code(2))
  have at: "(?mx # A @ X) ! ?j = last (?mx # A)" for X :: "mdb_id list"
    using lens(1) by (cases A rule: rev_cases) (simp_all add: nth_append flip: lens(1))
  have "merge ! k \<le> ?mx" if "0 < k" "k \<le> ?i" for k
  proof -
    have "merge ! k = entries merge ?i ! (k - 1)" using that assms(2) by (simp add: entries_nth)
    then have "merge ! k \<in> set (entries merge ?i)"
      using that assms(2) by (metis Suc_pred' length_entries nth_mem less_eq_Suc_le)
    then show ?thesis using assms(5) by fastforce
  qed
  then obtain L where L: "xmerge_loop (?mx # A @ G @ [] @ T) merge ?i (length A) (length A + ?i) (last (?mx # A))
        = Some (?mx # L @ T)" "sorted_wrt (\<ge>) L" "mset L = mset A + mset (entries merge ?i) + mset []"
    using xmerge_loop_spec [OF lens(2) assms(2) refl, of ?mx "[]" A T] assms(3,4) by (auto simp: A_def)
  have "mdb_midl_xmerge idl merge = Some ((?i + ?j) # L @ T)"
    using L(1) idl0 at lens(1) by (simp add: mdb_midl_xmerge_def Let_def add.commute del: append_Nil)
  moreover have len: "length L = ?i + ?j"
  proof -
    have "length L = size (mset A + mset (entries merge ?i) + mset [])" by (metis L(3) size_mset)
    then show ?thesis using lens assms(2) by (simp add: length_entries)
  qed
  moreover have "entries ((?i + ?j) # L @ T) (?i + ?j) = L" using len by (simp add: entries_def)
  moreover have "length ((?i + ?j) # L @ T) = length idl"
    using len lens by (subst idl) simp
  ultimately show ?thesis using L(2,3) by (simp add: A_def add.commute)
qed

end
