(* ===== verification/Midl_Sort.thy ===== *)
theory Midl_Sort
  imports Midl
begin

text \<open>
  \<open>mdb_midl_sort\<close> of \<open>liblmdb/midl.c\<close> sorts: the insertion sort and the partition step rearrange a
  segment, and the main loop keeps every pair of cells in order that is not inside one pending
  segment. The loop ends, and the pending segments fit in \<open>istack\<close>.
\<close>

section \<open>Rearrangement of a segment\<close>

definition rearr :: "nat \<Rightarrow> nat \<Rightarrow> mdb_id list \<Rightarrow> mdb_id list \<Rightarrow> bool" where
  "rearr l r ids ids' \<longleftrightarrow> length ids' = length ids \<and> mset ids' = mset ids
     \<and> (\<forall>k < length ids. k < l \<or> r < k \<longrightarrow> ids' ! k = ids ! k)"

lemma rearr_refl: "rearr l r ids ids"
  by (simp add: rearr_def)

lemma rearr_trans: "rearr l r a b \<Longrightarrow> rearr l r b c \<Longrightarrow> rearr l r a c"
  by (simp add: rearr_def)

lemma rearr_mono: "rearr l r a b \<Longrightarrow> l' \<le> l \<Longrightarrow> r \<le> r' \<Longrightarrow> rearr l' r' a b"
  by (simp add: rearr_def)

lemma midl_swap_nth:
  "a < length ids \<Longrightarrow> b < length ids \<Longrightarrow> k < length ids \<Longrightarrow>
    midl_swap ids a b ! k = (if k = b then ids ! a else if k = a then ids ! b else ids ! k)"
  by (simp add: midl_swap_def nth_list_update)

lemma length_midl_swap [simp]: "length (midl_swap ids a b) = length ids"
  by (simp add: midl_swap_def)

lemma rearr_swap:
  assumes "l \<le> a" "a \<le> r" "l \<le> b" "b \<le> r" "r < length ids"
  shows "rearr l r ids (midl_swap ids a b)"
proof -
  have "mset (midl_swap ids a b) = mset ids"
    using assms mset_swap [of b ids a] by (simp add: midl_swap_def)
  then show ?thesis using assms by (simp add: rearr_def midl_swap_nth)
qed

lemma rearr_value:
  assumes "rearr l r ids ids'" "r < length ids" "l \<le> p" "p \<le> r"
  shows "\<exists>q. l \<le> q \<and> q \<le> r \<and> ids' ! p = ids ! q"
proof -
  define slice where "slice xs = take (r + 1 - l) (drop l xs)" for xs :: "mdb_id list"
  have split: "xs = take l xs @ slice xs @ drop (r + 1) xs" for xs :: "mdb_id list"
  proof -
    have "drop (r + 1) xs = drop (r + 1 - l) (drop l xs)" using assms(3,4) by simp
    then show ?thesis unfolding slice_def by (metis append_take_drop_id)
  qed
  have len: "length ids' = length ids" and m: "mset ids' = mset ids" using assms(1) by (auto simp: rearr_def)
  have "take l ids' = take l ids"
    using assms by (intro nth_equalityI) (auto simp: rearr_def)
  moreover have "drop (r + 1) ids' = drop (r + 1) ids"
    using assms by (intro nth_equalityI) (auto simp: rearr_def)
  ultimately have "mset (slice ids') = mset (slice ids)"
    using m arg_cong [OF split [of ids], of mset] arg_cong [OF split [of ids'], of mset] by simp
  moreover have "ids' ! p \<in> set (slice ids')"
  proof -
    have "slice ids' ! (p - l) = ids' ! p" "p - l < length (slice ids')"
      using assms(2-4) len by (simp_all add: slice_def)
    then show ?thesis by (metis nth_mem)
  qed
  ultimately have "ids' ! p \<in> set (slice ids)" by (metis mset_eq_setD)
  then obtain k where "k < length (slice ids)" "slice ids ! k = ids' ! p" by (auto simp: in_set_conv_nth)
  then show ?thesis using assms(2-4) by (intro exI [of _ "l + k"]) (auto simp: slice_def)
qed

section \<open>Insertion sort\<close>

lemma insertion_sink_spec:
  assumes "P = [] \<or> a \<le> last P"
  shows "\<exists>S1 S2. S = S1 @ S2 \<and> (\<forall>s \<in> set S2. s < a) \<and> (S1 = [] \<or> a \<le> last S1)
    \<and> insertion_sink (c # P @ S @ [h] @ T) (length P + length S) a = c # P @ S1 @ a # S2 @ T"
proof (induction S arbitrary: h T rule: rev_induct)
  case Nil
  have "insertion_sink (c # P @ [h] @ T) (length P) a = c # P @ a # T"
  proof (cases P rule: rev_cases)
    case (snoc P0 p)
    then show ?thesis using assms by (simp add: nth_append list_update_append)
  qed simp
  then show ?case by (intro exI [of _ "[]"]) simp
next
  case (snoc s S)
  have at: "(c # P @ (S @ [s]) @ [h] @ T) ! Suc (length P + length S) = s" by (simp add: nth_append)
  have upd: "(c # P @ (S @ [s]) @ [h] @ T)[Suc (length P + length S) + 1 := x] = c # P @ S @ [s] @ x # T" for x
    by (simp add: list_update_append)
  have step: "insertion_sink (c # P @ (S @ [s]) @ [h] @ T) (length P + length (S @ [s])) a
      = (if s \<ge> a then c # P @ S @ [s] @ a # T
         else insertion_sink (c # P @ S @ [s] @ s # T) (length P + length S) a)"
    unfolding length_append list.size add_Suc_right add_0_right insertion_sink.simps at upd ..
  show ?case
  proof (cases "s \<ge> a")
    case True
    then show ?thesis unfolding step by (intro exI [of _ "S @ [s]"] exI [of _ "[]"]) simp
  next
    case False
    obtain S1 S2 where i: "S = S1 @ S2" "\<forall>s \<in> set S2. s < a" "S1 = [] \<or> a \<le> last S1"
      "insertion_sink (c # P @ S @ [s] @ s # T) (length P + length S) a = c # P @ S1 @ a # S2 @ s # T"
      using snoc.IH [of s "s # T"] by blast
    show ?thesis using i False unfolding step by (intro exI [of _ S1] exI [of _ "S2 @ [s]"]) auto
  qed
qed

lemma sorted_desc_ge_last: "sorted_wrt (\<ge>) S \<Longrightarrow> (a::nat) \<le> last S \<Longrightarrow> s \<in> set S \<Longrightarrow> a \<le> s"
  by (induction S rule: rev_induct) (auto simp: sorted_wrt_append)

lemma insertion_fold_spec:
  assumes "D \<noteq> []" "sorted_wrt (\<ge>) D" "P = [] \<or> (\<forall>s \<in> set (D @ U). s \<le> last P)"
  shows "\<exists>S. fold (\<lambda>j ids. insertion_sink ids (j - 1) (ids ! j))
        [Suc (length P) + length D..<Suc (length P) + length D + length U] (c # P @ D @ U @ T)
      = c # P @ S @ T \<and> sorted_wrt (\<ge>) S \<and> mset S = mset (D @ U)"
  using assms
proof (induction U arbitrary: D)
  case (Cons a U)
  let ?j = "Suc (length P) + length D"
  have "P = [] \<or> a \<le> last P" using Cons.prems(3) by auto
  from insertion_sink_spec [OF this, of D c a "U @ T"] obtain S1 S2 where
    s: "D = S1 @ S2" "\<forall>s \<in> set S2. s < a" "S1 = [] \<or> a \<le> last S1"
      "insertion_sink (c # P @ D @ [a] @ U @ T) (length P + length D) a = c # P @ S1 @ a # S2 @ U @ T" by blast
  let ?D = "S1 @ a # S2"
  have at: "(c # P @ D @ (a # U) @ T) ! ?j = a" by (simp add: nth_append)
  have "\<forall>s \<in> set S1. a \<le> s"
    using s(1,3) Cons.prems(2) sorted_desc_ge_last [of S1 a] by (auto simp: sorted_wrt_append)
  then have sD: "sorted_wrt (\<ge>) ?D" using s(1,2) Cons.prems(2) by (auto simp: sorted_wrt_append)
  have "\<exists>S. fold (\<lambda>j ids. insertion_sink ids (j - 1) (ids ! j))
        [Suc (length P) + length ?D..<Suc (length P) + length ?D + length U] (c # P @ ?D @ U @ T)
      = c # P @ S @ T \<and> sorted_wrt (\<ge>) S \<and> mset S = mset (?D @ U)"
    using Cons.prems(3) s(1) by (intro Cons.IH sD) auto
  moreover have "fold (\<lambda>j ids. insertion_sink ids (j - 1) (ids ! j))
        [?j..<?j + length (a # U)] (c # P @ D @ (a # U) @ T)
      = fold (\<lambda>j ids. insertion_sink ids (j - 1) (ids ! j))
        [Suc (length P) + length ?D..<Suc (length P) + length ?D + length U] (c # P @ ?D @ U @ T)"
  proof -
    have "[?j..<?j + length (a # U)] = ?j # [Suc ?j..<?j + length (a # U)]" by (simp add: upt_rec)
    then have "[?j..<?j + length (a # U)]
        = ?j # [Suc (length P) + length ?D..<Suc (length P) + length ?D + length U]" using s(1) by simp
    moreover have "insertion_sink (c # P @ D @ (a # U) @ T) (?j - 1) ((c # P @ D @ (a # U) @ T) ! ?j)
        = c # P @ ?D @ U @ T" unfolding at using s(4) by simp
    ultimately show ?thesis by (simp only: fold_Cons o_apply)
  qed
  moreover have "mset (?D @ U) = mset (D @ a # U)" using s(1) by simp
  ultimately show ?case by metis
qed auto

lemma insertion_sort_spec:
  assumes "1 \<le> l" "l \<le> r + 1" "r < length ids"
    "l = 1 \<or> (\<forall>k. l \<le> k \<and> k \<le> r \<longrightarrow> ids ! k \<le> ids ! (l - 1))"
  shows "rearr l r ids (insertion_sort ids l r)"
    and "\<And>p q. l \<le> p \<Longrightarrow> p < q \<Longrightarrow> q \<le> r \<Longrightarrow> insertion_sort ids l r ! q \<le> insertion_sort ids l r ! p"
proof -
  define S where "S = take (r + 1 - l) (drop l ids)"
  define P where "P = take (l - 1) (drop 1 ids)"
  define T where "T = drop (r + 1) ids"
  have dl: "drop l ids = S @ T"
  proof -
    have "drop (r + 1) ids = drop (r + 1 - l) (drop l ids)" using assms(2) by simp
    then show ?thesis unfolding S_def T_def by (metis append_take_drop_id)
  qed
  have "drop 1 ids = P @ drop l ids"
    using assms(1) unfolding P_def by (metis append_take_drop_id drop_drop le_add_diff_inverse2)
  then have ids: "ids = ids ! 0 # P @ S @ T" using assms(3) dl by (cases ids) simp_all
  have lens: "length P = l - 1" "length S = r + 1 - l" using assms(1-3) by (simp_all add: P_def S_def)
  have S: "S ! k = ids ! (l + k)" if "k < r + 1 - l" for k using that assms(3) by (simp add: S_def)
  have low: "P = [] \<or> (\<forall>s \<in> set S. s \<le> last P)"
  proof (cases "l = 1")
    case False
    then obtain m where m: "l = Suc (Suc m)" using assms(1) by (metis One_nat_def Suc_le_D Suc_le_mono le0 not0_implies_Suc)
    have "length P = Suc m" "P ! m = ids ! Suc m" using lens(1) assms(2,3) m by (simp_all add: P_def)
    then have "last P = ids ! (l - 1)" using m by (metis diff_Suc_1 last_conv_nth list.size(3) nat.distinct(1))
    then show ?thesis using False assms(4) S lens by (auto simp: in_set_conv_nth)
  qed (simp add: P_def)
  have "\<exists>S'. insertion_sort ids l r = ids ! 0 # P @ S' @ T \<and> sorted_wrt (\<ge>) S' \<and> mset S' = mset S"
  proof (cases S)
    case Nil
    then have "insertion_sort ids l r = ids" using lens(2) by (simp add: insertion_sort_def)
    then show ?thesis using Nil ids by (intro exI [of _ "[]"]) simp
  next
    case (Cons s U)
    have b: "Suc (length P) + length [s] = l + 1" "l + 1 + length U = r + 1"
      using lens Cons assms(1,2) by auto
    have "P = [] \<or> (\<forall>x \<in> set ([s] @ U). x \<le> last P)" using low Cons by simp
    note f = insertion_fold_spec [OF _ _ this, of "ids ! 0" T, unfolded b]
    have "\<exists>S'. fold (\<lambda>j ids. insertion_sink ids (j - 1) (ids ! j)) [l + 1..<r + 1] (ids ! 0 # P @ [s] @ U @ T)
        = ids ! 0 # P @ S' @ T \<and> sorted_wrt (\<ge>) S' \<and> mset S' = mset ([s] @ U)" by (rule f) simp_all
    then obtain S' where S': "fold (\<lambda>j ids. insertion_sink ids (j - 1) (ids ! j)) [l + 1..<r + 1] (ids ! 0 # P @ [s] @ U @ T)
        = ids ! 0 # P @ S' @ T" "sorted_wrt (\<ge>) S'" "mset S' = mset ([s] @ U)" by blast
    have "ids ! 0 # P @ [s] @ U @ T = ids" using ids Cons by simp
    then have "insertion_sort ids l r = ids ! 0 # P @ S' @ T"
      using S'(1) unfolding insertion_sort_def by (simp only:)
    then show ?thesis using S'(2,3) Cons by (intro exI [of _ S']) simp
  qed
  then obtain S' where S': "insertion_sort ids l r = ids ! 0 # P @ S' @ T" "sorted_wrt (\<ge>) S'" "mset S' = mset S"
    by blast
  have len': "length S' = length S" using S'(3) by (metis size_mset)
  have nth: "insertion_sort ids l r ! k = (if l \<le> k \<and> k \<le> r then S' ! (k - l) else ids ! k)"
    if "k < length ids" for k
  proof -
    have k: "ids ! k = (ids ! 0 # P @ S @ T) ! k" using ids by simp
    consider "k < l" | d where "k = l + d" "k \<le> r" | "r < k" by (metis le_Suc_ex not_le)
    then show ?thesis
    proof cases
      case 1
      then show ?thesis using k lens(1) unfolding S'(1) by (cases k) (simp_all add: nth_append less_diff_conv)
    next
      case 2
      then show ?thesis using assms(1) lens len' unfolding S'(1) by (cases k) (auto simp: nth_append)
    next
      case 3
      then have "k = Suc (length P + (length S + (k - Suc r)))" using lens assms(1,2) by simp
      then obtain e where e: "k = Suc (length P + (length S + e))" ..
      have "(c # P @ Q @ T) ! k = T ! e" if "length Q = length S" for c Q using that by (simp add: e nth_append)
      then show ?thesis using 3 k len' unfolding S'(1) by simp
    qed
  qed
  have "length (insertion_sort ids l r) = length ids" "mset (insertion_sort ids l r) = mset ids"
    using S' len' arg_cong [OF ids, of length] arg_cong [OF ids, of mset] by simp_all
  then show "rearr l r ids (insertion_sort ids l r)" using nth by (simp add: rearr_def)
  fix p q assume pq: "l \<le> p" "p < q" "q \<le> r"
  then have "S' ! (q - l) \<le> S' ! (p - l)"
    using len' lens(2) by (intro sorted_wrt_nth_less [OF S'(2)]) simp_all
  then show "insertion_sort ids l r ! q \<le> insertion_sort ids l r ! p" using pq nth assms(3) by simp
qed

section \<open>Partition\<close>

lemma scan_up_spec:
  assumes "ids ! t \<le> a" "i < t" "t < length ids"
  shows "\<exists>i'. scan_up ids i a = Some i' \<and> i < i' \<and> i' \<le> t \<and> ids ! i' \<le> a
    \<and> (\<forall>k. i < k \<and> k < i' \<longrightarrow> a < ids ! k)"
  using assms
proof (induction ids i a rule: scan_up.induct)
  case (1 ids i a)
  have i: "i + 1 < length ids" using 1(3,4) by simp
  show ?case
  proof (cases "ids ! (i + 1) > a")
    case True
    then have "i + 1 < t" using 1(2,3) by (metis Suc_eq_plus1 Suc_lessI not_le)
    from "1.IH" [OF i True "1.prems"(1) this "1.prems"(3)] obtain i' where
      "scan_up ids (i + 1) a = Some i'" "i + 1 < i'" "i' \<le> t" "ids ! i' \<le> a"
      "\<forall>k. i + 1 < k \<and> k < i' \<longrightarrow> a < ids ! k" by blast
    moreover have "a < ids ! k" if "i < k" "k < i'" for k
      using that True calculation(5) by (cases "k = i + 1") simp_all
    ultimately show ?thesis using i True by (subst scan_up.simps) auto
  next
    case False
    then show ?thesis using i 1(3) by (subst scan_up.simps) auto
  qed
qed

lemma scan_down_spec:
  assumes "a \<le> ids ! t" "t < j"
  shows "\<exists>j'. scan_down ids j a = Some j' \<and> t \<le> j' \<and> j' < j \<and> a \<le> ids ! j'
    \<and> (\<forall>k. j' < k \<and> k < j \<longrightarrow> ids ! k < a)"
  using assms
proof (induction j)
  case (Suc j)
  show ?case
  proof (cases "ids ! j < a")
    case True
    then have "t < j" using Suc.prems by (metis less_SucE not_le)
    from Suc.IH [OF Suc.prems(1) this] show ?thesis using True by (auto simp: less_Suc_eq)
  next
    case False
    then show ?thesis using Suc.prems by auto
  qed
qed simp

text \<open>
  One run of the partition loop on the cells \<open>l\<close> to \<open>r\<close>, the pivot \<open>a\<close> being in cell \<open>l + 1\<close>: it ends
  with \<open>j < i\<close>, the cells below \<open>i\<close> at least \<open>a\<close> and those above \<open>j\<close> at most \<open>a\<close>.
\<close>

definition halves :: "mdb_id list \<Rightarrow> nat \<Rightarrow> nat \<Rightarrow> mdb_id \<Rightarrow> nat \<Rightarrow> nat \<Rightarrow> bool" where
  "halves ids l r a i j \<longleftrightarrow> (\<forall>k. l \<le> k \<and> k < i \<longrightarrow> a \<le> ids ! k) \<and> (\<forall>k. j < k \<and> k \<le> r \<longrightarrow> ids ! k \<le> a)"

lemma partition_loop_spec:
  assumes "l + 1 \<le> i" "i \<le> j" "j \<le> r" "i < r" "r < length ids" "i = j \<Longrightarrow> l + 2 \<le> i"
    "\<forall>k. l \<le> k \<and> k \<le> i \<longrightarrow> a \<le> ids ! k" "\<forall>k. j \<le> k \<and> k \<le> r \<longrightarrow> ids ! k \<le> a"
  shows "\<exists>ids' i' j'. partition_loop ids i j a = Some (ids', i', j') \<and> rearr (l + 2) r ids ids'
    \<and> l + 1 \<le> j' \<and> j' < i' \<and> i' \<le> r \<and> halves ids' l r a i' j'"
  using assms
proof (induction j arbitrary: ids i rule: less_induct)
  case (less j)
  define t where "t = (if i < j then j else j + 1)"
  have "ids ! t \<le> a" "i < t" "t < length ids" "t \<le> r" using less.prems by (auto simp: t_def)
  then obtain i' where i': "scan_up ids i a = Some i'" "i < i'" "i' \<le> r" "i' \<le> t" "ids ! i' \<le> a"
    "\<forall>k. i < k \<and> k < i' \<longrightarrow> a < ids ! k" using scan_up_spec [of ids t a i] by (meson order.trans)
  define u where "u = (if i < j then i else j - 1)"
  have "a \<le> ids ! u" "u < j" "l + 1 \<le> u" using less.prems by (auto simp: u_def)
  then obtain j' where j': "scan_down ids j a = Some j'" "l + 1 \<le> j'" "j' < j" "a \<le> ids ! j'"
    "\<forall>k. j' < k \<and> k < j \<longrightarrow> ids ! k < a" using scan_down_spec [of a ids u j] by (meson order.trans)
  have hi: "a \<le> ids ! k" if "l \<le> k" "k < i'" for k
    using that less.prems(7) i'(6) by (meson less_imp_le not_le)
  have lo: "ids ! k \<le> a" if "j' < k" "k \<le> r" for k
    using that less.prems(8) j'(5) by (meson less_imp_le not_le)
  have step: "partition_loop ids i j a
      = (if j' < i' then Some (ids, i', j') else partition_loop (midl_swap ids i' j') i' j' a)"
    by (subst partition_loop.simps) (simp add: i'(1) j'(1))
  show ?case
  proof (cases "j' < i'")
    case True
    then show ?thesis unfolding step using i'(3) j'(2) hi lo
      by (intro exI [of _ ids] exI [of _ i'] exI [of _ j']) (simp add: rearr_refl halves_def)
  next
    case False
    let ?s = "midl_swap ids i' j'"
    have b: "l + 2 \<le> i'" "i' \<le> j'" "j' < r" using i'(2) less.prems(1,3) False j'(3) by auto
    then have nth: "?s ! k = (if k = j' then ids ! i' else if k = i' then ids ! j' else ids ! k)"
      if "k \<le> r" for k using that less.prems(5) by (intro midl_swap_nth) simp_all
    have "\<forall>k. l \<le> k \<and> k \<le> i' \<longrightarrow> a \<le> ?s ! k"
    proof (intro allI impI)
      fix k assume "l \<le> k \<and> k \<le> i'"
      then show "a \<le> ?s ! k" using b nth [of k] hi [of k] j'(4) by (cases "k = i'") auto
    qed
    moreover have "\<forall>k. j' \<le> k \<and> k \<le> r \<longrightarrow> ?s ! k \<le> a"
    proof (intro allI impI)
      fix k assume "j' \<le> k \<and> k \<le> r"
      then show "?s ! k \<le> a" using b nth [of k] lo [of k] i'(5) by (cases "k = j'") auto
    qed
    ultimately obtain ids' i2 j2 where r: "partition_loop ?s i' j' a = Some (ids', i2, j2)"
      "rearr (l + 2) r ?s ids'" "l + 1 \<le> j2" "j2 < i2" "i2 \<le> r" "halves ids' l r a i2 j2"
      using less.IH [OF j'(3), of i' ?s] b less.prems(5) by auto
    have "rearr (l + 2) r ids ?s" using b less.prems(5) by (intro rearr_swap) simp_all
    then have "rearr (l + 2) r ids ids'" using r(2) by (rule rearr_trans)
    then show ?thesis using r False unfolding step by auto
  qed
qed

lemma median_of_three_spec:
  assumes "l + 2 < r" "r < length ids"
  defines "m \<equiv> median_of_three ids l r"
  shows "rearr l r ids m" "m ! (l + 1) \<le> m ! l" "m ! r \<le> m ! (l + 1)"
proof -
  define m1 where "m1 = midl_swap ids (drop_bit 1 (l + r)) (l + 1)"
  define m2 where "m2 = (if m1 ! l < m1 ! r then midl_swap m1 l r else m1)"
  define m3 where "m3 = (if m2 ! (l + 1) < m2 ! r then midl_swap m2 (l + 1) r else m2)"
  have m: "m = (if m3 ! l < m3 ! (l + 1) then midl_swap m3 l (l + 1) else m3)"
    by (simp add: m_def median_of_three_def Let_def m1_def m2_def m3_def)
  have len: "length m1 = length ids" "length m2 = length ids" "length m3 = length ids" "length m = length ids"
    by (simp_all add: m1_def m2_def m3_def m)
  have r1: "rearr l r ids m1" unfolding m1_def using assms(1,2) by (intro rearr_swap) (auto simp: drop_bit_eq_div)
  have r2: "rearr l r m1 m2" using assms(1,2) len by (auto simp: m2_def intro: rearr_swap rearr_refl)
  have r3: "rearr l r m2 m3" using assms(1,2) len by (auto simp: m3_def intro: rearr_swap rearr_refl)
  have r4: "rearr l r m3 m" using assms(1,2) len by (auto simp: m intro: rearr_swap rearr_refl)
  show "rearr l r ids m" using r1 r2 r3 r4 by (blast intro: rearr_trans)
  have 2: "m2 ! r \<le> m2 ! l" using assms(1,2) len by (auto simp: m2_def midl_swap_nth)
  have 3: "m3 ! r \<le> m3 ! l" "m3 ! r \<le> m3 ! (l + 1)"
    using 2 assms(1,2) len by (auto simp: m3_def midl_swap_nth)
  show "m ! (l + 1) \<le> m ! l" "m ! r \<le> m ! (l + 1)"
    using 3 assms(1,2) len by (auto simp: m midl_swap_nth)
qed

text \<open>The whole step: median, partition and the pivot moved between the two halves.\<close>

definition pivot_move :: "mdb_id list \<Rightarrow> nat \<Rightarrow> nat \<Rightarrow> mdb_id \<Rightarrow> mdb_id list" where
  "pivot_move ids l j a = (ids[l + 1 := ids ! j])[j := a]"

lemma quick_step_spec:
  assumes "l + 2 < r" "r < length ids"
  defines "m \<equiv> median_of_three ids l r"
  shows "\<exists>ids' i j. partition_loop m (l + 1) r (m ! (l + 1)) = Some (ids', i, j)
    \<and> l + 1 \<le> j \<and> j < i \<and> i \<le> r \<and> rearr l r ids (pivot_move ids' l j (m ! (l + 1)))
    \<and> (\<forall>p q. l \<le> p \<and> p < q \<and> q \<le> r \<and> j \<le> q \<and> p < i \<longrightarrow>
          pivot_move ids' l j (m ! (l + 1)) ! q \<le> pivot_move ids' l j (m ! (l + 1)) ! p)"
proof -
  let ?a = "m ! (l + 1)"
  note med = median_of_three_spec [OF assms(1,2), folded m_def]
  have len: "length m = length ids" using med(1) by (simp add: rearr_def)
  have "\<forall>k. l \<le> k \<and> k \<le> l + 1 \<longrightarrow> ?a \<le> m ! k" using med(2) by (auto simp: le_Suc_eq dest: le_antisym)
  moreover have "\<forall>k. r \<le> k \<and> k \<le> r \<longrightarrow> m ! k \<le> ?a" using med(3) by (auto dest: le_antisym)
  ultimately obtain ids' i j where p: "partition_loop m (l + 1) r ?a = Some (ids', i, j)"
    "rearr (l + 2) r m ids'" "l + 1 \<le> j" "j < i" "i \<le> r" "halves ids' l r ?a i j"
    using partition_loop_spec [of l "l + 1" r r m ?a] assms(1,2) len by auto
  let ?f = "pivot_move ids' l j ?a"
  have len': "length ids' = length ids" using p(2) len by (simp add: rearr_def)
  have "ids' ! (l + 1) = ?a" using p(2) len assms(1,2) by (simp add: rearr_def)
  then have f: "?f = midl_swap ids' (l + 1) j" by (simp add: pivot_move_def midl_swap_def)
  have "rearr l r ids' ?f" unfolding f using p(3-5) len' assms(2) by (intro rearr_swap) simp_all
  moreover have "rearr l r m ids'" using p(2) by (rule rearr_mono) simp_all
  ultimately have "rearr l r ids ?f" using med(1) by (blast intro: rearr_trans)
  moreover have "?f ! q \<le> ?f ! p" if "l \<le> p" "p < q" "q \<le> r" "j \<le> q" "p < i" for p q
  proof -
    have v: "?f ! k = (if k = j then ?a else if k = l + 1 then ids' ! j else ids' ! k)" if "k \<le> r" for k
      using that p(3-5) len' assms(2) \<open>ids' ! (l + 1) = ?a\<close> unfolding f by (subst midl_swap_nth) auto
    have "?a \<le> ?f ! p" using v [of p] that p(3-6) by (auto simp: halves_def)
    moreover have "?f ! q \<le> ?a" using v [of q] that p(3-6) by (auto simp: halves_def)
    ultimately show ?thesis by (rule order.trans [rotated])
  qed
  ultimately show ?thesis using p by blast
qed

section \<open>The main loop\<close>

definition in_seg :: "int \<times> int \<Rightarrow> nat \<Rightarrow> bool" where
  "in_seg s p \<longleftrightarrow> fst s \<le> int p \<and> int p \<le> snd s"

definition seg_size :: "int \<times> int \<Rightarrow> nat" where
  "seg_size s = nat (snd s - fst s + 1)"

definition segs_ok :: "nat \<Rightarrow> (int \<times> int) list \<Rightarrow> bool" where
  "segs_ok N segs \<longleftrightarrow> (\<forall>(l, r) \<in> set segs. 1 \<le> l \<and> l \<le> r + 1 \<and> r \<le> int N)
     \<and> sorted_wrt (\<lambda>s t. snd s < fst t \<or> snd t < fst s) segs"

text \<open>Every pair of cells is in order or inside one pending segment.\<close>

definition ordered_but :: "nat \<Rightarrow> (int \<times> int) list \<Rightarrow> mdb_id list \<Rightarrow> bool" where
  "ordered_but N segs ids \<longleftrightarrow> (\<forall>p q. 1 \<le> p \<and> p < q \<and> q \<le> N \<longrightarrow>
     ids ! q \<le> ids ! p \<or> (\<exists>s \<in> set segs. in_seg s p \<and> in_seg s q))"

lemma segs_disjoint:
  assumes "segs_ok N (s # segs)" "in_seg s p" "in_seg t p" "t \<in> set segs"
  shows False
  using assms by (fastforce simp: segs_ok_def in_seg_def)

lemma rearr_ordered:
  assumes "segs_ok N ((int l, int r) # segs)" "ordered_but N ((int l, int r) # segs) ids"
    "rearr l r ids ids'" "N < length ids" "l \<le> r"
    and pq: "1 \<le> p" "p < q" "q \<le> N" "\<not> (l \<le> p \<and> q \<le> r)"
  shows "ids' ! q \<le> ids' ! p \<or> (\<exists>s \<in> set segs. in_seg s p \<and> in_seg s q)"
proof -
  let ?s = "(int l, int r)"
  have r: "r < length ids" using assms(1,4) by (auto simp: segs_ok_def)
  have one: "1 \<le> l" using assms(1) by (auto simp: segs_ok_def)
  have old: "ids' ! k = ids ! k" if "k < l \<or> r < k" "k \<le> N" for k
    using assms(3,4) that by (auto simp: rearr_def)
  have ord: "ids ! q \<le> ids ! p \<or> (\<exists>s \<in> set segs. in_seg s p \<and> in_seg s q)"
    if "1 \<le> p" "p < q" "q \<le> N" "\<not> (in_seg ?s p \<and> in_seg ?s q)" for p q
    using assms(2) that by (auto simp: ordered_but_def)
  have dis: False if "in_seg ?s k" "in_seg t k" "t \<in> set segs" for k t
    using segs_disjoint [OF assms(1) that] .
  consider "l \<le> p" "p \<le> r" "r < q" | "p < l" "l \<le> q" "q \<le> r" | "p < l \<or> r < p" "q < l \<or> r < q"
    using pq(2,4) by linarith
  then show ?thesis
  proof cases
    case 1
    obtain p' where "l \<le> p'" "p' \<le> r" "ids' ! p = ids ! p'" using rearr_value [OF assms(3) r 1(1,2)] by blast
    then show ?thesis
      using ord [of p' q] dis [of p'] 1 one pq(3) old [of q] by (auto simp: in_seg_def)
  next
    case 2
    obtain q' where "l \<le> q'" "q' \<le> r" "ids' ! q = ids ! q'" using rearr_value [OF assms(3) r 2(2,3)] by blast
    moreover have "r \<le> N" using assms(1) by (auto simp: segs_ok_def)
    ultimately show ?thesis
      using ord [of p q'] dis [of q'] 2 pq(1,3) old [of p] by (auto simp: in_seg_def)
  next
    case 3
    then show ?thesis using ord [OF pq(1-3)] old [of p] old [of q] pq by (auto simp: in_seg_def)
  qed
qed

text \<open>The bound on the stack: what is below a segment on the stack is at least twice as large.\<close>

fun depth_ok :: "nat \<Rightarrow> nat \<Rightarrow> (int \<times> int) list \<Rightarrow> bool" where
  "depth_ok N cur [] = (cur \<le> N)"
| "depth_ok N cur (s # stack) = (cur * 2 ^ Suc (length stack) \<le> N \<and> depth_ok N (seg_size s) stack)"

lemma depth_ok_le: "depth_ok N cur stack \<Longrightarrow> cur * 2 ^ length stack \<le> N"
  by (cases stack) auto

lemma depth_ok_mono: "depth_ok N cur stack \<Longrightarrow> cur' \<le> cur \<Longrightarrow> depth_ok N cur' stack"
  by (cases stack) (auto elim: order.trans [rotated] intro: mult_right_mono)

lemma depth_ok_push:
  assumes "depth_ok N cur stack" "2 * cur' \<le> cur" "seg_size s \<le> cur"
  shows "depth_ok N cur' (s # stack)"
proof -
  have "cur' * 2 ^ Suc (length stack) \<le> cur * 2 ^ length stack"
    using mult_right_mono [OF assms(2), of "2 ^ length stack"] by (simp add: ac_simps)
  also have "\<dots> \<le> N" by (rule depth_ok_le [OF assms(1)])
  finally show ?thesis using depth_ok_mono [OF assms(1,3)] unfolding depth_ok.simps ..
qed

lemma depth_bound:
  assumes "depth_ok N cur stack" "9 \<le> cur" "N < 2 ^ 31"
  shows "2 * length stack + 2 < ISTACK"
proof -
  have "9 * 2 ^ length stack \<le> cur * 2 ^ length stack" by (rule mult_right_mono [OF assms(2)]) simp
  also have "\<dots> \<le> N" by (rule depth_ok_le [OF assms(1)])
  finally have "2 ^ length stack < (2::nat) ^ 29" using assms(3) by simp
  then have "length stack < 29" by (rule power_less_imp_less_exp [rotated]) simp
  then show ?thesis by (simp add: ISTACK_def)
qed

text \<open>A finished segment leaves the list of pending ones.\<close>

lemma ordered_drop:
  assumes "segs_ok N ((int l, int r) # segs)" "ordered_but N ((int l, int r) # segs) ids"
    "rearr l r ids ids'" "N < length ids" "l \<le> r + 1"
    "\<And>p q. l \<le> p \<Longrightarrow> p < q \<Longrightarrow> q \<le> r \<Longrightarrow>
      ids' ! q \<le> ids' ! p \<or> (\<exists>s \<in> set segs'. in_seg s p \<and> in_seg s q)"
    "set segs \<subseteq> set segs'"
  shows "ordered_but N segs' ids'"
  unfolding ordered_but_def
proof (intro allI impI)
  fix p q assume pq: "1 \<le> p \<and> p < q \<and> q \<le> N"
  consider "l \<le> p" "q \<le> r" | "l \<le> r" "\<not> (l \<le> p \<and> q \<le> r)" | "l = r + 1" using assms(5) by linarith
  then show "ids' ! q \<le> ids' ! p \<or> (\<exists>s \<in> set segs'. in_seg s p \<and> in_seg s q)"
  proof cases
    case 1
    then show ?thesis using assms(6) pq by blast
  next
    case 2
    then show ?thesis using rearr_ordered [OF assms(1-4), of p q] pq assms(7) by blast
  next
    case 3
    then have same: "ids' ! k = ids ! k" if "k \<le> N" for k
      using assms(3,4) that by (cases "k < l") (simp_all add: rearr_def)
    have "\<not> in_seg (int l, int r) p" using 3 by (simp add: in_seg_def)
    then have "ids ! q \<le> ids ! p \<or> (\<exists>s \<in> set segs. in_seg s p \<and> in_seg s q)"
      using assms(2) pq by (auto simp: ordered_but_def)
    then show ?thesis using same [of p] same [of q] pq assms(7) by auto
  qed
qed

lemma rearr_widen: "rearr l r ids ids' \<Longrightarrow> 1 \<le> l \<Longrightarrow> r \<le> N \<Longrightarrow> rearr 1 N ids ids'"
  by (rule rearr_mono)

lemma ordered_before:
  assumes "segs_ok N ((int l, int r) # segs)" "ordered_but N ((int l, int r) # segs) ids" "2 \<le> l" "l \<le> k" "k \<le> r"
  shows "ids ! k \<le> ids ! (l - 1)"
proof -
  have "r \<le> N" using assms(1) by (auto simp: segs_ok_def)
  then have "1 \<le> l - 1 \<and> l - 1 < k \<and> k \<le> N" using assms(3-5) by linarith
  then have "ids ! k \<le> ids ! (l - 1)
      \<or> (\<exists>s \<in> set ((int l, int r) # segs). in_seg s (l - 1) \<and> in_seg s k)"
    using assms(2) unfolding ordered_but_def by blast
  moreover have "\<not> in_seg (int l, int r) (l - 1)" using assms(3) by (simp add: in_seg_def)
  moreover have "in_seg (int l, int r) k" using assms(4,5) by (simp add: in_seg_def)
  ultimately show ?thesis using segs_disjoint [OF assms(1)] by auto
qed

lemma segs_ok_split:
  assumes "segs_ok N ((l, r) # segs)" "l \<le> a" "a < b" "b \<le> r"
  shows "segs_ok N ((l, a) # (b, r) # segs)" "segs_ok N ((b, r) # (l, a) # segs)"
  using assms by (fastforce simp: segs_ok_def)+

text \<open>One round of the loop on a segment that is split.\<close>

lemma sort_loop_split:
  assumes "segs_ok N ((int l, int r) # stack)" "ordered_but N ((int l, int r) # stack) ids" "N < length ids"
    "depth_ok N (seg_size (int l, int r)) stack" "N < 2 ^ 30" "\<not> int r - int l < int SMALL"
  shows "\<exists>f a b s. sort_loop ids (int l) (int r) stack = sort_loop f (int a) (int b) (s # stack)
     \<and> rearr l r ids f \<and> segs_ok N ((int a, int b) # s # stack) \<and> ordered_but N ((int a, int b) # s # stack) f
     \<and> depth_ok N (seg_size (int a, int b)) (s # stack)
     \<and> seg_size (int a, int b) + seg_size s < seg_size (int l, int r)"
proof -
  have lr: "1 \<le> l" "r \<le> N" "l + 8 \<le> r" using assms(1,6) by (auto simp: segs_ok_def SMALL_def)
  define m where "m = median_of_three ids l r"
  obtain ids' i j where p: "partition_loop m (l + 1) r (m ! (l + 1)) = Some (ids', i, j)"
      "l + 1 \<le> j" "j < i" "i \<le> r" "rearr l r ids (pivot_move ids' l j (m ! (l + 1)))"
      "\<forall>p q. l \<le> p \<and> p < q \<and> q \<le> r \<and> j \<le> q \<and> p < i \<longrightarrow>
          pivot_move ids' l j (m ! (l + 1)) ! q \<le> pivot_move ids' l j (m ! (l + 1)) ! p"
    using quick_step_spec [of l r ids] lr assms(3) unfolding m_def by auto
  let ?f = "pivot_move ids' l j (m ! (l + 1))"
  let ?A = "(int l, int j - 1)" and ?B = "(int i, int r)"
  have cur: "seg_size (int l, int r) = r + 1 - l" "9 \<le> seg_size (int l, int r)" using lr by (simp_all add: seg_size_def)
  have sizes: "seg_size ?A = j - l" "seg_size ?B = r + 1 - i" using p(2-4) by (auto simp: seg_size_def)
  have room: "2 * length stack + 2 < ISTACK" by (rule depth_bound [OF assms(4) cur(2)]) (use assms(5) in simp)
  have step: "sort_loop ids (int l) (int r) stack = (if int r - int i + 1 \<ge> int j - int l
      then sort_loop ?f (int l) (int j - 1) (?B # stack) else sort_loop ?f (int i) (int r) (?A # stack))"
    using assms(5,6) p(1) room lr
    by (subst sort_loop.simps) (simp add: Let_def m_def pivot_move_def INT_MAX_def)
  have ord: "ordered_but N segs ?f" if "set segs = {?A, ?B} \<union> set stack" for segs
  proof (rule ordered_drop [OF assms(1,2) p(5) assms(3)])
    fix x y assume xy: "l \<le> x" "x < y" "y \<le> r"
    show "?f ! y \<le> ?f ! x \<or> (\<exists>s \<in> set segs. in_seg s x \<and> in_seg s y)"
    proof (cases "j \<le> y \<and> x < i")
      case True
      then show ?thesis using p(6) xy by blast
    next
      case False
      then have "in_seg ?A x \<and> in_seg ?A y \<or> in_seg ?B x \<and> in_seg ?B y"
        using xy p(2-4) by (auto simp: in_seg_def)
      then show ?thesis using that by auto
    qed
  qed (use lr that in auto)
  have ok: "segs_ok N (?A # ?B # stack)" "segs_ok N (?B # ?A # stack)"
    using segs_ok_split [OF assms(1), of "int j - 1" "int i"] p(2-4) by auto
  have lt: "seg_size ?A + seg_size ?B < seg_size (int l, int r)" using sizes cur p(2-4) by linarith
  show ?thesis
  proof (cases "int r - int i + 1 \<ge> int j - int l")
    case True
    then have "2 * seg_size ?A \<le> seg_size (int l, int r)" using lt sizes p(2-4) by linarith
    then have "depth_ok N (seg_size ?A) (?B # stack)" using lt by (intro depth_ok_push [OF assms(4)]) simp_all
    moreover have "ordered_but N (?A # ?B # stack) ?f" by (rule ord) auto
    moreover have A: "int j - 1 = int (j - 1)" using p(2) by simp
    moreover have "sort_loop ids (int l) (int r) stack = sort_loop ?f (int l) (int j - 1) (?B # stack)"
      using step True by simp
    ultimately show ?thesis
      using p(5) ok(1) lt by (intro exI [of _ ?f] exI [of _ l] exI [of _ "j - 1"] exI [of _ ?B]) (simp only: A)
  next
    case False
    then have "2 * seg_size ?B \<le> seg_size (int l, int r)" using lt sizes p(2-4) by linarith
    then have "depth_ok N (seg_size ?B) (?A # stack)" using lt by (intro depth_ok_push [OF assms(4)]) simp_all
    moreover have "ordered_but N (?B # ?A # stack) ?f" by (rule ord) auto
    moreover have "sort_loop ids (int l) (int r) stack = sort_loop ?f (int i) (int r) (?A # stack)"
      using step False by simp
    moreover have "seg_size ?B + seg_size ?A < seg_size (int l, int r)" using lt by linarith
    ultimately show ?thesis using p(5) ok(2) by blast
  qed
qed

lemma sort_loop_spec:
  assumes "segs_ok N ((int l, int r) # stack)" "ordered_but N ((int l, int r) # stack) ids" "N < length ids"
    "depth_ok N (seg_size (int l, int r)) stack" "N < 2 ^ 30"
  shows "\<exists>ids'. sort_loop ids (int l) (int r) stack = Some ids' \<and> rearr 1 N ids ids' \<and> ordered_but N [] ids'"
  using assms
proof (induction "sum_list (map (\<lambda>s. 2 * seg_size s + 1) ((int l, int r) # stack))" arbitrary: l r stack ids
    rule: less_induct)
  case less
  note inv = less.prems
  have lr: "1 \<le> l" "l \<le> r + 1" "r \<le> N" using inv(1) by (auto simp: segs_ok_def)
  show ?case
  proof (cases "int r - int l < int SMALL")
    case True
    let ?i = "insertion_sort ids l r"
    have "l = 1 \<or> (\<forall>k. l \<le> k \<and> k \<le> r \<longrightarrow> ids ! k \<le> ids ! (l - 1))"
      using ordered_before [OF inv(1,2)] lr(1) by (cases "l = 1") auto
    note ins = insertion_sort_spec [OF lr(1,2) _ this, OF le_less_trans [OF lr(3) inv(3)]]
    have ord: "ordered_but N stack ?i"
      using ordered_drop [OF inv(1,2) ins(1) inv(3) lr(2), of stack] ins(2) by auto
    have len: "N < length ?i" using ins(1) inv(3) by (simp add: rearr_def)
    have top: "\<not> INT_MAX \<le> int r" using lr(3) inv(5) by (simp add: INT_MAX_def)
    have wide: "rearr 1 N ids ?i" by (rule rearr_widen [OF ins(1) lr(1,3)])
    show ?thesis
    proof (cases stack)
      case Nil
      then have "sort_loop ids (int l) (int r) stack = Some ?i" using True top by (subst sort_loop.simps) simp
      then show ?thesis using wide ord Nil by simp
    next
      case (Cons s st)
      then obtain a b where s: "s = (a, b)" "1 \<le> a" "a \<le> b + 1" using inv(1) by (cases s) (auto simp: segs_ok_def)
      then have ab: "s = (int (nat a), int (nat b))" by simp
      have "sort_loop ids (int l) (int r) stack = sort_loop ?i (int (nat a)) (int (nat b)) st"
        using True top Cons s by (subst sort_loop.simps) simp
      moreover have "\<exists>ids'. sort_loop ?i (int (nat a)) (int (nat b)) st = Some ids' \<and> rearr 1 N ?i ids' \<and> ordered_but N [] ids'"
      proof (rule less.hyps [OF _ _ _ len _ inv(5)])
        show "sum_list (map (\<lambda>s. 2 * seg_size s + 1) ((int (nat a), int (nat b)) # st))
            < sum_list (map (\<lambda>s. 2 * seg_size s + 1) ((int l, int r) # stack))"
          unfolding ab [symmetric] Cons by simp
        show "segs_ok N ((int (nat a), int (nat b)) # st)"
          using inv(1) unfolding ab [symmetric] Cons by (auto simp: segs_ok_def)
        show "ordered_but N ((int (nat a), int (nat b)) # st) ?i" using ord unfolding ab [symmetric] Cons .
        show "depth_ok N (seg_size (int (nat a), int (nat b))) st"
          using inv(4) unfolding ab [symmetric] Cons by simp
      qed
      ultimately show ?thesis using rearr_trans [OF wide] by auto
    qed
  next
    case False
    from sort_loop_split [OF inv False] obtain f a b s where
      f: "sort_loop ids (int l) (int r) stack = sort_loop f (int a) (int b) (s # stack)" "rearr l r ids f"
        "segs_ok N ((int a, int b) # s # stack)" "ordered_but N ((int a, int b) # s # stack) f"
        "depth_ok N (seg_size (int a, int b)) (s # stack)"
        "seg_size (int a, int b) + seg_size s < seg_size (int l, int r)" by blast
    have wide: "rearr 1 N ids f" by (rule rearr_widen [OF f(2) lr(1,3)])
    have len: "N < length f" using f(2) inv(3) by (simp add: rearr_def)
    have "\<exists>ids'. sort_loop f (int a) (int b) (s # stack) = Some ids' \<and> rearr 1 N f ids' \<and> ordered_but N [] ids'"
      using f(6) by (intro less.hyps [OF _ f(3,4) len f(5) inv(5)]) simp
    then show ?thesis using f(1) rearr_trans [OF wide] by auto
  qed
qed

lemma mdb_midl_sort_spec:
  assumes "ids ! 0 < length ids" "ids ! 0 < 2 ^ 30"
  shows "\<exists>ids'. mdb_midl_sort ids = Some ids' \<and> length ids' = length ids \<and> ids' ! 0 = ids ! 0
     \<and> sorted_wrt (\<ge>) (entries ids' (ids ! 0)) \<and> mset (entries ids' (ids ! 0)) = mset (entries ids (ids ! 0))
     \<and> drop (ids ! 0 + 1) ids' = drop (ids ! 0 + 1) ids"
proof -
  let ?n = "ids ! 0"
  have "segs_ok ?n [(int 1, int ?n)]" "ordered_but ?n [(int 1, int ?n)] ids" "depth_ok ?n (seg_size (int 1, int ?n)) []"
    by (auto simp: segs_ok_def ordered_but_def in_seg_def seg_size_def)
  from sort_loop_spec [OF this(1,2) assms(1) this(3) assms(2)] obtain ids' where
    r: "sort_loop ids (int 1) (int ?n) [] = Some ids'" "rearr 1 ?n ids ids'" "ordered_but ?n [] ids'" by blast
  have len: "length ids' = length ids" and m: "mset ids' = mset ids" using r(2) by (auto simp: rearr_def)
  have "0 < length ids" using assms(1) by linarith
  then have z: "ids' ! 0 = ?n" using r(2) by (auto simp: rearr_def)
  have d: "drop (?n + 1) ids' = drop (?n + 1) ids"
    using r(2) len by (intro nth_equalityI) (auto simp: rearr_def)
  have "mset (entries ids' ?n) = mset (entries ids ?n)"
    using m arg_cong [OF split_entries [OF assms(1)], of mset] arg_cong [OF split_entries, of ?n ids' mset]
      assms(1) len z d by simp
  moreover have "sorted_wrt (\<ge>) (entries ids' ?n)"
    using r(3) assms(1) len by (auto simp: sorted_wrt_iff_nth_less ordered_but_def length_entries entries_nth)
  moreover have "int_of_id ?n = int ?n" using assms(2) by (simp add: int_of_id_def)
  ultimately show ?thesis using r(1) len z d by (simp add: mdb_midl_sort_def)
qed

end
