(* ===== verification/Midl_Properties.thy ===== *)
theory Midl_Properties
  imports Midl_Lists Midl_Sort
begin

text \<open>
  What the ID lists of \<open>liblmdb/midl.c\<close> promise: the contract of the three append operations, stated
  as an interface with its consequence for a whole sequence of appends, and the properties of the
  search, the growth, the sort, the merge and the insertion.
\<close>

section \<open>The contract of an append\<close>

text \<open>A sequence of appends, each with the reply of \<open>realloc\<close>, up to the first failure.\<close>

fun run_appends ::
    "(heap_reply \<Rightarrow> midl \<Rightarrow> 'a \<Rightarrow> int \<times> midl) \<Rightarrow> midl \<Rightarrow> (heap_reply \<times> 'a) list \<Rightarrow> int \<times> midl" where
  "run_appends app idl [] = (0, idl)"
| "run_appends app idl ((reply, x) # rest) =
     (let (err, idl) = app reply idl x in if err \<noteq> 0 then (err, idl) else run_appends app idl rest)"

locale id_appender =
  fixes app :: "heap_reply \<Rightarrow> midl \<Rightarrow> 'a \<Rightarrow> int \<times> midl" and what :: "'a \<Rightarrow> mdb_id list" and arg_ok :: "'a \<Rightarrow> bool"
  assumes append: "idl_ok idl \<Longrightarrow> arg_ok x \<Longrightarrow> app reply idl x = (err, idl') \<Longrightarrow>
    idl_ok idl' \<and> (err = 0 \<and> idl_list idl' = idl_list idl @ what x
      \<or> err = ENOMEM \<and> reply = None \<and> idl' = idl)"
begin

lemma run:
  assumes "idl_ok idl" "\<forall>(r, x) \<in> set reqs. arg_ok x" "run_appends app idl reqs = (err, idl')"
  shows "idl_ok idl' \<and> (\<exists>n \<le> length reqs. idl_list idl' = idl_list idl @ concat (map (\<lambda>p. what (snd p)) (take n reqs))
    \<and> (if err = 0 then n = length reqs else err = ENOMEM \<and> n < length reqs \<and> fst (reqs ! n) = None))"
  using assms
proof (induction reqs arbitrary: idl)
  case (Cons q reqs)
  obtain r x where q: "q = (r, x)" by fastforce
  obtain e i where a: "app r idl x = (e, i)" by fastforce
  have ok: "arg_ok x" using Cons.prems(2) q by simp
  note s = append [OF Cons.prems(1) ok a]
  show ?case
  proof (cases "e = 0")
    case True
    then have i: "idl_ok i" "idl_list i = idl_list idl @ what x" using s by (auto simp: ENOMEM_def)
    have run: "run_appends app i reqs = (err, idl')" using Cons.prems(3) True by (simp add: q a)
    have "\<forall>(r, x) \<in> set reqs. arg_ok x" using Cons.prems(2) by simp
    from Cons.IH [OF i(1) this run] obtain n where n: "idl_ok idl'" "n \<le> length reqs"
      "idl_list idl' = idl_list i @ concat (map (\<lambda>p. what (snd p)) (take n reqs))"
      "if err = 0 then n = length reqs else err = ENOMEM \<and> n < length reqs \<and> fst (reqs ! n) = None" by blast
    show ?thesis using n i(2) q by (intro conjI exI [of _ "Suc n"]) (auto split: if_splits)
  next
    case False
    then have e: "e = ENOMEM" "r = None" "i = idl" using s by auto
    then have "err = ENOMEM" "idl' = idl" using Cons.prems(3) a by (simp_all add: q ENOMEM_def)
    then show ?thesis using e q Cons.prems(1) by (intro conjI exI [of _ 0]) (auto simp: ENOMEM_def)
  qed
qed auto

lemma run_ok: "idl_ok idl \<Longrightarrow> \<forall>(r, x) \<in> set reqs. arg_ok x \<Longrightarrow> run_appends app idl reqs = (0, idl') \<Longrightarrow>
    idl_ok idl' \<and> idl_list idl' = idl_list idl @ concat (map (\<lambda>p. what (snd p)) reqs)"
  using run by fastforce

end

interpretation one: id_appender mdb_midl_append "\<lambda>x. [x]" "\<lambda>x. True"
  by unfold_locales (use midl_append_spec in blast)

interpretation many: id_appender mdb_midl_append_list "\<lambda>app. entries app (app ! 0)" "\<lambda>app. app ! 0 < length app"
  by unfold_locales (use midl_append_list_spec in blast)

interpretation range: id_appender "\<lambda>reply idl (x, n). mdb_midl_append_range reply idl x n"
  "\<lambda>(x, n). rev [x..<x + n]" "\<lambda>x. True"
proof
  fix idl reply x err idl'
  assume "idl_ok idl" "(case x of (x, n) \<Rightarrow> mdb_midl_append_range reply idl x n) = (err, idl')"
  then show "idl_ok idl' \<and> (err = 0 \<and> idl_list idl' = idl_list idl @ (case x of (x, n) \<Rightarrow> rev [x..<x + n])
      \<or> err = ENOMEM \<and> reply = None \<and> idl' = idl)"
    using midl_append_range_spec [of idl reply "fst x" "snd x"] by (simp add: case_prod_unfold)
qed

lemma alloc_ok: "mdb_midl_alloc (Some junk) n = Some idl \<Longrightarrow> idl_ok idl \<and> idl_list idl = []"
  by (auto simp: mdb_midl_alloc_def idl_ok_def idl_list_def entries_def)

section \<open>Properties\<close>

text \<open>
  C34: for a list of fewer than \<open>2 ^ 30\<close> IDs \<open>mdb_midl_sort\<close> ends, never reads outside the array, overflows its stack of 64
  ints or an \<open>int\<close>, and leaves the entries in descending order; they are the same entries, the counter and the cells
  behind the list are unchanged. In a longer list the sum \<open>l + ir\<close> may overflow.
\<close>
theorem midl_sort_correct:
  assumes "ids ! 0 < length ids" "ids ! 0 < 2 ^ 30"
  shows "\<exists>ids'. mdb_midl_sort ids = Some ids' \<and> length ids' = length ids \<and> ids' ! 0 = ids ! 0
     \<and> sorted_wrt (\<ge>) (entries ids' (ids ! 0)) \<and> mset (entries ids' (ids ! 0)) = mset (entries ids (ids ! 0))
     \<and> drop (ids ! 0 + 1) ids' = drop (ids ! 0 + 1) ids"
  using assms by (rule mdb_midl_sort_spec)

theorem midl_sort_correct_witness:
  "\<exists>ids'. mdb_midl_sort [3, 5, 9, 7] = Some ids' \<and> length ids' = 4 \<and> ids' ! 0 = 3
     \<and> sorted_wrt (\<ge>) (entries ids' 3) \<and> mset (entries ids' 3) = {#5, 9, 7#}"
proof -
  have "entries [3, 5, 9, 7] 3 = [5, 9, 7 :: mdb_id]" by (simp add: entries_def)
  with midl_sort_correct [of "[3, 5, 9, 7]"] show ?thesis by auto
qed

text \<open>
  C35: On a list in descending order with fewer than \<open>2 ^ 32 - 1\<close> entries, so that \<open>++cursor\<close> does not wrap, \<open>mdb_midl_search\<close> returns a position from 1 to one past the
  last: one that holds the ID if the list has it, and otherwise the place where it belongs, after all
  larger and before all smaller entries.
\<close>
theorem midl_search_correct:
  fixes x :: mdb_id
  assumes "sorted_wrt (\<ge>) (entries ids (ids ! 0))" "ids ! 0 < length ids" "ids ! 0 + 1 < 2 ^ 32"
  defines "c \<equiv> mdb_midl_search ids x"
  shows "0 < c \<and> c \<le> ids ! 0 + 1
    \<and> (if x \<in> set (entries ids (ids ! 0)) then c \<le> ids ! 0 \<and> ids ! c = x
       else (\<forall>k \<in> {1..<c}. x < ids ! k) \<and> (\<forall>k \<in> {c..ids ! 0}. ids ! k < x))"
proof -
  have f: "found_at (\<lambda>c. CMP (ids ! c) x) (ids ! 0) c" unfolding c_def by (rule mdb_midl_search_spec) fact+
  have m: "x \<in> set (entries ids (ids ! 0)) \<longleftrightarrow> (\<exists>k. 0 < k \<and> k \<le> ids ! 0 \<and> ids ! k = x)"
    using assms(2) by (rule entries_member)
  show ?thesis using f unfolding m by (auto simp: found_at_def CMP_def split: if_splits) (metis less_irrefl not_le)+
qed

theorem midl_search_correct_witness:
  "mdb_midl_search [3, 9, 5, 2] 5 \<le> 3 \<and> [3, 9, 5, 2 :: mdb_id] ! mdb_midl_search [3, 9, 5, 2] 5 = 5
    \<and> 0 < mdb_midl_search [3, 9, 5, 2] 6"
proof -
  have e: "entries [3, 9, 5, 2] 3 = [9, 5, 2 :: mdb_id]" by (simp add: entries_def)
  show ?thesis
    supply nth_Cons_pos [simp del] nth_Cons' [simp del]
    using midl_search_correct [of "[3, 9, 5, 2]" 5] midl_search_correct [of "[3, 9, 5, 2]" 6] by (simp add: e)
qed

text \<open>
  C36: A list built by \<open>mdb_midl_alloc\<close>, any sequence of fewer than \<open>2 ^ 30\<close> calls of \<open>mdb_midl_append\<close> and \<open>mdb_midl_sort\<close> holds exactly
  the appended IDs in descending order, provided every append reports success; a failing append
  reports \<open>ENOMEM\<close>, only because \<open>realloc\<close> failed, and keeps the IDs appended before it.
\<close>
theorem midl_build_correct:
  assumes "mdb_midl_alloc (Some junk) n = Some idl" "run_appends mdb_midl_append idl reqs = (err, idl')"
    "length reqs < 2 ^ 30"
  shows "if err = 0
    then \<exists>ids. mdb_midl_sort (midl_cells idl') = Some ids \<and> ids ! 0 = length reqs
           \<and> entries ids (length reqs) = rev (sort (map snd reqs))
    else err = ENOMEM \<and> (\<exists>k < length reqs. fst (reqs ! k) = None \<and> idl_list idl' = map snd (take k reqs))"
proof -
  note al = alloc_ok [OF assms(1)]
  have cm: "concat (map (\<lambda>p. [snd p]) xs) = map snd xs" for xs :: "(heap_reply \<times> mdb_id) list"
    by (induction xs) auto
  from one.run [OF conjunct1 [OF al] _ assms(2)] obtain k where k: "idl_ok idl'" "k \<le> length reqs"
    "idl_list idl' = map snd (take k reqs)"
    "if err = 0 then k = length reqs else err = ENOMEM \<and> k < length reqs \<and> fst (reqs ! k) = None"
    using al cm by (auto split: if_splits)
  show ?thesis
  proof (cases "err = 0")
    case True
    let ?c = "midl_cells idl'"
    have l: "idl_list idl' = map snd reqs" "?c ! 0 < length ?c" using True k by (auto simp: idl_ok_def)
    then have c: "?c ! 0 = length reqs" by (metis idl_list_def length_entries length_map)
    obtain ids where s: "mdb_midl_sort ?c = Some ids" "ids ! 0 = ?c ! 0"
      "sorted_wrt (\<ge>) (entries ids (?c ! 0))" "mset (entries ids (?c ! 0)) = mset (entries ?c (?c ! 0))"
      using mdb_midl_sort_spec [OF l(2)] assms(3) c by auto
    have "sort (map snd reqs) = rev (entries ids (length reqs))"
    proof (rule properties_for_sort)
      show "mset (rev (entries ids (length reqs))) = mset (map snd reqs)"
        using s(4) l(1) unfolding idl_list_def c by simp
      show "sorted (rev (entries ids (length reqs)))" using s(3) c by (simp add: sorted_wrt_rev)
    qed
    then show ?thesis using True s(1,2) c by (intro if_P [THEN iffD2]) auto
  next
    case False
    then show ?thesis using k by auto
  qed
qed

theorem midl_build_correct_witness:
  "\<exists>idl idl' ids. mdb_midl_alloc (Some 0) 4 = Some idl
     \<and> run_appends mdb_midl_append idl [(None, 5), (None, 9), (None, 7)] = (0, idl')
     \<and> mdb_midl_sort (midl_cells idl') = Some ids \<and> entries ids 3 = [9, 7, 5]"
proof -
  let ?idl = "\<lparr>midl_alloclen = 4, midl_cells = [0, 0, 0, 0, 0]\<rparr>"
  let ?reqs = "[(None, 5), (None, 9), (None, 7)] :: (heap_reply \<times> mdb_id) list"
  have a: "mdb_midl_alloc (Some 0) 4 = Some ?idl" by (simp add: mdb_midl_alloc_def numeral_eq_Suc)
  have r: "run_appends mdb_midl_append ?idl ?reqs = (0, \<lparr>midl_alloclen = 4, midl_cells = [3, 5, 9, 7, 0]\<rparr>)"
    by (simp add: mdb_midl_append_def numeral_eq_Suc)
  have l: "length ?reqs = 3" "map snd ?reqs = [5, 9, 7]" and s: "rev (sort [5, 9, 7]) = [9, 7, 5 :: mdb_id]"
    by simp_all
  have "(3::nat) < 2 ^ 30" by simp
  then obtain ids where "mdb_midl_sort [3, 5, 9, 7, 0] = Some ids" "entries ids 3 = [9, 7, 5]"
    using midl_build_correct [OF a r, unfolded l s] by auto
  then show ?thesis using a r by (intro exI conjI) auto
qed

text \<open>
  C37: \<open>mdb_midl_xmerge\<close> of a list in descending order into another, with room for both, never reads
  below the array and leaves the multiset union of the entries in descending order.
\<close>
theorem midl_xmerge_correct:
  assumes "idl ! 0 + merge ! 0 < length idl" "merge ! 0 < length merge"
    "sorted_wrt (\<ge>) (entries idl (idl ! 0))" "sorted_wrt (\<ge>) (entries merge (merge ! 0))"
    "\<forall>x \<in> set (entries merge (merge ! 0)). x < 2 ^ 64"
  shows "\<exists>idl'. mdb_midl_xmerge idl merge = Some idl' \<and> length idl' = length idl
     \<and> idl' ! 0 = idl ! 0 + merge ! 0
     \<and> sorted_wrt (\<ge>) (entries idl' (idl' ! 0))
     \<and> mset (entries idl' (idl' ! 0)) = mset (entries idl (idl ! 0)) + mset (entries merge (merge ! 0))"
  using assms by (rule mdb_midl_xmerge_spec)

theorem midl_xmerge_correct_witness:
  "\<exists>idl'. mdb_midl_xmerge [2, 9, 4, 0, 0] [2, 7, 1] = Some idl' \<and> idl' ! 0 = 4
     \<and> sorted_wrt (\<ge>) (entries idl' 4) \<and> mset (entries idl' 4) = {#9, 4, 7, 1#}"
proof -
  have "entries [2, 9, 4, 0, 0] 2 = [9, 4 :: mdb_id]" "entries [2, 7, 1] 2 = [7, 1 :: mdb_id]"
    by (simp_all add: entries_def)
  with midl_xmerge_correct [of "[2, 9, 4, 0, 0]" "[2, 7, 1]"] show ?thesis by auto
qed

text \<open>
  C38: \<open>mdb_mid2l_insert\<close> keeps a list of pairs strictly ascending and inside its array: an ID that is
  there is refused with -1, a full list with -2, both without effect, and otherwise the pair is
  added.
\<close>
theorem mid2l_insert_correct:
  assumes "id2l_ok ids" "mdb_mid2l_insert ids p = (r, ids')"
  shows "id2l_ok ids' \<and>
    (if \<exists>q \<in> set (id2l_list ids). mid q = mid p then r = -1 \<and> ids' = ids
     else if mid (ids ! 0) = MDB_IDL_UM_MAX then r = -2 \<and> ids' = ids
     else r = 0 \<and> set (id2l_list ids') = insert p (set (id2l_list ids)))"
  using assms by (rule mid2l_insert_spec)

theorem mid2l_insert_correct_witness:
  "\<exists>r ids'. mdb_mid2l_insert (replicate MDB_IDL_UM_SIZE \<lparr>mid = 0, mptr = 0\<rparr>) \<lparr>mid = 7, mptr = 1\<rparr> = (r, ids')
     \<and> r = 0 \<and> id2l_ok ids' \<and> set (id2l_list ids') = {\<lparr>mid = 7, mptr = 1\<rparr>}"
proof -
  let ?ids = "replicate MDB_IDL_UM_SIZE \<lparr>mid = 0, mptr = 0\<rparr>"
  obtain r ids' where r: "mdb_mid2l_insert ?ids \<lparr>mid = 7, mptr = 1\<rparr> = (r, ids')" by fastforce
  have pos: "0 < MDB_IDL_UM_SIZE" "MDB_IDL_UM_MAX \<noteq> 0" using um_max_pos um_size(1) by simp_all
  then have "id2l_ok ?ids" "id2l_list ?ids = []" "mid (?ids ! 0) \<noteq> MDB_IDL_UM_MAX"
    by (simp_all add: id2l_ok_def id2l_list_def entries_def)
  with mid2l_insert_correct [OF _ r] show ?thesis using r by auto
qed

end
