(* ===== verification/File_Job.thy ===== *)
theory File_Job
  imports Buddy_Interface
begin

text \<open>
  The jobs of \<open>filejob.h\<close>: a file to copy with its counters, the blocks it is cut into, and the
  arithmetic on block sizes. The parts of the system's \<open>statx\<close> and \<open>iocb\<close> structs that the program
  reads or writes are fields of records. References into the program's heap are addresses, with zero
  for the null reference; the program is built without its debug assertions (\<open>NDEBUG\<close>).
\<close>

section \<open>Arithmetic\<close>

text \<open>\<open>std::bit_ceil\<close>: the least power of two that is not smaller.\<close>

fun bit_ceil :: "nat \<Rightarrow> nat" where
  "bit_ceil x = (if x \<le> 1 then 1 else 2 * bit_ceil ((x + 1) div 2))"

declare bit_ceil.simps [simp del]

definition blockSize :: "nat \<Rightarrow> nat \<Rightarrow> nat \<Rightarrow> nat \<Rightarrow> nat" where
  "blockSize fsize fsBlockSize minBlockSize maxBlockSize =
     max minBlockSize (min maxBlockSize (bit_ceil (fsize div 2)))"

definition blockCount :: "nat \<Rightarrow> nat \<Rightarrow> nat" where
  "blockCount fsize bsize =
     (if bsize = 0 then 0 else fsize div bsize + (if fsize mod bsize > 0 then 1 else 0))"

definition alignUp :: "nat \<Rightarrow> nat \<Rightarrow> nat" where
  "alignUp n align = ((n + align + (2 ^ 64 - 1)) mod 2 ^ 64) AND ((2 ^ 64 - align) mod 2 ^ 64)"

text \<open>Steps of a counter of type \<open>size_t\<close>, and a count stored in an \<open>int\<close>.\<close>

abbreviation (input) inc64 :: "nat \<Rightarrow> nat" where
  "inc64 n \<equiv> (n + 1) mod 2 ^ 64"

abbreviation (input) dec64 :: "nat \<Rightarrow> nat" where
  "dec64 n \<equiv> (n + (2 ^ 64 - 1)) mod 2 ^ 64"

definition to_int :: "nat \<Rightarrow> int" where
  "to_int n = (let m = n mod 2 ^ 32 in if m < 2 ^ 31 then int m else int m - 2 ^ 32)"

section \<open>Data\<close>

record statx =
  stx_mode :: nat
  stx_nlink :: nat
  stx_uid :: nat
  stx_gid :: nat
  stx_ino :: nat
  stx_size :: nat
  stx_atime :: "int \<times> nat"
  stx_mtime :: "int \<times> nat"
  stx_dev :: "nat \<times> nat"

text \<open>\<open>statx stx = {}\<close>\<close>

definition zero_statx :: statx where
  "zero_statx = \<lparr>stx_mode = 0, stx_nlink = 0, stx_uid = 0, stx_gid = 0, stx_ino = 0, stx_size = 0,
     stx_atime = (0, 0), stx_mtime = (0, 0), stx_dev = (0, 0)\<rparr>"

type_synonym alloc_ref = addr

record file_copy_job =
  active :: bool
  firstLook :: bool
  actuallyTransferred :: bool
  remote :: alloc_ref
  partial :: alloc_ref
  stx :: statx
  srcFd :: int
  dstFd :: int
  bsize :: nat
  nBlockJobsScheduled :: nat
  nBlockJobsFinished :: nat
  nErrors :: nat
  isDot :: bool
  dstDirFD :: alloc_ref

definition zero_file_job :: file_copy_job where
  "zero_file_job = \<lparr>active = False, firstLook = False, actuallyTransferred = False, remote = 0,
     partial = 0, stx = zero_statx, srcFd = 0, dstFd = 0, bsize = 0, nBlockJobsScheduled = 0,
     nBlockJobsFinished = 0, nErrors = 0, isDot = False, dstDirFD = 0\<rparr>"

datatype RW = READ | WRITE | READDST | FINISH

text \<open>
  A control block as \<open>io_prep_pread\<close>, \<open>io_prep_pwrite\<close> and \<open>io_set_callback\<close> fill it.
\<close>

datatype aio_op = PREAD | PWRITE

datatype aio_callback = RD_DONE | WR_DONE | NO_CALLBACK

record iocb =
  cb_op :: aio_op
  cb_fd :: int
  cb_buf :: addr
  cb_nbytes :: nat
  cb_offset :: nat
  cb_done :: aio_callback

definition zero_iocb :: iocb where
  "zero_iocb = \<lparr>cb_op = PREAD, cb_fd = 0, cb_buf = 0, cb_nbytes = 0, cb_offset = 0, cb_done = NO_CALLBACK\<rparr>"

definition io_prep_pread :: "int \<Rightarrow> addr \<Rightarrow> nat \<Rightarrow> nat \<Rightarrow> iocb" where
  "io_prep_pread fd buf n off =
     \<lparr>cb_op = PREAD, cb_fd = fd, cb_buf = buf, cb_nbytes = n, cb_offset = off, cb_done = NO_CALLBACK\<rparr>"

definition io_prep_pwrite :: "int \<Rightarrow> addr \<Rightarrow> nat \<Rightarrow> nat \<Rightarrow> iocb" where
  "io_prep_pwrite fd buf n off =
     \<lparr>cb_op = PWRITE, cb_fd = fd, cb_buf = buf, cb_nbytes = n, cb_offset = off, cb_done = NO_CALLBACK\<rparr>"

text \<open>The parent of a block job is the number of its file job in the scheduler's array.\<close>

record block_copy_job =
  jobno :: int
  parent :: "nat option"
  cb :: iocb
  rw_type :: RW
  status :: int
  offset :: nat
  nbytes :: nat
  data :: addr
  inUse :: bool
  srcHash :: nat

definition zero_block_job :: block_copy_job where
  "zero_block_job = \<lparr>jobno = 0, parent = None, cb = zero_iocb, rw_type = READ, status = 0, offset = 0,
     nbytes = 0, data = 0, inUse = False, srcHash = 0\<rparr>"

section \<open>Block sizes\<close>

lemma bit_ceil_spec: "\<exists>k. bit_ceil x = 2 ^ k \<and> x \<le> 2 ^ k \<and> (1 < x \<longrightarrow> 2 ^ k < 2 * x)"
proof (induction x rule: bit_ceil.induct)
  case (1 x)
  show ?case
  proof (cases "x \<le> 1")
    case True
    then show ?thesis by (subst (1) bit_ceil.simps) (auto intro: exI [of _ 0])
  next
    case False
    then obtain k where k: "bit_ceil ((x + 1) div 2) = 2 ^ k" "(x + 1) div 2 \<le> 2 ^ k"
      "1 < (x + 1) div 2 \<longrightarrow> 2 ^ k < 2 * ((x + 1) div 2)" using 1 by blast
    have "bit_ceil x = 2 ^ Suc k" using False k(1) by (subst bit_ceil.simps) simp
    moreover have "x \<le> 2 ^ Suc k" using k(2) by simp
    moreover have "2 ^ Suc k < 2 * x"
    proof (cases "1 < (x + 1) div 2")
      case True
      define p :: nat where "p = 2 ^ k"
      have "p < 2 * ((x + 1) div 2)" using True k(3) by (simp add: p_def)
      moreover have "even p \<or> p = 1" by (cases k) (simp_all add: p_def)
      ultimately have "p \<le> 2 * ((x + 1) div 2) - 2 \<or> p = 1" by (elim disjE) presburger+
      then have "p < x" using False True by linarith
      then show ?thesis by (simp add: p_def)
    next
      case False
      with \<open>\<not> x \<le> 1\<close> have x: "x = 2" by linarith
      have "bit_ceil 1 = 1" "(x + 1) div 2 = 1" by (simp_all add: bit_ceil.simps x)
      then have "(2::nat) ^ k = 1" using k(1) by simp
      then show ?thesis by (simp add: x)
    qed
    ultimately show ?thesis by blast
  qed
qed

lemma blockCount_less_iff:
  assumes "0 < b"
  shows "k < blockCount n b \<longleftrightarrow> b * k < n"
proof -
  define q r where "q = n div b" and "r = n mod b"
  have n: "n = b * q + r" "r < b" using assms by (simp_all add: q_def r_def)
  have c: "blockCount n b = (if r = 0 then q else q + 1)" using assms by (simp add: blockCount_def q_def r_def)
  consider (lt) d where "q = Suc (k + d)" | (eq) "k = q" | (gt) d where "k = Suc (q + d)"
    by (metis less_iff_Suc_add linorder_neqE_nat)
  then show ?thesis
  proof cases
    case lt
    then have "b * q = b * k + b + b * d" by (simp add: algebra_simps)
    then show ?thesis using n(1) c lt assms by simp
  next
    case eq
    then show ?thesis using n(1) c by simp
  next
    case gt
    then have "b * k = b * q + b + b * d" by (simp add: algebra_simps)
    then show ?thesis using n c gt by simp
  qed
qed

lemma and_high_mask:
  fixes x :: nat
  assumes "x < 2 ^ 64" "k \<le> 64"
  shows "x AND ((2 ^ 64 - 2 ^ k) mod 2 ^ 64) = x - x mod 2 ^ k"
proof -
  have "(2 ^ 64 - 2 ^ k) mod 2 ^ 64 = (2 ^ 64 - 2 ^ k :: nat)" by simp
  moreover have "(2 ^ 64 - 2 ^ k :: nat) = push_bit k (mask (64 - k))"
    using assms(2) by (simp add: push_bit_eq_mult mask_eq_exp_minus_1 diff_mult_distrib power_add [symmetric])
  moreover have "x = push_bit k (drop_bit k x) + take_bit k x" by (simp add: bits_ident)
  moreover have "x AND push_bit k (mask (64 - k)) = push_bit k (drop_bit k x AND mask (64 - k))"
  proof (rule bit_eqI)
    fix n
    show "bit (x AND push_bit k (mask (64 - k))) n \<longleftrightarrow> bit (push_bit k (drop_bit k x AND mask (64 - k))) n"
      by (auto simp: bit_and_iff bit_push_bit_iff bit_drop_bit_eq)
  qed
  moreover have "drop_bit k x AND mask (64 - k) = drop_bit k x"
  proof -
    have "drop_bit k x < 2 ^ (64 - k)"
      using assms by (simp add: drop_bit_eq_div less_mult_imp_div_less power_add [symmetric])
    then show ?thesis by (simp add: take_bit_eq_mask [symmetric] take_bit_nat_eq_self)
  qed
  ultimately have "x AND ((2 ^ 64 - 2 ^ k) mod 2 ^ 64) = x - take_bit k x" by (metis add_diff_cancel_right')
  then show ?thesis by (simp only: take_bit_eq_mod)
qed

lemma alignUp_spec:
  assumes "align = 2 ^ k" "k < 64" "n + align \<le> 2 ^ 64"
  shows "align dvd alignUp n align" "n \<le> alignUp n align" "alignUp n align < n + align"
proof -
  define x where "x = n + align - 1"
  have x: "x < 2 ^ 64" "n + align + (2 ^ 64 - 1) = x + 2 ^ 64" using assms by (auto simp: x_def)
  then have "(n + align + (2 ^ 64 - 1)) mod 2 ^ 64 = x" by simp
  then have a: "alignUp n align = x - x mod align"
    using and_high_mask [OF x(1), of k] assms(1,2) unfolding alignUp_def by simp
  have pos: "0 < align" by (simp add: assms(1))
  then have "x mod align < align" by simp
  show "align dvd alignUp n align" unfolding a by (simp add: dvd_minus_mod)
  show "n \<le> alignUp n align" using a \<open>x mod align < align\<close> by (simp add: x_def)
  show "alignUp n align < n + align" using a pos by (simp add: x_def)
qed

lemma alignUp_least:
  assumes "align = 2 ^ k" "k < 64" "n + align \<le> 2 ^ 64" "align dvd m" "n \<le> m"
  shows "alignUp n align \<le> m"
proof -
  obtain a b where ab: "alignUp n align = align * a" "m = align * b"
    using alignUp_spec(1) [OF assms(1-3)] assms(4) by (metis dvdE)
  have "align * a < align * b + align" using alignUp_spec(3) [OF assms(1-3)] assms(5) ab by simp
  then have "align * a < align * Suc b" by simp
  then have "a < Suc b" by (metis mult_less_cancel1)
  then show ?thesis unfolding ab by simp
qed

lemma to_int_eq: "n < 2 ^ 31 \<Longrightarrow> to_int n = int n"
  by (simp add: to_int_def Let_def)

end
