(* ===== verification/Copy_Scheduler.thy ===== *)
theory Copy_Scheduler
  imports File_Job
begin

text \<open>
  The copy scheduler of \<open>copy2.cpp\<close>: every scheduler thread keeps an array of file jobs and, for each
  of them, a fixed number of block jobs; it reads a block into a buffer of the copy buffer's arena,
  writes it out and, if asked, reads it back to compare hashes. Definitions only.

  The kernel's asynchronous I/O is outside the program. What it answers is an argument of the
  operations: the reply of \<open>io_submit\<close>, the events that \<open>io_getevents\<close> delivers, and the jobs that the
  queue hands out. The effect of a request, documented by \<open>pread\<close> and \<open>pwrite\<close>, is applied when its
  event is delivered: the first \<open>res\<close> bytes are moved between buffer and file. Files are maps from
  offsets to bytes, one for each descriptor. The hash of \<open>xxhash.h\<close> is a parameter.
\<close>

section \<open>State\<close>

record copy_opts =
  sparse :: bool
  readback :: bool
  preserveAtime :: bool
  sync :: bool

record shared_state =
  opts :: copy_opts
  finishQueue :: "file_copy_job list"
  filesSeen :: nat
  filesRemoved :: nat
  nFinished :: nat
  totalBytesTransferred :: nat
  totalBytesActuallyTransferred :: nat
  bytesRead :: nat
  bytesWritten :: nat
  allocationAttempts :: nat
  allocationFailures :: nat
  totalMemAllocated :: nat
  schedulerIterations :: nat
  crawlDone :: bool
  copybufferAllocator :: "buddy option"
  mem :: memory
  files :: "int \<Rightarrow> nat \<Rightarrow> 8 word"

text \<open>
  A control block is inside its block job, so the batch holds the numbers of block jobs. The context
  of the kernel's queue holds the requests in flight, each with the control block as submitted.
\<close>

record copy_scheduler =
  sched_done :: bool
  nFileCopyJobs :: nat
  nBlockCopyJobsPerFileCopyJob :: nat
  fileCopyJobs :: "file_copy_job list"
  blockCopyJobs :: "block_copy_job list"
  cbBatch :: "nat list"
  ctx :: "(nat \<times> iocb) list"

definition EINPROGRESS :: int where
  "EINPROGRESS = 115"

definition EIO :: int where
  "EIO = 5"

definition DIRECT_IO_ALIGN :: nat where
  "DIRECT_IO_ALIGN = 4096"

text \<open>
  The scheduler's arrays are zeroed by the allocator; \<open>io_queue_init\<close> is the reply of the kernel.
\<close>

definition createScheduler :: "int \<Rightarrow> nat \<Rightarrow> nat \<Rightarrow> int \<times> copy_scheduler" where
  "createScheduler io_queue_init nF nB =
     (let sched = \<lparr>sched_done = False, nFileCopyJobs = nF, nBlockCopyJobsPerFileCopyJob = nB,
            fileCopyJobs = replicate nF zero_file_job, blockCopyJobs = replicate (nB * nF) zero_block_job,
            cbBatch = [], ctx = []\<rparr>
      in if io_queue_init \<noteq> 0 then (1, sched) else (0, sched))"

section \<open>Completion\<close>

definition wr_done :: "block_copy_job \<Rightarrow> int \<Rightarrow> block_copy_job" where
  "wr_done job res =
     (let job = job\<lparr>status := 0\<rparr>
      in if res \<le> 0 then job\<lparr>status := - res\<rparr>
         else if res \<noteq> int (cb_nbytes (cb job)) then job\<lparr>status := EIO\<rparr> else job)"

definition rd_done :: "block_copy_job \<Rightarrow> int \<Rightarrow> block_copy_job" where
  "rd_done job res =
     (let job = job\<lparr>status := 0\<rparr>
      in if res \<le> 0 then job\<lparr>status := - res\<rparr>
         else if res \<noteq> int (cb_nbytes (cb job)) then job\<lparr>status := EIO\<rparr> else job)"

definition run_callback :: "aio_callback \<Rightarrow> block_copy_job \<Rightarrow> int \<Rightarrow> block_copy_job" where
  "run_callback c job res =
     (case c of RD_DONE \<Rightarrow> rd_done job res | WR_DONE \<Rightarrow> wr_done job res | NO_CALLBACK \<Rightarrow> job)"

definition isZero :: "memory \<Rightarrow> addr \<Rightarrow> nat \<Rightarrow> bool" where
  "isZero m p len \<longleftrightarrow> list_all (\<lambda>i. m (p + i) = 0) [0..<len]"

definition bytes_at :: "memory \<Rightarrow> addr \<Rightarrow> nat \<Rightarrow> 8 word list" where
  "bytes_at m p n = map (\<lambda>i. m (p + i)) [0..<n]"

text \<open>What the kernel does to memory and files when a request completes with \<open>res\<close>.\<close>

definition aio_effect :: "iocb \<Rightarrow> int \<Rightarrow> shared_state \<Rightarrow> shared_state" where
  "aio_effect c res sh =
     (case cb_op c of
        PREAD \<Rightarrow> sh\<lparr>mem := (\<lambda>a. if cb_buf c \<le> a \<and> int a < int (cb_buf c) + res
                             then files sh (cb_fd c) (cb_offset c + (a - cb_buf c)) else mem sh a)\<rparr>
      | PWRITE \<Rightarrow> sh\<lparr>files := (files sh)(cb_fd c :=
                    (\<lambda>x. if cb_offset c \<le> x \<and> int x < int (cb_offset c) + res
                         then mem sh (cb_buf c + (x - cb_offset c)) else files sh (cb_fd c) x))\<rparr>)"

section \<open>Submission\<close>

definition put_block :: "copy_scheduler \<Rightarrow> nat \<Rightarrow> block_copy_job \<Rightarrow> copy_scheduler" where
  "put_block sched b job = sched\<lparr>blockCopyJobs := (blockCopyJobs sched)[b := job]\<rparr>"

definition put_file :: "copy_scheduler \<Rightarrow> nat \<Rightarrow> file_copy_job \<Rightarrow> copy_scheduler" where
  "put_file sched i job = sched\<lparr>fileCopyJobs := (fileCopyJobs sched)[i := job]\<rparr>"

definition schedulerClearBlockCopyJob ::
    "shared_state \<Rightarrow> file_copy_job \<Rightarrow> block_copy_job \<Rightarrow> bool \<Rightarrow> shared_state \<times> block_copy_job" where
  "schedulerClearBlockCopyJob sh fileJob blockJob nofree =
     (let (sh, blockJob) =
            (if \<not> nofree then
               (if data blockJob \<noteq> NULL
                then sh\<lparr>copybufferAllocator := buddy_free (copybufferAllocator sh) (data blockJob),
                        totalMemAllocated := (totalMemAllocated sh + 2 ^ 64 - bsize fileJob) mod 2 ^ 64\<rparr>
                else sh, blockJob\<lparr>data := NULL\<rparr>)
             else (sh, blockJob))
      in (sh, zero_block_job\<lparr>data := data blockJob\<rparr>))"

definition schedIOSubmitDeferred :: "copy_scheduler \<Rightarrow> nat \<Rightarrow> copy_scheduler" where
  "schedIOSubmitDeferred sched b = sched\<lparr>cbBatch := cbBatch sched @ [b]\<rparr>"

text \<open>One round of the loop that fails a batch.\<close>

definition fail_request :: "nat \<Rightarrow> copy_scheduler \<times> shared_state \<Rightarrow> copy_scheduler \<times> shared_state" where
  "fail_request b st =
     (let (sched, sh) = st;
          blockJob = blockCopyJobs sched ! b;
          i = the (parent blockJob);
          fileJob = fileCopyJobs sched ! i;
          (sh, blockJob) = schedulerClearBlockCopyJob sh fileJob blockJob False;
          fileJob = fileJob\<lparr>nBlockJobsScheduled := dec64 (nBlockJobsScheduled fileJob),
                      nBlockJobsFinished := inc64 (nBlockJobsFinished fileJob),
                      nErrors := inc64 (nErrors fileJob)\<rparr>
      in (put_file (put_block sched b blockJob) i fileJob, sh))"

definition schedIOSubmitBatch ::
    "int \<Rightarrow> copy_scheduler \<Rightarrow> shared_state \<Rightarrow> int \<times> copy_scheduler \<times> shared_state" where
  "schedIOSubmitBatch io_submit sched sh =
     (if cbBatch sched \<noteq> [] then
        (if io_submit < 0
         then let (sched, sh) = fold fail_request (cbBatch sched) (sched, sh)
              in (-1, sched\<lparr>cbBatch := []\<rparr>, sh)
         else let submitted = map (\<lambda>b. (b, cb (blockCopyJobs sched ! b))) (take (nat io_submit) (cbBatch sched))
              in (0, sched\<lparr>ctx := ctx sched @ submitted, cbBatch := drop (nat io_submit) (cbBatch sched)\<rparr>, sh))
      else (0, sched\<lparr>cbBatch := []\<rparr>, sh))"

text \<open>Scheduling the next block of file job \<open>i\<close> in block job \<open>b\<close>.\<close>

definition block_init :: "file_copy_job \<Rightarrow> nat \<Rightarrow> block_copy_job \<Rightarrow> block_copy_job" where
  "block_init fileJob i blockJob =
     (let jobno = to_int ((nBlockJobsScheduled fileJob + nBlockJobsFinished fileJob) mod 2 ^ 64)
      in blockJob\<lparr>jobno := jobno, parent := Some i, cb := zero_iocb, rw_type := READ,
           status := EINPROGRESS, offset := nat ((int (bsize fileJob) * jobno) mod 2 ^ 64)\<rparr>)"

definition queue_read :: "copy_scheduler \<Rightarrow> nat \<Rightarrow> nat \<Rightarrow> block_copy_job \<Rightarrow> copy_scheduler" where
  "queue_read sched i b blockJob =
     (let fileJob = fileCopyJobs sched ! i;
          blockJob = blockJob\<lparr>inUse := True\<rparr>;
          blockJob = blockJob\<lparr>cb := (io_prep_pread (srcFd fileJob) (data blockJob) (nbytes blockJob)
                       (offset blockJob))\<lparr>cb_done := RD_DONE\<rparr>\<rparr>;
          sched = schedIOSubmitDeferred (put_block sched b blockJob) b
      in put_file sched i (fileJob\<lparr>nBlockJobsScheduled := inc64 (nBlockJobsScheduled fileJob)\<rparr>))"

definition schedulerScheduleBlockCopyJob ::
    "copy_scheduler \<Rightarrow> shared_state \<Rightarrow> nat \<Rightarrow> nat \<Rightarrow> bool \<Rightarrow> copy_scheduler \<times> shared_state" where
  "schedulerScheduleBlockCopyJob sched sh i b dataPreallocated =
     (let fileJob = fileCopyJobs sched ! i;
          blockJob = block_init fileJob i (blockCopyJobs sched ! b);
          size = stx_size (stx fileJob)
      in if offset blockJob \<ge> size
         then let (sh, blockJob) = schedulerClearBlockCopyJob sh fileJob blockJob False
              in (put_block sched b blockJob, sh)
         else
           let blockJob = blockJob\<lparr>nbytes := min (bsize fileJob) (size - offset blockJob)\<rparr>
           in if dataPreallocated then (queue_read sched i b blockJob, sh)
              else
                let (p, arena) = buddy_malloc (copybufferAllocator sh) (bsize fileJob);
                    sh = sh\<lparr>copybufferAllocator := arena, allocationAttempts := inc64 (allocationAttempts sh)\<rparr>
                in if p = NULL
                   then let sh = sh\<lparr>allocationFailures := inc64 (allocationFailures sh)\<rparr>;
                            (sh, blockJob) = schedulerClearBlockCopyJob sh fileJob blockJob False
                        in (put_block sched b blockJob, sh)
                   else let sh = sh\<lparr>totalMemAllocated := (totalMemAllocated sh + bsize fileJob) mod 2 ^ 64\<rparr>
                        in (queue_read sched i b (blockJob\<lparr>data := p\<rparr>), sh))"

section \<open>The life of a block\<close>

text \<open>A finished read: skip a sparse block, otherwise queue the padded write.\<close>

definition after_read ::
    "(8 word list \<Rightarrow> nat) \<Rightarrow> copy_scheduler \<Rightarrow> shared_state \<Rightarrow> nat \<Rightarrow> copy_scheduler \<times> shared_state" where
  "after_read xxh sched sh b =
     (let blockJob = blockCopyJobs sched ! b; n = nbytes blockJob in
      if sparse (opts sh) \<and> isZero (mem sh) (data blockJob) n
      then (put_block sched b (blockJob\<lparr>rw_type := FINISH, status := 0\<rparr>),
            sh\<lparr>bytesRead := (bytesRead sh + n) mod 2 ^ 64\<rparr>)
      else
        let sh = sh\<lparr>bytesRead := (bytesRead sh + n) mod 2 ^ 64\<rparr>;
            writeBytes = alignUp n DIRECT_IO_ALIGN;
            sh = (if writeBytes > n
                  then sh\<lparr>mem := memset (mem sh) (data blockJob + n) 0 (writeBytes - n)\<rparr> else sh);
            fileJob = fileCopyJobs sched ! the (parent blockJob);
            blockJob = blockJob\<lparr>cb := (io_prep_pwrite (dstFd fileJob) (data blockJob) writeBytes
                         (offset blockJob))\<lparr>cb_done := WR_DONE\<rparr>, status := EINPROGRESS, rw_type := WRITE,
                         srcHash := (if readback (opts sh) then xxh (bytes_at (mem sh) (data blockJob) n) else 0)\<rparr>
        in (schedIOSubmitDeferred (put_block sched b blockJob) b, sh))"

definition after_write ::
    "copy_scheduler \<Rightarrow> shared_state \<Rightarrow> nat \<Rightarrow> copy_scheduler \<times> shared_state" where
  "after_write sched sh b =
     (let blockJob = blockCopyJobs sched ! b; n = nbytes blockJob;
          sh = sh\<lparr>bytesWritten := (bytesWritten sh + n) mod 2 ^ 64\<rparr>
      in if readback (opts sh)
         then
           let sh = sh\<lparr>mem := memset (mem sh) (data blockJob) 0 n\<rparr>;
               fileJob = fileCopyJobs sched ! the (parent blockJob);
               blockJob = blockJob\<lparr>cb := (io_prep_pread (dstFd fileJob) (data blockJob) n
                            (offset blockJob))\<lparr>cb_done := RD_DONE\<rparr>, status := EINPROGRESS, rw_type := READDST\<rparr>
           in (schedIOSubmitDeferred (put_block sched b blockJob) b, sh)
         else (put_block sched b (blockJob\<lparr>rw_type := FINISH, status := 0\<rparr>), sh))"

text \<open>A finished block: compare the hashes, count it, and start the file's next block in its place.\<close>

definition finish_block ::
    "(8 word list \<Rightarrow> nat) \<Rightarrow> copy_scheduler \<Rightarrow> shared_state \<Rightarrow> nat \<Rightarrow> nat \<Rightarrow> copy_scheduler \<times> shared_state" where
  "finish_block xxh sched sh i b =
     (let fileJob = fileCopyJobs sched ! i; blockJob = blockCopyJobs sched ! b;
          fileJob = (if rw_type blockJob = READDST
                       \<and> xxh (bytes_at (mem sh) (data blockJob) (nbytes blockJob)) \<noteq> srcHash blockJob
                     then fileJob\<lparr>nErrors := inc64 (nErrors fileJob)\<rparr> else fileJob);
          fileJob = fileJob\<lparr>nBlockJobsScheduled := dec64 (nBlockJobsScheduled fileJob),
                      nBlockJobsFinished := inc64 (nBlockJobsFinished fileJob)\<rparr>;
          (sh, blockJob) = schedulerClearBlockCopyJob sh fileJob blockJob True
      in schedulerScheduleBlockCopyJob (put_block (put_file sched i fileJob) b blockJob) sh i b True)"

definition fail_block ::
    "copy_scheduler \<Rightarrow> shared_state \<Rightarrow> nat \<Rightarrow> nat \<Rightarrow> copy_scheduler \<times> shared_state" where
  "fail_block sched sh i b =
     (let fileJob = fileCopyJobs sched ! i; blockJob = blockCopyJobs sched ! b;
          fileJob = fileJob\<lparr>nBlockJobsFinished := inc64 (nBlockJobsFinished fileJob),
                      nBlockJobsScheduled := dec64 (nBlockJobsScheduled fileJob)\<rparr>;
          (sh, blockJob) = schedulerClearBlockCopyJob sh fileJob blockJob False
      in (put_block (put_file sched i fileJob) b blockJob, sh))"

definition schedulerUpdateBlockCopyJob ::
    "(8 word list \<Rightarrow> nat) \<Rightarrow> copy_scheduler \<Rightarrow> shared_state \<Rightarrow> nat \<Rightarrow> nat \<Rightarrow> copy_scheduler \<times> shared_state" where
  "schedulerUpdateBlockCopyJob xxh sched sh i b =
     (let blockJob = blockCopyJobs sched ! b
      in if status blockJob = 0
         then (if rw_type blockJob = READ then after_read xxh sched sh b
               else if rw_type blockJob = WRITE then after_write sched sh b
               else finish_block xxh sched sh i b)
         else if status blockJob \<noteq> EINPROGRESS then fail_block sched sh i b
         else (sched, sh))"

definition schedulerShallowDupFileCopyJob :: "file_copy_job \<Rightarrow> file_copy_job" where
  "schedulerShallowDupFileCopyJob src = src"

section \<open>The update of a scheduler\<close>

definition block_no :: "copy_scheduler \<Rightarrow> nat \<Rightarrow> nat \<Rightarrow> nat" where
  "block_no sched i j = i * nBlockCopyJobsPerFileCopyJob sched + j"

definition clear_if_used :: "nat \<Rightarrow> nat \<Rightarrow> copy_scheduler \<times> shared_state \<Rightarrow> copy_scheduler \<times> shared_state" where
  "clear_if_used i b st =
     (let (sched, sh) = st; blockJob = blockCopyJobs sched ! b
      in if inUse blockJob
         then let (sh, blockJob) = schedulerClearBlockCopyJob sh (fileCopyJobs sched ! i) blockJob False
              in (put_block sched b blockJob, sh)
         else (sched, sh))"

definition schedulerClearFileCopyJob ::
    "copy_scheduler \<Rightarrow> shared_state \<Rightarrow> nat \<Rightarrow> copy_scheduler \<times> shared_state" where
  "schedulerClearFileCopyJob sched sh i =
     (let n = nBlockCopyJobsPerFileCopyJob sched;
          (sched, sh) = fold (clear_if_used i) [i * n..<i * n + n] (sched, sh)
      in (put_file sched i zero_file_job, sh))"

text \<open>
  The events that \<open>io_getevents\<close> delivers: the control block's job and the result, either the count
  that the request asked for or any other number.
\<close>

datatype io_result = Whole | Res int

type_synonym io_event = "nat \<times> io_result"

definition result_of :: "iocb \<Rightarrow> io_result \<Rightarrow> int" where
  "result_of c r = (case r of Whole \<Rightarrow> int (cb_nbytes c) | Res n \<Rightarrow> n)"

fun take_request :: "nat \<Rightarrow> (nat \<times> iocb) list \<Rightarrow> (iocb \<times> (nat \<times> iocb) list) option" where
  "take_request b [] = None"
| "take_request b ((b', c) # rest) =
     (if b = b' then Some (c, rest) else map_option (apsnd (Cons (b', c))) (take_request b rest))"

definition io_deliver :: "io_event \<Rightarrow> copy_scheduler \<times> shared_state \<Rightarrow> copy_scheduler \<times> shared_state" where
  "io_deliver ev st =
     (let (sched, sh) = st; (b, res) = ev
      in case take_request b (ctx sched) of None \<Rightarrow> (sched, sh)
         | Some (c, rest) \<Rightarrow>
             let res = result_of c res; sh = aio_effect c res sh; sched = sched\<lparr>ctx := rest\<rparr>
             in (put_block sched b (run_callback (cb_done c) (blockCopyJobs sched ! b) res), sh))"

definition io_queue_run_timeout ::
    "io_event list \<Rightarrow> copy_scheduler \<times> shared_state \<Rightarrow> copy_scheduler \<times> shared_state" where
  "io_queue_run_timeout events st = fold io_deliver events st"

text \<open>
  What the kernel and the queue answer during one update: the reply of \<open>io_submit\<close>, the events, the
  last reply of \<open>io_getevents\<close> and the file jobs that the queue delivers.
\<close>

record replies =
  r_submit :: int
  r_events :: "io_event list"
  r_getevents :: int
  r_jobs :: "file_copy_job list"

definition schedulerTick ::
    "replies \<Rightarrow> copy_scheduler \<Rightarrow> shared_state \<Rightarrow> int \<times> copy_scheduler \<times> shared_state" where
  "schedulerTick r sched sh =
     (let (rc, sched, sh) = schedIOSubmitBatch (r_submit r) sched sh
      in if rc \<noteq> 0 then (rc, sched, sh)
         else let (sched, sh) = io_queue_run_timeout (r_events r) (sched, sh)
              in (if r_getevents r < 0 then - r_getevents r else 0, sched, sh))"

definition update_block ::
    "(8 word list \<Rightarrow> nat) \<Rightarrow> nat \<Rightarrow> nat \<Rightarrow> copy_scheduler \<times> shared_state \<Rightarrow> copy_scheduler \<times> shared_state" where
  "update_block xxh i j st =
     (let (sched, sh) = st; b = block_no sched i j
      in if inUse (blockCopyJobs sched ! b) then schedulerUpdateBlockCopyJob xxh sched sh i b else (sched, sh))"

definition update_file ::
    "(8 word list \<Rightarrow> nat) \<Rightarrow> nat \<Rightarrow> copy_scheduler \<times> shared_state \<Rightarrow> copy_scheduler \<times> shared_state" where
  "update_file xxh i st =
     (if \<not> active (fileCopyJobs (fst st) ! i) then st
      else fold (update_block xxh i) [0..<nBlockCopyJobsPerFileCopyJob (fst st)] st)"

text \<open>The search for a block job to schedule; its condition does not change before it ends.\<close>

fun schedule_one :: "nat \<Rightarrow> nat list \<Rightarrow> copy_scheduler \<times> shared_state \<Rightarrow> copy_scheduler \<times> shared_state" where
  "schedule_one i [] st = st"
| "schedule_one i (j # js) st =
     (let (sched, sh) = st; fileJob = fileCopyJobs sched ! i
      in if (nBlockJobsFinished fileJob + nBlockJobsScheduled fileJob) mod 2 ^ 64
              < blockCount (stx_size (stx fileJob)) (bsize fileJob)
         then (if \<not> inUse (blockCopyJobs sched ! block_no sched i j)
               then schedulerScheduleBlockCopyJob sched sh i (block_no sched i j) False
               else schedule_one i js st)
         else st)"

definition complete_or_schedule ::
    "nat \<Rightarrow> copy_scheduler \<times> shared_state \<Rightarrow> copy_scheduler \<times> shared_state" where
  "complete_or_schedule i st =
     (let (sched, sh) = st; fileJob = fileCopyJobs sched ! i
      in if \<not> active fileJob then st
         else if nBlockJobsFinished fileJob \<ge> blockCount (stx_size (stx fileJob)) (bsize fileJob)
         then
           let dupJob = (schedulerShallowDupFileCopyJob fileJob)\<lparr>actuallyTransferred := True\<rparr>
           in schedulerClearFileCopyJob sched (sh\<lparr>finishQueue := finishQueue sh @ [dupJob]\<rparr>) i
         else schedule_one i [0..<nBlockCopyJobsPerFileCopyJob sched] st)"

text \<open>Filling the inactive file jobs, up to the first time the queue has nothing.\<close>

fun fill_jobs :: "nat list \<Rightarrow> file_copy_job list \<Rightarrow> copy_scheduler \<Rightarrow> nat \<Rightarrow> copy_scheduler \<times> nat" where
  "fill_jobs [] jobs sched activeJobs = (sched, activeJobs)"
| "fill_jobs (i # is) jobs sched activeJobs =
     (if \<not> active (fileCopyJobs sched ! i)
      then (case jobs of [] \<Rightarrow> (sched, activeJobs)
            | newJob # jobs \<Rightarrow>
                fill_jobs is jobs
                  (put_file sched i (newJob\<lparr>nBlockJobsScheduled := 0, nBlockJobsFinished := 0, nErrors := 0,
                     active := True\<rparr>)) (activeJobs + 1))
      else fill_jobs is jobs sched activeJobs)"

definition schedulerUpdate ::
    "(8 word list \<Rightarrow> nat) \<Rightarrow> replies \<Rightarrow> copy_scheduler \<Rightarrow> shared_state \<Rightarrow> int \<times> copy_scheduler \<times> shared_state" where
  "schedulerUpdate xxh r sched sh =
     (let slots = [0..<nFileCopyJobs sched];
          st = fold (update_file xxh) slots (sched, sh);
          (sched, sh) = fold complete_or_schedule slots st;
          activeJobs = length (filter (\<lambda>i. active (fileCopyJobs sched ! i)) slots);
          (sched, activeJobs) = fill_jobs slots (r_jobs r) sched activeJobs;
          sh = sh\<lparr>schedulerIterations := inc64 (schedulerIterations sh)\<rparr>
      in if activeJobs = 0 \<and> crawlDone sh then (0, sched, sh)
         else let (rc, sched, sh) = schedulerTick r sched sh in (EINPROGRESS, sched, sh))"

end
