(* ===== verification/Copy_Accounting.thy ===== *)
theory Copy_Accounting
  imports Copy_Scheduler
begin

text \<open>
  The books of the copy scheduler. For every file job the block jobs in use are as many as the counter
  says and carry different block numbers below the number of blocks issued; a request waits in the
  batch or is in flight exactly while its block job is in progress. Every operation keeps this.
\<close>

section \<open>The invariant\<close>

definition request_of :: "file_copy_job \<Rightarrow> block_copy_job \<Rightarrow> iocb" where
  "request_of f x = (case rw_type x of
      READ \<Rightarrow> (io_prep_pread (srcFd f) (data x) (nbytes x) (offset x))\<lparr>cb_done := RD_DONE\<rparr>
    | WRITE \<Rightarrow> (io_prep_pwrite (dstFd f) (data x) (alignUp (nbytes x) DIRECT_IO_ALIGN) (offset x))\<lparr>cb_done := WR_DONE\<rparr>
    | READDST \<Rightarrow> (io_prep_pread (dstFd f) (data x) (nbytes x) (offset x))\<lparr>cb_done := RD_DONE\<rparr>
    | FINISH \<Rightarrow> zero_iocb)"

abbreviation (input) fsize :: "file_copy_job \<Rightarrow> nat" where
  "fsize f \<equiv> stx_size (stx f)"

abbreviation (input) issued :: "file_copy_job \<Rightarrow> nat" where
  "issued f \<equiv> nBlockJobsScheduled f + nBlockJobsFinished f"

text \<open>A file job as the crawler queues it: aligned blocks, fewer of them than an \<open>int\<close> can count.\<close>

definition file_ok :: "file_copy_job \<Rightarrow> bool" where
  "file_ok f \<longleftrightarrow> 0 < bsize f \<and> DIRECT_IO_ALIGN dvd bsize f \<and> fsize f + bsize f \<le> 2 ^ 63
     \<and> blockCount (fsize f) (bsize f) < 2 ^ 31"

definition block_ok :: "file_copy_job \<Rightarrow> nat \<Rightarrow> block_copy_job \<Rightarrow> bool" where
  "block_ok f i x \<longleftrightarrow> parent x = Some i \<and> 0 \<le> jobno x \<and> jobno x < int (issued f)
     \<and> offset x = bsize f * nat (jobno x) \<and> offset x < fsize f \<and> nbytes x = min (bsize f) (fsize f - offset x)
     \<and> (status x = EINPROGRESS \<longrightarrow> cb x = request_of f x \<and> rw_type x \<noteq> FINISH)"

definition file_inv :: "file_copy_job \<Rightarrow> nat \<Rightarrow> nat set \<Rightarrow> (nat \<Rightarrow> block_copy_job) \<Rightarrow> bool" where
  "file_inv f i B blk \<longleftrightarrow>
     (if active f
      then file_ok f \<and> nBlockJobsScheduled f = card {b \<in> B. inUse (blk b)}
        \<and> issued f \<le> blockCount (fsize f) (bsize f) \<and> nErrors f \<le> nBlockJobsFinished f
        \<and> (\<forall>b \<in> B. inUse (blk b) \<longrightarrow> block_ok f i (blk b))
        \<and> inj_on (\<lambda>b. jobno (blk b)) {b \<in> B. inUse (blk b)}
      else \<forall>b \<in> B. \<not> inUse (blk b))"

definition slot :: "copy_scheduler \<Rightarrow> nat \<Rightarrow> nat set" where
  "slot s i = {i * nBlockCopyJobsPerFileCopyJob s..<i * nBlockCopyJobsPerFileCopyJob s + nBlockCopyJobsPerFileCopyJob s}"

definition block_at :: "copy_scheduler \<Rightarrow> nat \<Rightarrow> block_copy_job" where
  "block_at s b = blockCopyJobs s ! b"

definition jobs_inv :: "copy_scheduler \<Rightarrow> bool" where
  "jobs_inv s \<longleftrightarrow> length (fileCopyJobs s) = nFileCopyJobs s
     \<and> length (blockCopyJobs s) = nBlockCopyJobsPerFileCopyJob s * nFileCopyJobs s
     \<and> (\<forall>i < nFileCopyJobs s. file_inv (fileCopyJobs s ! i) i (slot s i) (block_at s))"

text \<open>The queue: \<open>batch\<close> is what is left of the batch while a failed batch is taken apart.\<close>

definition queue_inv :: "nat list \<Rightarrow> copy_scheduler \<Rightarrow> bool" where
  "queue_inv batch s \<longleftrightarrow> distinct (batch @ map fst (ctx s))
     \<and> set batch \<union> fst ` set (ctx s)
         = {b. b < length (blockCopyJobs s) \<and> inUse (block_at s b) \<and> status (block_at s b) = EINPROGRESS}
     \<and> (\<forall>(b, c) \<in> set (ctx s). c = cb (block_at s b))"

section \<open>Slots\<close>

lemma slot_bound: "b \<in> slot s i \<Longrightarrow> i < nFileCopyJobs s \<Longrightarrow> b < nBlockCopyJobsPerFileCopyJob s * nFileCopyJobs s"
proof -
  assume "b \<in> slot s i" "i < nFileCopyJobs s"
  then have "b < Suc i * nBlockCopyJobsPerFileCopyJob s" by (simp add: slot_def)
  also have "\<dots> \<le> nFileCopyJobs s * nBlockCopyJobsPerFileCopyJob s"
    using \<open>i < nFileCopyJobs s\<close> by (intro mult_le_mono1) simp
  finally show ?thesis by (simp add: mult.commute)
qed

lemma slot_unique: "b \<in> slot s i \<Longrightarrow> b \<in> slot s j \<Longrightarrow> i = j"
proof -
  have *: "i = b div nBlockCopyJobsPerFileCopyJob s" if "b \<in> slot s i" for i
    using that by (auto simp: slot_def intro!: div_nat_eqI [symmetric]) (simp_all add: algebra_simps)
  assume "b \<in> slot s i" "b \<in> slot s j"
  then show ?thesis using * by metis
qed

lemma slot_cover:
  assumes "b < nBlockCopyJobsPerFileCopyJob s * nFileCopyJobs s"
  obtains i where "i < nFileCopyJobs s" "b \<in> slot s i"
proof
  have "0 < nBlockCopyJobsPerFileCopyJob s" using assms by (metis mult_is_0 not_gr_zero not_less_zero)
  then show "b \<in> slot s (b div nBlockCopyJobsPerFileCopyJob s)"
    unfolding slot_def by (simp add: div_mult_mod_eq dividend_less_times_div) (metis div_mult_mod_eq mod_less_divisor nat_add_left_cancel_less)
  show "b div nBlockCopyJobsPerFileCopyJob s < nFileCopyJobs s"
    using assms by (simp add: less_mult_imp_div_less mult.commute)
qed

lemma finite_slot [simp]: "finite (slot s i)"
  by (simp add: slot_def)

lemma block_no_slot: "j < nBlockCopyJobsPerFileCopyJob s \<Longrightarrow> block_no s i j \<in> slot s i"
  by (simp add: block_no_def slot_def)

section \<open>Local changes\<close>

lemma file_inv_progress:
  assumes "file_inv f i B blk" "b \<in> B" "inUse (blk b)" "inUse x" "block_ok f i x" "jobno x = jobno (blk b)"
  shows "file_inv f i B (blk(b := x))"
proof -
  have u: "{c \<in> B. inUse ((blk(b := x)) c)} = {c \<in> B. inUse (blk c)}" using assms(2-4) by auto
  have "active f" using assms(1-3) by (auto simp: file_inv_def split: if_splits)
  moreover have "inj_on (\<lambda>c. jobno ((blk(b := x)) c)) {c \<in> B. inUse (blk c)}
      \<longleftrightarrow> inj_on (\<lambda>c. jobno (blk c)) {c \<in> B. inUse (blk c)}"
    by (rule inj_on_cong) (simp add: assms(6))
  ultimately show ?thesis using assms(1,5) unfolding file_inv_def u by auto
qed

lemma block_ok_cong: "block_ok f i x \<Longrightarrow> bsize f' = bsize f \<Longrightarrow> stx f' = stx f \<Longrightarrow> srcFd f' = srcFd f \<Longrightarrow>
    dstFd f' = dstFd f \<Longrightarrow> issued f \<le> issued f' \<Longrightarrow> block_ok f' i x"
  by (auto simp: block_ok_def request_of_def split: RW.splits)

text \<open>What an operation on the counters leaves alone.\<close>

definition same_file :: "file_copy_job \<Rightarrow> file_copy_job \<Rightarrow> bool" where
  "same_file f f' \<longleftrightarrow> active f' = active f \<and> bsize f' = bsize f \<and> stx f' = stx f \<and> srcFd f' = srcFd f \<and> dstFd f' = dstFd f"

lemma file_inv_release:
  assumes "file_inv f i B blk" "finite B" "b \<in> B" "inUse (blk b)" "\<not> inUse x" "same_file f f'"
    "nBlockJobsScheduled f' = nBlockJobsScheduled f - 1" "nBlockJobsFinished f' = nBlockJobsFinished f + 1"
    "nErrors f' \<le> nErrors f + 1"
  shows "file_inv f' i B (blk(b := x))" "0 < nBlockJobsScheduled f"
proof -
  have a: "active f" using assms(1,3,4) by (auto simp: file_inv_def split: if_splits)
  let ?U = "{c \<in> B. inUse (blk c)}"
  have u: "{c \<in> B. inUse ((blk(b := x)) c)} = ?U - {b}" using assms(5) by auto
  have inv: "file_ok f" "nBlockJobsScheduled f = card ?U" "issued f \<le> blockCount (fsize f) (bsize f)"
    "nErrors f \<le> nBlockJobsFinished f" "\<forall>b \<in> B. inUse (blk b) \<longrightarrow> block_ok f i (blk b)"
    "inj_on (\<lambda>b. jobno (blk b)) ?U" using assms(1) a by (auto simp: file_inv_def)
  have "b \<in> ?U" "finite ?U" using assms(2-4) by auto
  then show pos: "0 < nBlockJobsScheduled f" unfolding inv(2) by (metis card_gt_0_iff empty_iff)
  have card: "card (?U - {b}) = nBlockJobsScheduled f - 1" using \<open>b \<in> ?U\<close> inv(2) by simp
  have iss: "issued f' = issued f" using assms(7,8) pos by simp
  have "inj_on (\<lambda>c. jobno ((blk(b := x)) c)) (?U - {b})"
    using inv(6) by (auto simp: inj_on_def)
  moreover have "\<forall>c \<in> B. inUse ((blk(b := x)) c) \<longrightarrow> block_ok f' i ((blk(b := x)) c)"
    using inv(5) assms(5,6) iss by (auto simp: same_file_def intro: block_ok_cong)
  ultimately show "file_inv f' i B (blk(b := x))"
    using inv(1,3,4) assms(6-9) a card iss unfolding file_inv_def u
    by (simp add: same_file_def file_ok_def)
qed

lemma file_inv_acquire:
  assumes "file_inv f i B blk" "finite B" "b \<in> B" "active f" "\<not> inUse (blk b)" "inUse x" "same_file f f'"
    "nBlockJobsScheduled f' = nBlockJobsScheduled f + 1" "nBlockJobsFinished f' = nBlockJobsFinished f"
    "nErrors f' = nErrors f" "jobno x = int (issued f)" "block_ok f' i x"
  shows "file_inv f' i B (blk(b := x))"
proof -
  let ?U = "{c \<in> B. inUse (blk c)}"
  have u: "{c \<in> B. inUse ((blk(b := x)) c)} = insert b ?U" using assms(3,6) by auto
  have inv: "file_ok f" "nBlockJobsScheduled f = card ?U" "issued f \<le> blockCount (fsize f) (bsize f)"
    "nErrors f \<le> nBlockJobsFinished f" "\<forall>b \<in> B. inUse (blk b) \<longrightarrow> block_ok f i (blk b)"
    "inj_on (\<lambda>b. jobno (blk b)) ?U" using assms(1,4) by (auto simp: file_inv_def)
  have "b \<notin> ?U" "finite ?U" using assms(2,5) by auto
  then have card: "card (insert b ?U) = nBlockJobsScheduled f + 1" using inv(2) by simp
  have "nat (jobno x) = issued f" unfolding assms(11) by (rule nat_int)
  then have "bsize f * issued f < fsize f" using assms(7,12) by (simp add: block_ok_def same_file_def)
  then have "issued f < blockCount (fsize f) (bsize f)"
    using inv(1) blockCount_less_iff [of "bsize f" "issued f" "fsize f"] by (simp add: file_ok_def)
  moreover have "inj_on (\<lambda>c. jobno ((blk(b := x)) c)) (insert b ?U)"
  proof -
    have "jobno (blk c) < int (issued f)" if "c \<in> ?U" for c using inv(5) that by (auto simp: block_ok_def)
    then have "\<forall>c \<in> ?U. jobno (blk c) \<noteq> jobno x" using assms(11) by fastforce
    then show ?thesis using inv(6) \<open>b \<notin> ?U\<close> by (auto simp: inj_on_def)
  qed
  moreover have "\<forall>c \<in> B. inUse ((blk(b := x)) c) \<longrightarrow> block_ok f' i ((blk(b := x)) c)"
    using inv(5) assms(7-9,12) by (auto simp: same_file_def intro: block_ok_cong)
  ultimately show ?thesis
    using inv(1,4) assms(4,7-10) card unfolding file_inv_def u by (simp add: same_file_def file_ok_def)
qed

lemma file_inv_errors: "file_inv f i B blk \<Longrightarrow> same_file f f' \<Longrightarrow> nBlockJobsScheduled f' = nBlockJobsScheduled f \<Longrightarrow>
    nBlockJobsFinished f' = nBlockJobsFinished f \<Longrightarrow> nErrors f' = nErrors f \<Longrightarrow> file_inv f' i B blk"
proof -
  assume *: "file_inv f i B blk" "same_file f f'" "nBlockJobsScheduled f' = nBlockJobsScheduled f"
    "nBlockJobsFinished f' = nBlockJobsFinished f" "nErrors f' = nErrors f"
  have "block_ok f i x \<Longrightarrow> block_ok f' i x" for x
    using *(2-4) by (rule_tac block_ok_cong) (auto simp: same_file_def)
  then show ?thesis using * by (auto simp: file_inv_def same_file_def file_ok_def)
qed

lemma file_inv_cong: "(\<And>b. b \<in> B \<Longrightarrow> blk b = blk' b) \<Longrightarrow> file_inv f i B blk = file_inv f i B blk'"
proof -
  assume *: "\<And>b. b \<in> B \<Longrightarrow> blk b = blk' b"
  then have u: "{b \<in> B. inUse (blk b)} = {b \<in> B. inUse (blk' b)}" by auto
  have "inj_on (\<lambda>b. jobno (blk b)) {b \<in> B. inUse (blk' b)} = inj_on (\<lambda>b. jobno (blk' b)) {b \<in> B. inUse (blk' b)}"
    by (rule inj_on_cong) (simp add: *)
  then show ?thesis unfolding file_inv_def u using * by auto
qed

section \<open>The invariant under updates of one block job\<close>

lemma put_simps [simp]:
  "nFileCopyJobs (put_block s b x) = nFileCopyJobs s" "nFileCopyJobs (put_file s i f) = nFileCopyJobs s"
  "nBlockCopyJobsPerFileCopyJob (put_block s b x) = nBlockCopyJobsPerFileCopyJob s"
  "nBlockCopyJobsPerFileCopyJob (put_file s i f) = nBlockCopyJobsPerFileCopyJob s"
  "fileCopyJobs (put_block s b x) = fileCopyJobs s" "fileCopyJobs (put_file s i f) = (fileCopyJobs s)[i := f]"
  "blockCopyJobs (put_block s b x) = (blockCopyJobs s)[b := x]" "blockCopyJobs (put_file s i f) = blockCopyJobs s"
  "cbBatch (put_block s b x) = cbBatch s" "cbBatch (put_file s i f) = cbBatch s"
  "ctx (put_block s b x) = ctx s" "ctx (put_file s i f) = ctx s"
  by (simp_all add: put_block_def put_file_def)

lemma deferred_simps [simp]:
  "nFileCopyJobs (schedIOSubmitDeferred s b) = nFileCopyJobs s"
  "nBlockCopyJobsPerFileCopyJob (schedIOSubmitDeferred s b) = nBlockCopyJobsPerFileCopyJob s"
  "fileCopyJobs (schedIOSubmitDeferred s b) = fileCopyJobs s"
  "blockCopyJobs (schedIOSubmitDeferred s b) = blockCopyJobs s"
  "cbBatch (schedIOSubmitDeferred s b) = cbBatch s @ [b]" "ctx (schedIOSubmitDeferred s b) = ctx s"
  by (simp_all add: schedIOSubmitDeferred_def)

lemma slot_simps [simp]:
  "slot (put_block s b x) = slot s" "slot (put_file s i f) = slot s" "slot (schedIOSubmitDeferred s b) = slot s"
  by (simp_all add: slot_def fun_eq_iff)

lemma block_at_simps [simp]:
  "block_at (put_file s i f) = block_at s" "block_at (schedIOSubmitDeferred s b) = block_at s"
  by (simp_all add: block_at_def fun_eq_iff)

lemma block_at_put: "b < length (blockCopyJobs s) \<Longrightarrow> block_at (put_block s b x) = (block_at s)(b := x)"
  by (auto simp: block_at_def fun_eq_iff nth_list_update)

lemma jobs_inv_same:
  "nFileCopyJobs s' = nFileCopyJobs s \<Longrightarrow> nBlockCopyJobsPerFileCopyJob s' = nBlockCopyJobsPerFileCopyJob s \<Longrightarrow>
   fileCopyJobs s' = fileCopyJobs s \<Longrightarrow> blockCopyJobs s' = blockCopyJobs s \<Longrightarrow> jobs_inv s' = jobs_inv s"
  by (simp add: jobs_inv_def slot_def block_at_def [abs_def])

lemma jobs_inv_put:
  assumes "jobs_inv s" "i < nFileCopyJobs s" "b \<in> slot s i" "file_inv f i (slot s i) ((block_at s)(b := x))"
  shows "jobs_inv (put_file (put_block s b x) i f)"
proof -
  have b: "b < length (blockCopyJobs s)" using slot_bound [OF assms(3,2)] assms(1) by (simp add: jobs_inv_def)
  have "file_inv (fileCopyJobs s ! j) j (slot s j) ((block_at s)(b := x))" if "j < nFileCopyJobs s" "j \<noteq> i" for j
  proof -
    have "b \<notin> slot s j" using slot_unique [OF assms(3)] that(2) by blast
    then show ?thesis using assms(1) that by (subst file_inv_cong [of _ _ "block_at s"]) (auto simp: jobs_inv_def)
  qed
  then show ?thesis
    using assms b by (auto simp: jobs_inv_def block_at_put nth_list_update)
qed

lemma jobs_inv_file: "jobs_inv s \<Longrightarrow> i < nFileCopyJobs s \<Longrightarrow> file_inv (fileCopyJobs s ! i) i (slot s i) (block_at s)"
  by (simp add: jobs_inv_def)

lemma jobs_inv_block: "jobs_inv s \<Longrightarrow> i < nFileCopyJobs s \<Longrightarrow> b \<in> slot s i \<Longrightarrow> b < length (blockCopyJobs s)"
  using slot_bound by (simp add: jobs_inv_def)

lemma put_file_same: "i < length (fileCopyJobs s) \<Longrightarrow> put_file s i (fileCopyJobs s ! i) = s"
  by (simp add: put_file_def)

lemma file_inv_idle:
  assumes "file_inv f i B blk" "\<not> inUse (blk b)" "\<not> inUse x"
  shows "file_inv f i B (blk(b := x))"
proof -
  have u: "{c \<in> B. inUse ((blk(b := x)) c)} = {c \<in> B. inUse (blk c)}" using assms(2,3) by auto
  have "inj_on (\<lambda>c. jobno ((blk(b := x)) c)) {c \<in> B. inUse (blk c)}
      \<longleftrightarrow> inj_on (\<lambda>c. jobno (blk c)) {c \<in> B. inUse (blk c)}"
    using assms(2) by (intro inj_on_cong) auto
  then show ?thesis using assms unfolding file_inv_def u by auto
qed

text \<open>The queue: an idle block job stays idle, starts to wait, or a failed one leaves the batch.\<close>

definition busy :: "block_copy_job \<Rightarrow> bool" where
  "busy x \<longleftrightarrow> inUse x \<and> status x = EINPROGRESS"

lemma queue_inv_set: "queue_inv batch s \<Longrightarrow>
    b \<in> set batch \<or> b \<in> fst ` set (ctx s) \<longleftrightarrow> b < length (blockCopyJobs s) \<and> busy (block_at s b)"
  unfolding queue_inv_def busy_def by blast

lemma ctx_frame: "\<forall>(c, d) \<in> set C. d = cb (f c) \<Longrightarrow> b \<notin> fst ` set C \<Longrightarrow> \<forall>(c, d) \<in> set C. d = cb ((f(b := x)) c)"
  by force

lemma queue_inv_ctx: "queue_inv batch s \<Longrightarrow> \<forall>(c, d) \<in> set (ctx s). d = cb (block_at s c)"
  by (simp add: queue_inv_def)

lemma queue_inv_quiet:
  assumes "queue_inv batch s" "b < length (blockCopyJobs s)" "\<not> busy (block_at s b)" "\<not> busy x"
  shows "queue_inv batch (put_block s b x)"
proof -
  have n: "b \<notin> fst ` set (ctx s)" using queue_inv_set [OF assms(1)] assms(3) by blast
  have "{c. c < length (blockCopyJobs s) \<and> inUse (((block_at s)(b := x)) c) \<and> status (((block_at s)(b := x)) c) = EINPROGRESS}
      = {c. c < length (blockCopyJobs s) \<and> inUse (block_at s c) \<and> status (block_at s c) = EINPROGRESS}"
    using assms(3,4) by (auto simp: busy_def)
  moreover have "\<forall>(c, d) \<in> set (ctx s). d = cb (((block_at s)(b := x)) c)"
    using ctx_frame [OF queue_inv_ctx [OF assms(1)]] n by blast
  ultimately show ?thesis using assms(1,2) by (simp add: queue_inv_def block_at_put)
qed

lemma queue_inv_defer:
  assumes "queue_inv batch s" "b < length (blockCopyJobs s)" "\<not> busy (block_at s b)" "busy x"
  shows "queue_inv (batch @ [b]) (put_block s b x)"
proof -
  have n: "b \<notin> set batch" "b \<notin> fst ` set (ctx s)" using queue_inv_set [OF assms(1)] assms(3) by blast+
  have "{c. c < length (blockCopyJobs s) \<and> inUse (((block_at s)(b := x)) c) \<and> status (((block_at s)(b := x)) c) = EINPROGRESS}
      = insert b {c. c < length (blockCopyJobs s) \<and> inUse (block_at s c) \<and> status (block_at s c) = EINPROGRESS}"
    using assms(2-4) by (auto simp: busy_def)
  moreover have "\<forall>(c, d) \<in> set (ctx s). d = cb (((block_at s)(b := x)) c)"
    using ctx_frame [OF queue_inv_ctx [OF assms(1)]] n by blast
  ultimately show ?thesis using assms(1,2) n by (auto simp: queue_inv_def block_at_put)
qed

lemma queue_inv_drop:
  assumes "queue_inv (b # batch) s" "\<not> busy x"
  shows "queue_inv batch (put_block s b x)"
proof -
  have b: "b < length (blockCopyJobs s)" using queue_inv_set [OF assms(1)] by auto
  have n: "b \<notin> fst ` set (ctx s)" "b \<notin> set batch" using assms(1) by (auto simp: queue_inv_def)
  have "{c. c < length (blockCopyJobs s) \<and> inUse (((block_at s)(b := x)) c) \<and> status (((block_at s)(b := x)) c) = EINPROGRESS}
      = {c. c < length (blockCopyJobs s) \<and> inUse (block_at s c) \<and> status (block_at s c) = EINPROGRESS} - {b}"
    using assms(2) by (auto simp: busy_def)
  moreover have "\<forall>(c, d) \<in> set (ctx s). d = cb (((block_at s)(b := x)) c)"
    using ctx_frame [OF queue_inv_ctx [OF assms(1)]] n by blast
  moreover have "set batch \<union> fst ` set (ctx s)
      = {c. c < length (blockCopyJobs s) \<and> inUse (block_at s c) \<and> status (block_at s c) = EINPROGRESS} - {b}"
    using assms(1) n unfolding queue_inv_def by auto
  ultimately show ?thesis using assms(1) b by (simp add: queue_inv_def block_at_put)
qed

lemma queue_inv_same:
  "ctx s' = ctx s \<Longrightarrow> blockCopyJobs s' = blockCopyJobs s \<Longrightarrow> queue_inv batch s' = queue_inv batch s"
  by (simp add: queue_inv_def block_at_def [abs_def])

section \<open>Scheduling a block\<close>

definition sched_ok :: "copy_scheduler \<Rightarrow> bool" where
  "sched_ok s \<longleftrightarrow> jobs_inv s \<and> queue_inv (cbBatch s) s"

text \<open>What an operation on block job \<open>b\<close> of file job \<open>i\<close> leaves alone.\<close>

definition local_step :: "nat \<Rightarrow> nat \<Rightarrow> copy_scheduler \<Rightarrow> copy_scheduler \<Rightarrow> bool" where
  "local_step i b s s' \<longleftrightarrow> nFileCopyJobs s' = nFileCopyJobs s
     \<and> nBlockCopyJobsPerFileCopyJob s' = nBlockCopyJobsPerFileCopyJob s \<and> ctx s' = ctx s
     \<and> (\<forall>j. j \<noteq> i \<longrightarrow> fileCopyJobs s' ! j = fileCopyJobs s ! j)
     \<and> (\<forall>c. c \<noteq> b \<longrightarrow> block_at s' c = block_at s c)
     \<and> same_file (fileCopyJobs s ! i) (fileCopyJobs s' ! i)"

lemma same_file_refl [simp]: "same_file f f"
  by (simp add: same_file_def)

lemma local_step_put:
  "same_file (fileCopyJobs s ! i) f \<Longrightarrow> i < length (fileCopyJobs s) \<Longrightarrow> local_step i b s (put_file (put_block s b x) i f)"
  by (simp add: local_step_def block_at_def)

lemma local_step_put_block: "local_step i b s (put_block s b x)"
  by (simp add: local_step_def block_at_def)

lemma local_step_trans: "local_step i b s t \<Longrightarrow> local_step i b t u \<Longrightarrow> local_step i b s u"
  by (auto simp: local_step_def same_file_def)

lemma local_step_defer: "local_step i b s t \<Longrightarrow> local_step i b s (schedIOSubmitDeferred t c)"
  by (simp add: local_step_def)

lemma issued_bound: "file_ok f \<Longrightarrow> issued f \<le> blockCount (fsize f) (bsize f) \<Longrightarrow> bsize f * issued f < 2 ^ 63 \<and> issued f < 2 ^ 31"
proof -
  assume *: "file_ok f" "issued f \<le> blockCount (fsize f) (bsize f)"
  have "bsize f * issued f < 2 ^ 63"
  proof (cases "issued f")
    case 0
    then show ?thesis by simp
  next
    case (Suc k)
    then have "k < blockCount (fsize f) (bsize f)" using *(2) by simp
    then have "bsize f * k < fsize f" using *(1) by (simp add: blockCount_less_iff file_ok_def)
    then show ?thesis using *(1) by (simp add: Suc file_ok_def)
  qed
  then show ?thesis using * by (simp add: file_ok_def)
qed

lemma block_init_spec:
  assumes "file_ok f" "issued f \<le> blockCount (fsize f) (bsize f)"
  shows "block_init f i x = x\<lparr>jobno := int (issued f), parent := Some i, cb := zero_iocb, rw_type := READ,
     status := EINPROGRESS, offset := bsize f * issued f\<rparr>"
proof -
  note b = issued_bound [OF assms]
  have "issued f mod 2 ^ 64 = issued f" using b by simp
  moreover have "to_int (issued f) = int (issued f)" using b by (intro to_int_eq) simp
  moreover have "nat ((int (bsize f) * int (issued f)) mod 2 ^ 64) = bsize f * issued f"
  proof -
    have "int (bsize f) * int (issued f) = int (bsize f * issued f)" by (simp only: of_nat_mult)
    moreover have "int (bsize f * issued f) mod 2 ^ 64 = int (bsize f * issued f mod 2 ^ 64)"
      by (simp only: of_nat_mod of_nat_power of_nat_numeral)
    moreover have "bsize f * issued f mod 2 ^ 64 = bsize f * issued f" using b by simp
    ultimately show ?thesis by (simp only: nat_int)
  qed
  ultimately show ?thesis by (simp add: block_init_def Let_def)
qed

lemma clear_block:
  "snd (schedulerClearBlockCopyJob sh f x nofree) = zero_block_job\<lparr>data := (if nofree then data x else NULL)\<rparr>"
  by (simp add: schedulerClearBlockCopyJob_def Let_def)

lemma cleared_idle [simp]: "\<not> inUse (zero_block_job\<lparr>data := p\<rparr>)" "\<not> busy (zero_block_job\<lparr>data := p\<rparr>)"
  by (simp_all add: zero_block_job_def busy_def)

lemma idle_not_busy: "\<not> inUse x \<Longrightarrow> \<not> busy x"
  by (simp add: busy_def)

lemma sched_ok_idle:
  assumes "sched_ok s" "i < nFileCopyJobs s" "b \<in> slot s i" "\<not> inUse (block_at s b)" "\<not> inUse x"
  shows "sched_ok (put_block s b x)"
proof -
  have j: "jobs_inv s" using assms(1) by (simp add: sched_ok_def)
  have b: "b < length (blockCopyJobs s)" by (rule jobs_inv_block [OF j assms(2,3)])
  have "jobs_inv (put_file (put_block s b x) i (fileCopyJobs s ! i))"
    using jobs_inv_file [OF j assms(2)] assms(4,5) by (intro jobs_inv_put [OF j assms(2,3)] file_inv_idle)
  moreover have "put_file (put_block s b x) i (fileCopyJobs s ! i) = put_block s b x"
    using put_file_same [of i "put_block s b x"] j assms(2) by (simp add: jobs_inv_def)
  ultimately show ?thesis
    using assms b queue_inv_quiet [of "cbBatch s" s b x] by (simp add: sched_ok_def idle_not_busy)
qed

definition read_job :: "file_copy_job \<Rightarrow> nat \<Rightarrow> addr \<Rightarrow> block_copy_job \<Rightarrow> bool" where
  "read_job f i p x \<longleftrightarrow> inUse x \<and> data x = p \<and> jobno x = int (issued f) \<and> rw_type x = READ \<and> status x = EINPROGRESS
     \<and> parent x = Some i \<and> offset x = bsize f * issued f \<and> nbytes x = min (bsize f) (fsize f - offset x)
     \<and> cb x = request_of f x"

lemma queue_read_ok:
  assumes "sched_ok s" "i < nFileCopyJobs s" "b \<in> slot s i" "active (fileCopyJobs s ! i)"
    "\<not> inUse (block_at s b)" "x = block_init (fileCopyJobs s ! i) i x0" "offset x < fsize (fileCopyJobs s ! i)"
    "s' = queue_read s i b (x\<lparr>nbytes := min (bsize (fileCopyJobs s ! i)) (fsize (fileCopyJobs s ! i) - offset x),
        data := p\<rparr>)"
  shows "sched_ok s'" "local_step i b s s'" "read_job (fileCopyJobs s ! i) i p (block_at s' b)"
    "fileCopyJobs s' ! i = (fileCopyJobs s ! i)\<lparr>nBlockJobsScheduled := nBlockJobsScheduled (fileCopyJobs s ! i) + 1\<rparr>"
    "bsize (fileCopyJobs s ! i) * issued (fileCopyJobs s ! i) < fsize (fileCopyJobs s ! i)"
proof -
  define f where "f = fileCopyJobs s ! i"
  have j: "jobs_inv s" using assms(1) by (simp add: sched_ok_def)
  have fi: "file_inv f i (slot s i) (block_at s)" using jobs_inv_file [OF j assms(2)] by (simp add: f_def)
  then have ok: "file_ok f" "issued f \<le> blockCount (fsize f) (bsize f)"
    using assms(4) by (auto simp: file_inv_def f_def)
  have b: "b < length (blockCopyJobs s)" "i < length (fileCopyJobs s)"
    using jobs_inv_block [OF j assms(2,3)] j assms(2) by (simp_all add: jobs_inv_def)
  have x: "x = x0\<lparr>jobno := int (issued f), parent := Some i, cb := zero_iocb, rw_type := READ,
     status := EINPROGRESS, offset := bsize f * issued f\<rparr>"
    using assms(6) block_init_spec [OF ok] by (simp add: f_def)
  define y where "y = (x\<lparr>nbytes := min (bsize f) (fsize f - offset x), data := p\<rparr>)\<lparr>inUse := True\<rparr>"
  define z where "z = y\<lparr>cb := (io_prep_pread (srcFd f) (data y) (nbytes y) (offset y))\<lparr>cb_done := RD_DONE\<rparr>\<rparr>"
  have "inc64 (nBlockJobsScheduled f) = nBlockJobsScheduled f + 1" using issued_bound [OF ok] by simp
  then have s': "s' = put_file (schedIOSubmitDeferred (put_block s b z) b) i
      (f\<lparr>nBlockJobsScheduled := nBlockJobsScheduled f + 1\<rparr>)" (is "_ = put_file _ i ?f")
    unfolding assms(8) queue_read_def Let_def f_def [symmetric] y_def [symmetric] z_def [symmetric] by simp
  have lt: "bsize f * issued f < fsize f" using assms(7) x by (simp add: f_def)
  then show "bsize (fileCopyJobs s ! i) * issued (fileCopyJobs s ! i) < fsize (fileCopyJobs s ! i)" by (simp add: f_def)
  have rj: "read_job f i p z" by (simp add: read_job_def z_def y_def x request_of_def)
  have bo: "block_ok ?f i z"
    using rj lt by (simp add: block_ok_def read_job_def request_of_def nat_add_distrib)
  have "file_inv ?f i (slot s i) ((block_at s)(b := z))"
    using fi assms(3-5) rj bo
    by (intro file_inv_acquire [of f]) (simp_all add: f_def same_file_def read_job_def)
  then have "jobs_inv (put_file (put_block s b z) i ?f)" by (rule jobs_inv_put [OF j assms(2,3)])
  then have "jobs_inv s'" unfolding s' by (subst jobs_inv_same [of _ "put_file (put_block s b z) i ?f"]) simp_all
  moreover have "queue_inv (cbBatch s @ [b]) (put_block s b z)"
    using assms(1,5) b rj by (intro queue_inv_defer) (simp_all add: sched_ok_def busy_def read_job_def)
  then have "queue_inv (cbBatch s') s'"
    unfolding s' by (subst queue_inv_same [of _ "put_block s b z"]) simp_all
  ultimately show "sched_ok s'" by (simp add: sched_ok_def)
  have "local_step i b s (put_file (put_block s b z) i ?f)"
    using b(2) by (intro local_step_put) (simp_all add: same_file_def f_def)
  then show "local_step i b s s'" unfolding s' by (simp add: local_step_def block_at_def)
  show "read_job (fileCopyJobs s ! i) i p (block_at s' b)" using rj b by (simp add: s' f_def block_at_def)
  show "fileCopyJobs s' ! i = (fileCopyJobs s ! i)\<lparr>nBlockJobsScheduled := nBlockJobsScheduled (fileCopyJobs s ! i) + 1\<rparr>"
    using b by (simp add: s' f_def)
qed

text \<open>What the operations on a block leave alone in the shared state.\<close>

definition same_world :: "shared_state \<Rightarrow> shared_state \<Rightarrow> bool" where
  "same_world sh sh' \<longleftrightarrow> mem sh' = mem sh \<and> files sh' = files sh \<and> opts sh' = opts sh \<and> finishQueue sh' = finishQueue sh"

lemma clear_block_world:
  assumes "schedulerClearBlockCopyJob sh f x nofree = (sh', x')"
  shows "same_world sh sh'" "copybufferAllocator sh' = (if nofree \<or> data x = NULL then copybufferAllocator sh
      else buddy_free (copybufferAllocator sh) (data x))"
  using assms by (auto simp: schedulerClearBlockCopyJob_def same_world_def Let_def split: if_splits)

text \<open>The two outcomes of scheduling: the block job is left idle without a buffer, or reads.\<close>

definition left_idle :: "copy_scheduler \<Rightarrow> shared_state \<Rightarrow> nat \<Rightarrow> nat \<Rightarrow> bool \<Rightarrow> copy_scheduler \<Rightarrow> shared_state \<Rightarrow> bool" where
  "left_idle s sh i b pre s' sh' \<longleftrightarrow> s' = put_block s b (zero_block_job\<lparr>data := NULL\<rparr>) \<and> same_world sh sh'
     \<and> (let f = fileCopyJobs s ! i; A = copybufferAllocator sh; p = data (block_at s b) in
        if pre then fsize f \<le> bsize f * issued f \<and> copybufferAllocator sh' = (if p = NULL then A else buddy_free A p)
        else copybufferAllocator sh' = A
          \<or> fst (buddy_malloc A (bsize f)) = NULL \<and> copybufferAllocator sh' = snd (buddy_malloc A (bsize f)))"

definition started :: "copy_scheduler \<Rightarrow> shared_state \<Rightarrow> nat \<Rightarrow> nat \<Rightarrow> bool \<Rightarrow> copy_scheduler \<Rightarrow> shared_state \<Rightarrow> bool" where
  "started s sh i b pre s' sh' \<longleftrightarrow> local_step i b s s' \<and> same_world sh sh'
     \<and> (let f = fileCopyJobs s ! i; A = copybufferAllocator sh; f' = fileCopyJobs s' ! i in
        (\<exists>p. read_job f i p (block_at s' b)
          \<and> (if pre then p = data (block_at s b) \<and> copybufferAllocator sh' = A
              else p \<noteq> NULL \<and> buddy_malloc A (bsize f) = (p, copybufferAllocator sh')))
        \<and> f' = f\<lparr>nBlockJobsScheduled := nBlockJobsScheduled f + 1\<rparr> \<and> bsize f * issued f < fsize f)"

lemma schedule_ok:
  assumes ok: "sched_ok s" "i < nFileCopyJobs s" "b \<in> slot s i" "active (fileCopyJobs s ! i)"
    "\<not> inUse (block_at s b)" and "\<not> pre \<Longrightarrow> data (block_at s b) = NULL"
    and r: "schedulerScheduleBlockCopyJob s sh i b pre = (s', sh')"
  shows "sched_ok s'" "left_idle s sh i b pre s' sh' \<or> started s sh i b pre s' sh'"
proof -
  define f where "f = fileCopyJobs s ! i"
  define x where "x = block_init f i (block_at s b)"
  define q where "q p = queue_read s i b (x\<lparr>nbytes := min (bsize f) (fsize f - offset x), data := p\<rparr>)" for p
  have fi: "file_inv f i (slot s i) (block_at s)" using ok by (simp add: f_def jobs_inv_def sched_ok_def)
  then have fok: "file_ok f" "issued f \<le> blockCount (fsize f) (bsize f)"
    using ok(4) by (auto simp: file_inv_def f_def)
  note xi = block_init_spec [OF fok, of i "block_at s b", folded x_def]
  have dx: "data x = data (block_at s b)" "offset x = bsize f * issued f" by (simp_all add: xi)
  have idle: "sched_ok (put_block s b (zero_block_job\<lparr>data := NULL\<rparr>))" by (rule sched_ok_idle [OF ok(1-3,5)]) simp
  have started: "sched_ok (q p)" "started s sh i b pre (q p) sh2"
    if "offset x < fsize f" "same_world sh sh2"
      "if pre then p = data (block_at s b) \<and> copybufferAllocator sh2 = copybufferAllocator sh
       else p \<noteq> NULL \<and> buddy_malloc (copybufferAllocator sh) (bsize f) = (p, copybufferAllocator sh2)" for p sh2
  proof -
    note qr = queue_read_ok [OF ok x_def [unfolded f_def] that(1) [unfolded f_def] q_def [of p, unfolded f_def]]
    show "sched_ok (q p)" by (rule qr(1))
    show "started s sh i b pre (q p) sh2"
      unfolding started_def Let_def using qr(2-5) that(2) that(3) [unfolded f_def]
      by (intro conjI exI [of _ p]) (simp_all add: f_def)
  qed
  consider (past) "offset x \<ge> fsize f" | (keep) "offset x < fsize f" "pre" | (alloc) "offset x < fsize f" "\<not> pre"
    by linarith
  then have "sched_ok s' \<and> (left_idle s sh i b pre s' sh' \<or> started s sh i b pre s' sh')"
  proof cases
    case past
    obtain sh1 x1 where c: "schedulerClearBlockCopyJob sh f x False = (sh1, x1)" by fastforce
    then have x1: "x1 = zero_block_job\<lparr>data := NULL\<rparr>" using clear_block [of sh f x False] by simp
    have "s' = put_block s b x1" "sh' = sh1"
      using r past c by (simp_all add: schedulerScheduleBlockCopyJob_def Let_def f_def x_def block_at_def)
    then show ?thesis
      using idle clear_block_world [OF c] past dx assms(6) x1 by (auto simp: left_idle_def f_def Let_def)
  next
    case keep
    then have "s' = q (data x)" "sh' = sh"
      using r by (simp_all add: schedulerScheduleBlockCopyJob_def Let_def f_def x_def block_at_def q_def)
    then show ?thesis using started [OF keep(1), of sh "data x"] keep(2) dx by (simp add: same_world_def)
  next
    case alloc
    obtain p A where m: "buddy_malloc (copybufferAllocator sh) (bsize f) = (p, A)" by fastforce
    show ?thesis
    proof (cases "p = NULL")
      case True
      define sh1 where "sh1 = sh\<lparr>copybufferAllocator := A, allocationAttempts := inc64 (allocationAttempts sh),
          allocationFailures := inc64 (allocationFailures sh)\<rparr>"
      let ?x = "x\<lparr>nbytes := min (bsize f) (fsize f - offset x)\<rparr>"
      obtain sh2 x1 where c: "schedulerClearBlockCopyJob sh1 f ?x False = (sh2, x1)" by fastforce
      then have x1: "x1 = zero_block_job\<lparr>data := NULL\<rparr>" using clear_block [of sh1 f ?x False] by simp
      have "s' = put_block s b x1" "sh' = sh2"
        using r alloc True c m
        by (simp_all add: schedulerScheduleBlockCopyJob_def Let_def f_def x_def block_at_def sh1_def)
      then show ?thesis
        using idle clear_block_world [OF c] m True dx assms(6) [OF alloc(2)] x1 alloc(2)
        by (auto simp: left_idle_def f_def Let_def sh1_def same_world_def)
    next
      case False
      define sh1 where "sh1 = sh\<lparr>copybufferAllocator := A, allocationAttempts := inc64 (allocationAttempts sh),
          totalMemAllocated := (totalMemAllocated sh + bsize f) mod 2 ^ 64\<rparr>"
      have "s' = q p" "sh' = sh1"
        using r alloc False m
        by (simp_all add: schedulerScheduleBlockCopyJob_def Let_def f_def x_def block_at_def q_def sh1_def)
      then show ?thesis using started [OF alloc(1), of sh1 p] alloc(2) False m by (simp add: same_world_def sh1_def)
    qed
  qed
  then show "sched_ok s'" "left_idle s sh i b pre s' sh' \<or> started s sh i b pre s' sh'" by simp_all
qed

section \<open>The update of a block job\<close>

definition same_block :: "block_copy_job \<Rightarrow> block_copy_job \<Rightarrow> bool" where
  "same_block x y \<longleftrightarrow> jobno y = jobno x \<and> parent y = parent x \<and> offset y = offset x \<and> nbytes y = nbytes x
     \<and> data y = data x \<and> inUse y = inUse x"

lemma sched_ok_put:
  assumes "sched_ok s" "i < nFileCopyJobs s" "b \<in> slot s i" "inUse (block_at s b)" "\<not> busy (block_at s b)"
    "same_block (block_at s b) x" "busy x \<Longrightarrow> cb x = request_of (fileCopyJobs s ! i) x \<and> rw_type x \<noteq> FINISH"
  shows "sched_ok (if busy x then schedIOSubmitDeferred (put_block s b x) b else put_block s b x)"
proof -
  have j: "jobs_inv s" using assms(1) by (simp add: sched_ok_def)
  have b: "b < length (blockCopyJobs s)" by (rule jobs_inv_block [OF j assms(2,3)])
  note fi = jobs_inv_file [OF j assms(2)]
  have "block_ok (fileCopyJobs s ! i) i (block_at s b)"
    using fi assms(3,4) by (auto simp: file_inv_def split: if_splits)
  then have "block_ok (fileCopyJobs s ! i) i x"
    using assms(4,6,7) by (auto simp: block_ok_def same_block_def busy_def)
  then have "jobs_inv (put_file (put_block s b x) i (fileCopyJobs s ! i))"
    using fi assms(3,4,6) by (intro jobs_inv_put [OF j assms(2,3)] file_inv_progress) (simp_all add: same_block_def)
  moreover have "put_file (put_block s b x) i (fileCopyJobs s ! i) = put_block s b x"
    using put_file_same [of i "put_block s b x"] j assms(2) by (simp add: jobs_inv_def)
  ultimately have jp: "jobs_inv (put_block s b x)" by simp
  then have "jobs_inv (schedIOSubmitDeferred (put_block s b x) b)"
    by (subst jobs_inv_same [of _ "put_block s b x"]) simp_all
  moreover have "queue_inv (cbBatch s @ [b]) (put_block s b x)" if "busy x"
    using assms(1,5) b that by (intro queue_inv_defer) (simp_all add: sched_ok_def)
  then have "queue_inv (cbBatch s @ [b]) (schedIOSubmitDeferred (put_block s b x) b)" if "busy x"
    using that by (subst queue_inv_same [of _ "put_block s b x"]) simp_all
  moreover have "queue_inv (cbBatch s) (put_block s b x)" if "\<not> busy x"
    using assms(1,5) b that by (intro queue_inv_quiet) (simp_all add: sched_ok_def)
  ultimately show ?thesis using jp by (simp add: sched_ok_def)
qed

lemma jobs_inv_release:
  assumes "jobs_inv s" "i < nFileCopyJobs s" "b \<in> slot s i" "inUse (block_at s b)" "\<not> inUse x"
    "same_file (fileCopyJobs s ! i) f'" "nBlockJobsScheduled f' = nBlockJobsScheduled (fileCopyJobs s ! i) - 1"
    "nBlockJobsFinished f' = nBlockJobsFinished (fileCopyJobs s ! i) + 1" "nErrors f' \<le> nErrors (fileCopyJobs s ! i) + 1"
  shows "jobs_inv (put_file (put_block s b x) i f')"
  using file_inv_release(1) [OF jobs_inv_file [OF assms(1,2)] finite_slot assms(3-9)]
  by (rule jobs_inv_put [OF assms(1-3)])

text \<open>The counters of an active file job stay far below the range of \<open>size_t\<close>.\<close>

lemma active_bounds:
  assumes "jobs_inv s" "i < nFileCopyJobs s" "active (fileCopyJobs s ! i)"
  defines "f \<equiv> fileCopyJobs s ! i"
  shows "file_ok f" "issued f \<le> blockCount (fsize f) (bsize f)" "nErrors f \<le> nBlockJobsFinished f"
    "inc64 (nBlockJobsFinished f) = nBlockJobsFinished f + 1" "inc64 (nErrors f) = nErrors f + 1"
    "0 < nBlockJobsScheduled f \<Longrightarrow> dec64 (nBlockJobsScheduled f) = nBlockJobsScheduled f - 1"
    "issued f < 2 ^ 31"
proof -
  have "file_inv f i (slot s i) (block_at s)" using jobs_inv_file [OF assms(1,2)] by (simp add: f_def)
  then show ok: "file_ok f" "issued f \<le> blockCount (fsize f) (bsize f)" "nErrors f \<le> nBlockJobsFinished f"
    using assms(3) by (auto simp: file_inv_def f_def)
  show lt: "issued f < 2 ^ 31" using issued_bound [OF ok(1,2)] by simp
  show "inc64 (nBlockJobsFinished f) = nBlockJobsFinished f + 1" "inc64 (nErrors f) = nErrors f + 1"
    using lt ok(3) by simp_all
  show "dec64 (nBlockJobsScheduled f) = nBlockJobsScheduled f - 1" if "0 < nBlockJobsScheduled f"
  proof -
    obtain k where k: "nBlockJobsScheduled f = Suc k" using \<open>0 < nBlockJobsScheduled f\<close> by (cases "nBlockJobsScheduled f") auto
    then have "nBlockJobsScheduled f + (2 ^ 64 - 1) = k + 2 ^ 64" by simp
    then have "dec64 (nBlockJobsScheduled f) = k mod 2 ^ 64" by (simp only: mod_add_self2)
    then show ?thesis using lt k by simp
  qed
qed

lemma used_scheduled:
  assumes "jobs_inv s" "i < nFileCopyJobs s" "b \<in> slot s i" "inUse (block_at s b)"
  shows "active (fileCopyJobs s ! i)" "0 < nBlockJobsScheduled (fileCopyJobs s ! i)"
    "block_ok (fileCopyJobs s ! i) i (block_at s b)"
proof -
  note fi = jobs_inv_file [OF assms(1,2)]
  show a: "active (fileCopyJobs s ! i)" "block_ok (fileCopyJobs s ! i) i (block_at s b)"
    using fi assms(3,4) by (auto simp: file_inv_def split: if_splits)
  show "0 < nBlockJobsScheduled (fileCopyJobs s ! i)"
    using file_inv_release(2) [OF fi finite_slot assms(3,4), of zero_block_job
        "(fileCopyJobs s ! i)\<lparr>nBlockJobsScheduled := nBlockJobsScheduled (fileCopyJobs s ! i) - 1,
          nBlockJobsFinished := nBlockJobsFinished (fileCopyJobs s ! i) + 1\<rparr>"]
    by (simp add: same_file_def zero_block_job_def)
qed

text \<open>A released block: the counters after it, with an error or not.\<close>

definition counted :: "file_copy_job \<Rightarrow> nat \<Rightarrow> file_copy_job" where
  "counted f e = f\<lparr>nBlockJobsScheduled := nBlockJobsScheduled f - 1, nBlockJobsFinished := nBlockJobsFinished f + 1,
     nErrors := nErrors f + e\<rparr>"

lemma counted_simps [simp]:
  "same_file f (counted f e)" "nErrors (counted f e) = nErrors f + e"
  "nBlockJobsFinished (counted f e) = nBlockJobsFinished f + 1" "nBlockJobsScheduled (counted f e) = nBlockJobsScheduled f - 1"
  "bsize (counted f e) = bsize f" "stx (counted f e) = stx f" "active (counted f e) = active f"
  "srcFd (counted f e) = srcFd f" "dstFd (counted f e) = dstFd f"
  by (simp_all add: counted_def same_file_def)

lemma issued_counted [simp]: "0 < nBlockJobsScheduled f \<Longrightarrow> issued (counted f e) = issued f"
  by simp

lemma release_ok:
  assumes "sched_ok s" "i < nFileCopyJobs s" "b \<in> slot s i" "inUse (block_at s b)" "\<not> busy (block_at s b)"
    "\<not> inUse x" "e \<le> 1"
  shows "sched_ok (put_block (put_file s i (counted (fileCopyJobs s ! i) e)) b x)"
proof -
  let ?f = "counted (fileCopyJobs s ! i) e"
  have j: "jobs_inv s" using assms(1) by (simp add: sched_ok_def)
  have "jobs_inv (put_file (put_block s b x) i ?f)"
    using assms(7) by (intro jobs_inv_release [OF j assms(2-4,6)]) simp_all
  moreover have "put_block (put_file s i ?f) b x = put_file (put_block s b x) i ?f"
    by (simp add: put_block_def put_file_def)
  moreover have "queue_inv (cbBatch s) (put_file (put_block s b x) i ?f)"
    using queue_inv_quiet [of "cbBatch s" s b x] jobs_inv_block [OF j assms(2,3)] assms(1,5,6)
    by (subst queue_inv_same [of _ "put_block s b x"]) (simp_all add: sched_ok_def idle_not_busy)
  ultimately show ?thesis by (simp add: sched_ok_def)
qed

end
