(* ===== verification/Copy_Content.thy ===== *)
theory Copy_Content
  imports Copy_Accounting
begin

text \<open>
  The buffers and the data of the copy scheduler. Every block job in use holds its own block of the
  copy buffer's arena, large enough for the padded write; as long as every request completes in full,
  the destination of every block that has been counted holds the bytes of the source. Every operation
  keeps this.
\<close>

section \<open>Buffers\<close>

definition clean :: "copy_scheduler \<Rightarrow> bool" where
  "clean s \<longleftrightarrow> (\<forall>b < length (blockCopyJobs s). \<not> inUse (block_at s b) \<longrightarrow> data (block_at s b) = NULL)"

definition held :: "copy_scheduler \<Rightarrow> nat set" where
  "held s = {b. b < length (blockCopyJobs s) \<and> data (block_at s b) \<noteq> NULL}"

definition bufs :: "copy_scheduler \<Rightarrow> shared_state \<Rightarrow> bool" where
  "bufs s sh \<longleftrightarrow> (\<exists>a. copybufferAllocator sh = Some a \<and> arena_inv a
     \<and> (\<forall>i < nFileCopyJobs s. \<forall>b \<in> slot s i.
          (inUse (block_at s b) \<longrightarrow> data (block_at s b) \<noteq> NULL)
          \<and> (data (block_at s b) \<noteq> NULL \<longrightarrow>
              (\<exists>n \<ge> bsize (fileCopyJobs s ! i). (data (block_at s b), n) \<in> block_addresses a)))
     \<and> inj_on (\<lambda>b. data (block_at s b)) (held s))"

lemma bufs_disjoint:
  assumes "bufs s sh" "i < nFileCopyJobs s" "b \<in> slot s i" "j < nFileCopyJobs s" "c \<in> slot s j" "b \<noteq> c"
    "length (blockCopyJobs s) = nBlockCopyJobsPerFileCopyJob s * nFileCopyJobs s"
    "data (block_at s b) \<noteq> NULL" "data (block_at s c) \<noteq> NULL"
    "x < bsize (fileCopyJobs s ! i)" "y < bsize (fileCopyJobs s ! j)"
  shows "data (block_at s b) + x \<noteq> data (block_at s c) + y"
proof -
  obtain a where a: "arena_inv a" "inj_on (\<lambda>b. data (block_at s b)) (held s)"
    "\<forall>i < nFileCopyJobs s. \<forall>b \<in> slot s i. data (block_at s b) \<noteq> NULL \<longrightarrow>
       (\<exists>n \<ge> bsize (fileCopyJobs s ! i). (data (block_at s b), n) \<in> block_addresses a)"
    using assms(1) unfolding bufs_def by blast
  obtain n m where nm: "bsize (fileCopyJobs s ! i) \<le> n" "(data (block_at s b), n) \<in> block_addresses a"
    "bsize (fileCopyJobs s ! j) \<le> m" "(data (block_at s c), m) \<in> block_addresses a"
    using a(3) assms(2-5,8,9) by blast
  have "b \<in> held s" "c \<in> held s"
    using assms(2-5,7-9) slot_bound by (auto simp: held_def)
  then have "data (block_at s b) \<noteq> data (block_at s c)" using a(2) assms(6) by (auto simp: inj_on_def)
  then have "extent (data (block_at s b), n) \<inter> extent (data (block_at s c), m) = {}"
    using arena.disjoint [OF a(1) nm(2,4)] by simp
  moreover have "data (block_at s b) + x \<in> extent (data (block_at s b), n)"
    "data (block_at s c) + y \<in> extent (data (block_at s c), m)"
    using nm(1,3) assms(10,11) by (simp_all add: extent_def)
  ultimately show ?thesis by auto
qed

lemma bufs_cong:
  assumes "bufs s sh" "nFileCopyJobs s' = nFileCopyJobs s" "nBlockCopyJobsPerFileCopyJob s' = nBlockCopyJobsPerFileCopyJob s"
    "length (blockCopyJobs s') = length (blockCopyJobs s)" "copybufferAllocator sh' = copybufferAllocator sh"
    "\<And>i. i < nFileCopyJobs s \<Longrightarrow> bsize (fileCopyJobs s' ! i) = bsize (fileCopyJobs s ! i)"
    "\<And>i b. i < nFileCopyJobs s \<Longrightarrow> b \<in> slot s i \<Longrightarrow> data (block_at s' b) = data (block_at s b)
       \<and> (inUse (block_at s' b) \<longrightarrow> inUse (block_at s b) \<or> data (block_at s b) \<noteq> NULL)"
    "length (blockCopyJobs s) = nBlockCopyJobsPerFileCopyJob s * nFileCopyJobs s"
  shows "bufs s' sh'"
proof -
  have sl: "slot s' = slot s" using assms(3) by (simp add: slot_def fun_eq_iff)
  have d: "data (block_at s' b) = data (block_at s b)" if b: "b < length (blockCopyJobs s)" for b
    using slot_cover [of b s] assms(7,8) b by metis
  have h: "held s' = held s" using d assms(4) by (auto simp: held_def)
  have "inj_on (\<lambda>b. data (block_at s' b)) (held s) = inj_on (\<lambda>b. data (block_at s b)) (held s)"
    by (rule inj_on_cong) (auto simp: held_def d)
  then show ?thesis using assms(1,2,5-7) unfolding bufs_def sl h by (auto; metis)
qed

lemma bufs_world:
  assumes "bufs s sh" "copybufferAllocator sh = Some a" "copybufferAllocator sh' = Some a'" "arena_inv a'"
    "block_addresses a \<subseteq> block_addresses a'"
  shows "bufs s sh'"
  using assms unfolding bufs_def by (fastforce dest: subsetD)

lemma block_address_nonnull: "arena_inv a \<Longrightarrow> (p, n) \<in> block_addresses a \<Longrightarrow> p \<noteq> NULL"
  using arena_invD(1) by (fastforce simp: block_addresses_def sizes_ok_def)

lemma buddy_free_blocks:
  "arena_inv a \<Longrightarrow> arena_inv (free_arena a p) \<and> block_addresses (free_arena a p) = {q \<in> block_addresses a. fst q \<noteq> p}"
  using arena.gv_inv arena.gv_blocks by blast

lemma malloc_blocks:
  assumes "arena_inv a" "malloc_arena a r = (p, a')"
  shows "arena_inv a'" "p = NULL \<Longrightarrow> block_addresses a' = block_addresses a"
    "p \<noteq> NULL \<Longrightarrow> \<exists>n \<ge> max 1 r. block_addresses a' = insert (p, n) (block_addresses a)"
    "p \<noteq> NULL \<Longrightarrow> (p, m) \<notin> block_addresses a"
  using arena.tk_inv [OF assms(1), of r] arena.tk_none [OF assms(1), of r] arena.tk_some [OF assms(1), of r]
    arena.tk_fresh [OF assms(1), of r m] assms(2) by auto

text \<open>A buffer is given back, or a new one is taken.\<close>

lemma bufs_release:
  assumes "bufs s sh" "jobs_inv s" "b < length (blockCopyJobs s)" "copybufferAllocator sh' = (if data (block_at s b) = NULL
      then copybufferAllocator sh else buddy_free (copybufferAllocator sh) (data (block_at s b)))"
    "\<not> inUse x" "data x = NULL"
  shows "bufs (put_block s b x) sh'"
proof -
  let ?p = "data (block_at s b)" and ?f = "\<lambda>c. data (((block_at s)(b := x)) c)"
  obtain a where a: "copybufferAllocator sh = Some a" "arena_inv a" "inj_on (\<lambda>b. data (block_at s b)) (held s)"
    "\<forall>i < nFileCopyJobs s. \<forall>b \<in> slot s i. (inUse (block_at s b) \<longrightarrow> data (block_at s b) \<noteq> NULL)
      \<and> (data (block_at s b) \<noteq> NULL \<longrightarrow>
       (\<exists>n \<ge> bsize (fileCopyJobs s ! i). (data (block_at s b), n) \<in> block_addresses a))"
    using assms(1) unfolding bufs_def by blast
  define a' where "a' = (if ?p = NULL then a else free_arena a ?p)"
  have a': "copybufferAllocator sh' = Some a'" "arena_inv a'"
    "\<And>q n. (q, n) \<in> block_addresses a \<Longrightarrow> q \<noteq> ?p \<or> ?p = NULL \<Longrightarrow> (q, n) \<in> block_addresses a'"
    using a(1,2) assms(4) buddy_free_blocks [OF a(2), of ?p] by (auto simp: a'_def buddy_free_def)
  have held': "held (put_block s b x) = held s - {b}"
    using assms(3,6) by (auto simp: held_def block_at_put)
  have "inj_on ?f (held s - {b})" using a(3) by (auto simp: inj_on_def)
  moreover have "(inUse (((block_at s)(b := x)) c) \<longrightarrow> ?f c \<noteq> NULL) \<and> (?f c \<noteq> NULL \<longrightarrow>
      (\<exists>n \<ge> bsize (fileCopyJobs s ! i). (?f c, n) \<in> block_addresses a'))"
    if "i < nFileCopyJobs s" "c \<in> slot s i" for i c
  proof (cases "c = b")
    case False
    have "data (block_at s c) \<noteq> ?p \<or> ?p = NULL" if "data (block_at s c) \<noteq> NULL"
      using a(3) False assms(3) that jobs_inv_block [OF assms(2) \<open>i < nFileCopyJobs s\<close> \<open>c \<in> slot s i\<close>]
      by (auto simp: inj_on_def held_def)
    then show ?thesis using a(4) that a'(3) False by fastforce
  qed (use assms(5,6) in auto)
  ultimately show ?thesis using a'(1,2) assms(3) unfolding bufs_def held' by (auto simp: block_at_put)
qed

lemma bufs_acquire:
  assumes "bufs s sh" "jobs_inv s" "i < nFileCopyJobs s" "b \<in> slot s i" "data (block_at s b) = NULL"
    "buddy_malloc (copybufferAllocator sh) (bsize (fileCopyJobs s ! i)) = (p, copybufferAllocator sh')" "p \<noteq> NULL"
    "data x = p"
  shows "bufs (put_block s b x) sh'"
proof -
  let ?f = "\<lambda>c. data (((block_at s)(b := x)) c)" and ?n = "bsize (fileCopyJobs s ! i)"
  have b: "b < length (blockCopyJobs s)" by (rule jobs_inv_block [OF assms(2-4)])
  obtain a where a: "copybufferAllocator sh = Some a" "arena_inv a" "inj_on (\<lambda>b. data (block_at s b)) (held s)"
    "\<forall>i < nFileCopyJobs s. \<forall>b \<in> slot s i. (inUse (block_at s b) \<longrightarrow> data (block_at s b) \<noteq> NULL)
      \<and> (data (block_at s b) \<noteq> NULL \<longrightarrow>
       (\<exists>n \<ge> bsize (fileCopyJobs s ! i). (data (block_at s b), n) \<in> block_addresses a))"
    using assms(1) unfolding bufs_def by blast
  obtain a' where m: "malloc_arena a ?n = (p, a')" "copybufferAllocator sh' = Some a'"
    using assms(6) by (auto simp: buddy_malloc_def a(1) apsnd_def map_prod_def split: prod.splits)
  note mb = malloc_blocks [OF a(2) m(1)]
  obtain n where n: "max 1 ?n \<le> n" "block_addresses a' = insert (p, n) (block_addresses a)" using mb(3) assms(7) by blast
  have held': "held (put_block s b x) = insert b (held s)"
    using b assms(7,8) by (auto simp: held_def block_at_put)
  have fresh: "data (block_at s c) \<noteq> p" if c: "c \<in> held s" for c
  proof -
    obtain j where "j < nFileCopyJobs s" "c \<in> slot s j"
      using c slot_cover [of c s] assms(2) by (auto simp: held_def jobs_inv_def)
    then show ?thesis using a(4) c mb(4) [OF assms(7)] by (force simp: held_def)
  qed
  have nb: "b \<notin> held s" using assms(5) by (simp add: held_def)
  have "inj_on ?f (held s) = inj_on (\<lambda>b. data (block_at s b)) (held s)"
    using nb by (intro inj_on_cong) auto
  moreover have "?f b \<notin> ?f ` held s"
  proof
    assume "?f b \<in> ?f ` held s"
    then obtain c where c: "c \<in> held s" "?f b = ?f c" by (rule imageE)
    then show False using fresh [OF c(1)] nb assms(8) by (cases "c = b") simp_all
  qed
  ultimately have inj: "inj_on ?f (insert b (held s))" using a(3) nb by (simp add: inj_on_insert)
  have "(inUse (((block_at s)(b := x)) c) \<longrightarrow> ?f c \<noteq> NULL) \<and> (?f c \<noteq> NULL \<longrightarrow>
      (\<exists>n \<ge> bsize (fileCopyJobs s ! j). (?f c, n) \<in> block_addresses a'))"
    if "j < nFileCopyJobs s" "c \<in> slot s j" for j c
  proof (cases "c = b")
    case True
    then have "j = i" using that(2) assms(4) slot_unique by blast
    then show ?thesis using True n assms(7,8) by (auto intro!: exI [of _ n])
  next
    case False
    then show ?thesis using a(4) that n(2) by fastforce
  qed
  then show ?thesis using m(2) mb(1) b inj unfolding bufs_def held' by (auto simp: block_at_put)
qed

section \<open>Data\<close>

text \<open>The data of a block, and how it travels: in the file \<open>d\<close>, in the buffer, or untouched.\<close>

definition in_file :: "file_copy_job \<Rightarrow> block_copy_job \<Rightarrow> (int \<Rightarrow> nat \<Rightarrow> 8 word) \<Rightarrow> bool" where
  "in_file f x F \<longleftrightarrow> (\<forall>d < nbytes x. F (dstFd f) (offset x + d) = F (srcFd f) (offset x + d))"

definition in_buf :: "file_copy_job \<Rightarrow> block_copy_job \<Rightarrow> memory \<Rightarrow> (int \<Rightarrow> nat \<Rightarrow> 8 word) \<Rightarrow> bool" where
  "in_buf f x M F \<longleftrightarrow> (\<forall>d < nbytes x. M (data x + d) = F (srcFd f) (offset x + d))"

definition pristine :: "copy_opts \<Rightarrow> file_copy_job \<Rightarrow> nat \<Rightarrow> nat \<Rightarrow> (int \<Rightarrow> nat \<Rightarrow> 8 word) \<Rightarrow> bool" where
  "pristine opt f lo hi F \<longleftrightarrow> (sparse opt \<longrightarrow> (\<forall>y. lo \<le> y \<and> y < hi \<longrightarrow> F (dstFd f) y = 0))"

definition stage_ok :: "copy_opts \<Rightarrow> file_copy_job \<Rightarrow> block_copy_job \<Rightarrow> memory \<Rightarrow> (int \<Rightarrow> nat \<Rightarrow> 8 word) \<Rightarrow> bool" where
  "stage_ok opt f x M F \<longleftrightarrow> (status x = 0 \<or> status x = EINPROGRESS) \<and>
     (case rw_type x of
        READ \<Rightarrow> pristine opt f (offset x) (offset x + nbytes x) F \<and> (status x = 0 \<longrightarrow> in_buf f x M F)
      | WRITE \<Rightarrow> (if status x = 0 then in_file f x F else in_buf f x M F)
      | READDST \<Rightarrow> in_file f x F
      | FINISH \<Rightarrow> in_file f x F)"

definition copied :: "file_copy_job \<Rightarrow> nat \<Rightarrow> (int \<Rightarrow> nat \<Rightarrow> 8 word) \<Rightarrow> bool" where
  "copied f k F \<longleftrightarrow> (\<forall>y. bsize f * k \<le> y \<and> y < bsize f * Suc k \<and> y < fsize f \<longrightarrow> F (dstFd f) y = F (srcFd f) y)"

definition file_data ::
    "copy_opts \<Rightarrow> file_copy_job \<Rightarrow> nat set \<Rightarrow> (nat \<Rightarrow> block_copy_job) \<Rightarrow> memory \<Rightarrow> (int \<Rightarrow> nat \<Rightarrow> 8 word) \<Rightarrow> bool" where
  "file_data opt f B blk M F \<longleftrightarrow> (active f \<longrightarrow> srcFd f \<noteq> dstFd f
     \<and> (nErrors f = 0 \<longrightarrow> (\<forall>k < issued f. (\<exists>b \<in> B. inUse (blk b) \<and> jobno (blk b) = int k) \<or> copied f k F))
     \<and> (\<forall>b \<in> B. inUse (blk b) \<longrightarrow> stage_ok opt f (blk b) M F)
     \<and> pristine opt f (bsize f * issued f) (fsize f) F)"

lemma stage_ok_frame:
  assumes "stage_ok opt f x M F" "\<And>d. d < nbytes x \<Longrightarrow> M' (data x + d) = M (data x + d)"
    "F' (srcFd f) = F (srcFd f)" "\<And>d. d < nbytes x \<Longrightarrow> F' (dstFd f) (offset x + d) = F (dstFd f) (offset x + d)"
  shows "stage_ok opt f x M' F'"
proof -
  have "in_buf f x M' F' = in_buf f x M F" using assms(2,3) by (simp add: in_buf_def)
  moreover have "in_file f x F' = in_file f x F" using assms(3,4) by (simp add: in_file_def)
  moreover have "F' (dstFd f) y = F (dstFd f) y" if "offset x \<le> y" "y < offset x + nbytes x" for y
    using assms(4) [of "y - offset x"] that by simp
  then have "pristine opt f (offset x) (offset x + nbytes x) F' = pristine opt f (offset x) (offset x + nbytes x) F"
    by (auto simp: pristine_def)
  ultimately have "stage_ok opt f x M' F' = stage_ok opt f x M F" unfolding stage_ok_def by (simp only:)
  then show ?thesis using assms(1) by simp
qed

lemma file_data_frame:
  assumes "file_data opt f B blk M F"
    "\<And>b d. b \<in> B \<Longrightarrow> inUse (blk b) \<Longrightarrow> d < nbytes (blk b) \<Longrightarrow> M' (data (blk b) + d) = M (data (blk b) + d)"
    "active f \<Longrightarrow> F' (srcFd f) = F (srcFd f) \<and> F' (dstFd f) = F (dstFd f)"
  shows "file_data opt f B blk M' F'"
proof (cases "active f")
  case True
  then have F: "F' (srcFd f) = F (srcFd f)" "F' (dstFd f) = F (dstFd f)" using assms(3) by blast+
  have c: "copied f k F' = copied f k F" for k using F by (simp add: copied_def)
  have p: "pristine opt f lo hi F' = pristine opt f lo hi F" for lo hi using F by (simp add: pristine_def)
  have st: "stage_ok opt f (blk b) M F" if "b \<in> B" "inUse (blk b)" for b
    using assms(1) True that unfolding file_data_def by blast
  have "stage_ok opt f (blk b) M' F'" if "b \<in> B" "inUse (blk b)" for b
    by (rule stage_ok_frame [of opt f "blk b" M F M' F', OF st [OF that] assms(2) [OF that] F(1)]) (simp_all add: F)
  then have "\<forall>b \<in> B. inUse (blk b) \<longrightarrow> stage_ok opt f (blk b) M' F'" by blast
  then show ?thesis using assms(1) True unfolding file_data_def c p by blast
qed (simp add: file_data_def)

lemma file_data_cong: "(\<And>b. b \<in> B \<Longrightarrow> blk b = blk' b) \<Longrightarrow> file_data opt f B blk M F = file_data opt f B blk' M F"
  by (simp add: file_data_def)

text \<open>Block jobs of one file have different ranges.\<close>

lemma ranges_disjoint:
  assumes "block_ok f i x" "block_ok f i y" "jobno x \<noteq> jobno y" "d < bsize f" "e < bsize f"
  shows "offset x + d \<noteq> offset y + e"
proof
  assume eq: "offset x + d = offset y + e"
  have o: "offset x = bsize f * nat (jobno x)" "offset y = bsize f * nat (jobno y)" "0 \<le> jobno x" "0 \<le> jobno y"
    using assms(1,2) by (auto simp: block_ok_def)
  have "nat (jobno x) = (bsize f * nat (jobno x) + d) div bsize f" using assms(4) by simp
  also have "\<dots> = (bsize f * nat (jobno y) + e) div bsize f" using eq o by simp
  also have "\<dots> = nat (jobno y)" using assms(5) by simp
  finally show False using assms(3) o(3,4) by simp
qed

lemma copied_iff:
  assumes "block_ok f i x" "jobno x = int k"
  shows "copied f k F \<longleftrightarrow> in_file f x F"
proof -
  have o: "offset x = bsize f * k" "nbytes x = min (bsize f) (fsize f - offset x)" "offset x < fsize f"
    using assms by (auto simp: block_ok_def)
  show ?thesis
  proof
    assume c: "copied f k F"
    show "in_file f x F"
      unfolding in_file_def using c o by (auto simp: copied_def)
  next
    assume i: "in_file f x F"
    show "copied f k F"
      unfolding copied_def
    proof (intro allI impI)
      fix y assume y: "bsize f * k \<le> y \<and> y < bsize f * Suc k \<and> y < fsize f"
      then have "y - offset x < nbytes x" using o by auto
      then show "F (dstFd f) y = F (srcFd f) y"
        using i y o(1) unfolding in_file_def by (metis le_add_diff_inverse)
    qed
  qed
qed

section \<open>The data under updates of one block job\<close>

lemma same_file_data:
  assumes "same_file f f'"
  shows "copied f' k F = copied f k F" "stage_ok opt f' x M F = stage_ok opt f x M F"
    "pristine opt f' lo hi F = pristine opt f lo hi F" "bsize f' = bsize f" "stx f' = stx f" "srcFd f' = srcFd f"
    "dstFd f' = dstFd f" "active f' = active f"
  using assms by (simp_all add: same_file_def copied_def stage_ok_def pristine_def in_file_def in_buf_def cong: RW.case_cong)

definition outside_block :: "file_copy_job \<Rightarrow> nat \<Rightarrow> (int \<Rightarrow> nat \<Rightarrow> 8 word) \<Rightarrow> (int \<Rightarrow> nat \<Rightarrow> 8 word) \<Rightarrow> bool" where
  "outside_block f off F F' \<longleftrightarrow> (\<forall>fd. fd \<noteq> dstFd f \<longrightarrow> F' fd = F fd)
     \<and> (\<forall>y. y < off \<or> off + bsize f \<le> y \<longrightarrow> F' (dstFd f) y = F (dstFd f) y)"

lemma outside_block_refl [simp]: "outside_block f off F F"
  by (simp add: outside_block_def)

lemma file_data_progress:
  assumes fd: "file_data opt f B blk M F" and act: "active f" and b: "b \<in> B" "inUse (blk b)" "same_block (blk b) x"
    and ok: "\<And>c. c \<in> B \<Longrightarrow> inUse (blk c) \<Longrightarrow> block_ok f i (blk c)" "inj_on (\<lambda>b. jobno (blk b)) {b \<in> B. inUse (blk b)}"
    and frame: "\<And>c d. c \<in> B \<Longrightarrow> c \<noteq> b \<Longrightarrow> inUse (blk c) \<Longrightarrow> d < nbytes (blk c) \<Longrightarrow> M' (data (blk c) + d) = M (data (blk c) + d)"
    and F: "outside_block f (offset x) F F'" and st: "stage_ok opt f x M' F'"
  shows "file_data opt f B (blk(b := x)) M' F'"
proof -
  have sd: "srcFd f \<noteq> dstFd f" using fd act by (simp add: file_data_def)
  have xb: "jobno x = jobno (blk b)" "offset x = offset (blk b)" "inUse x" using b by (auto simp: same_block_def)
  have bo: "block_ok f i (blk b)" by (rule ok(1) [OF b(1,2)])
  have off: "offset x = bsize f * nat (jobno x)" "0 \<le> jobno x" "jobno x < int (issued f)"
    using bo xb by (auto simp: block_ok_def)
  have src: "F' (srcFd f) = F (srcFd f)" using F sd by (simp add: outside_block_def)
  have other: "copied f k F'" if "copied f k F" "int k \<noteq> jobno x" for k
    unfolding copied_def
  proof (intro allI impI)
    fix y assume y: "bsize f * k \<le> y \<and> y < bsize f * Suc k \<and> y < fsize f"
    have "k < nat (jobno x) \<or> nat (jobno x) < k" using that(2) off(2) by linarith
    then have "bsize f * Suc k \<le> offset x \<or> offset x + bsize f \<le> bsize f * k"
    proof
      assume "k < nat (jobno x)"
      then have "bsize f * Suc k \<le> bsize f * nat (jobno x)" by (intro mult_le_mono2) simp
      then show ?thesis using off(1) by simp
    next
      assume "nat (jobno x) < k"
      then have "bsize f * Suc (nat (jobno x)) \<le> bsize f * k" by (intro mult_le_mono2) simp
      then show ?thesis using off(1) by simp
    qed
    then have "F' (dstFd f) y = F (dstFd f) y" using F y by (auto simp: outside_block_def)
    then show "F' (dstFd f) y = F' (srcFd f) y" using that(1) y src by (simp add: copied_def)
  qed
  have 1: "(\<exists>c \<in> B. inUse ((blk(b := x)) c) \<and> jobno ((blk(b := x)) c) = int k) \<or> copied f k F'"
    if "nErrors f = 0" "k < issued f" for k
  proof -
    have "(\<exists>c \<in> B. inUse (blk c) \<and> jobno (blk c) = int k) \<or> copied f k F"
      using fd act that by (simp add: file_data_def)
    then show ?thesis
    proof
      assume "\<exists>c \<in> B. inUse (blk c) \<and> jobno (blk c) = int k"
      then show ?thesis using xb(1,3) by (metis fun_upd_apply)
    next
      assume "copied f k F"
      then show ?thesis using other xb(3) b(1) by (cases "int k = jobno x") auto
    qed
  qed
  have 2: "stage_ok opt f ((blk(b := x)) c) M' F'" if c: "c \<in> B" "inUse ((blk(b := x)) c)" for c
  proof (cases "c = b")
    case False
    then have u: "inUse (blk c)" using c(2) by simp
    have dst: "F' (dstFd f) (offset (blk c) + d) = F (dstFd f) (offset (blk c) + d)" if d: "d < nbytes (blk c)" for d
    proof -
      have "jobno (blk c) \<noteq> jobno (blk b)" using ok(2) False b(1,2) c(1) u by (auto simp: inj_on_def)
      moreover have "d < bsize f" using ok(1) [OF c(1) u] d by (simp add: block_ok_def)
      ultimately have "offset (blk c) + d \<noteq> offset (blk b) + e" if "e < bsize f" for e
        using ranges_disjoint [OF ok(1) [OF c(1) u] bo] that by blast
      then have "\<not> (offset x \<le> offset (blk c) + d \<and> offset (blk c) + d < offset x + bsize f)"
        using xb(2) by (metis add_less_cancel_left le_Suc_ex)
      then show ?thesis using F by (auto simp: outside_block_def)
    qed
    have "stage_ok opt f (blk c) M F" using fd act c(1) u unfolding file_data_def by blast
    from stage_ok_frame [of opt f "blk c" M F M' F', OF this frame [OF c(1) False u] src dst]
    show ?thesis using False by simp
  qed (use st in simp)
  have "bsize f * Suc (nat (jobno x)) \<le> bsize f * issued f" using off by (intro mult_le_mono2) linarith
  then have "offset x + bsize f \<le> bsize f * issued f" using off(1) by simp
  then have 3: "pristine opt f (bsize f * issued f) (fsize f) F'"
    using fd act F by (auto simp: file_data_def pristine_def outside_block_def)
  show ?thesis using sd act 1 2 3 unfolding file_data_def by blast
qed

lemma file_data_idle:
  assumes "file_data opt f B blk M F" "\<not> inUse (blk b)" "\<not> inUse x"
  shows "file_data opt f B (blk(b := x)) M F"
proof -
  have "(\<exists>c \<in> B. inUse ((blk(b := x)) c) \<and> jobno ((blk(b := x)) c) = int k)
      \<longleftrightarrow> (\<exists>c \<in> B. inUse (blk c) \<and> jobno (blk c) = int k)" for k using assms(2,3) by auto
  moreover have "(\<forall>c \<in> B. inUse ((blk(b := x)) c) \<longrightarrow> stage_ok opt f ((blk(b := x)) c) M F)
      \<longleftrightarrow> (\<forall>c \<in> B. inUse (blk c) \<longrightarrow> stage_ok opt f (blk c) M F)" using assms(2,3) by auto
  ultimately show ?thesis using assms(1) unfolding file_data_def by simp
qed

lemma file_data_release:
  assumes "file_data opt f B blk M F" "active f" "b \<in> B" "inUse (blk b)" "\<not> inUse x" "block_ok f i (blk b)"
    "0 < nBlockJobsScheduled f" "nErrors f = 0 \<Longrightarrow> e = 0 \<Longrightarrow> in_file f (blk b) F"
  shows "file_data opt (counted f e) B (blk(b := x)) M F"
proof -
  note same = same_file_data [of f "counted f e", OF counted_simps(1)]
  have "(\<exists>c \<in> B. inUse ((blk(b := x)) c) \<and> jobno ((blk(b := x)) c) = int k) \<or> copied f k F"
    if k: "nErrors (counted f e) = 0" "k < issued (counted f e)" for k
  proof -
    have "nErrors f = 0" "e = 0" "k < issued f" using k assms(7) by simp_all
    then have "(\<exists>c \<in> B. inUse (blk c) \<and> jobno (blk c) = int k) \<or> copied f k F"
      using assms(1,2) unfolding file_data_def by blast
    then show ?thesis
    proof (elim disjE bexE conjE)
      fix c assume c: "c \<in> B" "inUse (blk c)" "jobno (blk c) = int k"
      show ?thesis
      proof (cases "c = b")
        case True
        then show ?thesis
          using copied_iff [OF assms(6), of k F] c(3) assms(8) \<open>nErrors f = 0\<close> \<open>e = 0\<close> by simp
      next
        case False
        then show ?thesis using c by (intro disjI1 bexI [of _ c]) simp_all
      qed
    qed simp
  qed
  moreover have "\<forall>c \<in> B. inUse ((blk(b := x)) c) \<longrightarrow> stage_ok opt f ((blk(b := x)) c) M F"
    using assms(1,2,5) by (simp add: file_data_def)
  ultimately show ?thesis
    using assms(1,2) issued_counted [OF assms(7), of e] unfolding file_data_def same by simp
qed

lemma file_data_acquire:
  assumes "file_data opt f B blk M F" "active f" "b \<in> B" "\<not> inUse (blk b)" "read_job f i p x"
    "f' = f\<lparr>nBlockJobsScheduled := nBlockJobsScheduled f + 1\<rparr>" "bsize f * issued f < fsize f"
  shows "file_data opt f' B (blk(b := x)) M F"
proof -
  have sf: "same_file f f'" by (simp add: assms(6) same_file_def)
  note same = same_file_data [OF sf]
  have iss: "issued f' = Suc (issued f)" by (simp add: assms(6))
  have x: "jobno x = int (issued f)" "inUse x" "offset x = bsize f * issued f" "nbytes x = min (bsize f) (fsize f - offset x)"
    "rw_type x = READ" "status x = EINPROGRESS" using assms(5) by (auto simp: read_job_def)
  have "(\<exists>c \<in> B. inUse ((blk(b := x)) c) \<and> jobno ((blk(b := x)) c) = int k) \<or> copied f k F"
    if "nErrors f = 0" "k < Suc (issued f)" for k
  proof (cases "k = issued f")
    case True
    then show ?thesis using x(1,2) assms(3) by auto
  next
    case False
    then have "(\<exists>c \<in> B. inUse (blk c) \<and> jobno (blk c) = int k) \<or> copied f k F"
      using assms(1,2) that by (simp add: file_data_def)
    then show ?thesis using assms(4) by (metis fun_upd_apply)
  qed
  moreover have "pristine opt f (offset x) (offset x + nbytes x) F"
    using assms(1,2) x(3,4) by (auto simp: file_data_def pristine_def)
  then have "stage_ok opt f x M F" using x(5,6) by (simp add: stage_ok_def EINPROGRESS_def)
  then have "\<forall>c \<in> B. inUse ((blk(b := x)) c) \<longrightarrow> stage_ok opt f ((blk(b := x)) c) M F"
    using assms(1,2) by (simp add: file_data_def)
  moreover have "pristine opt f (bsize f * Suc (issued f)) (fsize f) F"
    using assms(1,2) by (auto simp: file_data_def pristine_def)
  ultimately show ?thesis using assms(1,2) unfolding file_data_def same iss by (simp add: assms(6))
qed

end
