(* ===== verification/Copy_Run.thy ===== *)
theory Copy_Run
  imports Copy_Content
begin

text \<open>
  The invariant of a scheduler (its books, its buffers, its data) is kept by every operation of an
  update, whatever the kernel answers; the part about the data is kept as long as requests complete in
  whole. \<open>D\<close> is the list of file jobs that the current update has completed.
\<close>

section \<open>The invariant of a scheduler\<close>

definition apart :: "copy_scheduler \<Rightarrow> bool" where
  "apart s \<longleftrightarrow> (\<forall>i < nFileCopyJobs s. \<forall>j < nFileCopyJobs s. i \<noteq> j \<and> active (fileCopyJobs s ! i) \<and> active (fileCopyJobs s ! j)
     \<longrightarrow> dstFd (fileCopyJobs s ! i) \<noteq> srcFd (fileCopyJobs s ! j) \<and> dstFd (fileCopyJobs s ! i) \<noteq> dstFd (fileCopyJobs s ! j))"

definition complete :: "file_copy_job \<Rightarrow> (int \<Rightarrow> nat \<Rightarrow> 8 word) \<Rightarrow> bool" where
  "complete g F \<longleftrightarrow> (nErrors g = 0 \<longrightarrow> (\<forall>y < fsize g. F (dstFd g) y = F (srcFd g) y))"

definition done_ok :: "file_copy_job list \<Rightarrow> copy_scheduler \<Rightarrow> (int \<Rightarrow> nat \<Rightarrow> 8 word) \<Rightarrow> bool" where
  "done_ok D s F \<longleftrightarrow> (\<forall>g \<in> set D. complete g F \<and> (\<forall>i < nFileCopyJobs s. active (fileCopyJobs s ! i) \<longrightarrow>
     dstFd (fileCopyJobs s ! i) \<noteq> srcFd g \<and> dstFd (fileCopyJobs s ! i) \<noteq> dstFd g))"

definition data_inv :: "file_copy_job list \<Rightarrow> copy_scheduler \<Rightarrow> shared_state \<Rightarrow> bool" where
  "data_inv D s sh \<longleftrightarrow> (\<forall>i < nFileCopyJobs s.
       file_data (opts sh) (fileCopyJobs s ! i) (slot s i) (block_at s) (mem sh) (files sh))
     \<and> apart s \<and> done_ok D s (files sh)"

definition copy_inv :: "bool \<Rightarrow> file_copy_job list \<Rightarrow> copy_scheduler \<Rightarrow> shared_state \<Rightarrow> bool" where
  "copy_inv whole D s sh \<longleftrightarrow> sched_ok s \<and> clean s \<and> bufs s sh \<and> (whole \<longrightarrow> data_inv D s sh)"

lemma copy_invD:
  assumes "copy_inv whole D s sh"
  shows "sched_ok s" "jobs_inv s" "queue_inv (cbBatch s) s" "clean s" "bufs s sh"
    "length (blockCopyJobs s) = nBlockCopyJobsPerFileCopyJob s * nFileCopyJobs s" "length (fileCopyJobs s) = nFileCopyJobs s"
  using assms by (auto simp: copy_inv_def sched_ok_def jobs_inv_def)

lemma local_step_slot: "local_step i b s s' \<Longrightarrow> slot s' = slot s"
  by (simp add: local_step_def slot_def fun_eq_iff)

text \<open>One file job changes, in one block job; memory changes in that block's buffer only.\<close>

lemma data_inv_local:
  assumes inv: "data_inv D s sh" and i: "i < nFileCopyJobs s" "active (fileCopyJobs s ! i)" "b \<in> slot s i"
    and l: "local_step i b s s'" and o: "opts sh' = opts sh"
    and fi: "file_data (opts sh) (fileCopyJobs s' ! i) (slot s i) (block_at s') (mem sh') (files sh')"
    and M: "\<And>j c d. j < nFileCopyJobs s \<Longrightarrow> j \<noteq> i \<Longrightarrow> c \<in> slot s j \<Longrightarrow> inUse (block_at s c) \<Longrightarrow> d < nbytes (block_at s c) \<Longrightarrow>
      mem sh' (data (block_at s c) + d) = mem sh (data (block_at s c) + d)"
    and F: "\<And>fd. fd \<noteq> dstFd (fileCopyJobs s ! i) \<Longrightarrow> files sh' fd = files sh fd"
  shows "data_inv D s' sh'"
proof -
  have sl: "slot s' = slot s" by (rule local_step_slot [OF l])
  have n: "nFileCopyJobs s' = nFileCopyJobs s" and fj: "\<And>j. j \<noteq> i \<Longrightarrow> fileCopyJobs s' ! j = fileCopyJobs s ! j"
    and bc: "\<And>c. c \<noteq> b \<Longrightarrow> block_at s' c = block_at s c" and sf: "same_file (fileCopyJobs s ! i) (fileCopyJobs s' ! i)"
    using l by (auto simp: local_step_def)
  have same: "active (fileCopyJobs s' ! j) = active (fileCopyJobs s ! j)" "srcFd (fileCopyJobs s' ! j) = srcFd (fileCopyJobs s ! j)"
    "dstFd (fileCopyJobs s' ! j) = dstFd (fileCopyJobs s ! j)" for j
    using fj [of j] sf by (cases "j = i"; simp add: same_file_def)+
  have ap: "apart s" and dn: "done_ok D s (files sh)" using inv by (auto simp: data_inv_def)
  have "file_data (opts sh') (fileCopyJobs s' ! j) (slot s' j) (block_at s') (mem sh') (files sh')"
    if j: "j < nFileCopyJobs s" for j
  proof (cases "j = i")
    case True
    then show ?thesis using fi o sl by simp
  next
    case False
    have old: "file_data (opts sh) (fileCopyJobs s ! j) (slot s j) (block_at s) (mem sh) (files sh)"
      using inv j by (simp add: data_inv_def)
    have "b \<notin> slot s j" using slot_unique [OF i(3)] False by blast
    then have "block_at s c = block_at s' c" if "c \<in> slot s j" for c using that bc by metis
    from file_data_cong [of "slot s j" "block_at s" "block_at s'", OF this] old
    have "file_data (opts sh) (fileCopyJobs s ! j) (slot s j) (block_at s') (mem sh) (files sh)" by simp
    then have "file_data (opts sh) (fileCopyJobs s ! j) (slot s j) (block_at s') (mem sh') (files sh')"
    proof (rule file_data_frame)
      fix c d assume c: "c \<in> slot s j" "inUse (block_at s' c)" "d < nbytes (block_at s' c)"
      then have "block_at s' c = block_at s c" using bc [of c] \<open>b \<notin> slot s j\<close> by (cases "c = b") simp_all
      then show "mem sh' (data (block_at s' c) + d) = mem sh (data (block_at s' c) + d)" using M [OF j False] c by simp
    next
      assume "active (fileCopyJobs s ! j)"
      then have "dstFd (fileCopyJobs s ! i) \<noteq> srcFd (fileCopyJobs s ! j)" "dstFd (fileCopyJobs s ! i) \<noteq> dstFd (fileCopyJobs s ! j)"
        using ap i(1,2) j False by (auto simp: apart_def)
      then show "files sh' (srcFd (fileCopyJobs s ! j)) = files sh (srcFd (fileCopyJobs s ! j))
          \<and> files sh' (dstFd (fileCopyJobs s ! j)) = files sh (dstFd (fileCopyJobs s ! j))" using F by auto
    qed
    then show ?thesis using o sl fj False by simp
  qed
  moreover have "apart s'" using ap unfolding apart_def n same .
  moreover have "done_ok D s' (files sh')"
    unfolding done_ok_def n same
  proof (intro ballI conjI)
    fix g assume g: "g \<in> set D"
    then have *: "complete g (files sh)" "dstFd (fileCopyJobs s ! i) \<noteq> srcFd g" "dstFd (fileCopyJobs s ! i) \<noteq> dstFd g"
      using dn i(1,2) by (auto simp: done_ok_def)
    then show "complete g (files sh')" using F [of "dstFd g"] F [of "srcFd g"] by (simp add: complete_def)
    show "\<forall>i < nFileCopyJobs s. active (fileCopyJobs s ! i) \<longrightarrow>
        dstFd (fileCopyJobs s ! i) \<noteq> srcFd g \<and> dstFd (fileCopyJobs s ! i) \<noteq> dstFd g"
      using dn g by (simp add: done_ok_def)
  qed
  ultimately show ?thesis by (simp add: data_inv_def n)
qed

lemma data_inv_world:
  assumes "data_inv D s sh" "same_world sh sh'"
  shows "data_inv D s sh'"
  using assms by (simp add: data_inv_def same_world_def)

text \<open>The parts of the invariant for one used block job.\<close>

lemma used_facts:
  assumes "copy_inv whole D s sh" "i < nFileCopyJobs s" "b \<in> slot s i" "inUse (block_at s b)"
  shows "active (fileCopyJobs s ! i)" "block_ok (fileCopyJobs s ! i) i (block_at s b)" "b < length (blockCopyJobs s)"
    "data (block_at s b) \<noteq> NULL" "file_ok (fileCopyJobs s ! i)" "nbytes (block_at s b) \<le> bsize (fileCopyJobs s ! i)"
    "0 < nbytes (block_at s b)" "alignUp (nbytes (block_at s b)) DIRECT_IO_ALIGN \<le> bsize (fileCopyJobs s ! i)"
    "nbytes (block_at s b) \<le> alignUp (nbytes (block_at s b)) DIRECT_IO_ALIGN" "0 < nBlockJobsScheduled (fileCopyJobs s ! i)"
    "\<And>c. c \<in> slot s i \<Longrightarrow> inUse (block_at s c) \<Longrightarrow> block_ok (fileCopyJobs s ! i) i (block_at s c)"
    "inj_on (\<lambda>b. jobno (block_at s b)) {b \<in> slot s i. inUse (block_at s b)}"
proof -
  note c = copy_invD [OF assms(1)]
  note u = used_scheduled [OF c(2) assms(2-4)]
  show "active (fileCopyJobs s ! i)" "block_ok (fileCopyJobs s ! i) i (block_at s b)" "0 < nBlockJobsScheduled (fileCopyJobs s ! i)"
    using u by blast+
  show "b < length (blockCopyJobs s)" by (rule jobs_inv_block [OF c(2) assms(2,3)])
  show "data (block_at s b) \<noteq> NULL" using c(5) assms(2-4) by (auto simp: bufs_def)
  show ok: "file_ok (fileCopyJobs s ! i)" by (rule active_bounds(1) [OF c(2) assms(2) u(1)])
  show n: "nbytes (block_at s b) \<le> bsize (fileCopyJobs s ! i)" "0 < nbytes (block_at s b)"
    using u(3) ok by (auto simp: block_ok_def file_ok_def)
  have a: "DIRECT_IO_ALIGN = 2 ^ 12" "(12::nat) < 64" "nbytes (block_at s b) + DIRECT_IO_ALIGN \<le> 2 ^ 64"
    using n ok by (auto simp: DIRECT_IO_ALIGN_def file_ok_def)
  show "alignUp (nbytes (block_at s b)) DIRECT_IO_ALIGN \<le> bsize (fileCopyJobs s ! i)"
    using ok n(1) by (intro alignUp_least [OF a]) (simp_all add: file_ok_def)
  show "nbytes (block_at s b) \<le> alignUp (nbytes (block_at s b)) DIRECT_IO_ALIGN" by (rule alignUp_spec(2) [OF a])
  show "\<And>c. c \<in> slot s i \<Longrightarrow> inUse (block_at s c) \<Longrightarrow> block_ok (fileCopyJobs s ! i) i (block_at s c)"
    using used_scheduled(3) [OF c(2) assms(2)] by blast
  show "inj_on (\<lambda>b. jobno (block_at s b)) {b \<in> slot s i. inUse (block_at s b)}"
    using jobs_inv_file [OF c(2) assms(2)] u(1) by (simp add: file_inv_def)
qed

text \<open>Writing inside one buffer does not touch the data in the others.\<close>

lemma buffer_frame:
  assumes "copy_inv whole D s sh" "i < nFileCopyJobs s" "b \<in> slot s i" "inUse (block_at s b)"
    "j < nFileCopyJobs s" "c \<in> slot s j" "inUse (block_at s c)" "c \<noteq> b" "d < nbytes (block_at s c)"
    "\<And>a. M' a \<noteq> mem sh a \<Longrightarrow> data (block_at s b) \<le> a \<and> a < data (block_at s b) + bsize (fileCopyJobs s ! i)"
  shows "M' (data (block_at s c) + d) = mem sh (data (block_at s c) + d)"
proof (rule ccontr)
  note c = copy_invD [OF assms(1)]
  note ub = used_facts [OF assms(1-4)] and uc = used_facts [OF assms(1,5-7)]
  assume "M' (data (block_at s c) + d) \<noteq> mem sh (data (block_at s c) + d)"
  then obtain e where e: "data (block_at s c) + d = data (block_at s b) + e" "e < bsize (fileCopyJobs s ! i)"
    using assms(10) by (metis add_less_cancel_left le_Suc_ex)
  moreover have "d < bsize (fileCopyJobs s ! j)" using assms(9) uc(6) by simp
  ultimately show False
    using bufs_disjoint [OF c(5) assms(5,6,2,3,8) c(6) uc(4) ub(4)] by blast
qed


section \<open>A step of one block job\<close>

definition like :: "copy_scheduler \<Rightarrow> copy_scheduler \<Rightarrow> bool" where
  "like s s' \<longleftrightarrow> nFileCopyJobs s' = nFileCopyJobs s \<and> nBlockCopyJobsPerFileCopyJob s' = nBlockCopyJobsPerFileCopyJob s
     \<and> fileCopyJobs s' = fileCopyJobs s \<and> blockCopyJobs s' = blockCopyJobs s"

lemma like_inv:
  assumes "like t s'"
  shows "clean s' = clean t" "bufs s' sh = bufs t sh" "data_inv D s' sh = data_inv D t sh" "slot s' = slot t"
proof -
  have f: "nFileCopyJobs s' = nFileCopyJobs t" "nBlockCopyJobsPerFileCopyJob s' = nBlockCopyJobsPerFileCopyJob t"
    "fileCopyJobs s' = fileCopyJobs t" "blockCopyJobs s' = blockCopyJobs t" using assms by (auto simp: like_def)
  have b: "block_at s' = block_at t" using f by (simp add: block_at_def fun_eq_iff)
  show sl: "slot s' = slot t" using f by (simp add: slot_def fun_eq_iff)
  show "clean s' = clean t" by (simp only: clean_def b f)
  have "held s' = held t" by (simp only: held_def b f)
  then show "bufs s' sh = bufs t sh" by (simp only: bufs_def b f sl)
  have "apart s' = apart t" "done_ok D s' (files sh) = done_ok D t (files sh)" by (simp_all only: apart_def done_ok_def f)
  then show "data_inv D s' sh = data_inv D t sh" by (simp only: data_inv_def b f sl)
qed

lemma clean_put: "clean s \<Longrightarrow> b < length (blockCopyJobs s) \<Longrightarrow> (\<not> inUse x \<Longrightarrow> data x = NULL) \<Longrightarrow> clean (put_block s b x)"
  by (auto simp: clean_def block_at_put)

lemma progress_inv:
  assumes inv: "copy_inv whole D s sh" and i: "i < nFileCopyJobs s" "b \<in> slot s i" "inUse (block_at s b)"
    and x: "same_block (block_at s b) x" and s': "sched_ok s'" "like (put_block s b x) s'"
    and sh': "opts sh' = opts sh" "copybufferAllocator sh' = copybufferAllocator sh"
    and M: "\<And>a. whole \<Longrightarrow> mem sh' a \<noteq> mem sh a \<Longrightarrow> data (block_at s b) \<le> a \<and> a < data (block_at s b) + bsize (fileCopyJobs s ! i)"
    and F: "whole \<Longrightarrow> outside_block (fileCopyJobs s ! i) (offset x) (files sh) (files sh')"
    and st: "whole \<Longrightarrow> stage_ok (opts sh) (fileCopyJobs s ! i) (block_at s b) (mem sh) (files sh) \<Longrightarrow>
      stage_ok (opts sh) (fileCopyJobs s ! i) x (mem sh') (files sh')"
  shows "copy_inv whole D s' sh'"
proof -
  note c = copy_invD [OF inv] and u = used_facts [OF inv i]
  let ?t = "put_block s b x"
  have bx: "block_at ?t = (block_at s)(b := x)" using u(3) by (rule block_at_put)
  have "clean ?t" using c(4) u(3) i(3) x by (intro clean_put) (simp_all add: same_block_def)
  moreover have "bufs ?t sh'"
  proof (rule bufs_cong [OF c(5)])
    show "\<And>i' c. i' < nFileCopyJobs s \<Longrightarrow> c \<in> slot s i' \<Longrightarrow>
       data (block_at ?t c) = data (block_at s c)
       \<and> (inUse (block_at ?t c) \<longrightarrow> inUse (block_at s c) \<or> data (block_at s c) \<noteq> NULL)"
      using x by (simp add: bx same_block_def)
  qed (use sh' c(6) in simp_all)
  moreover have "data_inv D ?t sh'" if w: whole
  proof (rule data_inv_local [OF _ i(1) u(1) i(2) local_step_put_block sh'(1)])
    show d: "data_inv D s sh" using inv w by (simp add: copy_inv_def)
    then have fd: "file_data (opts sh) (fileCopyJobs s ! i) (slot s i) (block_at s) (mem sh) (files sh)"
      using i(1) by (simp add: data_inv_def)
    then have "stage_ok (opts sh) (fileCopyJobs s ! i) (block_at s b) (mem sh) (files sh)"
      using i(2,3) u(1) by (simp add: file_data_def)
    from st [OF w this] have sx: "stage_ok (opts sh) (fileCopyJobs s ! i) x (mem sh') (files sh')" .
    show frame: "mem sh' (data (block_at s c) + d) = mem sh (data (block_at s c) + d)"
      if "j < nFileCopyJobs s" "j \<noteq> i" "c \<in> slot s j" "inUse (block_at s c)" "d < nbytes (block_at s c)" for j c d
    proof -
      have "c \<noteq> b" using slot_unique [OF i(2)] that(2,3) by blast
      then show ?thesis by (rule buffer_frame [OF inv i that(1,3,4) _ that(5) M [OF w]])
    qed
    have "file_data (opts sh) (fileCopyJobs s ! i) (slot s i) ((block_at s)(b := x)) (mem sh') (files sh')"
    proof (rule file_data_progress [OF fd u(1) i(2,3) x u(11,12) _ F [OF w] sx])
      show "mem sh' (data (block_at s c) + d) = mem sh (data (block_at s c) + d)"
        if "c \<in> slot s i" "c \<noteq> b" "inUse (block_at s c)" "d < nbytes (block_at s c)" for c d
        by (rule buffer_frame [OF inv i i(1) that(1,3,2,4) M [OF w]])
    qed
    then show "file_data (opts sh) (fileCopyJobs ?t ! i) (slot s i) (block_at ?t) (mem sh') (files sh')"
      by (simp add: bx)
    show "files sh' fd = files sh fd" if "fd \<noteq> dstFd (fileCopyJobs s ! i)" for fd
      using F [OF w] that by (simp add: outside_block_def)
  qed
  ultimately show ?thesis using s' by (simp add: copy_inv_def like_inv [OF s'(2)])
qed


text \<open>What a step of one block job leaves alone.\<close>

definition kept :: "nat \<Rightarrow> nat \<Rightarrow> copy_scheduler \<Rightarrow> shared_state \<Rightarrow> copy_scheduler \<Rightarrow> shared_state \<Rightarrow> bool" where
  "kept i b s sh s' sh' \<longleftrightarrow> local_step i b s s' \<and> opts sh' = opts sh \<and> finishQueue sh' = finishQueue sh \<and> files sh' = files sh"

lemma like_defer [simp]: "like (put_block s b x) (if q then schedIOSubmitDeferred (put_block s b x) c else put_block s b x)"
  "like s s" "like s (schedIOSubmitDeferred s c)"
  by (simp_all add: like_def)

lemma in_buf_zero: "isZero M (data x) (nbytes x) \<Longrightarrow> in_buf f x M F \<Longrightarrow> d < nbytes x \<Longrightarrow> F (srcFd f) (offset x + d) = 0"
  by (simp add: isZero_def in_buf_def list_all_iff)

lemma memset_frame: "memset M p v n a \<noteq> M a \<Longrightarrow> p \<le> a \<and> a < p + n"
  by (simp add: memset_def split: if_splits)

lemma after_read_inv:
  assumes inv: "copy_inv whole D s sh" and i: "i < nFileCopyJobs s" "b \<in> slot s i" "inUse (block_at s b)"
    and st: "status (block_at s b) = 0" "rw_type (block_at s b) = READ"
    and r: "after_read xxh s sh b = (s', sh')"
  shows "copy_inv whole D s' sh' \<and> kept i b s sh s' sh'"
proof -
  note c = copy_invD [OF inv] and u = used_facts [OF inv i]
  define x where "x = block_at s b"
  define n where "n = nbytes x"
  have idle: "\<not> busy (block_at s b)" using st(1) by (simp add: busy_def EINPROGRESS_def)
  have x: "blockCopyJobs s ! b = x" "parent x = Some i" "status x = 0" "rw_type x = READ"
    using u(2) st by (simp_all add: block_at_def x_def block_ok_def)
  have nb: "0 < n" "n \<le> bsize (fileCopyJobs s ! i)" "n \<le> alignUp n DIRECT_IO_ALIGN"
    "alignUp n DIRECT_IO_ALIGN \<le> bsize (fileCopyJobs s ! i)" using u(6-9) by (simp_all add: x_def n_def)
  show ?thesis
  proof (cases "sparse (opts sh) \<and> isZero (mem sh) (data x) n")
    case True
    define y where "y = x\<lparr>rw_type := FINISH, status := 0\<rparr>"
    have s': "s' = put_block s b y" "sh' = sh\<lparr>bytesRead := (bytesRead sh + n) mod 2 ^ 64\<rparr>"
      using r True by (simp_all add: after_read_def x Let_def n_def y_def)
    have sb: "same_block (block_at s b) y" by (simp add: same_block_def y_def x_def)
    have q: "\<not> busy y" by (simp add: busy_def y_def EINPROGRESS_def)
    have "sched_ok s'" using sched_ok_put [OF c(1) i idle sb] q by (simp add: s'(1))
    then have "copy_inv whole D s' sh'"
    proof (rule progress_inv [OF inv i sb])
      assume "stage_ok (opts sh) (fileCopyJobs s ! i) (block_at s b) (mem sh) (files sh)"
      then have p: "pristine (opts sh) (fileCopyJobs s ! i) (offset x) (offset x + n) (files sh)"
        "in_buf (fileCopyJobs s ! i) x (mem sh) (files sh)" using st by (simp_all add: stage_ok_def x_def n_def)
      have "in_file (fileCopyJobs s ! i) x (files sh)"
        unfolding in_file_def using in_buf_zero [OF _ p(2)] p(1) True by (simp add: n_def pristine_def)
      then show "stage_ok (opts sh) (fileCopyJobs s ! i) y (mem sh') (files sh')"
        by (simp add: stage_ok_def y_def in_file_def s'(2))
    qed (simp_all add: s')
    then show ?thesis by (simp add: kept_def s' local_step_put_block)
  next
    case False
    define m where "m = (if alignUp n DIRECT_IO_ALIGN > n
      then memset (mem sh) (data x + n) 0 (alignUp n DIRECT_IO_ALIGN - n) else mem sh)"
    define y where "y = x\<lparr>cb := (io_prep_pwrite (dstFd (fileCopyJobs s ! i)) (data x) (alignUp n DIRECT_IO_ALIGN)
       (offset x))\<lparr>cb_done := WR_DONE\<rparr>, status := EINPROGRESS, rw_type := WRITE,
       srcHash := (if readback (opts sh) then xxh (bytes_at m (data x) n) else 0)\<rparr>"
    have s': "s' = schedIOSubmitDeferred (put_block s b y) b"
      "sh' = sh\<lparr>bytesRead := (bytesRead sh + n) mod 2 ^ 64, mem := m\<rparr>"
      using r False by (auto simp add: after_read_def x Let_def n_def y_def m_def)
    have sb: "same_block (block_at s b) y" by (simp add: same_block_def y_def x_def)
    have q: "busy y" "cb y = request_of (fileCopyJobs s ! i) y \<and> rw_type y \<noteq> FINISH"
      using i(3) by (simp_all add: busy_def y_def request_of_def n_def x_def)
    have "sched_ok s'" using sched_ok_put [OF c(1) i idle sb q(2)] q(1) by (simp add: s'(1))
    then have "copy_inv whole D s' sh'"
    proof (rule progress_inv [OF inv i sb])
      assume "stage_ok (opts sh) (fileCopyJobs s ! i) (block_at s b) (mem sh) (files sh)"
      then have p: "in_buf (fileCopyJobs s ! i) x (mem sh) (files sh)" using st by (simp add: stage_ok_def x_def)
      have "m (data x + d) = mem sh (data x + d)" if "d < n" for d using that by (simp add: m_def memset_def)
      then have "in_buf (fileCopyJobs s ! i) y m (files sh)" using p by (simp add: in_buf_def y_def n_def)
      then show "stage_ok (opts sh) (fileCopyJobs s ! i) y (mem sh') (files sh')"
        by (simp add: stage_ok_def y_def s'(2) EINPROGRESS_def)
    next
      show "data (block_at s b) \<le> a \<and> a < data (block_at s b) + bsize (fileCopyJobs s ! i)"
        if "mem sh' a \<noteq> mem sh a" for a
      proof -
        have "data x + n \<le> a \<and> a < data x + n + (alignUp n DIRECT_IO_ALIGN - n)"
          using that memset_frame [of "mem sh" "data x + n" 0 "alignUp n DIRECT_IO_ALIGN - n" a]
          by (simp add: s'(2) m_def split: if_splits)
        then show ?thesis using nb by (simp add: x_def [symmetric])
      qed
    qed (simp_all add: s')
    then show ?thesis by (simp add: kept_def s' local_step_put_block local_step_defer)
  qed
qed

lemma after_write_inv:
  assumes inv: "copy_inv whole D s sh" and i: "i < nFileCopyJobs s" "b \<in> slot s i" "inUse (block_at s b)"
    and st: "status (block_at s b) = 0" "rw_type (block_at s b) = WRITE"
    and r: "after_write s sh b = (s', sh')"
  shows "copy_inv whole D s' sh' \<and> kept i b s sh s' sh'"
proof -
  note c = copy_invD [OF inv] and u = used_facts [OF inv i]
  define x where "x = block_at s b"
  define n where "n = nbytes x"
  define f where "f = fileCopyJobs s ! i"
  have idle: "\<not> busy (block_at s b)" using st(1) by (simp add: busy_def EINPROGRESS_def)
  have x: "blockCopyJobs s ! b = x" "parent x = Some i" "status x = 0" "rw_type x = WRITE"
    using u(2) st by (simp_all add: block_at_def x_def block_ok_def)
  define y where "y = (if readback (opts sh)
      then x\<lparr>cb := (io_prep_pread (dstFd f) (data x) n (offset x))\<lparr>cb_done := RD_DONE\<rparr>, status := EINPROGRESS, rw_type := READDST\<rparr>
      else x\<lparr>rw_type := FINISH, status := 0\<rparr>)"
  have s': "s' = (if busy y then schedIOSubmitDeferred (put_block s b y) b else put_block s b y)"
    "sh' = (sh\<lparr>bytesWritten := (bytesWritten sh + n) mod 2 ^ 64\<rparr>)
       \<lparr>mem := (if readback (opts sh) then memset (mem sh) (data x) 0 n else mem sh)\<rparr>"
    using r i(3) unfolding x_def [symmetric]
    by (auto simp: after_write_def x Let_def n_def y_def f_def busy_def EINPROGRESS_def split: if_splits)
  have sb: "same_block (block_at s b) y" by (simp add: same_block_def y_def x_def)
  have q: "busy y \<Longrightarrow> cb y = request_of f y \<and> rw_type y \<noteq> FINISH"
    by (auto simp: busy_def y_def request_of_def n_def x_def EINPROGRESS_def split: if_splits)
  have "sched_ok s'" unfolding s'(1) using q by (intro sched_ok_put [OF c(1) i idle sb]) (simp_all add: f_def)
  then have "copy_inv whole D s' sh'"
  proof (rule progress_inv [OF inv i sb])
    assume "stage_ok (opts sh) (fileCopyJobs s ! i) (block_at s b) (mem sh) (files sh)"
    then have "in_file f x (files sh)" using st by (simp add: stage_ok_def x_def f_def)
    then have "in_file f y (files sh)" by (simp add: in_file_def y_def)
    then show "stage_ok (opts sh) (fileCopyJobs s ! i) y (mem sh') (files sh')"
      by (auto simp: stage_ok_def y_def s'(2) f_def)
  next
    show "data (block_at s b) \<le> a \<and> a < data (block_at s b) + bsize (fileCopyJobs s ! i)"
      if "mem sh' a \<noteq> mem sh a" for a
      using that memset_frame [of "mem sh" "data x" 0 n a] u(6)
      by (auto simp: s'(2) x_def n_def split: if_splits)
  next
    show "like (put_block s b y) s'" by (simp add: s'(1))
  qed (simp_all add: s'(2))
  then show ?thesis by (simp add: kept_def s' local_step_put_block local_step_defer)
qed


section \<open>Scheduling and releasing\<close>

text \<open>The state between the release of a block job and its next use: only block \<open>b\<close> may keep a buffer.\<close>

definition midway :: "bool \<Rightarrow> file_copy_job list \<Rightarrow> nat \<Rightarrow> copy_scheduler \<Rightarrow> shared_state \<Rightarrow> bool" where
  "midway whole D b s sh \<longleftrightarrow> sched_ok s \<and> bufs s sh \<and> (whole \<longrightarrow> data_inv D s sh)
     \<and> (\<forall>c < length (blockCopyJobs s). c \<noteq> b \<and> \<not> inUse (block_at s c) \<longrightarrow> data (block_at s c) = NULL)"

lemma midwayD:
  assumes "midway whole D b s sh"
  shows "sched_ok s" "jobs_inv s" "bufs s sh" "whole \<Longrightarrow> data_inv D s sh"
    "length (blockCopyJobs s) = nBlockCopyJobsPerFileCopyJob s * nFileCopyJobs s" "length (fileCopyJobs s) = nFileCopyJobs s"
  using assms by (auto simp: midway_def sched_ok_def jobs_inv_def)

lemma copy_inv_midway: "copy_inv whole D s sh \<Longrightarrow> midway whole D b s sh"
  by (auto simp: copy_inv_def midway_def clean_def)

lemma midway_clean: "midway whole D b s sh \<Longrightarrow> (inUse (block_at s b) \<or> data (block_at s b) = NULL) \<Longrightarrow> copy_inv whole D s sh"
  by (auto simp: copy_inv_def midway_def clean_def)

lemma clean_local: "midway whole D b s sh \<Longrightarrow> local_step i b s s' \<Longrightarrow> length (blockCopyJobs s') = length (blockCopyJobs s) \<Longrightarrow>
    (\<not> inUse (block_at s' b) \<Longrightarrow> data (block_at s' b) = NULL) \<Longrightarrow> clean s'"
  unfolding clean_def midway_def local_step_def by metis

lemma sched_ok_lengths: "sched_ok s \<Longrightarrow> length (blockCopyJobs s) = nBlockCopyJobsPerFileCopyJob s * nFileCopyJobs s"
  by (simp add: sched_ok_def jobs_inv_def)

lemma idle_inv:
  assumes m: "midway whole D b s sh" and i: "i < nFileCopyJobs s" "b \<in> slot s i" "\<not> inUse (block_at s b)"
    and w: "same_world sh sh'" and s': "sched_ok (put_block s b x)" and x: "x = zero_block_job\<lparr>data := NULL\<rparr>"
    and B: "bufs (put_block s b x) sh'"
  shows "copy_inv whole D (put_block s b x) sh' \<and> kept i b s sh (put_block s b x) sh'"
proof -
  note md = midwayD [OF m]
  have b: "b < length (blockCopyJobs s)" by (rule jobs_inv_block [OF md(2) i(1,2)])
  have bx: "block_at (put_block s b x) = (block_at s)(b := x)" using b by (rule block_at_put)
  have "clean (put_block s b x)"
    using b x by (intro clean_local [OF m local_step_put_block]) (simp_all add: block_at_def)
  moreover have "data_inv D (put_block s b x) sh'" if w': whole
  proof -
    have d: "data_inv D s sh" by (rule md(4) [OF w'])
    have "file_data (opts sh) (fileCopyJobs s ! j) (slot s j) ((block_at s)(b := x)) (mem sh) (files sh)"
      if "j < nFileCopyJobs s" for j
      using d that x i(3) by (intro file_data_idle) (simp_all add: data_inv_def)
    then have "data_inv D (put_block s b x) sh"
      using d by (simp add: data_inv_def bx apart_def done_ok_def)
    then show ?thesis using w by (rule data_inv_world)
  qed
  moreover have "kept i b s sh (put_block s b x) sh'"
    using w by (simp add: kept_def local_step_put_block same_world_def)
  ultimately show ?thesis using s' B by (simp add: copy_inv_def)
qed

lemma started_inv:
  assumes m: "midway whole D b s sh" and i: "i < nFileCopyJobs s" "b \<in> slot s i" "active (fileCopyJobs s ! i)"
    "\<not> inUse (block_at s b)" "if pre then data (block_at s b) \<noteq> NULL else data (block_at s b) = NULL"
    and s': "sched_ok s'" "started s sh i b pre s' sh'"
  shows "copy_inv whole D s' sh' \<and> kept i b s sh s' sh'"
proof -
  note md = midwayD [OF m]
  let ?f = "fileCopyJobs s ! i" and ?x = "block_at s' b"
  obtain p where p: "read_job ?f i p ?x" "if pre then p = data (block_at s b) \<and> copybufferAllocator sh' = copybufferAllocator sh
        else p \<noteq> NULL \<and> buddy_malloc (copybufferAllocator sh) (bsize ?f) = (p, copybufferAllocator sh')"
    and l: "local_step i b s s'" "same_world sh sh'"
    and f': "fileCopyJobs s' ! i = ?f\<lparr>nBlockJobsScheduled := nBlockJobsScheduled ?f + 1\<rparr>" "bsize ?f * issued ?f < fsize ?f"
    using s'(2) unfolding started_def Let_def by blast
  have ln: "nFileCopyJobs s' = nFileCopyJobs s" "nBlockCopyJobsPerFileCopyJob s' = nBlockCopyJobsPerFileCopyJob s"
    using l(1) by (auto simp: local_step_def)
  have b: "b < length (blockCopyJobs s)" by (rule jobs_inv_block [OF md(2) i(1,2)])
  have len: "length (blockCopyJobs s') = length (blockCopyJobs s)" using md(5) ln sched_ok_lengths [OF s'(1)] by simp
  have bs: "bsize (fileCopyJobs s' ! j) = bsize (fileCopyJobs s ! j)" for j
    using l(1) f'(1) by (cases "j = i") (simp_all add: local_step_def)
  have px: "p \<noteq> NULL" "data ?x = p" "inUse ?x" using p i(5) by (auto simp: read_job_def split: if_splits)
  have oth: "block_at s' c = block_at s c" if "c \<noteq> b" for c using l(1) that by (simp add: local_step_def)
  have bx: "block_at (put_block s b ?x) = block_at s'" using b oth by (auto simp: block_at_put)
  have "bufs (put_block s b ?x) sh'"
  proof (cases pre)
    case True
    then have "p = data (block_at s b)" "copybufferAllocator sh' = copybufferAllocator sh" using p(2) by simp_all
    then show ?thesis
    proof (intro bufs_cong [OF md(3) _ _ _ _ _ _ md(5)])
      show "data (block_at (put_block s b ?x) c) = data (block_at s c) \<and>
          (inUse (block_at (put_block s b ?x) c) \<longrightarrow> inUse (block_at s c) \<or> data (block_at s c) \<noteq> NULL)" for j c
        using px \<open>p = data (block_at s b)\<close> oth unfolding bx by (cases "c = b") simp_all
    qed simp_all
  next
    case False
    then have "buddy_malloc (copybufferAllocator sh) (bsize ?f) = (p, copybufferAllocator sh')" "data (block_at s b) = NULL"
      using p(2) i(5) by simp_all
    then show ?thesis using px by (intro bufs_acquire [OF md(3,2) i(1,2)])
  qed
  then have "bufs s' sh'"
    by (rule bufs_cong) (use ln len bs bx md(5) in simp_all)
  moreover have "clean s'" using len px by (intro clean_local [OF m l(1)]) simp_all
  moreover have "data_inv D s' sh'" if w: whole
  proof -
    have d: "data_inv D s sh" by (rule md(4) [OF w])
    have "file_data (opts sh) ?f (slot s i) (block_at s) (mem sh) (files sh)" using d i(1) by (simp add: data_inv_def)
    from file_data_acquire [OF this i(3,2,4) p(1) f'(1,2)]
    have "file_data (opts sh) (fileCopyJobs s' ! i) (slot s i) (block_at s') (mem sh) (files sh)"
      using bx b by (simp add: block_at_put)
    then have "data_inv D s' sh" by (rule data_inv_local [OF d i(1,3,2) l(1) refl]) simp_all
    then show ?thesis using l(2) by (rule data_inv_world)
  qed
  ultimately show ?thesis using s'(1) l by (simp add: copy_inv_def kept_def same_world_def)
qed

lemma bufs_malloc_failed:
  assumes "bufs s sh" "fst (buddy_malloc (copybufferAllocator sh) n) = NULL"
    "copybufferAllocator sh' = snd (buddy_malloc (copybufferAllocator sh) n)"
  shows "bufs s sh'"
proof -
  obtain a where a: "copybufferAllocator sh = Some a" "arena_inv a" using assms(1) unfolding bufs_def by blast
  obtain p a' where m: "malloc_arena a n = (p, a')" by fastforce
  have "p = NULL" "copybufferAllocator sh' = Some a'" using assms(2,3) m by (simp_all add: buddy_malloc_def a(1))
  then show ?thesis using bufs_world [OF assms(1) a(1)] malloc_blocks(1,2) [OF a(2) m] by simp
qed

lemma schedule_inv:
  assumes m: "midway whole D b s sh" and i: "i < nFileCopyJobs s" "b \<in> slot s i" "active (fileCopyJobs s ! i)"
    "\<not> inUse (block_at s b)" "if pre then data (block_at s b) \<noteq> NULL else data (block_at s b) = NULL"
    and r: "schedulerScheduleBlockCopyJob s sh i b pre = (s', sh')"
  shows "copy_inv whole D s' sh' \<and> kept i b s sh s' sh'"
proof -
  note md = midwayD [OF m]
  have d: "\<not> pre \<Longrightarrow> data (block_at s b) = NULL" using i(5) by simp
  note so = schedule_ok [OF md(1) i(1-4) d r]
  have b: "b < length (blockCopyJobs s)" by (rule jobs_inv_block [OF md(2) i(1,2)])
  from so(2) show ?thesis
  proof
    assume "started s sh i b pre s' sh'"
    then show ?thesis using started_inv [OF m i so(1), of sh'] by blast
  next
    let ?x = "zero_block_job\<lparr>data := NULL\<rparr>"
    let ?A = "copybufferAllocator sh" and ?n = "bsize (fileCopyJobs s ! i)"
    assume l: "left_idle s sh i b pre s' sh'"
    then have s': "s' = put_block s b ?x" "same_world sh sh'" by (auto simp: left_idle_def)
    have "bufs s' sh'"
    proof (cases pre)
      case True
      then show ?thesis using l b i(5) unfolding s'(1)
        by (intro bufs_release [OF md(3,2)]) (auto simp: left_idle_def Let_def)
    next
      case False
      then consider "copybufferAllocator sh' = ?A"
        | "fst (buddy_malloc ?A ?n) = NULL" "copybufferAllocator sh' = snd (buddy_malloc ?A ?n)"
        using l by (auto simp: left_idle_def Let_def)
      then have "bufs s sh'"
      proof cases
        case 1
        then show ?thesis using md(3) by (simp add: bufs_def)
      next
        case 2
        then show ?thesis by (rule bufs_malloc_failed [OF md(3)])
      qed
      then show ?thesis
        by (rule bufs_cong) (use s'(1) md(5) b False i(5) in \<open>auto simp: block_at_put\<close>)
    qed
    then show ?thesis using idle_inv [OF m i(1,2,4) s'(2) so(1) [unfolded s'(1)] refl] s'(1) by simp
  qed
qed


lemma release_midway:
  assumes inv: "copy_inv whole D s sh" and i: "i < nFileCopyJobs s" "b \<in> slot s i" "inUse (block_at s b)"
    and q: "\<not> busy (block_at s b)" "e \<le> 1" and x: "\<not> inUse x"
    and t: "t = put_block (put_file s i (counted (fileCopyJobs s ! i) e)) b x" and w: "same_world sh sh'"
    and B: "bufs (put_block s b x) sh'"
    and dn: "whole \<Longrightarrow> e = 0 \<Longrightarrow> in_file (fileCopyJobs s ! i) (block_at s b) (files sh)"
  shows "midway whole D b t sh'" "local_step i b s t"
proof -
  note c = copy_invD [OF inv] and u = used_facts [OF inv i]
  let ?f = "fileCopyJobs s ! i"
  have i': "i < length (fileCopyJobs s)" using i(1) c(7) by simp
  have tt: "t = put_file (put_block s b x) i (counted ?f e)" by (simp add: t put_block_def put_file_def)
  have bx: "block_at t = (block_at s)(b := x)" using u(3) by (simp add: tt block_at_put)
  show l: "local_step i b s t" unfolding tt by (rule local_step_put [OF _ i']) simp
  have "sched_ok t" unfolding t by (rule release_ok [OF c(1) i q(1) x q(2)])
  moreover have "bufs t sh'"
  proof (rule bufs_cong [OF B])
    show "bsize (fileCopyJobs t ! j) = bsize (fileCopyJobs (put_block s b x) ! j)" for j
      using i' by (cases "j = i") (simp_all add: tt)
  qed (use c(6) in \<open>simp_all add: tt\<close>)
  moreover have "data_inv D t sh'" if w': whole
  proof -
    have d: "data_inv D s sh" using inv w' by (simp add: copy_inv_def)
    then have "file_data (opts sh) ?f (slot s i) (block_at s) (mem sh) (files sh)" using i(1) by (simp add: data_inv_def)
    from file_data_release [OF this u(1) i(2,3) x u(2,10), of e] dn [OF w']
    have "file_data (opts sh) (fileCopyJobs t ! i) (slot s i) (block_at t) (mem sh) (files sh)"
      using i' u(3) by (simp add: tt block_at_put)
    then have "data_inv D t sh" by (rule data_inv_local [OF d i(1) u(1) i(2) l refl]) simp_all
    then show ?thesis using w by (rule data_inv_world)
  qed
  ultimately show "midway whole D b t sh'"
    using c(4) u(3) by (auto simp: midway_def clean_def tt block_at_put)
qed

lemma kept_trans: "local_step i b s t \<Longrightarrow> same_world sh sh1 \<Longrightarrow> kept i b t sh1 s' sh' \<Longrightarrow> kept i b s sh s' sh'"
  by (auto simp: kept_def same_world_def intro: local_step_trans)

lemma counted_code:
  assumes "copy_inv whole D s sh" "i < nFileCopyJobs s" "b \<in> slot s i" "inUse (block_at s b)"
  defines "f \<equiv> fileCopyJobs s ! i"
  shows "g = (if q then f\<lparr>nErrors := inc64 (nErrors f)\<rparr> else f) \<Longrightarrow>
      g\<lparr>nBlockJobsScheduled := dec64 (nBlockJobsScheduled g), nBlockJobsFinished := inc64 (nBlockJobsFinished g)\<rparr>
      = counted f (if q then 1 else 0)"
    "f\<lparr>nBlockJobsFinished := inc64 (nBlockJobsFinished f), nBlockJobsScheduled := dec64 (nBlockJobsScheduled f)\<rparr>
      = counted f 0"
proof -
  note c = copy_invD [OF assms(1)] and u = used_facts [OF assms(1-4)]
  note ab = active_bounds(4-6) [OF c(2) assms(2) u(1)]
  note ab = ab(1,2) ab(3) [OF u(10)]
  show "g\<lparr>nBlockJobsScheduled := dec64 (nBlockJobsScheduled g), nBlockJobsFinished := inc64 (nBlockJobsFinished g)\<rparr>
      = counted f (if q then 1 else 0)" if "g = (if q then f\<lparr>nErrors := inc64 (nErrors f)\<rparr> else f)"
    using ab that by (cases q) (simp_all add: counted_def f_def)
  show "f\<lparr>nBlockJobsFinished := inc64 (nBlockJobsFinished f), nBlockJobsScheduled := dec64 (nBlockJobsScheduled f)\<rparr>
      = counted f 0" using ab by (simp add: counted_def f_def)
qed

lemma finish_block_inv:
  assumes inv: "copy_inv whole D s sh" and i: "i < nFileCopyJobs s" "b \<in> slot s i" "inUse (block_at s b)"
    and st: "status (block_at s b) = 0" "rw_type (block_at s b) \<noteq> READ" "rw_type (block_at s b) \<noteq> WRITE"
    and r: "finish_block xxh s sh i b = (s', sh')"
  shows "copy_inv whole D s' sh' \<and> kept i b s sh s' sh'"
proof -
  note c = copy_invD [OF inv] and u = used_facts [OF inv i]
  let ?f = "fileCopyJobs s ! i" and ?x = "zero_block_job\<lparr>data := data (block_at s b)\<rparr>"
  define q where "q \<longleftrightarrow> rw_type (block_at s b) = READDST
     \<and> xxh (bytes_at (mem sh) (data (block_at s b)) (nbytes (block_at s b))) \<noteq> srcHash (block_at s b)"
  define e :: nat where "e = (if q then 1 else 0)"
  define t where "t = put_block (put_file s i (counted ?f e)) b ?x"
  have sch: "schedulerScheduleBlockCopyJob t sh i b True = (s', sh')"
    using r unfolding finish_block_def Let_def block_at_def [symmetric] q_def [symmetric] counted_code(1) [OF inv i refl]
    by (simp add: schedulerClearBlockCopyJob_def Let_def t_def e_def)
  have "bufs (put_block s b ?x) sh"
    by (rule bufs_cong [OF c(5)]) (use c(6) u(3) i(3) in \<open>auto simp: block_at_put zero_block_job_def\<close>)
  moreover have "in_file ?f (block_at s b) (files sh)" if whole
  proof -
    have "stage_ok (opts sh) ?f (block_at s b) (mem sh) (files sh)"
      using inv that i u(1) by (auto simp: copy_inv_def data_inv_def file_data_def)
    then show ?thesis using st by (cases "rw_type (block_at s b)") (simp_all add: stage_ok_def)
  qed
  ultimately have m: "midway whole D b t sh" "local_step i b s t"
    by (intro release_midway [OF inv i _ _ _ t_def, of sh], simp_all add: busy_def st(1) EINPROGRESS_def e_def same_world_def)+
  have bt: "block_at t b = ?x" using u(3) by (simp add: t_def block_at_def)
  have f: "nFileCopyJobs t = nFileCopyJobs s" "slot t = slot s" by (simp_all add: t_def)
  have "active (fileCopyJobs t ! i)" using u(1) i(1) c(7) by (simp add: t_def)
  then have "copy_inv whole D s' sh' \<and> kept i b t sh s' sh'"
    using i u(4) bt f by (intro schedule_inv [OF m(1) _ _ _ _ _ sch]) simp_all
  then show ?thesis using kept_trans [OF m(2), of sh sh] by (simp add: same_world_def)
qed

lemma fail_block_inv:
  assumes inv: "copy_inv whole D s sh" and i: "i < nFileCopyJobs s" "b \<in> slot s i" "inUse (block_at s b)"
    and st: "status (block_at s b) \<noteq> 0" "status (block_at s b) \<noteq> EINPROGRESS"
    and r: "fail_block s sh i b = (s', sh')"
  shows "copy_inv whole D s' sh' \<and> kept i b s sh s' sh'"
proof -
  note c = copy_invD [OF inv] and u = used_facts [OF inv i]
  let ?f = "fileCopyJobs s ! i" and ?x = "zero_block_job\<lparr>data := NULL\<rparr>"
  obtain sh1 x1 where cl: "schedulerClearBlockCopyJob sh (counted ?f 0) (block_at s b) False = (sh1, x1)" by fastforce
  have x1: "x1 = ?x" using clear_block [of sh "counted ?f 0" "block_at s b" False] cl by simp
  have s': "s' = put_block (put_file s i (counted ?f 0)) b ?x" "sh' = sh1"
    using r cl x1 unfolding fail_block_def Let_def block_at_def [symmetric] counted_code(2) [OF inv i] by simp_all
  note w = clear_block_world [OF cl]
  have "bufs (put_block s b ?x) sh'"
    using w(2) s'(2) by (intro bufs_release [OF c(5,2) u(3)]) simp_all
  moreover have "\<not> whole"
  proof
    assume whole
    then have "stage_ok (opts sh) ?f (block_at s b) (mem sh) (files sh)"
      using inv i u(1) by (auto simp: copy_inv_def data_inv_def file_data_def)
    then show False using st by (simp add: stage_ok_def)
  qed
  ultimately have "midway whole D b s' sh'" "local_step i b s s'"
    using w(1) unfolding s'(2)
    by (intro release_midway [OF inv i _ _ _ s'(1), of sh1]; simp add: busy_def st(2))+
  then show ?thesis
    using midway_clean [of whole D b s' sh'] u(3) w(1) s' by (simp add: kept_def same_world_def block_at_def)
qed

lemma update_block_job_inv:
  assumes inv: "copy_inv whole D s sh" and i: "i < nFileCopyJobs s" "b \<in> slot s i" "inUse (block_at s b)"
    and r: "schedulerUpdateBlockCopyJob xxh s sh i b = (s', sh')"
  shows "copy_inv whole D s' sh' \<and> kept i b s sh s' sh'"
proof -
  note r' = r [unfolded schedulerUpdateBlockCopyJob_def Let_def block_at_def [symmetric]]
  consider (busy) "status (block_at s b) = EINPROGRESS" | (err) "status (block_at s b) \<noteq> 0" "status (block_at s b) \<noteq> EINPROGRESS"
    | (ok) "status (block_at s b) = 0" by blast
  then show ?thesis
  proof cases
    case busy
    then have "s' = s" "sh' = sh" using r' by (simp_all add: EINPROGRESS_def)
    then show ?thesis using inv by (simp add: kept_def local_step_def)
  next
    case err
    then have "fail_block s sh i b = (s', sh')" using r' by simp
    then show ?thesis by (rule fail_block_inv [OF inv i err])
  next
    case ok
    show ?thesis
    proof (cases "rw_type (block_at s b)")
      case READ
      then have "after_read xxh s sh b = (s', sh')" using r' ok by simp
      then show ?thesis by (rule after_read_inv [OF inv i ok READ])
    next
      case WRITE
      then have "after_write s sh b = (s', sh')" using r' ok by simp
      then show ?thesis by (rule after_write_inv [OF inv i ok WRITE])
    next
      case READDST
      then have "finish_block xxh s sh i b = (s', sh')" using r' ok by simp
      then show ?thesis by (rule finish_block_inv [OF inv i ok, rotated 2]) (simp_all add: READDST)
    next
      case FINISH
      then have "finish_block xxh s sh i b = (s', sh')" using r' ok by simp
      then show ?thesis by (rule finish_block_inv [OF inv i ok, rotated 2]) (simp_all add: FINISH)
    qed
  qed
qed


section \<open>The loops of an update\<close>

definition kept_all :: "copy_scheduler \<Rightarrow> shared_state \<Rightarrow> copy_scheduler \<Rightarrow> shared_state \<Rightarrow> bool" where
  "kept_all s sh s' sh' \<longleftrightarrow> nFileCopyJobs s' = nFileCopyJobs s
     \<and> nBlockCopyJobsPerFileCopyJob s' = nBlockCopyJobsPerFileCopyJob s \<and> ctx s' = ctx s
     \<and> (\<forall>j. same_file (fileCopyJobs s ! j) (fileCopyJobs s' ! j))
     \<and> opts sh' = opts sh \<and> finishQueue sh' = finishQueue sh \<and> files sh' = files sh"

lemma kept_all_refl [simp]: "kept_all s sh s sh"
  by (simp add: kept_all_def)

lemma kept_kept_all: "kept i b s sh s' sh' \<Longrightarrow> kept_all s sh s' sh'"
  unfolding kept_def kept_all_def local_step_def by (metis same_file_refl)

lemma kept_all_trans: "kept_all s sh t sh1 \<Longrightarrow> kept_all t sh1 u sh2 \<Longrightarrow> kept_all s sh u sh2"
  by (simp add: kept_all_def same_file_def)

text \<open>The invariant together with what has not changed since the state \<open>(s, sh)\<close>.\<close>

definition goes_on :: "bool \<Rightarrow> file_copy_job list \<Rightarrow> copy_scheduler \<Rightarrow> shared_state \<Rightarrow> copy_scheduler \<times> shared_state \<Rightarrow> bool" where
  "goes_on whole D s sh st \<longleftrightarrow> copy_inv whole D (fst st) (snd st) \<and> kept_all s sh (fst st) (snd st)"

lemma goes_on_step:
  assumes "goes_on whole D s sh st" "copy_inv whole D (fst st') (snd st')" "kept i b (fst st) (snd st) (fst st') (snd st')"
  shows "goes_on whole D s sh st'"
  using assms kept_all_trans kept_kept_all unfolding goes_on_def by blast

lemma update_block_inv:
  assumes "goes_on whole D s sh st" "i < nFileCopyJobs s" "j < nBlockCopyJobsPerFileCopyJob s"
  shows "goes_on whole D s sh (update_block xxh i j st)"
proof -
  obtain t sh1 where st: "st = (t, sh1)" by fastforce
  have n: "i < nFileCopyJobs t" "j < nBlockCopyJobsPerFileCopyJob t"
    using assms by (auto simp: goes_on_def kept_all_def st)
  define b where "b = block_no t i j"
  obtain s' sh' where r: "schedulerUpdateBlockCopyJob xxh t sh1 i b = (s', sh')" by fastforce
  have u: "update_block xxh i j st = (if inUse (block_at t b) then (s', sh') else st)"
    by (simp only: st update_block_def Let_def prod.case b_def [symmetric] block_at_def [symmetric] r)
  show ?thesis
  proof (cases "inUse (block_at t b)")
    case True
    have "copy_inv whole D t sh1" using assms(1) by (simp add: goes_on_def st)
    from update_block_job_inv [OF this n(1) block_no_slot [OF n(2)] True [unfolded b_def] r [unfolded b_def]]
    have "copy_inv whole D s' sh'" "kept i b t sh1 s' sh'" by (simp_all add: b_def)
    then have "goes_on whole D s sh (s', sh')"
      by (intro goes_on_step [OF assms(1), of _ i b]) (simp_all only: st fst_conv snd_conv)
    then show ?thesis using u True by simp
  next
    case False
    then show ?thesis using assms(1) u by simp
  qed
qed

lemma update_file_inv:
  assumes "goes_on whole D s sh st" "i < nFileCopyJobs s"
  shows "goes_on whole D s sh (update_file xxh i st)"
proof -
  have n: "nBlockCopyJobsPerFileCopyJob (fst st) = nBlockCopyJobsPerFileCopyJob s"
    using assms(1) by (simp add: goes_on_def kept_all_def)
  have "goes_on whole D s sh (fold (update_block xxh i) [0..<nBlockCopyJobsPerFileCopyJob s] st)"
  proof (rule fold_invariant [where P = "goes_on whole D s sh" and Q = "\<lambda>j. j < nBlockCopyJobsPerFileCopyJob s"])
    show "goes_on whole D s sh (update_block xxh i j st')"
      if "j < nBlockCopyJobsPerFileCopyJob s" "goes_on whole D s sh st'" for j st'
      by (rule update_block_inv [OF that(2) assms(2) that(1)])
  qed (simp_all add: assms(1))
  then show ?thesis using assms(1) by (simp add: update_file_def n)
qed

lemma update_files_inv:
  assumes "copy_inv whole D s sh"
  shows "goes_on whole D s sh (fold (update_file xxh) [0..<nFileCopyJobs s] (s, sh))"
proof (rule fold_invariant [where P = "goes_on whole D s sh" and Q = "\<lambda>i. i < nFileCopyJobs s"])
  show "goes_on whole D s sh (update_file xxh i st)" if "i < nFileCopyJobs s" "goes_on whole D s sh st" for i st
    by (rule update_file_inv [OF that(2,1)])
qed (simp_all add: assms goes_on_def)

lemma schedule_one_inv:
  assumes "copy_inv whole D s sh" "i < nFileCopyJobs s" "active (fileCopyJobs s ! i)"
    "\<forall>j \<in> set js. j < nBlockCopyJobsPerFileCopyJob s" "schedule_one i js (s, sh) = (s', sh')"
  shows "copy_inv whole D s' sh' \<and> kept_all s sh s' sh'"
  using assms(4,5)
proof (induction js)
  case Nil
  then show ?case using assms(1) by simp
next
  case (Cons j js)
  define b where "b = block_no s i j"
  have sl: "b \<in> slot s i" unfolding b_def using Cons.prems(1) by (intro block_no_slot) simp
  have e: "schedule_one i (j # js) (s, sh) = (if inc \<and> \<not> inUse (block_at s b) then schedulerScheduleBlockCopyJob s sh i b False
      else if inc then schedule_one i js (s, sh) else (s, sh))"
    if "inc \<longleftrightarrow> (nBlockJobsFinished (fileCopyJobs s ! i) + nBlockJobsScheduled (fileCopyJobs s ! i)) mod 2 ^ 64
              < blockCount (stx_size (stx (fileCopyJobs s ! i))) (bsize (fileCopyJobs s ! i))" for inc
    by (cases inc; cases "inUse (block_at s b)"; simp only: schedule_one.simps Let_def prod.case b_def [symmetric]
        block_at_def [symmetric] that [symmetric] if_True if_False simp_thms)
  consider (stop) "s' = s" "sh' = sh" | (skip) "schedule_one i js (s, sh) = (s', sh')"
    | (here) "\<not> inUse (block_at s b)" "schedulerScheduleBlockCopyJob s sh i b False = (s', sh')"
    using Cons.prems(2) unfolding e [OF refl] by (metis prod.inject)
  then show ?case
  proof cases
    case here
    have "data (block_at s b) = NULL"
      using copy_invD(4) [OF assms(1)] here(1) jobs_inv_block [OF copy_invD(2) [OF assms(1)] assms(2) sl]
      by (simp add: clean_def)
    then have "copy_inv whole D s' sh' \<and> kept i b s sh s' sh'"
      by (intro schedule_inv [OF copy_inv_midway [OF assms(1)] assms(2) sl assms(3) here(1) _ here(2)]) simp
    then show ?thesis using kept_kept_all by blast
  next
    case skip
    then show ?thesis using Cons.IH Cons.prems(1) by simp
  next
    case stop
    then show ?thesis using assms(1) by simp
  qed
qed

end
