(* ===== verification/Copy_Update.thy ===== *)
theory Copy_Update
  imports Copy_Run
begin

text \<open>
  The whole update of a scheduler keeps its invariant: completed files leave their slot and join the
  finish queue, the batch is submitted, completed requests are delivered, new files are taken.
\<close>

section \<open>Completion\<close>

definition quiet :: "copy_scheduler \<Rightarrow> nat \<Rightarrow> bool" where
  "quiet s i \<longleftrightarrow> (\<forall>b \<in> slot s i. \<not> inUse (block_at s b))"

lemma bufs_file:
  assumes "bufs s sh" "clean s" "jobs_inv s" "i < nFileCopyJobs s" "quiet s i"
    "copybufferAllocator sh' = copybufferAllocator sh"
  shows "bufs (put_file s i f) sh'"
proof -
  have n: "data (block_at s b) = NULL" if "b \<in> slot s i" for b
    using assms(2,5) jobs_inv_block [OF assms(3,4) that] that by (simp add: clean_def quiet_def)
  have u: "\<not> inUse (block_at s b)" if "b \<in> slot s i" for b using assms(5) that by (simp add: quiet_def)
  have l: "i < length (fileCopyJobs s)" using assms(3,4) by (simp add: jobs_inv_def)
  have h: "held (put_file s i f) = held s" by (simp add: held_def)
  obtain a where a: "copybufferAllocator sh = Some a" "arena_inv a" "inj_on (\<lambda>b. data (block_at s b)) (held s)"
    "\<forall>i < nFileCopyJobs s. \<forall>b \<in> slot s i. (inUse (block_at s b) \<longrightarrow> data (block_at s b) \<noteq> NULL)
      \<and> (data (block_at s b) \<noteq> NULL \<longrightarrow>
       (\<exists>n \<ge> bsize (fileCopyJobs s ! i). (data (block_at s b), n) \<in> block_addresses a))"
    using assms(1) unfolding bufs_def by blast
  have "(inUse (block_at s b) \<longrightarrow> data (block_at s b) \<noteq> NULL)
      \<and> (data (block_at s b) \<noteq> NULL \<longrightarrow>
       (\<exists>n \<ge> bsize ((fileCopyJobs s)[i := f] ! j). (data (block_at s b), n) \<in> block_addresses a))"
    if "j < nFileCopyJobs s" "b \<in> slot s j" for j b
    using a(4) that n u l by (cases "j = i") simp_all
  then show ?thesis using a(1-3) assms(6) unfolding bufs_def h by simp
qed

lemma put_file_inv:
  assumes inv: "copy_inv whole D s sh" and i: "i < nFileCopyJobs s" "quiet s i"
    and f: "file_inv f i (slot s i) (block_at s)"
    and sh': "copybufferAllocator sh' = copybufferAllocator sh" "opts sh' = opts sh" "mem sh' = mem sh" "files sh' = files sh"
    and fd: "whole \<Longrightarrow> file_data (opts sh) f (slot s i) (block_at s) (mem sh) (files sh)"
    and w: "whole \<Longrightarrow> apart (put_file s i f) \<and> done_ok D' (put_file s i f) (files sh)"
  shows "copy_inv whole D' (put_file s i f) sh'"
proof -
  note c = copy_invD [OF inv]
  have l: "i < length (fileCopyJobs s)" using c(7) i(1) by simp
  have "jobs_inv (put_file s i f)"
    unfolding jobs_inv_def using c(2) f l by (auto simp: jobs_inv_def nth_list_update)
  moreover have "queue_inv (cbBatch s) (put_file s i f)" using c(3) by (subst queue_inv_same [of _ s]) simp_all
  moreover have "clean (put_file s i f)" using c(4) by (simp add: clean_def)
  moreover have "bufs (put_file s i f) sh'" by (rule bufs_file [OF c(5,4,2) i sh'(1)])
  moreover have "data_inv D' (put_file s i f) sh'" if "whole"
    using fd w inv that l sh' by (auto simp: data_inv_def copy_inv_def nth_list_update)
  ultimately show ?thesis by (simp add: copy_inv_def sched_ok_def)
qed

lemma finished_quiet:
  assumes "jobs_inv s" "i < nFileCopyJobs s" "active (fileCopyJobs s ! i)"
    "blockCount (fsize (fileCopyJobs s ! i)) (bsize (fileCopyJobs s ! i)) \<le> nBlockJobsFinished (fileCopyJobs s ! i)"
  shows "quiet s i" "issued (fileCopyJobs s ! i) = blockCount (fsize (fileCopyJobs s ! i)) (bsize (fileCopyJobs s ! i))"
proof -
  have "file_inv (fileCopyJobs s ! i) i (slot s i) (block_at s)" by (rule jobs_inv_file [OF assms(1,2)])
  then have *: "nBlockJobsScheduled (fileCopyJobs s ! i) = card {b \<in> slot s i. inUse (block_at s b)}"
    "issued (fileCopyJobs s ! i) \<le> blockCount (fsize (fileCopyJobs s ! i)) (bsize (fileCopyJobs s ! i))"
    using assms(3) by (simp_all add: file_inv_def)
  then have "nBlockJobsScheduled (fileCopyJobs s ! i) = 0" using assms(4) by linarith
  then have "{b \<in> slot s i. inUse (block_at s b)} = {}" using *(1) by simp
  then show "quiet s i" by (auto simp: quiet_def)
  show "issued (fileCopyJobs s ! i) = blockCount (fsize (fileCopyJobs s ! i)) (bsize (fileCopyJobs s ! i))"
    using *(2) assms(4) by linarith
qed

text \<open>A file without a block in flight whose blocks are all issued is copied.\<close>

lemma finished_complete:
  assumes "file_data opt f B blk M F" "active f" "\<forall>b \<in> B. \<not> inUse (blk b)" "file_ok f"
    "issued f = blockCount (fsize f) (bsize f)"
  shows "complete f F"
  unfolding complete_def
proof (intro impI allI)
  fix y assume e: "nErrors f = 0" and y: "y < fsize f"
  define k where "k = y div bsize f"
  have b: "0 < bsize f" using assms(4) by (simp add: file_ok_def)
  then have k: "bsize f * k \<le> y" "y < bsize f * Suc k"
    by (simp_all add: k_def dividend_less_times_div)
  then have "k < issued f" using y b by (simp add: assms(5) blockCount_less_iff)
  then have "copied f k F" using assms(1,2,3) e by (auto simp: file_data_def)
  then show "F (dstFd f) y = F (srcFd f) y" using k y by (simp add: copied_def)
qed

lemma clear_loop_idle: "\<forall>b \<in> set bs. \<not> inUse (block_at s b) \<Longrightarrow> fold (clear_if_used i) bs (s, sh) = (s, sh)"
  by (induction bs) (simp_all add: clear_if_used_def Let_def block_at_def)

lemma clear_file_quiet: "quiet s i \<Longrightarrow> schedulerClearFileCopyJob s sh i = (put_file s i zero_file_job, sh)"
proof -
  assume "quiet s i"
  then have "\<forall>b \<in> set [i * nBlockCopyJobsPerFileCopyJob s..<i * nBlockCopyJobsPerFileCopyJob s + nBlockCopyJobsPerFileCopyJob s].
      \<not> inUse (block_at s b)" by (simp add: quiet_def slot_def)
  from clear_loop_idle [OF this] show ?thesis by (simp add: schedulerClearFileCopyJob_def Let_def)
qed

lemma complete_inv:
  assumes inv: "copy_inv whole D s sh" and i: "i < nFileCopyJobs s" "active (fileCopyJobs s ! i)"
    and fin: "blockCount (fsize (fileCopyJobs s ! i)) (bsize (fileCopyJobs s ! i)) \<le> nBlockJobsFinished (fileCopyJobs s ! i)"
    and dup: "dup = (fileCopyJobs s ! i)\<lparr>actuallyTransferred := True\<rparr>"
    and sh': "sh' = sh\<lparr>finishQueue := finishQueue sh @ [dup]\<rparr>"
  shows "copy_inv whole (D @ [dup]) (put_file s i zero_file_job) sh'"
proof -
  note c = copy_invD [OF inv]
  let ?f = "fileCopyJobs s ! i" and ?s = "put_file s i zero_file_job"
  note q = finished_quiet [OF c(2) i fin]
  have l: "i < length (fileCopyJobs s)" using c(7) i(1) by simp
  have z: "\<not> active zero_file_job" by (simp add: zero_file_job_def)
  have act: "active (fileCopyJobs ?s ! j) \<longleftrightarrow> j \<noteq> i \<and> active (fileCopyJobs s ! j)"
    "active (fileCopyJobs ?s ! j) \<Longrightarrow> fileCopyJobs ?s ! j = fileCopyJobs s ! j" for j
    using l z by (cases "j = i"; simp)+
  show ?thesis
  proof (rule put_file_inv [OF inv i(1) q(1)])
    show "file_inv zero_file_job i (slot s i) (block_at s)"
      using q(1) z by (simp add: file_inv_def quiet_def)
    show "file_data (opts sh) zero_file_job (slot s i) (block_at s) (mem sh) (files sh)" using z by (simp add: file_data_def)
  next
    assume w: whole
    then have ap: "apart s" and dn: "done_ok D s (files sh)"
      and fd: "file_data (opts sh) ?f (slot s i) (block_at s) (mem sh) (files sh)"
      using inv i(1) by (auto simp: copy_inv_def data_inv_def)
    have "complete ?f (files sh)"
      using finished_complete [OF fd i(2)] q active_bounds(1) [OF c(2) i] by (simp add: quiet_def)
    then have "complete dup (files sh)" by (simp add: complete_def dup)
    moreover have "dstFd (fileCopyJobs s ! j) \<noteq> srcFd dup \<and> dstFd (fileCopyJobs s ! j) \<noteq> dstFd dup"
      if "j < nFileCopyJobs s" "active (fileCopyJobs s ! j)" "j \<noteq> i" for j
      using ap that i by (auto simp: apart_def dup)
    ultimately have "done_ok (D @ [dup]) ?s (files sh)"
      using dn unfolding done_ok_def by (auto simp: act simp del: put_simps) (simp_all add: act)
    moreover have "apart ?s" using ap unfolding apart_def by (simp add: act del: put_simps(6))
    ultimately show "apart ?s \<and> done_ok (D @ [dup]) ?s (files sh)" by simp
  qed (simp_all add: sh')
qed


text \<open>
  What an update may do up to the submission: files complete and leave, the others keep their identity.
\<close>

definition carried :: "file_copy_job list \<Rightarrow> copy_scheduler \<Rightarrow> shared_state \<Rightarrow> copy_scheduler \<Rightarrow> shared_state \<Rightarrow> bool" where
  "carried D s sh s' sh' \<longleftrightarrow> nFileCopyJobs s' = nFileCopyJobs s
     \<and> nBlockCopyJobsPerFileCopyJob s' = nBlockCopyJobsPerFileCopyJob s
     \<and> opts sh' = opts sh \<and> files sh' = files sh \<and> finishQueue sh' = finishQueue sh @ D
     \<and> (\<forall>j. active (fileCopyJobs s' ! j) \<longrightarrow> same_file (fileCopyJobs s ! j) (fileCopyJobs s' ! j))
     \<and> (\<forall>g \<in> set D. \<exists>j < nFileCopyJobs s. active (fileCopyJobs s ! j)
          \<and> srcFd g = srcFd (fileCopyJobs s ! j) \<and> dstFd g = dstFd (fileCopyJobs s ! j))"

lemma carried_kept: "carried D s sh t sh1 \<Longrightarrow> kept_all t sh1 u sh2 \<Longrightarrow> carried D s sh u sh2"
  by (auto simp: carried_def kept_all_def same_file_def)

lemma kept_carried: "kept_all s sh u sh2 \<Longrightarrow> carried [] s sh u sh2"
  by (auto simp: carried_def kept_all_def same_file_def)

lemma complete_or_schedule_inv:
  assumes inv: "copy_inv whole D t sh1" and cr: "carried D s sh t sh1" and i: "i < nFileCopyJobs t"
    and r: "complete_or_schedule i (t, sh1) = (u, sh2)"
  shows "\<exists>D'. copy_inv whole D' u sh2 \<and> carried D' s sh u sh2"
proof -
  let ?f = "fileCopyJobs t ! i"
  define fin where "fin \<longleftrightarrow> blockCount (fsize ?f) (bsize ?f) \<le> nBlockJobsFinished ?f"
  define dup where "dup = (schedulerShallowDupFileCopyJob ?f)\<lparr>actuallyTransferred := True\<rparr>"
  define sh3 where "sh3 = sh1\<lparr>finishQueue := finishQueue sh1 @ [dup]\<rparr>"
  have r': "(if \<not> active ?f then (t, sh1) else if fin then schedulerClearFileCopyJob t sh3 i
      else schedule_one i [0..<nBlockCopyJobsPerFileCopyJob t] (t, sh1)) = (u, sh2)"
    using r by (simp only: complete_or_schedule_def Let_def prod.case fin_def dup_def sh3_def)
  consider "\<not> active ?f" | (fin) "active ?f" "fin" | (more) "active ?f" "\<not> fin" by blast
  then show ?thesis
  proof cases
    case 1
    then show ?thesis using r' inv cr by auto
  next
    case fin
    note c = copy_invD [OF inv]
    have l: "i < length (fileCopyJobs t)" using c(7) i by simp
    have d: "dup = ?f\<lparr>actuallyTransferred := True\<rparr>" by (simp add: dup_def schedulerShallowDupFileCopyJob_def)
    have "quiet t i" using finished_quiet(1) [OF c(2) i fin(1)] fin(2) by (simp add: fin_def)
    then have u: "u = put_file t i zero_file_job" "sh2 = sh3" using r' fin clear_file_quiet by simp_all
    have "copy_inv whole (D @ [dup]) u sh2"
      unfolding u using fin(2) by (intro complete_inv [OF inv i fin(1) _ d sh3_def]) (simp add: fin_def)
    moreover have "carried (D @ [dup]) s sh u sh2"
    proof -
      have sf: "same_file (fileCopyJobs s ! j) (fileCopyJobs u ! j)" if "active (fileCopyJobs u ! j)" for j
        using that cr l by (cases "j = i") (simp_all add: u carried_def zero_file_job_def)
      have "same_file (fileCopyJobs s ! i) ?f" using cr fin(1) by (simp add: carried_def)
      then have "active (fileCopyJobs s ! i) \<and> srcFd dup = srcFd (fileCopyJobs s ! i) \<and> dstFd dup = dstFd (fileCopyJobs s ! i)"
        using fin(1) by (simp add: same_file_def d)
      moreover have "i < nFileCopyJobs s" using i cr by (simp add: carried_def)
      ultimately show ?thesis using cr sf by (auto simp: carried_def u sh3_def)
    qed
    ultimately show ?thesis by blast
  next
    case more
    then have so: "schedule_one i [0..<nBlockCopyJobsPerFileCopyJob t] (t, sh1) = (u, sh2)" using r' by simp
    have "copy_inv whole D u sh2 \<and> kept_all t sh1 u sh2"
      by (rule schedule_one_inv [OF inv i more(1) _ so]) simp
    then show ?thesis using carried_kept [OF cr] by blast
  qed
qed

lemma complete_all_inv:
  assumes "copy_inv whole D t sh1" "carried D s sh t sh1" "\<forall>i \<in> set is. i < nFileCopyJobs s"
    "fold complete_or_schedule is (t, sh1) = (u, sh2)"
  shows "\<exists>D'. copy_inv whole D' u sh2 \<and> carried D' s sh u sh2"
  using assms
proof (induction "is" arbitrary: t sh1 D)
  case Nil
  then show ?case by auto
next
  case (Cons i js)
  obtain v sh3 where v: "complete_or_schedule i (t, sh1) = (v, sh3)" by fastforce
  have "i < nFileCopyJobs t" using Cons.prems(2,3) by (simp add: carried_def)
  from complete_or_schedule_inv [OF Cons.prems(1,2) this v]
  obtain D' where "copy_inv whole D' v sh3" "carried D' s sh v sh3" by blast
  moreover have "fold complete_or_schedule js (v, sh3) = (u, sh2)" using Cons.prems(4) v by simp
  ultimately show ?case using Cons.IH Cons.prems(3) by simp
qed

section \<open>New files\<close>

text \<open>What the queue hands out: well-formed jobs with descriptors of their own.\<close>

definition own_fds :: "file_copy_job \<Rightarrow> file_copy_job \<Rightarrow> bool" where
  "own_fds f g \<longleftrightarrow> dstFd f \<noteq> srcFd g \<and> dstFd f \<noteq> dstFd g \<and> dstFd g \<noteq> srcFd f"

definition jobs_ok :: "bool \<Rightarrow> copy_opts \<Rightarrow> (int \<Rightarrow> nat \<Rightarrow> 8 word) \<Rightarrow> file_copy_job list \<Rightarrow> file_copy_job list \<Rightarrow> bool" where
  "jobs_ok whole opt F old js \<longleftrightarrow> list_all file_ok js
     \<and> (whole \<longrightarrow> list_all (\<lambda>f. srcFd f \<noteq> dstFd f \<and> pristine opt f 0 (fsize f) F \<and> list_all (own_fds f) old) js
          \<and> sorted_wrt own_fds js)"

definition fresh_job :: "file_copy_job \<Rightarrow> file_copy_job" where
  "fresh_job f = f\<lparr>nBlockJobsScheduled := 0, nBlockJobsFinished := 0, nErrors := 0, active := True\<rparr>"

lemma fresh_job_simps [simp]:
  "nBlockJobsScheduled (fresh_job f) = 0" "nBlockJobsFinished (fresh_job f) = 0" "nErrors (fresh_job f) = 0"
  "active (fresh_job f)" "srcFd (fresh_job f) = srcFd f" "dstFd (fresh_job f) = dstFd f" "stx (fresh_job f) = stx f"
  "bsize (fresh_job f) = bsize f" "file_ok (fresh_job f) = file_ok f" "pristine opt (fresh_job f) lo hi F = pristine opt f lo hi F"
  by (simp_all add: fresh_job_def file_ok_def pristine_def)

text \<open>The active files and the completed ones.\<close>

definition old_files :: "file_copy_job list \<Rightarrow> copy_scheduler \<Rightarrow> file_copy_job set" where
  "old_files D s = set D \<union> {fileCopyJobs s ! i | i. i < nFileCopyJobs s \<and> active (fileCopyJobs s ! i)}"

lemma take_job_inv:
  assumes inv: "copy_inv whole D s sh" and i: "i < nFileCopyJobs s" "\<not> active (fileCopyJobs s ! i)"
    and f: "file_ok f" "whole \<Longrightarrow> srcFd f \<noteq> dstFd f \<and> pristine (opts sh) f 0 (fsize f) (files sh)"
    and own: "whole \<Longrightarrow> \<forall>g \<in> old_files D s. own_fds f g"
  shows "copy_inv whole D (put_file s i (fresh_job f)) sh"
proof -
  note c = copy_invD [OF inv]
  let ?s = "put_file s i (fresh_job f)"
  have l: "i < length (fileCopyJobs s)" using c(7) i(1) by simp
  have "file_inv (fileCopyJobs s ! i) i (slot s i) (block_at s)" by (rule jobs_inv_file [OF c(2) i(1)])
  then have q: "quiet s i" using i(2) by (simp add: file_inv_def quiet_def)
  show ?thesis
  proof (rule put_file_inv [OF inv i(1) q])
    have u: "{b \<in> slot s i. inUse (block_at s b)} = {}" using q by (auto simp: quiet_def)
    show "file_inv (fresh_job f) i (slot s i) (block_at s)"
      using f(1) q unfolding file_inv_def u by (simp add: quiet_def)
    show "file_data (opts sh) (fresh_job f) (slot s i) (block_at s) (mem sh) (files sh)" if whole
      using f(2) [OF that] q by (simp add: file_data_def quiet_def)
  next
    assume w: whole
    then have ap: "apart s" and dn: "done_ok D s (files sh)" using inv by (auto simp: copy_inv_def data_inv_def)
    have cur: "own_fds f (fileCopyJobs s ! j)" if "j < nFileCopyJobs s" "active (fileCopyJobs s ! j)" for j
      using own [OF w] that by (auto simp: old_files_def)
    have D: "own_fds f g" if "g \<in> set D" for g using own [OF w] that by (simp add: old_files_def)
    have "apart ?s"
      using ap cur l i unfolding apart_def own_fds_def put_simps by (auto simp: nth_list_update; metis)
    moreover have "done_ok D ?s (files sh)"
      using dn D l unfolding done_ok_def own_fds_def put_simps by (auto simp: nth_list_update)
    ultimately show "apart ?s \<and> done_ok D ?s (files sh)" by simp
  qed simp_all
qed

lemma fill_jobs_inv:
  assumes "copy_inv whole D s sh" "\<forall>i \<in> set is. i < nFileCopyJobs s"
    "list_all file_ok js"
    "whole \<Longrightarrow> list_all (\<lambda>f. srcFd f \<noteq> dstFd f \<and> pristine (opts sh) f 0 (fsize f) (files sh) \<and> (\<forall>g \<in> old_files D s. own_fds f g)) js"
    "whole \<Longrightarrow> sorted_wrt own_fds js"
    "fill_jobs is js s n = (s', n')"
  shows "copy_inv whole D s' sh \<and> nFileCopyJobs s' = nFileCopyJobs s
    \<and> nBlockCopyJobsPerFileCopyJob s' = nBlockCopyJobsPerFileCopyJob s \<and> cbBatch s' = cbBatch s \<and> ctx s' = ctx s"
  using assms
proof (induction "is" js s n rule: fill_jobs.induct)
  case (2 i ks js s n)
  show ?case
  proof (cases "active (fileCopyJobs s ! i)")
    case True
    then show ?thesis using 2 by simp
  next
    case False
    note inact = False
    show ?thesis
    proof (cases js)
      case Nil
      then show ?thesis using 2 inact by simp
    next
      case (Cons f rest)
      let ?s = "put_file s i (fresh_job f)"
      have i: "i < nFileCopyJobs s" "i < length (fileCopyJobs s)"
        using 2(4) copy_invD(7) [OF 2(3)] by auto
      have inv: "copy_inv whole D ?s sh"
        using 2(5-7) Cons by (intro take_job_inv [OF 2(3) i(1) inact]) simp_all
      have old: "old_files D ?s \<subseteq> insert (fresh_job f) (old_files D s)"
        using i(2) by (auto simp: old_files_def nth_list_update split: if_splits)
      have "own_fds g (fresh_job f)" if "own_fds f g" for g using that by (auto simp: own_fds_def)
      then have own: "\<forall>h \<in> old_files D ?s. own_fds g h" if whole "g \<in> set rest" for g
        using that 2(6,7) Cons old by (fastforce simp: list_all_iff)
      have "fill_jobs ks rest ?s (n + 1) = (s', n')" using 2(8) inact Cons by (simp add: fresh_job_def)
      moreover have "list_all (\<lambda>f. srcFd f \<noteq> dstFd f \<and> pristine (opts sh) f 0 (fsize f) (files sh)
          \<and> (\<forall>g \<in> old_files D ?s. own_fds f g)) rest" if whole
        using 2(6) [OF that] own [OF that] Cons by (auto simp: list_all_iff)
      ultimately show ?thesis
        using 2(1) [OF inact Cons] inv 2(4,5,7) Cons by (simp add: fresh_job_def)
    qed
  qed
qed simp


section \<open>Submission\<close>

text \<open>The invariant while a failed batch is taken apart.\<close>

definition torn :: "nat list \<Rightarrow> copy_scheduler \<Rightarrow> shared_state \<Rightarrow> bool" where
  "torn batch s sh \<longleftrightarrow> jobs_inv s \<and> queue_inv batch s \<and> clean s \<and> bufs s sh"

lemma busy_block:
  assumes "jobs_inv s" "b < length (blockCopyJobs s)" "busy (block_at s b)"
  obtains i where "i < nFileCopyJobs s" "b \<in> slot s i" "inUse (block_at s b)" "parent (block_at s b) = Some i"
    "active (fileCopyJobs s ! i)" "cb (block_at s b) = request_of (fileCopyJobs s ! i) (block_at s b)"
    "rw_type (block_at s b) \<noteq> FINISH" "0 < nBlockJobsScheduled (fileCopyJobs s ! i)"
proof -
  have "b < nBlockCopyJobsPerFileCopyJob s * nFileCopyJobs s" using assms(1,2) by (simp add: jobs_inv_def)
  then obtain i where i: "i < nFileCopyJobs s" "b \<in> slot s i" by (rule slot_cover)
  have u: "inUse (block_at s b)" "status (block_at s b) = EINPROGRESS" using assms(3) by (simp_all add: busy_def)
  note us = used_scheduled [OF assms(1) i u(1)]
  show ?thesis using that [OF i u(1)] us u(2) by (simp add: block_ok_def)
qed

lemma fail_request_inv:
  assumes t: "torn (b # batch) s sh" and r: "fail_request b (s, sh) = (s', sh')"
  shows "torn batch s' sh' \<and> kept_all s sh s' sh'"
proof -
  have j: "jobs_inv s" and q: "queue_inv (b # batch) s" and cl: "clean s" and B: "bufs s sh"
    using t by (auto simp: torn_def)
  have b: "b < length (blockCopyJobs s)" "busy (block_at s b)" using queue_inv_set [OF q, of b] by auto
  obtain i where i: "i < nFileCopyJobs s" "b \<in> slot s i" "inUse (block_at s b)" "parent (block_at s b) = Some i"
    "active (fileCopyJobs s ! i)" "0 < nBlockJobsScheduled (fileCopyJobs s ! i)" by (rule busy_block [OF j b])
  let ?f = "fileCopyJobs s ! i" and ?x = "zero_block_job\<lparr>data := NULL\<rparr>"
  have l: "i < length (fileCopyJobs s)" using j i(1) by (simp add: jobs_inv_def)
  obtain sh1 x1 where c: "schedulerClearBlockCopyJob sh ?f (block_at s b) False = (sh1, x1)" by fastforce
  have x1: "x1 = ?x" using clear_block [of sh ?f "block_at s b" False] c by simp
  note ab = active_bounds(4-6) [OF j i(1,5)]
  have cnt: "?f\<lparr>nBlockJobsScheduled := dec64 (nBlockJobsScheduled ?f), nBlockJobsFinished := inc64 (nBlockJobsFinished ?f),
      nErrors := inc64 (nErrors ?f)\<rparr> = counted ?f 1"
    using ab(1,2) ab(3) [OF i(6)] by (simp add: counted_def)
  have s': "s' = put_file (put_block s b ?x) i (counted ?f 1)" "sh' = sh1"
    using r unfolding fail_request_def Let_def prod.case block_at_def [symmetric] i(4) option.sel c cnt x1 by simp_all
  note w = clear_block_world [OF c]
  have "jobs_inv s'" unfolding s'(1) by (rule jobs_inv_release [OF j i(1-3)]) simp_all
  moreover have "queue_inv batch s'"
    unfolding s'(1) using queue_inv_drop [OF q, of ?x] by (subst queue_inv_same [of _ "put_block s b ?x"]) simp_all
  moreover have "clean s'" using clean_put [OF cl b(1), of ?x] by (simp add: s'(1) clean_def)
  moreover have "bufs (put_block s b ?x) sh'"
    using w(2) s'(2) by (intro bufs_release [OF B j b(1)]) simp_all
  then have "bufs s' sh'"
  proof (rule bufs_cong)
    show "bsize (fileCopyJobs s' ! k) = bsize (fileCopyJobs (put_block s b ?x) ! k)" for k
      using l by (cases "k = i") (simp_all add: s'(1))
  qed (use j in \<open>simp_all add: s'(1) jobs_inv_def\<close>)
  moreover have "local_step i b s s'" unfolding s'(1) by (rule local_step_put [OF _ l]) simp
  then have "kept i b s sh s' sh'" using w(1) by (simp add: kept_def same_world_def s'(2))
  ultimately show ?thesis using kept_kept_all by (simp add: torn_def)
qed

lemma fail_batch_inv:
  assumes "torn batch s sh" "fold fail_request batch (s, sh) = (s', sh')"
  shows "torn [] s' sh' \<and> kept_all s sh s' sh'"
  using assms
proof (induction batch arbitrary: s sh)
  case (Cons b batch)
  obtain t sh1 where t: "fail_request b (s, sh) = (t, sh1)" by fastforce
  have "torn batch t sh1 \<and> kept_all s sh t sh1" by (rule fail_request_inv [OF Cons.prems(1) t])
  then show ?case using Cons.IH [of t sh1] Cons.prems(2) t kept_all_trans by auto
qed simp

lemma copy_inv_requeue:
  assumes "copy_inv whole D s sh" "like s s'" "queue_inv (cbBatch s') s'"
  shows "copy_inv whole D s' sh"
proof -
  have "jobs_inv s'" using copy_invD(2) [OF assms(1)] assms(2) by (subst jobs_inv_same [of _ s]) (simp_all add: like_def)
  then show ?thesis using assms by (simp add: copy_inv_def sched_ok_def like_inv)
qed

lemma submit_queue:
  assumes "queue_inv (cbBatch s) s"
    "s' = s\<lparr>ctx := ctx s @ map (\<lambda>b. (b, cb (blockCopyJobs s ! b))) (take n (cbBatch s)), cbBatch := drop n (cbBatch s)\<rparr>"
  shows "queue_inv (cbBatch s') s'"
proof -
  define new where "new = map (\<lambda>b. (b, cb (block_at s b))) (take n (cbBatch s))"
  have b: "block_at s' = block_at s" "blockCopyJobs s' = blockCopyJobs s" by (simp_all add: assms(2) block_at_def fun_eq_iff)
  have s': "cbBatch s' = drop n (cbBatch s)" "ctx s' = ctx s @ new" by (simp_all add: assms(2) new_def block_at_def)
  have m: "map fst new = take n (cbBatch s)" by (simp add: new_def comp_def)
  then have fst: "fst ` set new = set (take n (cbBatch s))" by (metis list.set_map)
  have split: "distinct (cbBatch s) \<longleftrightarrow> distinct (take n (cbBatch s)) \<and> distinct (drop n (cbBatch s))
      \<and> set (take n (cbBatch s)) \<inter> set (drop n (cbBatch s)) = {}"
    "set (cbBatch s) = set (take n (cbBatch s)) \<union> set (drop n (cbBatch s))"
    by (metis append_take_drop_id distinct_append) (metis append_take_drop_id set_append)
  have "\<forall>(c, d) \<in> set new. d = cb (block_at s c)" by (auto simp: new_def)
  then show ?thesis
    using assms(1) unfolding queue_inv_def b s' map_append m set_append image_Un fst distinct_append split
    by (auto simp: ball_Un)
qed

lemma submit_inv:
  assumes inv: "copy_inv whole D s sh" and n: "whole \<longrightarrow> 0 \<le> n" and r: "schedIOSubmitBatch n s sh = (rc, s', sh')"
  shows "copy_inv whole D s' sh' \<and> nFileCopyJobs s' = nFileCopyJobs s
    \<and> nBlockCopyJobsPerFileCopyJob s' = nBlockCopyJobsPerFileCopyJob s
    \<and> opts sh' = opts sh \<and> finishQueue sh' = finishQueue sh"
proof -
  note c = copy_invD [OF inv]
  consider (empty) "cbBatch s = []" | (failed) "cbBatch s \<noteq> []" "n < 0" | (ok) "cbBatch s \<noteq> []" "0 \<le> n" by linarith
  then show ?thesis
  proof cases
    case empty
    then have s': "s' = s\<lparr>cbBatch := []\<rparr>" "sh' = sh" using r by (simp_all add: schedIOSubmitBatch_def)
    have "queue_inv [] s'" using c(3) empty by (subst queue_inv_same [of _ s]) (simp_all add: s')
    then have "copy_inv whole D s' sh"
      by (intro copy_inv_requeue [OF inv]) (simp_all add: s' like_def)
    then show ?thesis by (simp add: s')
  next
    case failed
    obtain t sh1 where t: "fold fail_request (cbBatch s) (s, sh) = (t, sh1)" by fastforce
    have s': "s' = t\<lparr>cbBatch := []\<rparr>" "sh' = sh1"
      using r failed by (simp_all add: schedIOSubmitBatch_def t)
    have "torn (cbBatch s) s sh" using c by (simp add: torn_def)
    then have *: "torn [] t sh1" "kept_all s sh t sh1" using fail_batch_inv [OF _ t] by auto
    have l: "like t s'" by (simp add: s' like_def)
    have "queue_inv [] s'" using *(1) by (subst queue_inv_same [of _ t]) (simp_all add: s' torn_def)
    moreover have "jobs_inv s'" using *(1) by (subst jobs_inv_same [of _ t]) (simp_all add: s' torn_def)
    moreover have "cbBatch s' = []" by (simp add: s')
    ultimately have "copy_inv whole D s' sh'"
      using *(1) n failed by (simp add: copy_inv_def sched_ok_def like_inv [OF l] torn_def s'(2))
    then show ?thesis using *(2) by (simp add: s' kept_all_def)
  next
    case ok
    then have s': "s' = s\<lparr>ctx := ctx s @ map (\<lambda>b. (b, cb (blockCopyJobs s ! b))) (take (nat n) (cbBatch s)),
        cbBatch := drop (nat n) (cbBatch s)\<rparr>" "sh' = sh"
      using r by (simp_all add: schedIOSubmitBatch_def Let_def)
    have "copy_inv whole D s' sh"
      using submit_queue [OF c(3) s'(1)] by (intro copy_inv_requeue [OF inv]) (simp_all add: s' like_def)
    then show ?thesis by (simp add: s')
  qed
qed

end
