(* ===== verification/Copy_Deliver.thy ===== *)
theory Copy_Deliver
  imports Copy_Update
begin

text \<open>
  The delivery of completed requests, and the whole update of a scheduler.
\<close>

section \<open>Delivery\<close>

lemma take_request_some:
  assumes "take_request b C = Some (c, rest)" "distinct (map fst C)"
  shows "(b, c) \<in> set C" "distinct (map fst rest)" "fst ` set rest = fst ` set C - {b}" "set rest \<subseteq> set C"
proof -
  have "(b, c) \<in> set C \<and> distinct (map fst rest) \<and> fst ` set rest = fst ` set C - {b} \<and> set rest \<subseteq> set C"
    using assms
  proof (induction C arbitrary: rest)
    case (Cons p C)
    obtain b' c' where p: "p = (b', c')" by fastforce
    show ?case
    proof (cases "b = b'")
      case True
      then have "c' = c" "rest = C" using Cons.prems(1) by (simp_all add: p)
      moreover have "b \<notin> fst ` set C" using Cons.prems(2) True by (simp add: p)
      ultimately show ?thesis using Cons.prems(2) True by (simp add: p subset_insertI)
    next
      case False
      then obtain r where r: "take_request b C = Some (c, r)" "rest = (b', c') # r"
        using Cons.prems(1) p by (auto simp: map_option_case split: option.splits)
      moreover have "b' \<notin> fst ` set C" "distinct (map fst C)" using Cons.prems(2) by (simp_all add: p)
      moreover note Cons.IH [OF r(1) this(2)]
      ultimately show ?thesis using False by (simp add: p insert_Diff_if subset_insertI2)
    qed
  qed simp
  then show "(b, c) \<in> set C" "distinct (map fst rest)" "fst ` set rest = fst ` set C - {b}" "set rest \<subseteq> set C" by simp_all
qed

text \<open>Requests complete; none is answered with the number that means in progress.\<close>

definition event_ok :: "bool \<Rightarrow> io_event \<Rightarrow> bool" where
  "event_ok whole ev \<longleftrightarrow> snd ev \<noteq> Res (- EINPROGRESS) \<and> (whole \<longrightarrow> snd ev = Whole)"

definition done_status :: "iocb \<Rightarrow> int \<Rightarrow> int" where
  "done_status c n = (if n \<le> 0 then - n else if n \<noteq> int (cb_nbytes c) then EIO else 0)"

lemma run_callback_status:
  "cb_done (cb x) = RD_DONE \<or> cb_done (cb x) = WR_DONE \<Longrightarrow>
    run_callback (cb_done (cb x)) x n = x\<lparr>status := done_status (cb x) n\<rparr>"
  by (auto simp: run_callback_def rd_done_def wr_done_def done_status_def Let_def)

lemma done_status_result:
  "0 < cb_nbytes c \<Longrightarrow> done_status c (result_of c Whole) = 0"
  "r \<noteq> Res (- EINPROGRESS) \<Longrightarrow> done_status c (result_of c r) \<noteq> EINPROGRESS"
  by (cases r; auto simp: done_status_def result_of_def EINPROGRESS_def EIO_def)+

lemma request_fields:
  assumes "rw_type x \<noteq> FINISH"
  shows "cb_done (request_of f x) = RD_DONE \<or> cb_done (request_of f x) = WR_DONE"
    "cb_buf (request_of f x) = data x" "cb_offset (request_of f x) = offset x"
    "cb_nbytes (request_of f x) = (if rw_type x = WRITE then alignUp (nbytes x) DIRECT_IO_ALIGN else nbytes x)"
    "cb_op (request_of f x) = (if rw_type x = WRITE then PWRITE else PREAD)"
    "cb_fd (request_of f x) = (if rw_type x = READ then srcFd f else dstFd f)"
  using assms by (cases "rw_type x"; simp add: request_of_def io_prep_pread_def io_prep_pwrite_def)+

lemma queue_deliver:
  assumes "queue_inv batch s" "take_request b (ctx s) = Some (c, rest)" "\<not> busy x"
  shows "queue_inv batch (put_block (s\<lparr>ctx := rest\<rparr>) b x)" "busy (block_at s b)" "b < length (blockCopyJobs s)"
    "c = cb (block_at s b)"
proof -
  let ?s = "put_block (s\<lparr>ctx := rest\<rparr>) b x"
  have d: "distinct (map fst (ctx s))" using assms(1) by (simp add: queue_inv_def)
  note t = take_request_some [OF assms(2) d]
  have "b \<in> fst ` set (ctx s)" using t(1) by (metis fst_conv imageI)
  then show busy: "busy (block_at s b)" and b: "b < length (blockCopyJobs s)"
    using queue_inv_set [OF assms(1), of b] by auto
  show "c = cb (block_at s b)" using queue_inv_ctx [OF assms(1)] t(1) by auto
  have nb: "b \<notin> set batch" using assms(1) \<open>b \<in> fst ` set (ctx s)\<close> by (auto simp: queue_inv_def)
  have bx: "block_at ?s = (block_at s)(b := x)" "blockCopyJobs ?s = (blockCopyJobs s)[b := x]" "ctx ?s = rest"
    using b by (auto simp: block_at_def fun_eq_iff nth_list_update)
  have "{c. c < length (blockCopyJobs s) \<and> inUse (((block_at s)(b := x)) c) \<and> status (((block_at s)(b := x)) c) = EINPROGRESS}
      = {c. c < length (blockCopyJobs s) \<and> inUse (block_at s c) \<and> status (block_at s c) = EINPROGRESS} - {b}"
    using assms(3) by (auto simp: busy_def)
  moreover have "set batch \<union> fst ` set rest
      = {c. c < length (blockCopyJobs s) \<and> inUse (block_at s c) \<and> status (block_at s c) = EINPROGRESS} - {b}"
  proof -
    have "set batch \<union> fst ` set (ctx s)
        = {c. c < length (blockCopyJobs s) \<and> inUse (block_at s c) \<and> status (block_at s c) = EINPROGRESS}"
      using assms(1) by (simp add: queue_inv_def)
    moreover have "set batch - {b} = set batch" using nb by simp
    ultimately show ?thesis unfolding t(3) by (metis Un_Diff)
  qed
  moreover have "\<forall>(c, d) \<in> set rest. d = cb (((block_at s)(b := x)) c)"
    using t(3) subsetD [OF t(4)] queue_inv_ctx [OF assms(1)] by (intro ctx_frame) blast+
  moreover have "distinct (batch @ map fst rest)" using assms(1) t(2,3) by (auto simp: queue_inv_def)
  ultimately show "queue_inv batch ?s" unfolding queue_inv_def bx by simp
qed

lemma aio_read_frame: "cb_op c = PREAD \<Longrightarrow> mem (aio_effect c (int n) sh) a \<noteq> mem sh a \<Longrightarrow> cb_buf c \<le> a \<and> a < cb_buf c + n"
  by (simp add: aio_effect_def split: if_splits)

lemma aio_write_frame: "cb_op c = PWRITE \<Longrightarrow> files (aio_effect c (int n) sh) fd x \<noteq> files sh fd x \<Longrightarrow>
    fd = cb_fd c \<and> cb_offset c \<le> x \<and> x < cb_offset c + n"
  by (simp add: aio_effect_def split: if_splits)

lemma aio_same: "opts (aio_effect c n sh) = opts sh" "copybufferAllocator (aio_effect c n sh) = copybufferAllocator sh"
    "finishQueue (aio_effect c n sh) = finishQueue sh"
    "cb_op c = PREAD \<Longrightarrow> files (aio_effect c n sh) = files sh" "cb_op c = PWRITE \<Longrightarrow> mem (aio_effect c n sh) = mem sh"
  by (cases "cb_op c"; simp add: aio_effect_def)+

text \<open>A request that completes in whole brings the block to the end of its stage.\<close>

lemma stage_deliver:
  assumes st: "stage_ok opt f x (mem sh) (files sh)" and x: "rw_type x \<noteq> FINISH" "status x = EINPROGRESS"
    and n: "nbytes x \<le> alignUp (nbytes x) DIRECT_IO_ALIGN" and sd: "srcFd f \<noteq> dstFd f"
    and sh': "sh' = aio_effect (request_of f x) (int (cb_nbytes (request_of f x))) sh"
  shows "stage_ok opt f (x\<lparr>status := 0\<rparr>) (mem sh') (files sh')"
proof -
  note rf = request_fields [OF x(1), of f]
  show ?thesis
  proof (cases "rw_type x")
    case READ
    have F: "files sh' = files sh" using READ rf(5) by (simp add: sh' aio_same)
    have "mem sh' (data x + d) = files sh (srcFd f) (offset x + d)" if "d < nbytes x" for d
      using READ rf(2-6) that by (simp add: sh' aio_effect_def)
    then have "in_buf f (x\<lparr>status := 0\<rparr>) (mem sh') (files sh')" by (simp add: in_buf_def F)
    then show ?thesis using st READ by (simp add: stage_ok_def F)
  next
    case WRITE
    have src: "files sh' (srcFd f) = files sh (srcFd f)"
      using WRITE rf(5,6) sd by (auto simp: sh' aio_effect_def)
    have "files sh' (dstFd f) (offset x + d) = mem sh (data x + d)" if "d < nbytes x" for d
      using WRITE rf(2-6) that n by (simp add: sh' aio_effect_def)
    moreover have "in_buf f x (mem sh) (files sh)" using st WRITE x(2) by (simp add: stage_ok_def EINPROGRESS_def)
    ultimately have "in_file f (x\<lparr>status := 0\<rparr>) (files sh')" by (simp add: in_file_def in_buf_def src)
    then show ?thesis using WRITE by (simp add: stage_ok_def)
  next
    case READDST
    have F: "files sh' = files sh" using READDST rf(5) by (simp add: sh' aio_same)
    then show ?thesis using st READDST by (simp add: stage_ok_def in_file_def)
  qed (use x in simp)
qed

lemma io_deliver_inv:
  assumes inv: "copy_inv whole D s sh" and ev: "event_ok whole ev" and r: "io_deliver ev (s, sh) = (s', sh')"
  shows "copy_inv whole D s' sh' \<and> nFileCopyJobs s' = nFileCopyJobs s
    \<and> nBlockCopyJobsPerFileCopyJob s' = nBlockCopyJobsPerFileCopyJob s
    \<and> opts sh' = opts sh \<and> finishQueue sh' = finishQueue sh"
proof -
  note c = copy_invD [OF inv]
  obtain b rs where e: "ev = (b, rs)" by fastforce
  show ?thesis
  proof (cases "take_request b (ctx s)")
    case None
    then have "s' = s" "sh' = sh" using r by (simp_all add: io_deliver_def e)
    then show ?thesis using inv by simp
  next
    case (Some q)
    then obtain k rest where t: "take_request b (ctx s) = Some (k, rest)" by (metis prod.collapse)
    define n where "n = result_of k rs"
    note qd = queue_deliver [OF c(3) t]
    have busy: "busy (block_at s b)" "b < length (blockCopyJobs s)" "k = cb (block_at s b)"
      using qd(2-4) [of zero_block_job] by (simp_all add: busy_def zero_block_job_def)
    obtain i where i: "i < nFileCopyJobs s" "b \<in> slot s i" "inUse (block_at s b)"
      "cb (block_at s b) = request_of (fileCopyJobs s ! i) (block_at s b)" "rw_type (block_at s b) \<noteq> FINISH"
      "active (fileCopyJobs s ! i)" by (rule busy_block [OF c(2) busy(2,1)])
    let ?f = "fileCopyJobs s ! i" and ?x = "block_at s b"
    have k: "k = request_of ?f ?x" using busy(3) i(4) by simp
    note rf = request_fields [OF i(5), of ?f, folded k]
    note u = used_facts [OF inv i(1-3)]
    define err where "err = done_status k n"
    have x': "run_callback (cb_done k) ?x n = ?x\<lparr>status := err\<rparr>"
      using run_callback_status [of ?x n] rf(1) busy(3) by (simp add: err_def)
    have err: "rs \<noteq> Res (- EINPROGRESS) \<Longrightarrow> err \<noteq> EINPROGRESS" "rs = Whole \<Longrightarrow> 0 < cb_nbytes k \<Longrightarrow> err = 0"
      unfolding err_def n_def by (rule done_status_result(2)) (simp_all add: done_status_result(1))
    define y where "y = ?x\<lparr>status := err\<rparr>"
    have s': "s' = put_block (s\<lparr>ctx := rest\<rparr>) b y" "sh' = aio_effect k n sh"
      using r x' unfolding io_deliver_def e prod.case Let_def t option.case n_def [symmetric] y_def [symmetric]
      by (simp_all add: block_at_def)
    have sb: "same_block ?x y" by (simp add: same_block_def y_def)
    have ny: "\<not> busy y" using err(1) ev by (simp add: busy_def y_def event_ok_def e)
    have yb: "same_block (block_at s b) y" by (rule sb)
    have "sched_ok s'"
    proof -
      have "block_ok ?f i y" using u(2) ny i(3) by (auto simp: block_ok_def y_def busy_def)
      then have "jobs_inv (put_file (put_block s b y) i ?f)"
        using jobs_inv_file [OF c(2) i(1)] i(2,3)
        by (intro jobs_inv_put [OF c(2) i(1,2)] file_inv_progress) (simp_all add: y_def)
      moreover have "put_file (put_block s b y) i ?f = put_block s b y"
        using put_file_same [of i "put_block s b y"] c(7) i(1) by simp
      ultimately have "jobs_inv s'" by (subst jobs_inv_same [of _ "put_block s b y"]) (simp_all add: s'(1))
      moreover have "cbBatch s' = cbBatch s" by (simp add: s'(1))
      ultimately show ?thesis using qd(1) [OF ny] by (simp add: sched_ok_def s'(1))
    qed
    have N: "n = int (cb_nbytes k)" "0 < cb_nbytes k" "cb_nbytes k \<le> bsize ?f" "err = 0" if whole
    proof -
      have w: "rs = Whole" using ev that by (simp add: event_ok_def e)
      then show "n = int (cb_nbytes k)" by (simp add: n_def result_of_def)
      show "0 < cb_nbytes k" "cb_nbytes k \<le> bsize ?f" using rf(4) u(6-9) by auto
      then show "err = 0" using err(2) w by simp
    qed
    have "copy_inv whole D s' sh'"
    proof (rule progress_inv [OF inv i(1-3) yb \<open>sched_ok s'\<close>])
      show "like (put_block s b y) s'" by (simp add: like_def s'(1))
      show "opts sh' = opts sh" "copybufferAllocator sh' = copybufferAllocator sh" by (simp_all add: s'(2) aio_same)
    next
      fix a assume w: whole and a: "mem sh' a \<noteq> mem sh a"
      then have "cb_op k = PREAD" using aio_same(5) [of k n sh] by (cases "cb_op k") (auto simp: s'(2))
      then have "cb_buf k \<le> a \<and> a < cb_buf k + cb_nbytes k"
        using aio_read_frame a N(1) [OF w] by (simp add: s'(2))
      then show "data ?x \<le> a \<and> a < data ?x + bsize ?f" using rf(2) N(3) [OF w] by simp
    next
      assume w: whole
      show "outside_block ?f (offset y) (files sh) (files sh')"
      proof (cases "cb_op k")
        case PREAD
        then show ?thesis using aio_same(4) by (simp add: s'(2))
      next
        case PWRITE
        then have "rw_type ?x = WRITE" using rf(5) by (auto split: if_splits)
        then have fd: "cb_fd k = dstFd ?f" "offset y = cb_offset k" using rf(3,6) by (simp_all add: y_def)
        have *: "fd = dstFd ?f \<and> offset y \<le> z \<and> z < offset y + bsize ?f" if "files sh' fd z \<noteq> files sh fd z" for fd z
          using aio_write_frame [OF PWRITE, of "cb_nbytes k" sh fd z] that fd N(1,3) [OF w] by (simp add: s'(2))
        show ?thesis
          unfolding outside_block_def using * by (meson ext not_le)
      qed
    next
      assume w: whole and st: "stage_ok (opts sh) ?f ?x (mem sh) (files sh)"
      have "file_data (opts sh) ?f (slot s i) (block_at s) (mem sh) (files sh)"
        using inv w i(1) by (simp add: copy_inv_def data_inv_def)
      then have "srcFd ?f \<noteq> dstFd ?f" using i(6) by (simp add: file_data_def)
      moreover have "status ?x = EINPROGRESS" using busy(1) by (simp add: busy_def)
      moreover have "sh' = aio_effect (request_of ?f ?x) (int (cb_nbytes (request_of ?f ?x))) sh"
        using N(1) [OF w] k by (simp add: s'(2))
      ultimately show "stage_ok (opts sh) ?f y (mem sh') (files sh')"
        using stage_deliver [OF st i(5) _ u(9)] N(4) [OF w] by (simp add: y_def)
    qed
    then show ?thesis by (simp add: s' aio_same)
  qed
qed


lemma copy_inv_world:
  assumes "copy_inv whole D s sh" "same_world sh sh'" "copybufferAllocator sh' = copybufferAllocator sh"
  shows "copy_inv whole D s sh'"
  using assms data_inv_world [OF _ assms(2)] by (simp add: copy_inv_def bufs_def)

text \<open>What the rest of an update may do: it submits and delivers.\<close>

definition same_shape :: "copy_scheduler \<Rightarrow> shared_state \<Rightarrow> copy_scheduler \<Rightarrow> shared_state \<Rightarrow> bool" where
  "same_shape s sh s' sh' \<longleftrightarrow> nFileCopyJobs s' = nFileCopyJobs s
    \<and> nBlockCopyJobsPerFileCopyJob s' = nBlockCopyJobsPerFileCopyJob s
    \<and> opts sh' = opts sh \<and> finishQueue sh' = finishQueue sh"

lemma deliver_inv:
  assumes "copy_inv whole D s sh" "list_all (event_ok whole) evs" "io_queue_run_timeout evs (s, sh) = (s', sh')"
  shows "copy_inv whole D s' sh' \<and> same_shape s sh s' sh'"
  using assms unfolding io_queue_run_timeout_def
proof (induction evs arbitrary: s sh)
  case Nil
  then show ?case by (simp add: same_shape_def)
next
  case (Cons ev evs)
  obtain t sh1 where t: "io_deliver ev (s, sh) = (t, sh1)" by fastforce
  have ev: "event_ok whole ev" using Cons.prems(2) by simp
  note d = io_deliver_inv [OF Cons.prems(1) ev t]
  have "fold io_deliver evs (t, sh1) = (s', sh')" using Cons.prems(3) t by simp
  from Cons.IH [OF conjunct1 [OF d] _ this] have "copy_inv whole D s' sh' \<and> same_shape t sh1 s' sh'"
    using Cons.prems(2) by simp
  then show ?case using d by (simp add: same_shape_def)
qed

lemma tick_inv:
  assumes inv: "copy_inv whole D s sh" and ok: "list_all (event_ok whole) (r_events r)" "whole \<longrightarrow> 0 \<le> r_submit r"
    and r: "schedulerTick r s sh = (rc, s', sh')"
  shows "copy_inv whole D s' sh' \<and> same_shape s sh s' sh'"
proof -
  obtain rc1 t sh1 where t: "schedIOSubmitBatch (r_submit r) s sh = (rc1, t, sh1)" by (metis prod.collapse)
  note si = submit_inv [OF inv ok(2) t]
  show ?thesis
  proof (cases "rc1 = 0")
    case True
    obtain u sh2 where u: "io_queue_run_timeout (r_events r) (t, sh1) = (u, sh2)" by fastforce
    have "s' = u" "sh' = sh2" using r t u True by (simp_all add: schedulerTick_def)
    then show ?thesis using deliver_inv [OF conjunct1 [OF si] ok(1) u] si by (simp add: same_shape_def)
  next
    case False
    then have "s' = t" "sh' = sh1" using r t by (simp_all add: schedulerTick_def)
    then show ?thesis using si by (simp add: same_shape_def)
  qed
qed

section \<open>The update\<close>

definition active_files :: "copy_scheduler \<Rightarrow> file_copy_job list" where
  "active_files s = filter active (fileCopyJobs s)"

definition replies_ok :: "bool \<Rightarrow> replies \<Rightarrow> copy_scheduler \<Rightarrow> shared_state \<Rightarrow> bool" where
  "replies_ok whole r s sh \<longleftrightarrow> jobs_ok whole (opts sh) (files sh) (active_files s) (r_jobs r)
     \<and> list_all (event_ok whole) (r_events r) \<and> (whole \<longrightarrow> 0 \<le> r_submit r)"

lemma old_files_carried:
  assumes "carried D s sh u sh2" "length (fileCopyJobs s) = nFileCopyJobs s" "h \<in> old_files D u"
    "list_all (own_fds f) (active_files s)"
  shows "own_fds f h"
proof -
  have own: "own_fds f (fileCopyJobs s ! j)" if "j < nFileCopyJobs s" "active (fileCopyJobs s ! j)" for j
    using assms(2,4) that by (simp add: active_files_def list_all_iff)
  have eq: "own_fds f h" if "own_fds f g" "srcFd h = srcFd g" "dstFd h = dstFd g" for g
    using that by (simp add: own_fds_def)
  from assms(3) consider "h \<in> set D" | j where "h = fileCopyJobs u ! j" "j < nFileCopyJobs s" "active (fileCopyJobs u ! j)"
    using assms(1) by (auto simp: old_files_def carried_def)
  then show ?thesis
  proof cases
    case 1
    then obtain j where "j < nFileCopyJobs s" "active (fileCopyJobs s ! j)"
      "srcFd h = srcFd (fileCopyJobs s ! j)" "dstFd h = dstFd (fileCopyJobs s ! j)"
      using assms(1) unfolding carried_def by blast
    then show ?thesis using own eq by blast
  next
    case (2 j)
    then have "same_file (fileCopyJobs s ! j) h" using assms(1) by (simp add: carried_def)
    then show ?thesis using own [of j] eq 2 by (simp add: same_file_def)
  qed
qed

lemma schedulerUpdate_inv:
  assumes inv: "copy_inv whole [] s sh" and ok: "replies_ok whole r s sh"
    and r: "schedulerUpdate xxh r s sh = (rc, s', sh')"
  shows "\<exists>D. copy_inv whole D s' sh' \<and> finishQueue sh' = finishQueue sh @ D \<and> nFileCopyJobs s' = nFileCopyJobs s
    \<and> nBlockCopyJobsPerFileCopyJob s' = nBlockCopyJobsPerFileCopyJob s \<and> opts sh' = opts sh"
proof -
  obtain t sh1 where t: "fold (update_file xxh) [0..<nFileCopyJobs s] (s, sh) = (t, sh1)" by fastforce
  obtain u sh2 where u: "fold complete_or_schedule [0..<nFileCopyJobs s] (t, sh1) = (u, sh2)" by fastforce
  define n where "n = length (filter (\<lambda>i. active (fileCopyJobs u ! i)) [0..<nFileCopyJobs s])"
  obtain v m where v: "fill_jobs [0..<nFileCopyJobs s] (r_jobs r) u n = (v, m)" by fastforce
  define sh3 where "sh3 = sh2\<lparr>schedulerIterations := inc64 (schedulerIterations sh2)\<rparr>"
  obtain rc4 w sh4 where w: "schedulerTick r v sh3 = (rc4, w, sh4)" by (metis prod.collapse)
  have r': "(if m = 0 \<and> crawlDone sh3 then (0, v, sh3) else (EINPROGRESS, w, sh4)) = (rc, s', sh')"
    using r unfolding schedulerUpdate_def Let_def t prod.case u n_def [symmetric] v sh3_def [symmetric] w by simp
  have "goes_on whole [] s sh (t, sh1)" using update_files_inv [OF inv, of xxh] by (simp add: t)
  then have "copy_inv whole [] t sh1" "carried [] s sh t sh1" by (auto simp: goes_on_def kept_carried)
  from complete_all_inv [OF this _ u] obtain D where D: "copy_inv whole D u sh2" "carried D s sh u sh2" by auto
  have cd: "nFileCopyJobs u = nFileCopyJobs s" "nBlockCopyJobsPerFileCopyJob u = nBlockCopyJobsPerFileCopyJob s"
    "opts sh2 = opts sh" "files sh2 = files sh" "finishQueue sh2 = finishQueue sh @ D" using D(2) by (auto simp: carried_def)
  have ev: "list_all (event_ok whole) (r_events r)" "whole \<longrightarrow> 0 \<le> r_submit r" using ok by (auto simp: replies_ok_def)
  have len: "length (fileCopyJobs s) = nFileCopyJobs s" by (rule copy_invD(7) [OF inv])
  have "copy_inv whole D v sh2 \<and> nFileCopyJobs v = nFileCopyJobs u
    \<and> nBlockCopyJobsPerFileCopyJob v = nBlockCopyJobsPerFileCopyJob u \<and> cbBatch v = cbBatch u \<and> ctx v = ctx u"
  proof (rule fill_jobs_inv [OF D(1) _ _ _ _ v])
    show "\<forall>i \<in> set [0..<nFileCopyJobs s]. i < nFileCopyJobs u" by (simp add: cd)
    show "list_all file_ok (r_jobs r)" using ok by (simp add: replies_ok_def jobs_ok_def)
    show "sorted_wrt own_fds (r_jobs r)" if whole using ok that by (simp add: replies_ok_def jobs_ok_def)
    show "list_all (\<lambda>f. srcFd f \<noteq> dstFd f \<and> pristine (opts sh2) f 0 (fsize f) (files sh2)
        \<and> (\<forall>g \<in> old_files D u. own_fds f g)) (r_jobs r)" if whole
      using ok that old_files_carried [OF D(2) len] unfolding cd
      by (simp add: replies_ok_def jobs_ok_def list_all_iff)
  qed
  then have v2: "copy_inv whole D v sh2" and V: "nFileCopyJobs v = nFileCopyJobs s"
    "nBlockCopyJobsPerFileCopyJob v = nBlockCopyJobsPerFileCopyJob s"
    by (simp_all add: cd)
  note V = copy_inv_world [OF v2, of sh3] V
  have V: "copy_inv whole D v sh3" "nFileCopyJobs v = nFileCopyJobs s"
    "nBlockCopyJobsPerFileCopyJob v = nBlockCopyJobsPerFileCopyJob s"
    using V by (simp_all add: same_world_def sh3_def)
  have X: "copy_inv whole D w sh4 \<and> same_shape v sh3 w sh4" by (rule tick_inv [OF V(1) ev w])
  have "(s' = v \<and> sh' = sh3) \<or> (s' = w \<and> sh' = sh4)" using r' by (auto split: if_splits)
  then show ?thesis
  proof
    assume "s' = v \<and> sh' = sh3"
    then show ?thesis using V by (intro exI [of _ D]) (simp add: sh3_def cd)
  next
    assume "s' = w \<and> sh' = sh4"
    then show ?thesis using V X by (intro exI [of _ D]) (simp add: same_shape_def sh3_def cd)
  qed
qed

end
