(* ===== verification/Copy_Properties.thy ===== *)
theory Copy_Properties
  imports Copy_Deliver Buddy_Properties
begin

text \<open>
  What holds in every state that a scheduler thread reaches while other threads share its allocator,
  memory and queues, with one run on concrete inputs.
\<close>

section \<open>Reachable states\<close>

text \<open>
  The other threads may do anything to the shared state but touch what the scheduler owns: the blocks
  it holds of the arena, the memory of the buffers in use, the two files of an active job.
\<close>

definition env_step :: "copy_scheduler \<Rightarrow> shared_state \<Rightarrow> shared_state \<Rightarrow> bool" where
  "env_step s sh sh' \<longleftrightarrow> opts sh' = opts sh
     \<and> (\<exists>a a'. copybufferAllocator sh = Some a \<and> copybufferAllocator sh' = Some a' \<and> arena_inv a'
          \<and> (\<forall>b \<in> held s. \<forall>n. (data (block_at s b), n) \<in> block_addresses a \<longrightarrow> (data (block_at s b), n) \<in> block_addresses a'))
     \<and> (\<forall>i < nFileCopyJobs s. \<forall>b \<in> slot s i. inUse (block_at s b) \<longrightarrow>
          (\<forall>d < bsize (fileCopyJobs s ! i). mem sh' (data (block_at s b) + d) = mem sh (data (block_at s b) + d)))
     \<and> (\<forall>i < nFileCopyJobs s. active (fileCopyJobs s ! i) \<longrightarrow>
          files sh' (srcFd (fileCopyJobs s ! i)) = files sh (srcFd (fileCopyJobs s ! i))
          \<and> files sh' (dstFd (fileCopyJobs s ! i)) = files sh (dstFd (fileCopyJobs s ! i)))"

inductive sched_reach :: "(8 word list \<Rightarrow> nat) \<Rightarrow> bool \<Rightarrow> copy_scheduler \<Rightarrow> shared_state \<Rightarrow> bool"
  for xxh :: "8 word list \<Rightarrow> nat" and whole :: bool where
  create: "createScheduler 0 nF nB = (0, s) \<Longrightarrow> copybufferAllocator sh = Some a \<Longrightarrow> arena_inv a \<Longrightarrow> sched_reach xxh whole s sh"
| update: "sched_reach xxh whole s sh \<Longrightarrow> replies_ok whole r s sh \<Longrightarrow> schedulerUpdate xxh r s sh = (rc, s', sh') \<Longrightarrow>
    sched_reach xxh whole s' sh'"
| others: "sched_reach xxh whole s sh \<Longrightarrow> env_step s sh sh' \<Longrightarrow> sched_reach xxh whole s sh'"

lemma create_inv:
  assumes "createScheduler n nF nB = (0, s)" "copybufferAllocator sh = Some a" "arena_inv a"
  shows "copy_inv whole [] s sh"
proof -
  have s: "s = \<lparr>sched_done = False, nFileCopyJobs = nF, nBlockCopyJobsPerFileCopyJob = nB,
            fileCopyJobs = replicate nF zero_file_job, blockCopyJobs = replicate (nB * nF) zero_block_job,
            cbBatch = [], ctx = []\<rparr>" using assms(1) by (simp add: createScheduler_def Let_def split: if_splits)
  have b: "block_at s b = zero_block_job" if "b < nB * nF" for b using that by (simp add: s block_at_def)
  have sb: "b < nB * nF" if "i < nF" "b \<in> slot s i" for i b using slot_bound [of b s i] that by (simp add: s)
  have z: "\<not> inUse zero_block_job" "data zero_block_job = NULL" "\<not> active zero_file_job"
    by (simp_all add: zero_block_job_def zero_file_job_def)
  have f: "fileCopyJobs s ! i = zero_file_job" if "i < nF" for i using that by (simp add: s)
  have "jobs_inv s" unfolding jobs_inv_def file_inv_def using sb b z f by (simp add: s)
  moreover have "queue_inv (cbBatch s) s" using b z by (auto simp: queue_inv_def s)
  moreover have "clean s" using b z by (simp add: clean_def s)
  moreover have "held s = {}" using b z by (auto simp: held_def s)
  then have "bufs s sh" unfolding bufs_def using assms(2,3) sb b z by (simp add: s)
  moreover have "data_inv [] s sh" unfolding data_inv_def file_data_def apart_def done_ok_def using f z by (simp add: s)
  ultimately show ?thesis by (simp add: copy_inv_def sched_ok_def)
qed

lemma env_inv:
  assumes inv: "copy_inv whole [] s sh" and e: "env_step s sh sh'"
  shows "copy_inv whole [] s sh'"
proof -
  note c = copy_invD [OF inv]
  obtain a a' where a: "copybufferAllocator sh = Some a" "copybufferAllocator sh' = Some a'" "arena_inv a'"
    "\<And>b n. b \<in> held s \<Longrightarrow> (data (block_at s b), n) \<in> block_addresses a \<Longrightarrow> (data (block_at s b), n) \<in> block_addresses a'"
    using e unfolding env_step_def by blast
  have h: "b \<in> held s" if "i < nFileCopyJobs s" "b \<in> slot s i" "data (block_at s b) \<noteq> NULL" for i b
    using jobs_inv_block [OF c(2) that(1,2)] that(3) by (simp add: held_def)
  have "bufs s sh'" using c(5) a h unfolding bufs_def by fastforce
  moreover have "data_inv [] s sh'" if w: whole
  proof -
    have d: "data_inv [] s sh" using inv w by (simp add: copy_inv_def)
    have "file_data (opts sh') (fileCopyJobs s ! i) (slot s i) (block_at s) (mem sh') (files sh')"
      if i: "i < nFileCopyJobs s" for i
    proof (rule file_data_frame)
      show "file_data (opts sh') (fileCopyJobs s ! i) (slot s i) (block_at s) (mem sh) (files sh)"
        using d i e by (simp add: data_inv_def env_step_def)
      fix b n assume b: "b \<in> slot s i" "inUse (block_at s b)" "n < nbytes (block_at s b)"
      then have "n < bsize (fileCopyJobs s ! i)" using used_facts(6) [OF inv i] by fastforce
      then show "mem sh' (data (block_at s b) + n) = mem sh (data (block_at s b) + n)"
        using e i b by (simp add: env_step_def)
    next
      show "active (fileCopyJobs s ! i) \<Longrightarrow> files sh' (srcFd (fileCopyJobs s ! i)) = files sh (srcFd (fileCopyJobs s ! i))
          \<and> files sh' (dstFd (fileCopyJobs s ! i)) = files sh (dstFd (fileCopyJobs s ! i))"
        using e i by (simp add: env_step_def)
    qed
    then show ?thesis using d by (simp add: data_inv_def done_ok_def)
  qed
  ultimately show ?thesis using c by (simp add: copy_inv_def)
qed

lemma forget_done: "copy_inv whole D s sh \<Longrightarrow> copy_inv whole [] s sh"
  by (simp add: copy_inv_def data_inv_def done_ok_def)

lemma reach_inv: "sched_reach xxh whole s sh \<Longrightarrow> copy_inv whole [] s sh"
proof (induction rule: sched_reach.induct)
  case (create nF nB s sh a)
  then show ?case by (rule create_inv)
next
  case (update s sh r rc s' sh')
  then show ?case using schedulerUpdate_inv forget_done by blast
next
  case (others s sh sh')
  then show ?case using env_inv by blast
qed

section \<open>When a scheduler may stop\<close>

lemma fill_jobs_count: "fill_jobs is js s n = (s', n') \<Longrightarrow> n \<le> n' \<and> (n' = n \<longrightarrow> s' = s)"
proof (induction "is" js s n rule: fill_jobs.induct)
  case (2 i ks js s n)
  show ?case
  proof (cases "active (fileCopyJobs s ! i)")
    case True
    then show ?thesis using 2 by simp
  next
    case False
    then show ?thesis
    proof (cases js)
      case Nil
      then show ?thesis using 2 False by simp
    next
      case (Cons f fs)
      then show ?thesis using 2(1) [OF False Cons] 2(3) False by fastforce
    qed
  qed
qed simp

lemma update_stops:
  assumes "schedulerUpdate xxh r s sh = (0, s', sh')"
  shows "\<forall>i < nFileCopyJobs s. \<not> active (fileCopyJobs s' ! i)" "crawlDone sh'"
proof -
  obtain t sh1 where t: "fold (update_file xxh) [0..<nFileCopyJobs s] (s, sh) = (t, sh1)" by fastforce
  obtain u sh2 where u: "fold complete_or_schedule [0..<nFileCopyJobs s] (t, sh1) = (u, sh2)" by fastforce
  define n where "n = length (filter (\<lambda>i. active (fileCopyJobs u ! i)) [0..<nFileCopyJobs s])"
  obtain v m where v: "fill_jobs [0..<nFileCopyJobs s] (r_jobs r) u n = (v, m)" by fastforce
  define sh3 where "sh3 = sh2\<lparr>schedulerIterations := inc64 (schedulerIterations sh2)\<rparr>"
  obtain rc4 w sh4 where w: "schedulerTick r v sh3 = (rc4, w, sh4)" by (metis prod.collapse)
  have r': "(if m = 0 \<and> crawlDone sh3 then (0, v, sh3) else (EINPROGRESS, w, sh4)) = (0, s', sh')"
    using assms(1) unfolding schedulerUpdate_def Let_def t prod.case u n_def [symmetric] v sh3_def [symmetric] w by simp
  then have m: "m = 0" "crawlDone sh3" "s' = v" "sh' = sh3" by (auto simp: EINPROGRESS_def split: if_splits)
  then show "crawlDone sh'" by simp
  have "n = 0" "v = u" using fill_jobs_count [OF v] m(1) by auto
  then show "\<forall>i < nFileCopyJobs s. \<not> active (fileCopyJobs s' ! i)"
    using m(3) by (simp add: n_def filter_empty_conv)
qed

lemma idle_scheduler:
  assumes inv: "copy_inv whole D s sh" and n: "\<forall>i < nFileCopyJobs s. \<not> active (fileCopyJobs s ! i)"
  shows "cbBatch s = []" "ctx s = []" "held s = {}"
proof -
  note c = copy_invD [OF inv]
  have u: "\<not> inUse (block_at s b)" if b: "b < length (blockCopyJobs s)" for b
  proof -
    obtain i where "i < nFileCopyJobs s" "b \<in> slot s i" by (rule slot_cover [OF b [unfolded c(6)]])
    then show ?thesis using used_scheduled(1) [OF c(2)] n by blast
  qed
  then have "\<not> busy (block_at s b)" if "b < length (blockCopyJobs s)" for b using that by (simp add: busy_def)
  then have no: "b \<notin> set (cbBatch s)" "b \<notin> fst ` set (ctx s)" for b using queue_inv_set [OF c(3), of b] by blast+
  show "cbBatch s = []" using no(1) [of "hd (cbBatch s)"] by (cases "cbBatch s") simp_all
  show "ctx s = []" using no(2) [of "fst (hd (ctx s))"] by (cases "ctx s") simp_all
  have "data (block_at s b) = NULL" if "b < length (blockCopyJobs s)" for b
    using u [OF that] c(4) that by (simp add: clean_def)
  then show "held s = {}" by (simp add: held_def)
qed


section \<open>A run\<close>

text \<open>One file of ten bytes, copied by a scheduler with one file job and one block job.\<close>

definition run_job :: file_copy_job where
  "run_job = zero_file_job\<lparr>stx := zero_statx\<lparr>stx_size := 10\<rparr>, srcFd := 3, dstFd := 4, bsize := 4096\<rparr>"

definition run_world :: "buddy \<Rightarrow> shared_state" where
  "run_world a = \<lparr>opts = \<lparr>sparse = False, readback = False, preserveAtime = False, sync = False\<rparr>, finishQueue = [],
     filesSeen = 0, filesRemoved = 0, nFinished = 0, totalBytesTransferred = 0, totalBytesActuallyTransferred = 0,
     bytesRead = 0, bytesWritten = 0, allocationAttempts = 0, allocationFailures = 0, totalMemAllocated = 0,
     schedulerIterations = 0, crawlDone = False, copybufferAllocator = Some a, mem = (\<lambda>_. 0),
     files = (\<lambda>fd x. if fd = 3 then 7 else 0)\<rparr>"

definition run_reply :: "file_copy_job list \<Rightarrow> io_event list \<Rightarrow> replies" where
  "run_reply js evs = \<lparr>r_submit = 1, r_events = evs, r_getevents = 0, r_jobs = js\<rparr>"

definition run_update :: "file_copy_job list \<Rightarrow> io_event list \<Rightarrow> copy_scheduler \<times> shared_state \<Rightarrow> copy_scheduler \<times> shared_state" where
  "run_update js evs st = snd (schedulerUpdate (\<lambda>_. 0) (run_reply js evs) (fst st) (snd st))"

definition run_file :: "nat \<Rightarrow> nat \<Rightarrow> file_copy_job" where
  "run_file n m = run_job\<lparr>active := True, nBlockJobsScheduled := n, nBlockJobsFinished := m\<rparr>"

definition run_sched :: "file_copy_job \<Rightarrow> block_copy_job \<Rightarrow> copy_scheduler" where
  "run_sched f x = \<lparr>sched_done = False, nFileCopyJobs = 1, nBlockCopyJobsPerFileCopyJob = 1, fileCopyJobs = [f],
     blockCopyJobs = [x], cbBatch = [], ctx = []\<rparr>"

definition run_block :: "RW \<Rightarrow> int \<Rightarrow> addr \<Rightarrow> block_copy_job" where
  "run_block t st p = zero_block_job\<lparr>parent := Some 0, rw_type := t, status := st, nbytes := 10, data := p, inUse := True,
     cb := (if t = READ then (io_prep_pread 3 p 10 0)\<lparr>cb_done := RD_DONE\<rparr>
            else (io_prep_pwrite 4 p 4096 0)\<lparr>cb_done := WR_DONE\<rparr>)\<rparr>"

lemmas update_code = run_update_def schedulerUpdate_def Let_def update_file_def update_block_def block_no_def
  complete_or_schedule_def schedulerTick_def schedIOSubmitBatch_def io_queue_run_timeout_def io_deliver_def
  put_block_def put_file_def schedulerUpdateBlockCopyJob_def run_reply_def
lemmas block_code = schedulerScheduleBlockCopyJob_def queue_read_def schedIOSubmitDeferred_def block_init_def
  after_read_def after_write_def schedulerClearBlockCopyJob_def blockCount_def to_int_def EINPROGRESS_def
  run_callback_def rd_done_def wr_done_def EIO_def result_of_def aio_effect_def io_prep_pread_def io_prep_pwrite_def
  zero_file_job_def zero_block_job_def zero_iocb_def zero_statx_def buddy_malloc_def DIRECT_IO_ALIGN_def
lemmas run_code = run_file_def run_sched_def run_block_def run_job_def


lemma run_take: "run_update [run_job] [] (snd (createScheduler 0 1 1), run_world a) = (run_sched (run_file 0 0) zero_block_job,
    (run_world a)\<lparr>schedulerIterations := 1\<rparr>)"
  by (simp add: update_code block_code run_code createScheduler_def run_world_def)

lemma run_read:
  assumes "copybufferAllocator sh = Some a" "malloc_arena a 4096 = (p, a')" "0 < p"
  shows "fst (run_update [] [(0, Whole)] (run_sched (run_file 0 0) zero_block_job, sh)) = run_sched (run_file 1 0) (run_block READ 0 p)"
    "fst (run_update [] [(0, Res (-5))] (run_sched (run_file 0 0) zero_block_job, sh)) = run_sched (run_file 1 0) (run_block READ 5 p)"
  using assms by (simp_all add: update_code block_code run_code)


lemma run_read_world:
  assumes "copybufferAllocator sh = Some a" "malloc_arena a 4096 = (p, a')" "0 < p"
    "sh' = snd (run_update [] [(0, e)] (run_sched (run_file 0 0) zero_block_job, sh))"
  shows "opts sh' = opts sh" "finishQueue sh' = finishQueue sh" "files sh' = files sh" "copybufferAllocator sh' = Some a'"
  using assms by (simp_all add: update_code block_code run_code)

lemma run_fail:
  assumes "copybufferAllocator sh = Some a" "0 < p"
    "sh' = snd (run_update [] [] (run_sched (run_file 1 0) (run_block READ 5 p), sh))"
  shows "finishQueue sh' = finishQueue sh @ [(run_file 0 1)\<lparr>actuallyTransferred := True\<rparr>]" "files sh' = files sh"
  using assms by (simp_all add: update_code block_code run_code fail_block_def schedulerShallowDupFileCopyJob_def
    schedulerClearFileCopyJob_def clear_if_used_def buddy_free_def)












section \<open>An arena for the run\<close>

definition run_arena :: buddy where
  "run_arena = the (the (buddy_init_alignment [] 4096 65536 8192 4096))"

lemma run_arena: "arena_inv run_arena" "\<exists>p a. malloc_arena run_arena 4096 = (p, a) \<and> 0 < p \<and> arena_inv a"
proof -
  have args: "init_args 4096 65536 8192 12" by (simp add: init_args_def max_order_def)
  have r: "arena_inv run_arena" "live run_arena = {}" "buddy_main run_arena = 65536"
    "memory_size run_arena = 8192" "alignment run_arena = 4096"
    using init_arena [OF args, of "[]"] by (auto simp: run_arena_def)
  then show "arena_inv run_arena" by simp
  have "slot_log run_arena 4096 = 12"
    using bit_len_power [of 12] ceiling_power_of_two_power [of 12] r(5) by (simp add: slot_log_def)
  moreover have "room_for run_arena 12" unfolding room_for_def by (intro exI [of _ 0]) (simp add: r)
  ultimately have "\<not> malloc_fails run_arena (max 1 4096)" by (simp add: malloc_fails_def r)
  then obtain p a where "malloc_arena run_arena 4096 = (p, a)" "arena_inv a" "block_taken run_arena 4096 p a"
    using malloc_arena_spec [OF r(1), of 4096] by auto
  then show "\<exists>p a. malloc_arena run_arena 4096 = (p, a) \<and> 0 < p \<and> arena_inv a"
    by (auto simp: block_taken_def r)
qed


section \<open>The states of the run\<close>

lemma run_reply_ok:
  assumes "list_all (event_ok whole) evs"
  shows "replies_ok whole (run_reply [] evs) s sh"
    "active_files s = [] \<Longrightarrow> \<not> sparse (opts sh) \<Longrightarrow> replies_ok whole (run_reply [run_job] evs) s sh"
proof -
  show "replies_ok whole (run_reply [] evs) s sh"
    using assms by (simp add: replies_ok_def run_reply_def jobs_ok_def)
  have "file_ok run_job" by (simp add: file_ok_def run_job_def zero_statx_def zero_file_job_def DIRECT_IO_ALIGN_def blockCount_def)
  moreover have "srcFd run_job \<noteq> dstFd run_job" by (simp add: run_job_def)
  ultimately show "replies_ok whole (run_reply [run_job] evs) s sh" if "active_files s = []" "\<not> sparse (opts sh)"
    using assms that by (simp add: replies_ok_def run_reply_def jobs_ok_def pristine_def)
qed

lemma run_reach:
  assumes "sched_reach (\<lambda>_. 0) whole s sh" "replies_ok whole (run_reply js evs) s sh" "run_update js evs (s, sh) = (s', sh')"
  shows "sched_reach (\<lambda>_. 0) whole s' sh'"
    "\<exists>rc. schedulerUpdate (\<lambda>_. 0) (run_reply js evs) s sh = (rc, s', sh')"
proof -
  show e: "\<exists>rc. schedulerUpdate (\<lambda>_. 0) (run_reply js evs) s sh = (rc, s', sh')"
    using assms(3) by (simp add: run_update_def) (metis prod.collapse)
  then show "sched_reach (\<lambda>_. 0) whole s' sh'" using sched_reach.update [OF assms(1,2)] by blast
qed

definition run_start :: "shared_state" where
  "run_start = (run_world run_arena)\<lparr>schedulerIterations := 1\<rparr>"

lemma run_start: "opts run_start = \<lparr>sparse = False, readback = False, preserveAtime = False, sync = False\<rparr>"
  "finishQueue run_start = []" "files run_start = (\<lambda>fd x. if fd = 3 then 7 else 0)" "copybufferAllocator run_start = Some run_arena"
  by (simp_all add: run_start_def run_world_def)

lemma run_taken: "sched_reach (\<lambda>_. 0) whole (run_sched (run_file 0 0) zero_block_job) run_start"
proof -
  let ?s = "snd (createScheduler 0 1 1)"
  have "createScheduler 0 1 1 = (0, ?s)" by (simp add: createScheduler_def)
  then have "sched_reach (\<lambda>_. 0) whole ?s (run_world run_arena)"
    by (rule sched_reach.create [OF _ _ run_arena(1)]) (simp add: run_world_def)
  moreover have "active_files ?s = []" by (simp add: active_files_def createScheduler_def zero_file_job_def)
  then have "replies_ok whole (run_reply [run_job] []) ?s (run_world run_arena)"
    by (intro run_reply_ok(2)) (simp_all add: run_world_def)
  moreover have "run_update [run_job] [] (?s, run_world run_arena) = (run_sched (run_file 0 0) zero_block_job, run_start)"
    unfolding run_start_def by (rule run_take)
  ultimately show ?thesis by (rule run_reach(1))
qed

text \<open>The read is submitted and has not completed.\<close>

lemma run_submit:
  assumes "copybufferAllocator sh = Some a" "malloc_arena a 4096 = (p, a')" "0 < p"
  shows "fst (run_update [] [] (run_sched (run_file 0 0) zero_block_job, sh))
    = (run_sched (run_file 1 0) (run_block READ EINPROGRESS p))\<lparr>ctx := [(0, (io_prep_pread 3 p 10 0)\<lparr>cb_done := RD_DONE\<rparr>)]\<rparr>"
  using assms by (simp add: update_code block_code run_code)

lemma run_pending:
  obtains p sh where "sched_reach (\<lambda>_. 0) whole ((run_sched (run_file 1 0) (run_block READ EINPROGRESS p))
      \<lparr>ctx := [(0, (io_prep_pread 3 p 10 0)\<lparr>cb_done := RD_DONE\<rparr>)]\<rparr>) sh"
proof -
  obtain p a where p: "malloc_arena run_arena 4096 = (p, a)" "0 < p" using run_arena(2) by blast
  obtain s sh where u: "run_update [] [] (run_sched (run_file 0 0) zero_block_job, run_start) = (s, sh)" by fastforce
  have "sched_reach (\<lambda>_. 0) whole s sh" by (rule run_reach(1) [OF run_taken run_reply_ok(1) u]) simp
  then show ?thesis using that run_submit [OF run_start(4) p] u by simp
qed


section \<open>Properties\<close>


text \<open>
  C4: in every state that a scheduler reaches, whatever the kernel answers and the other threads do,
  the books are right: the counter of scheduled blocks of an active file is the number of its block
  jobs in use, scheduled and finished blocks together never exceed the number of blocks of the file,
  errors are at most the finished blocks, and the block jobs in use work on different blocks that have
  been issued; an inactive file job has no block job in use.
\<close>

theorem scheduler_books:
  assumes "sched_reach xxh whole s sh" "i < nFileCopyJobs s" "fileCopyJobs s ! i = f"
  shows "if active f
    then nBlockJobsScheduled f = card {b \<in> slot s i. inUse (blockCopyJobs s ! b)}
      \<and> nBlockJobsScheduled f + nBlockJobsFinished f \<le> blockCount (stx_size (stx f)) (bsize f)
      \<and> nErrors f \<le> nBlockJobsFinished f
      \<and> (\<forall>b \<in> slot s i. inUse (blockCopyJobs s ! b) \<longrightarrow> parent (blockCopyJobs s ! b) = Some i
          \<and> 0 \<le> jobno (blockCopyJobs s ! b)
          \<and> jobno (blockCopyJobs s ! b) < int (nBlockJobsScheduled f + nBlockJobsFinished f)
          \<and> offset (blockCopyJobs s ! b) = bsize f * nat (jobno (blockCopyJobs s ! b)))
      \<and> inj_on (\<lambda>b. jobno (blockCopyJobs s ! b)) {b \<in> slot s i. inUse (blockCopyJobs s ! b)}
    else \<forall>b \<in> slot s i. \<not> inUse (blockCopyJobs s ! b)"
proof -
  have "file_inv f i (slot s i) (block_at s)"
    using jobs_inv_file [OF copy_invD(2) [OF reach_inv [OF assms(1)]] assms(2)] assms(3) by simp
  then show ?thesis
    unfolding file_inv_def block_ok_def block_at_def [symmetric] by (cases "active f"; simp only: if_True if_False simp_thms) blast
qed

theorem scheduler_books_witness:
  "\<exists>s. nBlockJobsScheduled (fileCopyJobs s ! 0) = 1 \<and> card {b \<in> slot s 0. inUse (blockCopyJobs s ! b)} = 1"
proof -
  obtain p sh where r: "sched_reach (\<lambda>_. 0) True ((run_sched (run_file 1 0) (run_block READ EINPROGRESS p))
      \<lparr>ctx := [(0, (io_prep_pread 3 p 10 0)\<lparr>cb_done := RD_DONE\<rparr>)]\<rparr>) sh" (is "sched_reach _ _ ?s _") by (rule run_pending)
  have "0 < nFileCopyJobs ?s" "fileCopyJobs ?s ! 0 = run_file 1 0" "active (run_file 1 0)" "nBlockJobsScheduled (run_file 1 0) = 1"
    by (simp_all add: run_sched_def run_file_def)
  then show ?thesis using scheduler_books [OF r, of 0 "run_file 1 0"] by (intro exI [of _ ?s]) simp
qed









text \<open>
  C5: a scheduler thread that is told to stop has nothing left: no file is active, no request waits or
  is in flight, no block job holds a buffer, and the crawl is over.
\<close>

theorem scheduler_stops_clean:
  assumes "sched_reach xxh whole s sh" "replies_ok whole r s sh" "schedulerUpdate xxh r s sh = (0, s', sh')"
  shows "crawlDone sh' \<and> (\<forall>i < nFileCopyJobs s'. \<not> active (fileCopyJobs s' ! i)) \<and> cbBatch s' = [] \<and> ctx s' = []
    \<and> (\<forall>b < length (blockCopyJobs s'). data (blockCopyJobs s' ! b) = NULL)"
proof -
  obtain D where D: "copy_inv whole D s' sh'" "nFileCopyJobs s' = nFileCopyJobs s"
    using schedulerUpdate_inv [OF reach_inv [OF assms(1)] assms(2,3)] by blast
  note us = update_stops [OF assms(3)]
  have n: "\<forall>i < nFileCopyJobs s'. \<not> active (fileCopyJobs s' ! i)" using us(1) D(2) by simp
  note i = idle_scheduler [OF D(1) n]
  have "data (blockCopyJobs s' ! b) = NULL" if "b < length (blockCopyJobs s')" for b
    using i(3) that by (auto simp: held_def block_at_def)
  then show ?thesis using us(2) n i(1,2) by blast
qed

theorem scheduler_stops_clean_witness:
  "\<exists>s' sh'. schedulerUpdate (\<lambda>_. 0) (run_reply [] []) (snd (createScheduler 0 1 1)) ((run_world run_arena)\<lparr>crawlDone := True\<rparr>)
      = (0, s', sh') \<and> crawlDone sh' \<and> ctx s' = []"
proof -
  let ?s = "snd (createScheduler 0 1 1)" and ?sh = "(run_world run_arena)\<lparr>crawlDone := True\<rparr>"
  have "createScheduler 0 1 1 = (0, ?s)" by (simp add: createScheduler_def)
  then have r: "sched_reach (\<lambda>_. 0) True ?s ?sh"
    by (rule sched_reach.create [OF _ _ run_arena(1)]) (simp add: run_world_def)
  have ok: "replies_ok True (run_reply [] []) ?s ?sh" by (rule run_reply_ok(1)) simp
  have "fst (schedulerUpdate (\<lambda>_. 0) (run_reply [] []) ?s ?sh) = 0"
    by (simp add: update_code createScheduler_def zero_file_job_def run_world_def)
  then obtain s' sh' where u: "schedulerUpdate (\<lambda>_. 0) (run_reply [] []) ?s ?sh = (0, s', sh')" by (metis prod.collapse)
  show ?thesis using scheduler_stops_clean [OF r ok u] u by blast
qed

text \<open>
  C6: a read that fails is not reported. There is a run in which the kernel answers the only read of a
  file with an error, and the update after it hands the file on to be finished as transferred, without
  an error counted, while its first byte differs from the source.
\<close>

theorem scheduler_hides_failed_read:
  "\<exists>s sh r rc s' sh' g. sched_reach (\<lambda>_. 0) False s sh \<and> replies_ok False r s sh
    \<and> schedulerUpdate (\<lambda>_. 0) r s sh = (rc, s', sh') \<and> g \<in> set (finishQueue sh') \<and> actuallyTransferred g
    \<and> nErrors g = 0 \<and> 0 < stx_size (stx g) \<and> files sh' (dstFd g) 0 \<noteq> files sh' (srcFd g) 0"
proof -
  obtain p a where p: "malloc_arena run_arena 4096 = (p, a)" "0 < p" using run_arena(2) by blast
  define s1 where "s1 = run_sched (run_file 0 0) zero_block_job"
  obtain s2 sh2 where u2: "run_update [] [(0, Res (-5))] (s1, run_start) = (s2, sh2)" by fastforce
  obtain s3 sh3 where u3: "run_update [] [] (s2, sh2) = (s3, sh3)" by fastforce
  have ok: "list_all (event_ok False) [(0, Res (-5))]" "list_all (event_ok False) []"
    by (simp_all add: event_ok_def EINPROGRESS_def)
  have r2: "sched_reach (\<lambda>_. 0) False s2 sh2"
    by (rule run_reach(1) [OF run_taken [folded s1_def] run_reply_ok(1) [OF ok(1)] u2])
  note w2 = run_read(2) [OF run_start(4) p] run_read_world(2-4) [OF run_start(4) p refl, of "Res (-5)"]
  have s2: "s2 = run_sched (run_file 1 0) (run_block READ 5 p)" "copybufferAllocator sh2 = Some a" "finishQueue sh2 = []"
    "files sh2 = files run_start"
    using w2 u2 by (simp_all add: s1_def run_start)
  have s3: "finishQueue sh3 = [(run_file 0 1)\<lparr>actuallyTransferred := True\<rparr>]" "files sh3 = files run_start"
    using run_fail [OF s2(2) p(2) refl] u3 by (simp_all add: s2)
  obtain rc where rc: "schedulerUpdate (\<lambda>_. 0) (run_reply [] []) s2 sh2 = (rc, s3, sh3)"
    using run_reach(2) [OF r2 run_reply_ok(1) [OF ok(2)] u3] by blast
  let ?g = "(run_file 0 1)\<lparr>actuallyTransferred := True\<rparr>"
  have "?g \<in> set (finishQueue sh3)" "actuallyTransferred ?g" "nErrors ?g = 0" "0 < stx_size (stx ?g)"
    "files sh3 (dstFd ?g) 0 \<noteq> files sh3 (srcFd ?g) 0"
    by (simp_all add: s3 run_start run_file_def run_job_def zero_statx_def zero_file_job_def)
  then show ?thesis using r2 run_reply_ok(1) [OF ok(2), of s2 sh2] rc by blast
qed

end
