(* ===== verification/Allocator.thy ===== *)
theory Allocator
  imports Buddy_Interface Buddy_Resize
begin

text \<open>
  The program's allocator (\<open>allocator.cpp\<close>, \<open>allocator.h\<close>): one arena in anonymous memory, one in a
  mapped file, and small arenas that threads try first, chosen by thread number. The program is built
  without debug assertions (\<open>NDEBUG\<close>), so an \<open>AllocRef\<close> is an address. Operations run under a lock for
  each arena and are modelled as indivisible. The buddy structs that are embedded in the memory of
  the small arenas are a map from their addresses.
\<close>

section \<open>State\<close>

record allocator =
  memAlloc :: "buddy option"
  diskAlloc :: "buddy option"
  memBase :: addr
  copyBuffer :: addr
  nSubAllocators :: nat
  subAllocatorSize :: nat
  embedded :: "addr \<Rightarrow> buddy option"

definition sizeof_Allocator :: nat where
  "sizeof_Allocator = 64"

definition sizeof_spinlock :: nat where
  "sizeof_spinlock = 8"

definition SUB_ALIGN :: nat where
  "SUB_ALIGN = 128"

text \<open>Where the struct of the small arena with number \<open>i\<close> is.\<close>

definition sub_at :: "allocator \<Rightarrow> nat \<Rightarrow> addr" where
  "sub_at alloc i = buddy_get_embed_at_alignment (memBase alloc + i * subAllocatorSize alloc)
     (subAllocatorSize alloc) SUB_ALIGN"

definition suballoc :: "allocator \<Rightarrow> nat \<Rightarrow> buddy option" where
  "suballoc alloc i = (if sub_at alloc i = NULL then None else embedded alloc (sub_at alloc i))"

definition set_suballoc :: "allocator \<Rightarrow> nat \<Rightarrow> buddy option \<Rightarrow> allocator" where
  "set_suballoc alloc i b = alloc\<lparr>embedded := (embedded alloc)(sub_at alloc i := b)\<rparr>"

definition isNullRef :: "addr \<Rightarrow> bool" where
  "isNullRef ref \<longleftrightarrow> ref = NULL"

definition allocDeref :: "addr \<Rightarrow> addr" where
  "allocDeref ref = ref"

section \<open>Operations\<close>

text \<open>\<open>tid\<close> is the thread number that \<open>gettid\<close> returns.\<close>

definition try_sub :: "nat \<Rightarrow> allocator \<Rightarrow> memory \<Rightarrow> nat \<Rightarrow> addr \<times> allocator \<times> memory" where
  "try_sub tid alloc mem len =
     (if nSubAllocators alloc \<noteq> 0
      then let allocNum = tid mod nSubAllocators alloc;
               (p, b, mem) = buddy_calloc (suballoc alloc allocNum) mem 1 len
           in (p, set_suballoc alloc allocNum b, mem)
      else (NULL, alloc, mem))"

definition try_mem :: "allocator \<Rightarrow> memory \<Rightarrow> nat \<Rightarrow> addr \<times> allocator \<times> memory" where
  "try_mem alloc mem len =
     (if memAlloc alloc \<noteq> None
      then let (p, b, mem) = buddy_calloc (memAlloc alloc) mem 1 len in (p, alloc\<lparr>memAlloc := b\<rparr>, mem)
      else (NULL, alloc, mem))"

definition try_disk :: "allocator \<Rightarrow> memory \<Rightarrow> nat \<Rightarrow> addr \<times> allocator \<times> memory" where
  "try_disk alloc mem len =
     (if diskAlloc alloc \<noteq> None
      then let (p, b, mem) = buddy_calloc (diskAlloc alloc) mem 1 len in (p, alloc\<lparr>diskAlloc := b\<rparr>, mem)
      else (NULL, alloc, mem))"

definition AllocatorAllocate :: "nat \<Rightarrow> allocator \<Rightarrow> memory \<Rightarrow> nat \<Rightarrow> addr \<times> allocator \<times> memory" where
  "AllocatorAllocate tid alloc mem len =
     (let (allocation, alloc, mem) = try_sub tid alloc mem len
      in if allocation \<noteq> NULL then (allocation, alloc, mem)
         else
           let (allocation, alloc, mem) = try_mem alloc mem len
           in if allocation = NULL then try_disk alloc mem len else (allocation, alloc, mem))"

text \<open>The reservation of a range is \<open>None\<close> if its loop does not end.\<close>

definition range_in :: "buddy \<Rightarrow> nat \<Rightarrow> nat \<Rightarrow> bool" where
  "range_in b offset len \<longleftrightarrow>
     (let base = buddy_main b; allocBase = (base + offset) mod 2 ^ 64
      in \<not> allocBase < base \<and> \<not> (allocBase + len) mod 2 ^ 64 > (base + memory_size b) mod 2 ^ 64)"

definition reserve_in :: "buddy option \<Rightarrow> nat \<Rightarrow> nat \<Rightarrow> (addr \<times> buddy option) option" where
  "reserve_in b_opt offset len =
     (case b_opt of
        None \<Rightarrow> Some (NULL, None)
      | Some b \<Rightarrow>
          if range_in b offset len
          then map_option (Pair (buddy_main b + offset)) (buddy_reserve_range (Some b) (buddy_main b + offset) len)
          else Some (NULL, Some b))"

definition AllocatorAllocateRange :: "allocator \<Rightarrow> nat \<Rightarrow> nat \<Rightarrow> (addr \<times> allocator) option" where
  "AllocatorAllocateRange alloc offset len =
     (case reserve_in (memAlloc alloc) offset len of
        None \<Rightarrow> None
      | Some (allocation, b) \<Rightarrow>
          let alloc = alloc\<lparr>memAlloc := b\<rparr>
          in if allocation = NULL \<and> diskAlloc alloc \<noteq> None
             then map_option (\<lambda>(p, d). (p, alloc\<lparr>diskAlloc := d\<rparr>)) (reserve_in (diskAlloc alloc) offset len)
             else Some (allocation, alloc))"

definition AllocatorFree :: "allocator \<Rightarrow> addr \<Rightarrow> allocator" where
  "AllocatorFree alloc ref =
     (let ptr = allocDeref ref;
          allocIndex = (ptr - memBase alloc) div subAllocatorSize alloc
      in if nSubAllocators alloc \<noteq> 0 \<and> ptr \<ge> memBase alloc \<and> allocIndex < nSubAllocators alloc
         then set_suballoc alloc allocIndex (buddy_free (suballoc alloc allocIndex) ptr)
         else alloc\<lparr>memAlloc := buddy_free (memAlloc alloc) ptr, diskAlloc := buddy_free (diskAlloc alloc) ptr\<rparr>)"

section \<open>Creation\<close>

text \<open>
  How creation can end the program: the error exits of the source, an embedding that does not return,
  and the write through the null pointer when the first arena has no room for the allocator's struct.
\<close>

datatype create_error = Mmap_failed | Sub_failed | Mem_failed | Open_failed | Truncate_failed
  | Disk_mmap_failed | Disk_failed | No_return | Null_write

text \<open>What the system answers: the mapped addresses, or the failure of a call.\<close>

record create_world =
  mmap_mem :: "addr option"
  open_ok :: bool
  ftruncate_ok :: bool
  mmap_disk :: "addr option"
  tree_bytes :: "addr \<Rightarrow> bitset"

definition embed_result :: "create_error \<Rightarrow> buddy option option \<Rightarrow> create_error + buddy" where
  "embed_result e r = (case r of None \<Rightarrow> Inl No_return | Some None \<Rightarrow> Inl e | Some (Some b) \<Rightarrow> Inr b)"

fun embed_subs :: "create_world \<Rightarrow> addr \<Rightarrow> nat \<Rightarrow> nat list \<Rightarrow> (addr \<Rightarrow> buddy option) \<Rightarrow> create_error + (addr \<Rightarrow> buddy option)" where
  "embed_subs w base sz [] subs = Inr subs"
| "embed_subs w base sz (i # is) subs =
     (case embed_result Sub_failed
             (buddy_embed_alignment (tree_bytes w (base + i * sz)) (base + i * sz) sz SUB_ALIGN) of
        Inl e \<Rightarrow> Inl e
      | Inr b \<Rightarrow> embed_subs w base sz is (subs(buddy_at b := Some b)))"

text \<open>The part of the anonymous memory: the copy buffer is cut off first, then the small arenas.\<close>

definition create_mem :: "create_world \<Rightarrow> memory \<Rightarrow> nat \<Rightarrow> nat \<Rightarrow> nat \<Rightarrow> nat \<Rightarrow> create_error + (allocator \<times> addr \<times> memory)" where
  "create_mem w m memSize nSub subSize copyBufferSize =
     (case mmap_mem w of
        None \<Rightarrow> Inl Mmap_failed
      | Some base \<Rightarrow>
          let (copyBuf, base, memSize) =
                (if copyBufferSize < memSize then (base, base + copyBufferSize, memSize - copyBufferSize)
                 else (NULL, base, memSize));
              region = nSub * subSize mod 2 ^ 64;
              split = region \<noteq> 0 \<and> region < memSize;
              subBase = (if split then base else NULL);
              nSub = (if split then nSub else 0)
          in case embed_subs w subBase subSize [0..<nSub] (\<lambda>_. None) of
               Inl e \<Rightarrow> Inl e
             | Inr subs \<Rightarrow>
                 let base = (if split then base + region else base);
                     memSize = (if split then memSize - region else memSize)
                 in case embed_result Mem_failed (buddy_embed_alignment (tree_bytes w base) base memSize SUB_ALIGN) of
                      Inl e \<Rightarrow> Inl e
                    | Inr b \<Rightarrow>
                        let (p, b', m) = buddy_calloc (Some b) m 1 sizeof_Allocator
                        in if p = NULL then Inl Null_write
                           else
                             let (locks, b', m) = buddy_calloc b' m (if nSub \<noteq> 0 then nSub else 1) sizeof_spinlock
                             in Inr (\<lparr>memAlloc = b', diskAlloc = None, memBase = subBase, copyBuffer = NULL,
                                  nSubAllocators = nSub, subAllocatorSize = subSize, embedded = subs\<rparr>, copyBuf, m))"

text \<open>The part of the mapped file; it holds the allocator's struct and the copy buffer if memory does not.\<close>

definition create_disk :: "create_world \<Rightarrow> memory \<Rightarrow> allocator option \<Rightarrow> addr \<Rightarrow> nat \<Rightarrow> nat \<Rightarrow>
    create_error + (allocator option \<times> addr \<times> memory)" where
  "create_disk w m alloc copyBuf diskSize copyBufferSize =
     (if \<not> open_ok w then Inl Open_failed
      else if \<not> ftruncate_ok w then Inl Truncate_failed
      else case mmap_disk w of
             None \<Rightarrow> Inl Disk_mmap_failed
           | Some base \<Rightarrow>
               let (copyBuf, base, diskSize) =
                     (if copyBuf = NULL \<and> copyBufferSize < diskSize
                      then (base, base + copyBufferSize, diskSize - copyBufferSize)
                      else (copyBuf, base, diskSize))
               in case embed_result Disk_failed (buddy_embed (tree_bytes w base) base diskSize) of
                    Inl e \<Rightarrow> Inl e
                  | Inr d \<Rightarrow>
                      case alloc of
                        Some a \<Rightarrow> Inr (Some (a\<lparr>diskAlloc := Some d\<rparr>), copyBuf, m)
                      | None \<Rightarrow>
                          let (p, d', m) = buddy_calloc (Some d) m 1 sizeof_Allocator
                          in Inr (if p = NULL then None
                                  else Some \<lparr>memAlloc = None, diskAlloc = d', memBase = NULL, copyBuffer = NULL,
                                         nSubAllocators = 0, subAllocatorSize = 0, embedded = (\<lambda>_. None)\<rparr>,
                                  copyBuf, m))"

definition createAllocator :: "create_world \<Rightarrow> memory \<Rightarrow> nat \<Rightarrow> nat \<Rightarrow> nat \<Rightarrow> nat \<Rightarrow> nat \<Rightarrow>
    create_error + (allocator option \<times> memory)" where
  "createAllocator w m memSize nSub subSize diskSize copyBufferSize =
     (case (if memSize \<noteq> 0
            then (case create_mem w m memSize nSub subSize copyBufferSize of
                    Inl e \<Rightarrow> Inl e | Inr (a, copyBuf, m) \<Rightarrow> Inr (Some a, copyBuf, m))
            else Inr (None, NULL, m)) of
        Inl e \<Rightarrow> Inl e
      | Inr (alloc, copyBuf, m) \<Rightarrow>
          case (if diskSize \<noteq> 0 then create_disk w m alloc copyBuf diskSize copyBufferSize
                else Inr (alloc, copyBuf, m)) of
            Inl e \<Rightarrow> Inl e
          | Inr (alloc, copyBuf, m) \<Rightarrow> Inr (map_option (\<lambda>a. a\<lparr>copyBuffer := copyBuf\<rparr>) alloc, m))"


section \<open>The invariant\<close>

text \<open>The arenas, and the address range of each.\<close>

datatype arena_id = Mem | Disk | Sub nat

fun arena_of :: "allocator \<Rightarrow> arena_id \<Rightarrow> buddy option" where
  "arena_of alloc Mem = memAlloc alloc"
| "arena_of alloc Disk = diskAlloc alloc"
| "arena_of alloc (Sub i) = (if i < nSubAllocators alloc then suballoc alloc i else None)"

definition region :: "buddy \<Rightarrow> nat set" where
  "region b = {buddy_main b..<buddy_main b + memory_size b}"

definition sub_region :: "allocator \<Rightarrow> nat \<Rightarrow> nat set" where
  "sub_region alloc i = {memBase alloc + i * subAllocatorSize alloc..<memBase alloc + Suc i * subAllocatorSize alloc}"

text \<open>
  Each arena is consistent, the first two are apart from each other and from the small arenas, and the
  small arenas and their structs are in their own parts of the memory.
\<close>

definition alloc_inv :: "allocator \<Rightarrow> bool" where
  "alloc_inv alloc \<longleftrightarrow> (\<forall>k b. arena_of alloc k = Some b \<longrightarrow> arena_inv b)
     \<and> (\<forall>b d. memAlloc alloc = Some b \<and> diskAlloc alloc = Some d \<longrightarrow> region b \<inter> region d = {})
     \<and> (\<forall>i < nSubAllocators alloc. sub_at alloc i \<noteq> NULL \<and> sub_at alloc i \<in> sub_region alloc i
          \<and> (\<forall>b. suballoc alloc i = Some b \<longrightarrow> region b \<subseteq> sub_region alloc i)
          \<and> (\<forall>b. memAlloc alloc = Some b \<or> diskAlloc alloc = Some b \<longrightarrow> region b \<inter> sub_region alloc i = {}))"

definition alloc_blocks :: "allocator \<Rightarrow> (nat \<times> nat) set" where
  "alloc_blocks alloc = (\<Union>k. case arena_of alloc k of None \<Rightarrow> {} | Some b \<Rightarrow> block_addresses b)"

lemma alloc_blocks_iff: "p \<in> alloc_blocks alloc \<longleftrightarrow> (\<exists>k b. arena_of alloc k = Some b \<and> p \<in> block_addresses b)"
  by (auto simp: alloc_blocks_def split: option.splits)

lemma block_in_region: "arena_inv b \<Longrightarrow> (p, s) \<in> block_addresses b \<Longrightarrow> extent (p, s) \<subseteq> region b"
  using live_in_arena(1) by (fastforce simp: block_addresses_def extent_def region_def)

lemma block_start: "arena_inv b \<Longrightarrow> (p, s) \<in> block_addresses b \<Longrightarrow> p \<in> region b \<and> p \<in> extent (p, s)"
  using arena.nonempty [of b "(p, s)"] block_in_region [of b p s] by (auto simp: extent_def)

lemma sub_region_unique:
  assumes "x \<in> sub_region alloc i" "x \<in> sub_region alloc j"
  shows "i = j"
proof -
  have *: "i = (x - memBase alloc) div subAllocatorSize alloc" if "x \<in> sub_region alloc i" for i
  proof -
    have "i * subAllocatorSize alloc \<le> x - memBase alloc" "x - memBase alloc < Suc i * subAllocatorSize alloc"
      using that by (auto simp: sub_region_def)
    then show ?thesis by (metis div_nat_eqI mult.commute mult_Suc)
  qed
  show ?thesis using * [OF assms(1)] * [OF assms(2)] by simp
qed

lemma sub_index:
  assumes "x \<in> sub_region alloc i"
  shows "memBase alloc \<le> x" "(x - memBase alloc) div subAllocatorSize alloc = i"
proof -
  have "i * subAllocatorSize alloc \<le> x - memBase alloc" "x - memBase alloc < Suc i * subAllocatorSize alloc"
    "memBase alloc \<le> x" using assms by (auto simp: sub_region_def)
  then show "memBase alloc \<le> x" "(x - memBase alloc) div subAllocatorSize alloc = i"
    by (auto intro!: div_nat_eqI simp: mult.commute)
qed

lemma alloc_invD:
  assumes "alloc_inv alloc"
  shows "arena_of alloc k = Some b \<Longrightarrow> arena_inv b"
    "memAlloc alloc = Some b \<Longrightarrow> diskAlloc alloc = Some d \<Longrightarrow> region b \<inter> region d = {}"
    "i < nSubAllocators alloc \<Longrightarrow> sub_at alloc i \<noteq> NULL"
    "i < nSubAllocators alloc \<Longrightarrow> sub_at alloc i \<in> sub_region alloc i"
    "i < nSubAllocators alloc \<Longrightarrow> suballoc alloc i = Some b \<Longrightarrow> region b \<subseteq> sub_region alloc i"
    "i < nSubAllocators alloc \<Longrightarrow> memAlloc alloc = Some b \<or> diskAlloc alloc = Some b \<Longrightarrow> region b \<inter> sub_region alloc i = {}"
  using assms unfolding alloc_inv_def by blast+

lemma regions_apart:
  assumes "alloc_inv alloc" "arena_of alloc k = Some b" "arena_of alloc l = Some d" "k \<noteq> l"
  shows "region b \<inter> region d = {}"
proof (cases k)
  case Mem
  then show ?thesis using alloc_invD(2,5,6) [OF assms(1)] assms(2-4)
    by (cases l) (fastforce split: if_splits)+
next
  case Disk
  then show ?thesis using alloc_invD(2,5,6) [OF assms(1)] assms(2-4)
    by (cases l) (fastforce split: if_splits)+
next
  case (Sub i)
  then have i: "i < nSubAllocators alloc" "suballoc alloc i = Some b" using assms(2) by (auto split: if_splits)
  show ?thesis
  proof (cases l)
    case (Sub j)
    then have j: "j < nSubAllocators alloc" "suballoc alloc j = Some d" using assms(3) by (auto split: if_splits)
    have "i \<noteq> j" using assms(4) \<open>k = arena_id.Sub i\<close> Sub by simp
    then show ?thesis using alloc_invD(5) [OF assms(1) i] alloc_invD(5) [OF assms(1) j] sub_region_unique by blast
  qed (use alloc_invD(5) [OF assms(1) i] alloc_invD(6) [OF assms(1) i(1)] assms(3) in fastforce)+
qed


section \<open>One arena changes\<close>

fun set_arena :: "allocator \<Rightarrow> arena_id \<Rightarrow> buddy option \<Rightarrow> allocator" where
  "set_arena alloc Mem c = alloc\<lparr>memAlloc := c\<rparr>"
| "set_arena alloc Disk c = alloc\<lparr>diskAlloc := c\<rparr>"
| "set_arena alloc (Sub i) c = set_suballoc alloc i c"

lemma set_suballoc_simps [simp]:
  "memAlloc (set_suballoc a i c) = memAlloc a" "diskAlloc (set_suballoc a i c) = diskAlloc a"
  "memBase (set_suballoc a i c) = memBase a" "nSubAllocators (set_suballoc a i c) = nSubAllocators a"
  "subAllocatorSize (set_suballoc a i c) = subAllocatorSize a" "sub_at (set_suballoc a i c) = sub_at a"
  "sub_region (set_suballoc a i c) = sub_region a"
  by (simp_all add: set_suballoc_def sub_at_def sub_region_def fun_eq_iff)

lemma sub_update_simps [simp]:
  "sub_at (a\<lparr>memAlloc := b\<rparr>) = sub_at a" "sub_at (a\<lparr>diskAlloc := b\<rparr>) = sub_at a"
  "suballoc (a\<lparr>memAlloc := b\<rparr>) = suballoc a" "suballoc (a\<lparr>diskAlloc := b\<rparr>) = suballoc a"
  "sub_region (a\<lparr>memAlloc := b\<rparr>) = sub_region a" "sub_region (a\<lparr>diskAlloc := b\<rparr>) = sub_region a"
  by (simp_all add: sub_at_def suballoc_def sub_region_def fun_eq_iff)

lemma suballoc_set:
  assumes "alloc_inv a" "i < nSubAllocators a" "j < nSubAllocators a"
  shows "suballoc (set_suballoc a i c) j = (if j = i then c else suballoc a j)"
proof -
  have "sub_at a i = sub_at a j \<Longrightarrow> i = j"
    using alloc_invD(4) [OF assms(1,2)] alloc_invD(4) [OF assms(1,3)] sub_region_unique by metis
  then show ?thesis using alloc_invD(3) [OF assms(1,2)] by (auto simp: suballoc_def set_suballoc_def sub_at_def)
qed

lemma arena_of_set:
  assumes "alloc_inv a" "arena_of a k = Some b"
  shows "arena_of (set_arena a k c) l = (if l = k then c else arena_of a l)"
  using assms suballoc_set [OF assms(1)] by (cases k; cases l) (auto split: if_splits)

lemma alloc_inv_set:
  assumes inv: "alloc_inv a" and k: "arena_of a k = Some b" and c: "arena_inv c" "region c = region b"
  shows "alloc_inv (set_arena a k (Some c))"
proof -
  let ?a = "set_arena a k (Some c)"
  have of: "arena_of ?a l = (if l = k then Some c else arena_of a l)" for l by (rule arena_of_set [OF inv k])
  have same: "nSubAllocators ?a = nSubAllocators a" "sub_at ?a = sub_at a" "sub_region ?a = sub_region a"
    by (cases k; simp)+
  have reg: "\<exists>d'. arena_of a l = Some d' \<and> region d' = region d" if "arena_of ?a l = Some d" for l d
    using that of k c(2) by (cases "l = k") auto
  have md: "memAlloc ?a = arena_of ?a Mem" "diskAlloc ?a = arena_of ?a Disk" by simp_all
  have sb: "suballoc ?a i = arena_of ?a (Sub i)" if "i < nSubAllocators a" for i using that same by simp
  have "arena_inv d" if "arena_of ?a l = Some d" for l d
    using that of c(1) alloc_invD(1) [OF inv] by (cases "l = k") auto
  moreover have "region d \<inter> region e = {}" if "memAlloc ?a = Some d" "diskAlloc ?a = Some e" for d e
    using reg [of Mem d] reg [of Disk e] that alloc_invD(2) [OF inv] by (metis md arena_of.simps(1,2))
  moreover have "sub_at ?a i \<noteq> NULL" "sub_at ?a i \<in> sub_region ?a i" if "i < nSubAllocators a" for i
    using alloc_invD(3,4) [OF inv that] same by simp_all
  moreover have "region d \<subseteq> sub_region ?a i" if i: "i < nSubAllocators a" "suballoc ?a i = Some d" for i d
  proof -
    obtain e where e: "arena_of a (Sub i) = Some e" "region e = region d"
      using reg [of "Sub i" d] sb [OF i(1)] i(2) by metis
    then have "suballoc a i = Some e" using i(1) by simp
    then show ?thesis using alloc_invD(5) [OF inv i(1)] e(2) same(3) by simp
  qed
  moreover have "region d \<inter> sub_region ?a i = {}"
    if "i < nSubAllocators a" "memAlloc ?a = Some d \<or> diskAlloc ?a = Some d" for i d
    using reg [of Mem d] reg [of Disk d] that(2) alloc_invD(6) [OF inv that(1)] same by (metis md arena_of.simps(1,2))
  ultimately show ?thesis unfolding alloc_inv_def same by blast
qed

lemma alloc_blocks_set:
  assumes "alloc_inv a" "arena_of a k = Some b"
  shows "p \<in> alloc_blocks (set_arena a k (Some c)) \<longleftrightarrow>
    p \<in> block_addresses c \<or> (\<exists>l d. l \<noteq> k \<and> arena_of a l = Some d \<and> p \<in> block_addresses d)"
  unfolding alloc_blocks_iff arena_of_set [OF assms] by (auto split: if_splits)

lemma other_arena:
  assumes "alloc_inv a" "arena_of a k = Some b" "arena_of a l = Some d" "l \<noteq> k" "(p, n) \<in> block_addresses d"
  shows "p \<notin> region b"
  using regions_apart [OF assms(1,2,3)] assms(4) block_start [OF alloc_invD(1) [OF assms(1,3)] assms(5)] by auto

section \<open>Allocation in one arena\<close>

lemma calloc_spec:
  assumes "arena_inv b" "buddy_calloc (Some b) mem 1 r = (p, b', mem')"
  shows "\<exists>c. b' = Some c \<and> arena_inv c \<and> region c = region b
    \<and> (if p = NULL then c = b \<and> mem' = mem
       else \<exists>n \<ge> max 1 r. block_addresses c = insert (p, n) (block_addresses b) \<and> (p, n) \<notin> block_addresses b
          \<and> mem' = memset mem p 0 (max 1 r))"
proof -
  define t where "t = max 1 r"
  have m: "(if (1::nat) = 0 \<or> r = 0 then (1, 1) else (1, r)) = (1, t)" by (simp add: t_def)
  have eq: "buddy_calloc (Some b) mem 1 r = (if t mod 2 ^ 64 \<noteq> t then (NULL, Some b, mem)
      else let (q, d) = malloc_arena b t in (q, Some d, if q \<noteq> NULL then memset mem q 0 t else mem))"
    unfolding buddy_calloc_def m by (simp add: buddy_malloc_def apsnd_def map_prod_def Let_def split: prod.split)
  show ?thesis
  proof (cases "t mod 2 ^ 64 = t")
    case False
    then have "p = NULL" "b' = Some b" "mem' = mem" using assms(2) unfolding eq by simp_all
    then show ?thesis using assms(1) by simp
  next
    case True
    obtain q d where q: "malloc_arena b t = (q, d)" by fastforce
    have res: "p = q" "b' = Some d" "mem' = (if q \<noteq> NULL then memset mem q 0 t else mem)"
      using assms(2) unfolding eq True q Let_def prod.case by auto
    from malloc_arena_spec [OF assms(1), of t] q consider "q = NULL" "d = b" | "q \<noteq> NULL" "arena_inv d" "same_arena b d"
      by (metis prod.inject)
    then show ?thesis
    proof cases
      case 1
      then show ?thesis using res assms(1) by simp
    next
      case 2
      have "\<exists>n \<ge> max 1 t. block_addresses d = insert (q, n) (block_addresses b) \<and> (q, n) \<notin> block_addresses b"
        using arena.tk_some [OF assms(1), of t] q 2(1) by simp
      moreover have "region d = region b" using same_arenaD(1,2) [OF 2(3)] by (simp add: region_def)
      moreover have "max 1 t = max 1 r" by (simp add: t_def)
      ultimately show ?thesis using res 2(1,2) by (intro exI [of _ d]) (simp add: t_def)
    qed
  qed
qed

lemma free_region: "arena_inv b \<Longrightarrow> region (free_arena b x) = region b"
proof -
  assume "arena_inv b"
  then have "same_arena b (free_arena b x)" using free_arena_spec(2) by blast
  then show ?thesis using same_arenaD(1,2) by (simp add: region_def)
qed

text \<open>What an allocation attempt in arena \<open>k\<close> does to the allocator.\<close>

lemma attempt:
  assumes inv: "alloc_inv a" and k: "arena_of a k = Some b" and c: "buddy_calloc (Some b) mem 1 r = (p, b', mem')"
  shows "alloc_inv (set_arena a k b')"
    "p = NULL \<Longrightarrow> alloc_blocks (set_arena a k b') = alloc_blocks a \<and> mem' = mem"
    "p \<noteq> NULL \<Longrightarrow> \<exists>n \<ge> max 1 r. alloc_blocks (set_arena a k b') = insert (p, n) (alloc_blocks a)
      \<and> (p, n) \<notin> alloc_blocks a \<and> mem' = memset mem p 0 (max 1 r)"
proof -
  have b: "arena_inv b" by (rule alloc_invD(1) [OF inv k])
  obtain d where d: "b' = Some d" "arena_inv d" "region d = region b"
    and cases: "if p = NULL then d = b \<and> mem' = mem
       else \<exists>n \<ge> max 1 r. block_addresses d = insert (p, n) (block_addresses b) \<and> (p, n) \<notin> block_addresses b
          \<and> mem' = memset mem p 0 (max 1 r)"
    using calloc_spec [OF b c] by blast
  show "alloc_inv (set_arena a k b')" unfolding d(1) by (rule alloc_inv_set [OF inv k d(2,3)])
  have old: "q \<in> alloc_blocks a \<longleftrightarrow> q \<in> block_addresses b \<or> (\<exists>l e. l \<noteq> k \<and> arena_of a l = Some e \<and> q \<in> block_addresses e)" for q
    unfolding alloc_blocks_iff using k by (metis option.inject)
  note new = alloc_blocks_set [OF inv k, of _ d]
  show "p = NULL \<Longrightarrow> alloc_blocks (set_arena a k b') = alloc_blocks a \<and> mem' = mem"
    using cases old new d(1) by auto
  show "\<exists>n \<ge> max 1 r. alloc_blocks (set_arena a k b') = insert (p, n) (alloc_blocks a)
      \<and> (p, n) \<notin> alloc_blocks a \<and> mem' = memset mem p 0 (max 1 r)" if p: "p \<noteq> NULL"
  proof -
    obtain n where n: "max 1 r \<le> n" "block_addresses d = insert (p, n) (block_addresses b)" "(p, n) \<notin> block_addresses b"
      "mem' = memset mem p 0 (max 1 r)" using cases p by auto
    have "p \<in> region b" using block_start [OF d(2), of p n] n(2) d(3) by simp
    then have "(p, n) \<notin> alloc_blocks a" using old n(3) other_arena [OF inv k] by blast
    moreover have "alloc_blocks (set_arena a k b') = insert (p, n) (alloc_blocks a)"
      using old new n(2) d(1) by blast
    ultimately show ?thesis using n by blast
  qed
qed


section \<open>The operations on the whole\<close>

text \<open>What a client sees of an allocation.\<close>

definition handed_out :: "allocator \<Rightarrow> memory \<Rightarrow> nat \<Rightarrow> addr \<Rightarrow> allocator \<Rightarrow> memory \<Rightarrow> bool" where
  "handed_out a mem r p a' mem' \<longleftrightarrow> alloc_inv a'
     \<and> (if p = NULL then alloc_blocks a' = alloc_blocks a \<and> mem' = mem
        else \<exists>n \<ge> max 1 r. alloc_blocks a' = insert (p, n) (alloc_blocks a) \<and> (p, n) \<notin> alloc_blocks a
          \<and> mem' = memset mem p 0 (max 1 r))"

lemma attempt_any:
  assumes inv: "alloc_inv a" and k: "arena_of a k = bo" "\<And>i. k = Sub i \<Longrightarrow> i < nSubAllocators a"
    and c: "buddy_calloc bo mem 1 r = (p, b', mem')"
  shows "handed_out a mem r p (set_arena a k b') mem'"
proof (cases bo)
  case None
  have "p = NULL" "b' = None" "mem' = mem"
    using c by (auto simp: None buddy_calloc_def buddy_malloc_def Let_def split: if_splits)
  moreover have "set_arena a k None = a"
    using k None alloc_invD(3) [OF inv]
    by (cases k) (auto simp: set_suballoc_def suballoc_def fun_upd_idem)
  ultimately show ?thesis using inv by (simp add: handed_out_def)
next
  case (Some b)
  note at = attempt [OF inv k(1) [unfolded Some] c [unfolded Some]]
  then show ?thesis by (cases "p = NULL") (simp_all add: handed_out_def)
qed

lemma handed_out_retry:
  assumes "handed_out a mem r NULL a1 mem1" "handed_out a1 mem1 r p a' mem'"
  shows "handed_out a mem r p a' mem'"
proof -
  have "alloc_blocks a1 = alloc_blocks a" "mem1 = mem" using assms(1) by (simp_all add: handed_out_def)
  then show ?thesis using assms(2) unfolding handed_out_def by (simp only: simp_thms) blast
qed

lemma handed_out_inv: "handed_out a mem r p a' mem' \<Longrightarrow> alloc_inv a'"
  by (simp add: handed_out_def)

lemma try_specs:
  assumes inv: "alloc_inv a"
  shows "try_sub tid a mem len = (p, a', mem') \<Longrightarrow> handed_out a mem len p a' mem'"
    "try_mem a mem len = (p, a', mem') \<Longrightarrow> handed_out a mem len p a' mem'"
    "try_disk a mem len = (p, a', mem') \<Longrightarrow> handed_out a mem len p a' mem'"
proof -
  have none: "handed_out a mem len NULL a mem" using inv by (simp add: handed_out_def)
  show "handed_out a mem len p a' mem'" if t: "try_sub tid a mem len = (p, a', mem')"
  proof (cases "nSubAllocators a = 0")
    case True
    then show ?thesis using t none by (simp add: try_sub_def)
  next
    case False
    define i where "i = tid mod nSubAllocators a"
    have i: "i < nSubAllocators a" using False by (simp add: i_def)
    obtain q b m where c: "buddy_calloc (suballoc a i) mem 1 len = (q, b, m)" by (metis prod.collapse)
    have "p = q" "a' = set_suballoc a i b" "mem' = m" using t False c unfolding try_sub_def i_def [symmetric] by simp_all
    then show ?thesis using attempt_any [OF inv, of "Sub i" "suballoc a i" mem len q b m] c i by simp
  qed
  show "handed_out a mem len p a' mem'" if t: "try_mem a mem len = (p, a', mem')"
  proof (cases "memAlloc a")
    case None
    then show ?thesis using t none by (simp add: try_mem_def)
  next
    case (Some d)
    obtain q b m where c: "buddy_calloc (memAlloc a) mem 1 len = (q, b, m)" by (metis prod.collapse)
    have "p = q" "a' = a\<lparr>memAlloc := b\<rparr>" "mem' = m" using t Some c unfolding try_mem_def by simp_all
    then show ?thesis using attempt_any [OF inv, of Mem "memAlloc a" mem len q b m] c by simp
  qed
  show "handed_out a mem len p a' mem'" if t: "try_disk a mem len = (p, a', mem')"
  proof (cases "diskAlloc a")
    case None
    then show ?thesis using t none by (simp add: try_disk_def)
  next
    case (Some d)
    obtain q b m where c: "buddy_calloc (diskAlloc a) mem 1 len = (q, b, m)" by (metis prod.collapse)
    have "p = q" "a' = a\<lparr>diskAlloc := b\<rparr>" "mem' = m" using t Some c unfolding try_disk_def by simp_all
    then show ?thesis using attempt_any [OF inv, of Disk "diskAlloc a" mem len q b m] c by simp
  qed
qed

lemma AllocatorAllocate_spec:
  assumes inv: "alloc_inv a" and r: "AllocatorAllocate tid a mem len = (p, a', mem')"
  shows "handed_out a mem len p a' mem'"
proof -
  obtain p1 a1 m1 where c1: "try_sub tid a mem len = (p1, a1, m1)" by (metis prod.collapse)
  obtain p2 a2 m2 where c2: "try_mem a1 m1 len = (p2, a2, m2)" by (metis prod.collapse)
  note h1 = try_specs(1) [OF inv c1]
  note h2 = try_specs(2) [OF handed_out_inv [OF h1] c2]
  have r': "(if p1 \<noteq> NULL then (p1, a1, m1) else if p2 = NULL then try_disk a2 m2 len else (p2, a2, m2)) = (p, a', mem')"
    using r by (simp only: AllocatorAllocate_def c1 c2 Let_def prod.case)
  consider (one) "p1 \<noteq> NULL" | (two) "p1 = NULL" "p2 \<noteq> NULL" | (three) "p1 = NULL" "p2 = NULL" by blast
  then show ?thesis
  proof cases
    case one
    then show ?thesis using r' h1 by simp
  next
    case two
    then show ?thesis using r' handed_out_retry [OF h1 [unfolded two(1)] h2] by simp
  next
    case three
    then have "try_disk a2 m2 len = (p, a', mem')" using r' by simp
    note h3 = try_specs(3) [OF handed_out_inv [OF h2] this]
    show ?thesis
      using handed_out_retry [OF h1 [unfolded three(1)] handed_out_retry [OF h2 [unfolded three(2)] h3]] .
  qed
qed

lemma sub_block:
  assumes inv: "alloc_inv a" and i: "i < nSubAllocators a" and k: "arena_of a k = Some b" "(x, n) \<in> block_addresses b"
    and x: "x \<in> sub_region a i"
  shows "k = Sub i"
proof -
  have r: "x \<in> region b" using block_start [OF alloc_invD(1) [OF inv k(1)] k(2)] by blast
  show ?thesis
  proof (cases k)
    case (Sub j)
    then have "j < nSubAllocators a" "suballoc a j = Some b" using k(1) by (auto split: if_splits)
    then have "x \<in> sub_region a j" using alloc_invD(5) [OF inv] r by blast
    then show ?thesis using sub_region_unique x Sub by blast
  qed (use alloc_invD(6) [OF inv i, of b] k(1) r x in auto)
qed

lemma sub_of_index:
  assumes "memBase a \<le> x" "(x - memBase a) div subAllocatorSize a = i" "i < nSubAllocators a" "alloc_inv a"
  shows "x \<in> sub_region a i"
proof -
  have "sub_region a i \<noteq> {}" using alloc_invD(4) [OF assms(4,3)] by blast
  then have s: "0 < subAllocatorSize a" by (auto simp: sub_region_def)
  then have "i * subAllocatorSize a \<le> x - memBase a" "x - memBase a < Suc i * subAllocatorSize a"
    using assms(2) by (auto simp: dividend_less_div_times)
  then show ?thesis using assms(1) by (auto simp: sub_region_def)
qed

text \<open>Freeing in one arena, and in an arena that has no block at the address.\<close>

lemma free_one:
  assumes inv: "alloc_inv a" and k: "arena_of a k = Some b"
    and others: "\<And>l d n. arena_of a l = Some d \<Longrightarrow> (x, n) \<in> block_addresses d \<Longrightarrow> l = k"
  shows "alloc_inv (set_arena a k (Some (free_arena b x)))"
    "alloc_blocks (set_arena a k (Some (free_arena b x))) = {q \<in> alloc_blocks a. fst q \<noteq> x}"
proof -
  have b: "arena_inv b" by (rule alloc_invD(1) [OF inv k])
  show "alloc_inv (set_arena a k (Some (free_arena b x)))"
    by (rule alloc_inv_set [OF inv k arena.gv_inv [OF b] free_region [OF b]])
  have new: "q \<in> alloc_blocks (set_arena a k (Some (free_arena b x))) \<longleftrightarrow>
      q \<in> block_addresses b \<and> fst q \<noteq> x \<or> (\<exists>l d. l \<noteq> k \<and> arena_of a l = Some d \<and> q \<in> block_addresses d)" for q
    unfolding alloc_blocks_set [OF inv k] arena.gv_blocks [OF b] by blast
  have old: "q \<in> alloc_blocks a \<longleftrightarrow> q \<in> block_addresses b \<or> (\<exists>l d. l \<noteq> k \<and> arena_of a l = Some d \<and> q \<in> block_addresses d)" for q
    unfolding alloc_blocks_iff using k by (metis option.inject)
  have "fst q \<noteq> x" if "l \<noteq> k" "arena_of a l = Some d" "q \<in> block_addresses d" for q l d
    using others [OF that(2), of "snd q"] that(1,3) by (metis prod.collapse)
  then show "alloc_blocks (set_arena a k (Some (free_arena b x))) = {q \<in> alloc_blocks a. fst q \<noteq> x}"
    using new old by blast
qed

lemma free_absent:
  assumes "arena_inv b" "\<And>n. (x, n) \<notin> block_addresses b"
  shows "free_arena b x = b"
proof (rule free_arena_spec(4) [OF assms(1)])
  have "(x, snd q) \<in> block_addresses b" if "q \<in> starts_at b x" for q
  proof -
    have "fst q + buddy_main b = x" "q \<in> live b" using that by (simp_all add: starts_at_def add.commute)
    then show ?thesis unfolding block_addresses_def by (intro image_eqI [of _ _ q]) (simp_all add: case_prod_beta add.commute)
  qed
  then show "starts_at b x = {}" using assms(2) by blast
qed

lemma free_absent_option:
  assumes "alloc_inv a" "arena_of a k = bo" "\<And>d n. arena_of a k = Some d \<Longrightarrow> (x, n) \<notin> block_addresses d"
  shows "buddy_free bo x = bo"
  using assms free_absent alloc_invD(1) [OF assms(1)] by (cases bo) (auto simp: buddy_free_def)

lemma AllocatorFree_spec:
  assumes inv: "alloc_inv a"
  shows "alloc_inv (AllocatorFree a x) \<and> alloc_blocks (AllocatorFree a x) = {q \<in> alloc_blocks a. fst q \<noteq> x}"
proof -
  define i where "i = (x - memBase a) div subAllocatorSize a"
  show ?thesis
  proof (cases "nSubAllocators a \<noteq> 0 \<and> memBase a \<le> x \<and> i < nSubAllocators a")
    case True
    have e: "AllocatorFree a x = set_suballoc a i (buddy_free (suballoc a i) x)"
      using True by (simp add: AllocatorFree_def allocDeref_def i_def Let_def)
    have x: "x \<in> sub_region a i" using sub_of_index [of a x i] True inv by (simp add: i_def)
    have others: "l = Sub i" if "arena_of a l = Some d" "(x, n) \<in> block_addresses d" for l d n
      using sub_block [OF inv _ that x] True by blast
    show ?thesis
    proof (cases "suballoc a i")
      case None
      then have "AllocatorFree a x = a"
        using alloc_invD(3) [OF inv, of i] True by (auto simp: e buddy_free_def set_suballoc_def suballoc_def fun_upd_idem)
      moreover have "arena_of a (Sub i) = None" using None by simp
      then have "fst q \<noteq> x" if "q \<in> alloc_blocks a" for q
        using that others by (cases q) (fastforce simp: alloc_blocks_iff)
      ultimately show ?thesis using inv by auto
    next
      case (Some b)
      have "arena_of a (Sub i) = Some b" using Some True by simp
      from free_one [OF inv this others] show ?thesis by (simp add: e Some buddy_free_def)
    qed
  next
    case False
    have e: "AllocatorFree a x = a\<lparr>memAlloc := buddy_free (memAlloc a) x, diskAlloc := buddy_free (diskAlloc a) x\<rparr>"
      unfolding AllocatorFree_def Let_def allocDeref_def by (rule if_not_P) (use False in \<open>auto simp: i_def\<close>)
    have notsub: "False" if "arena_of a (Sub j) = Some d" "(x, n) \<in> block_addresses d" for j d n
    proof -
      have j: "j < nSubAllocators a" "suballoc a j = Some d" using that(1) by (auto split: if_splits)
      have "x \<in> sub_region a j"
        using alloc_invD(5) [OF inv j] block_start [OF alloc_invD(1) [OF inv that(1)] that(2)] by blast
      then show False using sub_index False j(1) by (auto simp: i_def)
    qed
    have same: "buddy_free (arena_of a k) x = arena_of a k" if "\<And>d n. arena_of a k = Some d \<Longrightarrow> (x, n) \<notin> block_addresses d" for k
      by (rule free_absent_option [OF inv refl that])
    show ?thesis
    proof (cases "\<exists>k d n. arena_of a k = Some d \<and> (x, n) \<in> block_addresses d")
      case True
      then obtain k d n where k: "arena_of a k = Some d" "(x, n) \<in> block_addresses d" by blast
      have x: "x \<in> region d" using block_start [OF alloc_invD(1) [OF inv k(1)] k(2)] by blast
      have others: "l = k" if "arena_of a l = Some e" "(x, m) \<in> block_addresses e" for l e m
        using other_arena [OF inv k(1) that(1) _ that(2)] x by blast
      note one = free_one [OF inv k(1) others]
      have "AllocatorFree a x = set_arena a k (Some (free_arena d x))"
      proof (cases k)
        case Mem
        then have "buddy_free (diskAlloc a) x = diskAlloc a" using same [of Disk] others by fastforce
        then show ?thesis using Mem k(1) by (simp add: e buddy_free_def)
      next
        case Disk
        then have "buddy_free (memAlloc a) x = memAlloc a" using same [of Mem] others by fastforce
        then show ?thesis using Disk k(1) by (simp add: e buddy_free_def)
      qed (use notsub k in blast)
      then show ?thesis using one by simp
    next
      case False
      then have "buddy_free (arena_of a Mem) x = arena_of a Mem" "buddy_free (arena_of a Disk) x = arena_of a Disk"
        using same by blast+
      then have "AllocatorFree a x = a" by (simp add: e)
      moreover have "fst q \<noteq> x" if "q \<in> alloc_blocks a" for q
        using that False by (cases q) (fastforce simp: alloc_blocks_iff)
      ultimately show ?thesis using inv by auto
    qed
  qed
qed


section \<open>The allocator provides the contract\<close>

definition allocate_step :: "nat \<Rightarrow> allocator \<times> memory \<Rightarrow> nat \<Rightarrow> addr \<times> allocator \<times> memory" where
  "allocate_step tid st len = AllocatorAllocate tid (fst st) (snd st) len"

definition free_step :: "allocator \<times> memory \<Rightarrow> addr \<Rightarrow> allocator \<times> memory" where
  "free_step st ref = (AllocatorFree (fst st) ref, snd st)"

lemma allocate_step_spec: "alloc_inv (fst st) \<Longrightarrow>
    handed_out (fst st) (snd st) r (fst (allocate_step tid st r)) (fst (snd (allocate_step tid st r))) (snd (snd (allocate_step tid st r)))"
  unfolding allocate_step_def by (rule AllocatorAllocate_spec) simp_all

interpretation prog: slot_allocator "\<lambda>st. alloc_inv (fst st)" "\<lambda>st. alloc_blocks (fst st)" "allocate_step tid" free_step
  for tid
proof
  fix st :: "allocator \<times> memory" and p q :: "nat \<times> nat" and r x :: nat
  assume inv: "alloc_inv (fst st)"
  show "extent p \<inter> extent q = {}" if pq: "p \<in> alloc_blocks (fst st)" "q \<in> alloc_blocks (fst st)" "p \<noteq> q"
  proof -
    obtain k b where k: "arena_of (fst st) k = Some b" "p \<in> block_addresses b" using pq(1) by (auto simp: alloc_blocks_iff)
    obtain l d where l: "arena_of (fst st) l = Some d" "q \<in> block_addresses d" using pq(2) by (auto simp: alloc_blocks_iff)
    show ?thesis
    proof (cases "k = l")
      case True
      then show ?thesis using arena.disjoint [OF alloc_invD(1) [OF inv k(1)] k(2) _ pq(3)] k(1) l by simp
    next
      case False
      have "extent p \<subseteq> region b" "extent q \<subseteq> region d"
        using block_in_region [OF alloc_invD(1) [OF inv k(1)]] block_in_region [OF alloc_invD(1) [OF inv l(1)]] k(2) l(2)
        by (metis prod.collapse)+
      then show ?thesis using regions_apart [OF inv k(1) l(1) False] by blast
    qed
  qed
  show "0 < snd p" if p: "p \<in> alloc_blocks (fst st)"
  proof -
    obtain k b where k: "arena_of (fst st) k = Some b" "p \<in> block_addresses b" using p by (auto simp: alloc_blocks_iff)
    show ?thesis by (rule arena.nonempty [OF alloc_invD(1) [OF inv k(1)] k(2)])
  qed
  note h = allocate_step_spec [OF inv, of r tid, unfolded handed_out_def]
  show "alloc_inv (fst (snd (allocate_step tid st r)))" using h by blast
  show "fst (allocate_step tid st r) = 0 \<Longrightarrow> alloc_blocks (fst (snd (allocate_step tid st r))) = alloc_blocks (fst st)"
    using h by simp
  show "fst (allocate_step tid st r) \<noteq> 0 \<Longrightarrow> \<exists>n \<ge> max 1 r. alloc_blocks (fst (snd (allocate_step tid st r))) =
      insert (fst (allocate_step tid st r), n) (alloc_blocks (fst st)) \<and> (fst (allocate_step tid st r), n) \<notin> alloc_blocks (fst st)"
    using h by (simp only: if_False) blast
  show "alloc_inv (fst (free_step st x))" using AllocatorFree_spec [OF inv] by (simp add: free_step_def)
  show "alloc_blocks (fst (free_step st x)) = {q \<in> alloc_blocks (fst st). fst q \<noteq> x}"
    using AllocatorFree_spec [OF inv] by (simp add: free_step_def)
qed

end
