(* ===== verification/Store.thy ===== *)
theory Store
  imports Allocator File_Job "HOL-Library.Multiset"
begin

text \<open>
  The objects that the program keeps in its allocator: parts of path names (\<open>allocator.h\<close>), counted
  directory descriptors, link entries and the records of the hard link tables (\<open>hlinkstate.h\<close>). The
  store maps the address of an allocation to the object in it; giving the address back to the
  allocator removes the object. A spinlock is the boolean that says whether it is held. Loops over
  chains that may not end are partial functions: reading an address that holds no object, and not
  returning, are the value \<open>None\<close>.
\<close>

section \<open>Objects\<close>

record string_part =
  part_rc :: nat
  part_len :: nat
  part_prev :: addr
  part_data :: string

definition sizeof_StringPart :: nat where
  "sizeof_StringPart = 24"

record fdrc =
  fdrc_rc :: nat
  fdrc_fd :: int
  fdrc_path :: addr
  fdrc_dst :: bool
  fdrc_srcStx :: statx

definition sizeof_FDRC :: nat where
  "sizeof_FDRC = 288"

record link_entry =
  entry_link :: addr
  entry_prev :: addr
  entry_dstFD :: addr

definition sizeof_LinkEntry :: nat where
  "sizeof_LinkEntry = 24"

record hlink_info =
  transferred :: bool
  destInode :: nat
  hl_remote :: addr
  hl_links :: addr
  hl_nlinkRC :: nat
  hl_locked :: bool

definition sizeof_HLinkInfo :: nat where
  "sizeof_HLinkInfo = 48"

record hlink_info_rev =
  srcInode :: nat
  rev_nlinkRC :: nat
  rev_locked :: bool

definition sizeof_HLinkInfoRev :: nat where
  "sizeof_HLinkInfoRev = 24"

text \<open>The entries of a directory that is read before it is worked on (\<open>copy2.cpp\<close>).\<close>

record dir_ent =
  ent_path :: addr
  ent_prev :: addr
  ent_isDir :: bool

definition sizeof_DirEnt :: nat where
  "sizeof_DirEnt = 24"

text \<open>The bytes of an allocation, read as what the program has put there.\<close>

datatype object = Part string_part | Buf string | Fdrc fdrc | Link link_entry
  | HInfo hlink_info | Rev hlink_info_rev | Ent dir_ent

fun object_size :: "object \<Rightarrow> nat" where
  "object_size (Part p) = sizeof_StringPart + part_len p + 1"
| "object_size (Buf s) = length s"
| "object_size (Fdrc _) = sizeof_FDRC"
| "object_size (Link _) = sizeof_LinkEntry"
| "object_size (HInfo _) = sizeof_HLinkInfo"
| "object_size (Rev _) = sizeof_HLinkInfoRev"
| "object_size (Ent _) = sizeof_DirEnt"

record store =
  heap :: allocator
  heap_mem :: memory
  objects :: "addr \<Rightarrow> object option"

definition strings :: "store \<Rightarrow> addr \<Rightarrow> string_part option" where
  "strings st p = (case objects st p of Some (Part x) \<Rightarrow> Some x | _ \<Rightarrow> None)"

definition fdrcs :: "store \<Rightarrow> addr \<Rightarrow> fdrc option" where
  "fdrcs st p = (case objects st p of Some (Fdrc x) \<Rightarrow> Some x | _ \<Rightarrow> None)"

definition links :: "store \<Rightarrow> addr \<Rightarrow> link_entry option" where
  "links st p = (case objects st p of Some (Link x) \<Rightarrow> Some x | _ \<Rightarrow> None)"

definition hinfos :: "store \<Rightarrow> addr \<Rightarrow> hlink_info option" where
  "hinfos st p = (case objects st p of Some (HInfo x) \<Rightarrow> Some x | _ \<Rightarrow> None)"

definition revs :: "store \<Rightarrow> addr \<Rightarrow> hlink_info_rev option" where
  "revs st p = (case objects st p of Some (Rev x) \<Rightarrow> Some x | _ \<Rightarrow> None)"

definition ents :: "store \<Rightarrow> addr \<Rightarrow> dir_ent option" where
  "ents st p = (case objects st p of Some (Ent x) \<Rightarrow> Some x | _ \<Rightarrow> None)"

definition put_object :: "addr \<Rightarrow> object \<Rightarrow> store \<Rightarrow> store" where
  "put_object p x st = st\<lparr>objects := (objects st)(p \<mapsto> x)\<rparr>"

definition store_alloc :: "nat \<Rightarrow> store \<Rightarrow> nat \<Rightarrow> addr \<times> store" where
  "store_alloc tid st len =
     (let (p, a, m) = AllocatorAllocate tid (heap st) (heap_mem st) len
      in (p, st\<lparr>heap := a, heap_mem := m\<rparr>))"

definition store_free :: "store \<Rightarrow> addr \<Rightarrow> store" where
  "store_free st p = st\<lparr>heap := AllocatorFree (heap st) p, objects := (objects st)(p := None)\<rparr>"

section \<open>Parts of path names\<close>

text \<open>The macro \<open>STRING_PART_RC_INC\<close>.\<close>

definition string_part_rc_inc :: "store \<Rightarrow> addr \<Rightarrow> store option" where
  "string_part_rc_inc st ref =
     map_option (\<lambda>part. put_object ref (Part (part\<lparr>part_rc := inc64 (part_rc part)\<rparr>)) st) (strings st ref)"

text \<open>Writing the new part through a null reference, when the allocator has no memory, is \<open>None\<close>.\<close>

definition toStringPart :: "nat \<Rightarrow> store \<Rightarrow> addr \<Rightarrow> string \<Rightarrow> nat \<Rightarrow> string \<Rightarrow> nat \<Rightarrow> (addr \<times> store) option" where
  "toStringPart tid st currentTip s1 len1 s2 len2 =
     (case (if \<not> isNullRef currentTip then string_part_rc_inc st currentTip else Some st) of
        None \<Rightarrow> None
      | Some st \<Rightarrow>
          let (cur, st) = store_alloc tid st (sizeof_StringPart + len1 + len2 + 1)
          in if isNullRef cur then None
             else Some (cur, put_object cur (Part \<lparr>part_rc = 1, part_len = len1 + len2,
                    part_prev = currentTip, part_data = take len1 s1 @ take len2 s2\<rparr>) st))"

partial_function (option) stringPartRelease :: "store \<Rightarrow> addr \<Rightarrow> store option" where
  "stringPartRelease st curRef =
     (if isNullRef curRef then Some st
      else case strings st curRef of
             None \<Rightarrow> None
           | Some part \<Rightarrow>
               let rc = part_rc part;
                   st = put_object curRef (Part (part\<lparr>part_rc := dec64 rc\<rparr>)) st
               in if rc \<le> 1 then stringPartRelease (store_free st curRef) (part_prev part) else Some st)"

declare stringPartRelease.simps [code]

text \<open>The two loops of \<open>stringRefMemcpy\<close>: the length of the name, and copying from its end.\<close>

partial_function (option) memcpy_size :: "store \<Rightarrow> addr \<Rightarrow> nat \<Rightarrow> nat option" where
  "memcpy_size st cur n =
     (if isNullRef cur then Some n
      else case strings st cur of
             None \<Rightarrow> None
           | Some part \<Rightarrow> memcpy_size st (part_prev part) (n + part_len part))"

declare memcpy_size.simps [code]

definition write_at :: "string \<Rightarrow> nat \<Rightarrow> string \<Rightarrow> string" where
  "write_at buf i s = take i buf @ s @ drop (i + length s) buf"

partial_function (option) memcpy_copy :: "store \<Rightarrow> addr \<Rightarrow> nat \<Rightarrow> nat \<Rightarrow> string \<Rightarrow> string option" where
  "memcpy_copy st cur n it buf =
     (if isNullRef cur then Some buf
      else case strings st cur of
             None \<Rightarrow> None
           | Some part \<Rightarrow>
               let it = it + part_len part
               in memcpy_copy st (part_prev part) n it (write_at buf (n - it - 1) (part_data part)))"

declare memcpy_copy.simps [code]

abbreviation (input) NUL :: char where
  "NUL \<equiv> CHR 0x00"

definition stringRefMemcpy :: "store \<Rightarrow> addr \<Rightarrow> string \<Rightarrow> nat \<Rightarrow> (nat \<times> string) option" where
  "stringRefMemcpy st ref buf bufsize =
     (if isNullRef ref then Some (1, if bufsize \<noteq> 0 then buf[0 := NUL] else buf)
      else case memcpy_size st ref 0 of
             None \<Rightarrow> None
           | Some n \<Rightarrow>
               let n = n + 1
               in if bufsize < n then Some (n, buf)
                  else map_option (\<lambda>buf. (n, buf[n - 1 := NUL])) (memcpy_copy st ref n 0 buf))"

text \<open>
  The buffer is cleared first, grows to the length of the name, and the result is the code, the address
  and the size of the buffer.
\<close>

definition stringrefMemcpyWithRealloc :: "nat \<Rightarrow> store \<Rightarrow> addr \<Rightarrow> addr \<times> nat \<Rightarrow> (int \<times> (addr \<times> nat) \<times> store) option" where
  "stringrefMemcpyWithRealloc tid st ref buf =
     (let (p, bufsize) = buf
      in if p = NULL then None
      else case stringRefMemcpy st ref (replicate bufsize NUL) bufsize of
        None \<Rightarrow> None
      | Some (len, content) \<Rightarrow>
          if len \<ge> bufsize
          then
            let st = store_free st p;
                (p, st) = store_alloc tid st len
            in if isNullRef p then None
               else map_option (\<lambda>(len', content).
                      (if len \<noteq> len' then 1 else 0, (p, len), put_object p (Buf content) st))
                      (stringRefMemcpy st ref (replicate len NUL) len)
          else Some (0, (p, bufsize), put_object p (Buf content) st))"

text \<open>A buffer that belongs to the thread: it is allocated when it is used for the first time.\<close>

definition PATH_MAX :: nat where
  "PATH_MAX = 4096"

definition thread_buffer :: "nat \<Rightarrow> store \<Rightarrow> (addr \<times> nat) option \<Rightarrow> nat \<Rightarrow> (addr \<times> nat) \<times> store" where
  "thread_buffer tid st tb n =
     (case tb of
        Some buf \<Rightarrow> (buf, st)
      | None \<Rightarrow> let (p, st) = store_alloc tid st n
                in ((p, n), if isNullRef p then st else put_object p (Buf (replicate n NUL)) st))"

definition stringrefImmediateToCString ::
    "nat \<Rightarrow> store \<Rightarrow> addr \<Rightarrow> (addr \<times> nat) option \<Rightarrow> ((addr \<times> nat) \<times> store) option" where
  "stringrefImmediateToCString tid st ref remoteBuf =
     (let (buf, st) = thread_buffer tid st remoteBuf PATH_MAX
      in map_option snd (stringrefMemcpyWithRealloc tid st ref buf))"

section \<open>Lists of links\<close>

definition linkEntryAppend :: "store \<Rightarrow> addr \<Rightarrow> addr \<Rightarrow> (addr \<times> store) option" where
  "linkEntryAppend st tip next_ref =
     (case links st next_ref of
        None \<Rightarrow> None
      | Some entry \<Rightarrow>
          if isNullRef tip then Some (next_ref, put_object next_ref (Link (entry\<lparr>entry_prev := NULL\<rparr>)) st)
          else Some (next_ref, put_object next_ref (Link (entry\<lparr>entry_prev := tip\<rparr>)) st))"

end
