(* ===== verification/Store_Strings.thy ===== *)
theory Store_Strings
  imports Store
begin

text \<open>
  Path names as chains of counted parts: what a chain spells, the ownership invariant (the counter of
  a part is the number of its owners outside and of the parts that continue it) and that building,
  copying and releasing names are right.
\<close>

section \<open>What a chain spells\<close>

type_synonym parts = "addr \<Rightarrow> string_part option"

inductive spells :: "parts \<Rightarrow> addr \<Rightarrow> string \<Rightarrow> bool" for H :: parts where
  spells_null: "spells H NULL []"
| spells_part: "p \<noteq> NULL \<Longrightarrow> H p = Some part \<Longrightarrow> spells H (part_prev part) s \<Longrightarrow> spells H p (s @ part_data part)"

inductive_cases spells_cases: "spells H p s"

lemma spells_null_iff [simp]: "spells H NULL s \<longleftrightarrow> s = []"
proof
  assume "spells H NULL s"
  then show "s = []" by (cases rule: spells.cases) simp_all
next
  assume "s = []"
  then show "spells H NULL s" using spells.spells_null [of H] by (simp only:)
qed

lemma spells_unique: "spells H p s \<Longrightarrow> spells H p t \<Longrightarrow> s = t"
proof (induction arbitrary: t rule: spells.induct)
  case (spells_part p part s)
  note hp = spells_part.hyps(1,2) and ih = spells_part.IH
  from spells_part.prems show ?case
  proof (cases rule: spells.cases)
    case (spells_part part' s')
    then have "part' = part" "spells H (part_prev part) s'" using hp by simp_all
    then show ?thesis using ih spells_part(1) by simp
  qed (use hp(1) in simp)
qed simp

text \<open>Counters do not matter, nor do parts that are added.\<close>

lemma spells_mono:
  assumes "spells H p s" "\<And>q part. H q = Some part \<Longrightarrow>
    \<exists>part'. H' q = Some part' \<and> part_prev part' = part_prev part \<and> part_data part' = part_data part"
  shows "spells H' p s"
  using assms(1)
proof (induction rule: spells.induct)
  case (spells_part p part s)
  obtain part' where "H' p = Some part'" "part_prev part' = part_prev part" "part_data part' = part_data part"
    using assms(2) [OF spells_part.hyps(2)] by blast
  then show ?case using spells.spells_part [of p H' part' s] spells_part by simp
qed simp

section \<open>Ownership\<close>

definition continuing :: "parts \<Rightarrow> addr \<Rightarrow> addr set" where
  "continuing H p = {q. \<exists>part. H q = Some part \<and> part_prev part = p}"

definition parts_ok :: "parts \<Rightarrow> addr multiset \<Rightarrow> bool" where
  "parts_ok H ext \<longleftrightarrow> finite (dom H) \<and> NULL \<notin> dom H \<and> set_mset ext \<subseteq> dom H \<and> size ext + card (dom H) < 2 ^ 64
     \<and> (\<forall>p part. H p = Some part \<longrightarrow> part_rc part = count ext p + card (continuing H p) \<and> 0 < part_rc part
          \<and> length (part_data part) = part_len part \<and> (part_prev part = NULL \<or> part_prev part \<in> dom H))
     \<and> (\<exists>rank. \<forall>p part. H p = Some part \<and> part_prev part \<noteq> NULL \<longrightarrow> rank (part_prev part) < (rank p :: nat))"

definition store_ok :: "store \<Rightarrow> bool" where
  "store_ok st \<longleftrightarrow> alloc_inv (heap st) \<and> finite (dom (objects st)) \<and> objects st NULL = None
     \<and> (\<forall>p x. objects st p = Some x \<longrightarrow> (\<exists>n \<ge> object_size x. (p, n) \<in> alloc_blocks (heap st)))"

definition strings_ok :: "store \<Rightarrow> addr multiset \<Rightarrow> bool" where
  "strings_ok st ext \<longleftrightarrow> store_ok st \<and> parts_ok (strings st) ext"

lemma parts_okD:
  assumes "parts_ok H ext"
  shows "finite (dom H)" "H NULL = None" "set_mset ext \<subseteq> dom H"
    "H p = Some part \<Longrightarrow> part_rc part = count ext p + card (continuing H p)"
    "H p = Some part \<Longrightarrow> 0 < part_rc part" "H p = Some part \<Longrightarrow> length (part_data part) = part_len part"
    "H p = Some part \<Longrightarrow> part_prev part = NULL \<or> part_prev part \<in> dom H" "size ext + card (dom H) < 2 ^ 64"
  using assms unfolding parts_ok_def by blast+

lemma parts_ok_not_null: "parts_ok H ext \<Longrightarrow> p \<in># ext \<Longrightarrow> p \<noteq> NULL"
proof
  assume "parts_ok H ext" "p \<in># ext" "p = NULL"
  then show False using parts_okD(2,3) [of H ext] by (metis domIff subsetD)
qed

lemma continuing_sub: "continuing H p \<subseteq> dom H"
  by (auto simp: continuing_def)

lemma finite_continuing: "parts_ok H ext \<Longrightarrow> finite (continuing H p)"
  using finite_subset [OF continuing_sub parts_okD(1)] .

lemma rc_bound:
  assumes "parts_ok H ext" "H p = Some part"
  shows "part_rc part < 2 ^ 64"
proof -
  have "card (continuing H p) \<le> card (dom H)"
    by (rule card_mono [OF parts_okD(1) [OF assms(1)] continuing_sub])
  moreover have "count ext p \<le> size ext" by (rule count_le_size)
  ultimately show ?thesis using parts_okD(4,8) [OF assms(1)] assms(2) by fastforce
qed

text \<open>Every chain of the store spells something.\<close>

lemma spells_total:
  assumes "parts_ok H ext" "p = NULL \<or> p \<in> dom H"
  shows "\<exists>s. spells H p s"
proof -
  obtain rank :: "addr \<Rightarrow> nat" where rank: "\<And>p part. H p = Some part \<Longrightarrow> part_prev part \<noteq> NULL \<Longrightarrow> rank (part_prev part) < rank p"
    using assms(1) unfolding parts_ok_def by blast
  show ?thesis
    using assms(2)
  proof (induction "rank p" arbitrary: p rule: less_induct)
    case less
    show ?case
    proof (cases "p = NULL")
      case False
      then obtain part where part: "H p = Some part" using less.prems by blast
      have "\<exists>s. spells H (part_prev part) s"
      proof (cases "part_prev part = NULL")
        case False
        then show ?thesis using less.hyps rank [OF part] parts_okD(7) [OF assms(1) part] by blast
      qed simp
      then show ?thesis using spells.spells_part [of p H part] False part by blast
    qed (use spells.spells_null [of H] in blast)
  qed
qed

section \<open>Copying a name\<close>

lemma memcpy_size_spells:
  assumes "spells (strings st) p s" "parts_ok (strings st) ext"
  shows "memcpy_size st p n = Some (n + length s)"
  using assms(1)
proof (induction arbitrary: n rule: spells.induct)
  case spells_null
  then show ?case by (simp add: memcpy_size.simps isNullRef_def)
next
  case (spells_part p part s)
  then show ?case
    using parts_okD(6) [OF assms(2) spells_part.hyps(2)]
    by (subst memcpy_size.simps) (simp add: isNullRef_def)
qed

lemma memcpy_copy_spells:
  assumes "spells (strings st) p s" "parts_ok (strings st) ext" "a + length s + it + 1 = n" "n \<le> length buf"
  shows "memcpy_copy st p n it buf = Some (take a buf @ s @ drop (a + length s) buf)"
  using assms(1,3,4)
proof (induction arbitrary: it buf rule: spells.induct)
  case spells_null
  then show ?case by (simp add: memcpy_copy.simps isNullRef_def)
next
  case (spells_part p part s)
  define d where "d = part_data part"
  have len: "part_len part = length d" using parts_okD(6) [OF assms(2) spells_part.hyps(2)] by (simp add: d_def)
  define b where "b = write_at buf (a + length s) d"
  have i: "n - (it + length d) - 1 = a + length s" using spells_part.prems by (simp add: d_def)
  have lb: "length b = length buf" using spells_part.prems by (simp add: b_def write_at_def d_def)
  have "memcpy_copy st (part_prev part) n (it + length d) b = Some (take a b @ s @ drop (a + length s) b)"
    using spells_part.prems lb by (intro spells_part.IH) (simp_all add: d_def)
  moreover have "take a b = take a buf" using spells_part.prems by (simp add: b_def write_at_def min_def)
  moreover have "drop (a + length s) b = d @ drop (a + length s + length d) buf"
    using spells_part.prems by (simp add: b_def write_at_def)
  moreover have "memcpy_copy st p n it buf = memcpy_copy st (part_prev part) n (it + length d) b"
    unfolding b_def d_def [symmetric] using spells_part.hyps(1,2) i
    by (subst memcpy_copy.simps) (simp add: isNullRef_def Let_def len d_def [symmetric])
  ultimately show ?case by (simp add: d_def add.assoc)
qed

lemma stringRefMemcpy_spells:
  assumes "spells (strings st) ref s" "parts_ok (strings st) ext" "length buf = bufsize" "0 < bufsize"
  shows "stringRefMemcpy st ref buf bufsize
    = Some (length s + 1, if length s < bufsize then s @ NUL # drop (length s + 1) buf else buf)"
proof (cases "ref = NULL")
  case True
  obtain c cs where "buf = c # cs" using assms(3,4) by (cases buf) auto
  then show ?thesis using True assms(1,4) by (simp add: stringRefMemcpy_def isNullRef_def)
next
  case False
  note sz = memcpy_size_spells [OF assms(1,2), of 0]
  show ?thesis
  proof (cases "length s < bufsize")
    case True
    have "memcpy_copy st ref (length s + 1) 0 buf = Some (s @ drop (length s) buf)"
      using memcpy_copy_spells [OF assms(1,2), of 0 0 "length s + 1" buf] True assms(3) by simp
    moreover obtain c cs where "drop (length s) buf = c # cs" "drop (Suc (length s)) buf = cs"
      using True assms(3) by (metis Cons_nth_drop_Suc)
    ultimately show ?thesis using False sz True by (simp add: stringRefMemcpy_def isNullRef_def list_update_append)
  next
    case False
    then show ?thesis using \<open>ref \<noteq> NULL\<close> sz by (simp add: stringRefMemcpy_def isNullRef_def)
  qed
qed

end
