(* ===== verification/Store_Owners.thy ===== *)
theory Store_Owners
  imports Store_Strings
begin

text \<open>
  The counters of the parts of names: taking a reference, continuing a name and giving a reference
  back keep the ownership invariant, and a name that nobody holds is gone.
\<close>

lemma dec64_pos:
  assumes "0 < n" "n < 2 ^ 64"
  shows "dec64 n = n - 1"
proof -
  obtain k where k: "n = Suc k" using assms(1) by (cases n) auto
  then have "n + (2 ^ 64 - 1) = k + 2 ^ 64" by simp
  then have "dec64 n = k mod 2 ^ 64" by (simp only: mod_add_self2)
  then show ?thesis using assms(2) k by simp
qed

section \<open>Steps on the counters\<close>

text \<open>A possibly null reference, as an owner has it.\<close>

definition own :: "addr \<Rightarrow> addr multiset \<Rightarrow> addr multiset" where
  "own p ext = (if p = NULL then ext else add_mset p ext)"

definition ranked :: "parts \<Rightarrow> (addr \<Rightarrow> nat) \<Rightarrow> bool" where
  "ranked H rank \<longleftrightarrow> (\<forall>p part. H p = Some part \<and> part_prev part \<noteq> NULL \<longrightarrow> rank (part_prev part) < rank p)"

definition part_ok :: "parts \<Rightarrow> addr multiset \<Rightarrow> addr \<Rightarrow> string_part \<Rightarrow> bool" where
  "part_ok H ext p part \<longleftrightarrow> part_rc part = count ext p + card (continuing H p) \<and> 0 < part_rc part
     \<and> length (part_data part) = part_len part \<and> (part_prev part = NULL \<or> part_prev part \<in> dom H)"

lemma parts_ok_alt: "parts_ok H ext \<longleftrightarrow> finite (dom H) \<and> NULL \<notin> dom H \<and> set_mset ext \<subseteq> dom H
    \<and> size ext + card (dom H) < 2 ^ 64 \<and> (\<forall>p part. H p = Some part \<longrightarrow> part_ok H ext p part) \<and> (\<exists>rank. ranked H rank)"
  unfolding parts_ok_def part_ok_def ranked_def by (rule refl)

lemma parts_ok_part: "parts_ok H ext \<Longrightarrow> H p = Some part \<Longrightarrow> part_ok H ext p part"
  unfolding parts_ok_alt by blast

lemma parts_okI:
  assumes "finite (dom H)" "NULL \<notin> dom H" "set_mset ext \<subseteq> dom H" "size ext + card (dom H) < 2 ^ 64"
    "\<And>p part. H p = Some part \<Longrightarrow> part_ok H ext p part" "ranked H rank"
  shows "parts_ok H ext"
  using assms unfolding parts_ok_alt by blast

lemma parts_ok_ranked:
  assumes "parts_ok H ext"
  obtains rank where "ranked H rank"
  using assms unfolding parts_ok_alt by blast

text \<open>Changing a counter.\<close>

lemma continuing_same_prev:
  assumes "H p = Some part" "part_prev part' = part_prev part"
  shows "continuing (H(p \<mapsto> part')) q = continuing H q"
  using assms by (auto simp: continuing_def)

lemma ranked_same_prev:
  assumes "ranked H rank" "H p = Some part" "part_prev part' = part_prev part"
  shows "ranked (H(p \<mapsto> part')) rank"
  using assms by (simp add: ranked_def)

lemma parts_recount:
  assumes ok: "parts_ok H ext" and p: "H p = Some part" and ext: "set_mset ext' \<subseteq> dom H"
    "size ext' + card (dom H) < 2 ^ 64" "\<And>q. q \<noteq> p \<Longrightarrow> count ext' q = count ext q"
    and n: "0 < n" "n = count ext' p + card (continuing H p)"
  shows "parts_ok (H(p \<mapsto> part\<lparr>part_rc := n\<rparr>)) ext'"
proof -
  let ?H = "H(p \<mapsto> part\<lparr>part_rc := n\<rparr>)"
  have prev: "part_prev (part\<lparr>part_rc := n\<rparr>) = part_prev part" by simp
  have cont: "continuing ?H q = continuing H q" for q 
    using continuing_same_prev [of H p part, OF p prev] .
  have dom: "dom ?H = dom H" using p by auto
  have okp: "part_ok ?H ext' q x" if "?H q = Some x" for q x
  proof (cases "q = p")
    case True
    then have x: "x = part\<lparr>part_rc := n\<rparr>" using that by simp
    show ?thesis using parts_ok_part [OF ok p] n
      unfolding part_ok_def cont dom x True by simp
  next
    case False
    then have "H q = Some x" using that by simp
    from parts_ok_part [OF ok this] show ?thesis
      unfolding part_ok_def cont dom ext(3) [OF False] .
  qed
  obtain rank where "ranked H rank" by (rule parts_ok_ranked [OF ok])
  from ranked_same_prev [of H rank p part, OF this p prev] have "ranked ?H rank" .
  then show ?thesis
    using parts_okD(1,2) [OF ok] ext(1,2) okp unfolding parts_ok_alt dom by blast
qed

lemma parts_inc:
  assumes "parts_ok H ext" "H p = Some part" "size ext + card (dom H) + 1 < 2 ^ 64"
  shows "parts_ok (H(p \<mapsto> part\<lparr>part_rc := inc64 (part_rc part)\<rparr>)) (add_mset p ext)"
proof (rule parts_recount [OF assms(1,2)])
  have rc: "part_rc part = count ext p + card (continuing H p)" by (rule parts_okD(4) [OF assms(1,2)])
  have "card (continuing H p) \<le> card (dom H)"
    by (rule card_mono [OF parts_okD(1) [OF assms(1)] continuing_sub])
  moreover have "count ext p \<le> size ext" by (rule count_le_size)
  ultimately have "inc64 (part_rc part) = part_rc part + 1" using rc assms(3) by simp
  then show "inc64 (part_rc part) = count (add_mset p ext) p + card (continuing H p)" "0 < inc64 (part_rc part)"
    using rc by simp_all
  show "set_mset (add_mset p ext) \<subseteq> dom H" using parts_okD(3) [OF assms(1)] assms(2) by auto
qed (use assms(3) in simp_all)

lemma parts_dec:
  assumes "parts_ok H (add_mset p ext)" "H p = Some part" "1 < part_rc part"
  shows "parts_ok (H(p \<mapsto> part\<lparr>part_rc := dec64 (part_rc part)\<rparr>)) ext"
proof (rule parts_recount [OF assms(1,2)])
  have rc: "part_rc part = count (add_mset p ext) p + card (continuing H p)" by (rule parts_okD(4) [OF assms(1,2)])
  have "dec64 (part_rc part) = part_rc part - 1" using assms(3) rc_bound [OF assms(1,2)] by (intro dec64_pos) simp_all
  then show "dec64 (part_rc part) = count ext p + card (continuing H p)" "0 < dec64 (part_rc part)"
    using rc assms(3) by simp_all
  show "set_mset ext \<subseteq> dom H" using parts_okD(3) [OF assms(1)] by auto
  show "size ext + card (dom H) < 2 ^ 64" using parts_okD(8) [OF assms(1)] by simp
qed simp

text \<open>A new part takes over one reference to the part before it.\<close>

lemma parts_link:
  assumes ok: "parts_ok H (own p ext)" and c: "c \<notin> dom H" "c \<noteq> NULL" and p: "p = NULL \<or> p \<in> dom H"
    and bound: "size ext + card (dom H) + 2 < 2 ^ 64" and d: "length d = n"
  shows "parts_ok (H(c \<mapsto> \<lparr>part_rc = 1, part_len = n, part_prev = p, part_data = d\<rparr>)) (add_mset c ext)"
proof -
  define x where "x = \<lparr>part_rc = 1, part_len = n, part_prev = p, part_data = d\<rparr>"
  let ?H = "H(c \<mapsto> x)"
  have sub: "set_mset ext \<subseteq> dom H" using parts_okD(3) [OF ok] by (auto simp: own_def split: if_splits)
  have hc: "H c = None" using c(1) by blast
  have pc: "p \<noteq> c" using p c by blast
  have cont: "continuing ?H q = (if q = p then insert c (continuing H p) else continuing H q)" for q
    using hc by (auto simp: continuing_def x_def)
  have notin: "c \<notin> continuing H q" for q using c(1) continuing_sub [of H q] by blast
  have cont_c: "continuing H c = {}"
    using parts_okD(7) [OF ok] c by (fastforce simp: continuing_def)
  have fin: "finite (continuing H q)" for q by (rule finite_continuing [OF ok])
  have dom: "dom ?H = insert c (dom H)" by simp
  obtain rank where rank: "ranked H rank" by (rule parts_ok_ranked [OF ok])
  have okp: "part_ok ?H (add_mset c ext) q y" if y: "?H q = Some y" for q y
  proof (cases "q = c")
    case True
    then have "y = x" using y by simp
    moreover have "count ext c = 0" using sub c(1) by (meson count_inI subsetD)
    ultimately show ?thesis
      using p d pc cont_c unfolding part_ok_def True cont dom by (auto simp: x_def)
  next
    case False
    then have hq: "H q = Some y" using y by simp
    have q0: "q \<noteq> NULL" using hq parts_okD(2) [OF ok] by (metis option.distinct(1))
    have "count (own p ext) q + card (continuing H q) = count (add_mset c ext) q + card (continuing ?H q)"
      using False q0 pc notin fin by (simp add: cont own_def)
    then show ?thesis using parts_ok_part [OF ok hq] unfolding part_ok_def dom by auto
  qed
  have "ranked ?H (rank(c := Suc (rank p)))"
    unfolding ranked_def
  proof (intro allI impI, elim conjE)
    fix q y
    assume y: "?H q = Some y" "part_prev y \<noteq> NULL"
    show "(rank(c := Suc (rank p))) (part_prev y) < (rank(c := Suc (rank p))) q"
    proof (cases "q = c")
      case True
      then have "y = x" using y(1) by simp
      then have "part_prev y = p" by (simp add: x_def)
      then show ?thesis using True pc by simp
    next
      case False
      then have hq: "H q = Some y" using y by simp
      then have "part_prev y \<noteq> c" using parts_okD(7) [OF ok hq] y(2) c(1) by blast
      then show ?thesis using rank hq y(2) False by (simp add: ranked_def)
    qed
  qed
  then show ?thesis
    using okp parts_okD(1,2) [OF ok] sub bound c hc unfolding x_def [symmetric]
    by (intro parts_okI [of ?H]) auto
qed

text \<open>The last reference to a part: nothing continues it, and its reference to the part before it is given back.\<close>

lemma parts_last:
  assumes ok: "parts_ok H (add_mset p ext)" and p: "H p = Some part" and rc: "part_rc part \<le> 1"
  shows "continuing H p = {}" "p \<notin># ext" "parts_ok (H(p := None)) (own (part_prev part) ext)"
proof -
  have e: "part_rc part = Suc (count ext p) + card (continuing H p)" using parts_okD(4) [OF ok p] by simp
  then show none: "continuing H p = {}" using rc finite_continuing [OF ok, of p] by simp
  show pe: "p \<notin># ext" using e rc by (simp add: not_in_iff)
  let ?H = "H(p := None)" and ?r = "part_prev part"
  have p0: "p \<noteq> NULL" using p parts_okD(2) [OF ok] by (metis option.distinct(1))
  have prev_p: "part_prev x \<noteq> p" if "H q = Some x" for q x using that none by (auto simp: continuing_def)
  have cont: "continuing ?H q = continuing H q - {p}" for q by (auto simp: continuing_def)
  have inp: "p \<in> continuing H q \<longleftrightarrow> q = ?r" for q using p by (auto simp: continuing_def)
  have r: "?r = NULL \<or> ?r \<in> dom H" "?r \<noteq> p" using parts_okD(7) [OF ok p] prev_p [OF p] by blast+
  have fin: "finite (continuing H q)" for q by (rule finite_continuing [OF ok])
  have okp: "part_ok ?H (own ?r ext) q x" if x: "?H q = Some x" for q x
  proof -
    have hq: "H q = Some x" "q \<noteq> p" using x by (auto split: if_splits)
    have q0: "q \<noteq> NULL" using hq(1) parts_okD(2) [OF ok] by (metis option.distinct(1))
    have card: "card (continuing H q) = card (continuing ?H q) + (if q = ?r then 1 else 0)"
      unfolding cont using inp fin by (simp add: card_Diff_singleton_if card_gt_0_iff Suc_leI)
        (metis Suc_pred card_gt_0_iff empty_iff fin)
    have "count (add_mset p ext) q + card (continuing H q) = count (own ?r ext) q + card (continuing ?H q)"
      using card q0 hq(2) by (simp add: own_def)
    moreover have "part_prev x = NULL \<or> part_prev x \<in> dom ?H"
      using parts_okD(7) [OF ok hq(1)] prev_p [OF hq(1)] by auto
    ultimately show ?thesis using parts_ok_part [OF ok hq(1)] unfolding part_ok_def by metis
  qed
  obtain rank where "ranked H rank" by (rule parts_ok_ranked [OF ok])
  then have rank: "ranked ?H rank" by (simp add: ranked_def)
  have sub: "set_mset (own ?r ext) \<subseteq> dom ?H"
    using parts_okD(3) [OF ok] pe r by (auto simp: own_def)
  have "card (dom H) = Suc (card (dom ?H))"
    using card_Suc_Diff1 [OF parts_okD(1) [OF ok] domI [of H, OF p]] by simp
  then have bound: "size (own ?r ext) + card (dom ?H) < 2 ^ 64"
    using parts_okD(8) [OF ok] by (simp add: own_def)
  have "finite (dom ?H)" "NULL \<notin> dom ?H" using parts_okD(1,2) [OF ok] by auto
  with okp rank sub bound show "parts_ok ?H (own ?r ext)" by (intro parts_okI [of ?H]) blast+
qed

text \<open>Without owners there are no parts.\<close>

lemma parts_none:
  assumes ok: "parts_ok H {#}"
  shows "H = Map.empty"
proof (rule ccontr)
  assume "H \<noteq> Map.empty"
  then obtain p where p: "p \<in> dom H" by fastforce
  obtain rank where rank: "ranked H rank" by (rule parts_ok_ranked [OF ok])
  define m where "m = Max (rank ` dom H)"
  have fin: "finite (rank ` dom H)" using parts_okD(1) [OF ok] by simp
  have "m \<in> rank ` dom H" unfolding m_def using fin p by (intro Max_in) auto
  then obtain q where q: "q \<in> dom H" "rank q = m" by blast
  then obtain part where part: "H q = Some part" by blast
  have "continuing H q \<noteq> {}" using parts_okD(4,5) [OF ok part] by auto
  then obtain c x where c: "H c = Some x" "part_prev x = q" by (auto simp: continuing_def)
  then have "rank q < rank c" using rank part parts_okD(2) [OF ok] unfolding ranked_def by (metis option.distinct(1))
  moreover have "rank c \<le> m" unfolding m_def using c(1) fin by (intro Max_ge) auto
  ultimately show False using q(2) by simp
qed

lemma spells_drop:
  assumes "spells H q s" "q \<noteq> p" "continuing H p = {}"
  shows "spells (H(p := None)) q s"
  using assms(1,2)
proof (induction rule: spells.induct)
  case (spells_part q part s)
  have "part_prev part \<noteq> p" using assms(3) spells_part.hyps(2) by (auto simp: continuing_def)
  then show ?case using spells_part by (intro spells.spells_part) simp_all
qed (rule spells.spells_null)

end
