(* ===== verification/Store_Ops.thy ===== *)
theory Store_Ops
  imports Store_Owners
begin

text \<open>
  The operations on the store: what allocating, writing and freeing an object change, and the
  effect of building, releasing and printing names on the objects and on their owners.
\<close>

section \<open>Objects\<close>

lemma object_views [simp]:
  "strings (put_object p (Part x) st) = (strings st)(p \<mapsto> x)"
  "strings (put_object p (Buf b) st) = (strings st)(p := None)"
  "strings (put_object p (Fdrc f) st) = (strings st)(p := None)"
  "strings (put_object p (Link l) st) = (strings st)(p := None)"
  "strings (put_object p (HInfo h) st) = (strings st)(p := None)"
  "strings (put_object p (Rev r) st) = (strings st)(p := None)"
  "strings (put_object p (Ent e) st) = (strings st)(p := None)"
  "strings (store_free st p) = (strings st)(p := None)"
  "objects (put_object p y st) = (objects st)(p \<mapsto> y)"
  "objects (store_free st p) = (objects st)(p := None)"
  "heap (put_object p y st) = heap st"
  by (auto simp: put_object_def store_free_def strings_def)

lemma strings_SomeD: "strings st p = Some x \<Longrightarrow> objects st p = Some (Part x)"
  by (auto simp: strings_def split: option.splits object.splits)

lemma strings_other: "objects st p = None \<Longrightarrow> strings st p = None"
  by (simp add: strings_def)

lemma strings_objects: "objects st = objects st' \<Longrightarrow> strings st = strings st'"
  by (simp add: strings_def fun_eq_iff)

lemma store_okD:
  assumes "store_ok st"
  shows "alloc_inv (heap st)" "finite (dom (objects st))" "objects st NULL = None"
    "objects st p = Some x \<Longrightarrow> \<exists>n \<ge> object_size x. (p, n) \<in> alloc_blocks (heap st)"
  using assms unfolding store_ok_def by blast+

text \<open>The facts a fresh address comes with.\<close>

definition fresh_block :: "store \<Rightarrow> addr \<Rightarrow> nat \<Rightarrow> bool" where
  "fresh_block st p len \<longleftrightarrow> p \<noteq> NULL \<and> objects st p = None \<and> (\<exists>n \<ge> len. (p, n) \<in> alloc_blocks (heap st))"

lemma store_alloc_spec:
  assumes ok: "store_ok st" and r: "store_alloc tid st len = (p, st')"
  shows "store_ok st'" "objects st' = objects st" "p \<noteq> NULL \<Longrightarrow> fresh_block st' p len"
proof -
  let ?s = "(heap st, heap_mem st)"
  obtain a m where am: "AllocatorAllocate tid (heap st) (heap_mem st) len = (p, a, m)"
    and st': "st' = st\<lparr>heap := a, heap_mem := m\<rparr>"
    using r by (auto simp: store_alloc_def split: prod.splits)
  have step: "allocate_step tid ?s len = (p, a, m)" using am by (simp add: allocate_step_def)
  have h: "handed_out (heap st) (heap_mem st) len p a m"
    by (rule AllocatorAllocate_spec [OF store_okD(1) [OF ok] am])
  have blocks: "alloc_blocks (heap st) \<subseteq> alloc_blocks a"
    using h unfolding handed_out_def by (cases "p = NULL") auto
  show obj: "objects st' = objects st" by (simp add: st')
  show "store_ok st'"
    using ok handed_out_inv [OF h] blocks unfolding store_ok_def st' by simp blast
  show "fresh_block st' p len" if p: "p \<noteq> NULL"
  proof -
    have inv: "alloc_inv (fst ?s)" using store_okD(1) [OF ok] by simp
    have "(p, k) \<notin> alloc_blocks (heap st)" for k
      using prog.tk_fresh [OF inv, of tid len k] p by (simp add: step)
    then have "objects st p = None" using store_okD(4) [OF ok, of p] by (meson not_None_eq)
    moreover have "\<exists>n \<ge> len. (p, n) \<in> alloc_blocks a"
      using h p unfolding handed_out_def by (auto intro: le_trans)
    ultimately show ?thesis using p by (simp add: fresh_block_def st')
  qed
qed

lemma store_ok_free: "store_ok st \<Longrightarrow> store_ok (store_free st p)"
proof -
  assume ok: "store_ok st"
  note f = AllocatorFree_spec [OF store_okD(1) [OF ok], of p]
  have "\<exists>n \<ge> object_size x. (q, n) \<in> alloc_blocks (AllocatorFree (heap st) p)"
    if "objects st q = Some x" "q \<noteq> p" for q x
    using store_okD(4) [OF ok that(1)] that(2) f by auto
  then show ?thesis using store_okD(1-3) [OF ok] f unfolding store_ok_def by (simp add: store_free_def)
qed

lemma store_ok_rewrite:
  assumes "store_ok st" "objects st p = Some x" "object_size y \<le> object_size x"
  shows "store_ok (put_object p y st)"
proof -
  have "p \<noteq> NULL" using assms(1,2) store_okD(3) by (metis option.distinct(1))
  moreover have "\<exists>n \<ge> object_size y. (p, n) \<in> alloc_blocks (heap st)"
    using store_okD(4) [OF assms(1,2)] assms(3) by (meson le_trans)
  ultimately show ?thesis using assms(1) unfolding store_ok_def by simp
qed

lemma store_ok_new:
  assumes "store_ok st" "fresh_block st p len" "object_size x \<le> len"
  shows "store_ok (put_object p x st)"
proof -
  have "\<exists>n \<ge> object_size x. (p, n) \<in> alloc_blocks (heap st)"
    using assms(2,3) unfolding fresh_block_def by (meson le_trans)
  then show ?thesis using assms(1,2) unfolding store_ok_def fresh_block_def by simp
qed

lemma strings_okD: "strings_ok st ext \<Longrightarrow> store_ok st" "strings_ok st ext \<Longrightarrow> parts_ok (strings st) ext"
  by (simp_all add: strings_ok_def)

section \<open>References to names\<close>

text \<open>The room for one more part or owner before a counter could wrap.\<close>

definition rc_room :: "store \<Rightarrow> addr multiset \<Rightarrow> bool" where
  "rc_room st ext \<longleftrightarrow> size ext + card (dom (strings st)) + 2 < 2 ^ 64"

lemma string_part_rc_inc_ok:
  assumes ok: "strings_ok st ext" and p: "p \<in> dom (strings st)" and room: "rc_room st ext"
  obtains st' part n where "string_part_rc_inc st p = Some st'" "strings_ok st' (add_mset p ext)"
    "strings st p = Some part" "objects st' = (objects st)(p \<mapsto> Part (part\<lparr>part_rc := n\<rparr>))" "heap st' = heap st"
proof -
  obtain part where part: "strings st p = Some part" using p by blast
  let ?st = "put_object p (Part (part\<lparr>part_rc := inc64 (part_rc part)\<rparr>)) st"
  have "store_ok ?st"
    by (rule store_ok_rewrite [OF strings_okD(1) [OF ok] strings_SomeD [OF part]]) simp
  moreover have "parts_ok (strings ?st) (add_mset p ext)"
    unfolding object_views
    by (rule parts_inc [OF strings_okD(2) [OF ok] part]) (use room in \<open>simp add: rc_room_def\<close>)
  ultimately have "strings_ok ?st (add_mset p ext)" by (simp add: strings_ok_def)
  then show thesis using that [of ?st part] part by (simp add: string_part_rc_inc_def)
qed

lemma spells_rewrite:
  assumes "spells H q s" "H p = Some part" "part_prev part' = part_prev part" "part_data part' = part_data part"
  shows "spells (H(p \<mapsto> part')) q s"
  by (rule spells_mono [OF assms(1)]) (use assms(2-4) in auto)

lemma spells_fresh:
  assumes "spells H q s" "p \<notin> dom H"
  shows "spells (H(p \<mapsto> part)) q s"
  by (rule spells_mono [OF assms(1)]) (use assms(2) in auto)

text \<open>What a caller may rely on after an operation: names it held still read the same, other objects are untouched.\<close>

definition names_kept :: "store \<Rightarrow> addr set \<Rightarrow> store \<Rightarrow> bool" where
  "names_kept st Q st' \<longleftrightarrow> (\<forall>q \<in> Q. \<forall>s. spells (strings st) q s \<longrightarrow> spells (strings st') q s)
     \<and> (\<forall>q x. objects st q = Some x \<longrightarrow> strings st q = None \<longrightarrow> objects st' q = Some x)"

lemma toStringPart_ok:
  assumes ok: "strings_ok st ext" and p: "p = NULL \<or> p \<in> dom (strings st)" and room: "rc_room st ext"
    and s: "spells (strings st) p s" and len: "len1 \<le> length s1" "len2 \<le> length s2"
    and r: "toStringPart tid st p s1 len1 s2 len2 = Some (c, st')"
  shows "strings_ok st' (add_mset c ext)" "c \<noteq> NULL" "objects st c = None"
    "spells (strings st') c (s @ take len1 s1 @ take len2 s2)" "names_kept st UNIV st'"
    "dom (strings st') = insert c (dom (strings st))"
    "q \<noteq> c \<Longrightarrow> strings st q = None \<Longrightarrow> objects st' q = objects st q"
proof -
  define d where "d = take len1 s1 @ take len2 s2"
  have d: "length d = len1 + len2" using len by (simp add: d_def)
  obtain st1 where st1: "(if \<not> isNullRef p then string_part_rc_inc st p else Some st) = Some st1"
    using r by (auto simp: toStringPart_def split: option.splits)
  have one: "strings_ok st1 (own p ext) \<and> (\<forall>q s. spells (strings st) q s \<longrightarrow> spells (strings st1) q s)
      \<and> dom (strings st1) = dom (strings st) \<and> (\<forall>q. strings st q = None \<longrightarrow> objects st1 q = objects st q)"
  proof (cases "p = NULL")
    case True
    then show ?thesis using st1 ok by (simp add: isNullRef_def own_def)
  next
    case False
    then have pd: "p \<in> dom (strings st)" using p by blast
    obtain st2 part n where inc: "string_part_rc_inc st p = Some st2" "strings_ok st2 (add_mset p ext)"
      "strings st p = Some part" "objects st2 = (objects st)(p \<mapsto> Part (part\<lparr>part_rc := n\<rparr>))" "heap st2 = heap st"
      by (rule string_part_rc_inc_ok [OF ok pd room]) blast
    have e: "st1 = st2" using st1 inc(1) False by (simp add: isNullRef_def)
    have "strings st2 = strings (put_object p (Part (part\<lparr>part_rc := n\<rparr>)) st)"
      by (rule strings_objects) (simp add: inc(4))
    then have str: "strings st2 = (strings st)(p \<mapsto> part\<lparr>part_rc := n\<rparr>)" by simp
    have "spells (strings st2) q s" if "spells (strings st) q s" for q s
      unfolding str by (rule spells_rewrite [OF that inc(3)]) simp_all
    moreover have "dom (strings st2) = dom (strings st)" using inc(3) by (auto simp: str)
    ultimately show ?thesis using inc(2-4) False by (auto simp: e own_def)
  qed
  obtain cur st2 where al: "store_alloc tid st1 (sizeof_StringPart + len1 + len2 + 1) = (cur, st2)" by fastforce
  define x where "x = \<lparr>part_rc = 1, part_len = len1 + len2, part_prev = p, part_data = d\<rparr>"
  have r': "(if isNullRef cur then None else Some (cur, put_object cur (Part x) st2)) = Some (c, st')"
    using r unfolding toStringPart_def st1 option.case Let_def al prod.case x_def d_def .
  then have c: "cur = c" "st' = put_object c (Part x) st2" by (auto split: if_splits)
  show c0: "c \<noteq> NULL" using r' by (auto simp: isNullRef_def split: if_splits)
  note ok1 = strings_okD [OF conjunct1 [OF one]]
  note a = store_alloc_spec [OF ok1(1) al [unfolded c(1)]]
  have fresh: "fresh_block st2 c (sizeof_StringPart + len1 + len2 + 1)" by (rule a(3) [OF c0])
  have cn1: "objects st1 c = None" using fresh a(2) by (simp add: fresh_block_def)
  have cd: "c \<notin> dom (strings st1)" using strings_other [OF cn1] by blast
  then have sn: "strings st c = None" using one by auto
  then show "objects st c = None" using one cn1 by simp
  have s2: "strings st2 = strings st1" by (rule strings_objects [OF a(2)])
  have str: "strings st' = (strings st1)(c \<mapsto> x)" by (simp add: c s2)
  have dome: "dom (strings st1) = dom (strings st)" using one by blast
  have "store_ok st'" unfolding c(2) by (rule store_ok_new [OF a(1) fresh]) (simp add: x_def)
  moreover have "parts_ok (strings st') (add_mset c ext)"
    unfolding str x_def
    by (rule parts_link [OF ok1(2) cd c0 _ _ d]) (use p room in \<open>simp_all only: dome rc_room_def\<close>)
  ultimately show "strings_ok st' (add_mset c ext)" by (simp add: strings_ok_def)
  have keep: "spells (strings st') q t" if "spells (strings st) q t" for q t
    unfolding str by (rule spells_fresh [OF _ cd]) (use one that in blast)
  have "spells (strings st') c (s @ part_data x)"
    by (rule spells.spells_part) (use c0 keep [OF s] in \<open>simp_all add: str x_def\<close>)
  then show "spells (strings st') c (s @ take len1 s1 @ take len2 s2)" by (simp add: x_def d_def)
  have "objects st' q = Some y" if "objects st q = Some y" "strings st q = None" for q y
    using that one cn1 by (auto simp: c a(2))
  then show "names_kept st UNIV st'" using keep by (auto simp: names_kept_def)
  show "dom (strings st') = insert c (dom (strings st))" by (simp add: str dome)
  show "q \<noteq> c \<Longrightarrow> strings st q = None \<Longrightarrow> objects st' q = objects st q" using one by (simp add: c a(2))
qed

section \<open>Releasing a name\<close>

lemma names_kept_trans:
  assumes "names_kept st Q st1" "names_kept st1 Q st2" "\<And>q. strings st q = None \<Longrightarrow> strings st1 q = None"
  shows "names_kept st Q st2"
  using assms unfolding names_kept_def by blast

text \<open>Only parts of names change, and they stay parts or are gone.\<close>

definition string_frame :: "store \<Rightarrow> store \<Rightarrow> bool" where
  "string_frame st st' \<longleftrightarrow> (\<forall>q. objects st' q = objects st q
     \<or> strings st q \<noteq> None \<and> (objects st' q = None \<or> strings st' q \<noteq> None))"

lemma string_frameD: "string_frame st st' \<Longrightarrow> strings st q = None \<Longrightarrow> objects st' q = objects st q"
  unfolding string_frame_def by blast

lemma strings_iff: "strings st q \<noteq> None \<longleftrightarrow> (\<exists>x. objects st q = Some (Part x))"
  by (auto simp: strings_def split: option.splits object.splits)

lemma string_frame_trans: "string_frame st st1 \<Longrightarrow> string_frame st1 st2 \<Longrightarrow> string_frame st st2"
  unfolding string_frame_def strings_iff by metis

lemma string_frame_put: "strings st p = Some part \<Longrightarrow> string_frame st (put_object p (Part part') st)"
  unfolding string_frame_def by simp

lemma string_frame_free: "strings st p = Some part \<Longrightarrow> string_frame st (store_free st p)"
  unfolding string_frame_def by simp

lemma stringPartRelease_ok:
  assumes "strings_ok st (own p ext)"
  shows "\<exists>st'. stringPartRelease st p = Some st' \<and> strings_ok st' ext \<and> names_kept st (set_mset ext) st'
    \<and> dom (strings st') \<subseteq> dom (strings st) \<and> string_frame st st'"
  using assms
proof (induction "card (dom (strings st))" arbitrary: st p rule: less_induct)
  case less
  show ?case
  proof (cases "p = NULL")
    case True
    then show ?thesis using less.prems
      by (simp add: stringPartRelease.simps isNullRef_def own_def names_kept_def string_frame_def)
  next
    case False
    then have ok: "strings_ok st (add_mset p ext)" using less.prems by (simp add: own_def)
    note okS = strings_okD [OF ok]
    obtain part where part: "strings st p = Some part" using parts_okD(3) [OF okS(2)] by auto
    define st1 where "st1 = put_object p (Part (part\<lparr>part_rc := dec64 (part_rc part)\<rparr>)) st"
    have st1: "store_ok st1" unfolding st1_def
      by (rule store_ok_rewrite [OF okS(1) strings_SomeD [OF part]]) simp
    have step: "stringPartRelease st p =
        (if part_rc part \<le> 1 then stringPartRelease (store_free st1 p) (part_prev part) else Some st1)"
      using False part by (subst stringPartRelease.simps) (simp add: isNullRef_def Let_def st1_def)
    show ?thesis
    proof (cases "part_rc part \<le> 1")
      case False
      have "parts_ok (strings st1) ext"
        unfolding st1_def object_views by (rule parts_dec [OF okS(2) part]) (use False in simp)
      moreover have "spells (strings st1) q s" if "spells (strings st) q s" for q s
        unfolding st1_def object_views by (rule spells_rewrite [OF that part]) simp_all
      moreover have "dom (strings st1) \<subseteq> dom (strings st)" using part by (auto simp: st1_def)
      moreover have "string_frame st st1" unfolding st1_def by (rule string_frame_put [OF part])
      moreover from this have "objects st1 q = objects st q" if "strings st q = None" for q
        using string_frameD that by blast
      ultimately show ?thesis using st1 False by (simp add: step strings_ok_def names_kept_def)
    next
      case True
      let ?st2 = "store_free st1 p"
      have str: "strings ?st2 = (strings st)(p := None)" by (simp add: st1_def)
      note last = parts_last [OF okS(2) part True]
      have ok2: "strings_ok ?st2 (own (part_prev part) ext)"
        using last(3) store_ok_free [OF st1, of p] unfolding strings_ok_def str by blast
      have "card (dom (strings ?st2)) < card (dom (strings st))"
        unfolding str using part parts_okD(1) [OF okS(2)] by (intro psubset_card_mono) auto
      from less.hyps [OF this ok2] obtain st' where st': "stringPartRelease ?st2 (part_prev part) = Some st'"
        "strings_ok st' ext" "names_kept ?st2 (set_mset ext) st'" "dom (strings st') \<subseteq> dom (strings ?st2)"
        "string_frame ?st2 st'" by blast
      have part1: "strings st1 p = Some (part\<lparr>part_rc := dec64 (part_rc part)\<rparr>)" by (simp add: st1_def)
      have sf: "string_frame st st'"
        using string_frame_trans [OF string_frame_put [OF part, of "part\<lparr>part_rc := dec64 (part_rc part)\<rparr>", folded st1_def]
            string_frame_trans [OF string_frame_free [OF part1] st'(5)]] .
      then have frame: "objects st' q = objects st q" if "strings st q = None" for q
        using string_frameD that by blast
      have "spells (strings st') q s" if "q \<in># ext" "spells (strings st) q s" for q s
      proof -
        have "q \<noteq> p" using last(2) that(1) by blast
        then have "spells (strings ?st2) q s" unfolding str by (rule spells_drop [OF that(2) _ last(1)])
        then show ?thesis using st'(3) that(1) by (simp add: names_kept_def)
      qed
      then have "names_kept st (set_mset ext) st'" using frame by (simp add: names_kept_def)
      moreover have "dom (strings st') \<subseteq> dom (strings st)" using st'(4) unfolding str by auto
      ultimately show ?thesis using st'(1,2) sf True by (simp add: step)
    qed
  qed
qed

section \<open>Printing a name\<close>

lemma strings_fresh [simp]: "strings st p = None \<Longrightarrow> (strings st)(p := None) = strings st"
  by auto

definition printed :: "store \<Rightarrow> addr \<times> nat \<Rightarrow> string \<Rightarrow> bool" where
  "printed st buf s \<longleftrightarrow> length s < snd buf
     \<and> objects st (fst buf) = Some (Buf (s @ replicate (snd buf - length s) NUL))"

lemma stringRefMemcpy_zero:
  assumes "spells (strings st) ref s" "parts_ok (strings st) ext" "0 < n"
  shows "stringRefMemcpy st ref (replicate n NUL) n
    = Some (length s + 1, if length s < n then s @ replicate (n - length s) NUL else replicate n NUL)"
proof -
  have "NUL # drop (length s + 1) (replicate n NUL) = replicate (n - length s) NUL" if "length s < n"
    using that by (cases "n - length s") auto
  then show ?thesis using stringRefMemcpy_spells [OF assms(1,2), of "replicate n NUL" n] assms(3) by simp
qed

lemma stringrefMemcpyWithRealloc_ok:
  assumes ok: "strings_ok st ext" and buf: "objects st p = Some (Buf b)" "length b = n" "0 < n"
    and s: "spells (strings st) ref s"
    and r: "stringrefMemcpyWithRealloc tid st ref (p, n) = Some (code, buf', st')"
  shows "code = 0" "strings_ok st' ext" "strings st' = strings st" "printed st' buf' s"
    "\<And>q. q \<noteq> p \<Longrightarrow> objects st q \<noteq> None \<Longrightarrow> objects st' q = objects st q"
proof -
  note okS = strings_okD [OF ok]
  have p: "p \<noteq> NULL" "strings st p = None"
    using buf(1) store_okD(3) [OF okS(1)] by (metis option.distinct(1)) (simp add: buf(1) strings_def)
  note cp = stringRefMemcpy_zero [OF s okS(2)]
  have "code = 0 \<and> strings_ok st' ext \<and> strings st' = strings st \<and> printed st' buf' s
    \<and> (\<forall>q. q \<noteq> p \<longrightarrow> objects st q \<noteq> None \<longrightarrow> objects st' q = objects st q)"
  proof (cases "length s + 1 \<ge> n")
    case False
    let ?b = "s @ replicate (n - length s) NUL"
    have e: "code = 0" "buf' = (p, n)" "st' = put_object p (Buf ?b) st"
      using r False p(1) by (simp_all add: stringrefMemcpyWithRealloc_def cp [OF buf(3)])
    have "store_ok st'" unfolding e by (rule store_ok_rewrite [OF okS(1) buf(1)]) (use False buf(2) in simp)
    then show ?thesis using False okS(2) p(2) by (simp add: e strings_ok_def printed_def)
  next
    case True
    let ?b = "s @ replicate (length s + 1 - length s) NUL"
    define st0 where "st0 = store_free st p"
    obtain c st1 where al: "store_alloc tid st0 (length s + 1) = (c, st1)" by fastforce
    have st0: "store_ok st0" "objects st0 = (objects st)(p := None)" "strings st0 = strings st"
      using store_ok_free [OF okS(1)] p(2) by (simp_all add: st0_def)
    note a = store_alloc_spec [OF st0(1) al]
    have str: "strings st1 = strings st" using strings_objects [OF a(2)] st0(3) by simp
    have cp1: "stringRefMemcpy st1 ref (replicate (length s + 1) NUL) (length s + 1) = Some (length s + 1, ?b)"
      using stringRefMemcpy_zero [of st1 ref s ext "length s + 1"] s okS(2) by (simp add: str)
    have "stringrefMemcpyWithRealloc tid st ref (p, n)
        = (if c = NULL then None else Some (0, (c, length s + 1), put_object c (Buf ?b) st1))"
      using True p(1) cp [OF buf(3)] al cp1
      by (simp add: stringrefMemcpyWithRealloc_def st0_def isNullRef_def del: replicate_Suc)
    then have e: "c \<noteq> NULL" "code = 0" "buf' = (c, length s + 1)" "st' = put_object c (Buf ?b) st1"
      using r by (simp_all del: replicate_Suc split: if_splits)
    note fresh = a(3) [OF e(1)]
    have n1: "objects st1 c = None" using fresh by (simp add: fresh_block_def)
    have "store_ok st'" unfolding e by (rule store_ok_new [OF a(1) fresh]) simp
    then have "strings_ok st' ext" using okS(2) strings_other [OF n1] by (simp add: e strings_ok_def str)
    moreover have "objects st' q = objects st q" if "q \<noteq> p" "objects st q \<noteq> None" for q
    proof -
      have "objects st1 q = objects st q" using that(1) unfolding a(2) st0(2) by simp
      then show ?thesis using that(2) n1 by (cases "q = c") (simp_all add: e(4))
    qed
    moreover have "strings st' = strings st" using strings_other [OF n1] by (simp add: e str)
    ultimately show ?thesis by (simp add: e(2,3) e(4) printed_def)
  qed
  then show "code = 0" "strings_ok st' ext" "strings st' = strings st" "printed st' buf' s"
    "\<And>q. q \<noteq> p \<Longrightarrow> objects st q \<noteq> None \<Longrightarrow> objects st' q = objects st q" by blast+
qed

end
