(* ===== verification/Store_Properties.thy ===== *)
theory Store_Properties
  imports Store_Ops Buddy_Properties
begin

text \<open>
  The properties of the program's allocator and of the names it holds, with instances on a store in
  one small arena.
\<close>

section \<open>Threads that share the allocator\<close>

text \<open>Requests come from threads in any order: the state carries the thread numbers of the requests to come.\<close>

type_synonym served = "(allocator \<times> memory) \<times> nat list"

definition scheduled_take :: "served \<Rightarrow> nat \<Rightarrow> nat \<times> served" where
  "scheduled_take st r =
     (let (p, am) = allocate_step (case snd st of [] \<Rightarrow> 0 | tid # _ \<Rightarrow> tid) (fst st) r in (p, am, tl (snd st)))"

definition scheduled_free :: "served \<Rightarrow> nat \<Rightarrow> served" where
  "scheduled_free st p = (free_step (fst st) p, snd st)"

lemma scheduled_take_sel:
  defines "t \<equiv> \<lambda>st. case snd st of [] \<Rightarrow> 0 | tid # _ \<Rightarrow> tid"
  shows "fst (scheduled_take st r) = fst (allocate_step (t st) (fst st) r)"
    "fst (snd (scheduled_take st r)) = snd (allocate_step (t st) (fst st) r)"
  by (simp_all add: scheduled_take_def t_def case_prod_beta)

interpretation threads: slot_allocator "\<lambda>st :: served. alloc_inv (fst (fst st))"
    "\<lambda>st. alloc_blocks (fst (fst st))" scheduled_take scheduled_free
proof (unfold_locales, unfold scheduled_take_sel scheduled_free_def fst_conv)
qed (rule prog.disjoint prog.nonempty prog.tk_inv prog.tk_none prog.tk_some prog.gv_inv prog.gv_blocks; assumption)+

section \<open>A small store\<close>

definition small_heap :: allocator where
  "small_heap = \<lparr>memAlloc = Some small_arena, diskAlloc = None, memBase = NULL, copyBuffer = NULL,
     nSubAllocators = 0, subAllocatorSize = 0, embedded = (\<lambda>_. None)\<rparr>"

lemma small_heap: "alloc_inv small_heap" "alloc_blocks small_heap = {}"
proof -
  have "arena_of small_heap k = Some b \<Longrightarrow> b = small_arena" for k b
    by (cases k) (auto simp: small_heap_def)
  moreover have "diskAlloc small_heap = None" "nSubAllocators small_heap = 0" by (simp_all add: small_heap_def)
  ultimately show "alloc_inv small_heap" "alloc_blocks small_heap = {}"
    using small_arena(1,2) by (fastforce simp: alloc_inv_def, fastforce simp: alloc_blocks_iff block_addresses_def)
qed

definition small_store :: store where
  "small_store = \<lparr>heap = small_heap, heap_mem = (\<lambda>_. 0), objects = Map.empty\<rparr>"

lemma small_store: "strings_ok small_store {#}" "strings small_store = Map.empty"
proof -
  show e: "strings small_store = Map.empty" by (simp add: small_store_def strings_def fun_eq_iff)
  have "parts_ok Map.empty {#}" by (rule parts_okI [of _ _ "\<lambda>_. 0"]) (simp_all add: ranked_def)
  then show "strings_ok small_store {#}" unfolding strings_ok_def e
    using small_heap(1) by (simp add: store_ok_def small_store_def)
qed

text \<open>Allocations from arenas with room for a slot of 64 bytes.\<close>

lemma slot_alloc:
  assumes b: "arena_inv b" "memory_size b = 192" "alignment b = 64" "buddy_main b = 8192" "\<not> malloc_fails b (max 1 64)"
    and len: "0 < len" "len \<le> 64"
  obtains p d m where "AllocatorAllocate tid (small_heap\<lparr>memAlloc := Some b\<rparr>) mem len = (p, small_heap\<lparr>memAlloc := Some d\<rparr>, m)"
    "p \<noteq> NULL" "malloc_arena b len = (p, d)"
proof -
  have "slot_log b len = slot_log b 64" using slot_log_small [OF b(2,3)] len by simp
  then have "\<not> malloc_fails b (max 1 len)" using b(2,5) len by (simp add: malloc_fails_def max_def)
  then have nz: "fst (malloc_arena b len) \<noteq> NULL"
    using malloc_arena_spec [OF b(1), of len] b(4) by (auto simp: block_taken_def)
  obtain q d where q: "malloc_arena b len = (q, d)" by fastforce
  have "(1 * len) mod 2 ^ 64 = len" "1 \<noteq> 0 \<longrightarrow> len div 1 = len" using len by simp_all
  then obtain m where "buddy_calloc (Some b) mem 1 len = (q, Some d, m)"
    using q len by (auto simp: buddy_calloc_def buddy_malloc_def Let_def split: if_splits)
  then have "AllocatorAllocate tid (small_heap\<lparr>memAlloc := Some b\<rparr>) mem len = (q, small_heap\<lparr>memAlloc := Some d\<rparr>, m)"
    using nz q by (simp add: AllocatorAllocate_def try_sub_def try_mem_def small_heap_def)
  then show thesis using that nz q by simp
qed

lemma small_room64: "\<not> malloc_fails small_arena (max 1 64)"
  using small_room slot_log_small [of small_arena 64] by (simp add: malloc_fails_def small_arena)

lemma small_heap_arena: "small_heap\<lparr>memAlloc := Some small_arena\<rparr> = small_heap"
  by (simp add: small_heap_def)

lemma small_alloc:
  assumes "0 < len" "len \<le> 64"
  obtains p a m where "AllocatorAllocate tid small_heap mem len = (p, a, m)" "p \<noteq> NULL"
  using slot_alloc [OF small_arena(1,4,5,3) small_room64 assms] small_heap_arena by metis

text \<open>The store with one buffer of 64 bytes.\<close>

lemma buffer_store:
  obtains p st where "strings_ok st {#}" "strings st = Map.empty" "objects st p = Some (Buf (replicate 64 NUL))"
    "heap st = small_heap\<lparr>memAlloc := Some small_used\<rparr>"
proof -
  obtain p d m where al: "AllocatorAllocate 0 small_heap (\<lambda>_. 0) 64 = (p, small_heap\<lparr>memAlloc := Some d\<rparr>, m)"
    "p \<noteq> NULL" "malloc_arena small_arena 64 = (p, d)"
    by (rule slot_alloc [OF small_arena(1,4,5,3) small_room64, of 64 0 "\<lambda>_. 0"])
      (simp_all add: small_heap_arena)
  have d: "d = small_used" using al(3) by (simp add: small_used_def)
  define st0 where "st0 = small_store\<lparr>heap := small_heap\<lparr>memAlloc := Some d\<rparr>, heap_mem := m\<rparr>"
  have "store_alloc 0 small_store 64 = (p, st0)" using al(1) by (simp add: store_alloc_def st0_def small_store_def)
  note a = store_alloc_spec [OF strings_okD(1) [OF small_store(1)] this]
  have e: "strings st0 = Map.empty" using strings_objects [OF a(2)] small_store(2) by simp
  let ?st = "put_object p (Buf (replicate 64 NUL)) st0"
  have "store_ok ?st" by (rule store_ok_new [OF a(1) a(3) [OF al(2)]]) simp
  then have "strings_ok ?st {#}" using small_store unfolding strings_ok_def by (simp add: e)
  then show thesis using that [of ?st p] by (simp add: e d) (simp add: st0_def d)
qed

section \<open>Allocation\<close>

text \<open>
  C7: threads that take and give back memory in any order, through their own small arenas and the
  shared ones, keep the allocator consistent, and whatever the requests have handed out and not taken
  back, with the blocks that were held before, is covered by live blocks and pairwise disjoint.
\<close>

theorem allocator_requests_disjoint:
  assumes "alloc_inv a" "held \<subseteq> alloc_blocks a"
    and "run_requests scheduled_take scheduled_free ((a, mem), tids) rs = (((a', mem'), tids'), ps)"
  shows "alloc_inv a'
    \<and> (\<forall>p \<in> ledger rs ps held. \<exists>n \<ge> snd p. (fst p, n) \<in> alloc_blocks a')
    \<and> (\<forall>p \<in> ledger rs ps held. \<forall>q \<in> ledger rs ps held. p \<noteq> q \<longrightarrow> extent p \<inter> extent q = {})"
proof -
  let ?s = "((a, mem), tids)" and ?s' = "((a', mem'), tids')"
  have inv: "alloc_inv (fst (fst ?s))" using assms(1) by simp
  have "inj_on fst held"
    using assms(2) threads.start_unique [OF inv] by (fastforce simp: inj_on_def)
  moreover have "\<exists>n \<ge> max 1 r. (p, n) \<in> alloc_blocks a" if "(p, r) \<in> held" for p r
    using that assms(2) threads.nonempty [OF inv, of "(p, r)"] by (intro exI [of _ r]) auto
  ultimately have "threads.backed ?s held" by (auto simp: threads.backed_def)
  from threads.run_backed [OF inv this assms(3)]
  have b: "alloc_inv (fst (fst ?s'))" "threads.backed ?s' (ledger rs ps held)" by blast+
  then show ?thesis using threads.backed_block [OF b(2)] threads.backed_disjoint [OF b] by simp
qed

theorem allocator_requests_disjoint_witness:
  "\<exists>p a' n. AllocatorAllocate 7 small_heap (\<lambda>_. 0) 40 = (p, a', (\<lambda>_. 0)) \<and> alloc_inv a' \<and> 40 \<le> n \<and> (p, n) \<in> alloc_blocks a'"
proof -
  obtain p a m where am: "AllocatorAllocate 7 small_heap (\<lambda>_. 0) 40 = (p, a, m)" "p \<noteq> NULL"
    by (rule small_alloc [of 40 7 "\<lambda>_. 0"]) simp_all
  have "m = (\<lambda>_. 0)"
    using AllocatorAllocate_spec [OF small_heap(1) am(1)] am(2) by (auto simp: handed_out_def memset_def fun_eq_iff)
  have "run_requests scheduled_take scheduled_free ((small_heap, \<lambda>_. 0), [7]) [Take 40] = (((a, m), []), [p])"
    by (simp add: scheduled_take_def allocate_step_def am(1))
  from allocator_requests_disjoint [OF small_heap(1) _ this, of "{}"] am(2)
  obtain n where "alloc_inv a" "40 \<le> n" "(p, n) \<in> alloc_blocks a" by auto
  then show ?thesis using am(1) \<open>m = _\<close> by blast
qed

section \<open>Names\<close>

text \<open>Going down a path: each name is put behind the one before, whose reference is given back.\<close>

fun walk_down :: "nat \<Rightarrow> store \<Rightarrow> addr \<Rightarrow> (string \<times> string) list \<Rightarrow> (addr \<times> store) option" where
  "walk_down tid st tip [] = Some (tip, st)"
| "walk_down tid st tip ((s1, s2) # xs) =
     (case toStringPart tid st tip s1 (length s1) s2 (length s2) of
        None \<Rightarrow> None
      | Some (c, st) \<Rightarrow>
          case stringPartRelease st tip of None \<Rightarrow> None | Some st \<Rightarrow> walk_down tid st c xs)"

definition path_of :: "(string \<times> string) list \<Rightarrow> string" where
  "path_of xs = concat (map (\<lambda>(a, b). a @ b) xs)"

lemma walk_down_step:
  assumes ok: "strings_ok st (own tip ext)" and s: "spells (strings st) tip s"
    and room: "rc_room st (own tip ext)" and mem: "tip = NULL \<or> tip \<in> dom (strings st)"
    and t: "toStringPart tid st tip s1 (length s1) s2 (length s2) = Some (c, st1)"
  obtains st2 where "stringPartRelease st1 tip = Some st2" "strings_ok st2 (own c ext)"
    "spells (strings st2) c (s @ s1 @ s2)" "names_kept st (set_mset ext) st2" "c \<in> dom (strings st2)"
    "card (dom (strings st2)) \<le> card (dom (strings st)) + 1"
    "\<And>q. objects st q \<noteq> None \<Longrightarrow> strings st q = None \<Longrightarrow> strings st2 q = None"
proof -
  note t' = toStringPart_ok [OF ok mem room s order.refl order.refl t]
  have own: "add_mset c (own tip ext) = own tip (own c ext)" using t'(2) by (simp add: own_def add_mset_commute)
  obtain st2 where r: "stringPartRelease st1 tip = Some st2" "strings_ok st2 (own c ext)"
    "names_kept st1 (set_mset (own c ext)) st2" "dom (strings st2) \<subseteq> dom (strings st1)"
    using stringPartRelease_ok [OF t'(1) [unfolded own]] by blast
  have c: "c \<in># own c ext" using t'(2) by (simp add: own_def)
  have "spells (strings st2) c (s @ s1 @ s2)" using r(3) t'(4) c by (simp add: names_kept_def)
  moreover have "c \<in> dom (strings st2)" using parts_okD(3) [OF strings_okD(2) [OF r(2)]] c by blast
  moreover have none: "strings st1 q = None" if "objects st q \<noteq> None" "strings st q = None" for q
    using that t'(3,6) by (metis domIff insert_iff)
  moreover have "names_kept st (set_mset ext) st2"
    using t'(5) r(3) none unfolding names_kept_def own_def by (auto split: if_splits)
  moreover have "card (dom (strings st2)) \<le> card (dom (strings st)) + 1"
  proof -
    have "card (dom (strings st2)) \<le> card (dom (strings st1))"
      by (rule card_mono [OF parts_okD(1) [OF strings_okD(2) [OF t'(1)]] r(4)])
    also have "\<dots> \<le> card (dom (strings st)) + 1"
      unfolding t'(6) using parts_okD(1) [OF strings_okD(2) [OF ok]] by (simp add: card_insert_if)
    finally show ?thesis .
  qed
  moreover have "strings st2 q = None" if "objects st q \<noteq> None" "strings st q = None" for q
    using none [OF that] r(4) by (metis domIff subsetD)
  ultimately show thesis using that [OF r(1,2)] by blast
qed

lemma walk_down_ok:
  assumes "strings_ok st (own tip ext)" "spells (strings st) tip s" "tip = NULL \<or> tip \<in> dom (strings st)"
    "size ext + card (dom (strings st)) + length xs + 3 < 2 ^ 64" "walk_down tid st tip xs = Some (c, st')"
  shows "strings_ok st' (own c ext) \<and> spells (strings st') c (s @ path_of xs) \<and> names_kept st (set_mset ext) st'"
  using assms
proof (induction tid st tip xs arbitrary: s rule: walk_down.induct)
  case (1 tid st tip)
  then show ?case by (auto simp: path_of_def names_kept_def)
next
  case (2 tid st tip s1 s2 xs)
  obtain c1 st1 where t: "toStringPart tid st tip s1 (length s1) s2 (length s2) = Some (c1, st1)"
    using "2.prems"(5) by (auto split: option.splits)
  have "rc_room st (own tip ext)" using "2.prems"(4) by (auto simp: rc_room_def own_def)
  from walk_down_step [OF "2.prems"(1,2) this "2.prems"(3) t]
  obtain st2 where st2: "stringPartRelease st1 tip = Some st2" "strings_ok st2 (own c1 ext)"
    "spells (strings st2) c1 (s @ s1 @ s2)" "names_kept st (set_mset ext) st2" "c1 \<in> dom (strings st2)"
    "card (dom (strings st2)) \<le> card (dom (strings st)) + 1"
    "\<And>q. objects st q \<noteq> None \<Longrightarrow> strings st q = None \<Longrightarrow> strings st2 q = None" by blast
  have "walk_down tid st2 c1 xs = Some (c, st')" using "2.prems"(5) t st2(1) by simp
  note ih = "2.IH" [OF t refl st2(1,2,3) _ _ this]
  have "size ext + card (dom (strings st2)) + length xs + 3 < 2 ^ 64" using "2.prems"(4) st2(6) by simp
  note ih [OF disjI2 [OF st2(5)] this]
  then show ?case
    using st2(4,7) unfolding names_kept_def path_of_def by (auto simp: domIff)
qed

text \<open>
  C8: a path that is built one name at a time, in an allocator that other names share, is printed as
  the concatenation of its names, whatever the size of the buffer before, and all other names still
  read the same.
\<close>

theorem path_print_roundtrip:
  assumes "strings_ok st ext" "objects st p = Some (Buf b)" "length b = n" "0 < n"
    and "size ext + card (dom (strings st)) + length xs + 3 < 2 ^ 64"
    and "walk_down tid st NULL xs = Some (c, st1)"
    and "stringrefMemcpyWithRealloc tid st1 c (p, n) = Some (code, buf, st2)"
  shows "code = 0 \<and> printed st2 buf (path_of xs) \<and> strings_ok st2 (own c ext)
    \<and> (\<forall>q \<in># ext. \<forall>s. spells (strings st) q s \<longrightarrow> spells (strings st2) q s)"
proof -
  have w: "strings_ok st1 (own c ext)" "spells (strings st1) c (path_of xs)" "names_kept st (set_mset ext) st1"
    using walk_down_ok [OF _ _ _ assms(5,6), of "[]"] assms(1) by (simp_all add: own_def)
  have "strings st p = None" by (simp add: strings_def assms(2))
  then have "objects st1 p = Some (Buf b)" using w(3) assms(2) by (simp add: names_kept_def)
  note m = stringrefMemcpyWithRealloc_ok [OF w(1) this assms(3,4) w(2) assms(7)]
  then show ?thesis using w(3) by (simp add: names_kept_def)
qed

theorem path_print_roundtrip_witness:
  "\<exists>st p c st1 buf st2. walk_down 0 st NULL [(''a'', ''/b'')] = Some (c, st1)
    \<and> stringrefMemcpyWithRealloc 0 st1 c (p, 64) = Some (0, buf, st2) \<and> printed st2 buf ''a/b''"
proof -
  obtain p st where st: "strings_ok st {#}" "strings st = Map.empty"
    "objects st p = Some (Buf (replicate 64 NUL))" "heap st = small_heap\<lparr>memAlloc := Some small_used\<rparr>" by (rule buffer_store)
  obtain c d m where al: "AllocatorAllocate 0 (heap st) (heap_mem st) 28 = (c, small_heap\<lparr>memAlloc := Some d\<rparr>, m)" "c \<noteq> NULL"
    unfolding st(4)
    by (rule slot_alloc [OF small_used(1) small_used_fields small_used_room, of 28 0 "heap_mem st"]) simp_all
  obtain st0 where t: "toStringPart 0 st NULL ''a'' 1 ''/b'' 2 = Some (c, st0)"
    using al by (simp add: toStringPart_def isNullRef_def store_alloc_def sizeof_StringPart_def)
  then have w: "walk_down 0 st NULL [(''a'', ''/b'')] = Some (c, st0)"
    by (simp add: stringPartRelease.simps isNullRef_def numeral_2_eq_2)
  have p: "p \<noteq> NULL" using st(3) store_okD(3) [OF strings_okD(1) [OF st(1)]] by (metis option.distinct(1))
  have bound: "size ({#} :: addr multiset) + card (dom (strings st)) + length [(''a'', ''/b'')] + 3 < 2 ^ 64"
    by (simp add: st(2))
  obtain k: "strings_ok st0 (own c {#})" "spells (strings st0) c ''a/b''"
    using walk_down_ok [OF _ _ _ bound w, of "[]"] st(1) by (simp add: own_def path_of_def)
  have "stringRefMemcpy st0 c (replicate 64 NUL) 64 = Some (4, ''a/b'' @ replicate 61 NUL)"
    using stringRefMemcpy_zero [OF k(2) strings_okD(2) [OF k(1)], of 64] by simp
  then have r: "stringrefMemcpyWithRealloc 0 st0 c (p, 64) = Some (0, (p, 64), put_object p (Buf (''a/b'' @ replicate 61 NUL)) st0)"
    using p by (simp add: stringrefMemcpyWithRealloc_def)
  have "printed (put_object p (Buf (''a/b'' @ replicate 61 NUL)) st0) (p, 64) ''a/b''"
    using path_print_roundtrip [OF st(1,3) _ _ bound w r] by (simp add: path_of_def)
  then show ?thesis using w r by blast
qed

text \<open>
  C9: releasing a reference to a name returns, whatever chain it continues, gives back the parts that
  nobody else holds, keeps every counter equal to the number of owners, and changes no name that is
  still held; the last release leaves no part behind.
\<close>

theorem stringPartRelease_correct:
  assumes "strings_ok st (add_mset p ext)"
  shows "\<exists>st'. stringPartRelease st p = Some st' \<and> strings_ok st' ext
    \<and> (\<forall>q \<in># ext. \<forall>s. spells (strings st) q s \<longrightarrow> spells (strings st') q s)
    \<and> (ext = {#} \<longrightarrow> strings st' = Map.empty)"
proof -
  have "p \<noteq> NULL" using parts_ok_not_null [OF strings_okD(2) [OF assms]] by simp
  then have "strings_ok st (own p ext)" using assms by (simp add: own_def)
  from stringPartRelease_ok [OF this] obtain st' where
    "stringPartRelease st p = Some st'" "strings_ok st' ext" "names_kept st (set_mset ext) st'" by blast
  then show ?thesis using parts_none strings_okD(2) by (auto simp: names_kept_def)
qed

theorem stringPartRelease_correct_witness:
  "\<exists>c st1 st2. toStringPart 0 small_store NULL ''ab'' 2 ''c'' 1 = Some (c, st1)
    \<and> stringPartRelease st1 c = Some st2 \<and> strings st2 = Map.empty"
proof -
  obtain c a m where al: "AllocatorAllocate 0 small_heap (\<lambda>_. 0) 28 = (c, a, m)" "c \<noteq> NULL"
    by (rule small_alloc [of 28 0 "\<lambda>_. 0"]) simp_all
  obtain st1 where t: "toStringPart 0 small_store NULL ''ab'' 2 ''c'' 1 = Some (c, st1)"
    using al by (simp add: toStringPart_def isNullRef_def store_alloc_def small_store_def sizeof_StringPart_def)
  have "rc_room small_store {#}" by (simp add: rc_room_def small_store(2))
  with toStringPart_ok(1) [OF small_store(1) _ this _ _ _ t, of "[]"] have "strings_ok st1 (add_mset c {#})" by simp
  from stringPartRelease_correct [OF this] t show ?thesis by blast
qed

end
