(* ===== verification/World.thy ===== *)
theory World
  imports Store "HOL-Library.Monad_Syntax"
begin

text \<open>
  What the crawling and finishing threads of \<open>copy2.cpp\<close> and the hard link state of \<open>hlinkstate.cpp\<close>
  work on: the store of the allocator, the queues and counters of \<open>SharedState\<close>, the two tables of
  hard links, and the calls to the system made so far. A function that does not come back, because it
  ends the program, waits for a lock that its own thread holds or for a descriptor that nobody gives
  back, or reads an address that holds no such object, is \<open>None\<close>.

  The system and LMDB are outside the model: what they answer is a parameter. The reply to a system
  call depends on the calls before it; the database is an abstract state with the operations used.
\<close>

section \<open>System calls\<close>

datatype open_flag = O_DIRECTORY | O_NOATIME | O_RDONLY | O_RDWR | O_CREAT | O_DIRECT

text \<open>A time of \<open>utimensat\<close>; \<open>None\<close> is \<open>UTIME_OMIT\<close>.\<close>

type_synonym timespec = "(int \<times> nat) option"

datatype syscall = Unlinkat int string bool | Linkat int string int string | Close int
  | Statx int string | Openat int string "open_flag list" nat | Fdopendir int | Readdir int
  | Closedir int | Dup int | Ftruncate int nat | Readlinkat int string nat | Symlinkat string int string
  | Renameat int string int string | Utimensat int string timespec timespec
  | Fchownat int string nat nat | Fchmodat int string nat | Mkdirat int string nat | Faccessat int string

datatype d_type = DT_DIR | DT_OTHER

record reply =
  ret :: int
  errno :: int
  out_stx :: statx
  out_str :: string
  out_type :: d_type

definition ENOENT :: int where "ENOENT = 2"
definition EEXIST :: int where "EEXIST = 17"
definition EISDIR :: int where "EISDIR = 21"

section \<open>The tables of hard links\<close>

datatype dbi = FORWARD | REV

datatype txn = WrTxn | RdTxn nat

datatype 'a mdb_reply = Mdb_ok 'a | Mdb_notfound | Mdb_error

type_synonym pairmap = "nat \<Rightarrow> addr option"

text \<open>
  The operations of LMDB, each \<open>None\<close> or \<open>Mdb_error\<close> when it fails. The write transaction is the one of
  \<open>mdb_put\<close> and \<open>mdb_del\<close>. \<open>iter\<close> is the order in which the hash map of the cache is traversed.
\<close>

record 'db lmdb =
  mdb_get :: "'db \<Rightarrow> txn \<Rightarrow> dbi \<Rightarrow> nat \<Rightarrow> addr mdb_reply"
  mdb_put :: "'db \<Rightarrow> dbi \<Rightarrow> nat \<Rightarrow> addr \<Rightarrow> 'db option"
  mdb_del :: "'db \<Rightarrow> dbi \<Rightarrow> nat \<Rightarrow> unit mdb_reply \<times> 'db"
  mdb_txn_commit :: "'db \<Rightarrow> bool \<times> 'db"
  mdb_txn_begin :: "'db \<Rightarrow> txn \<Rightarrow> 'db option"
  mdb_txn_renew :: "'db \<Rightarrow> txn \<Rightarrow> 'db"
  mdb_env_create :: "'db option"
  mdb_env_open :: "'db \<Rightarrow> string \<Rightarrow> nat \<Rightarrow> 'db option"
  mdb_dbi_open :: "'db \<Rightarrow> dbi \<Rightarrow> 'db option"
  iter :: "pairmap \<Rightarrow> nat list"

text \<open>
  The lock is what the running thread holds of it, for reading as often as it has taken it;
  \<open>rdTxns\<close> lists the threads with a transaction.
\<close>

datatype rwlock = Unlocked | Rdlocked nat | Wrlocked

record 'db hlink_state =
  rwlock :: rwlock
  env :: 'db
  maxTableCacheSize :: nat
  forwardTableCache :: pairmap
  revTableCache :: pairmap
  rdTxns :: "nat list"

section \<open>State\<close>

text \<open>The functions that keep a buffer of their own in every thread.\<close>

datatype buffer_name = Register_linkRoot | Transfer_linkRoot | RemoveNonDir_remote | Remove_remote
  | NonDir_remote | NonDir_partial | Dir_remote | Finish_remote | Finish_partial | Readlink_buf | Immediate

record 'db world =
  wstore :: store
  trace :: "syscall list"
  fdSem :: nat
  hlink :: "'db hlink_state"
  bufs :: "buffer_name \<Rightarrow> (addr \<times> nat) option"
  jobQ :: "file_copy_job list"
  finishQ :: "file_copy_job list"
  n_finished :: nat
  n_seen :: nat
  n_removed :: nat
  n_dirs :: nat
  bytes_seen :: nat
  bytes_will :: nat
  bytes_done :: nat
  bytes_actually :: nat

text \<open>
  The thread, the system, the database, the options and roots, the hash of names, the order in which
  the tasks of a group run (a permutation of the numbers below their count), and what other threads do
  to the state while the running one holds no lock: between giving back the read lock and taking the
  write lock.
\<close>

record options =
  minBlockSize :: nat
  maxBlockSize :: nat
  preserveAtime :: bool
  sync :: bool

record 'db program =
  tid :: nat
  kernel :: "syscall list \<Rightarrow> syscall \<Rightarrow> reply"
  db :: "'db lmdb"
  opts :: options
  src_root :: int
  dst_root :: int
  hash64 :: "string \<Rightarrow> nat"
  task_order :: "nat \<Rightarrow> nat list"
  other_threads :: "'db world \<Rightarrow> 'db world"

definition sys :: "'db program \<Rightarrow> 'db world \<Rightarrow> syscall \<Rightarrow> reply \<times> 'db world" where
  "sys E w c = (kernel E (trace w) c, w\<lparr>trace := trace w @ [c]\<rparr>)"

section \<open>Objects\<close>

definition w_alloc :: "'db program \<Rightarrow> 'db world \<Rightarrow> nat \<Rightarrow> addr \<times> 'db world" where
  "w_alloc E w len = (let (p, st) = store_alloc (tid E) (wstore w) len in (p, w\<lparr>wstore := st\<rparr>))"

definition w_free :: "'db world \<Rightarrow> addr \<Rightarrow> 'db world" where
  "w_free w p = w\<lparr>wstore := store_free (wstore w) p\<rparr>"

definition w_put :: "addr \<Rightarrow> object \<Rightarrow> 'db world \<Rightarrow> 'db world option" where
  "w_put p x w = (if p = NULL then None else Some (w\<lparr>wstore := put_object p x (wstore w)\<rparr>))"

definition w_inc :: "'db world \<Rightarrow> addr \<Rightarrow> 'db world option" where
  "w_inc w ref = map_option (\<lambda>st. w\<lparr>wstore := st\<rparr>) (string_part_rc_inc (wstore w) ref)"

definition w_release :: "'db world \<Rightarrow> addr \<Rightarrow> 'db world option" where
  "w_release w ref = map_option (\<lambda>st. w\<lparr>wstore := st\<rparr>) (stringPartRelease (wstore w) ref)"

definition update_hinfo :: "addr \<Rightarrow> (hlink_info \<Rightarrow> hlink_info) \<Rightarrow> 'db world \<Rightarrow> 'db world option" where
  "update_hinfo p f w = do { h \<leftarrow> hinfos (wstore w) p; w_put p (HInfo (f h)) w }"

definition update_rev :: "addr \<Rightarrow> (hlink_info_rev \<Rightarrow> hlink_info_rev) \<Rightarrow> 'db world \<Rightarrow> 'db world option" where
  "update_rev p f w = do { r \<leftarrow> revs (wstore w) p; w_put p (Rev (f r)) w }"

definition update_fdrc :: "addr \<Rightarrow> (fdrc \<Rightarrow> fdrc) \<Rightarrow> 'db world \<Rightarrow> 'db world option" where
  "update_fdrc p f w = do { r \<leftarrow> fdrcs (wstore w) p; w_put p (Fdrc (f r)) w }"

text \<open>A spinlock that is held by the thread itself is waited for forever (\<open>spinlock.h\<close>).\<close>

definition lock_hinfo :: "addr \<Rightarrow> 'db world \<Rightarrow> 'db world option" where
  "lock_hinfo p w = do {
     h \<leftarrow> hinfos (wstore w) p;
     if hl_locked h then None else w_put p (HInfo (h\<lparr>hl_locked := True\<rparr>)) w }"

definition unlock_hinfo :: "addr \<Rightarrow> 'db world \<Rightarrow> 'db world option" where
  "unlock_hinfo p w = update_hinfo p (\<lambda>h. h\<lparr>hl_locked := False\<rparr>) w"

definition lock_rev :: "addr \<Rightarrow> 'db world \<Rightarrow> 'db world option" where
  "lock_rev p w = do {
     r \<leftarrow> revs (wstore w) p;
     if rev_locked r then None else w_put p (Rev (r\<lparr>rev_locked := True\<rparr>)) w }"

definition unlock_rev :: "addr \<Rightarrow> 'db world \<Rightarrow> 'db world option" where
  "unlock_rev p w = update_rev p (\<lambda>r. r\<lparr>rev_locked := False\<rparr>) w"

text \<open>The text of a name in the buffer that a function keeps for it: the bytes before the first zero.\<close>

definition name_text :: "'db program \<Rightarrow> buffer_name \<Rightarrow> 'db world \<Rightarrow> addr \<Rightarrow> (string \<times> 'db world) option" where
  "name_text E b w ref =
     (let (buf, st) = thread_buffer (tid E) (wstore w) (bufs w b) PATH_MAX
      in do {
        (code, buf, st) \<leftarrow> stringrefMemcpyWithRealloc (tid E) st ref buf;
        text \<leftarrow> (case objects st (fst buf) of Some (Buf s) \<Rightarrow> Some (takeWhile (\<lambda>c. c \<noteq> NUL) s) | _ \<Rightarrow> None);
        Some (text, w\<lparr>wstore := st, bufs := (bufs w)(b \<mapsto> buf)\<rparr>) })"

section \<open>Descriptors of directories\<close>

definition w_close :: "'db program \<Rightarrow> 'db world \<Rightarrow> int \<Rightarrow> 'db world" where
  "w_close E w fd = (let (_, w) = sys E w (Close fd) in w\<lparr>fdSem := fdSem w + 1\<rparr>)"

text \<open>The job that finishes a directory when its last user is done with it.\<close>

definition dot_job :: "addr \<Rightarrow> fdrc \<Rightarrow> file_copy_job" where
  "dot_job ref f = zero_file_job\<lparr>firstLook := True, remote := fdrc_path f, partial := NULL, stx := fdrc_srcStx f,
     srcFd := -1, dstFd := -1, isDot := True, dstDirFD := ref\<rparr>"

definition incref :: "addr \<Rightarrow> 'db world \<Rightarrow> 'db world option" where
  "incref ref w = update_fdrc ref (\<lambda>f. f\<lparr>fdrc_rc := inc64 (fdrc_rc f)\<rparr>) w"

text \<open>The destructor of \<open>FDRCGuard\<close>.\<close>

definition fdrc_release :: "'db program \<Rightarrow> 'db world \<Rightarrow> addr \<Rightarrow> 'db world option" where
  "fdrc_release E w ref = do {
     f \<leftarrow> fdrcs (wstore w) ref;
     w \<leftarrow> w_put ref (Fdrc (f\<lparr>fdrc_rc := dec64 (fdrc_rc f)\<rparr>)) w;
     if fdrc_rc f = 1 then
       if fdrc_dst f then do {
         w \<leftarrow> w_put ref (Fdrc (f\<lparr>fdrc_rc := 1, fdrc_dst := False\<rparr>)) w;
         w \<leftarrow> w_inc w (fdrc_path f);
         Some (w\<lparr>finishQ := finishQ w @ [dot_job ref f]\<rparr>) }
       else do {
         let w = w_free (w_close E w (fdrc_fd f)) ref;
         if isNullRef (fdrc_path f) then Some w else w_release w (fdrc_path f) }
     else Some w }"

end
