(* ===== verification/Syscalls.thy ===== *)
theory Syscalls
  imports World
begin

text \<open>
  The wrappers of \<open>syscalls.h\<close>, as built with \<open>NDEBUG\<close>: a semaphore counts the descriptors that may
  still be opened, and the predicate on paths that the assertions of a debug build use.
\<close>

section \<open>Paths\<close>

definition strstr :: "string \<Rightarrow> string \<Rightarrow> bool" where
  "strstr hay needle = list_ex (\<lambda>i. take (length needle) (drop i hay) = needle) [0..<length hay + 1]"

text \<open>\<open>strncmp (a, b, n) == 0\<close> for strings without a zero byte\<close>

definition strncmp_eq :: "string \<Rightarrow> string \<Rightarrow> nat \<Rightarrow> bool" where
  "strncmp_eq a b n \<longleftrightarrow> take n a = take n b"

definition path_ok :: "string option \<Rightarrow> bool" where
  "path_ok path = (case path of
     None \<Rightarrow> False
   | Some p \<Rightarrow>
       let pathlen = length p
       in if pathlen = 0 then False
          else if p ! 0 = CHR ''/'' then False
          else if p = ''..'' then False
          else if pathlen \<ge> 3 \<and> (strstr p ''/../'' \<or> strncmp_eq ''../'' p 3 \<or> strncmp_eq ''/..'' (drop (pathlen - 3) p) 3) then False
          else True)"

section \<open>Descriptors\<close>

definition sem_wait :: "'db world \<Rightarrow> 'db world option" where
  "sem_wait w = (if fdSem w = 0 then None else Some (w\<lparr>fdSem := fdSem w - 1\<rparr>))"

definition sem_post :: "'db world \<Rightarrow> 'db world" where
  "sem_post w = w\<lparr>fdSem := fdSem w + 1\<rparr>"

definition openat_wrapper :: "'db program \<Rightarrow> 'db world \<Rightarrow> int \<Rightarrow> string \<Rightarrow> open_flag list \<Rightarrow> nat \<Rightarrow> (reply \<times> 'db world) option" where
  "openat_wrapper E w dirfd path flags mode = do {
     w \<leftarrow> sem_wait w;
     let (r, w) = sys E w (Openat dirfd path flags mode);
     Some (r, if ret r < 0 then sem_post w else w) }"

text \<open>The stream is known by its descriptor; the reply 0 is \<open>NULL\<close>.\<close>

definition fdopendir_wrapper :: "'db program \<Rightarrow> 'db world \<Rightarrow> int \<Rightarrow> int option \<times> 'db world" where
  "fdopendir_wrapper E w fd =
     (let (r, w) = sys E w (Fdopendir fd)
      in if ret r = 0 then (None, sem_post w) else (Some fd, w))"

definition closedir_wrapper :: "'db program \<Rightarrow> 'db world \<Rightarrow> int \<Rightarrow> 'db world" where
  "closedir_wrapper E w dir = sem_post (snd (sys E w (Closedir dir)))"

end
