(* ===== verification/Path_Text.thy ===== *)
theory Path_Text
  imports Syscalls
begin

text \<open>
  The names between the slashes of a path, and what \<open>path_ok\<close> says about them.
\<close>

fun components :: "string \<Rightarrow> string list" where
  "components [] = [[]]"
| "components (c # s) =
     (if c = CHR ''/'' then [] # components s else (c # hd (components s)) # tl (components s))"

lemma components_not_empty [simp]: "components s \<noteq> []"
  by (induction s rule: components.induct) auto

lemma set_hd_tl: "xs \<noteq> [] \<Longrightarrow> set xs = insert (hd xs) (set (tl xs))"
  by (cases xs) auto

lemma components_hd: "hd (components s) = takeWhile (\<lambda>c. c \<noteq> CHR ''/'') s"
  by (induction s rule: components.induct) auto

lemma components_hd_iff:
  "x = hd (components s) \<longleftrightarrow> (\<exists>b. s = x @ b \<and> CHR ''/'' \<notin> set x \<and> (b = [] \<or> hd b = CHR ''/''))"
proof
  assume x: "x = hd (components s)"
  have "s = x @ dropWhile (\<lambda>c. c \<noteq> CHR ''/'') s" unfolding x components_hd by simp
  moreover have "CHR ''/'' \<notin> set x" unfolding x components_hd by (auto dest: set_takeWhileD)
  moreover have "dropWhile (\<lambda>c. c \<noteq> CHR ''/'') s = [] \<or> hd (dropWhile (\<lambda>c. c \<noteq> CHR ''/'') s) = CHR ''/''"
    using hd_dropWhile [of "\<lambda>c. c \<noteq> CHR ''/''" s] by blast
  ultimately show "\<exists>b. s = x @ b \<and> CHR ''/'' \<notin> set x \<and> (b = [] \<or> hd b = CHR ''/'')" by blast
next
  assume "\<exists>b. s = x @ b \<and> CHR ''/'' \<notin> set x \<and> (b = [] \<or> hd b = CHR ''/'')"
  then obtain b where b: "s = x @ b" "CHR ''/'' \<notin> set x" "b = [] \<or> hd b = CHR ''/''" by blast
  have "takeWhile (\<lambda>c. c \<noteq> CHR ''/'') (x @ b) = x @ takeWhile (\<lambda>c. c \<noteq> CHR ''/'') b"
    using b(2) by (intro takeWhile_append2) auto
  moreover have "takeWhile (\<lambda>c. c \<noteq> CHR ''/'') b = []" using b(3) by (cases b) auto
  ultimately show "x = hd (components s)" unfolding components_hd b(1) by simp
qed

lemma components_tl:
  "x \<in> set (tl (components s)) \<longleftrightarrow> (\<exists>a b. s = a @ CHR ''/'' # x @ b \<and> CHR ''/'' \<notin> set x \<and> (b = [] \<or> hd b = CHR ''/''))"
proof (induction s)
  case (Cons c s)
  have split: "set (components s) = insert (hd (components s)) (set (tl (components s)))"
    by (rule set_hd_tl) simp
  have "(\<exists>a b. c # s = a @ CHR ''/'' # x @ b \<and> CHR ''/'' \<notin> set x \<and> (b = [] \<or> hd b = CHR ''/''))
    \<longleftrightarrow> (c = CHR ''/'' \<and> x = hd (components s)) \<or> x \<in> set (tl (components s))"
    unfolding Cons.IH components_hd_iff by (auto simp: Cons_eq_append_conv)
  then show ?case by (auto simp: split)
qed simp

lemma strstr_iff: "strstr hay needle \<longleftrightarrow> (\<exists>a b. hay = a @ needle @ b)"
proof
  assume "strstr hay needle"
  then obtain i where "take (length needle) (drop i hay) = needle" by (auto simp: strstr_def list_ex_iff)
  then have "hay = take i hay @ needle @ drop (length needle) (drop i hay)" by (metis append_take_drop_id)
  then show "\<exists>a b. hay = a @ needle @ b" by blast
next
  assume "\<exists>a b. hay = a @ needle @ b"
  then obtain a b where "hay = a @ needle @ b" by blast
  then show "strstr hay needle" by (auto simp: strstr_def list_ex_iff intro!: bexI [of _ "length a"])
qed

lemma begins_iff: "take (length x) s = x \<longleftrightarrow> (\<exists>b. s = x @ b)"
  by (metis append_eq_conv_conj append_take_drop_id)

lemma ends_iff: "length x \<le> length s \<Longrightarrow> drop (length s - length x) s = x \<longleftrightarrow> (\<exists>a. s = a @ x)"
  by (metis append_take_drop_id append_eq_conv_conj diff_diff_cancel length_append add_diff_cancel_right')

lemma dots_component:
  "''..'' \<in> set (components s) \<longleftrightarrow> s = ''..'' \<or> (\<exists>b. s = ''../'' @ b) \<or> (\<exists>a. s = a @ ''/..'') \<or> (\<exists>a b. s = a @ ''/../'' @ b)"
proof -
  have "''..'' \<in> set (components s) \<longleftrightarrow> ''..'' = hd (components s) \<or> ''..'' \<in> set (tl (components s))"
    by (simp add: set_hd_tl [of "components s"])
  also have "''..'' = hd (components s) \<longleftrightarrow> s = ''..'' \<or> (\<exists>b. s = ''../'' @ b)"
  proof -
    have "(b = [] \<or> hd b = CHR ''/'') \<longleftrightarrow> b = [] \<or> (\<exists>b'. b = CHR ''/'' # b')" for b by (cases b) auto
    then show ?thesis unfolding components_hd_iff by auto
  qed
  also have "''..'' \<in> set (tl (components s)) \<longleftrightarrow> (\<exists>a. s = a @ ''/..'') \<or> (\<exists>a b. s = a @ ''/../'' @ b)"
  proof
    assume "''..'' \<in> set (tl (components s))"
    then obtain a b where "s = a @ ''/..'' @ b" "b = [] \<or> hd b = CHR ''/''" unfolding components_tl by auto
    then show "(\<exists>a. s = a @ ''/..'') \<or> (\<exists>a b. s = a @ ''/../'' @ b)" by (cases b) auto
  next
    assume "(\<exists>a. s = a @ ''/..'') \<or> (\<exists>a b. s = a @ ''/../'' @ b)"
    then show "''..'' \<in> set (tl (components s))"
    proof (elim disjE exE)
      fix a assume "s = a @ ''/..''" then show ?thesis unfolding components_tl by (intro exI [of _ a] exI [of _ "[]"]) simp
    next
      fix a b assume "s = a @ ''/../'' @ b" then show ?thesis unfolding components_tl by (intro exI [of _ a] exI [of _ "CHR ''/'' # b"]) simp
    qed
  qed
  finally show ?thesis by blast
qed

lemma path_ok_iff: "path_ok (Some s) \<longleftrightarrow> s \<noteq> [] \<and> hd s \<noteq> CHR ''/'' \<and> ''..'' \<notin> set (components s)"
proof (cases "s = []")
  case False
  have b: "strncmp_eq ''../'' s 3 \<longleftrightarrow> (\<exists>b. s = ''../'' @ b)"
    using begins_iff [of "''../''" s] by (auto simp: strncmp_eq_def numeral_3_eq_3)
  have e: "strncmp_eq ''/..'' (drop (length s - 3) s) 3 \<longleftrightarrow> (\<exists>a. s = a @ ''/..'')" if "3 \<le> length s"
    using ends_iff [of "''/..''" s] that by (auto simp: strncmp_eq_def numeral_3_eq_3)
  have len: "3 \<le> length s" if "(\<exists>b. s = ''../'' @ b) \<or> (\<exists>a. s = a @ ''/..'') \<or> (\<exists>a b. s = a @ ''/../'' @ b)"
    using that by auto
  show ?thesis
    using False b e len unfolding path_ok_def Let_def dots_component strstr_iff option.case
    by (cases "3 \<le> length s") (simp_all add: hd_conv_nth, blast)
qed (simp add: path_ok_def)

end
