(* ===== verification/Hlink.thy ===== *)
theory Hlink
  imports World
begin

text \<open>
  The hard link state of \<open>hlinkstate.cpp\<close>: a table from inodes of the source to what is known about
  them, a table from inodes of the destination back to inodes of the source, both in LMDB behind a
  cache in memory, and the two operations of the copy: registering a name of a file with several
  links, and handling the transfer of such a file. Definitions only.
\<close>

section \<open>The tables\<close>

definition on_hlink :: "('db hlink_state \<Rightarrow> 'db hlink_state) \<Rightarrow> 'db world \<Rightarrow> 'db world" where
  "on_hlink f w = w\<lparr>hlink := f (hlink w)\<rparr>"

definition cache_of :: "'db hlink_state \<Rightarrow> dbi \<Rightarrow> pairmap" where
  "cache_of s t = (case t of FORWARD \<Rightarrow> forwardTableCache s | REV \<Rightarrow> revTableCache s)"

definition set_cache :: "dbi \<Rightarrow> pairmap \<Rightarrow> 'db hlink_state \<Rightarrow> 'db hlink_state" where
  "set_cache t c s = (case t of FORWARD \<Rightarrow> s\<lparr>forwardTableCache := c\<rparr> | REV \<Rightarrow> s\<lparr>revTableCache := c\<rparr>)"

definition resetRDOnlyTxns :: "'db lmdb \<Rightarrow> 'db hlink_state \<Rightarrow> 'db hlink_state" where
  "resetRDOnlyTxns L s = s\<lparr>env := fold (\<lambda>t d. mdb_txn_renew L d (RdTxn t)) (rdTxns s) (env s)\<rparr>"

text \<open>The result is the address, if there is one; other errors of the database end the program.\<close>

definition readPair :: "'db lmdb \<Rightarrow> 'db hlink_state \<Rightarrow> txn \<Rightarrow> dbi \<Rightarrow> nat \<Rightarrow> addr option option" where
  "readPair L s t d k =
     (case cache_of s d k of
        Some v \<Rightarrow> Some (Some v)
      | None \<Rightarrow>
          (case mdb_get L (env s) t d k of
             Mdb_ok v \<Rightarrow> Some (Some v)
           | Mdb_notfound \<Rightarrow> Some None
           | Mdb_error \<Rightarrow> None))"

fun flush_pairs :: "'db lmdb \<Rightarrow> dbi \<Rightarrow> pairmap \<Rightarrow> nat list \<Rightarrow> 'db \<Rightarrow> 'db option" where
  "flush_pairs L d c [] e = Some e"
| "flush_pairs L d c (k # ks) e =
     do { v \<leftarrow> c k; e \<leftarrow> mdb_put L e d k v; flush_pairs L d c ks e }"

definition flushCache :: "'db lmdb \<Rightarrow> 'db hlink_state \<Rightarrow> dbi \<Rightarrow> 'db hlink_state option" where
  "flushCache L s d = do {
     e \<leftarrow> flush_pairs L d (cache_of s d) (iter L (cache_of s d)) (env s);
     let (_, e) = mdb_txn_commit L e;
     e \<leftarrow> mdb_txn_begin L e WrTxn;
     let s = resetRDOnlyTxns L (s\<lparr>env := e\<rparr>);
     Some (set_cache d Map.empty s) }"

definition writePair :: "'db lmdb \<Rightarrow> 'db hlink_state \<Rightarrow> dbi \<Rightarrow> nat \<Rightarrow> addr \<Rightarrow> 'db hlink_state option" where
  "writePair L s d k v =
     (let s = set_cache d ((cache_of s d)(k \<mapsto> v)) s
      in if length (iter L (cache_of s d)) \<ge> maxTableCacheSize s then flushCache L s d else Some s)"

definition deletePair :: "'db lmdb \<Rightarrow> 'db hlink_state \<Rightarrow> dbi \<Rightarrow> nat \<Rightarrow> 'db hlink_state option" where
  "deletePair L s d k =
     (let s = set_cache d ((cache_of s d)(k := None)) s;
          (err, e) = mdb_del L (env s) d k
      in if err = Mdb_error then None else Some (resetRDOnlyTxns L (s\<lparr>env := e\<rparr>)))"

definition getRDOnlyTxn :: "'db lmdb \<Rightarrow> nat \<Rightarrow> 'db hlink_state \<Rightarrow> (txn \<times> 'db hlink_state) option" where
  "getRDOnlyTxn L t s =
     (if t \<in> set (rdTxns s) then Some (RdTxn t, s)
      else do {
        e \<leftarrow> mdb_txn_begin L (env s) (RdTxn t);
        Some (RdTxn t, s\<lparr>env := e, rdTxns := rdTxns s @ [t]\<rparr>) })"

text \<open>
  Creating the state: any failure ends the program. The environment is static and shared, the tables
  are opened in a first transaction.
\<close>

definition createHLinkState :: "'db lmdb \<Rightarrow> string \<Rightarrow> nat \<Rightarrow> nat \<Rightarrow> 'db hlink_state option" where
  "createHLinkState L path maxCache maxEnvSize = do {
     e \<leftarrow> mdb_env_create L;
     e \<leftarrow> mdb_env_open L e path maxEnvSize;
     e \<leftarrow> mdb_txn_begin L e WrTxn;
     e \<leftarrow> mdb_dbi_open L e FORWARD;
     e \<leftarrow> mdb_dbi_open L e REV;
     let (ok, e) = mdb_txn_commit L e;
     if \<not> ok then None
     else do {
       e \<leftarrow> mdb_txn_begin L e WrTxn;
       Some \<lparr>rwlock = Unlocked, env = e, maxTableCacheSize = maxCache, forwardTableCache = Map.empty,
         revTableCache = Map.empty, rdTxns = []\<rparr> } }"

section \<open>Locks\<close>

definition rd_lock :: "'db world \<Rightarrow> 'db world option" where
  "rd_lock w = (case rwlock (hlink w) of
     Unlocked \<Rightarrow> Some (on_hlink (\<lambda>s. s\<lparr>rwlock := Rdlocked 1\<rparr>) w)
   | Rdlocked n \<Rightarrow> Some (on_hlink (\<lambda>s. s\<lparr>rwlock := Rdlocked (n + 1)\<rparr>) w)
   | Wrlocked \<Rightarrow> None)"

text \<open>Both operations begin by taking the lock for reading and looking up the transaction of the thread.\<close>

definition enter :: "'db program \<Rightarrow> 'db world \<Rightarrow> (txn \<times> 'db world) option" where
  "enter E w = do {
     w \<leftarrow> rd_lock w;
     (t, s) \<leftarrow> getRDOnlyTxn (db E) (tid E) (hlink w);
     Some (t, w\<lparr>hlink := s\<rparr>) }"

definition rw_unlock :: "'db world \<Rightarrow> 'db world" where
  "rw_unlock w = on_hlink (\<lambda>s. s\<lparr>rwlock := (case rwlock s of
     Rdlocked n \<Rightarrow> if n \<le> 1 then Unlocked else Rdlocked (n - 1) | _ \<Rightarrow> Unlocked)\<rparr>) w"

text \<open>
  The lock is given up before it is taken for writing, and other threads may run in between. A thread
  that still holds it for reading waits for itself.
\<close>

definition promote :: "'db program \<Rightarrow> 'db world \<Rightarrow> 'db world option" where
  "promote E w =
     (let w = other_threads E (rw_unlock w)
      in if rwlock (hlink w) = Unlocked then Some (on_hlink (\<lambda>s. s\<lparr>rwlock := Wrlocked\<rparr>) w) else None)"

definition w_read :: "'db program \<Rightarrow> 'db world \<Rightarrow> txn \<Rightarrow> dbi \<Rightarrow> nat \<Rightarrow> addr option option" where
  "w_read E w t d k = readPair (db E) (hlink w) t d k"

definition w_write :: "'db program \<Rightarrow> 'db world \<Rightarrow> dbi \<Rightarrow> nat \<Rightarrow> addr \<Rightarrow> 'db world option" where
  "w_write E w d k v = map_option (\<lambda>s. w\<lparr>hlink := s\<rparr>) (writePair (db E) (hlink w) d k v)"

definition w_delete :: "'db program \<Rightarrow> 'db world \<Rightarrow> dbi \<Rightarrow> nat \<Rightarrow> 'db world option" where
  "w_delete E w d k = map_option (\<lambda>s. w\<lparr>hlink := s\<rparr>) (deletePair (db E) (hlink w) d k)"

section \<open>Registering a name\<close>

text \<open>The arguments that do not change, and the three answers.\<close>

record register_args =
  ra_remote :: string
  ra_remoteRef :: addr
  ra_srcInode :: nat
  ra_destInode :: nat
  ra_destExists :: bool
  ra_srcNLinks :: nat
  ra_destNLinks :: nat
  ra_destRootFD :: int
  ra_dstFDRef :: addr

record register_out =
  shouldTransfer :: bool
  isFirstLook :: bool
  isPendingHardlink :: bool

text \<open>
  The root has been transferred: the name is linked to it. The result says whether the function has
  returned, and otherwise whether the write lock is held and what \<open>hinfoRef\<close> is.
\<close>

definition drop_root :: "'db program \<Rightarrow> 'db world \<Rightarrow> register_args \<Rightarrow> addr \<Rightarrow> 'db world option" where
  "drop_root E w a hinfo = do {
     w \<leftarrow> unlock_hinfo hinfo w;
     w \<leftarrow> promote E w;
     found \<leftarrow> w_read E w WrTxn FORWARD (ra_srcInode a);
     case found of
       None \<Rightarrow> Some w
     | Some hinfoRef \<Rightarrow> do {
         w \<leftarrow> lock_hinfo hinfo w;
         w \<leftarrow> w_delete E w FORWARD (ra_srcInode a);
         Some (w_free w hinfoRef) } }"

definition link_to_root :: "'db program \<Rightarrow> 'db world \<Rightarrow> register_args \<Rightarrow> string \<Rightarrow> addr \<Rightarrow>
    (bool \<times> bool \<times> addr \<times> 'db world) option" where
  "link_to_root E w a linkRoot hinfo =
     (let (r, w) = sys E w (Unlinkat (ra_destRootFD a) (ra_remote a) False);
          (failed, w) =
            (if ret r < 0 \<and> errno r \<noteq> ENOENT then (False, w)
             else let (r, w) = sys E w (Linkat (ra_destRootFD a) linkRoot (ra_destRootFD a) (ra_remote a))
                  in (ret r < 0, w))
      in if failed then Some (True, False, hinfo, w)
         else do {
           h \<leftarrow> hinfos (wstore w) hinfo;
           w \<leftarrow> update_hinfo hinfo (\<lambda>h. h\<lparr>hl_nlinkRC := dec64 (hl_nlinkRC h)\<rparr>) w;
           if hl_nlinkRC h = 0 then map_option (\<lambda>w. (False, True, NULL, w)) (drop_root E w a hinfo)
           else Some (False, False, hinfo, w) })"

text \<open>The root is not there yet: the name is put on the list of the root.\<close>

definition queue_link :: "'db program \<Rightarrow> 'db world \<Rightarrow> register_args \<Rightarrow> addr \<Rightarrow> 'db world option" where
  "queue_link E w a hinfo = do {
     let (entryRef, w) = w_alloc E w sizeof_LinkEntry;
     w \<leftarrow> incref (ra_dstFDRef a) w;
     w \<leftarrow> w_inc w (ra_remoteRef a);
     w \<leftarrow> w_put entryRef (Link \<lparr>entry_link = ra_remoteRef a, entry_prev = NULL, entry_dstFD = ra_dstFDRef a\<rparr>) w;
     h \<leftarrow> hinfos (wstore w) hinfo;
     (tip, st) \<leftarrow> linkEntryAppend (wstore w) (hl_links h) entryRef;
     update_hinfo hinfo (\<lambda>h. h\<lparr>hl_links := tip\<rparr>) (w\<lparr>wstore := st\<rparr>) }"

text \<open>The source inode is known; the result is the one of \<open>link_to_root\<close> with the answers.\<close>

definition known_root :: "'db program \<Rightarrow> 'db world \<Rightarrow> register_args \<Rightarrow> bool \<Rightarrow> addr \<Rightarrow>
    (bool \<times> bool \<times> register_out \<times> 'db world) option" where
  "known_root E w a orig hinfo = do {
     h \<leftarrow> hinfos (wstore w) hinfo;
     if ra_destExists a \<and> ra_destInode a = destInode h
     then Some (False, False, \<lparr>shouldTransfer = orig, isFirstLook = False, isPendingHardlink = False\<rparr>, w)
     else do {
       (linkRoot, w) \<leftarrow> name_text E Register_linkRoot w (hl_remote h);
       w \<leftarrow> lock_hinfo hinfo w;
       if transferred h then do {
         (returned, wr, ref, w) \<leftarrow> link_to_root E w a linkRoot hinfo;
         let out = \<lparr>shouldTransfer = False, isFirstLook = False, isPendingHardlink = False\<rparr>;
         if returned then Some (True, wr, out, w)
         else if isNullRef ref then Some (False, wr, out, w)
         else map_option (\<lambda>w. (False, wr, out, w)) (unlock_hinfo hinfo w) }
       else do {
         w \<leftarrow> queue_link E w a hinfo;
         w \<leftarrow> unlock_hinfo hinfo w;
         Some (False, False, \<lparr>shouldTransfer = False, isFirstLook = False, isPendingHardlink = True\<rparr>, w) } } }"

text \<open>The first name of a source inode; the write lock is held.\<close>

definition first_look :: "'db program \<Rightarrow> 'db world \<Rightarrow> register_args \<Rightarrow> bool \<Rightarrow> addr option \<Rightarrow> (register_out \<times> 'db world) option" where
  "first_look E w a orig dst = do {
     let (hinfoRef, w) = w_alloc E w sizeof_HLinkInfo;
     w \<leftarrow> w_inc w (ra_remoteRef a);
     w \<leftarrow> w_put hinfoRef (HInfo \<lparr>transferred = False, destInode = ra_destInode a, hl_remote = ra_remoteRef a,
            hl_links = NULL, hl_nlinkRC = ra_srcNLinks a, hl_locked = False\<rparr>) w;
     w \<leftarrow> w_write E w FORWARD (ra_srcInode a) hinfoRef;
     should \<leftarrow> (case dst of
        Some revinfoRef \<Rightarrow>
          if ra_destExists a \<and> \<not> orig then do {
            r \<leftarrow> revs (wstore w) revinfoRef;
            Some (srcInode r \<noteq> ra_srcInode a \<or> orig) }
          else Some orig
      | None \<Rightarrow> Some orig);
     Some (\<lparr>shouldTransfer = should, isFirstLook = True, isPendingHardlink = False\<rparr>, w) }"

text \<open>The table of destination inodes, after \<open>reroll_dststate\<close>; \<open>dst\<close> is the entry that was found.\<close>

definition add_dst :: "'db program \<Rightarrow> 'db world \<Rightarrow> register_args \<Rightarrow> bool \<Rightarrow> 'db world option" where
  "add_dst E w a should = do {
     let (revinfoRef, w) = w_alloc E w sizeof_HLinkInfoRev;
     w \<leftarrow> w_put revinfoRef (Rev \<lparr>srcInode = (if should then 2 ^ 64 - 1 else ra_srcInode a),
            rev_nlinkRC = ra_destNLinks a, rev_locked = False\<rparr>) w;
     w_write E w REV (ra_destInode a) revinfoRef }"

definition count_dst :: "'db program \<Rightarrow> 'db world \<Rightarrow> register_args \<Rightarrow> bool \<Rightarrow> addr \<Rightarrow> 'db world option" where
  "count_dst E w a wr revinfoRef = do {
     w \<leftarrow> lock_rev revinfoRef w;
     w \<leftarrow> update_rev revinfoRef (\<lambda>r. r\<lparr>rev_nlinkRC := dec64 (rev_nlinkRC r)\<rparr>) w;
     r \<leftarrow> revs (wstore w) revinfoRef;
     if rev_nlinkRC r = 0 then do {
       w \<leftarrow> (if wr then Some w
            else do { w \<leftarrow> unlock_rev revinfoRef w; w \<leftarrow> promote E w; lock_rev revinfoRef w });
       found \<leftarrow> w_read E w WrTxn REV (ra_destInode a);
       case found of
         None \<Rightarrow> Some w
       | Some ref \<Rightarrow> do { w \<leftarrow> w_delete E w REV (ra_destInode a); Some (w_free w ref) } }
     else unlock_rev revinfoRef w }"

definition dst_state :: "'db program \<Rightarrow> 'db world \<Rightarrow> register_args \<Rightarrow> bool \<Rightarrow> bool \<Rightarrow> addr option \<Rightarrow> 'db world option" where
  "dst_state E w a should wr dst =
     (let update = (\<lambda>w wr dst.
        case dst of
          None \<Rightarrow> if ra_destExists a \<and> 1 < ra_destNLinks a then add_dst E w a should else Some w
        | Some ref \<Rightarrow> if ra_destExists a then count_dst E w a wr ref else Some w)
      in if ra_destExists a \<and> dst = None \<and> 1 < ra_destNLinks a \<and> \<not> wr
         then do {
           w \<leftarrow> promote E w;
           dst \<leftarrow> w_read E w (RdTxn (tid E)) REV (ra_srcInode a);
           update w True dst }
         else update w wr dst)"

partial_function (option) hlinkStateRegisterLinkRoot ::
    "'db program \<Rightarrow> register_args \<Rightarrow> bool \<Rightarrow> 'db world \<Rightarrow> (register_out \<times> 'db world) option" where
  "hlinkStateRegisterLinkRoot E a orig w = do {
     (t, w) \<leftarrow> enter E w;
     src \<leftarrow> w_read E w t FORWARD (ra_srcInode a);
     dst \<leftarrow> (if ra_destExists a then w_read E w t REV (ra_destInode a) else Some None);
     case src of
       Some hinfoRef \<Rightarrow> do {
         (returned, wr, out, w) \<leftarrow> known_root E w a orig hinfoRef;
         if returned then Some (out, w)
         else do {
           w \<leftarrow> dst_state E w a (shouldTransfer out) wr dst;
           Some (out, rw_unlock w) } }
     | None \<Rightarrow> do {
         w \<leftarrow> promote E w;
         src \<leftarrow> w_read E w t FORWARD (ra_srcInode a);
         if src \<noteq> None then hlinkStateRegisterLinkRoot E a orig (rw_unlock w)
         else do {
           (out, w) \<leftarrow> first_look E w a orig dst;
           w \<leftarrow> dst_state E w a (shouldTransfer out) True dst;
           Some (out, rw_unlock w) } } }"

declare hlinkStateRegisterLinkRoot.simps [code]

section \<open>Handling a transfer\<close>

text \<open>The names that wait for the root, the last one first.\<close>

partial_function (option) transfer_links ::
    "'db program \<Rightarrow> string \<Rightarrow> int \<Rightarrow> addr \<Rightarrow> nat \<Rightarrow> 'db world \<Rightarrow> (nat \<times> 'db world) option" where
  "transfer_links E root destRootFD curRef n w =
     (if isNullRef curRef then Some (n, w)
      else do {
        entry \<leftarrow> links (wstore w) curRef;
        (linkRoot, w) \<leftarrow> name_text E Transfer_linkRoot w (entry_link entry);
        let (_, w) = sys E w (Unlinkat destRootFD linkRoot False);
        let (_, w) = sys E w (Linkat destRootFD root destRootFD linkRoot);
        w \<leftarrow> w_release w (entry_link entry);
        let w = w_free w curRef;
        w \<leftarrow> fdrc_release E w (entry_dstFD entry);
        transfer_links E root destRootFD (entry_prev entry) (inc64 n) w })"

declare transfer_links.simps [code]

text \<open>
  The end of the life of the entry, as the code has it: it is looked up with the inode of the
  destination, and the entry of the source inode is deleted in the other table.
\<close>

definition drop_transferred :: "'db program \<Rightarrow> nat \<Rightarrow> nat \<Rightarrow> addr \<Rightarrow> 'db world \<Rightarrow> (addr \<times> 'db world) option" where
  "drop_transferred E src dest hinfo w = do {
     w \<leftarrow> unlock_hinfo hinfo w;
     w \<leftarrow> promote E w;
     found \<leftarrow> w_read E w WrTxn FORWARD dest;
     case found of
       None \<Rightarrow> Some (hinfo, w)
     | Some ref \<Rightarrow> do {
         w \<leftarrow> lock_hinfo hinfo w;
         w \<leftarrow> w_delete E w REV src;
         Some (NULL, w_free w ref) } }"

definition hlinkStateHandleTransfer ::
    "'db program \<Rightarrow> string \<Rightarrow> nat \<Rightarrow> nat \<Rightarrow> int \<Rightarrow> 'db world \<Rightarrow> (nat \<times> 'db world) option" where
  "hlinkStateHandleTransfer E root src dest destRootFD w = do {
     (t, w) \<leftarrow> enter E w;
     found \<leftarrow> w_read E w t FORWARD src;
     case found of
       None \<Rightarrow> Some (0, rw_unlock w)
     | Some hinfo \<Rightarrow> do {
         w \<leftarrow> lock_hinfo hinfo w;
         w \<leftarrow> update_hinfo hinfo (\<lambda>h. h\<lparr>transferred := True, destInode := dest\<rparr>) w;
         h \<leftarrow> hinfos (wstore w) hinfo;
         (n, w) \<leftarrow> transfer_links E root destRootFD (hl_links h) 0 w;
         w \<leftarrow> update_hinfo hinfo (\<lambda>h. h\<lparr>hl_nlinkRC := dec64 (hl_nlinkRC h)\<rparr>) w;
         h \<leftarrow> hinfos (wstore w) hinfo;
         (ref, w) \<leftarrow> (if hl_nlinkRC h = 0 then drop_transferred E src dest hinfo w else Some (hinfo, w));
         w \<leftarrow> (if isNullRef ref then Some w else unlock_hinfo ref w);
         Some (n, rw_unlock w) } }"

end
