(* ===== verification/Hlink_Tables.thy ===== *)
theory Hlink_Tables
  imports Hlink
begin

text \<open>
  The two tables of hard links are maps, whatever is in the cache and what is in the database: the
  contract of a table as a locale, with what follows for a sequence of operations, and the
  implementation as an instance of it. What is assumed of LMDB is what it documents about the write
  transaction, commits that fail included: \<open>flushCache\<close> does not look whether its commit succeeds, so
  the contract says of every write whether it is kept, and what a table may fall back to if not.
\<close>

section \<open>Tables\<close>

datatype 'k table_op = Put 'k addr | Del 'k

fun run_table :: "('s \<Rightarrow> 'k \<Rightarrow> addr \<Rightarrow> 's option) \<Rightarrow> ('s \<Rightarrow> 'k \<Rightarrow> 's option) \<Rightarrow> 's \<Rightarrow> 'k table_op list \<Rightarrow> 's option" where
  "run_table put del s [] = Some s"
| "run_table put del s (Put k v # ops) = Option.bind (put s k v) (\<lambda>s. run_table put del s ops)"
| "run_table put del s (Del k # ops) = Option.bind (del s k) (\<lambda>s. run_table put del s ops)"

fun apply_ops :: "('k \<Rightarrow> addr option) \<Rightarrow> 'k table_op list \<Rightarrow> 'k \<Rightarrow> addr option" where
  "apply_ops m [] = m"
| "apply_ops m (Put k v # ops) = apply_ops (m(k \<mapsto> v)) ops"
| "apply_ops m (Del k # ops) = apply_ops (m(k := None)) ops"

text \<open>All writes of a run are kept.\<close>

fun run_kept :: "('s \<Rightarrow> 'k \<Rightarrow> addr \<Rightarrow> 's option) \<Rightarrow> ('s \<Rightarrow> 'k \<Rightarrow> 's option) \<Rightarrow> ('s \<Rightarrow> 'k \<Rightarrow> addr \<Rightarrow> bool) \<Rightarrow> 's \<Rightarrow> 'k table_op list \<Rightarrow> bool" where
  "run_kept put del kept s [] \<longleftrightarrow> True"
| "run_kept put del kept s (Put k v # ops) \<longleftrightarrow> kept s k v \<and> (case put s k v of None \<Rightarrow> True | Some s \<Rightarrow> run_kept put del kept s ops)"
| "run_kept put del kept s (Del k # ops) \<longleftrightarrow> (case del s k of None \<Rightarrow> True | Some s \<Rightarrow> run_kept put del kept s ops)"

text \<open>
  The contract: a write that is kept and a deletion change the table at one place; what a table may ever
  fall back to at a place (\<open>past\<close>) is only what was written there.
\<close>

locale pair_table =
  fixes inv :: "'s \<Rightarrow> bool" and tbl :: "'s \<Rightarrow> 'k \<Rightarrow> addr option"
    and get :: "'s \<Rightarrow> 'k \<Rightarrow> addr option option" and put :: "'s \<Rightarrow> 'k \<Rightarrow> addr \<Rightarrow> 's option" and del :: "'s \<Rightarrow> 'k \<Rightarrow> 's option"
    and kept :: "'s \<Rightarrow> 'k \<Rightarrow> addr \<Rightarrow> bool" and past :: "'s \<Rightarrow> 'k \<Rightarrow> addr option set"
  assumes get: "inv s \<Longrightarrow> get s k = Some r \<Longrightarrow> r = tbl s k"
    and put: "inv s \<Longrightarrow> put s k v = Some s' \<Longrightarrow> inv s' \<and> (kept s k v \<longrightarrow> tbl s' = (tbl s)(k \<mapsto> v))"
    and del: "inv s \<Longrightarrow> del s k = Some s' \<Longrightarrow> inv s' \<and> tbl s' = (tbl s)(k := None)"
    and now: "inv s \<Longrightarrow> tbl s k \<in> past s k"
    and past_put: "inv s \<Longrightarrow> put s k v = Some s' \<Longrightarrow> past s' x \<subseteq> past s x \<union> (if x = k then {Some v} else {})"
    and past_del: "inv s \<Longrightarrow> del s k = Some s' \<Longrightarrow> past s' x \<subseteq> past s x \<union> (if x = k then {None} else {})"
begin

lemma run:
  assumes "inv s" "run_table put del s ops = Some s'"
  shows "inv s' \<and> (run_kept put del kept s ops \<longrightarrow> tbl s' = apply_ops (tbl s) ops)"
  using assms
proof (induction ops arbitrary: s)
  case (Cons x ops)
  show ?case
  proof (cases x)
    case (Put k v)
    then obtain s1 where s1: "put s k v = Some s1" "run_table put del s1 ops = Some s'"
      using Cons.prems(2) by (auto split: bind_splits)
    note p = put [OF Cons.prems(1) s1(1)]
    show ?thesis using p Cons.IH [OF conjunct1 [OF p] s1(2)] unfolding Put by (simp only: run_kept.simps apply_ops.simps s1(1) option.case) metis
  next
    case (Del k)
    then obtain s1 where s1: "del s k = Some s1" "run_table put del s1 ops = Some s'"
      using Cons.prems(2) by (auto split: bind_splits)
    note d = del [OF Cons.prems(1) s1(1)]
    show ?thesis using d Cons.IH [OF conjunct1 [OF d] s1(2)] unfolding Del by (simp only: run_kept.simps apply_ops.simps s1(1) option.case) metis
  qed
qed simp

text \<open>Whether or not writes are lost, only what was there after some part of the run can be there.\<close>

lemma run_past:
  assumes "inv s" "run_table put del s ops = Some s'" "r \<in> past s' x"
  shows "r \<in> past s x \<or> (\<exists>n. r = apply_ops m (take n ops) x)"
  using assms(1,2)
proof (induction ops arbitrary: s m)
  case Nil
  then show ?case using assms(3) by simp
next
  case (Cons y ops)
  show ?case
  proof (cases y)
    case (Put k v)
    then obtain s1 where s1: "put s k v = Some s1" "run_table put del s1 ops = Some s'"
      using Cons.prems(2) by (auto split: bind_splits)
    have later: "\<exists>n. r = apply_ops m (take n (y # ops)) x" if "r = apply_ops (m(k \<mapsto> v)) (take n ops) x" for n
      using that by (intro exI [of _ "Suc n"]) (simp add: Put)
    from Cons.IH [OF conjunct1 [OF put [OF Cons.prems(1) s1(1)]] s1(2), of "m(k \<mapsto> v)"] past_put [OF Cons.prems(1) s1(1), of x]
    show ?thesis using later later [of 0] by (fastforce split: if_splits)
  next
    case (Del k)
    then obtain s1 where s1: "del s k = Some s1" "run_table put del s1 ops = Some s'"
      using Cons.prems(2) by (auto split: bind_splits)
    have later: "\<exists>n. r = apply_ops m (take n (y # ops)) x" if "r = apply_ops (m(k := None)) (take n ops) x" for n
      using that by (intro exI [of _ "Suc n"]) (simp add: Del)
    from Cons.IH [OF conjunct1 [OF del [OF Cons.prems(1) s1(1)]] s1(2), of "m(k := None)"] past_del [OF Cons.prems(1) s1(1), of x]
    show ?thesis using later later [of 0] by (fastforce split: if_splits)
  qed
qed

lemma read_after:
  assumes "inv s" "run_table put del s ops = Some s'" "get s' k = Some r"
  shows "run_kept put del kept s ops \<Longrightarrow> r = apply_ops (tbl s) ops k"
    and "r \<in> past s k \<or> (\<exists>n. r = apply_ops (tbl s) (take n ops) k)"
proof -
  have r: "inv s'" "r = tbl s' k" using run [OF assms(1,2)] get [of s' k r] assms(3) by simp_all
  show "run_kept put del kept s ops \<Longrightarrow> r = apply_ops (tbl s) ops k" using run [OF assms(1,2)] r(2) by simp
  show "r \<in> past s k \<or> (\<exists>n. r = apply_ops (tbl s) (take n ops) k)"
    by (rule run_past [OF assms(1,2)]) (use now [OF r(1)] r(2) in simp)
qed

end

section \<open>What LMDB promises\<close>

text \<open>
  In the write transaction, a value that was put is found until it is deleted or overwritten. What a
  new write transaction finds is what is \<open>durable\<close>, a view of the database that only a commit changes:
  one that succeeds makes it what was found in the transaction, one that fails abandons the transaction
  and leaves it as it was. Read transactions change neither. The hash map of the cache visits every entry
  once. Any of the operations may fail.
\<close>

type_synonym view = "dbi \<Rightarrow> nat \<Rightarrow> addr mdb_reply"

definition lmdb_ok :: "'db lmdb \<Rightarrow> ('db \<Rightarrow> view) \<Rightarrow> bool" where
  "lmdb_ok L durable \<longleftrightarrow>
     (\<forall>e d k v e' d' k'. mdb_put L e d k v = Some e' \<longrightarrow> durable e' = durable e
        \<and> mdb_get L e' WrTxn d' k' = (if d' = d \<and> k' = k then Mdb_ok v else mdb_get L e WrTxn d' k'))
     \<and> (\<forall>e d k d' k'. fst (mdb_del L e d k) \<noteq> Mdb_error \<longrightarrow> durable (snd (mdb_del L e d k)) = durable e
        \<and> mdb_get L (snd (mdb_del L e d k)) WrTxn d' k' = (if d' = d \<and> k' = k then Mdb_notfound else mdb_get L e WrTxn d' k'))
     \<and> (\<forall>e. durable (snd (mdb_txn_commit L e)) = (if fst (mdb_txn_commit L e) then mdb_get L e WrTxn else durable e))
     \<and> (\<forall>e e'. mdb_txn_begin L e WrTxn = Some e' \<longrightarrow> mdb_get L e' WrTxn = durable e \<and> durable e' = durable e)
     \<and> (\<forall>e t e'. mdb_txn_begin L e (RdTxn t) = Some e' \<longrightarrow> mdb_get L e' WrTxn = mdb_get L e WrTxn \<and> durable e' = durable e)
     \<and> (\<forall>e t. mdb_get L (mdb_txn_renew L e (RdTxn t)) WrTxn = mdb_get L e WrTxn \<and> durable (mdb_txn_renew L e (RdTxn t)) = durable e)
     \<and> (\<forall>m. finite (dom m) \<longrightarrow> distinct (iter L m) \<and> set (iter L m) = dom m)"

lemma lmdb_okD:
  assumes "lmdb_ok L C"
  shows "mdb_put L e d k v = Some e' \<Longrightarrow> C e' = C e
      \<and> mdb_get L e' WrTxn d' k' = (if d' = d \<and> k' = k then Mdb_ok v else mdb_get L e WrTxn d' k')"
    "mdb_del L e d k = (err, e') \<Longrightarrow> err \<noteq> Mdb_error \<Longrightarrow> C e' = C e
      \<and> mdb_get L e' WrTxn d' k' = (if d' = d \<and> k' = k then Mdb_notfound else mdb_get L e WrTxn d' k')"
    "mdb_txn_commit L e = (ok, e1) \<Longrightarrow> C e1 = (if ok then mdb_get L e WrTxn else C e)"
    "mdb_txn_begin L e (RdTxn t) = Some e' \<Longrightarrow> mdb_get L e' WrTxn = mdb_get L e WrTxn \<and> C e' = C e"
    "mdb_get L (mdb_txn_renew L e (RdTxn t)) WrTxn = mdb_get L e WrTxn \<and> C (mdb_txn_renew L e (RdTxn t)) = C e"
    "finite (dom m) \<Longrightarrow> distinct (iter L m)" "finite (dom m) \<Longrightarrow> set (iter L m) = dom m"
    "mdb_txn_begin L e WrTxn = Some e' \<Longrightarrow> mdb_get L e' WrTxn = C e \<and> C e' = C e"
proof -
  note ok = assms [unfolded lmdb_ok_def]
  show "mdb_put L e d k v = Some e' \<Longrightarrow> C e' = C e
      \<and> mdb_get L e' WrTxn d' k' = (if d' = d \<and> k' = k then Mdb_ok v else mdb_get L e WrTxn d' k')"
    using conjunct1 [OF ok] by metis
  show "mdb_del L e d k = (err, e') \<Longrightarrow> err \<noteq> Mdb_error \<Longrightarrow> C e' = C e
      \<and> mdb_get L e' WrTxn d' k' = (if d' = d \<and> k' = k then Mdb_notfound else mdb_get L e WrTxn d' k')"
    using conjunct1 [OF conjunct2 [OF ok]] by (metis fst_conv snd_conv)
  show "mdb_txn_commit L e = (ok, e1) \<Longrightarrow> C e1 = (if ok then mdb_get L e WrTxn else C e)"
    using ok by (metis fst_conv snd_conv)
qed (use assms in \<open>simp_all only: lmdb_ok_def\<close>)

text \<open>
  The table that a state stands for: the entries of the cache over those of the database. What it may
  fall back to are the entries of the database, in the transaction and durable.
\<close>

definition found :: "view \<Rightarrow> dbi \<times> nat \<Rightarrow> addr option" where
  "found g x = (case g (fst x) (snd x) of Mdb_ok v \<Rightarrow> Some v | _ \<Rightarrow> None)"

definition stored :: "'db lmdb \<Rightarrow> 'db \<Rightarrow> dbi \<times> nat \<Rightarrow> addr option" where
  "stored L e = found (mdb_get L e WrTxn)"

definition cached :: "'db hlink_state \<Rightarrow> dbi \<times> nat \<Rightarrow> addr option" where
  "cached s x = cache_of s (fst x) (snd x)"

definition table :: "'db lmdb \<Rightarrow> 'db hlink_state \<Rightarrow> dbi \<times> nat \<Rightarrow> addr option" where
  "table L s = stored L (env s) ++ cached s"

definition versions :: "'db lmdb \<Rightarrow> ('db \<Rightarrow> view) \<Rightarrow> 'db hlink_state \<Rightarrow> dbi \<times> nat \<Rightarrow> addr option set" where
  "versions L C s x = {found (C (env s)) x, stored L (env s) x, table L s x}"

definition tables_ok :: "'db lmdb \<Rightarrow> ('db \<Rightarrow> view) \<Rightarrow> 'db hlink_state \<Rightarrow> bool" where
  "tables_ok L C s \<longleftrightarrow> lmdb_ok L C \<and> (\<forall>d. finite (dom (cache_of s d)))"

lemma table_cong:
  assumes "cache_of s' = cache_of s" "mdb_get L (env s') WrTxn = mdb_get L (env s) WrTxn"
  shows "table L s' = table L s" "tables_ok L C s' \<longleftrightarrow> tables_ok L C s"
proof -
  have "cached s' = cached s" by (rule ext) (simp add: cached_def assms(1))
  moreover have "stored L (env s') = stored L (env s)" by (simp add: stored_def assms(2))
  ultimately show "table L s' = table L s" by (simp only: table_def)
  show "tables_ok L C s' \<longleftrightarrow> tables_ok L C s" by (simp only: tables_ok_def assms(1))
qed

text \<open>A commit that fails: whether \<open>flushCache\<close> and a write that flushes keep what is in the cache.\<close>

definition flush_kept :: "'db lmdb \<Rightarrow> 'db hlink_state \<Rightarrow> dbi \<Rightarrow> bool" where
  "flush_kept L s d = (case flush_pairs L d (cache_of s d) (iter L (cache_of s d)) (env s) of
     None \<Rightarrow> True | Some e \<Rightarrow> fst (mdb_txn_commit L e))"

definition pair_kept :: "'db lmdb \<Rightarrow> 'db hlink_state \<Rightarrow> dbi \<times> nat \<Rightarrow> addr \<Rightarrow> bool" where
  "pair_kept L s x v =
     (let s = set_cache (fst x) ((cache_of s (fst x))(snd x \<mapsto> v)) s
      in length (iter L (cache_of s (fst x))) < maxTableCacheSize s \<or> flush_kept L s (fst x))"

section \<open>The operations\<close>

lemma map_add_None: "f(x := None) ++ g(x := None) = (f ++ g)(x := None)"
proof
  fix y
  show "(f(x := None) ++ g(x := None)) y = ((f ++ g)(x := None)) y"
    by (cases "y = x"; cases "g y") (simp_all add: map_add_def)
qed

lemma cache_simps [simp]:
  "cache_of (set_cache d c s) d' = (if d' = d then c else cache_of s d')"
  "env (set_cache d c s) = env s" "rdTxns (set_cache d c s) = rdTxns s" "rwlock (set_cache d c s) = rwlock s"
  "maxTableCacheSize (set_cache d c s) = maxTableCacheSize s"
  "cache_of (s\<lparr>env := e\<rparr>) = cache_of s" "cache_of (s\<lparr>rwlock := l\<rparr>) = cache_of s" "cache_of (s\<lparr>rdTxns := ts\<rparr>) = cache_of s"
  by (auto simp: cache_of_def set_cache_def fun_eq_iff split: dbi.splits)

lemma table_lock [simp]: "table L (s\<lparr>rwlock := l\<rparr>) = table L s" "tables_ok L C (s\<lparr>rwlock := l\<rparr>) = tables_ok L C s"
  by (rule table_cong; simp)+

lemma renew_get:
  assumes "lmdb_ok L C"
  shows "mdb_get L (fold (\<lambda>t d. mdb_txn_renew L d (RdTxn t)) ts e) WrTxn = mdb_get L e WrTxn"
    "C (fold (\<lambda>t d. mdb_txn_renew L d (RdTxn t)) ts e) = C e"
  by (induction ts arbitrary: e) (simp_all add: lmdb_okD(5) [OF assms])

lemma resetRDOnlyTxns:
  assumes "lmdb_ok L C"
  shows "cache_of (resetRDOnlyTxns L s) = cache_of s"
    "mdb_get L (env (resetRDOnlyTxns L s)) WrTxn = mdb_get L (env s) WrTxn"
    "C (env (resetRDOnlyTxns L s)) = C (env s)"
  by (simp_all add: resetRDOnlyTxns_def renew_get [OF assms])

lemma getRDOnlyTxn_table:
  assumes "tables_ok L C s" "getRDOnlyTxn L t s = Some (x, s')"
  shows "tables_ok L C s'" "table L s' = table L s" "rwlock s' = rwlock s" "x = RdTxn t"
proof -
  have L: "lmdb_ok L C" using assms(1) by (simp add: tables_ok_def)
  have "cache_of s' = cache_of s \<and> mdb_get L (env s') WrTxn = mdb_get L (env s) WrTxn \<and> rwlock s' = rwlock s \<and> x = RdTxn t"
    using assms(2) lmdb_okD(4) [OF L] by (auto simp: getRDOnlyTxn_def split: if_splits bind_splits)
  then show "tables_ok L C s'" "table L s' = table L s" "rwlock s' = rwlock s" "x = RdTxn t"
    using assms(1) table_cong [of s' s L] by blast+
qed

lemma readPair_table:
  assumes "readPair L s WrTxn d k = Some r"
  shows "r = table L s (d, k)"
  using assms by (cases "cache_of s d k"; cases "mdb_get L (env s) WrTxn d k")
    (auto simp: readPair_def table_def map_add_def cached_def stored_def found_def)

lemma flush_pairs_get:
  assumes "lmdb_ok L C" "flush_pairs L d c ks e = Some e'" "distinct ks"
  shows "C e' = C e \<and> mdb_get L e' WrTxn d' k' = (if d' = d \<and> k' \<in> set ks then Mdb_ok (the (c k')) else mdb_get L e WrTxn d' k')"
  using assms(2,3)
proof (induction ks arbitrary: e)
  case (Cons k ks)
  then obtain v e1 where v: "c k = Some v" "mdb_put L e d k v = Some e1" "flush_pairs L d c ks e1 = Some e'"
    by (auto split: bind_splits)
  show ?case using Cons.IH [OF v(3)] Cons.prems(2) v(1) lmdb_okD(1) [OF assms(1) v(2)] by auto
qed simp

text \<open>
  Flushing a cache empties it in any case. If the commit succeeds the database holds its entries, if
  not it holds what was durable before: the entries are lost.
\<close>

lemma flushCache_env:
  assumes ok: "tables_ok L C s" and r: "flushCache L s d = Some s'"
  shows "tables_ok L C s'" "cache_of s' = (cache_of s)(d := Map.empty)" "rwlock s' = rwlock s" "maxTableCacheSize s' = maxTableCacheSize s"
    "C (env s') = mdb_get L (env s') WrTxn"
    "flush_kept L s d \<Longrightarrow> mdb_get L (env s') WrTxn d' k
      = (if d' = d \<and> k \<in> dom (cache_of s d) then Mdb_ok (the (cache_of s d k)) else mdb_get L (env s) WrTxn d' k)"
    "\<not> flush_kept L s d \<Longrightarrow> mdb_get L (env s') WrTxn = C (env s)"
proof -
  have L: "lmdb_ok L C" and fin: "finite (dom (cache_of s d'))" for d' using ok by (simp_all add: tables_ok_def)
  let ?c = "cache_of s d"
  obtain e1 where e1: "flush_pairs L d ?c (iter L ?c) (env s) = Some e1" using r by (auto simp: flushCache_def split: bind_splits)
  obtain c e2 where e2: "mdb_txn_commit L e1 = (c, e2)" by fastforce
  obtain e3 where e3: "mdb_txn_begin L e2 WrTxn = Some e3" using r e1 e2 by (auto simp: flushCache_def split: bind_splits)
  have s': "s' = set_cache d Map.empty (resetRDOnlyTxns L (s\<lparr>env := e3\<rparr>))"
    using r e1 e2 e3 by (simp add: flushCache_def)
  have kept: "flush_kept L s d \<longleftrightarrow> c" by (simp add: flush_kept_def e1 e2)
  have get: "mdb_get L (env s') WrTxn = C e2" "C (env s') = C e2"
    using lmdb_okD(8) [OF L e3] by (simp_all add: s' resetRDOnlyTxns(2,3) [OF L])
  have e1': "C e1 = C (env s)" "mdb_get L e1 WrTxn d' k = (if d' = d \<and> k \<in> dom ?c then Mdb_ok (the (?c k)) else mdb_get L (env s) WrTxn d' k)" for d' k
    using flush_pairs_get [OF L e1 lmdb_okD(6) [OF L fin]] lmdb_okD(7) [OF L fin] by simp_all
  show cache: "cache_of s' = (cache_of s)(d := Map.empty)"
    by (rule ext) (simp add: s' resetRDOnlyTxns(1) [OF L])
  show "tables_ok L C s'" using L fin by (simp add: tables_ok_def cache)
  show "C (env s') = mdb_get L (env s') WrTxn" by (simp add: get)
  show "mdb_get L (env s') WrTxn d' k = (if d' = d \<and> k \<in> dom ?c then Mdb_ok (the (?c k)) else mdb_get L (env s) WrTxn d' k)"
    if "flush_kept L s d" using that kept get(1) e1'(2) lmdb_okD(3) [OF L e2] by simp
  show "mdb_get L (env s') WrTxn = C (env s)" if "\<not> flush_kept L s d"
    using that kept get(1) e1'(1) lmdb_okD(3) [OF L e2] by simp
  show "rwlock s' = rwlock s" "maxTableCacheSize s' = maxTableCacheSize s" by (simp_all add: s' resetRDOnlyTxns_def)
qed

lemma flushCache_table:
  assumes ok: "tables_ok L C s" and r: "flushCache L s d = Some s'"
  shows "flush_kept L s d \<Longrightarrow> table L s' = table L s" "versions L C s' x \<subseteq> versions L C s x"
proof -
  note e = flushCache_env [OF ok r]
  obtain d' k where x: "x = (d', k)" by (cases x)
  have kept: "stored L (env s') (d', k) = (if d' = d then table L s (d', k) else stored L (env s) (d', k))"
    "table L s' (d', k) = table L s (d', k)" if "flush_kept L s d" for d' k
    by (cases "d' = d"; cases "cache_of s d' k";
        auto simp: table_def map_add_def cached_def stored_def found_def e(2) e(6) [OF that])+
  show "table L s' = table L s" if "flush_kept L s d" using kept(2) [OF that] by (intro ext) (simp add: split_paired_all)
  show "versions L C s' x \<subseteq> versions L C s x"
  proof (cases "flush_kept L s d")
    case True
    have "found (C (env s')) x = stored L (env s') x" by (simp add: e(5) stored_def)
    then show ?thesis using kept [OF True, of d' k] by (auto simp: versions_def x split: if_splits)
  next
    case False
    have s': "stored L (env s') x = found (C (env s)) x" "found (C (env s')) x = found (C (env s)) x"
      by (simp_all add: e(5) stored_def e(7) [OF False])
    have "table L s' x \<in> {found (C (env s)) x, table L s x}"
      using s'(1) by (cases "d' = d"; cases "cache_of s d' k") (auto simp: table_def map_add_def cached_def e(2) x)
    then show ?thesis using s' by (auto simp: versions_def)
  qed
qed

lemma writePair_table:
  assumes ok: "tables_ok L C s" and r: "writePair L s d k v = Some s'"
  shows "tables_ok L C s'" "rwlock s' = rwlock s"
    "pair_kept L s (d, k) v \<Longrightarrow> table L s' = (table L s)((d, k) \<mapsto> v)"
    "versions L C s' x \<subseteq> versions L C s x \<union> (if x = (d, k) then {Some v} else {})"
    "0 < maxTableCacheSize s \<Longrightarrow> card (dom (cache_of s' d)) < maxTableCacheSize s"
proof -
  let ?s = "set_cache d ((cache_of s d)(k \<mapsto> v)) s"
  have ok1: "tables_ok L C ?s" using ok by (simp add: tables_ok_def)
  have "cached ?s = (cached s)((d, k) \<mapsto> v)" by (rule ext) (auto simp: cached_def)
  then have t1: "table L ?s = (table L s)((d, k) \<mapsto> v)" by (simp add: table_def)
  have v1: "versions L C ?s x \<subseteq> versions L C s x \<union> (if x = (d, k) then {Some v} else {})"
    by (auto simp: versions_def t1)
  have len: "length (iter L (cache_of ?s d)) = card (dom (cache_of ?s d))"
    using ok1 by (metis tables_ok_def lmdb_okD(6,7) distinct_card)
  have "tables_ok L C s' \<and> rwlock s' = rwlock s \<and> (pair_kept L s (d, k) v \<longrightarrow> table L s' = table L ?s)
    \<and> versions L C s' x \<subseteq> versions L C ?s x \<and> (0 < maxTableCacheSize s \<longrightarrow> card (dom (cache_of s' d)) < maxTableCacheSize s)"
  proof (cases "length (iter L (cache_of ?s d)) \<ge> maxTableCacheSize ?s")
    case True
    then have f: "flushCache L ?s d = Some s'" using r by (simp add: writePair_def Let_def)
    have "pair_kept L s (d, k) v \<longleftrightarrow> flush_kept L ?s d" using True by (simp add: pair_kept_def Let_def)
    then show ?thesis using flushCache_env(1-4) [OF ok1 f] flushCache_table(1) [OF ok1 f] flushCache_table(2) [OF ok1 f, of x] by simp
  next
    case False
    then have "s' = ?s" using r by (simp add: writePair_def Let_def)
    then show ?thesis using ok1 False len by simp
  qed
  then show "tables_ok L C s'" "rwlock s' = rwlock s" "pair_kept L s (d, k) v \<Longrightarrow> table L s' = (table L s)((d, k) \<mapsto> v)"
    "versions L C s' x \<subseteq> versions L C s x \<union> (if x = (d, k) then {Some v} else {})"
    "0 < maxTableCacheSize s \<Longrightarrow> card (dom (cache_of s' d)) < maxTableCacheSize s"
    using t1 v1 by (blast, blast, simp, blast, blast)
qed

lemma deletePair_table:
  assumes ok: "tables_ok L C s" and r: "deletePair L s d k = Some s'"
  shows "tables_ok L C s'" "table L s' = (table L s)((d, k) := None)" "rwlock s' = rwlock s"
    "versions L C s' x \<subseteq> versions L C s x \<union> (if x = (d, k) then {None} else {})"
proof -
  have L: "lmdb_ok L C" and fin: "finite (dom (cache_of s d'))" for d' using ok by (simp_all add: tables_ok_def)
  obtain err e where de: "mdb_del L (env s) d k = (err, e)" by fastforce
  have err: "err \<noteq> Mdb_error" and s': "s' = resetRDOnlyTxns L ((set_cache d ((cache_of s d)(k := None)) s)\<lparr>env := e\<rparr>)"
    using r de by (auto simp: deletePair_def Let_def split: if_splits)
  have get: "mdb_get L (env s') WrTxn d' k' = (if d' = d \<and> k' = k then Mdb_notfound else mdb_get L (env s) WrTxn d' k')"
    "C (env s') = C (env s)" for d' k'
    using lmdb_okD(2) [OF L de err] by (simp_all add: s' resetRDOnlyTxns(2,3) [OF L])
  have cache: "cache_of s' d' = (if d' = d then (cache_of s d)(k := None) else cache_of s d')" for d'
    by (simp add: s' resetRDOnlyTxns(1) [OF L])
  show "tables_ok L C s'" using L fin by (simp add: tables_ok_def cache)
  have "cached s' = (cached s)((d, k) := None)" by (rule ext) (auto simp: cached_def cache)
  moreover have st: "stored L (env s') = (stored L (env s))((d, k) := None)" by (rule ext) (auto simp: stored_def found_def get)
  ultimately show t: "table L s' = (table L s)((d, k) := None)"
    by (simp only: table_def map_add_None)
  show "rwlock s' = rwlock s" by (simp add: s' resetRDOnlyTxns_def)
  show "versions L C s' x \<subseteq> versions L C s x \<union> (if x = (d, k) then {None} else {})"
    by (auto simp: versions_def t st get(2))
qed

section \<open>The implementation provides the contract\<close>

definition pair_read :: "'db lmdb \<Rightarrow> 'db hlink_state \<Rightarrow> dbi \<times> nat \<Rightarrow> addr option option" where
  "pair_read L s x = readPair L s WrTxn (fst x) (snd x)"

definition pair_write :: "'db lmdb \<Rightarrow> 'db hlink_state \<Rightarrow> dbi \<times> nat \<Rightarrow> addr \<Rightarrow> 'db hlink_state option" where
  "pair_write L s x v = writePair L s (fst x) (snd x) v"

definition pair_delete :: "'db lmdb \<Rightarrow> 'db hlink_state \<Rightarrow> dbi \<times> nat \<Rightarrow> 'db hlink_state option" where
  "pair_delete L s x = deletePair L s (fst x) (snd x)"

lemma pair_read_table: "pair_read L s x = Some r \<Longrightarrow> r = table L s x"
  unfolding pair_read_def by (drule readPair_table) (simp only: prod.collapse)

lemma pair_write_table:
  assumes "tables_ok L C s" "pair_write L s x v = Some s'"
  shows "tables_ok L C s' \<and> (pair_kept L s x v \<longrightarrow> table L s' = (table L s)(x \<mapsto> v))"
    "versions L C s' y \<subseteq> versions L C s y \<union> (if y = x then {Some v} else {})"
  using writePair_table(1,3,4) [of L C s "fst x" "snd x" v s'] assms by (simp_all add: pair_write_def)

lemma pair_delete_table:
  assumes "tables_ok L C s" "pair_delete L s x = Some s'"
  shows "tables_ok L C s' \<and> table L s' = (table L s)(x := None)"
    "versions L C s' y \<subseteq> versions L C s y \<union> (if y = x then {None} else {})"
  using deletePair_table(1,2,4) [of L C s "fst x" "snd x" s'] assms by (simp_all add: pair_delete_def)

interpretation hl: pair_table "tables_ok L C" "table L" "pair_read L" "pair_write L" "pair_delete L" "pair_kept L" "versions L C"
  for L :: "'db lmdb" and C :: "'db \<Rightarrow> view"
  by unfold_locales (erule pair_read_table pair_write_table pair_delete_table; assumption | simp add: versions_def)+

end
