(* ===== verification/World_Owners.thy ===== *)
theory World_Owners
  imports World Store_Ops
begin

text \<open>
  Who owns what in the state of the crawl: a reference to a name is held by a caller, by a directory
  descriptor or by a job in a queue, and a reference to a directory descriptor by a caller or a job.
  The counters agree with the owners; the destructor of the guard of a descriptor keeps it so.
\<close>

section \<open>Views of the store\<close>

lemma fdrcs_simps [simp]:
  "fdrcs (put_object p (Part x) st) = (fdrcs st)(p := None)"
  "fdrcs (put_object p (Buf b) st) = (fdrcs st)(p := None)"
  "fdrcs (put_object p (Fdrc f) st) = (fdrcs st)(p \<mapsto> f)"
  "fdrcs (put_object p (Link l) st) = (fdrcs st)(p := None)"
  "fdrcs (put_object p (HInfo h) st) = (fdrcs st)(p := None)"
  "fdrcs (put_object p (Rev r) st) = (fdrcs st)(p := None)"
  "fdrcs (put_object p (Ent e) st) = (fdrcs st)(p := None)"
  "fdrcs (store_free st p) = (fdrcs st)(p := None)"
  by (auto simp: put_object_def store_free_def fdrcs_def)

lemma fdrcs_SomeD: "fdrcs st p = Some f \<Longrightarrow> objects st p = Some (Fdrc f)"
  by (auto simp: fdrcs_def split: option.splits object.splits)

lemma fdrcs_objects: "objects st p = Some (Fdrc f) \<Longrightarrow> fdrcs st p = Some f"
  by (simp add: fdrcs_def)

lemma links_SomeD: "links st p = Some e \<Longrightarrow> objects st p = Some (Link e)"
  by (auto simp: links_def split: option.splits object.splits)

lemma hinfos_SomeD: "hinfos st p = Some h \<Longrightarrow> objects st p = Some (HInfo h)"
  by (auto simp: hinfos_def split: option.splits object.splits)

lemma view_cong:
  assumes "objects st' p = objects st p"
  shows "strings st' p = strings st p" "fdrcs st' p = fdrcs st p" "links st' p = links st p"
    "hinfos st' p = hinfos st p" "revs st' p = revs st p"
  using assms by (simp_all add: strings_def fdrcs_def links_def hinfos_def revs_def)

text \<open>At most one kind of object is at an address.\<close>

lemma other_views:
  "objects st p = Some (Buf b) \<Longrightarrow> strings st p = None \<and> fdrcs st p = None"
  "objects st p = Some (Link l) \<Longrightarrow> strings st p = None \<and> fdrcs st p = None"
  "objects st p = Some (HInfo h) \<Longrightarrow> strings st p = None \<and> fdrcs st p = None"
  "objects st p = Some (Fdrc f) \<Longrightarrow> strings st p = None"
  "objects st p = Some (Part x) \<Longrightarrow> fdrcs st p = None"
  by (simp_all add: strings_def fdrcs_def)

section \<open>Ownership\<close>

definition path_refs :: "(addr \<Rightarrow> fdrc option) \<Rightarrow> addr multiset" where
  "path_refs F = image_mset (\<lambda>p. fdrc_path (the (F p))) (mset_set (dom F))"

definition dirs_ok :: "(addr \<Rightarrow> fdrc option) \<Rightarrow> addr multiset \<Rightarrow> bool" where
  "dirs_ok F dext \<longleftrightarrow> dom F = set_mset dext \<and> size dext < 2 ^ 64 \<and> (\<forall>p f. F p = Some f \<longrightarrow> fdrc_rc f = count dext p)"

definition q_names :: "file_copy_job list \<Rightarrow> addr multiset" where
  "q_names q = (\<Sum>j \<in># mset q. own (remote j) (own (partial j) {#}))"

definition q_dirs :: "file_copy_job list \<Rightarrow> addr multiset" where
  "q_dirs q = mset (map dstDirFD q)"

definition queued :: "'db world \<Rightarrow> file_copy_job list" where
  "queued w = finishQ w @ jobQ w"

definition owned :: "'db world \<Rightarrow> addr multiset \<Rightarrow> addr multiset \<Rightarrow> bool" where
  "owned w ext dext \<longleftrightarrow>
     strings_ok (wstore w) (ext + path_refs (fdrcs (wstore w)) + q_names (queued w))
     \<and> dirs_ok (fdrcs (wstore w)) (dext + q_dirs (queued w))"

text \<open>Room for a few more references before a counter wraps.\<close>

definition roomy :: "'db world \<Rightarrow> addr multiset \<Rightarrow> nat \<Rightarrow> bool" where
  "roomy w ext k \<longleftrightarrow> size (ext + path_refs (fdrcs (wstore w)) + q_names (queued w)) + card (dom (strings (wstore w))) + 2 + k < 2 ^ 64"

lemma dirs_okD:
  assumes "dirs_ok F dext"
  shows "dom F = set_mset dext" "size dext < 2 ^ 64" "F p = Some f \<Longrightarrow> fdrc_rc f = count dext p" "finite (dom F)"
  using assms by (auto simp: dirs_ok_def)

lemma path_refs_same:
  assumes "F p = Some f" "fdrc_path f' = fdrc_path f"
  shows "path_refs (F(p \<mapsto> f')) = path_refs F"
proof -
  have d: "dom (F(p \<mapsto> f')) = dom F" using assms(1) by auto
  show ?thesis
    unfolding path_refs_def d using assms by (intro image_mset_cong) auto
qed

lemma path_refs_remove:
  assumes "F p = Some f" "finite (dom F)"
  shows "path_refs F = add_mset (fdrc_path f) (path_refs (F(p := None)))"
proof -
  have "mset_set (dom F) = add_mset p (mset_set (dom (F(p := None))))"
    using assms by (simp add: mset_set.remove [of _ p] domI)
  moreover have "image_mset (\<lambda>q. fdrc_path (the (F q))) (mset_set (dom F - {p}))
      = image_mset (\<lambda>q. fdrc_path (the ((F(p := None)) q))) (mset_set (dom F - {p}))"
    using assms(2) by (intro image_mset_cong) auto
  ultimately show ?thesis using assms(1) by (simp add: path_refs_def)
qed

lemma path_refs_add:
  assumes "F p = None" "finite (dom F)"
  shows "path_refs (F(p \<mapsto> f)) = add_mset (fdrc_path f) (path_refs F)"
  using path_refs_remove [of "F(p \<mapsto> f)" p f] assms by (simp add: fun_upd_idem)

lemma dirs_recount:
  assumes "dirs_ok F dext" "F p = Some f" "fdrc_rc f' = count dext' p" "set_mset dext' = set_mset dext" "size dext' < 2 ^ 64"
    "\<And>q. q \<noteq> p \<Longrightarrow> count dext' q = count dext q"
  shows "dirs_ok (F(p \<mapsto> f')) dext'"
  using assms by (auto simp: dirs_ok_def)

lemma dirs_inc:
  assumes "dirs_ok F dext" "F p = Some f" "size dext + 1 < 2 ^ 64"
  shows "dirs_ok (F(p \<mapsto> f\<lparr>fdrc_rc := inc64 (fdrc_rc f)\<rparr>)) (add_mset p dext)"
proof (rule dirs_recount [OF assms(1,2)])
  have p: "p \<in># dext" using assms(1,2) by (auto simp: dirs_ok_def)
  have "count dext p \<le> size dext" by (rule count_le_size)
  then have "inc64 (fdrc_rc f) = count (add_mset p dext) p" using dirs_okD(3) [OF assms(1,2)] assms(3) by simp
  then show "fdrc_rc (f\<lparr>fdrc_rc := inc64 (fdrc_rc f)\<rparr>) = count (add_mset p dext) p" by simp
  show "set_mset (add_mset p dext) = set_mset dext" using p by auto
qed (use assms(3) in simp_all)

lemma dirs_dec:
  assumes "dirs_ok F (add_mset p dext)" "F p = Some f" "fdrc_rc f \<noteq> 1"
  shows "dirs_ok (F(p \<mapsto> f\<lparr>fdrc_rc := dec64 (fdrc_rc f)\<rparr>)) dext"
proof (rule dirs_recount [OF assms(1,2)])
  have rc: "fdrc_rc f = Suc (count dext p)" using dirs_okD(3) [OF assms(1,2)] by simp
  then have p: "p \<in># dext" using assms(3) by (simp add: not_in_iff)
  have "count (add_mset p dext) p \<le> size (add_mset p dext)" by (rule count_le_size)
  then have "fdrc_rc f < 2 ^ 64" using dirs_okD(2) [OF assms(1)] rc by simp
  then have "dec64 (fdrc_rc f) = fdrc_rc f - 1" using rc by (intro dec64_pos) simp_all
  then show "fdrc_rc (f\<lparr>fdrc_rc := dec64 (fdrc_rc f)\<rparr>) = count dext p" using rc by simp
  show "set_mset dext = set_mset (add_mset p dext)" using p by auto
qed (use dirs_okD(2) [OF assms(1)] in simp_all)

lemma dirs_drop:
  assumes "dirs_ok F (add_mset p dext)" "F p = Some f" "fdrc_rc f = 1"
  shows "dirs_ok (F(p := None)) dext" "p \<notin># dext"
proof -
  have rc: "fdrc_rc f = Suc (count dext p)" using dirs_okD(3) [OF assms(1,2)] by simp
  then show p: "p \<notin># dext" using assms(3) by (simp add: not_in_iff)
  show "dirs_ok (F(p := None)) dext" using assms p by (auto simp: dirs_ok_def)
qed

section \<open>Objects that are not names\<close>

lemma strings_ok_put:
  assumes "strings_ok st ext" "objects st p = Some x" "strings st p = None" "\<And>y. x' \<noteq> Part y" "object_size x' \<le> object_size x"
  shows "strings_ok (put_object p x' st) ext" "strings (put_object p x' st) = strings st"
proof -
  show e: "strings (put_object p x' st) = strings st" 
  proof (cases x')
    case (Part y)
    then show ?thesis using assms(4) by blast
  qed (use assms(3) in simp_all)
  have "store_ok (put_object p x' st)" by (rule store_ok_rewrite [OF strings_okD(1) [OF assms(1)] assms(2,5)])
  then show "strings_ok (put_object p x' st) ext" using strings_okD(2) [OF assms(1)] by (simp only: strings_ok_def e)
qed

lemma strings_ok_free:
  assumes "strings_ok st ext" "strings st p = None"
  shows "strings_ok (store_free st p) ext" "strings (store_free st p) = strings st"
proof -
  show e: "strings (store_free st p) = strings st" using assms(2) by simp
  show "strings_ok (store_free st p) ext"
    using strings_okD [OF assms(1)] store_ok_free by (simp only: strings_ok_def e)
qed

lemma strings_ok_fresh:
  assumes "strings_ok st ext" "fresh_block st p len" "\<And>y. x \<noteq> Part y" "object_size x \<le> len"
  shows "strings_ok (put_object p x st) ext" "strings (put_object p x st) = strings st"
proof -
  have n: "strings st p = None" using assms(2) by (simp add: fresh_block_def strings_def)
  show e: "strings (put_object p x st) = strings st" 
  proof (cases x)
    case (Part y)
    then show ?thesis using assms(3) by blast
  qed (use n in simp_all)
  have "store_ok (put_object p x st)" by (rule store_ok_new [OF strings_okD(1) [OF assms(1)] assms(2,4)])
  then show "strings_ok (put_object p x st) ext" using strings_okD(2) [OF assms(1)] by (simp only: strings_ok_def e)
qed

lemma string_frame_views:
  assumes "string_frame st st'"
  shows "fdrcs st' = fdrcs st" "links st' = links st" "hinfos st' = hinfos st" "revs st' = revs st"
    "objects st p = Some (Buf b) \<Longrightarrow> objects st' p = Some (Buf b)"
proof -
  have o: "objects st' q = objects st q \<or> (\<exists>x. objects st q = Some (Part x)) \<and> (objects st' q = None \<or> (\<exists>x. objects st' q = Some (Part x)))" for q
    using assms unfolding string_frame_def strings_iff by blast
  have "fdrcs st' q = fdrcs st q \<and> links st' q = links st q \<and> hinfos st' q = hinfos st q \<and> revs st' q = revs st q" for q
    using o [of q] by (auto simp: fdrcs_def links_def hinfos_def revs_def)
  then show "fdrcs st' = fdrcs st" "links st' = links st" "hinfos st' = hinfos st" "revs st' = revs st"
    by (simp_all add: fun_eq_iff)
  show "objects st p = Some (Buf b) \<Longrightarrow> objects st' p = Some (Buf b)" using o [of p] by auto
qed

section \<open>Giving a descriptor back\<close>

lemma w_put_eq: "p \<noteq> NULL \<Longrightarrow> w_put p x w = Some (w\<lparr>wstore := put_object p x (wstore w)\<rparr>)"
  by (simp add: w_put_def)

lemma q_simps [simp]:
  "q_names [] = {#}" "q_dirs [] = {#}" "q_dirs (a @ b) = q_dirs a + q_dirs b" "q_names (a @ b) = q_names a + q_names b"
  "q_names (j # q) = own (remote j) (own (partial j) {#}) + q_names q" "q_dirs (j # q) = add_mset (dstDirFD j) (q_dirs q)"
  by (simp_all add: q_names_def q_dirs_def)

lemma ownedD:
  assumes "owned w ext dext"
  shows "strings_ok (wstore w) (ext + path_refs (fdrcs (wstore w)) + q_names (queued w))"
    "dirs_ok (fdrcs (wstore w)) (dext + q_dirs (queued w))"
  using assms by (simp_all add: owned_def)

text \<open>What the operations on names and descriptors leave alone; buffers keep their sizes.\<close>

definition crawl_frame :: "'db world \<Rightarrow> 'db world \<Rightarrow> bool" where
  "crawl_frame w w' \<longleftrightarrow> hlink w' = hlink w \<and> bufs w' = bufs w
     \<and> hinfos (wstore w') = hinfos (wstore w) \<and> revs (wstore w') = revs (wstore w)
     \<and> (\<forall>p b. objects (wstore w) p = Some (Buf b) \<longrightarrow> (\<exists>b'. objects (wstore w') p = Some (Buf b') \<and> length b' = length b))"

lemma crawl_frame_refl [simp]: "crawl_frame w w"
  by (simp add: crawl_frame_def)

lemma crawl_frame_trans: "crawl_frame w w1 \<Longrightarrow> crawl_frame w1 w2 \<Longrightarrow> crawl_frame w w2"
  unfolding crawl_frame_def by (elim conjE, intro conjI) (simp_all, metis)

text \<open>The number of references to names and of parts, up to which no counter wraps.\<close>

definition load :: "'db world \<Rightarrow> nat" where
  "load w = size (path_refs (fdrcs (wstore w)) + q_names (queued w)) + card (dom (strings (wstore w)))"

lemma roomy_load: "roomy w ext k \<longleftrightarrow> size ext + load w + 2 + k < 2 ^ 64"
  by (simp add: roomy_def load_def algebra_simps)

lemma fdrc_views:
  assumes "fdrcs st p = Some f"
  shows "links (put_object p (Fdrc f') st) = links st" "hinfos (put_object p (Fdrc f') st) = hinfos st"
    "revs (put_object p (Fdrc f') st) = revs st" "links (store_free st p) = links st" "hinfos (store_free st p) = hinfos st"
    "revs (store_free st p) = revs st" "objects st q = Some (Buf b) \<Longrightarrow> q \<noteq> p"
  using fdrcs_SomeD [OF assms] by (auto simp: links_def hinfos_def revs_def fun_eq_iff)

lemma fdrc_not_null: "strings_ok st ext \<Longrightarrow> fdrcs st p = Some f \<Longrightarrow> p \<noteq> NULL"
  using store_okD(3) [OF strings_okD(1)] by (metis fdrcs_SomeD option.distinct(1))

lemma spells_names_kept:
  "names_kept st Q st' \<Longrightarrow> q \<in> Q \<Longrightarrow> spells (strings st) q s \<Longrightarrow> spells (strings st') q s"
  by (simp add: names_kept_def)

text \<open>A descriptor without its counter.\<close>

definition dir_view :: "store \<Rightarrow> addr \<Rightarrow> fdrc option" where
  "dir_view st p = map_option (\<lambda>f. f\<lparr>fdrc_rc := 0\<rparr>) (fdrcs st p)"

text \<open>What giving back one reference to a counted directory leaves.\<close>

definition dir_given_back :: "'db world \<Rightarrow> 'db world \<Rightarrow> addr multiset \<Rightarrow> addr multiset \<Rightarrow> bool" where
  "dir_given_back w w' ext dext \<longleftrightarrow> owned w' ext dext \<and> crawl_frame w w'
    \<and> links (wstore w') = links (wstore w) \<and> load w' \<le> load w + 1
    \<and> (trace w' = trace w \<or> (\<exists>fd. trace w' = trace w @ [Close fd]))
    \<and> (\<forall>q s. q \<in># ext \<or> q \<in># q_names (queued w) \<longrightarrow> spells (strings (wstore w)) q s \<longrightarrow> spells (strings (wstore w')) q s)
    \<and> (\<forall>q g. fdrcs (wstore w') q = Some g \<longrightarrow> map_option fdrc_fd (fdrcs (wstore w) q) = Some (fdrc_fd g))
    \<and> (\<forall>q \<in># dext. dir_view (wstore w') q = dir_view (wstore w) q)"

lemma fdrc_release_more:
  assumes ok: "owned w ext (add_mset p dext)" and room: "roomy w ext 0"
    and f: "fdrcs (wstore w) p = Some f" and more: "fdrc_rc f \<noteq> 1"
  shows "\<exists>w'. fdrc_release E w p = Some w' \<and> dir_given_back w w' ext dext"
proof -
  let ?st = "wstore w" and ?F = "fdrcs (wstore w)" and ?N = "ext + path_refs (fdrcs (wstore w)) + q_names (queued w)"
  note sok = ownedD(1) [OF ok]
  have dok: "dirs_ok ?F (add_mset p (dext + q_dirs (queued w)))" using ownedD(2) [OF ok] by simp
  note p0 = fdrc_not_null [OF sok f]
  have obj: "objects ?st p = Some (Fdrc f)" "strings ?st p = None" using fdrcs_SomeD [OF f] other_views(4) by blast+
  have put: "strings_ok (put_object p (Fdrc f') ?st) ?N" "strings (put_object p (Fdrc f') ?st) = strings ?st" for f'
    using strings_ok_put [OF sok obj, of "Fdrc f'"] by simp_all
  let ?f = "f\<lparr>fdrc_rc := dec64 (fdrc_rc f)\<rparr>"
  let ?w = "w\<lparr>wstore := put_object p (Fdrc ?f) ?st\<rparr>"
  have r: "fdrc_release E w p = Some ?w" using f p0 more by (simp add: fdrc_release_def w_put_eq)
  have pr: "path_refs (?F(p \<mapsto> ?f)) = path_refs ?F" by (rule path_refs_same [of ?F p f]) (use f in simp_all)
  then have "owned ?w ext dext"
    using put(1) dirs_dec [OF dok f more] by (simp add: owned_def queued_def)
  moreover have "crawl_frame w ?w" using fdrc_views [OF f] by (simp add: crawl_frame_def)
  moreover have "\<forall>q g. fdrcs (wstore ?w) q = Some g \<longrightarrow> map_option fdrc_fd (?F q) = Some (fdrc_fd g)" using f by simp
  moreover have "load ?w = load w" using pr put(2) by (simp add: load_def queued_def del: object_views)
  moreover have "\<forall>q. dir_view (wstore ?w) q = dir_view ?st q" using f by (simp add: dir_view_def)
  ultimately show ?thesis unfolding dir_given_back_def using r put(2) fdrc_views(1) [OF f] by (simp del: object_views)
qed

lemma fdrc_release_dst:
  assumes ok: "owned w ext (add_mset p dext)" and room: "roomy w ext 0"
    and f: "fdrcs (wstore w) p = Some f" and dst: "fdrc_rc f = 1" "fdrc_dst f"
  shows "\<exists>w'. fdrc_release E w p = Some w' \<and> dir_given_back w w' ext dext"
proof -
  let ?st = "wstore w" and ?F = "fdrcs (wstore w)" and ?N = "ext + path_refs (fdrcs (wstore w)) + q_names (queued w)"
  note sok = ownedD(1) [OF ok]
  have dok: "dirs_ok ?F (add_mset p (dext + q_dirs (queued w)))" using ownedD(2) [OF ok] by simp
  note p0 = fdrc_not_null [OF sok f]
  have obj: "objects ?st p = Some (Fdrc f)" "strings ?st p = None" using fdrcs_SomeD [OF f] other_views(4) by blast+
  have put: "strings_ok (put_object p (Fdrc f') ?st) ?N" "strings (put_object p (Fdrc f') ?st) = strings ?st" for f'
    using strings_ok_put [OF sok obj, of "Fdrc f'"] by simp_all
  let ?f = "f\<lparr>fdrc_rc := 1, fdrc_dst := False\<rparr>"
  let ?st1 = "put_object p (Fdrc ?f) ?st"
  have "fdrc_path f \<in># path_refs ?F" using path_refs_remove [OF f dirs_okD(4) [OF dok]] by simp
  then have path: "fdrc_path f \<in># ?N" by simp
  then have pd: "fdrc_path f \<in> dom (strings ?st1)" "fdrc_path f \<noteq> NULL"
    using parts_okD(3) [OF strings_okD(2) [OF sok]] parts_ok_not_null [OF strings_okD(2) [OF sok]] unfolding put(2) by blast+
  have "rc_room ?st1 ?N" using room unfolding rc_room_def put(2) roomy_def by simp
  then obtain st2 part n where inc: "string_part_rc_inc ?st1 (fdrc_path f) = Some st2" "strings_ok st2 (add_mset (fdrc_path f) ?N)"
    "strings ?st1 (fdrc_path f) = Some part" "objects st2 = (objects ?st1)(fdrc_path f \<mapsto> Part (part\<lparr>part_rc := n\<rparr>))"
    using string_part_rc_inc_ok [OF put(1) [of ?f] pd(1)] by blast
  have e2: "objects st2 = objects (put_object (fdrc_path f) (Part (part\<lparr>part_rc := n\<rparr>)) ?st1)" using inc(4) by simp
  have frame: "string_frame ?st1 st2"
    using string_frame_put [OF inc(3), of "part\<lparr>part_rc := n\<rparr>"] strings_objects [OF e2] unfolding string_frame_def e2 by simp
  note v = string_frame_views [OF frame]
  let ?w = "w\<lparr>wstore := st2, finishQ := finishQ w @ [dot_job p f]\<rparr>"
  have r: "fdrc_release E w p = Some ?w"
    using f p0 dst inc(1) by (simp add: fdrc_release_def w_put_eq w_inc_def put_object_def dot_job_def zero_file_job_def)
  have F2: "fdrcs st2 = ?F(p \<mapsto> ?f)" using v(1) by simp
  have pr: "path_refs (?F(p \<mapsto> ?f)) = path_refs ?F" by (rule path_refs_same [of ?F p f]) (use f in simp_all)
  moreover have "dirs_ok (?F(p \<mapsto> ?f)) (add_mset p (dext + q_dirs (queued w)))"
    by (rule dirs_recount [OF dok f]) (use dirs_okD(2,3) [OF dok] f dst(1) in auto)
  moreover have qn: "q_names (queued ?w) = add_mset (fdrc_path f) (q_names (queued w))" "q_dirs (queued ?w) = add_mset p (q_dirs (queued w))"
    using pd(2) by (simp_all add: queued_def dot_job_def zero_file_job_def own_def)
  ultimately have "owned ?w ext dext" using inc(2) by (simp add: owned_def F2)
  moreover have "\<forall>q g. fdrcs (wstore ?w) q = Some g \<longrightarrow> map_option fdrc_fd (?F q) = Some (fdrc_fd g)" using f by (simp add: F2)
  moreover have "crawl_frame w ?w"
    using v(3-5) fdrc_views [OF f] by (auto simp: crawl_frame_def)
  moreover have str: "strings st2 = (strings ?st)(fdrc_path f \<mapsto> part\<lparr>part_rc := n\<rparr>)"
    using strings_objects [OF e2] put(2) [of ?f] by simp
  moreover have "spells (strings st2) q s" if "spells (strings ?st) q s" for q s
    using spells_rewrite [OF that inc(3) [unfolded put(2)]] by (simp add: str)
  moreover have "load ?w \<le> load w + 1"
  proof -
    have "dom (strings st2) = dom (strings ?st)" using inc(3) [unfolded put(2)] by (auto simp: str)
    then show ?thesis using pr qn(1) by (simp add: load_def F2 qn)
  qed
  moreover have "links st2 = links ?st" using v(2) fdrc_views(1) [OF f] by simp
  moreover have "p \<notin># dext" using dirs_okD(3) [OF dok f] dst(1) by (auto simp: not_in_iff)
  then have "\<forall>q \<in># dext. dir_view (wstore ?w) q = dir_view ?st q" by (auto simp: dir_view_def F2)
  ultimately show ?thesis unfolding dir_given_back_def using r by simp
qed

lemma fdrc_release_last:
  assumes ok: "owned w ext (add_mset p dext)" and room: "roomy w ext 0"
    and f: "fdrcs (wstore w) p = Some f" and last: "fdrc_rc f = 1" "\<not> fdrc_dst f"
  shows "\<exists>w'. fdrc_release E w p = Some w' \<and> dir_given_back w w' ext dext"
proof -
  let ?st = "wstore w" and ?F = "fdrcs (wstore w)" and ?N = "ext + path_refs (fdrcs (wstore w)) + q_names (queued w)"
  note sok = ownedD(1) [OF ok]
  have dok: "dirs_ok ?F (add_mset p (dext + q_dirs (queued w)))" using ownedD(2) [OF ok] by simp
  note p0 = fdrc_not_null [OF sok f]
  have obj: "objects ?st p = Some (Fdrc f)" "strings ?st p = None" using fdrcs_SomeD [OF f] other_views(4) by blast+
  have put: "strings_ok (put_object p (Fdrc f') ?st) ?N" "strings (put_object p (Fdrc f') ?st) = strings ?st" for f'
    using strings_ok_put [OF sok obj, of "Fdrc f'"] by simp_all
  let ?f = "f\<lparr>fdrc_rc := dec64 (fdrc_rc f)\<rparr>"
  let ?st1 = "store_free (put_object p (Fdrc ?f) ?st) p"
  have N: "?N = add_mset (fdrc_path f) (ext + path_refs (?F(p := None)) + q_names (queued w))"
    using path_refs_remove [OF f dirs_okD(4) [OF dok]] by simp
  then have path: "fdrc_path f \<noteq> NULL" using parts_ok_not_null [OF strings_okD(2) [OF sok]] by simp
  have n1: "strings (put_object p (Fdrc ?f) ?st) p = None" using obj(2) put(2) by simp
  note st1 = strings_ok_free [OF put(1) n1]
  have "strings_ok ?st1 (own (fdrc_path f) (ext + path_refs (?F(p := None)) + q_names (queued w)))"
    using st1(1) path unfolding N own_def by simp
  from stringPartRelease_ok [OF this] obtain st2 where st2: "stringPartRelease ?st1 (fdrc_path f) = Some st2"
    "strings_ok st2 (ext + path_refs (?F(p := None)) + q_names (queued w))" "string_frame ?st1 st2"
    "names_kept ?st1 (set_mset (ext + path_refs (?F(p := None)) + q_names (queued w))) st2"
    "dom (strings st2) \<subseteq> dom (strings ?st1)" by blast
  note v = string_frame_views [OF st2(3)]
  let ?w = "w\<lparr>wstore := st2, trace := trace w @ [Close (fdrc_fd f)], fdSem := fdSem w + 1\<rparr>"
  have r: "fdrc_release E w p = Some ?w"
    using f p0 last path st2(1)
    by (simp add: fdrc_release_def w_put_eq w_close_def sys_def w_free_def w_release_def isNullRef_def)
  have F2: "fdrcs st2 = ?F(p := None)" using v(1) by simp
  have "owned ?w ext dext" using st2(2) dirs_drop(1) [OF dok f last(1)] by (simp add: owned_def F2 queued_def)
  moreover have "\<forall>q g. fdrcs (wstore ?w) q = Some g \<longrightarrow> map_option fdrc_fd (?F q) = Some (fdrc_fd g)" by (simp add: F2)
  moreover have "crawl_frame w ?w"
  proof -
    let ?g = "put_object p (Fdrc ?f) ?st"
    have g: "fdrcs ?g p = Some ?f" by simp
    have "objects st2 q = Some (Buf b)" if "objects ?st q = Some (Buf b)" for q b
      using that fdrc_views(7) [OF f that] v(5) [of q b] by simp
    moreover have "hinfos ?st1 = hinfos ?st" "revs ?st1 = revs ?st"
      by (simp_all only: fdrc_views(5-6) [OF g] fdrc_views(2-3) [OF f])
    ultimately show ?thesis using v(3,4) by (simp add: crawl_frame_def)
  qed
  moreover have "links st2 = links ?st"
  proof -
    have g: "fdrcs (put_object p (Fdrc ?f) ?st) p = Some ?f" by simp
    show ?thesis by (simp only: v(2) fdrc_views(4) [OF g] fdrc_views(1) [OF f])
  qed
  moreover have "load ?w \<le> load w + 1"
  proof -
    have "dom (strings st2) \<subseteq> dom (strings ?st)" using st2(5) unfolding st1(2) put(2) .
    then have "card (dom (strings st2)) \<le> card (dom (strings ?st))"
      by (rule card_mono [OF parts_okD(1) [OF strings_okD(2) [OF sok]]])
    moreover have "size (path_refs (?F(p := None))) \<le> size (path_refs ?F)"
      using path_refs_remove [OF f dirs_okD(4) [OF dok]] by simp
    ultimately show ?thesis by (simp add: load_def F2 queued_def)
  qed
  moreover have "spells (strings st2) q s" if "q \<in># ext \<or> q \<in># q_names (queued w)" "spells (strings ?st) q s" for q s
    using spells_names_kept [OF st2(4), of q s] that st1(2) put(2) by auto
  moreover have "p \<notin># dext" using dirs_okD(3) [OF dok f] last(1) by (auto simp: not_in_iff)
  then have "\<forall>q \<in># dext. dir_view (wstore ?w) q = dir_view ?st q" by (auto simp: dir_view_def F2)
  ultimately show ?thesis unfolding dir_given_back_def using r by auto
qed

lemma fdrc_release_ok:
  assumes ok: "owned w ext (add_mset p dext)" and room: "roomy w ext 0"
  shows "\<exists>w'. fdrc_release E w p = Some w' \<and> owned w' ext dext \<and> crawl_frame w w'
    \<and> links (wstore w') = links (wstore w) \<and> load w' \<le> load w + 1
    \<and> (trace w' = trace w \<or> (\<exists>fd. trace w' = trace w @ [Close fd]))
    \<and> (\<forall>q s. q \<in># ext \<or> q \<in># q_names (queued w) \<longrightarrow> spells (strings (wstore w)) q s \<longrightarrow> spells (strings (wstore w')) q s)
    \<and> (\<forall>q g. fdrcs (wstore w') q = Some g \<longrightarrow> map_option fdrc_fd (fdrcs (wstore w) q) = Some (fdrc_fd g))
    \<and> (\<forall>q \<in># dext. dir_view (wstore w') q = dir_view (wstore w) q)"
proof -
  have dok: "dirs_ok (fdrcs (wstore w)) (add_mset p (dext + q_dirs (queued w)))" using ownedD(2) [OF ok] by simp
  obtain f where f: "fdrcs (wstore w) p = Some f" using dirs_okD(1) [OF dok] by (metis domD union_single_eq_member set_mset_add_mset_insert insertI1)
  show ?thesis
    using fdrc_release_more [OF ok room f] fdrc_release_dst [OF ok room f] fdrc_release_last [OF ok room f]
    unfolding dir_given_back_def by blast
qed

lemma fdrc_release_effect:
  assumes "fdrcs (wstore w) p = Some f" "fdrc_release E w p = Some w'"
  shows "fdrc_rc f \<noteq> 1 \<Longrightarrow> trace w' = trace w \<and> finishQ w' = finishQ w \<and> fdSem w' = fdSem w"
    "fdrc_rc f = 1 \<Longrightarrow> fdrc_dst f \<Longrightarrow> trace w' = trace w \<and> finishQ w' = finishQ w @ [dot_job p f] \<and> fdSem w' = fdSem w"
    "fdrc_rc f = 1 \<Longrightarrow> \<not> fdrc_dst f \<Longrightarrow>
      trace w' = trace w @ [Close (fdrc_fd f)] \<and> finishQ w' = finishQ w \<and> fdSem w' = fdSem w + 1"
    "w' = w\<lparr>wstore := wstore w', trace := trace w', finishQ := finishQ w', fdSem := fdSem w'\<rparr>"
  using assms
  by (auto simp: fdrc_release_def w_put_def w_inc_def w_release_def w_free_def w_close_def sys_def Let_def split: bind_splits if_splits)

end
