(* ===== verification/Hlink_Links.thy ===== *)
theory Hlink_Links
  imports Hlink_Tables World_Owners
begin

text \<open>
  The names that wait for the root of a hard link: printing a name in a thread's buffer, lists of
  link entries on the heap, and the loop that links every waiting name to the root.
\<close>

section \<open>Printing in the buffer of a thread\<close>

text \<open>The buffer is there and holds names of fewer than \<open>k\<close> characters with their end marks.\<close>

definition buf_ready :: "'db world \<Rightarrow> buffer_name \<Rightarrow> nat \<Rightarrow> bool" where
  "buf_ready w b k \<longleftrightarrow> (\<exists>p c. bufs w b = Some (p, length c) \<and> objects (wstore w) p = Some (Buf c) \<and> k < length c)"

definition c_name :: "string \<Rightarrow> bool" where
  "c_name s \<longleftrightarrow> NUL \<notin> set s"

lemma buf_ready_frame: "buf_ready w b k \<Longrightarrow> crawl_frame w w' \<Longrightarrow> buf_ready w' b k"
  unfolding buf_ready_def crawl_frame_def by metis

lemma takeWhile_name: "c_name s \<Longrightarrow> 0 < k \<Longrightarrow> takeWhile (\<lambda>c. c \<noteq> NUL) (s @ replicate k NUL) = s"
  by (cases k) (auto simp: c_name_def takeWhile_append)

lemma buf_views:
  assumes "objects st p = Some (Buf c)"
  shows "strings (put_object p (Buf c') st) = strings st" "fdrcs (put_object p (Buf c') st) = fdrcs st"
    "links (put_object p (Buf c') st) = links st" "hinfos (put_object p (Buf c') st) = hinfos st"
    "revs (put_object p (Buf c') st) = revs st"
  using assms by (auto simp: strings_def fdrcs_def links_def hinfos_def revs_def fun_eq_iff)

lemma name_text_eq:
  assumes ok: "strings_ok (wstore w) N" and b: "buf_ready w b k" and s: "spells (strings (wstore w)) ref s"
    "length s < k" "c_name s"
  obtains p c c' where "objects (wstore w) p = Some (Buf c)" "length c' = length c"
    "name_text E b w ref = Some (s, w\<lparr>wstore := put_object p (Buf c') (wstore w)\<rparr>)"
proof -
  obtain p c where p: "bufs w b = Some (p, length c)" "objects (wstore w) p = Some (Buf c)" "k < length c"
    using b by (auto simp: buf_ready_def)
  define c' where "c' = s @ replicate (length c - length s) NUL"
  define st where "st = put_object p (Buf c') (wstore w)"
  have p0: "p \<noteq> NULL" using p(2) store_okD(3) [OF strings_okD(1) [OF ok]] by (metis option.distinct(1))
  have "c \<noteq> []" using p(3) by auto
  then have "stringRefMemcpy (wstore w) ref (replicate (length c) NUL) (length c) = Some (length s + 1, c')"
    using stringRefMemcpy_zero [OF s(1) strings_okD(2) [OF ok], of "length c"] p(3) s(2) by (simp add: c'_def)
  then have m: "stringrefMemcpyWithRealloc (tid E) (wstore w) ref (p, length c) = Some (0, (p, length c), st)"
    using p0 p(3) s(2) by (simp add: stringrefMemcpyWithRealloc_def st_def)
  have o: "objects st p = Some (Buf c')" by (simp add: st_def)
  have t: "takeWhile (\<lambda>x. x \<noteq> NUL) c' = s" unfolding c'_def by (rule takeWhile_name [OF s(3)]) (use p(3) s(2) in simp)
  have bb: "(bufs w)(b \<mapsto> (p, length c)) = bufs w" using p(1) by auto
  have r: "name_text E b w ref = Some (s, w\<lparr>wstore := st\<rparr>)"
    using p(1) m o t bb by (simp add: name_text_def thread_buffer_def)
  show thesis by (rule that [OF p(2) _ r [unfolded st_def]]) (use p(3) s(2) in \<open>simp add: c'_def\<close>)
qed

lemma name_text_ok:
  assumes ok: "strings_ok (wstore w) N" and b: "buf_ready w b k" and s: "spells (strings (wstore w)) ref s"
    "length s < k" "c_name s"
  obtains w' where "name_text E b w ref = Some (s, w')" "strings_ok (wstore w') N" "crawl_frame w w'"
    "strings (wstore w') = strings (wstore w)" "fdrcs (wstore w') = fdrcs (wstore w)"
    "links (wstore w') = links (wstore w)" "queued w' = queued w" "trace w' = trace w"
    "heap (wstore w') = heap (wstore w)" "heap_mem (wstore w') = heap_mem (wstore w)"
    "\<And>q x. objects (wstore w) q = Some x \<Longrightarrow> (\<And>c. x \<noteq> Buf c) \<Longrightarrow> objects (wstore w') q = Some x"
proof -
  obtain p c c' where p: "objects (wstore w) p = Some (Buf c)" "length c' = length c"
    and r: "name_text E b w ref = Some (s, w\<lparr>wstore := put_object p (Buf c') (wstore w)\<rparr>)" by (rule name_text_eq [OF assms])
  let ?st = "put_object p (Buf c') (wstore w)"
  let ?w = "w\<lparr>wstore := ?st\<rparr>"
  have ps: "strings (wstore w) p = None" using other_views(1) [OF p(1)] by simp
  have "strings_ok ?st N" by (rule strings_ok_put(1) [OF ok p(1) ps]) (simp_all add: p(2))
  moreover have "crawl_frame w ?w" using buf_views [OF p(1), of c'] p by (auto simp: crawl_frame_def)
  moreover have "objects ?st q = Some x" if "objects (wstore w) q = Some x" "\<And>c. x \<noteq> Buf c" for q x
  proof -
    have "q \<noteq> p" using that p(1) by force
    then show ?thesis using that(1) by simp
  qed
  ultimately show thesis
    using buf_views(1-3) [OF p(1), of c'] by (intro that [OF r]) (simp_all add: queued_def put_object_def)
qed

section \<open>Lists of waiting names\<close>

fun link_list :: "(addr \<Rightarrow> link_entry option) \<Rightarrow> addr \<Rightarrow> (addr \<times> link_entry) list \<Rightarrow> bool" where
  "link_list K ref [] \<longleftrightarrow> ref = NULL"
| "link_list K ref ((p, e) # xs) \<longleftrightarrow> ref = p \<and> p \<noteq> NULL \<and> K p = Some e \<and> link_list K (entry_prev e) xs"

lemma link_list_keep: "link_list K ref xs \<Longrightarrow> p \<notin> fst ` set xs \<Longrightarrow> link_list (K(p := x)) ref xs"
  by (induction K ref xs rule: link_list.induct) auto

definition entry_names :: "(addr \<times> link_entry) list \<Rightarrow> addr multiset" where
  "entry_names xs = mset (map (\<lambda>(p, e). entry_link e) xs)"

definition entry_dirs :: "(addr \<times> link_entry) list \<Rightarrow> addr multiset" where
  "entry_dirs xs = mset (map (\<lambda>(p, e). entry_dstFD e) xs)"

text \<open>The calls that link names to a root, and the calls of a run without those that only close descriptors.\<close>

definition link_calls :: "int \<Rightarrow> string \<Rightarrow> string list \<Rightarrow> syscall list" where
  "link_calls fd root names = concat (map (\<lambda>s. [Unlinkat fd s False, Linkat fd root fd s]) names)"

fun is_close :: "syscall \<Rightarrow> bool" where
  "is_close (Close fd) \<longleftrightarrow> True"
| "is_close _ \<longleftrightarrow> False"

definition new_calls :: "'db world \<Rightarrow> 'db world \<Rightarrow> syscall list" where
  "new_calls w w' = filter (\<lambda>c. \<not> is_close c) (drop (length (trace w)) (trace w'))"

definition extends :: "'db world \<Rightarrow> 'db world \<Rightarrow> bool" where
  "extends w w' \<longleftrightarrow> take (length (trace w)) (trace w') = trace w"

lemma extends_iff: "extends w w' \<longleftrightarrow> (\<exists>cs. trace w' = trace w @ cs)"
  unfolding extends_def by (metis append_take_drop_id append_eq_conv_conj)

lemma new_calls_trans:
  assumes "extends w w1" "extends w1 w2"
  shows "extends w w2" "new_calls w w2 = new_calls w w1 @ new_calls w1 w2"
  using assms by (auto simp: extends_iff new_calls_def)

lemma entry_link_in: "(p, e) \<in> set xs \<Longrightarrow> entry_link e \<in># entry_names xs"
  by (force simp: entry_names_def)

section \<open>The loop\<close>

lemma name_release_ok:
  assumes "owned w (add_mset p ext) dext"
  obtains w' where "w_release w p = Some w'" "owned w' ext dext" "crawl_frame w w'"
    "links (wstore w') = links (wstore w)" "load w' \<le> load w" "trace w' = trace w" "queued w' = queued w"
    "fdrcs (wstore w') = fdrcs (wstore w)" "\<And>q s. q \<in># ext \<or> q \<in># q_names (queued w) \<Longrightarrow> spells (strings (wstore w)) q s \<Longrightarrow> spells (strings (wstore w')) q s"
proof -
  let ?N = "ext + path_refs (fdrcs (wstore w)) + q_names (queued w)"
  have ok: "strings_ok (wstore w) (add_mset p ?N)" using ownedD(1) [OF assms] by simp
  then have "strings_ok (wstore w) (own p ?N)"
    using parts_ok_not_null [OF strings_okD(2) [OF ok], of p] by (simp add: own_def)
  from stringPartRelease_ok [OF this] obtain st where st: "stringPartRelease (wstore w) p = Some st" "strings_ok st ?N"
    "names_kept (wstore w) (set_mset ?N) st" "dom (strings st) \<subseteq> dom (strings (wstore w))" "string_frame (wstore w) st" by blast
  note v = string_frame_views [OF st(5)]
  let ?w = "w\<lparr>wstore := st\<rparr>"
  have "card (dom (strings st)) \<le> card (dom (strings (wstore w)))"
    by (rule card_mono [OF parts_okD(1) [OF strings_okD(2) [OF ok]] st(4)])
  then have "load ?w \<le> load w" by (simp add: load_def v(1) queued_def)
  moreover have "crawl_frame w ?w" using v(3-5) by (auto simp: crawl_frame_def)
  moreover have "owned ?w ext dext" using st(2) ownedD(2) [OF assms] by (simp add: owned_def v(1) queued_def)
  ultimately show thesis
    using that [of ?w] st(1) v(1,2) spells_names_kept [OF st(3)] by (auto simp: w_release_def queued_def)
qed

lemma free_link_ok:
  assumes "owned w ext dext" "links (wstore w) p = Some e"
  shows "owned (w_free w p) ext dext" "crawl_frame w (w_free w p)" "links (wstore (w_free w p)) = (links (wstore w))(p := None)"
    "load (w_free w p) = load w" "strings (wstore (w_free w p)) = strings (wstore w)"
    "trace (w_free w p) = trace w"
proof -
  have o: "objects (wstore w) p = Some (Link e)" by (rule links_SomeD [OF assms(2)])
  have n: "strings (wstore w) p = None" "fdrcs (wstore w) p = None" using other_views(2) [OF o] by blast+
  note f = strings_ok_free [OF ownedD(1) [OF assms(1)] n(1)]
  have F: "fdrcs (store_free (wstore w) p) = fdrcs (wstore w)" using n(2) by auto
  show "owned (w_free w p) ext dext" using f(1) ownedD(2) [OF assms(1)] F by (simp add: owned_def w_free_def queued_def del: fdrcs_simps)
  show "links (wstore (w_free w p)) = (links (wstore w))(p := None)"
    by (auto simp: w_free_def links_def fun_eq_iff)
  show "crawl_frame w (w_free w p)"
    using o by (auto simp: crawl_frame_def w_free_def hinfos_def revs_def fun_eq_iff)
  show "load (w_free w p) = load w" using f(2) F by (simp add: load_def w_free_def queued_def del: fdrcs_simps object_views)
  show "strings (wstore (w_free w p)) = strings (wstore w)" using f(2) by (simp add: w_free_def)
  show "trace (w_free w p) = trace w" by (simp add: w_free_def)
qed

definition named :: "store \<Rightarrow> (addr \<times> link_entry) list \<Rightarrow> string list \<Rightarrow> bool" where
  "named st xs ss \<longleftrightarrow> list_all2 (\<lambda>(p, e) s. spells (strings st) (entry_link e) s \<and> c_name s) xs ss"

lemma transfer_links_ok:
  assumes "link_list (links (wstore w)) ref xs" "distinct (map fst xs)"
    "owned w (ext + entry_names xs) (dext + entry_dirs xs)" "roomy w (ext + entry_names xs) 0"
    "named (wstore w) xs ss" "buf_ready w Transfer_linkRoot k" "\<forall>s \<in> set ss. length s < k" "n + length xs < 2 ^ 64"
  shows "\<exists>w'. transfer_links E root fd ref n w = Some (n + length xs, w') \<and> owned w' ext dext \<and> crawl_frame w w'
    \<and> links (wstore w') = (\<lambda>q. if q \<in> fst ` set xs then None else links (wstore w) q)
    \<and> extends w w' \<and> new_calls w w' = link_calls fd root ss \<and> load w' \<le> load w + length xs
    \<and> (\<forall>q s. q \<in># ext \<longrightarrow> spells (strings (wstore w)) q s \<longrightarrow> spells (strings (wstore w')) q s)"
  using assms
proof (induction xs arbitrary: w ref n ss)
  case Nil
  then have "ref = NULL" "ss = []" by (simp_all add: named_def)
  moreover have "transfer_links E root fd NULL n w = Some (n, w)" by (simp add: transfer_links.simps isNullRef_def)
  ultimately show ?case using Nil
    by (intro exI [of _ w]) (simp add: entry_names_def entry_dirs_def extends_def new_calls_def link_calls_def)
next
  case (Cons x xs)
  obtain p e where x: "x = (p, e)" by fastforce
  obtain s ss' where ss: "ss = s # ss'" "spells (strings (wstore w)) (entry_link e) s" "c_name s" "named (wstore w) xs ss'"
    using Cons.prems(5) by (auto simp: named_def x list_all2_Cons1)
  have ref: "ref = p" "p \<noteq> NULL" "links (wstore w) p = Some e" "link_list (links (wstore w)) (entry_prev e) xs"
    using Cons.prems(1) by (simp_all add: x)
  let ?ext = "ext + entry_names xs" and ?dext = "dext + entry_dirs xs"
  have ext: "ext + entry_names (x # xs) = add_mset (entry_link e) ?ext" "dext + entry_dirs (x # xs) = add_mset (entry_dstFD e) ?dext"
    by (simp_all add: entry_names_def entry_dirs_def x)
  note own0 = Cons.prems(3) [unfolded ext]
  obtain w1 where w1: "name_text E Transfer_linkRoot w (entry_link e) = Some (s, w1)"
    "strings_ok (wstore w1) (add_mset (entry_link e) ?ext + path_refs (fdrcs (wstore w)) + q_names (queued w))" "crawl_frame w w1"
    "strings (wstore w1) = strings (wstore w)" "fdrcs (wstore w1) = fdrcs (wstore w)" "links (wstore w1) = links (wstore w)"
    "queued w1 = queued w" "trace w1 = trace w"
    using name_text_ok [OF ownedD(1) [OF own0] Cons.prems(6) ss(2) _ ss(3), of E] Cons.prems(7) by (force simp: ss(1))
  define w2 where "w2 = snd (sys E (snd (sys E w1 (Unlinkat fd s False))) (Linkat fd root fd s))"
  have w2: "trace w2 = trace w @ [Unlinkat fd s False, Linkat fd root fd s]" "wstore w2 = wstore w1" "queued w2 = queued w1"
    "crawl_frame w1 w2" by (simp_all add: w2_def sys_def w1(8) queued_def crawl_frame_def)
  have own2: "owned w2 (add_mset (entry_link e) ?ext) (add_mset (entry_dstFD e) ?dext)"
    using w1(2) ownedD(2) [OF own0] by (simp add: owned_def w2 w1(5,7))
  have load2: "load w2 = load w" by (simp add: load_def w2 w1(4,5,7))
  obtain w3 where w3: "w_release w2 (entry_link e) = Some w3" "owned w3 ?ext (add_mset (entry_dstFD e) ?dext)" "crawl_frame w2 w3"
    "links (wstore w3) = links (wstore w2)" "load w3 \<le> load w2" "trace w3 = trace w2"
    "\<And>q s. q \<in># ?ext \<Longrightarrow> spells (strings (wstore w2)) q s \<Longrightarrow> spells (strings (wstore w3)) q s"
    using name_release_ok [OF own2] by metis
  have l3: "links (wstore w3) p = Some e" using ref(3) by (simp add: w3(4) w2(2) w1(6))
  note f = free_link_ok [OF w3(2) l3]
  have "roomy (w_free w3 p) ?ext 0" using Cons.prems(4) w3(5) unfolding ext roomy_load f(4) load2 by simp
  from fdrc_release_ok [OF f(1) this, of E]
  obtain w5 where w5: "fdrc_release E (w_free w3 p) (entry_dstFD e) = Some w5" "owned w5 ?ext ?dext" "crawl_frame (w_free w3 p) w5"
    "links (wstore w5) = links (wstore (w_free w3 p))" "load w5 \<le> load (w_free w3 p) + 1"
    "trace w5 = trace (w_free w3 p) \<or> (\<exists>fd. trace w5 = trace (w_free w3 p) @ [Close fd])"
    "\<And>q s. q \<in># ?ext \<Longrightarrow> spells (strings (wstore (w_free w3 p))) q s \<Longrightarrow> spells (strings (wstore w5)) q s" by blast
  have K: "links (wstore w5) = (links (wstore w))(p := None)" by (simp add: w5(4) f(3) w3(4) w2(2) w1(6))
  have keep: "spells (strings (wstore w5)) q t" if "q \<in># ?ext" "spells (strings (wstore w)) q t" for q t
  proof -
    have "spells (strings (wstore w2)) q t" using that(2) by (simp add: w2(2) w1(4))
    then have "spells (strings (wstore w3)) q t" by (rule w3(7) [OF that(1)])
    then show ?thesis using w5(7) [OF that(1)] by (simp add: f(5))
  qed
  have frame: "crawl_frame w w5"
    by (rule crawl_frame_trans [OF w1(3)], rule crawl_frame_trans [OF w2(4)], rule crawl_frame_trans [OF w3(3)])
      (rule crawl_frame_trans [OF f(2) w5(3)])
  have named': "named (wstore w5) xs ss'"
    using ss(4) unfolding named_def
    by (elim list.rel_mono_strong) (use keep entry_link_in in \<open>fastforce split: prod.splits\<close>)
  have load5: "load w5 \<le> load w + 1" using w5(5) w3(5) f(4) load2 by simp
  have "link_list (links (wstore w5)) (entry_prev e) xs"
    unfolding K by (rule link_list_keep [OF ref(4)]) (use Cons.prems(2) in \<open>simp add: x\<close>)
  moreover have "roomy w5 ?ext 0" using Cons.prems(4) load5 unfolding ext roomy_load by simp
  ultimately have "\<exists>w'. transfer_links E root fd (entry_prev e) (n + 1) w5 = Some (n + 1 + length xs, w') \<and> owned w' ext dext \<and> crawl_frame w5 w'
    \<and> links (wstore w') = (\<lambda>q. if q \<in> fst ` set xs then None else links (wstore w5) q)
    \<and> extends w5 w' \<and> new_calls w5 w' = link_calls fd root ss' \<and> load w' \<le> load w5 + length xs
    \<and> (\<forall>q s. q \<in># ext \<longrightarrow> spells (strings (wstore w5)) q s \<longrightarrow> spells (strings (wstore w')) q s)"
    using Cons.prems(2,7,8) ss(1) w5(2) named' buf_ready_frame [OF Cons.prems(6) frame] by (intro Cons.IH) (simp_all add: x)
  then obtain w' where w': "transfer_links E root fd (entry_prev e) (n + 1) w5 = Some (n + 1 + length xs, w')" "owned w' ext dext" "crawl_frame w5 w'"
    "links (wstore w') = (\<lambda>q. if q \<in> fst ` set xs then None else links (wstore w5) q)"
    "extends w5 w'" "new_calls w5 w' = link_calls fd root ss'" "load w' \<le> load w5 + length xs"
    "\<And>q s. q \<in># ext \<Longrightarrow> spells (strings (wstore w5)) q s \<Longrightarrow> spells (strings (wstore w')) q s" by blast
  have w2': "w2 = w1\<lparr>trace := trace w1 @ [Unlinkat fd s False, Linkat fd root fd s]\<rparr>" by (simp add: w2_def sys_def)
  have step: "transfer_links E root fd ref n w = transfer_links E root fd (entry_prev e) (n + 1) w5"
    using ref(2,3) w1(1) w3(1) w5(1) Cons.prems(8) unfolding ref(1)
    by (subst transfer_links.simps) (simp add: isNullRef_def case_prod_beta w2' [symmetric] sys_def)
  have e5: "extends w w5" "new_calls w w5 = [Unlinkat fd s False, Linkat fd root fd s]"
    using w5(6) by (auto simp: extends_iff new_calls_def f(6) w3(6) w2(1))
  have "links (wstore w') = (\<lambda>q. if q \<in> fst ` set (x # xs) then None else links (wstore w) q)"
    by (auto simp: w'(4) K x fun_eq_iff)
  moreover have "new_calls w w' = link_calls fd root ss" "extends w w'"
    using new_calls_trans [OF e5(1) w'(5)] e5(2) w'(6) by (simp_all add: ss(1) link_calls_def)
  ultimately show ?case
    using step w'(1,2,7,8) load5 crawl_frame_trans [OF frame w'(3)] keep by (intro exI [of _ w']) auto
qed

end
