(* ===== verification/Hlink_Steps.thy ===== *)
theory Hlink_Steps
  imports Hlink_Links
begin

text \<open>
  The steps of which registering a name is made, each with what it changes and what it leaves alone.
\<close>

definition quiet :: "'db world \<Rightarrow> 'db world \<Rightarrow> bool" where
  "quiet w w' \<longleftrightarrow> hlink w' = hlink w \<and> bufs w' = bufs w \<and> trace w' = trace w \<and> queued w' = queued w
     \<and> revs (wstore w') = revs (wstore w)
     \<and> (\<forall>p b. objects (wstore w) p = Some (Buf b) \<longrightarrow> (\<exists>b'. objects (wstore w') p = Some (Buf b') \<and> length b' = length b))
     \<and> (\<forall>q s. spells (strings (wstore w)) q s \<longrightarrow> spells (strings (wstore w')) q s)"

lemma quiet_refl [simp]: "quiet w w"
  by (simp add: quiet_def)

lemma quiet_trans: "quiet w w1 \<Longrightarrow> quiet w1 w2 \<Longrightarrow> quiet w w2"
  unfolding quiet_def by (elim conjE, intro conjI) (simp_all, metis)

lemma quiet_buf: "buf_ready w b k \<Longrightarrow> quiet w w' \<Longrightarrow> buf_ready w' b k"
  unfolding buf_ready_def quiet_def by metis

lemma quiet_spells: "quiet w w' \<Longrightarrow> spells (strings (wstore w)) q s \<Longrightarrow> spells (strings (wstore w')) q s"
  by (simp add: quiet_def)

lemma quiet_named: "quiet w w' \<Longrightarrow> named (wstore w) xs ss \<Longrightarrow> named (wstore w') xs ss"
  unfolding named_def by (elim list.rel_mono_strong) (auto dest: quiet_spells split: prod.splits)

lemma quietD:
  assumes "quiet w w'"
  shows "hlink w' = hlink w" "bufs w' = bufs w" "trace w' = trace w" "queued w' = queued w"
  using assms by (simp_all add: quiet_def)

lemma quiet_frame:
  assumes "quiet w w'" "hinfos (wstore w') = hinfos (wstore w)"
  shows "crawl_frame w w'"
  using assms by (simp add: crawl_frame_def quiet_def)

text \<open>Reference counts of names.\<close>

lemma w_inc_ok:
  assumes ok: "owned w ext dext" and p: "p \<in># ext" and room: "roomy w ext 0"
  obtains w' where "w_inc w p = Some w'" "owned w' (add_mset p ext) dext" "quiet w w'" "load w' = load w"
    "fdrcs (wstore w') = fdrcs (wstore w)" "links (wstore w') = links (wstore w)" "hinfos (wstore w') = hinfos (wstore w)"
    "\<And>q len. fresh_block (wstore w) q len \<Longrightarrow> fresh_block (wstore w') q len"
proof -
  let ?N = "ext + path_refs (fdrcs (wstore w)) + q_names (queued w)"
  note sok = ownedD(1) [OF ok]
  have pd: "p \<in> dom (strings (wstore w))" using parts_okD(3) [OF strings_okD(2) [OF sok]] p by auto
  have rr: "rc_room (wstore w) ?N" using room by (simp add: rc_room_def roomy_def)
  obtain st part n where st: "string_part_rc_inc (wstore w) p = Some st" "strings_ok st (add_mset p ?N)"
    "strings (wstore w) p = Some part" "objects st = (objects (wstore w))(p \<mapsto> Part (part\<lparr>part_rc := n\<rparr>))" "heap st = heap (wstore w)"
    using string_part_rc_inc_ok [OF sok pd rr] by blast
  have e: "objects st = objects (put_object p (Part (part\<lparr>part_rc := n\<rparr>)) (wstore w))" using st(4) by simp
  have str: "strings st = (strings (wstore w))(p \<mapsto> part\<lparr>part_rc := n\<rparr>)" using strings_objects [OF e] by simp
  have sf: "string_frame (wstore w) st"
    using string_frame_put [OF st(3), of "part\<lparr>part_rc := n\<rparr>"] strings_objects [OF e] unfolding string_frame_def e by simp
  note v = string_frame_views [OF sf]
  let ?w = "w\<lparr>wstore := st\<rparr>"
  have sp: "spells (strings st) q s" if "spells (strings (wstore w)) q s" for q s
    unfolding str by (rule spells_rewrite [OF that st(3)]) simp_all
  have "dom (strings st) = dom (strings (wstore w))" using st(3) by (auto simp: str)
  then have "load ?w = load w" by (simp add: load_def v(1) queued_def)
  moreover have "quiet w ?w" using v(4,5) sp by (auto simp: quiet_def queued_def)
  moreover have "owned ?w (add_mset p ext) dext" using st(2) ownedD(2) [OF ok] by (simp add: owned_def v(1) queued_def)
  moreover have "fresh_block st q len" if "fresh_block (wstore w) q len" for q len
    using that st(3,4,5) by (auto simp: fresh_block_def strings_def)
  ultimately show thesis using that [of ?w] st(1) v(1-3) by (simp add: w_inc_def)
qed

lemma incref_ok:
  assumes ok: "owned w ext dext" and p: "p \<in># dext" and room: "size (dext + q_dirs (queued w)) + 1 < 2 ^ 64"
  obtains w' where "incref p w = Some w'" "owned w' ext (add_mset p dext)" "quiet w w'" "load w' = load w"
    "links (wstore w') = links (wstore w)" "hinfos (wstore w') = hinfos (wstore w)" "dom (fdrcs (wstore w')) = dom (fdrcs (wstore w))"
    "\<And>q len. fresh_block (wstore w) q len \<Longrightarrow> fresh_block (wstore w') q len"
proof -
  let ?F = "fdrcs (wstore w)"
  note sok = ownedD(1) [OF ok] and dok = ownedD(2) [OF ok]
  have "p \<in> dom ?F" using dirs_okD(1) [OF dok] p by simp
  then obtain f where f: "?F p = Some f" by blast
  define f' where "f' = f\<lparr>fdrc_rc := inc64 (fdrc_rc f)\<rparr>"
  define st where "st = put_object p (Fdrc f') (wstore w)"
  have o: "objects (wstore w) p = Some (Fdrc f)" by (rule fdrcs_SomeD [OF f])
  have ps: "strings (wstore w) p = None" using other_views(4) [OF o] .
  note so = strings_ok_put [OF sok o ps, of "Fdrc f'", folded st_def]
  let ?w = "w\<lparr>wstore := st\<rparr>"
  have r: "incref p w = Some ?w"
    using f fdrc_not_null [OF sok f] by (simp add: incref_def update_fdrc_def w_put_eq st_def f'_def)
  have F: "fdrcs st = ?F(p \<mapsto> f')" by (simp add: st_def)
  have pr: "path_refs (?F(p \<mapsto> f')) = path_refs ?F" by (rule path_refs_same [of ?F p f]) (use f in \<open>simp_all add: f'_def\<close>)
  have "dirs_ok (?F(p \<mapsto> f')) (add_mset p (dext + q_dirs (queued w)))"
    unfolding f'_def by (rule dirs_inc [OF dok f room])
  then have "owned ?w ext (add_mset p dext)" using so by (simp add: owned_def F pr queued_def)
  moreover have "quiet w ?w"
    using o so(2) fdrc_views [OF f] by (auto simp: quiet_def st_def queued_def simp del: object_views(3))
  moreover have "load ?w = load w" using so(2) pr by (simp add: load_def F queued_def)
  moreover have "fresh_block st q len" if "fresh_block (wstore w) q len" for q len
    using that o by (auto simp: fresh_block_def st_def)
  moreover have "dom (fdrcs st) = dom ?F" using f by (auto simp: F)
  ultimately show thesis using that [OF r] fdrc_views(1,2) [OF f] by (simp add: st_def)
qed

text \<open>New objects that are neither names nor descriptors.\<close>

lemma w_alloc_ok:
  assumes ok: "owned w ext dext" and a: "w_alloc E w len = (p, w1)" "p \<noteq> NULL"
  shows "owned w1 ext dext" "quiet w w1" "load w1 = load w" "fdrcs (wstore w1) = fdrcs (wstore w)"
    "links (wstore w1) = links (wstore w)" "hinfos (wstore w1) = hinfos (wstore w)" "fresh_block (wstore w1) p len"
proof -
  obtain st where st: "store_alloc (tid E) (wstore w) len = (p, st)" "w1 = w\<lparr>wstore := st\<rparr>"
    using a(1) by (auto simp: w_alloc_def split: prod.splits)
  note s = store_alloc_spec [OF strings_okD(1) [OF ownedD(1) [OF ok]] st(1)]
  have v: "strings st = strings (wstore w)" "fdrcs st = fdrcs (wstore w)" "links st = links (wstore w)"
    "hinfos st = hinfos (wstore w)" "revs st = revs (wstore w)"
    using s(2) by (simp_all add: fun_eq_iff strings_def fdrcs_def links_def hinfos_def revs_def)
  show "owned w1 ext dext" using ok s(1) by (simp add: owned_def strings_ok_def st(2) v queued_def)
  show "quiet w w1" by (simp add: quiet_def st(2) v s(2) queued_def)
  show "load w1 = load w" by (simp add: load_def st(2) v queued_def)
  show "fresh_block (wstore w1) p len" using s(3) a(2) by (simp add: st(2))
qed (use a in \<open>auto simp: w_alloc_def fdrcs_def links_def hinfos_def fun_eq_iff store_alloc_def split: prod.splits\<close>)

lemma put_new_ok:
  assumes ok: "owned w ext dext" and fresh: "fresh_block (wstore w) p len" and x: "object_size x \<le> len"
    "x = HInfo h \<or> x = Link e"
  obtains w' where "w_put p x w = Some w'" "w' = w\<lparr>wstore := put_object p x (wstore w)\<rparr>" "owned w' ext dext" "quiet w w'"
    "load w' = load w" "fdrcs (wstore w') = fdrcs (wstore w)"
    "links (wstore w') = (if x = Link e then (links (wstore w))(p \<mapsto> e) else links (wstore w))"
    "hinfos (wstore w') = (if x = HInfo h then (hinfos (wstore w))(p \<mapsto> h) else hinfos (wstore w))"
proof -
  let ?st = "wstore w" and ?st' = "put_object p x (wstore w)"
  have n: "objects ?st p = None" "p \<noteq> NULL" using fresh by (simp_all add: fresh_block_def)
  have np: "x \<noteq> Part y" for y using x(2) by auto
  note so = strings_ok_fresh [OF ownedD(1) [OF ok] fresh np x(1)]
  have v: "fdrcs ?st' = fdrcs ?st" "revs ?st' = revs ?st"
    "links ?st' = (if x = Link e then (links ?st)(p \<mapsto> e) else links ?st)"
    "hinfos ?st' = (if x = HInfo h then (hinfos ?st)(p \<mapsto> h) else hinfos ?st)"
    using x(2) n(1) by (auto simp: fdrcs_def revs_def links_def hinfos_def fun_eq_iff)
  let ?w = "w\<lparr>wstore := ?st'\<rparr>"
  have "quiet w ?w" using n(1) so(2) v(2) by (auto simp: quiet_def queued_def simp del: object_views(1-6))
  moreover have "owned ?w ext dext" using so ownedD(2) [OF ok] v(1) by (simp add: owned_def queued_def)
  moreover have "load ?w = load w" using so(2) v(1) by (simp add: load_def queued_def)
  ultimately show thesis using that [of ?w] v(1,3,4) n(2) by (simp add: w_put_def)
qed

text \<open>Changing an entry of the table of source inodes, or a link entry that nothing refers to yet.\<close>

lemma update_hinfo_ok:
  assumes ok: "owned w ext dext" and h: "hinfos (wstore w) p = Some h"
  obtains w' where "update_hinfo p f w = Some w'" "owned w' ext dext" "quiet w w'" "load w' = load w"
    "fdrcs (wstore w') = fdrcs (wstore w)" "links (wstore w') = links (wstore w)" "hinfos (wstore w') = (hinfos (wstore w))(p \<mapsto> f h)"
    "heap (wstore w') = heap (wstore w)" "heap_mem (wstore w') = heap_mem (wstore w)"
proof -
  let ?st = "wstore w" and ?st' = "put_object p (HInfo (f h)) (wstore w)"
  have o: "objects ?st p = Some (HInfo h)" by (rule hinfos_SomeD [OF h])
  have p0: "p \<noteq> NULL" using o store_okD(3) [OF strings_okD(1) [OF ownedD(1) [OF ok]]] by (metis option.distinct(1))
  have sp: "strings ?st p = None" using other_views(3) [OF o] by blast
  note so = strings_ok_put [OF ownedD(1) [OF ok] o sp, of "HInfo (f h)"]
  have v: "fdrcs ?st' = fdrcs ?st" "revs ?st' = revs ?st" "links ?st' = links ?st" "hinfos ?st' = (hinfos ?st)(p \<mapsto> f h)"
    using o by (auto simp: fdrcs_def revs_def links_def hinfos_def fun_eq_iff)
  let ?w = "w\<lparr>wstore := ?st'\<rparr>"
  have "quiet w ?w" using o so(2) v(2) by (auto simp: quiet_def queued_def simp del: object_views(1-6))
  moreover have "owned ?w ext dext" using so ownedD(2) [OF ok] v(1) by (simp add: owned_def queued_def)
  moreover have "load ?w = load w" using so(2) v(1) by (simp add: load_def queued_def)
  moreover have "heap_mem ?st' = heap_mem ?st" by (simp add: put_object_def)
  ultimately show thesis using that [of ?w] v(1,3,4) p0 h by (simp add: update_hinfo_def w_put_def)
qed

lemma link_append_ok:
  assumes ok: "owned w ext dext" and e: "links (wstore w) p = Some e"
  obtains w' st where "linkEntryAppend (wstore w) tip p = Some (p, st)" "w' = w\<lparr>wstore := st\<rparr>" "owned w' ext dext" "quiet w w'"
    "load w' = load w" "fdrcs (wstore w') = fdrcs (wstore w)" "links (wstore w') = (links (wstore w))(p \<mapsto> e\<lparr>entry_prev := tip\<rparr>)"
    "hinfos (wstore w') = hinfos (wstore w)"
proof -
  let ?st = "wstore w" and ?st' = "put_object p (Link (e\<lparr>entry_prev := tip\<rparr>)) (wstore w)"
  have o: "objects ?st p = Some (Link e)" by (rule links_SomeD [OF e])
  have sp: "strings ?st p = None" using other_views(2) [OF o] by blast
  note so = strings_ok_put [OF ownedD(1) [OF ok] o sp, of "Link (e\<lparr>entry_prev := tip\<rparr>)"]
  have v: "fdrcs ?st' = fdrcs ?st" "revs ?st' = revs ?st" "links ?st' = (links ?st)(p \<mapsto> e\<lparr>entry_prev := tip\<rparr>)" "hinfos ?st' = hinfos ?st"
    using o by (auto simp: fdrcs_def revs_def links_def hinfos_def fun_eq_iff)
  let ?w = "w\<lparr>wstore := ?st'\<rparr>"
  have "quiet w ?w" using o so(2) v(2) by (auto simp: quiet_def queued_def simp del: object_views(1-6))
  moreover have "owned ?w ext dext" using so ownedD(2) [OF ok] v(1) by (simp add: owned_def queued_def)
  moreover have "load ?w = load w" using so(2) v(1) by (simp add: load_def queued_def)
  moreover have "linkEntryAppend ?st tip p = Some (p, ?st')"
    using e by (auto simp: linkEntryAppend_def isNullRef_def)
  ultimately show thesis using that [of ?st' ?w] v(1,3,4) by simp
qed

text \<open>Printing leaves the allocator alone.\<close>

lemma name_text_quiet:
  assumes ok: "owned w ext dext" and "buf_ready w b k" "spells (strings (wstore w)) ref s" "length s < k" "c_name s"
  obtains w' where "name_text E b w ref = Some (s, w')" "owned w' ext dext" "quiet w w'" "load w' = load w"
    "fdrcs (wstore w') = fdrcs (wstore w)" "links (wstore w') = links (wstore w)" "hinfos (wstore w') = hinfos (wstore w)"
    "heap (wstore w') = heap (wstore w)" "heap_mem (wstore w') = heap_mem (wstore w)"
proof -
  obtain w' where w': "name_text E b w ref = Some (s, w')" "strings_ok (wstore w') (ext + path_refs (fdrcs (wstore w)) + q_names (queued w))"
    "crawl_frame w w'" "strings (wstore w') = strings (wstore w)" "fdrcs (wstore w') = fdrcs (wstore w)"
    "links (wstore w') = links (wstore w)" "queued w' = queued w" "trace w' = trace w"
    "heap (wstore w') = heap (wstore w)" "heap_mem (wstore w') = heap_mem (wstore w)"
    by (rule name_text_ok [OF ownedD(1) [OF ok] assms(2-5), of E])
  have "owned w' ext dext" using w'(2) ownedD(2) [OF ok] by (simp add: owned_def w'(5,7))
  moreover have "quiet w w'" using w'(3) by (simp add: quiet_def crawl_frame_def w'(4,7,8))
  moreover have "load w' = load w" by (simp add: load_def w'(4,5,7))
  ultimately show thesis using that w' by (simp add: crawl_frame_def)
qed

end
