(* ===== verification/Hlink_Register.thy ===== *)
theory Hlink_Register
  imports Hlink_Steps
begin

text \<open>
  Registering the names of one file in a copy to a place where they do not exist: the first name
  becomes the root, the next ones wait for it or are linked to it, and the transfer of the root links
  the waiting ones. The entry of the file is in the cache of the table.
\<close>

section \<open>Entering\<close>

definition txn_ready :: "'db program \<Rightarrow> 'db world \<Rightarrow> bool" where
  "txn_ready E w \<longleftrightarrow> tid E \<in> set (rdTxns (hlink w)) \<or> mdb_txn_begin (db E) (env (hlink w)) (RdTxn (tid E)) \<noteq> None"

lemma enter_ok:
  assumes "txn_ready E w" "rwlock (hlink w) = Unlocked"
  obtains s where "enter E w = Some (RdTxn (tid E), w\<lparr>hlink := s\<rparr>)" "cache_of s = cache_of (hlink w)" "rwlock s = Rdlocked 1"
    "tid E \<in> set (rdTxns s)" "maxTableCacheSize s = maxTableCacheSize (hlink w)"
    "tid E \<in> set (rdTxns (hlink w)) \<Longrightarrow> env s = env (hlink w)"
proof (cases "tid E \<in> set (rdTxns (hlink w))")
  case True
  then have "enter E w = Some (RdTxn (tid E), w\<lparr>hlink := (hlink w)\<lparr>rwlock := Rdlocked 1\<rparr>\<rparr>)"
    using assms(2) by (simp add: enter_def rd_lock_def on_hlink_def getRDOnlyTxn_def)
  then show thesis using that True by simp
next
  case False
  then obtain e where e: "mdb_txn_begin (db E) (env (hlink w)) (RdTxn (tid E)) = Some e"
    using assms(1) by (auto simp: txn_ready_def)
  let ?s = "(hlink w)\<lparr>rwlock := Rdlocked 1, env := e, rdTxns := rdTxns (hlink w) @ [tid E]\<rparr>"
  have "enter E w = Some (RdTxn (tid E), w\<lparr>hlink := ?s\<rparr>)"
    using assms(2) False e by (simp add: enter_def rd_lock_def on_hlink_def getRDOnlyTxn_def)
  then show thesis using that [of ?s] False by (simp add: cache_of_def fun_eq_iff split: dbi.splits)
qed

lemma read_cached: "cache_of (hlink w) d k = Some v \<Longrightarrow> w_read E w t d k = Some (Some v)"
  by (simp add: w_read_def readPair_def)

text \<open>What does not depend on the tables.\<close>

lemma hlink_simps [simp]:
  "owned (w\<lparr>hlink := s\<rparr>) ext dext = owned w ext dext" "load (w\<lparr>hlink := s\<rparr>) = load w" "queued (w\<lparr>hlink := s\<rparr>) = queued w"
  "buf_ready (w\<lparr>hlink := s\<rparr>) b k = buf_ready w b k" "roomy (w\<lparr>hlink := s\<rparr>) ext k = roomy w ext k"
  by (simp_all add: owned_def load_def queued_def buf_ready_def roomy_def)

section \<open>Waiting for the root\<close>

definition root_entry :: "'db world \<Rightarrow> nat \<Rightarrow> addr \<Rightarrow> hlink_info \<Rightarrow> bool" where
  "root_entry w src p h \<longleftrightarrow> cache_of (hlink w) FORWARD src = Some p \<and> rwlock (hlink w) = Unlocked
     \<and> hinfos (wstore w) p = Some h \<and> \<not> hl_locked h"

definition waiting :: "'db world \<Rightarrow> hlink_info \<Rightarrow> (addr \<times> link_entry) list \<Rightarrow> string list \<Rightarrow> bool" where
  "waiting w h xs ss \<longleftrightarrow> link_list (links (wstore w)) (hl_links h) xs \<and> distinct (map fst xs) \<and> named (wstore w) xs ss"

lemma lock_hinfo_eq: "hinfos (wstore w) p = Some h \<Longrightarrow> \<not> hl_locked h \<Longrightarrow> lock_hinfo p w = update_hinfo p (\<lambda>h. h\<lparr>hl_locked := True\<rparr>) w"
  by (simp add: lock_hinfo_def update_hinfo_def)

lemma store_alloc_cong:
  "heap st' = heap st \<Longrightarrow> heap_mem st' = heap_mem st \<Longrightarrow> fst (store_alloc t st' n) = fst (store_alloc t st n)"
  by (simp add: store_alloc_def case_prod_beta)

lemma link_list_fresh:
  assumes "link_list K ref xs" "K p = None"
  shows "p \<notin> fst ` set xs"
  using assms by (induction K ref xs rule: link_list.induct) auto

text \<open>What is left of the allocator for later requests.\<close>

fun serves :: "nat \<Rightarrow> store \<Rightarrow> nat list \<Rightarrow> bool" where
  "serves t st [] \<longleftrightarrow> True"
| "serves t st (n # ns) \<longleftrightarrow> fst (store_alloc t st n) \<noteq> NULL \<and> serves t (snd (store_alloc t st n)) ns"

definition same_heap :: "store \<Rightarrow> store \<Rightarrow> bool" where
  "same_heap st st' \<longleftrightarrow> heap st' = heap st \<and> heap_mem st' = heap_mem st"

lemma serves_same: "serves t st ns \<Longrightarrow> same_heap st st' \<Longrightarrow> serves t st' ns"
proof (induction ns arbitrary: st st')
  case (Cons n ns)
  have "fst (store_alloc t st' n) = fst (store_alloc t st n)"
    "same_heap (snd (store_alloc t st n)) (snd (store_alloc t st' n))"
    using Cons.prems(2) by (simp_all add: same_heap_def store_alloc_def case_prod_beta)
  with Cons show ?case by auto
qed simp

lemma update_heap:
  "incref p w = Some w' \<Longrightarrow> same_heap (wstore w) (wstore w')" "w_inc w p = Some w' \<Longrightarrow> same_heap (wstore w) (wstore w')"
  "w_put p x w = Some w' \<Longrightarrow> same_heap (wstore w) (wstore w')" "update_hinfo p f w = Some w' \<Longrightarrow> same_heap (wstore w) (wstore w')"
  "linkEntryAppend st tip p = Some (q, st') \<Longrightarrow> same_heap st st'"
  by (auto simp: incref_def update_fdrc_def update_hinfo_def w_inc_def w_put_def string_part_rc_inc_def linkEntryAppend_def
      same_heap_def put_object_def split: bind_splits option.splits if_splits)

lemma same_heap_trans: "same_heap st st1 \<Longrightarrow> same_heap st1 st2 \<Longrightarrow> same_heap st st2"
  by (simp add: same_heap_def)

lemma queue_link_heap:
  assumes "queue_link E w a q = Some w'"
  shows "same_heap (snd (store_alloc (tid E) (wstore w) sizeof_LinkEntry)) (wstore w')"
proof -
  obtain p w1 where al: "w_alloc E w sizeof_LinkEntry = (p, w1)" by fastforce
  obtain w2 w3 w4 x u tip st where s: "incref (ra_dstFDRef a) w1 = Some w2" "w_inc w2 (ra_remoteRef a) = Some w3" "w_put p x w3 = Some w4"
    "linkEntryAppend (wstore w4) u p = Some (tip, st)"
    "update_hinfo q (\<lambda>h. h\<lparr>hl_links := tip\<rparr>) (w4\<lparr>wstore := st\<rparr>) = Some w'"
    using assms al by (auto simp: queue_link_def split: bind_splits)
  have "wstore w1 = snd (store_alloc (tid E) (wstore w) sizeof_LinkEntry)" using al by (auto simp: w_alloc_def split: prod.splits)
  with update_heap(1) [OF s(1)] update_heap(2) [OF s(2)] update_heap(3) [OF s(3)] update_heap(5) [OF s(4)] update_heap(4) [OF s(5)]
  show ?thesis by (simp add: same_heap_def)
qed

lemma queue_link_ok:
  assumes ok: "owned w ext dext" and h: "hinfos (wstore w) q = Some h"
    and a: "ra_remoteRef a \<in># ext" "ra_dstFDRef a \<in># dext"
    and room: "roomy w ext 0" "size (dext + q_dirs (queued w)) + 1 < 2 ^ 64"
    and mem: "fst (store_alloc (tid E) (wstore w) sizeof_LinkEntry) \<noteq> NULL"
  defines "e p \<equiv> \<lparr>entry_link = ra_remoteRef a, entry_prev = hl_links h, entry_dstFD = ra_dstFDRef a\<rparr>"
  obtains p w' where "queue_link E w a q = Some w'" "owned w' (add_mset (ra_remoteRef a) ext) (add_mset (ra_dstFDRef a) dext)"
    "quiet w w'" "load w' = load w" "links (wstore w) p = None" "p \<noteq> NULL" "links (wstore w') = (links (wstore w))(p \<mapsto> e p)"
    "hinfos (wstore w') = (hinfos (wstore w))(q \<mapsto> h\<lparr>hl_links := p\<rparr>)"
proof -
  obtain p w1 where al: "w_alloc E w sizeof_LinkEntry = (p, w1)" by fastforce
  then have p0: "p \<noteq> NULL" using mem by (auto simp: w_alloc_def split: prod.splits)
  note s1 = w_alloc_ok [OF ok al p0]
  have sz: "size (dext + q_dirs (queued w1)) + 1 < 2 ^ 64" using room(2) by (simp add: quietD(4) [OF s1(2)])
  obtain w2 where s2: "incref (ra_dstFDRef a) w1 = Some w2" "owned w2 ext (add_mset (ra_dstFDRef a) dext)" "quiet w1 w2" "load w2 = load w1"
    "links (wstore w2) = links (wstore w1)" "hinfos (wstore w2) = hinfos (wstore w1)"
    "\<And>q len. fresh_block (wstore w1) q len \<Longrightarrow> fresh_block (wstore w2) q len"
    by (rule incref_ok [OF s1(1) a(2) sz]) blast
  have rm: "roomy w2 ext 0" using room(1) by (simp add: roomy_load s2(4) s1(3))
  obtain w3 where s3: "w_inc w2 (ra_remoteRef a) = Some w3" "owned w3 (add_mset (ra_remoteRef a) ext) (add_mset (ra_dstFDRef a) dext)" "quiet w2 w3" "load w3 = load w2"
    "links (wstore w3) = links (wstore w2)" "hinfos (wstore w3) = hinfos (wstore w2)"
    "\<And>q len. fresh_block (wstore w2) q len \<Longrightarrow> fresh_block (wstore w3) q len"
    by (rule w_inc_ok [OF s2(2) a(1) rm]) blast
  define e0 where "e0 = \<lparr>entry_link = ra_remoteRef a, entry_prev = NULL, entry_dstFD = ra_dstFDRef a\<rparr>"
  have fr: "fresh_block (wstore w3) p sizeof_LinkEntry" using s1(7) s2(7) s3(7) by blast
  obtain w4 where s4: "w_put p (Link e0) w3 = Some w4" "owned w4 (add_mset (ra_remoteRef a) ext) (add_mset (ra_dstFDRef a) dext)" "quiet w3 w4"
    "load w4 = load w3" "links (wstore w4) = (links (wstore w3))(p \<mapsto> e0)" "hinfos (wstore w4) = hinfos (wstore w3)"
    by (rule put_new_ok [OF s3(2) fr, of "Link e0" undefined e0]) simp_all
  have hq: "hinfos (wstore w4) q = Some h" using h by (simp add: s4(6) s3(6) s2(6) s1(6))
  have lp: "links (wstore w4) p = Some e0" by (simp add: s4(5))
  obtain w5 st where s5: "linkEntryAppend (wstore w4) (hl_links h) p = Some (p, st)" "w5 = w4\<lparr>wstore := st\<rparr>"
    "owned w5 (add_mset (ra_remoteRef a) ext) (add_mset (ra_dstFDRef a) dext)" "quiet w4 w5" "load w5 = load w4"
    "links (wstore w5) = (links (wstore w4))(p \<mapsto> e0\<lparr>entry_prev := hl_links h\<rparr>)" "hinfos (wstore w5) = hinfos (wstore w4)"
    by (rule link_append_ok [OF s4(2) lp]) blast
  have hq5: "hinfos (wstore w5) q = Some h" using hq by (simp add: s5(7))
  obtain w6 where s6: "update_hinfo q (\<lambda>h. h\<lparr>hl_links := p\<rparr>) w5 = Some w6" "owned w6 (add_mset (ra_remoteRef a) ext) (add_mset (ra_dstFDRef a) dext)"
    "quiet w5 w6" "load w6 = load w5" "links (wstore w6) = links (wstore w5)" "hinfos (wstore w6) = (hinfos (wstore w5))(q \<mapsto> h\<lparr>hl_links := p\<rparr>)"
    by (rule update_hinfo_ok [OF s5(3) hq5, of "\<lambda>h. h\<lparr>hl_links := p\<rparr>"]) blast
  have r: "queue_link E w a q = Some w6"
    by (simp add: queue_link_def al s2(1) s3(1) s4(1) [unfolded e0_def] hq s5(1) s5(2) [symmetric] s6(1))
  have n: "links (wstore w) p = None"
    using fr s3(5) s2(5) s1(5) by (metis fresh_block_def links_def option.case(1))
  have "quiet w w6"
    by (rule quiet_trans [OF s1(2)], rule quiet_trans [OF s2(3)], rule quiet_trans [OF s3(3)], rule quiet_trans [OF s4(3)])
      (rule quiet_trans [OF s5(4) s6(3)])
  moreover have "links (wstore w6) = (links (wstore w))(p \<mapsto> e p)"
    by (simp add: s6(5) s5(6) s4(5) s3(5) s2(5) s1(5) e0_def e_def)
  moreover have "hinfos (wstore w6) = (hinfos (wstore w))(q \<mapsto> h\<lparr>hl_links := p\<rparr>)"
    by (simp add: s6(6) s5(7) s4(6) s3(6) s2(6) s1(6))
  ultimately show thesis using that [OF r s6(2) _ _ n p0] s6(4) s5(5) s4(4) s3(4) s2(4) s1(3) by simp
qed

section \<open>Registering a name\<close>

text \<open>The name is another one of a file whose root is known, and it is not at the destination.\<close>

lemma dst_state_absent: "\<not> ra_destExists a \<Longrightarrow> dst_state E w a should wr None = Some w"
  by (simp add: dst_state_def Let_def)

lemma unlock_hinfo_eq: "unlock_hinfo p w = update_hinfo p (\<lambda>h. h\<lparr>hl_locked := False\<rparr>) w"
  by (simp add: unlock_hinfo_def)

lemma hinfo_unlocked: "\<not> hl_locked h \<Longrightarrow> h\<lparr>hl_locked := False\<rparr> = h"
  by (cases h) simp

lemma register_waiting_ok:
  assumes root: "root_entry w src q h" "\<not> transferred h" and wait: "waiting w h xs ss" and ok: "owned w ext dext"
    and rt: "spells (strings (wstore w)) (hl_remote h) root" "c_name root" "length root < k" "buf_ready w Register_linkRoot k"
    and a: "ra_remoteRef a \<in># ext" "ra_dstFDRef a \<in># dext" "\<not> ra_destExists a" "ra_srcInode a = src"
      "spells (strings (wstore w)) (ra_remoteRef a) s" "c_name s"
    and room: "roomy w ext 0" "size (dext + q_dirs (queued w)) + 1 < 2 ^ 64"
    and mem: "fst (store_alloc (tid E) (wstore w) sizeof_LinkEntry) \<noteq> NULL" and txn: "txn_ready E w"
  obtains w' p e where "hlinkStateRegisterLinkRoot E a orig w
      = Some (\<lparr>shouldTransfer = False, isFirstLook = False, isPendingHardlink = True\<rparr>, w')"
    "root_entry w' src q (h\<lparr>hl_links := p\<rparr>)" "waiting w' (h\<lparr>hl_links := p\<rparr>) ((p, e) # xs) (s # ss)"
    "entry_link e = ra_remoteRef a" "entry_dstFD e = ra_dstFDRef a" "trace w' = trace w" "load w' = load w"
    "owned w' (add_mset (ra_remoteRef a) ext) (add_mset (ra_dstFDRef a) dext)" "txn_ready E w'" "queued w' = queued w"
    "links (wstore w') = (links (wstore w))(p \<mapsto> e)" "links (wstore w) p = None" "\<And>b k. buf_ready w b k \<Longrightarrow> buf_ready w' b k"
    "\<And>q s. spells (strings (wstore w)) q s \<Longrightarrow> spells (strings (wstore w')) q s"
    "same_heap (snd (store_alloc (tid E) (wstore w) sizeof_LinkEntry)) (wstore w')"
proof -
  have h: "hinfos (wstore w) q = Some h" "\<not> hl_locked h" and cache: "cache_of (hlink w) FORWARD src = Some q"
    and unl: "rwlock (hlink w) = Unlocked" using root(1) by (simp_all add: root_entry_def)
  obtain s0 where s0: "enter E w = Some (RdTxn (tid E), w\<lparr>hlink := s0\<rparr>)" "cache_of s0 = cache_of (hlink w)"
    "tid E \<in> set (rdTxns s0)" "rwlock s0 = Rdlocked 1" by (rule enter_ok [OF txn unl])
  let ?w0 = "w\<lparr>hlink := s0\<rparr>"
  have rd: "w_read E ?w0 (RdTxn (tid E)) FORWARD src = Some (Some q)" by (rule read_cached) (simp add: s0(2) cache)
  have br: "buf_ready ?w0 Register_linkRoot k" using rt(4) by simp
  have sp: "spells (strings (wstore ?w0)) (hl_remote h) root" using rt(1) by simp
  have ok0: "owned ?w0 ext dext" using ok by simp
  obtain w1 where w1: "name_text E Register_linkRoot ?w0 (hl_remote h) = Some (root, w1)" "owned w1 ext dext" "quiet ?w0 w1" "load w1 = load ?w0"
    "fdrcs (wstore w1) = fdrcs (wstore ?w0)" "links (wstore w1) = links (wstore ?w0)" "hinfos (wstore w1) = hinfos (wstore ?w0)"
    "heap (wstore w1) = heap (wstore ?w0)" "heap_mem (wstore w1) = heap_mem (wstore ?w0)"
    by (rule name_text_quiet [OF ok0 br sp rt(3,2), of E])
  have h1: "hinfos (wstore w1) q = Some h" using h(1) by (simp add: w1(7))
  let ?h = "h\<lparr>hl_locked := True\<rparr>"
  obtain w2 where w2: "update_hinfo q (\<lambda>h. h\<lparr>hl_locked := True\<rparr>) w1 = Some w2" "owned w2 ext dext" "quiet w1 w2" "load w2 = load w1"
    "fdrcs (wstore w2) = fdrcs (wstore w1)" "links (wstore w2) = links (wstore w1)" "hinfos (wstore w2) = (hinfos (wstore w1))(q \<mapsto> ?h)"
    "heap (wstore w2) = heap (wstore w1)" "heap_mem (wstore w2) = heap_mem (wstore w1)"
    by (rule update_hinfo_ok [OF w1(2) h1, of "\<lambda>h. h\<lparr>hl_locked := True\<rparr>"])
  have q12: "quiet ?w0 w2" by (rule quiet_trans [OF w1(3) w2(3)])
  have h2: "hinfos (wstore w2) q = Some ?h" by (simp add: w2(7))
  have room2: "roomy w2 ext 0" "size (dext + q_dirs (queued w2)) + 1 < 2 ^ 64"
    using room quietD(4) [OF q12] by (simp_all add: roomy_load w2(4) w1(4))
  have mem2: "fst (store_alloc (tid E) (wstore w2) sizeof_LinkEntry) \<noteq> NULL"
    using mem store_alloc_cong [of "wstore w2" "wstore w" "tid E" sizeof_LinkEntry] by (simp add: w2(8,9) w1(8,9))
  obtain p w3 where w3: "queue_link E w2 a q = Some w3" "owned w3 (add_mset (ra_remoteRef a) ext) (add_mset (ra_dstFDRef a) dext)"
    "quiet w2 w3" "load w3 = load w2" "links (wstore w2) p = None" "p \<noteq> NULL"
    "links (wstore w3) = (links (wstore w2))(p \<mapsto> \<lparr>entry_link = ra_remoteRef a, entry_prev = hl_links ?h, entry_dstFD = ra_dstFDRef a\<rparr>)"
    "hinfos (wstore w3) = (hinfos (wstore w2))(q \<mapsto> ?h\<lparr>hl_links := p\<rparr>)"
    by (rule queue_link_ok [OF w2(2) h2 a(1,2) room2 mem2])
  have h3: "hinfos (wstore w3) q = Some (?h\<lparr>hl_links := p\<rparr>)" by (simp add: w3(8))
  obtain w4 where w4: "update_hinfo q (\<lambda>h. h\<lparr>hl_locked := False\<rparr>) w3 = Some w4" "owned w4 (add_mset (ra_remoteRef a) ext) (add_mset (ra_dstFDRef a) dext)"
    "quiet w3 w4" "load w4 = load w3" "links (wstore w4) = links (wstore w3)"
    "hinfos (wstore w4) = (hinfos (wstore w3))(q \<mapsto> (?h\<lparr>hl_links := p\<rparr>)\<lparr>hl_locked := False\<rparr>)"
    by (rule update_hinfo_ok [OF w3(2) h3, of "\<lambda>h. h\<lparr>hl_locked := False\<rparr>"])
  have hh: "(?h\<lparr>hl_links := p\<rparr>)\<lparr>hl_locked := False\<rparr> = h\<lparr>hl_links := p\<rparr>" using h(2) by (cases h) simp
  define w' where "w' = rw_unlock w4"
  define e where "e = \<lparr>entry_link = ra_remoteRef a, entry_prev = hl_links h, entry_dstFD = ra_dstFDRef a\<rparr>"
  have known: "known_root E ?w0 a orig q = Some (False, False, \<lparr>shouldTransfer = False, isFirstLook = False, isPendingHardlink = True\<rparr>, w4)"
    using h a(3) root(2) w1(1) h1 w2(1) w3(1) w4(1)
    by (simp add: known_root_def lock_hinfo_eq [OF h1 h(2)] unlock_hinfo_eq)
  have r: "hlinkStateRegisterLinkRoot E a orig w
      = Some (\<lparr>shouldTransfer = False, isFirstLook = False, isPendingHardlink = True\<rparr>, w')"
    using a(3,4) rd s0(1) known dst_state_absent [OF a(3), of E w4]
    by (subst hlinkStateRegisterLinkRoot.simps) (simp add: w'_def)
  have q04: "quiet ?w0 w4" by (rule quiet_trans [OF q12 quiet_trans [OF w3(3) w4(3)]])
  have st': "wstore w' = wstore w4" "hlink w' = s0\<lparr>rwlock := Unlocked\<rparr>" "bufs w' = bufs w4" "trace w' = trace w4" "queued w' = queued w4"
    "load w' = load w4" using quietD(1) [OF q04] s0(4) by (simp_all add: w'_def rw_unlock_def on_hlink_def)
  have re: "root_entry w' src q (h\<lparr>hl_links := p\<rparr>)"
    using cache s0(2) h(2) by (simp add: root_entry_def st' w4(6) hh)
  have K: "links (wstore w4) = (links (wstore w))(p \<mapsto> e)" by (simp add: w4(5) w3(7) w2(6) w1(6) e_def)
  have lw: "links (wstore w) p = None" using w3(5) by (simp add: w2(6) w1(6))
  have ll: "link_list (links (wstore w)) (hl_links h) xs" "distinct (map fst xs)" "named (wstore w) xs ss" using wait by (simp_all add: waiting_def)
  note px = link_list_fresh [OF ll(1) lw]
  have keep: "spells (strings (wstore w')) x t" if "spells (strings (wstore w)) x t" for x t
    using quiet_spells [OF q04, of x t] that by (simp add: st')
  have "named (wstore w4) xs ss" using quiet_named [OF q04, of xs ss] ll(3) by simp
  then have wait': "waiting w' (h\<lparr>hl_links := p\<rparr>) ((p, e) # xs) (s # ss)"
    using link_list_keep [OF ll(1) px, of "Some e"] ll(2) px w3(6) keep [OF a(5)] a(6)
    by (simp add: waiting_def K named_def e_def st'(1))
  have bufs: "buf_ready w' b k" if "buf_ready w b k" for b k
    using quiet_buf [OF _ q04, of b k] that by (simp add: buf_ready_def st')
  have h12: "same_heap (wstore w) (wstore w2)" by (simp add: same_heap_def w1(8,9) w2(8,9))
  have "same_heap (snd (store_alloc (tid E) (wstore w) sizeof_LinkEntry)) (snd (store_alloc (tid E) (wstore w2) sizeof_LinkEntry))"
    using h12 by (simp add: same_heap_def store_alloc_def case_prod_beta)
  from same_heap_trans [OF same_heap_trans [OF this queue_link_heap [OF w3(1)]] update_heap(4) [OF w4(1)]]
  have heap: "same_heap (snd (store_alloc (tid E) (wstore w) sizeof_LinkEntry)) (wstore w')" by (simp add: st'(1))
  show thesis
    by (rule that [OF r re wait' _ _ _ _ _ _ _ _ _ bufs keep heap])
      (use quietD [OF q04] w4(2) s0(3) in \<open>simp_all add: e_def [symmetric] K lw, simp_all add: e_def st' w4(4) w3(4) w2(4) w1(4) txn_ready_def owned_def [of w'] owned_def [of w4] K lw\<close>)
qed

text \<open>
  A name whose file is not known. The read lock is given up to take the write lock, and \<open>v\<close> is what
  the other threads have made of the state until it is taken.
\<close>

definition looks_new :: "'db program \<Rightarrow> 'db world \<Rightarrow> nat \<Rightarrow> 'db world \<Rightarrow> bool" where
  "looks_new E w src v \<longleftrightarrow> rwlock (hlink w) = Unlocked \<and> tid E \<in> set (rdTxns (hlink w))
     \<and> w_read E w (RdTxn (tid E)) FORWARD src = Some None \<and> v = other_threads E w \<and> rwlock (hlink v) = Unlocked"

lemma looks_newD:
  assumes "looks_new E w src v"
  shows "enter E w = Some (RdTxn (tid E), w\<lparr>hlink := (hlink w)\<lparr>rwlock := Rdlocked 1\<rparr>\<rparr>)"
    "promote E (w\<lparr>hlink := (hlink w)\<lparr>rwlock := Rdlocked 1\<rparr>\<rparr>) = Some (v\<lparr>hlink := (hlink v)\<lparr>rwlock := Wrlocked\<rparr>\<rparr>)"
    "w_read E w (RdTxn (tid E)) FORWARD src = Some None"
proof -
  have w: "rwlock (hlink w) = Unlocked" "tid E \<in> set (rdTxns (hlink w))" "v = other_threads E w" "rwlock (hlink v) = Unlocked"
    using assms unfolding looks_new_def by blast+
  then have "(hlink w)\<lparr>rwlock := Unlocked\<rparr> = hlink w" by (cases "hlink w") simp
  then have "rw_unlock (w\<lparr>hlink := (hlink w)\<lparr>rwlock := Rdlocked 1\<rparr>\<rparr>) = w" by (simp add: rw_unlock_def on_hlink_def)
  then show "promote E (w\<lparr>hlink := (hlink w)\<lparr>rwlock := Rdlocked 1\<rparr>\<rparr>) = Some (v\<lparr>hlink := (hlink v)\<lparr>rwlock := Wrlocked\<rparr>\<rparr>)"
    using w(3,4) by (simp add: promote_def on_hlink_def Let_def)
  show "enter E w = Some (RdTxn (tid E), w\<lparr>hlink := (hlink w)\<lparr>rwlock := Rdlocked 1\<rparr>\<rparr>)"
    using w(1,2) by (simp add: enter_def rd_lock_def on_hlink_def getRDOnlyTxn_def)
qed (use assms in \<open>simp add: looks_new_def\<close>)

lemma read_lock: "w_read E (w\<lparr>hlink := (hlink w)\<lparr>rwlock := l\<rparr>\<rparr>) t d k = w_read E w t d k"
  by (cases "cache_of (hlink w) d k") (simp_all add: w_read_def readPair_def)

text \<open>Another thread has registered the file in the meantime: the function begins again.\<close>

lemma register_reroll:
  assumes new: "looks_new E w src v" and a: "\<not> ra_destExists a" "ra_srcInode a = src" and q: "cache_of (hlink v) FORWARD src = Some q"
  shows "hlinkStateRegisterLinkRoot E a orig w = hlinkStateRegisterLinkRoot E a orig v"
proof -
  note n = looks_newD [OF new]
  have "w_read E v (RdTxn (tid E)) FORWARD src = Some (Some q)" by (rule read_cached) (rule q)
  moreover have "rw_unlock (v\<lparr>hlink := (hlink v)\<lparr>rwlock := Wrlocked\<rparr>\<rparr>) = v"
    using new by (cases v, cases "hlink v") (simp add: looks_new_def rw_unlock_def on_hlink_def)
  ultimately show ?thesis
    using n(1,2) n(3) a by (subst hlinkStateRegisterLinkRoot.simps) (simp add: read_lock)
qed

text \<open>The first name of a file.\<close>

lemma register_first_ok:
  assumes new: "looks_new E w' src w" and txn: "tid E \<in> set (rdTxns (hlink w))"
    and a: "ra_remoteRef a \<in># ext" "\<not> ra_destExists a" "ra_srcInode a = src"
    and none: "w_read E w (RdTxn (tid E)) FORWARD src = Some None"
    and small: "\<And>p. length (iter (db E) ((cache_of (hlink w) FORWARD)(src \<mapsto> p))) < maxTableCacheSize (hlink w)"
    and ok: "owned w ext dext" "roomy w ext 0"
    and mem: "fst (store_alloc (tid E) (wstore w) sizeof_HLinkInfo) \<noteq> NULL"
  obtains w2 q where "hlinkStateRegisterLinkRoot E a orig w'
      = Some (\<lparr>shouldTransfer = orig, isFirstLook = True, isPendingHardlink = False\<rparr>, w2)"
    "root_entry w2 src q \<lparr>transferred = False, destInode = ra_destInode a, hl_remote = ra_remoteRef a, hl_links = NULL,
        hl_nlinkRC = ra_srcNLinks a, hl_locked = False\<rparr>"
    "owned w2 (add_mset (ra_remoteRef a) ext) dext" "trace w2 = trace w" "load w2 = load w" "links (wstore w2) = links (wstore w)"
    "txn_ready E w2" "queued w2 = queued w" "\<And>b k. buf_ready w b k \<Longrightarrow> buf_ready w2 b k"
    "\<And>q s. spells (strings (wstore w)) q s \<Longrightarrow> spells (strings (wstore w2)) q s"
    "same_heap (snd (store_alloc (tid E) (wstore w) sizeof_HLinkInfo)) (wstore w2)"
proof -
  let ?w1 = "w\<lparr>hlink := (hlink w)\<lparr>rwlock := Wrlocked\<rparr>\<rparr>"
  note n = looks_newD [OF new]
  obtain q w2 where al: "w_alloc E ?w1 sizeof_HLinkInfo = (q, w2)" by fastforce
  then have q0: "q \<noteq> NULL" using mem by (auto simp: w_alloc_def split: prod.splits)
  have ok1: "owned ?w1 ext dext" using ok(1) by simp
  note s2 = w_alloc_ok [OF ok1 al q0]
  have room2: "roomy w2 ext 0" using ok(2) by (simp add: roomy_load s2(3))
  obtain w3 where s3: "w_inc w2 (ra_remoteRef a) = Some w3" "owned w3 (add_mset (ra_remoteRef a) ext) dext" "quiet w2 w3" "load w3 = load w2"
    "fdrcs (wstore w3) = fdrcs (wstore w2)" "links (wstore w3) = links (wstore w2)" "hinfos (wstore w3) = hinfos (wstore w2)"
    "\<And>q len. fresh_block (wstore w2) q len \<Longrightarrow> fresh_block (wstore w3) q len"
    by (rule w_inc_ok [OF s2(1) a(1) room2]) blast
  define h where "h = \<lparr>transferred = False, destInode = ra_destInode a, hl_remote = ra_remoteRef a, hl_links = NULL,
        hl_nlinkRC = ra_srcNLinks a, hl_locked = False\<rparr>"
  have fr: "fresh_block (wstore w3) q sizeof_HLinkInfo" by (rule s3(8) [OF s2(7)])
  obtain w4 where s4: "w_put q (HInfo h) w3 = Some w4" "owned w4 (add_mset (ra_remoteRef a) ext) dext" "quiet w3 w4"
    "load w4 = load w3" "links (wstore w4) = links (wstore w3)" "hinfos (wstore w4) = (hinfos (wstore w3))(q \<mapsto> h)"
    by (rule put_new_ok [OF s3(2) fr, of "HInfo h" h undefined]) simp_all
  have q14: "quiet ?w1 w4" by (rule quiet_trans [OF s2(2) quiet_trans [OF s3(3) s4(3)]])
  have hl: "hlink w4 = (hlink w)\<lparr>rwlock := Wrlocked\<rparr>" using quietD(1) [OF q14] by simp
  define s5 where "s5 = set_cache FORWARD ((cache_of (hlink w) FORWARD)(src \<mapsto> q)) ((hlink w)\<lparr>rwlock := Wrlocked\<rparr>)"
  have wr: "w_write E w4 FORWARD src q = Some (w4\<lparr>hlink := s5\<rparr>)"
    using small [of q] by (simp add: w_write_def writePair_def hl s5_def)
  let ?w' = "rw_unlock (w4\<lparr>hlink := s5\<rparr>)"
  have fl: "first_look E ?w1 a orig None
      = Some (\<lparr>shouldTransfer = orig, isFirstLook = True, isPendingHardlink = False\<rparr>, w4\<lparr>hlink := s5\<rparr>)"
    using al s3(1) s4(1) wr a(3) by (simp add: first_look_def h_def)
  have r: "hlinkStateRegisterLinkRoot E a orig w'
      = Some (\<lparr>shouldTransfer = orig, isFirstLook = True, isPendingHardlink = False\<rparr>, ?w')"
    using n a(2,3) none fl dst_state_absent [OF a(2), of E "w4\<lparr>hlink := s5\<rparr>"]
    by (subst hlinkStateRegisterLinkRoot.simps) (simp add: read_lock)
  have re: "root_entry ?w' src q h"
    using s4(6) by (simp add: root_entry_def rw_unlock_def on_hlink_def s5_def h_def)
  have bufs: "buf_ready ?w' b k" if "buf_ready w b k" for b k
    using quiet_buf [OF _ q14, of b k] that by (simp add: buf_ready_def rw_unlock_def on_hlink_def)
  have keep: "spells (strings (wstore ?w')) x t" if "spells (strings (wstore w)) x t" for x t
    using quiet_spells [OF q14, of x t] that by (simp add: rw_unlock_def on_hlink_def)
  have "wstore w2 = snd (store_alloc (tid E) (wstore w) sizeof_HLinkInfo)" using al by (auto simp: w_alloc_def split: prod.splits)
  with same_heap_trans [OF update_heap(2) [OF s3(1)] update_heap(3) [OF s4(1)]]
  have heap: "same_heap (snd (store_alloc (tid E) (wstore w) sizeof_HLinkInfo)) (wstore ?w')"
    by (simp add: rw_unlock_def on_hlink_def)
  show thesis
    by (rule that [OF r re [unfolded h_def] _ _ _ _ _ _ bufs keep heap])
      (use quietD [OF q14] s4(2) txn in \<open>simp_all add: rw_unlock_def on_hlink_def s4(4,5) s3(4,6) s2(3,5) txn_ready_def s5_def\<close>)
qed

section \<open>The root is transferred\<close>

lemma handle_transfer_ok:
  assumes root: "root_entry w src q h" and wait: "waiting w h xs ss"
    and ok: "owned w (ext + entry_names xs) (dext + entry_dirs xs)" "roomy w (ext + entry_names xs) 0"
    and buf: "buf_ready w Transfer_linkRoot k" "\<forall>s \<in> set ss. length s < k"
    and n: "1 < hl_nlinkRC h" "hl_nlinkRC h < 2 ^ 64" "length xs < 2 ^ 64" and txn: "txn_ready E w"
  obtains w' where "hlinkStateHandleTransfer E root src dest fd w = Some (length xs, w')"
    "root_entry w' src q (h\<lparr>transferred := True, destInode := dest, hl_nlinkRC := hl_nlinkRC h - 1\<rparr>)"
    "owned w' ext dext" "extends w w'" "new_calls w w' = link_calls fd root ss" "load w' \<le> load w + length xs"
    "links (wstore w') = (\<lambda>p. if p \<in> fst ` set xs then None else links (wstore w) p)" "txn_ready E w'"
    "\<And>p s. p \<in># ext \<Longrightarrow> spells (strings (wstore w)) p s \<Longrightarrow> spells (strings (wstore w')) p s"
proof -
  have h: "hinfos (wstore w) q = Some h" "\<not> hl_locked h" and cache: "cache_of (hlink w) FORWARD src = Some q"
    and unl: "rwlock (hlink w) = Unlocked" using root by (simp_all add: root_entry_def)
  obtain s0 where s0: "enter E w = Some (RdTxn (tid E), w\<lparr>hlink := s0\<rparr>)" "cache_of s0 = cache_of (hlink w)"
    "tid E \<in> set (rdTxns s0)" "rwlock s0 = Rdlocked 1" by (rule enter_ok [OF txn unl])
  let ?w0 = "w\<lparr>hlink := s0\<rparr>" and ?ext = "ext + entry_names xs" and ?dext = "dext + entry_dirs xs"
  have rd: "w_read E ?w0 (RdTxn (tid E)) FORWARD src = Some (Some q)" by (rule read_cached) (simp add: s0(2) cache)
  have h0: "hinfos (wstore ?w0) q = Some h" using h(1) by simp
  have ok0: "owned ?w0 ?ext ?dext" using ok(1) by simp
  obtain w1 where w1: "update_hinfo q (\<lambda>h. h\<lparr>hl_locked := True\<rparr>) ?w0 = Some w1" "owned w1 ?ext ?dext" "quiet ?w0 w1" "load w1 = load ?w0"
    "fdrcs (wstore w1) = fdrcs (wstore ?w0)" "links (wstore w1) = links (wstore ?w0)" "hinfos (wstore w1) = (hinfos (wstore ?w0))(q \<mapsto> h\<lparr>hl_locked := True\<rparr>)"
    "heap (wstore w1) = heap (wstore ?w0)" "heap_mem (wstore w1) = heap_mem (wstore ?w0)"
    by (rule update_hinfo_ok [OF ok0 h0, of "\<lambda>h. h\<lparr>hl_locked := True\<rparr>"])
  define f where "f = (\<lambda>h :: hlink_info. h\<lparr>transferred := True, destInode := dest\<rparr>)"
  have h1: "hinfos (wstore w1) q = Some (h\<lparr>hl_locked := True\<rparr>)" by (simp add: w1(7))
  obtain w2 where w2: "update_hinfo q f w1 = Some w2" "owned w2 ?ext ?dext" "quiet w1 w2" "load w2 = load w1"
    "fdrcs (wstore w2) = fdrcs (wstore w1)" "links (wstore w2) = links (wstore w1)" "hinfos (wstore w2) = (hinfos (wstore w1))(q \<mapsto> f (h\<lparr>hl_locked := True\<rparr>))"
    "heap (wstore w2) = heap (wstore w1)" "heap_mem (wstore w2) = heap_mem (wstore w1)"
    by (rule update_hinfo_ok [OF w1(2) h1, of f])
  have q02: "quiet ?w0 w2" by (rule quiet_trans [OF w1(3) w2(3)])
  have K2: "links (wstore w2) = links (wstore w)" by (simp add: w2(6) w1(6))
  have ll: "link_list (links (wstore w2)) (hl_links h) xs" "distinct (map fst xs)" "named (wstore w2) xs ss"
    using wait quiet_named [OF q02, of xs ss] by (simp_all add: waiting_def K2)
  have room2: "roomy w2 ?ext 0" using ok(2) by (simp add: roomy_load w2(4) w1(4))
  have buf2: "buf_ready w2 Transfer_linkRoot k" using quiet_buf [OF _ q02, of Transfer_linkRoot k] buf(1) by simp
  have "\<exists>w'. transfer_links E root fd (hl_links h) 0 w2 = Some (0 + length xs, w') \<and> owned w' ext dext \<and> crawl_frame w2 w'
    \<and> links (wstore w') = (\<lambda>q. if q \<in> fst ` set xs then None else links (wstore w2) q)
    \<and> extends w2 w' \<and> new_calls w2 w' = link_calls fd root ss \<and> load w' \<le> load w2 + length xs
    \<and> (\<forall>q s. q \<in># ext \<longrightarrow> spells (strings (wstore w2)) q s \<longrightarrow> spells (strings (wstore w')) q s)"
    by (rule transfer_links_ok [OF ll(1,2) w2(2) room2 ll(3) buf2 buf(2)]) (use n(3) in simp)
  then obtain w3 where w3: "transfer_links E root fd (hl_links h) 0 w2 = Some (length xs, w3)" "owned w3 ext dext" "crawl_frame w2 w3"
    "links (wstore w3) = (\<lambda>q. if q \<in> fst ` set xs then None else links (wstore w2) q)"
    "extends w2 w3" "new_calls w2 w3 = link_calls fd root ss" "load w3 \<le> load w2 + length xs"
    "\<And>q s. q \<in># ext \<Longrightarrow> spells (strings (wstore w2)) q s \<Longrightarrow> spells (strings (wstore w3)) q s" by auto
  have h3: "hinfos (wstore w3) q = Some (f (h\<lparr>hl_locked := True\<rparr>))" using w3(3) by (simp add: crawl_frame_def w2(7))
  obtain w4 where w4: "update_hinfo q (\<lambda>h. h\<lparr>hl_nlinkRC := dec64 (hl_nlinkRC h)\<rparr>) w3 = Some w4" "owned w4 ext dext" "quiet w3 w4" "load w4 = load w3"
    "links (wstore w4) = links (wstore w3)"
    "hinfos (wstore w4) = (hinfos (wstore w3))(q \<mapsto> (f (h\<lparr>hl_locked := True\<rparr>))\<lparr>hl_nlinkRC := dec64 (hl_nlinkRC (f (h\<lparr>hl_locked := True\<rparr>)))\<rparr>)"
    by (rule update_hinfo_ok [OF w3(2) h3, of "\<lambda>h. h\<lparr>hl_nlinkRC := dec64 (hl_nlinkRC h)\<rparr>"])
  have dec: "dec64 (hl_nlinkRC h) = hl_nlinkRC h - 1" by (rule dec64_pos) (use n in simp_all)
  define h4 where "h4 = h\<lparr>hl_locked := True, transferred := True, destInode := dest, hl_nlinkRC := hl_nlinkRC h - 1\<rparr>"
  have e4: "(f (h\<lparr>hl_locked := True\<rparr>))\<lparr>hl_nlinkRC := dec64 (hl_nlinkRC (f (h\<lparr>hl_locked := True\<rparr>)))\<rparr> = h4"
    using dec by (cases h) (simp add: f_def h4_def)
  have h4q: "hinfos (wstore w4) q = Some h4" by (simp only: w4(6) e4 fun_upd_same)
  obtain w5 where w5: "update_hinfo q (\<lambda>h. h\<lparr>hl_locked := False\<rparr>) w4 = Some w5" "owned w5 ext dext" "quiet w4 w5" "load w5 = load w4"
    "links (wstore w5) = links (wstore w4)" "hinfos (wstore w5) = (hinfos (wstore w4))(q \<mapsto> h4\<lparr>hl_locked := False\<rparr>)"
    by (rule update_hinfo_ok [OF w4(2) h4q, of "\<lambda>h. h\<lparr>hl_locked := False\<rparr>"])
  have e5: "h4\<lparr>hl_locked := False\<rparr> = h\<lparr>transferred := True, destInode := dest, hl_nlinkRC := hl_nlinkRC h - 1\<rparr>"
    using h(2) by (cases h) (simp add: h4_def)
  have q0: "q \<noteq> NULL"
    using hinfos_SomeD [OF h(1)] store_okD(3) [OF strings_okD(1) [OF ownedD(1) [OF ok(1)]]] by (metis option.distinct(1))
  have rest: "hl_nlinkRC h4 \<noteq> 0" using n(1) by (simp add: h4_def)
  let ?w' = "rw_unlock w5"
  have links_h: "hl_links (f (h\<lparr>hl_locked := True\<rparr>)) = hl_links h" by (simp add: f_def)
  have h2: "hinfos (wstore w2) q = Some (f (h\<lparr>hl_locked := True\<rparr>))" by (simp add: w2(7))
  have r: "hlinkStateHandleTransfer E root src dest fd w = Some (length xs, ?w')"
    unfolding hlinkStateHandleTransfer_def
    by (simp only: s0(1) rd Option.bind.simps prod.case option.case lock_hinfo_eq [OF h0 h(2)] w1(1) w2(1) [unfolded f_def]
      h2 links_h w3(1) w4(1) h4q rest if_False isNullRef_def q0 unlock_hinfo_eq w5(1))
  have hl: "hlink w5 = s0"
    using quietD(1) [OF w5(3)] quietD(1) [OF w4(3)] quietD(1) [OF q02] w3(3) by (simp add: crawl_frame_def)
  have tr: "trace w5 = trace w3" "trace w2 = trace w"
    using quietD(3) [OF w5(3)] quietD(3) [OF w4(3)] quietD(3) [OF q02] by simp_all
  have re: "root_entry ?w' src q (h\<lparr>transferred := True, destInode := dest, hl_nlinkRC := hl_nlinkRC h - 1\<rparr>)"
    using cache s0(2,4) h(2) by (simp add: root_entry_def rw_unlock_def on_hlink_def hl w5(6) e5)
  have keep: "spells (strings (wstore ?w')) p s" if "p \<in># ext" "spells (strings (wstore w)) p s" for p s
    using quiet_spells [OF w5(3) quiet_spells [OF w4(3) w3(8) [OF that(1)]]] quiet_spells [OF q02, of p s] that(2)
    by (simp add: rw_unlock_def on_hlink_def)
  show thesis
    by (rule that [OF r re _ _ _ _ _ _ keep])
      (use w5(2) w3(5,6,7) s0(3) in \<open>simp_all add: rw_unlock_def on_hlink_def extends_def new_calls_def tr w5(4,5) w4(4,5) w3(4) [unfolded K2]
        w2(4) w1(4) txn_ready_def hl\<close>)
qed

section \<open>Names that come later\<close>

lemma sys_trace: "snd (sys E w c) = w\<lparr>trace := trace w @ [c]\<rparr>" "fst (sys E w c) = kernel E (trace w) c"
  by (simp_all add: sys_def)

lemma trace_simps [simp]:
  "owned (w\<lparr>trace := t\<rparr>) ext dext = owned w ext dext" "load (w\<lparr>trace := t\<rparr>) = load w" "queued (w\<lparr>trace := t\<rparr>) = queued w"
  "buf_ready (w\<lparr>trace := t\<rparr>) b k = buf_ready w b k"
  by (simp_all add: owned_def load_def queued_def buf_ready_def)

text \<open>The name is linked to the root, and if that fails the function returns with its locks.\<close>

lemma register_linked_ok:
  assumes root: "root_entry w src q h" "transferred h" and ok: "owned w ext dext"
    and rt: "spells (strings (wstore w)) (hl_remote h) root" "c_name root" "length root < k" "buf_ready w Register_linkRoot k"
    and a: "\<not> ra_destExists a" "ra_srcInode a = src" and n: "0 < hl_nlinkRC h" "hl_nlinkRC h < 2 ^ 64" and txn: "txn_ready E w"
    and u: "u = Unlinkat (ra_destRootFD a) (ra_remote a) False" "l = Linkat (ra_destRootFD a) root (ra_destRootFD a) (ra_remote a)"
    and r1: "0 \<le> ret (kernel E (trace w) u) \<or> errno (kernel E (trace w) u) = ENOENT"
  obtains w' where "hlinkStateRegisterLinkRoot E a orig w
      = Some (\<lparr>shouldTransfer = False, isFirstLook = False, isPendingHardlink = False\<rparr>, w')"
    "trace w' = trace w @ [u, l]" "owned w' ext dext" "txn_ready E w'"
    "0 \<le> ret (kernel E (trace w @ [u]) l) \<Longrightarrow> root_entry w' src q (h\<lparr>hl_nlinkRC := hl_nlinkRC h - 1\<rparr>)"
    "ret (kernel E (trace w @ [u]) l) < 0 \<Longrightarrow> rwlock (hlink w') = Rdlocked 1 \<and> tid E \<in> set (rdTxns (hlink w')) \<and> cache_of (hlink w') FORWARD src = Some q
      \<and> hinfos (wstore w') q = Some (h\<lparr>hl_locked := True\<rparr>)"
proof -
  have h: "hinfos (wstore w) q = Some h" "\<not> hl_locked h" and cache: "cache_of (hlink w) FORWARD src = Some q"
    and unl: "rwlock (hlink w) = Unlocked" using root(1) by (simp_all add: root_entry_def)
  obtain s0 where s0: "enter E w = Some (RdTxn (tid E), w\<lparr>hlink := s0\<rparr>)" "cache_of s0 = cache_of (hlink w)"
    "rwlock s0 = Rdlocked 1" "tid E \<in> set (rdTxns s0)" by (rule enter_ok [OF txn unl])
  let ?w0 = "w\<lparr>hlink := s0\<rparr>"
  have rd: "w_read E ?w0 (RdTxn (tid E)) FORWARD src = Some (Some q)" by (rule read_cached) (simp add: s0(2) cache)
  have br: "buf_ready ?w0 Register_linkRoot k" using rt(4) by simp
  have sp: "spells (strings (wstore ?w0)) (hl_remote h) root" using rt(1) by simp
  have ok0: "owned ?w0 ext dext" using ok by simp
  obtain w1 where w1: "name_text E Register_linkRoot ?w0 (hl_remote h) = Some (root, w1)" "owned w1 ext dext" "quiet ?w0 w1" "load w1 = load ?w0"
    "fdrcs (wstore w1) = fdrcs (wstore ?w0)" "links (wstore w1) = links (wstore ?w0)" "hinfos (wstore w1) = hinfos (wstore ?w0)"
    "heap (wstore w1) = heap (wstore ?w0)" "heap_mem (wstore w1) = heap_mem (wstore ?w0)"
    by (rule name_text_quiet [OF ok0 br sp rt(3,2), of E])
  have h1: "hinfos (wstore w1) q = Some h" using h(1) by (simp add: w1(7))
  let ?h = "h\<lparr>hl_locked := True\<rparr>"
  obtain w2 where w2: "update_hinfo q (\<lambda>h. h\<lparr>hl_locked := True\<rparr>) w1 = Some w2" "owned w2 ext dext" "quiet w1 w2"
    "hinfos (wstore w2) = (hinfos (wstore w1))(q \<mapsto> ?h)"
    by (rule update_hinfo_ok [OF w1(2) h1, of "\<lambda>h. h\<lparr>hl_locked := True\<rparr>"])
  have q12: "quiet ?w0 w2" by (rule quiet_trans [OF w1(3) w2(3)])
  have tr2: "trace w2 = trace w" and hl2: "hlink w2 = s0" using quietD(1,3) [OF q12] by simp_all
  have h2: "hinfos (wstore w2) q = Some ?h" by (simp add: w2(4))
  define w3 where "w3 = w2\<lparr>trace := trace w @ [u, l]\<rparr>"
  have ok3: "owned w3 ext dext" using w2(2) by (simp add: w3_def)
  have h3: "hinfos (wstore w3) q = Some ?h" using h2 by (simp add: w3_def)
  have calls: "snd (sys E (snd (sys E w2 u)) l) = w3" "fst (sys E (snd (sys E w2 u)) l) = kernel E (trace w @ [u]) l"
    "fst (sys E w2 u) = kernel E (trace w) u" by (simp_all add: sys_trace tr2 w3_def)
  let ?out = "\<lparr>shouldTransfer = False, isFirstLook = False, isPendingHardlink = False\<rparr>"
  have r1': "\<not> (ret (kernel E (trace w) u) < 0 \<and> errno (kernel E (trace w) u) \<noteq> ENOENT)" using r1 by auto
  show thesis
  proof (cases "ret (kernel E (trace w @ [u]) l) < 0")
    case True
    have "link_to_root E w2 a root q = Some (True, False, q, w3)"
      using True by (simp only: link_to_root_def case_prod_beta Let_def u [symmetric] calls r1' if_False if_True fst_conv snd_conv)
    then have "known_root E ?w0 a orig q = Some (True, False, ?out, w3)"
      using h a(1) root(2) w1(1) w2(1) by (simp add: known_root_def lock_hinfo_eq [OF h1 h(2)])
    then have r: "hlinkStateRegisterLinkRoot E a orig w = Some (?out, w3)"
      using a rd s0(1) by (subst hlinkStateRegisterLinkRoot.simps) simp
    show thesis
      by (rule that [OF r _ ok3]) (use True s0 cache h3 in \<open>simp_all add: w3_def txn_ready_def hl2\<close>)
  next
    case False
    obtain w4 where w4: "update_hinfo q (\<lambda>h. h\<lparr>hl_nlinkRC := dec64 (hl_nlinkRC h)\<rparr>) w3 = Some w4" "owned w4 ext dext" "quiet w3 w4"
      "hinfos (wstore w4) = (hinfos (wstore w3))(q \<mapsto> ?h\<lparr>hl_nlinkRC := dec64 (hl_nlinkRC ?h)\<rparr>)"
      by (rule update_hinfo_ok [OF ok3 h3, of "\<lambda>h. h\<lparr>hl_nlinkRC := dec64 (hl_nlinkRC h)\<rparr>"])
    have "dec64 (hl_nlinkRC h) = hl_nlinkRC h - 1" by (rule dec64_pos [OF n])
    then have e4: "?h\<lparr>hl_nlinkRC := dec64 (hl_nlinkRC ?h)\<rparr> = h\<lparr>hl_nlinkRC := hl_nlinkRC h - 1, hl_locked := True\<rparr>" by (cases h) simp
    have h4: "hinfos (wstore w4) q = Some (h\<lparr>hl_nlinkRC := hl_nlinkRC h - 1, hl_locked := True\<rparr>)" by (simp only: w4(4) e4 fun_upd_same)
    obtain w5 where w5: "update_hinfo q (\<lambda>h. h\<lparr>hl_locked := False\<rparr>) w4 = Some w5" "owned w5 ext dext" "quiet w4 w5"
      "hinfos (wstore w5) = (hinfos (wstore w4))(q \<mapsto> (h\<lparr>hl_nlinkRC := hl_nlinkRC h - 1, hl_locked := True\<rparr>)\<lparr>hl_locked := False\<rparr>)"
      by (rule update_hinfo_ok [OF w4(2) h4, of "\<lambda>h. h\<lparr>hl_locked := False\<rparr>"])
    have e5: "(h\<lparr>hl_nlinkRC := hl_nlinkRC h - 1, hl_locked := True\<rparr>)\<lparr>hl_locked := False\<rparr> = h\<lparr>hl_nlinkRC := hl_nlinkRC h - 1\<rparr>"
      using h(2) by (cases h) simp
    have q0: "q \<noteq> NULL"
      using hinfos_SomeD [OF h(1)] store_okD(3) [OF strings_okD(1) [OF ownedD(1) [OF ok]]] by (metis option.distinct(1))
    have nz: "hl_nlinkRC ?h \<noteq> 0" using n(1) by simp
    have "link_to_root E w2 a root q = Some (False, False, q, w4)"
      using False by (simp only: link_to_root_def case_prod_beta Let_def u [symmetric] calls r1' if_False if_True fst_conv snd_conv
          h3 w4(1) nz Option.bind.simps)
    then have "known_root E ?w0 a orig q = Some (False, False, ?out, w5)"
      using h a(1) root(2) w1(1) w2(1) w5(1) q0
      by (simp add: known_root_def lock_hinfo_eq [OF h1 h(2)] isNullRef_def unlock_hinfo_eq)
    then have r: "hlinkStateRegisterLinkRoot E a orig w = Some (?out, rw_unlock w5)"
      using a rd s0(1) dst_state_absent [OF a(1), of E w5] by (subst hlinkStateRegisterLinkRoot.simps) simp
    have q35: "quiet w3 w5" by (rule quiet_trans [OF w4(3) w5(3)])
    show thesis
      by (rule that [OF r])
        (use False s0 cache h(2) w5(2) quietD(1,3) [OF q35] in
          \<open>simp_all add: rw_unlock_def on_hlink_def w3_def txn_ready_def hl2 root_entry_def w5(4) e5\<close>)
  qed
qed

text \<open>A transfer of the file that comes after that never ends.\<close>

lemma handle_transfer_stuck:
  assumes "rwlock (hlink w) = Rdlocked n" "tid E \<in> set (rdTxns (hlink w))" "cache_of (hlink w) FORWARD src = Some q"
    "hinfos (wstore w) q = Some h" "hl_locked h"
  shows "hlinkStateHandleTransfer E root src dest fd w = None"
proof -
  let ?w0 = "w\<lparr>hlink := (hlink w)\<lparr>rwlock := Rdlocked (n + 1)\<rparr>\<rparr>"
  have en: "enter E w = Some (RdTxn (tid E), ?w0)"
    using assms(1,2) by (simp add: enter_def rd_lock_def on_hlink_def getRDOnlyTxn_def)
  have rd: "w_read E ?w0 (RdTxn (tid E)) FORWARD src = Some (Some q)" by (rule read_cached) (simp add: assms(3))
  have "lock_hinfo q ?w0 = None" using assms(4,5) by (simp add: lock_hinfo_def)
  then show ?thesis using en rd by (simp add: hlinkStateHandleTransfer_def)
qed

end
