(* ===== verification/Hlink_Names.thy ===== *)
theory Hlink_Names
  imports Hlink_Register
begin

text \<open>
  The names of one file together: the first one is registered, the others one after the other, and
  then the first one is transferred.
\<close>

text \<open>Registering several names; each comes with whether its directory entry asks for a transfer.\<close>

fun register_names :: "'db program \<Rightarrow> (register_args \<times> bool) list \<Rightarrow> 'db world \<Rightarrow> (register_out list \<times> 'db world) option" where
  "register_names E [] w = Some ([], w)"
| "register_names E ((a, orig) # as) w = do {
     (out, w) \<leftarrow> hlinkStateRegisterLinkRoot E a orig w;
     (outs, w) \<leftarrow> register_names E as w;
     Some (out # outs, w) }"

abbreviation pending :: register_out where
  "pending \<equiv> \<lparr>shouldTransfer = False, isFirstLook = False, isPendingHardlink = True\<rparr>"

text \<open>A name of the file that does not exist at the destination.\<close>

definition new_name :: "'db world \<Rightarrow> nat \<Rightarrow> addr multiset \<Rightarrow> addr multiset \<Rightarrow> register_args \<Rightarrow> bool" where
  "new_name w src ext dext a \<longleftrightarrow> ra_remoteRef a \<in># ext \<and> ra_dstFDRef a \<in># dext \<and> \<not> ra_destExists a \<and> ra_srcInode a = src
     \<and> spells (strings (wstore w)) (ra_remoteRef a) (ra_remote a) \<and> c_name (ra_remote a)"

lemma new_name_mono:
  assumes "new_name w src ext dext a" "\<And>q s. spells (strings (wstore w)) q s \<Longrightarrow> spells (strings (wstore w')) q s"
    "ext \<subseteq># ext'" "dext \<subseteq># dext'"
  shows "new_name w' src ext' dext' a"
  using assms(1,2) mset_subset_eqD [OF assms(3)] mset_subset_eqD [OF assms(4)] by (simp add: new_name_def)

lemma register_names_ok:
  assumes "root_entry w src q h" "\<not> transferred h" "waiting w h xs ss"
    "owned w (ext + entry_names xs) (dext + entry_dirs xs)"
    "spells (strings (wstore w)) (hl_remote h) root" "c_name root" "length root < k" "buf_ready w Register_linkRoot k"
    "\<And>a. a \<in> fst ` set as \<Longrightarrow> new_name w src ext dext a"
    "roomy w (ext + entry_names xs) (length as)" "size (dext + entry_dirs xs + q_dirs (queued w)) + length as < 2 ^ 64"
    "serves (tid E) (wstore w) (map (\<lambda>_. sizeof_LinkEntry) as)" "txn_ready E w"
  shows "\<exists>w' h' xs'. register_names E as w = Some (map (\<lambda>_. pending) as, w')
    \<and> root_entry w' src q h' \<and> h' = h\<lparr>hl_links := hl_links h'\<rparr> \<and> waiting w' h' xs' (rev (map (\<lambda>(a, _). ra_remote a) as) @ ss)
    \<and> owned w' (ext + entry_names xs') (dext + entry_dirs xs') \<and> trace w' = trace w \<and> load w' = load w \<and> queued w' = queued w
    \<and> length xs' = length xs + length as \<and> fst ` set xs \<subseteq> fst ` set xs'
    \<and> (\<forall>p. p \<notin> fst ` set xs' \<longrightarrow> links (wstore w') p = links (wstore w) p)
    \<and> (\<forall>p \<in> fst ` set xs' - fst ` set xs. links (wstore w) p = None)
    \<and> txn_ready E w' \<and> (\<forall>b k. buf_ready w b k \<longrightarrow> buf_ready w' b k)
    \<and> (\<forall>q s. spells (strings (wstore w)) q s \<longrightarrow> spells (strings (wstore w')) q s)"
  using assms
proof (induction as arbitrary: w h xs ss)
  case Nil
  have "h = h\<lparr>hl_links := hl_links h\<rparr>" by (cases h) simp
  with Nil show ?case by (intro exI [of _ w] exI [of _ h] exI [of _ xs] conjI) simp_all
next
  case (Cons x as)
  obtain a orig where x: "x = (a, orig)" by fastforce
  have a: "new_name w src ext dext a" using Cons.prems(9) by (simp add: x)
  have a': "ra_remoteRef a \<in># ext + entry_names xs" "ra_dstFDRef a \<in># dext + entry_dirs xs" "\<not> ra_destExists a"
    "ra_srcInode a = src" "spells (strings (wstore w)) (ra_remoteRef a) (ra_remote a)" "c_name (ra_remote a)"
    using a by (simp_all add: new_name_def)
  have room: "roomy w (ext + entry_names xs) 0" "size (dext + entry_dirs xs + q_dirs (queued w)) + 1 < 2 ^ 64"
    using Cons.prems(10,11) by (simp_all add: roomy_def)
  have mem: "fst (store_alloc (tid E) (wstore w) sizeof_LinkEntry) \<noteq> NULL"
    and rest: "serves (tid E) (snd (store_alloc (tid E) (wstore w) sizeof_LinkEntry)) (map (\<lambda>_. sizeof_LinkEntry) as)"
    using Cons.prems(12) by simp_all
  obtain w1 p e where s: "hlinkStateRegisterLinkRoot E a orig w = Some (pending, w1)"
    "root_entry w1 src q (h\<lparr>hl_links := p\<rparr>)" "waiting w1 (h\<lparr>hl_links := p\<rparr>) ((p, e) # xs) (ra_remote a # ss)"
    "entry_link e = ra_remoteRef a" "entry_dstFD e = ra_dstFDRef a" "trace w1 = trace w" "load w1 = load w"
    "owned w1 (add_mset (ra_remoteRef a) (ext + entry_names xs)) (add_mset (ra_dstFDRef a) (dext + entry_dirs xs))" "txn_ready E w1"
    "queued w1 = queued w" "links (wstore w1) = (links (wstore w))(p \<mapsto> e)" "links (wstore w) p = None"
    "\<And>b k. buf_ready w b k \<Longrightarrow> buf_ready w1 b k" "\<And>q s. spells (strings (wstore w)) q s \<Longrightarrow> spells (strings (wstore w1)) q s"
    "same_heap (snd (store_alloc (tid E) (wstore w) sizeof_LinkEntry)) (wstore w1)"
    by (rule register_waiting_ok [OF Cons.prems(1-8) a' room mem Cons.prems(13)]) blast
  let ?h = "h\<lparr>hl_links := p\<rparr>" and ?xs = "(p, e) # xs"
  have en: "ext + entry_names ?xs = add_mset (ra_remoteRef a) (ext + entry_names xs)"
    "dext + entry_dirs ?xs = add_mset (ra_dstFDRef a) (dext + entry_dirs xs)"
    using s(4,5) by (simp_all add: entry_names_def entry_dirs_def)
  have names: "new_name w1 src ext dext b" if "b \<in> fst ` set as" for b
    using new_name_mono [OF Cons.prems(9) s(14) subset_mset.order_refl subset_mset.order_refl, of b] that by (simp add: x)
  have room1: "roomy w1 (ext + entry_names ?xs) (length as)" using Cons.prems(10) unfolding en by (simp add: roomy_load s(7))
  have room2: "size (dext + entry_dirs ?xs + q_dirs (queued w1)) + length as < 2 ^ 64"
    using Cons.prems(11) unfolding en by (simp add: s(10))
  have tr: "\<not> transferred ?h" and re: "hl_remote ?h = hl_remote h" using Cons.prems(2) by simp_all
  have sv: "serves (tid E) (wstore w1) (map (\<lambda>_. sizeof_LinkEntry) as)" by (rule serves_same [OF rest s(15)])
  note ih = Cons.IH [OF s(2) tr s(3) s(8) [folded en] _ Cons.prems(6,7) s(13) [OF Cons.prems(8)] names room1 room2 sv s(9)]
  obtain w' h' xs' where w': "register_names E as w1 = Some (map (\<lambda>_. pending) as, w')"
    "root_entry w' src q h'" "h' = ?h\<lparr>hl_links := hl_links h'\<rparr>" "waiting w' h' xs' (rev (map (\<lambda>(a, _). ra_remote a) as) @ ra_remote a # ss)"
    "owned w' (ext + entry_names xs') (dext + entry_dirs xs')" "trace w' = trace w1" "load w' = load w1" "queued w' = queued w1"
    "length xs' = length ?xs + length as" "fst ` set ?xs \<subseteq> fst ` set xs'"
    "\<forall>p. p \<notin> fst ` set xs' \<longrightarrow> links (wstore w') p = links (wstore w1) p"
    "\<forall>p \<in> fst ` set xs' - fst ` set ?xs. links (wstore w1) p = None"
    "txn_ready E w'" "\<forall>b k. buf_ready w1 b k \<longrightarrow> buf_ready w' b k"
    "\<forall>q s. spells (strings (wstore w1)) q s \<longrightarrow> spells (strings (wstore w')) q s"
    by (rule exE [OF ih [unfolded re, OF s(14) [OF Cons.prems(5)]]], assumption) (elim exE conjE, rule that; assumption)
  have "register_names E (x # as) w = Some (map (\<lambda>_. pending) (x # as), w')" by (simp add: x s(1) w'(1))
  moreover have "h' = h\<lparr>hl_links := hl_links h'\<rparr>"
    by (subst w'(3)) simp
  moreover have "links (wstore w') r = links (wstore w) r" if "r \<notin> fst ` set xs'" for r
  proof -
    have "r \<noteq> p" using that w'(10) by auto
    then show ?thesis using w'(11) that by (simp add: s(11))
  qed
  moreover have "links (wstore w) r = None" if "r \<in> fst ` set xs' - fst ` set xs" for r
    using w'(12) that s(12) by (cases "r = p") (auto simp: s(11))
  ultimately show ?case
    using w'(2,4-10,13-15) s(6,7,10,13,14)
    by (intro exI [of _ w'] exI [of _ h'] exI [of _ xs']) (simp add: x)
qed


section \<open>From the first look to the transfer\<close>

text \<open>
  The first name, the others, and the transfer of the first one: what the tables have to be like for it
  when the write lock is taken. The file is still not known, and its entry will stay in the cache; or
  another thread has registered it in the meantime, and its root, whose entry is in the cache, has names
  waiting for it but is not transferred.
\<close>

definition fresh_file :: "'db program \<Rightarrow> 'db world \<Rightarrow> nat \<Rightarrow> bool" where
  "fresh_file E w src \<longleftrightarrow> tid E \<in> set (rdTxns (hlink w))
     \<and> w_read E w (RdTxn (tid E)) FORWARD src = Some None
     \<and> (\<forall>p. length (iter (db E) ((cache_of (hlink w) FORWARD)(src \<mapsto> p))) < maxTableCacheSize (hlink w))"

definition root_waits :: "'db program \<Rightarrow> 'db world \<Rightarrow> nat \<Rightarrow> nat \<Rightarrow> addr \<Rightarrow> hlink_info \<Rightarrow> (addr \<times> link_entry) list \<Rightarrow> string list \<Rightarrow> bool" where
  "root_waits E w src k q h xs ss \<longleftrightarrow> root_entry w src q h \<and> \<not> transferred h \<and> waiting w h xs ss \<and> txn_ready E w
     \<and> (\<exists>root. spells (strings (wstore w)) (hl_remote h) root \<and> c_name root \<and> length root < k)"

definition name_sizes :: "(register_args \<times> bool) list \<Rightarrow> nat list" where
  "name_sizes as = map (\<lambda>_. sizeof_LinkEntry) as"

lemma hardlinks_ok:
  assumes new: "looks_new E w0 src w" and fresh: "fresh_file E w src" and ok: "owned w ext dext"
    and a0: "new_name w src ext dext a0" "1 < ra_srcNLinks a0" "ra_srcNLinks a0 < 2 ^ 64"
    and as: "\<And>a. a \<in> fst ` set as \<Longrightarrow> new_name w src ext dext a"
    and len: "length (ra_remote a0) < k" "\<And>a. a \<in> fst ` set as \<Longrightarrow> length (ra_remote a) < k"
      "buf_ready w Register_linkRoot k" "buf_ready w Transfer_linkRoot k"
    and room: "roomy w ext (length as + 1)" "size (dext + q_dirs (queued w)) + length as < 2 ^ 64"
    and mem: "serves (tid E) (wstore w) (sizeof_HLinkInfo # name_sizes as)"
  obtains w1 w2 w3 q where
    "hlinkStateRegisterLinkRoot E a0 orig w0 = Some (\<lparr>shouldTransfer = orig, isFirstLook = True, isPendingHardlink = False\<rparr>, w1)"
    "register_names E as w1 = Some (map (\<lambda>_. pending) as, w2)" "trace w2 = trace w"
    "hlinkStateHandleTransfer E (ra_remote a0) src dest fd w2 = Some (length as, w3)" "extends w w3"
    "new_calls w w3 = link_calls fd (ra_remote a0) (rev (map (\<lambda>(a, _). ra_remote a) as))"
    "owned w3 (add_mset (ra_remoteRef a0) ext) dext" "links (wstore w3) = links (wstore w)"
    "rwlock (hlink w3) = Unlocked" "cache_of (hlink w3) FORWARD src = Some q"
    "map_option (\<lambda>h. (transferred h, destInode h, hl_nlinkRC h, hl_locked h)) (hinfos (wstore w3) q)
      = Some (True, dest, ra_srcNLinks a0 - 1, False)"
proof -
  let ?ext = "add_mset (ra_remoteRef a0) ext"
  have f: "tid E \<in> set (rdTxns (hlink w))"
    "w_read E w (RdTxn (tid E)) FORWARD src = Some None"
    "\<And>p. length (iter (db E) ((cache_of (hlink w) FORWARD)(src \<mapsto> p))) < maxTableCacheSize (hlink w)"
    using fresh by (simp_all add: fresh_file_def)
  have n0: "ra_remoteRef a0 \<in># ext" "\<not> ra_destExists a0" "ra_srcInode a0 = src" "c_name (ra_remote a0)"
    "spells (strings (wstore w)) (ra_remoteRef a0) (ra_remote a0)" using a0(1) by (simp_all add: new_name_def)
  have mem0: "fst (store_alloc (tid E) (wstore w) sizeof_HLinkInfo) \<noteq> NULL"
    and rest: "serves (tid E) (snd (store_alloc (tid E) (wstore w) sizeof_HLinkInfo)) (name_sizes as)" using mem by simp_all
  have room0: "roomy w ext 0" using room(1) by (simp add: roomy_def)
  let ?h = "\<lparr>transferred = False, destInode = ra_destInode a0, hl_remote = ra_remoteRef a0, hl_links = NULL,
        hl_nlinkRC = ra_srcNLinks a0, hl_locked = False\<rparr>"
  obtain w1 q where s1: "hlinkStateRegisterLinkRoot E a0 orig w0
      = Some (\<lparr>shouldTransfer = orig, isFirstLook = True, isPendingHardlink = False\<rparr>, w1)"
    "root_entry w1 src q ?h" "owned w1 ?ext dext" "trace w1 = trace w" "load w1 = load w" "links (wstore w1) = links (wstore w)"
    "txn_ready E w1" "queued w1 = queued w" "\<And>b k. buf_ready w b k \<Longrightarrow> buf_ready w1 b k"
    "\<And>q s. spells (strings (wstore w)) q s \<Longrightarrow> spells (strings (wstore w1)) q s"
    "same_heap (snd (store_alloc (tid E) (wstore w) sizeof_HLinkInfo)) (wstore w1)"
    by (rule register_first_ok [OF new f(1) n0(1,2,3) f(2,3) ok room0 mem0, of orig]) blast
  have wait: "waiting w1 ?h [] []" by (simp add: waiting_def named_def)
  have own1: "owned w1 (?ext + entry_names []) (dext + entry_dirs [])" using s1(3) by (simp add: entry_names_def entry_dirs_def)
  have sp: "spells (strings (wstore w1)) (hl_remote ?h) (ra_remote a0)" using s1(10) [OF n0(5)] by simp
  have names: "new_name w1 src ?ext dext a" if "a \<in> fst ` set as" for a
    by (rule new_name_mono [OF as [OF that] s1(10)]) simp_all
  have room1: "roomy w1 (?ext + entry_names []) (length as)" using room(1) by (simp add: roomy_load s1(5) entry_names_def)
  have room2: "size (dext + entry_dirs [] + q_dirs (queued w1)) + length as < 2 ^ 64"
    using room(2) by (simp add: s1(8) entry_dirs_def)
  have nt: "\<not> transferred ?h" by simp
  have sv: "serves (tid E) (wstore w1) (map (\<lambda>_. sizeof_LinkEntry) as)"
    using serves_same [OF rest s1(11)] by (simp add: name_sizes_def)
  from register_names_ok [OF s1(2) nt wait own1 sp n0(4) len(1) s1(9) [OF len(3)] names room1 room2 sv s1(7)]
  obtain w2 h2 xs where s2: "register_names E as w1 = Some (map (\<lambda>_. pending) as, w2)" "root_entry w2 src q h2"
    "h2 = ?h\<lparr>hl_links := hl_links h2\<rparr>" "waiting w2 h2 xs (rev (map (\<lambda>(a, _). ra_remote a) as) @ [])"
    "owned w2 (?ext + entry_names xs) (dext + entry_dirs xs)" "trace w2 = trace w1" "load w2 = load w1"
    "length xs = length as" "\<forall>p. p \<notin> fst ` set xs \<longrightarrow> links (wstore w2) p = links (wstore w1) p"
    "\<forall>p \<in> fst ` set xs. links (wstore w1) p = None" "txn_ready E w2" "\<forall>b k. buf_ready w1 b k \<longrightarrow> buf_ready w2 b k" by auto
  have rc: "hl_nlinkRC h2 = ra_srcNLinks a0" by (subst s2(3)) simp
  have room3: "roomy w2 (?ext + entry_names xs) 0"
    using room(1) s2(8) by (simp add: roomy_load s2(7) s1(5) entry_names_def)
  have buf: "buf_ready w2 Transfer_linkRoot k" using s2(12) s1(9) [OF len(4)] by blast
  let ?ss = "rev (map (\<lambda>(a, _). ra_remote a) as)"
  have ls: "\<forall>s \<in> set ?ss. length s < k" using len(2) by force
  have n: "1 < hl_nlinkRC h2" "hl_nlinkRC h2 < 2 ^ 64" "length xs < 2 ^ 64" using a0(2,3) rc room(2) s2(8) by simp_all
  obtain w3 where s3: "hlinkStateHandleTransfer E (ra_remote a0) src dest fd w2 = Some (length xs, w3)"
    "root_entry w3 src q (h2\<lparr>transferred := True, destInode := dest, hl_nlinkRC := hl_nlinkRC h2 - 1\<rparr>)"
    "owned w3 ?ext dext" "extends w2 w3" "new_calls w2 w3 = link_calls fd (ra_remote a0) ?ss"
    "links (wstore w3) = (\<lambda>p. if p \<in> fst ` set xs then None else links (wstore w2) p)"
    by (rule handle_transfer_ok [OF s2(2) s2(4) [simplified] s2(5) room3 buf ls n s2(11)]) blast
  have lk: "links (wstore w3) = links (wstore w)"
    using s2(9,10) by (auto simp: s3(6) s1(6) fun_eq_iff)
  have tr: "trace w2 = trace w" by (simp add: s2(6) s1(4))
  have ul: "hl_locked h2 = False" by (subst s2(3)) simp
  have h3: "hinfos (wstore w3) q = Some (h2\<lparr>transferred := True, destInode := dest, hl_nlinkRC := hl_nlinkRC h2 - 1\<rparr>)"
    using s3(2) by (simp add: root_entry_def)
  show thesis
    by (rule that [of w1 w2 w3 q, OF s1(1) s2(1) tr s3(1) [unfolded s2(8)] _ _ s3(3) lk])
      (use s3(2,4,5) in \<open>simp_all add: root_entry_def extends_def new_calls_def tr h3 rc ul\<close>)
qed

text \<open>The name of a file that another thread has registered in the meantime waits as well.\<close>

lemma reroll_ok:
  assumes new: "looks_new E w src v" and root: "root_waits E v src k q h xs ss" and ok: "owned v ext dext"
    and a: "new_name v src ext dext a" "buf_ready v Register_linkRoot k"
    and room: "roomy v ext 0" "size (dext + q_dirs (queued v)) + 1 < 2 ^ 64"
    and mem: "fst (store_alloc (tid E) (wstore v) sizeof_LinkEntry) \<noteq> NULL"
  shows "\<exists>w' p e. hlinkStateRegisterLinkRoot E a orig w = Some (pending, w') \<and> trace w' = trace v
    \<and> root_waits E w' src k q (h\<lparr>hl_links := p\<rparr>) ((p, e) # xs) (ra_remote a # ss) \<and> entry_link e = ra_remoteRef a
    \<and> owned w' (add_mset (ra_remoteRef a) ext) (add_mset (ra_dstFDRef a) dext)"
proof -
  obtain root where r: "root_entry v src q h" "\<not> transferred h" "waiting v h xs ss" "txn_ready E v"
    "spells (strings (wstore v)) (hl_remote h) root" "c_name root" "length root < k"
    using root by (auto simp: root_waits_def)
  have n: "ra_remoteRef a \<in># ext" "ra_dstFDRef a \<in># dext" "\<not> ra_destExists a" "ra_srcInode a = src"
    "spells (strings (wstore v)) (ra_remoteRef a) (ra_remote a)" "c_name (ra_remote a)"
    using a(1) by (simp_all add: new_name_def)
  have q: "cache_of (hlink v) FORWARD src = Some q" using r(1) by (simp add: root_entry_def)
  obtain w' p e where w': "hlinkStateRegisterLinkRoot E a orig v = Some (pending, w')" "root_entry w' src q (h\<lparr>hl_links := p\<rparr>)"
    "waiting w' (h\<lparr>hl_links := p\<rparr>) ((p, e) # xs) (ra_remote a # ss)" "entry_link e = ra_remoteRef a" "trace w' = trace v"
    "owned w' (add_mset (ra_remoteRef a) ext) (add_mset (ra_dstFDRef a) dext)" "txn_ready E w'"
    "spells (strings (wstore w')) (hl_remote h) root"
    by (rule register_waiting_ok [OF r(1-3) ok r(5-7) a(2) n room mem r(4), of orig]) (use r(5) in blast)
  have "root_waits E w' src k q (h\<lparr>hl_links := p\<rparr>) ((p, e) # xs) (ra_remote a # ss)"
    using w'(2,3,7,8) r(2,6,7) by (auto simp: root_waits_def)
  then show ?thesis using w'(1,4-6) register_reroll [OF new n(3,4) q, of orig] by auto
qed

end
