(* ===== verification/Pages.thy ===== *)
theory Pages
  imports Store_Properties
begin

text \<open>
  A larger arena for the instances: sixteen slots of 512 bytes, which serve sixteen requests.
\<close>

definition page_arena :: buddy where
  "page_arena = the (the (buddy_init_alignment [] 4096 65536 8192 512))"

lemma page_args: "init_args 4096 65536 8192 9"
  by (simp add: init_args_def max_order_def)

text \<open>An arena of this kind in which \<open>n\<close> slots are taken.\<close>

definition pages :: "nat \<Rightarrow> buddy \<Rightarrow> bool" where
  "pages n b \<longleftrightarrow> arena_inv b \<and> memory_size b = 8192 \<and> alignment b = 512 \<and> buddy_main b = 65536
     \<and> (\<forall>q \<in> live b. snd q = 512) \<and> card (live b) = n"

lemma page_arena: "pages 0 page_arena" "live page_arena = {}"
  using init_arena [OF page_args, of "[]"] by (auto simp: page_arena_def pages_def)

lemma pages_finite: "pages n b \<Longrightarrow> finite (live b)"
proof (rule finite_subset)
  assume b: "pages n b"
  show "live b \<subseteq> {..8192} \<times> {512}"
  proof
    fix q
    assume "q \<in> live b"
    with b live_in_arena(1) [of b "fst q" "snd q"] show "q \<in> {..8192} \<times> {512}"
      by (cases q) (fastforce simp: pages_def)
  qed
qed simp

lemma page_slot: "pages n b \<Longrightarrow> 0 < r \<Longrightarrow> r \<le> 512 \<Longrightarrow> slot_log b r = 9"
  using bit_len_power [of 9] ceiling_power_of_two_power [of 9] by (simp add: pages_def slot_log_def max_def)

lemma page_free:
  assumes b: "pages n b" and n: "n < 16"
  shows "room_for b 9"
proof -
  have "\<not> (\<lambda>i. (i * 512, 512)) ` {..<16} \<subseteq> live b"
  proof
    assume "(\<lambda>i. (i * 512, 512)) ` {..<16} \<subseteq> live b"
    from card_mono [OF pages_finite [OF b] this] show False
      using b n by (simp add: card_image inj_on_def pages_def)
  qed
  then obtain i where i: "i < 16" "(i * 512, 512) \<notin> live b" by blast
  have "extent q \<inter> {i * 512..<i * 512 + 2 ^ 9} = {}" if q: "q \<in> live b" for q
  proof -
    obtain x where x: "q = (x, 512)" using b q by (cases q) (auto simp: pages_def)
    then have "x mod 512 = 0" using live_in_arena(4) [of b x 512] b q by (auto simp: pages_def)
    then obtain j where j: "x = 512 * j" by (metis mod_0_imp_dvd dvdE)
    then have "i \<noteq> j" using i(2) q x by (auto simp: mult.commute)
    then show ?thesis unfolding x j extent_def by auto
  qed
  then show ?thesis
    using i(1) b unfolding room_for_def by (intro exI [of _ "i * 512"]) (auto simp: pages_def)
qed

lemma page_malloc:
  assumes b: "pages n b" "n < 16" and r: "0 < r" "r \<le> 512"
  obtains x d where "malloc_arena b r = (65536 + x, d)" "pages (Suc n) d" "live d = insert (x, 512) (live b)" "(x, 512) \<notin> live b"
proof -
  have s: "slot_log b r = 9" "slot_log b (max 1 r) = 9" using page_slot [OF b(1)] r by (simp_all add: max_def)
  then have "\<not> malloc_fails b (max 1 r)" using page_free [OF b] b(1) r by (simp add: malloc_fails_def pages_def)
  then obtain p d where d: "malloc_arena b r = (p, d)" "arena_inv d" "same_arena b d" "block_taken b (max 1 r) p d"
    using malloc_arena_spec [of b r] b(1) by (auto simp: pages_def)
  then obtain x where x: "p = 65536 + x" "live d = insert (x, 512) (live b)" "(x, 512) \<notin> live b"
    using b(1) s(2) by (auto simp: block_taken_def pages_def)
  have "pages (Suc n) d"
    using b(1) d(2) x(2,3) same_arenaD [OF d(3)] pages_finite [OF b(1)] by (simp add: pages_def)
  then show thesis using that d(1) x by simp
qed

section \<open>Stores\<close>

definition page_heap :: "buddy \<Rightarrow> allocator" where
  "page_heap b = small_heap\<lparr>memAlloc := Some b\<rparr>"

lemma page_heap:
  assumes "pages n b"
  shows "alloc_inv (page_heap b)" "alloc_blocks (page_heap b) = (\<lambda>q. (65536 + fst q, 512)) ` live b"
proof -
  have a: "arena_of (page_heap b) k = Some d \<longleftrightarrow> k = Mem \<and> d = b" for k d
    by (cases k) (auto simp: page_heap_def small_heap_def)
  then show "alloc_inv (page_heap b)"
    using assms by (simp add: alloc_inv_def pages_def) (simp add: page_heap_def small_heap_def)
  have "alloc_blocks (page_heap b) = block_addresses b" by (auto simp: alloc_blocks_iff a)
  also have "\<dots> = (\<lambda>q. (65536 + fst q, 512)) ` live b"
    unfolding block_addresses_def using assms by (intro image_cong) (auto simp: pages_def add.commute)
  finally show "alloc_blocks (page_heap b) = (\<lambda>q. (65536 + fst q, 512)) ` live b" .
qed

lemma page_store_alloc:
  assumes b: "pages n b" "n < 16" and st: "heap st = page_heap b" and r: "0 < r" "r \<le> 512"
  obtains p d st' where "store_alloc t st r = (p, st')" "p \<noteq> NULL" "heap st' = page_heap d" "pages (Suc n) d"
    "alloc_blocks (page_heap d) = insert (p, 512) (alloc_blocks (page_heap b))" "(p, 512) \<notin> alloc_blocks (page_heap b)"
proof -
  obtain x d where x: "malloc_arena b r = (65536 + x, d)" "pages (Suc n) d" "live d = insert (x, 512) (live b)" "(x, 512) \<notin> live b"
    by (rule page_malloc [OF b r])
  have "(1 * r) mod 2 ^ 64 = r" "1 \<noteq> 0 \<longrightarrow> r div 1 = r" using r by simp_all
  then obtain m where m: "buddy_calloc (Some b) (heap_mem st) 1 r = (65536 + x, Some d, m)"
    using x(1) r by (auto simp: buddy_calloc_def buddy_malloc_def Let_def split: if_splits)
  have "store_alloc t st r = (65536 + x, st\<lparr>heap := page_heap d, heap_mem := m\<rparr>)"
    using m by (simp add: store_alloc_def st page_heap_def AllocatorAllocate_def try_sub_def try_mem_def small_heap_def)
  moreover have "(65536 + x, 512) \<notin> alloc_blocks (page_heap b)"
    using x(4) b(1) unfolding page_heap(2) [OF b(1)] by (auto simp: pages_def)
  ultimately show thesis using that x(2,3) page_heap(2) [OF b(1)] page_heap(2) [OF x(2)] by simp
qed

lemma taken_pages:
  assumes "n \<le> 16"
  shows "\<exists>b ps. pages n b \<and> length ps = n \<and> distinct ps \<and> NULL \<notin> set ps \<and> alloc_blocks (page_heap b) = (\<lambda>p. (p, 512)) ` set ps"
  using assms
proof (induction n)
  case 0
  then show ?case using page_arena page_heap(2) [OF page_arena(1)] by (intro exI [of _ page_arena]) simp
next
  case (Suc n)
  then obtain b ps where b: "pages n b" "length ps = n" "distinct ps" "NULL \<notin> set ps"
    "alloc_blocks (page_heap b) = (\<lambda>p. (p, 512)) ` set ps" by auto
  let ?st = "\<lparr>heap = page_heap b, heap_mem = (\<lambda>_. 0), objects = Map.empty\<rparr>"
  obtain p d st' where p: "store_alloc 0 ?st 512 = (p, st')" "p \<noteq> NULL" "heap st' = page_heap d" "pages (Suc n) d"
    "alloc_blocks (page_heap d) = insert (p, 512) (alloc_blocks (page_heap b))" "(p, 512) \<notin> alloc_blocks (page_heap b)"
    using Suc.prems by (rule_tac page_store_alloc [OF b(1), of ?st 512 0]) simp_all
  then show ?case using b by (intro exI [of _ d] exI [of _ "p # ps"]) auto
qed

end
