(* ===== verification/Hlink_Sample.thy ===== *)
theory Hlink_Sample
  imports Hlink_Names Pages
begin

text \<open>
  A database, a program and a state in which the properties of hard links apply: the name \<open>a\<close> is the
  root of the file with inode 7, which has been transferred; \<open>b\<close>, \<open>c\<close> and \<open>e\<close> are other names, in the
  same directory \<open>d\<close>.
\<close>

section \<open>A database\<close>

definition map_db :: "(dbi \<times> nat \<Rightarrow> addr option) lmdb" where
  "map_db = \<lparr>mdb_get = (\<lambda>m t d k. case m (d, k) of Some v \<Rightarrow> Mdb_ok v | None \<Rightarrow> Mdb_notfound),
     mdb_put = (\<lambda>m d k v. Some (m((d, k) \<mapsto> v))),
     mdb_del = (\<lambda>m d k. (if m (d, k) = None then Mdb_notfound else Mdb_ok (), m((d, k) := None))),
     mdb_txn_commit = (\<lambda>m. (True, m)), mdb_txn_begin = (\<lambda>m t. Some m), mdb_txn_renew = (\<lambda>m t. m),
     mdb_env_create = Some Map.empty, mdb_env_open = (\<lambda>m path size. Some m), mdb_dbi_open = (\<lambda>m d. Some m),
     iter = (\<lambda>m. sorted_list_of_set (dom m))\<rparr>"

text \<open>A database with room for \<open>n\<close> commits: what is found in the transaction, what is durable, and the room left.\<close>

type_synonym entries = "dbi \<times> nat \<Rightarrow> addr option"

definition full_db :: "nat \<Rightarrow> (entries \<times> entries \<times> nat) lmdb" where
  "full_db n = \<lparr>mdb_get = (\<lambda>(m, c, n) t d k. case m (d, k) of Some v \<Rightarrow> Mdb_ok v | None \<Rightarrow> Mdb_notfound),
     mdb_put = (\<lambda>(m, c, n) d k v. Some (m((d, k) \<mapsto> v), c, n)),
     mdb_del = (\<lambda>(m, c, n) d k. (if m (d, k) = None then Mdb_notfound else Mdb_ok (), m((d, k) := None), c, n)),
     mdb_txn_commit = (\<lambda>(m, c, n). if n = 0 then (False, c, c, n) else (True, m, m, n - 1)),
     mdb_txn_begin = (\<lambda>(m, c, n) t. Some (if t = WrTxn then c else m, c, n)), mdb_txn_renew = (\<lambda>m t. m),
     mdb_env_create = Some (Map.empty, Map.empty, n), mdb_env_open = (\<lambda>m path size. Some m), mdb_dbi_open = (\<lambda>m d. Some m),
     iter = (\<lambda>m. sorted_list_of_set (dom m))\<rparr>"

definition full_durable :: "entries \<times> entries \<times> nat \<Rightarrow> view" where
  "full_durable = (\<lambda>(m, c, n) d k. case c (d, k) of Some v \<Rightarrow> Mdb_ok v | None \<Rightarrow> Mdb_notfound)"

lemma full_db: "lmdb_ok (full_db n) full_durable"
  by (auto simp: lmdb_ok_def full_db_def full_durable_def split: option.splits)

section \<open>A store\<close>

lemma flat_parts_ok:
  assumes "finite (dom H)" "NULL \<notin> dom H" "set_mset ext \<subseteq> dom H" "size ext + card (dom H) < 2 ^ 64"
    "\<And>p part. H p = Some part \<Longrightarrow> part_rc part = count ext p \<and> 0 < part_rc part \<and> length (part_data part) = part_len part
      \<and> part_prev part = NULL"
  shows "parts_ok H ext"
proof (rule parts_okI [of _ _ "\<lambda>_. 0"])
  have "continuing H p = {}" if "H p = Some part" for p part
    using that assms(2,5) by (force simp: continuing_def domIff)
  moreover have "p \<in># ext" if "H p = Some part" for p part
    using assms(5) [OF that] by (metis count_greater_zero_iff)
  ultimately show "part_ok H ext p part" if "H p = Some part" for p part
    using assms(5) [OF that] that by (simp add: part_ok_def)
qed (use assms in \<open>auto simp: ranked_def\<close>)

definition sample_part :: "string \<Rightarrow> nat \<Rightarrow> string_part" where
  "sample_part s n = \<lparr>part_rc = n, part_len = length s, part_prev = NULL, part_data = s\<rparr>"

definition sample_dir :: "addr \<Rightarrow> fdrc" where
  "sample_dir path = \<lparr>fdrc_rc = 1, fdrc_fd = 5, fdrc_path = path, fdrc_dst = False, fdrc_srcStx = zero_statx\<rparr>"

definition sample_root :: "addr \<Rightarrow> hlink_info" where
  "sample_root ref = \<lparr>transferred = True, destInode = 9, hl_remote = ref, hl_links = NULL, hl_nlinkRC = 2, hl_locked = False\<rparr>"

definition sample_store :: "buddy \<Rightarrow> addr list \<Rightarrow> store" where
  "sample_store b ps = put_object (ps ! 0) (Part (sample_part ''a'' 2)) (put_object (ps ! 1) (Part (sample_part ''b'' 1))
     (put_object (ps ! 2) (Part (sample_part ''c'' 1)) (put_object (ps ! 3) (Part (sample_part ''d'' 1))
     (put_object (ps ! 4) (Part (sample_part ''e'' 1)) (put_object (ps ! 5) (Fdrc (sample_dir (ps ! 3)))
     (put_object (ps ! 6) (Buf (replicate 64 NUL)) (put_object (ps ! 7) (Buf (replicate 64 NUL))
     (put_object (ps ! 8) (HInfo (sample_root (ps ! 0)))
     \<lparr>heap = page_heap b, heap_mem = (\<lambda>_. 0), objects = Map.empty\<rparr>))))))))"

definition sample_world :: "buddy \<Rightarrow> addr list \<Rightarrow> (dbi \<times> nat \<Rightarrow> addr option) world" where
  "sample_world b ps = \<lparr>wstore = sample_store b ps, trace = [], fdSem = 0,
     hlink = \<lparr>rwlock = Unlocked, env = Map.empty, maxTableCacheSize = 10,
       forwardTableCache = [7 \<mapsto> ps ! 8], revTableCache = Map.empty, rdTxns = [0]\<rparr>,
     bufs = [Register_linkRoot \<mapsto> (ps ! 6, 64), Transfer_linkRoot \<mapsto> (ps ! 7, 64)],
     jobQ = [], finishQ = [], n_finished = 0, n_seen = 0, n_removed = 0, n_dirs = 0, bytes_seen = 0, bytes_will = 0,
     bytes_done = 0, bytes_actually = 0\<rparr>"

definition sample_program :: "int \<Rightarrow> (dbi \<times> nat \<Rightarrow> addr option) program" where
  "sample_program r = \<lparr>tid = 0, kernel = (\<lambda>_ c. \<lparr>ret = (case c of Linkat _ _ _ _ \<Rightarrow> r | _ \<Rightarrow> 0), errno = 5, out_stx = zero_statx, out_str = [], out_type = DT_OTHER\<rparr>),
     db = map_db, opts = \<lparr>minBlockSize = 4096, maxBlockSize = 65536, preserveAtime = False, sync = False\<rparr>,
     src_root = 3, dst_root = 4, hash64 = (\<lambda>_. 0), task_order = (\<lambda>n. [0..<n]), other_threads = (\<lambda>w. w)\<rparr>"

definition sample_args :: "nat \<Rightarrow> string \<Rightarrow> addr \<Rightarrow> addr \<Rightarrow> register_args" where
  "sample_args inode s ref dir = \<lparr>ra_remote = s, ra_remoteRef = ref, ra_srcInode = inode, ra_destInode = 0, ra_destExists = False,
     ra_srcNLinks = 3, ra_destNLinks = 0, ra_destRootFD = 4, ra_dstFDRef = dir\<rparr>"

section \<open>Its properties\<close>

lemma serves_pages:
  assumes "pages n b" "heap st = page_heap b" "n + length ns \<le> 16" "\<forall>r \<in> set ns. 0 < r \<and> r \<le> 512"
  shows "serves t st ns"
  using assms
proof (induction ns arbitrary: n b st)
  case (Cons r ns)
  from Cons.prems have n: "n < 16" and r: "0 < r" "r \<le> 512" by auto
  from page_store_alloc [OF Cons.prems(1) n Cons.prems(2) r, of t]
  obtain p d st' where p: "store_alloc t st r = (p, st')" "p \<noteq> NULL" "heap st' = page_heap d" "pages (Suc n) d" by metis
  then show ?case using Cons.IH [OF p(4,3)] Cons.prems(3,4) by simp
qed simp

definition sample_pages :: "buddy \<Rightarrow> addr list \<Rightarrow> bool" where
  "sample_pages b ps \<longleftrightarrow> pages 9 b \<and> length ps = 9 \<and> distinct ps \<and> NULL \<notin> set ps
     \<and> alloc_blocks (page_heap b) = (\<lambda>p. (p, 512)) ` set ps"

lemma sample_pages_ex: "\<exists>b ps. sample_pages b ps"
  using taken_pages [of 9] by (auto simp: sample_pages_def)

lemma sample_strings:
  "strings (sample_store b ps) = (((((Map.empty(ps ! 4 \<mapsto> sample_part ''e'' 1))(ps ! 3 \<mapsto> sample_part ''d'' 1))
     (ps ! 2 \<mapsto> sample_part ''c'' 1))(ps ! 1 \<mapsto> sample_part ''b'' 1))(ps ! 0 \<mapsto> sample_part ''a'' 2))"
proof -
  have "strings \<lparr>heap = page_heap b, heap_mem = (\<lambda>_. 0), objects = Map.empty\<rparr> = Map.empty"
    by (simp add: strings_def fun_eq_iff)
  then show ?thesis by (simp add: sample_store_def)
qed

lemma sample_objects:
  "objects (sample_store b ps) = ((((((((Map.empty(ps ! 8 \<mapsto> HInfo (sample_root (ps ! 0))))(ps ! 7 \<mapsto> Buf (replicate 64 NUL)))
     (ps ! 6 \<mapsto> Buf (replicate 64 NUL)))(ps ! 5 \<mapsto> Fdrc (sample_dir (ps ! 3))))(ps ! 4 \<mapsto> Part (sample_part ''e'' 1)))
     (ps ! 3 \<mapsto> Part (sample_part ''d'' 1)))(ps ! 2 \<mapsto> Part (sample_part ''c'' 1)))(ps ! 1 \<mapsto> Part (sample_part ''b'' 1)))
     (ps ! 0 \<mapsto> Part (sample_part ''a'' 2))"
  by (simp add: sample_store_def)

lemma sample_nth:
  assumes "sample_pages b ps"
  shows "i < 9 \<Longrightarrow> j < 9 \<Longrightarrow> ps ! i = ps ! j \<longleftrightarrow> i = j" "i < 9 \<Longrightarrow> ps ! i \<noteq> NULL" "i < 9 \<Longrightarrow> ps ! i \<in> set ps"
proof -
  have "length ps = 9" "distinct ps" "NULL \<notin> set ps" using assms by (simp_all add: sample_pages_def)
  then show "i < 9 \<Longrightarrow> j < 9 \<Longrightarrow> ps ! i = ps ! j \<longleftrightarrow> i = j" "i < 9 \<Longrightarrow> ps ! i \<noteq> NULL" "i < 9 \<Longrightarrow> ps ! i \<in> set ps"
    using nth_eq_iff_index_eq [of ps i j] nth_mem [of i ps] by (simp, metis, simp)
qed

lemma sample_views:
  assumes "sample_pages b ps"
  shows "fdrcs (sample_store b ps) = [ps ! 5 \<mapsto> sample_dir (ps ! 3)]" "links (sample_store b ps) = Map.empty"
    "hinfos (sample_store b ps) (ps ! 8) = Some (sample_root (ps ! 0))"
    "objects (sample_store b ps) (ps ! 6) = Some (Buf (replicate 64 NUL))" "objects (sample_store b ps) (ps ! 7) = Some (Buf (replicate 64 NUL))"
  using sample_nth(1) [OF assms] by (auto simp: fdrcs_def links_def hinfos_def sample_objects fun_eq_iff)

lemma sample_spells:
  assumes "sample_pages b ps"
  shows "spells (strings (sample_store b ps)) (ps ! 0) ''a''" "spells (strings (sample_store b ps)) (ps ! 1) ''b''"
    "spells (strings (sample_store b ps)) (ps ! 2) ''c''" "spells (strings (sample_store b ps)) (ps ! 4) ''e''"
proof -
  have "spells H p s" if "H p = Some (sample_part s n)" "p \<noteq> NULL" for H p s n
    using spells_part [of p H "sample_part s n" "[]"] that by (simp add: sample_part_def)
  then show "spells (strings (sample_store b ps)) (ps ! 0) ''a''" "spells (strings (sample_store b ps)) (ps ! 1) ''b''"
    "spells (strings (sample_store b ps)) (ps ! 2) ''c''" "spells (strings (sample_store b ps)) (ps ! 4) ''e''"
    using sample_nth(1,2) [OF assms] by (simp_all add: sample_strings)
qed

lemma sample_ok:
  assumes "sample_pages b ps"
  shows "owned (sample_world b ps) {#ps ! 0, ps ! 0, ps ! 1, ps ! 2, ps ! 4#} {#ps ! 5#}" "load (sample_world b ps) = 6"
proof -
  let ?st = "sample_store b ps" and ?ext = "{#ps ! 0, ps ! 0, ps ! 1, ps ! 2, ps ! 4#}"
  note n = sample_nth [OF assms]
  have p: "pages 9 b" "alloc_blocks (page_heap b) = (\<lambda>p. (p, 512)) ` set ps" using assms by (simp_all add: sample_pages_def)
  have d: "dom (strings ?st) = {ps ! 0, ps ! 1, ps ! 2, ps ! 3, ps ! 4}" by (auto simp: sample_strings split: if_splits)
  have c: "card (dom (strings ?st)) = 5" unfolding d by (simp add: n)
  have pr: "path_refs (fdrcs ?st) = {#ps ! 3#}" by (simp add: sample_views(1) [OF assms] path_refs_def sample_dir_def)
  show "load (sample_world b ps) = 6" by (simp add: load_def sample_world_def queued_def q_names_def pr c)
  have parts: "parts_ok (strings ?st) (?ext + {#ps ! 3#})"
  proof (rule flat_parts_ok)
    show "finite (dom (strings ?st))" "NULL \<notin> dom (strings ?st)" "set_mset (?ext + {#ps ! 3#}) \<subseteq> dom (strings ?st)"
      unfolding d using n(2) by (auto simp: eq_commute [of 0])
    show "size (?ext + {#ps ! 3#}) + card (dom (strings ?st)) < 2 ^ 64" unfolding c by simp
    fix p part
    assume "strings ?st p = Some part"
    then show "part_rc part = count (?ext + {#ps ! 3#}) p \<and> 0 < part_rc part \<and> length (part_data part) = part_len part
      \<and> part_prev part = NULL"
      using n(1) by (auto simp: sample_strings sample_part_def split: if_splits)
  qed
  have "\<exists>n \<ge> object_size x. (p, n) \<in> alloc_blocks (page_heap b)" if o: "objects ?st p = Some x" for p x
  proof -
    have "p \<in> set ps \<and> object_size x \<le> 512"
      using n(3) o by (auto simp: sample_objects sample_part_def sizeof_StringPart_def sizeof_FDRC_def sizeof_HLinkInfo_def split: if_splits)
    then show ?thesis unfolding p(2) by (intro exI [of _ 512]) simp
  qed
  moreover have "finite (dom (objects ?st))" by (simp add: sample_objects)
  moreover have heap: "heap ?st = page_heap b" by (simp add: sample_store_def)
  moreover have "objects ?st NULL = None" using n(2) by (simp add: sample_objects)
  ultimately have "store_ok ?st"
    using page_heap(1) [OF p(1)] unfolding store_ok_def by (simp add: heap)
  then have "strings_ok ?st (?ext + {#ps ! 3#})" using parts by (simp add: strings_ok_def)
  then have "strings_ok ?st (?ext + path_refs (fdrcs ?st))" unfolding pr .
  moreover have "dirs_ok (fdrcs ?st) {#ps ! 5#}" by (simp add: dirs_ok_def sample_views(1) [OF assms] sample_dir_def)
  ultimately show "owned (sample_world b ps) ?ext {#ps ! 5#}"
    by (simp add: owned_def sample_world_def queued_def q_names_def q_dirs_def)
qed

lemma sample_bufs:
  assumes "sample_pages b ps"
  shows "buf_ready (sample_world b ps) Register_linkRoot 63" "buf_ready (sample_world b ps) Transfer_linkRoot 63"
  using sample_views(4,5) [OF assms]
  by (auto simp: buf_ready_def sample_world_def intro!: exI [of _ "replicate 64 NUL"])

end
