(* ===== verification/Remove.thy ===== *)
theory Remove
  imports Syscalls
begin

text \<open>
  Removing a file or a whole directory at the destination (\<open>recursiveRemove\<close> in \<open>copy2.cpp\<close>). The
  entries of a directory are first read into a list in the allocator, then the directory is closed,
  then each entry is removed by a task of its own, and in the end the directory itself. The tasks of a
  group run one after another here, in an order that is a parameter; how deep the recursion may go is
  a number, and if it is too small the result is \<open>None\<close>.
\<close>

section \<open>Helpers\<close>

definition ISDOT :: "string \<Rightarrow> bool" where
  "ISDOT s = (let a = s @ [NUL] in a ! 0 = CHR ''.'' \<and> (a ! 1 = NUL \<or> (a ! 1 = CHR ''.'' \<and> a ! 2 = NUL)))"

definition w_part :: "'db program \<Rightarrow> 'db world \<Rightarrow> addr \<Rightarrow> string \<Rightarrow> string \<Rightarrow> (addr \<times> 'db world) option" where
  "w_part E w tip s1 s2 =
     map_option (\<lambda>(p, st). (p, w\<lparr>wstore := st\<rparr>)) (toStringPart (tid E) (wstore w) tip s1 (length s1) s2 (length s2))"

text \<open>The destructor of \<open>StringPartGuard\<close>\<close>

definition drop_part :: "'db world \<Rightarrow> addr \<Rightarrow> 'db world option" where
  "drop_part w ref = (if isNullRef ref then Some w else w_release w ref)"

text \<open>The text at an address that was a buffer of a thread when it was taken.\<close>

definition buffer_text :: "'db world \<Rightarrow> addr \<Rightarrow> string option" where
  "buffer_text w p =
     (case objects (wstore w) p of Some (Buf s) \<Rightarrow> Some (takeWhile (\<lambda>c. c \<noteq> NUL) s) | _ \<Rightarrow> None)"

text \<open>The tasks of a group, run to their ends in the order of the program.\<close>

fun run_tasks :: "('a \<Rightarrow> 'w \<Rightarrow> 'w option) \<Rightarrow> 'a list \<Rightarrow> 'w \<Rightarrow> 'w option" where
  "run_tasks f [] w = Some w"
| "run_tasks f (x # xs) w = Option.bind (f x w) (run_tasks f xs)"

definition in_order :: "'db program \<Rightarrow> 'a list \<Rightarrow> 'a list" where
  "in_order E xs = map ((!) xs) (task_order E (length xs))"

definition add_removed :: "'db world \<Rightarrow> 'db world" where
  "add_removed w = w\<lparr>n_removed := inc64 (n_removed w)\<rparr>"

section \<open>Files\<close>

definition recursiveRemoveNonDir :: "'db program \<Rightarrow> int \<Rightarrow> addr \<Rightarrow> 'db world \<Rightarrow> (int \<times> 'db world) option" where
  "recursiveRemoveNonDir E dstfd path w = do {
     (rname, w) \<leftarrow> name_text E RemoveNonDir_remote w path;
     let (r, w) = sys E w (Unlinkat dstfd rname False);
     let (rc, w) = (if ret r < 0 then (-1, w) else (0, add_removed w));
     w \<leftarrow> drop_part w path;
     Some (rc, w) }"

section \<open>Directories\<close>

text \<open>The first attempt: with a result the function is over.\<close>

definition first_unlink :: "'db program \<Rightarrow> 'db world \<Rightarrow> int \<Rightarrow> string \<Rightarrow> nat \<Rightarrow> int option \<times> 'db world" where
  "first_unlink E w dstfd rname depth =
     (if depth = 0 then
        let (r, w) = sys E w (Unlinkat dstfd rname False)
        in if ret r = 0 then (Some 0, add_removed w)
           else if errno r = ENOENT then (Some 0, w)
           else if errno r \<noteq> EISDIR then (Some (-1), w)
           else (None, w)
      else (None, w))"

definition open_stream :: "'db program \<Rightarrow> 'db world \<Rightarrow> int \<Rightarrow> string \<Rightarrow> (int option \<times> 'db world) option" where
  "open_stream E w dstfd rname = do {
     (r, w) \<leftarrow> openat_wrapper E w dstfd rname [O_DIRECTORY, O_RDONLY] 0;
     if ret r < 0 then Some (None, w) else Some (fdopendir_wrapper E w (ret r)) }"

partial_function (option) read_entries ::
    "'db program \<Rightarrow> int \<Rightarrow> addr \<Rightarrow> addr \<Rightarrow> 'db world \<Rightarrow> (addr \<times> 'db world) option" where
  "read_entries E dir path entries w = (case sys E w (Readdir dir) of (d, w) \<Rightarrow>
     if ret d = 0 then Some (entries, w)
     else if ISDOT (out_str d) then read_entries E dir path entries w
     else do {
       (newPathRef, w) \<leftarrow> w_part E w path ''/'' (out_str d);
       let (nodeRef, w) = w_alloc E w sizeof_DirEnt;
       w \<leftarrow> w_put nodeRef (Ent \<lparr>ent_path = newPathRef, ent_prev = entries, ent_isDir = (out_type d = DT_DIR)\<rparr>) w;
       read_entries E dir path nodeRef w })"

declare read_entries.simps [code]

partial_function (option) take_entries :: "addr \<Rightarrow> 'db world \<Rightarrow> (dir_ent list \<times> 'db world) option" where
  "take_entries it w =
     (if isNullRef it then Some ([], w)
      else do {
        node \<leftarrow> ents (wstore w) it;
        (es, w) \<leftarrow> take_entries (ent_prev node) (w_free w it);
        Some (node # es, w) })"

declare take_entries.simps [code]

text \<open>
  The buffer may have been overwritten or moved by the tasks: the name is printed again, and what the
  pointer taken before then shows is removed.
\<close>

definition remove_self :: "'db program \<Rightarrow> 'db world \<Rightarrow> int \<Rightarrow> addr \<Rightarrow> addr \<Rightarrow> (int \<times> 'db world) option" where
  "remove_self E w dstfd path rptr = do {
     (_, w) \<leftarrow> name_text E Remove_remote w path;
     rname \<leftarrow> buffer_text w rptr;
     let (r, w) = sys E w (Unlinkat dstfd rname True);
     Some (0, if ret r < 0 then w else add_removed w) }"

primrec recursiveRemove :: "nat \<Rightarrow> 'db program \<Rightarrow> int \<Rightarrow> nat \<Rightarrow> addr \<Rightarrow> 'db world \<Rightarrow> (int \<times> 'db world) option" where
  "recursiveRemove 0 E dstfd depth path w = None"
| "recursiveRemove (Suc n) E dstfd depth path w = do {
     (rname, w) \<leftarrow> name_text E Remove_remote w path;
     (rptr, _) \<leftarrow> bufs w Remove_remote;
     (rc, w) \<leftarrow> (case first_unlink E w dstfd rname depth of
        (Some rc, w) \<Rightarrow> Some (rc, w)
      | (None, w) \<Rightarrow> do {
          (dir, w) \<leftarrow> open_stream E w dstfd rname;
          case dir of
            None \<Rightarrow> Some (-1, w)
          | Some dstdir \<Rightarrow> do {
              (entries, w) \<leftarrow> read_entries E dstdir path NULL w;
              (es, w) \<leftarrow> take_entries entries (closedir_wrapper E w dstdir);
              w \<leftarrow> run_tasks (\<lambda>e w. map_option snd
                     (if ent_isDir e then recursiveRemove n E dstfd (depth + 1) (ent_path e) w
                      else recursiveRemoveNonDir E dstfd (ent_path e) w)) (in_order E es) w;
              remove_self E w dstfd path rptr } });
     w \<leftarrow> drop_part w path;
     Some (rc, w) }"

end
