(* ===== verification/Crawl.thy ===== *)
theory Crawl
  imports Remove Hlink
begin

text \<open>
  Walking over the source (\<open>readSymlink\<close>, \<open>processNonDir\<close> and \<open>processDir\<close> in \<open>copy2.cpp\<close>): what is
  done with one name, and with one directory and everything below it. Definitions only. The tasks of a
  directory run after its entries have been read, in the order of the program. A place in a queue is
  taken to be free.
\<close>

section \<open>Names\<close>

text \<open>\<open>strrchr (s, '/')\<close> and one further, or \<open>s\<close>\<close>

definition base_name :: "string \<Rightarrow> string" where
  "base_name s = rev (takeWhile (\<lambda>c. c \<noteq> CHR ''/'') (rev s))"

definition hex_digit :: "nat \<Rightarrow> char" where
  "hex_digit n = ''0123456789ABCDEF'' ! n"

text \<open>\<open>%016lX.partial\<close>\<close>

definition suffix_of :: "nat \<Rightarrow> string" where
  "suffix_of h = map (\<lambda>i. hex_digit (h div 16 ^ (15 - i) mod 16)) [0..<16] @ ''.partial''"

text \<open>The file type of a mode: \<open>(mode & S_IFMT)\<close>, in units of \<open>010000\<close>\<close>

definition S_ISREG :: "nat \<Rightarrow> bool" where
  "S_ISREG mode \<longleftrightarrow> mode div 4096 mod 16 = 8"

definition S_ISLNK :: "nat \<Rightarrow> bool" where
  "S_ISLNK mode \<longleftrightarrow> mode div 4096 mod 16 = 10"

definition fd_of :: "'db world \<Rightarrow> addr \<Rightarrow> int option" where
  "fd_of w ref = map_option fdrc_fd (fdrcs (wstore w) ref)"

definition statx_wrapper :: "'db program \<Rightarrow> 'db world \<Rightarrow> int \<Rightarrow> string \<Rightarrow> reply \<times> 'db world" where
  "statx_wrapper E w fd name = sys E w (Statx fd name)"

text \<open>The initialisation of a buffer that the thread keeps.\<close>

definition touch_buffer :: "'db program \<Rightarrow> buffer_name \<Rightarrow> nat \<Rightarrow> 'db world \<Rightarrow> (addr \<times> nat) \<times> 'db world" where
  "touch_buffer E b n w =
     (let (buf, st) = thread_buffer (tid E) (wstore w) (bufs w b) n
      in (buf, w\<lparr>wstore := st, bufs := (bufs w)(b \<mapsto> buf)\<rparr>))"

section \<open>Symbolic links\<close>

definition INITIAL_READLINK_BUF_SIZE :: nat where
  "INITIAL_READLINK_BUF_SIZE = 512"

text \<open>The system writes the beginning of a buffer.\<close>

definition fill_buffer :: "'db world \<Rightarrow> addr \<Rightarrow> string \<Rightarrow> 'db world option" where
  "fill_buffer w p s =
     (case objects (wstore w) p of
        Some (Buf b) \<Rightarrow> if length s \<le> length b then w_put p (Buf (s @ drop (length s) b)) w else None
      | _ \<Rightarrow> None)"

definition keep_buffer :: "addr \<times> nat \<Rightarrow> 'db world \<Rightarrow> 'db world" where
  "keep_buffer buf w = w\<lparr>bufs := (bufs w)(Readlink_buf \<mapsto> buf)\<rparr>"

partial_function (option) readlink_loop ::
    "'db program \<Rightarrow> int \<Rightarrow> string \<Rightarrow> addr \<Rightarrow> nat \<Rightarrow> 'db world \<Rightarrow> (string option \<times> 'db world) option" where
  "readlink_loop E srcFD path buf bufsize w = (case sys E w (Readlinkat srcFD path bufsize) of (r, w) \<Rightarrow>
     let nread = nat (ret r)
     in if ret r < 0 then Some (None, keep_buffer (buf, bufsize) w)
        else if nread = 0 then do {
          w \<leftarrow> fill_buffer w buf [NUL];
          Some (Some [], keep_buffer (buf, bufsize) w) }
        else do {
          w \<leftarrow> fill_buffer w buf (take nread (out_str r));
          if nread \<ge> bufsize then do {
            let bufsize = bufsize + INITIAL_READLINK_BUF_SIZE;
            let (p, w) = w_alloc E (w_free w buf) bufsize;
            w \<leftarrow> w_put p (Buf (replicate bufsize NUL)) w;
            readlink_loop E srcFD path p bufsize w }
          else do {
            w \<leftarrow> fill_buffer w buf (take nread (out_str r) @ [NUL]);
            Some (Some (takeWhile (\<lambda>c. c \<noteq> NUL) (take nread (out_str r))), keep_buffer (buf, bufsize) w) } })"

declare readlink_loop.simps [code]

definition readSymlink :: "'db program \<Rightarrow> int \<Rightarrow> string \<Rightarrow> 'db world \<Rightarrow> (string option \<times> 'db world) option" where
  "readSymlink E srcFD path w =
     (let ((buf, bufsize), w) = touch_buffer E Readlink_buf INITIAL_READLINK_BUF_SIZE w
      in readlink_loop E srcFD path buf bufsize w)"

section \<open>One name\<close>

text \<open>What is known about a name before it is decided what to do; the result 1 of the function is \<open>None\<close>.\<close>

record looked =
  lk_stx :: statx
  lk_destStx :: statx
  lk_exists :: bool

definition look :: "'db program \<Rightarrow> 'db world \<Rightarrow> int \<Rightarrow> int \<Rightarrow> string \<Rightarrow> looked option \<times> 'db world" where
  "look E w srcFD dstFD name =
     (let (r, w) = statx_wrapper E w srcFD name
      in if ret r < 0 then (None, w)
         else let (d, w) = statx_wrapper E w dstFD name
              in if ret d < 0 then
                   if errno d = ENOENT then
                     (Some \<lparr>lk_stx = out_stx r, lk_destStx = zero_statx, lk_exists = False\<rparr>, w)
                   else (None, w)
                 else (Some \<lparr>lk_stx = out_stx r, lk_destStx = out_stx d, lk_exists = True\<rparr>, w))"

definition differs :: "looked \<Rightarrow> bool" where
  "differs l \<longleftrightarrow> \<not> lk_exists l \<or> fst (stx_mtime (lk_stx l)) \<noteq> fst (stx_mtime (lk_destStx l))
     \<or> stx_size (lk_stx l) \<noteq> stx_size (lk_destStx l)"

definition add_seen :: "'db world \<Rightarrow> 'db world" where
  "add_seen w = w\<lparr>n_seen := inc64 (n_seen w)\<rparr>"

definition add_finished :: "nat \<Rightarrow> 'db world \<Rightarrow> 'db world" where
  "add_finished k w = w\<lparr>n_finished := (n_finished w + k) mod 2 ^ 64\<rparr>"

text \<open>Whether to transfer, whether it is the first look, whether it waits as a hard link.\<close>

definition link_state :: "'db program \<Rightarrow> 'db world \<Rightarrow> string \<Rightarrow> addr \<Rightarrow> addr \<Rightarrow> looked \<Rightarrow> (register_out \<times> 'db world) option" where
  "link_state E w rname path dstRef l =
     (if stx_nlink (lk_stx l) > 1 \<or> stx_nlink (lk_destStx l) > 1 then do {
        (out, w) \<leftarrow> hlinkStateRegisterLinkRoot E
          \<lparr>ra_remote = rname, ra_remoteRef = path, ra_srcInode = stx_ino (lk_stx l), ra_destInode = stx_ino (lk_destStx l),
           ra_destExists = lk_exists l, ra_srcNLinks = stx_nlink (lk_stx l), ra_destNLinks = stx_nlink (lk_destStx l),
           ra_destRootFD = dst_root E, ra_dstFDRef = dstRef\<rparr> (differs l) w;
        Some (if isPendingHardlink out then out\<lparr>shouldTransfer := False\<rparr> else out, w) }
      else Some (\<lparr>shouldTransfer = differs l, isFirstLook = True, isPendingHardlink = False\<rparr>, w))"

text \<open>A job; the references in it are counted in this order.\<close>

definition make_job :: "'db world \<Rightarrow> bool \<Rightarrow> addr \<Rightarrow> addr option \<Rightarrow> statx \<Rightarrow> int \<Rightarrow> int \<Rightarrow> nat \<Rightarrow> addr \<Rightarrow> (file_copy_job \<times> 'db world) option" where
  "make_job w first path part st src dst bs dstRef = do {
     w \<leftarrow> w_inc w path;
     w \<leftarrow> (case part of None \<Rightarrow> Some w | Some p \<Rightarrow> w_inc w p);
     w \<leftarrow> incref dstRef w;
     Some (zero_file_job\<lparr>firstLook := first, remote := path, partial := (case part of None \<Rightarrow> NULL | Some p \<Rightarrow> p),
       stx := st, srcFd := src, dstFd := dst, bsize := bs, dstDirFD := dstRef\<rparr>, w) }"

definition finish_later :: "'db world \<Rightarrow> bool \<Rightarrow> addr \<Rightarrow> addr option \<Rightarrow> statx \<Rightarrow> addr \<Rightarrow> 'db world option" where
  "finish_later w first path part st dstRef = do {
     (job, w) \<leftarrow> make_job w first path part st (-1) (-1) 0 dstRef;
     Some (w\<lparr>finishQ := finishQ w @ [job]\<rparr>) }"

definition transfer_file :: "'db program \<Rightarrow> 'db world \<Rightarrow> register_out \<Rightarrow> addr \<Rightarrow> addr \<Rightarrow> addr \<Rightarrow> addr \<Rightarrow> string \<Rightarrow> string \<Rightarrow>
    statx \<Rightarrow> (int \<times> 'db world) option" where
  "transfer_file E w out path pref srcRef dstRef name pname st = do {
     srcDir \<leftarrow> fd_of w srcRef;
     dstDir \<leftarrow> fd_of w dstRef;
     (s, w) \<leftarrow> openat_wrapper E w srcDir name [O_RDONLY, O_DIRECT, O_NOATIME] 0;
     if ret s < 0 then Some (1, w)
     else do {
       (d, w) \<leftarrow> openat_wrapper E w dstDir pname [O_RDWR, O_CREAT, O_DIRECT, O_NOATIME] (stx_mode st);
       if ret d < 0 then Some (1, w_close E w (ret s))
       else do {
         let (t, w) = sys E w (Ftruncate (ret d) (alignUp (stx_size st) 4096));
         if ret t < 0 then Some (1, w_close E (w_close E w (ret s)) (ret d))
         else do {
           let w = w\<lparr>bytes_will := (bytes_will w + stx_size st) mod 2 ^ 64\<rparr>;
           (job, w) \<leftarrow> make_job w (isFirstLook out) path (Some pref) st (ret s) (ret d)
             (blockSize (stx_size st) (64 * 2 ^ 20) (minBlockSize (opts E)) (maxBlockSize (opts E))) dstRef;
           Some (0, w\<lparr>jobQ := jobQ w @ [job]\<rparr>) } } } }"

definition transfer_symlink :: "'db program \<Rightarrow> 'db world \<Rightarrow> register_out \<Rightarrow> addr \<Rightarrow> addr \<Rightarrow> addr \<Rightarrow> addr \<Rightarrow> string \<Rightarrow> string \<Rightarrow>
    statx \<Rightarrow> (int \<times> 'db world) option" where
  "transfer_symlink E w out path pref srcRef dstRef name pname st = do {
     srcDir \<leftarrow> fd_of w srcRef;
     dstDir \<leftarrow> fd_of w dstRef;
     (contents, w) \<leftarrow> readSymlink E srcDir name w;
     case contents of
       None \<Rightarrow> Some (1, w)
     | Some target \<Rightarrow> do {
         let (r, w) = sys E w (Symlinkat target dstDir pname);
         if ret r < 0 then Some (1, w)
         else if \<not> isPendingHardlink out \<and> isFirstLook out then
           map_option (\<lambda>w. (0, w)) (finish_later w (isFirstLook out) path (Some pref) st dstRef)
         else Some (0, w) } }"

definition transfer_name :: "'db program \<Rightarrow> 'db world \<Rightarrow> register_out \<Rightarrow> addr \<Rightarrow> addr \<Rightarrow> addr \<Rightarrow> addr \<Rightarrow> string \<Rightarrow> string \<Rightarrow>
    statx \<Rightarrow> (int \<times> 'db world) option" where
  "transfer_name E w out path pref srcRef dstRef name pname st =
     (if shouldTransfer out then do {
        dstDir \<leftarrow> fd_of w dstRef;
        let (_, w) = sys E w (Unlinkat dstDir pname False);
        if S_ISREG (stx_mode st) then transfer_file E w out path pref srcRef dstRef name pname st
        else if S_ISLNK (stx_mode st) then transfer_symlink E w out path pref srcRef dstRef name pname st
        else Some (0, w) }
      else if \<not> isPendingHardlink out \<and> isFirstLook out then
        map_option (\<lambda>w. (0, w)) (finish_later w (isFirstLook out) path None st dstRef)
      else if \<not> isPendingHardlink out \<and> \<not> isFirstLook out then Some (0, add_finished 1 w)
      else Some (0, w))"

text \<open>The name under which the copy is made: the last part of the path with a suffix of its own.\<close>

definition partial_part :: "'db program \<Rightarrow> 'db world \<Rightarrow> addr \<Rightarrow> string \<Rightarrow> (addr \<times> 'db world) option" where
  "partial_part E w path rname = do {
     part \<leftarrow> strings (wstore w) path;
     w_part E w (part_prev part) (part_data part) (suffix_of (hash64 E rname)) }"

definition nondir_body :: "'db program \<Rightarrow> 'db world \<Rightarrow> addr \<Rightarrow> addr \<Rightarrow> addr \<Rightarrow> addr \<Rightarrow> string \<Rightarrow> string \<Rightarrow> (int \<times> 'db world) option" where
  "nondir_body E w path pref srcRef dstRef rname pname = do {
     srcDir \<leftarrow> fd_of w srcRef;
     dstDir \<leftarrow> fd_of w dstRef;
     let name = base_name rname;
     case look E w srcDir dstDir name of
       (None, w) \<Rightarrow> Some (1, w)
     | (Some l, w) \<Rightarrow> do {
         (out, w) \<leftarrow> link_state E (add_seen w) rname path dstRef l;
         let st = lk_stx l;
         let w = (if S_ISREG (stx_mode st) then w\<lparr>bytes_seen := (bytes_seen w + stx_size st) mod 2 ^ 64\<rparr> else w);
         transfer_name E w out path pref srcRef dstRef name (base_name pname) st } }"

definition processNonDir :: "'db program \<Rightarrow> addr \<Rightarrow> addr \<Rightarrow> addr \<Rightarrow> 'db world \<Rightarrow> (int \<times> 'db world) option" where
  "processNonDir E path srcRef dstRef w = do {
     let (_, w) = touch_buffer E NonDir_remote PATH_MAX w;
     let (_, w) = touch_buffer E NonDir_partial PATH_MAX w;
     (rname, w) \<leftarrow> name_text E NonDir_remote w path;
     (pref, w) \<leftarrow> partial_part E w path rname;
     (pname, w) \<leftarrow> name_text E NonDir_partial w pref;
     (rc, w) \<leftarrow> nondir_body E w path pref srcRef dstRef rname pname;
     w \<leftarrow> drop_part w pref;
     w \<leftarrow> fdrc_release E w dstRef;
     w \<leftarrow> fdrc_release E w srcRef;
     w \<leftarrow> drop_part w path;
     Some (rc, w) }"

section \<open>One directory\<close>

text \<open>With \<open>--sync\<close>: what is at the destination but not in the source.\<close>

partial_function (option) extra_entries ::
    "'db program \<Rightarrow> int \<Rightarrow> int \<Rightarrow> addr \<Rightarrow> addr \<Rightarrow> 'db world \<Rightarrow> (addr \<times> 'db world) option" where
  "extra_entries E dir srcFD path toRemove w = (case sys E w (Readdir dir) of (d, w) \<Rightarrow>
     if ret d = 0 then Some (toRemove, w)
     else (case sys E w (Faccessat srcFD (out_str d)) of (a, w) \<Rightarrow>
       if ret a < 0 then do {
         (newPathRef, w) \<leftarrow> w_part E w path ''/'' (out_str d);
         let (nodeRef, w) = w_alloc E w sizeof_DirEnt;
         w \<leftarrow> w_put nodeRef (Ent \<lparr>ent_path = newPathRef, ent_prev = toRemove, ent_isDir = True\<rparr>) w;
         extra_entries E dir srcFD path nodeRef w }
       else extra_entries E dir srcFD path toRemove w))"

declare extra_entries.simps [code]

text \<open>The result is whether to go on.\<close>

definition prune :: "nat \<Rightarrow> 'db program \<Rightarrow> 'db world \<Rightarrow> int \<Rightarrow> addr \<Rightarrow> int \<Rightarrow> string \<Rightarrow> (bool \<times> 'db world) option" where
  "prune n E w newSrcFD path dstDir name = do {
     (r, w) \<leftarrow> openat_wrapper E w dstDir name [O_DIRECTORY, O_NOATIME] 0;
     if ret r < 0 then Some (False, w)
     else case fdopendir_wrapper E w (ret r) of
       (None, w) \<Rightarrow> Some (False, w)
     | (Some dir, w) \<Rightarrow> do {
         (toRemove, w) \<leftarrow> extra_entries E dir newSrcFD path NULL w;
         (es, w) \<leftarrow> take_entries toRemove (closedir_wrapper E w dir);
         w \<leftarrow> run_tasks (\<lambda>e w. map_option snd (recursiveRemove n E (dst_root E) 0 (ent_path e) w)) (in_order E es) w;
         Some (True, w) } }"

record dir_task =
  dt_path :: addr
  dt_isDir :: bool

partial_function (option) crawl_entries ::
    "'db program \<Rightarrow> int \<Rightarrow> addr \<Rightarrow> addr \<Rightarrow> addr \<Rightarrow> 'db world \<Rightarrow> (dir_task list \<times> 'db world) option" where
  "crawl_entries E dir path newSrc newDst w = (case sys E w (Readdir dir) of (d, w) \<Rightarrow>
     if ret d = 0 then Some ([], w)
     else if ISDOT (out_str d) then crawl_entries E dir path newSrc newDst w
     else do {
       w \<leftarrow> incref newDst w;
       w \<leftarrow> incref newSrc w;
       (newPathRef, w) \<leftarrow> w_part E w path ''/'' (out_str d);
       (ts, w) \<leftarrow> crawl_entries E dir path newSrc newDst w;
       Some (\<lparr>dt_path = newPathRef, dt_isDir = (out_type d = DT_DIR)\<rparr> # ts, w) })"

declare crawl_entries.simps [code]

text \<open>The two counted descriptors of the directory.\<close>

definition new_dir :: "'db program \<Rightarrow> 'db world \<Rightarrow> addr \<Rightarrow> int \<Rightarrow> int \<Rightarrow> statx \<Rightarrow> (addr \<times> addr \<times> 'db world) option" where
  "new_dir E w path newSrcFD newDstFD st = do {
     let (newSrc, w) = w_alloc E w sizeof_FDRC;
     let (newDst, w) = w_alloc E w sizeof_FDRC;
     w \<leftarrow> w_inc w path;
     w \<leftarrow> w_put newSrc (Fdrc \<lparr>fdrc_rc = 1, fdrc_fd = newSrcFD, fdrc_path = path, fdrc_dst = False, fdrc_srcStx = zero_statx\<rparr>) w;
     w \<leftarrow> w_inc w path;
     w \<leftarrow> w_put newDst (Fdrc \<lparr>fdrc_rc = 1, fdrc_fd = newDstFD, fdrc_path = path, fdrc_dst = True, fdrc_srcStx = st\<rparr>) w;
     Some (newSrc, newDst, w) }"

text \<open>
  What comes before the directory is entered: its descriptor in the source, what \<open>statx\<close> says, the
  directory at the destination, a second descriptor. Each way to give up is a result; the descriptors
  opened until then are not closed.
\<close>

datatype opened = Returns int | Opened int statx int

definition open_dir :: "'db program \<Rightarrow> 'db world \<Rightarrow> (nat \<times> nat) option \<Rightarrow> string \<Rightarrow> int \<Rightarrow> int \<Rightarrow> (opened \<times> 'db world) option" where
  "open_dir E w dev rname srcDir dstDir = do {
     let name = base_name rname;
     (f, w) \<leftarrow> openat_wrapper E w srcDir name [O_RDONLY, O_DIRECTORY, O_NOATIME] 0;
     if ret f < 0 then Some (Returns (-1), w)
     else do {
       let (s, w) = statx_wrapper E w srcDir name;
       if ret s < 0 then Some (Returns (-1), w)
       else if dev \<noteq> None \<and> dev \<noteq> Some (stx_dev (out_stx s)) then Some (Returns 0, w)
       else do {
         let (m, w) = (if rname \<noteq> [] then sys E w (Mkdirat dstDir name (stx_mode (out_stx s))) else (s, w));
         if rname \<noteq> [] \<and> ret m < 0 \<and> errno m \<noteq> EEXIST then Some (Returns (-1), w)
         else do {
           w \<leftarrow> sem_wait w;
           let (d, w) = sys E w (Dup (ret f));
           if ret d < 0 then Some (Returns (-1), w)
           else Some (Opened (ret f) (out_stx s) (ret d), w) } } } }"

primrec processDir :: "nat \<Rightarrow> 'db program \<Rightarrow> (nat \<times> nat) option \<Rightarrow> addr \<Rightarrow> addr \<Rightarrow> addr \<Rightarrow> 'db world \<Rightarrow> (int \<times> 'db world) option" where
  "processDir 0 E dev path srcRef dstRef w = None"
| "processDir (Suc n) E dev path srcRef dstRef w = do {
     (rname, w) \<leftarrow> name_text E Dir_remote w path;
     let name = base_name rname;
     srcDir \<leftarrow> fd_of w srcRef;
     dstDir \<leftarrow> fd_of w dstRef;
     (op, w) \<leftarrow> open_dir E w dev rname srcDir dstDir;
     (rc, w) \<leftarrow> (case op of
        Returns rc \<Rightarrow> Some (rc, w)
      | Opened fd st newSrcFD \<Rightarrow> do {
          (go_on, w) \<leftarrow> (if sync (opts E) then prune n E w newSrcFD path dstDir name else Some (True, w));
          if \<not> go_on then Some (-1, w)
          else do {
            (nd, w) \<leftarrow> openat_wrapper E w dstDir name [O_DIRECTORY, O_NOATIME] 0;
            if ret nd < 0 then Some (-1, w)
            else do {
              (newSrc, newDst, w) \<leftarrow> new_dir E w path newSrcFD (ret nd) st;
              let w = (add_seen w)\<lparr>n_dirs := inc64 (n_dirs w)\<rparr>;
              (rc, w) \<leftarrow> (case fdopendir_wrapper E w fd of
                 (None, w) \<Rightarrow> Some (-1, w)
               | (Some dir, w) \<Rightarrow> do {
                   (ts, w) \<leftarrow> crawl_entries E dir path newSrc newDst w;
                   w \<leftarrow> run_tasks (\<lambda>t w. map_option snd
                          (if dt_isDir t then processDir n E (Some (stx_dev st)) (dt_path t) newSrc newDst w
                           else processNonDir E (dt_path t) newSrc newDst w)) (in_order E ts) w;
                   Some (0, closedir_wrapper E w dir) });
              w \<leftarrow> fdrc_release E w newDst;
              w \<leftarrow> fdrc_release E w newSrc;
              Some (rc, w) } } });
     w \<leftarrow> fdrc_release E w dstRef;
     w \<leftarrow> fdrc_release E w srcRef;
     w \<leftarrow> drop_part w path;
     Some (rc, w) }"

section \<open>From the root\<close>

text \<open>\<open>main\<close>: the path of the root, its two descriptors, and the walk.\<close>

definition start_crawl :: "nat \<Rightarrow> 'db program \<Rightarrow> 'db world \<Rightarrow> (int \<times> addr \<times> addr \<times> 'db world) option" where
  "start_crawl n E w = do {
     (rootRef, w) \<leftarrow> w_part E w NULL ''.'' [];
     let (srcRef, w) = w_alloc E w sizeof_FDRC;
     let (dstRef, w) = w_alloc E w sizeof_FDRC;
     w \<leftarrow> w_inc w rootRef;
     w \<leftarrow> w_put srcRef (Fdrc \<lparr>fdrc_rc = 1, fdrc_fd = src_root E, fdrc_path = rootRef, fdrc_dst = False, fdrc_srcStx = zero_statx\<rparr>) w;
     w \<leftarrow> w_inc w rootRef;
     w \<leftarrow> w_put dstRef (Fdrc \<lparr>fdrc_rc = 1, fdrc_fd = dst_root E, fdrc_path = rootRef, fdrc_dst = False, fdrc_srcStx = zero_statx\<rparr>) w;
     w \<leftarrow> w_inc w rootRef;
     w \<leftarrow> incref srcRef w;
     w \<leftarrow> incref dstRef w;
     (rc, w) \<leftarrow> processDir n E None rootRef srcRef dstRef w;
     Some (rc, srcRef, dstRef, w) }"

end
