(* ===== verification/Finish.thy ===== *)
theory Finish
  imports Crawl
begin

text \<open>
  Finishing a file that has been transferred, a name that needed no transfer, or a directory
  (\<open>finishProcessorOne\<close> in \<open>copy2.cpp\<close>): the copy is put under its name and gets its times, owner and
  mode. Definitions only.
\<close>

text \<open>The two descriptors of the job; the first result is the number of errors.\<close>

definition close_files :: "'db program \<Rightarrow> 'db world \<Rightarrow> file_copy_job \<Rightarrow> nat \<times> 'db world" where
  "close_files E w job =
     (let w = (if srcFd job \<ge> 0 then w_close E w (srcFd job) else w)
      in if dstFd job \<ge> 0 then
           let (bad, w) =
             (if S_ISREG (stx_mode (stx job)) then
                let (r, w) = sys E w (Ftruncate (dstFd job) (stx_size (stx job))) in (ret r < 0, w)
              else (False, w))
           in ((if bad then inc64 (nErrors job) else nErrors job), w_close E w (dstFd job))
         else (nErrors job, w))"

text \<open>The name that is worked on, and the name it is to have.\<close>

definition dst_file_name :: "file_copy_job \<Rightarrow> string \<Rightarrow> string \<Rightarrow> string" where
  "dst_file_name job rname pname =
     (if isDot job then ''.'' else base_name (if isNullRef (partial job) then rname else pname))"

definition dst_remote_name :: "file_copy_job \<Rightarrow> string \<Rightarrow> string" where
  "dst_remote_name job rname = (if isDot job then ''.'' else base_name rname)"

definition new_times :: "'db program \<Rightarrow> statx \<Rightarrow> timespec \<times> timespec" where
  "new_times E st = ((if preserveAtime (opts E) then Some (stx_atime st) else None), Some (stx_mtime st))"

definition times_differ :: "'db program \<Rightarrow> statx \<Rightarrow> statx \<Rightarrow> bool" where
  "times_differ E st dest \<longleftrightarrow> fst (stx_mtime dest) \<noteq> fst (stx_mtime st)
     \<or> (preserveAtime (opts E) \<and> fst (stx_atime dest) \<noteq> fst (stx_atime st))"

text \<open>
  Each step of the chain is tried only if the ones before went well; a step that is not needed counts
  as done. The result says whether the chain went on.
\<close>

definition step_if :: "bool \<Rightarrow> 'db program \<Rightarrow> 'db world \<Rightarrow> syscall \<Rightarrow> bool \<times> 'db world" where
  "step_if needed E w c = (if needed then let (r, w) = sys E w c in (0 \<le> ret r, w) else (True, w))"

datatype published = Not_renamed | Not_set | Published

definition set_metadata :: "'db program \<Rightarrow> 'db world \<Rightarrow> file_copy_job \<Rightarrow> int \<Rightarrow> string \<Rightarrow> statx \<Rightarrow> bool \<times> 'db world" where
  "set_metadata E w job dir name dest =
     (let st = stx job;
          (ok, w) = step_if (times_differ E st dest) E w (Utimensat dir name (fst (new_times E st)) (snd (new_times E st)))
      in if \<not> ok then (False, w)
         else let (ok, w) = step_if (stx_uid dest \<noteq> stx_uid st \<or> stx_gid dest \<noteq> stx_gid st) E w (Fchownat dir name (stx_uid st) (stx_gid st))
              in if \<not> ok then (False, w)
                 else step_if (\<not> S_ISLNK (stx_mode st) \<and> stx_mode dest \<noteq> stx_mode st) E w (Fchmodat dir name (stx_mode st)))"

definition publish :: "nat \<Rightarrow> 'db program \<Rightarrow> 'db world \<Rightarrow> file_copy_job \<Rightarrow> int \<Rightarrow> string \<Rightarrow> string \<Rightarrow> statx \<Rightarrow> (published \<times> 'db world) option" where
  "publish n E w job dir rname fname dest = do {
     let dname = dst_remote_name job rname;
     w \<leftarrow> (if isNullRef (partial job) then Some w
          else do {
            w \<leftarrow> w_inc w (remote job);
            (_, w) \<leftarrow> recursiveRemove n E (dst_root E) 0 (remote job) w;
            Some w });
     let (renamed, w) = step_if (\<not> isNullRef (partial job)) E w (Renameat dir fname dir dname);
     if \<not> renamed then Some (Not_renamed, w)
     else do {
       let (done_ok, w) = set_metadata E w job dir dname dest;
       if \<not> done_ok then Some (Not_set, w)
       else if stx_nlink (stx job) > 1 then do {
         (k, w) \<leftarrow> hlinkStateHandleTransfer E rname (stx_ino (stx job)) (stx_ino dest) (dst_root E) w;
         Some (Published, add_finished k w) }
       else Some (Published, w) } }"

text \<open>The bytes that count as done.\<close>

definition count_bytes :: "file_copy_job \<Rightarrow> 'db world \<Rightarrow> 'db world" where
  "count_bytes job w =
     (let n = stx_size (stx job);
          w = w\<lparr>bytes_done := (bytes_done w + n) mod 2 ^ 64\<rparr>
      in if actuallyTransferred job then w\<lparr>bytes_actually := (bytes_actually w + n) mod 2 ^ 64\<rparr> else w)"

text \<open>The result is \<open>partialDeleted\<close>: whether nothing is left under the name of the copy.\<close>

definition finish_file :: "nat \<Rightarrow> 'db program \<Rightarrow> 'db world \<Rightarrow> file_copy_job \<Rightarrow> nat \<Rightarrow> int \<Rightarrow> string \<Rightarrow> string \<Rightarrow> (bool \<times> 'db world) option" where
  "finish_file n E w job errors dir rname fname =
     (let (r, w) = statx_wrapper E w dir fname
      in if ret r < 0 then Some (False, w)
         else if S_ISREG (stx_mode (stx job)) \<and> stx_size (out_stx r) \<noteq> stx_size (stx job) then Some (False, w)
         else if errors \<noteq> 0 then Some (False, w)
         else do {
           (p, w) \<leftarrow> publish n E w job dir rname fname (out_stx r);
           let w = (if S_ISREG (stx_mode (stx job)) \<and> p = Published \<and> firstLook job then count_bytes job w else w);
           Some (p \<noteq> Not_renamed, w) })"

definition finishProcessorOne :: "nat \<Rightarrow> 'db program \<Rightarrow> file_copy_job \<Rightarrow> 'db world \<Rightarrow> 'db world option" where
  "finishProcessorOne n E job w = do {
     let (errors, w) = close_files E w job;
     (rname, w) \<leftarrow> name_text E Finish_remote w (remote job);
     let ((pbuf, _), w) = touch_buffer E Finish_partial PATH_MAX w;
     (pname, w) \<leftarrow> (if isNullRef (partial job) then Some ([], w) else name_text E Finish_partial w (partial job));
     dir \<leftarrow> fd_of w (dstDirFD job);
     let fname = dst_file_name job rname pname;
     (partialDeleted, w) \<leftarrow> finish_file n E w job errors dir rname fname;
     let w = (if \<not> partialDeleted \<and> \<not> isNullRef (partial job) then snd (sys E w (Unlinkat dir fname False)) else w);
     let w = add_finished 1 w;
     w \<leftarrow> fdrc_release E w (dstDirFD job);
     w \<leftarrow> drop_part w (partial job);
     drop_part w (remote job) }"

text \<open>A thread that finishes: everything that is queued, one job after the other.\<close>

primrec finish_queue :: "nat \<Rightarrow> nat \<Rightarrow> 'db program \<Rightarrow> 'db world \<Rightarrow> 'db world option" where
  "finish_queue 0 n E w = (if finishQ w = [] then Some w else None)"
| "finish_queue (Suc k) n E w =
     (case finishQ w of
        [] \<Rightarrow> Some w
      | job # q \<Rightarrow> Option.bind (finishProcessorOne n E job (w\<lparr>finishQ := q\<rparr>)) (finish_queue k n E))"

end
