(* ===== verification/Crawl_Steps.thy ===== *)
theory Crawl_Steps
  imports Finish Hlink_Steps
begin

text \<open>
  The steps of the walk and of finishing, each with what it changes of the state: names, counted
  directories and buffers. A step on the store alone leaves every other field of the state alone.
\<close>

section \<open>What a step keeps\<close>

definition fds :: "store \<Rightarrow> addr \<Rightarrow> int option" where
  "fds st p = map_option fdrc_fd (fdrcs st p)"

text \<open>The names in \<open>Q\<close> still read the same, the directories have their descriptors, the buffers their sizes.\<close>

definition steady :: "addr set \<Rightarrow> 'db world \<Rightarrow> 'db world \<Rightarrow> bool" where
  "steady Q w w' \<longleftrightarrow> (\<forall>q \<in> Q. \<forall>s. spells (strings (wstore w)) q s \<longrightarrow> spells (strings (wstore w')) q s)
     \<and> (\<forall>p \<in> dom (fds (wstore w')). fds (wstore w) p = fds (wstore w') p)
     \<and> (\<forall>b k. buf_ready w b k \<longrightarrow> buf_ready w' b k)"

lemma steady_refl [simp]: "steady Q w w"
  by (simp add: steady_def)

lemma steady_trans: "steady Q w w1 \<Longrightarrow> steady Q w1 w2 \<Longrightarrow> steady Q w w2"
  unfolding steady_def by (elim conjE, intro conjI ballI) (blast, metis domIff, blast)

lemma steady_sub: "steady Q w w1 \<Longrightarrow> Q' \<subseteq> Q \<Longrightarrow> steady Q' w w1"
  unfolding steady_def by blast

lemma steadyD:
  assumes "steady Q w w'"
  shows "q \<in> Q \<Longrightarrow> spells (strings (wstore w)) q s \<Longrightarrow> spells (strings (wstore w')) q s"
    "buf_ready w b k \<Longrightarrow> buf_ready w' b k"
  using assms by (auto simp: steady_def)

definition only_store :: "'db world \<Rightarrow> 'db world \<Rightarrow> bool" where
  "only_store w w' \<longleftrightarrow> w' = w\<lparr>wstore := wstore w'\<rparr>"

lemma only_store_refl [simp]: "only_store w w"
  by (simp add: only_store_def)

lemma only_storeI [simp]: "only_store w (w\<lparr>wstore := st\<rparr>)"
  by (simp add: only_store_def)

lemma only_store_trans: "only_store w w1 \<Longrightarrow> only_store w1 w2 \<Longrightarrow> only_store w w2"
proof -
  assume "only_store w w1" "only_store w1 w2"
  then obtain st st' where "w1 = w\<lparr>wstore := st\<rparr>" "w2 = w1\<lparr>wstore := st'\<rparr>" unfolding only_store_def by blast
  then show ?thesis by (simp add: only_store_def)
qed

lemma only_storeD:
  assumes "only_store w w'"
  shows "trace w' = trace w" "fdSem w' = fdSem w" "hlink w' = hlink w" "bufs w' = bufs w" "jobQ w' = jobQ w"
    "finishQ w' = finishQ w" "n_finished w' = n_finished w" "n_seen w' = n_seen w" "n_removed w' = n_removed w"
    "n_dirs w' = n_dirs w" "bytes_seen w' = bytes_seen w" "bytes_will w' = bytes_will w" "bytes_done w' = bytes_done w"
    "bytes_actually w' = bytes_actually w" "queued w' = queued w"
proof -
  obtain st where "w' = w\<lparr>wstore := st\<rparr>" using assms unfolding only_store_def by blast
  then show "trace w' = trace w" "fdSem w' = fdSem w" "hlink w' = hlink w" "bufs w' = bufs w" "jobQ w' = jobQ w"
    "finishQ w' = finishQ w" "n_finished w' = n_finished w" "n_seen w' = n_seen w" "n_removed w' = n_removed w"
    "n_dirs w' = n_dirs w" "bytes_seen w' = bytes_seen w" "bytes_will w' = bytes_will w" "bytes_done w' = bytes_done w"
    "bytes_actually w' = bytes_actually w" "queued w' = queued w"
    by (simp_all add: queued_def)
qed

section \<open>Steps on the store\<close>

lemma text_step:
  assumes ok: "owned w ext dext" and "buf_ready w b k" "spells (strings (wstore w)) ref s" "length s < k" "c_name s"
  obtains w' where "name_text E b w ref = Some (s, w')" "only_store w w'" "owned w' ext dext" "steady UNIV w w'" "load w' = load w"
    "strings (wstore w') = strings (wstore w)" "fdrcs (wstore w') = fdrcs (wstore w)"
proof -
  obtain w' where w': "name_text E b w ref = Some (s, w')" "strings_ok (wstore w') (ext + path_refs (fdrcs (wstore w)) + q_names (queued w))"
    "crawl_frame w w'" "strings (wstore w') = strings (wstore w)" "fdrcs (wstore w') = fdrcs (wstore w)"
    "links (wstore w') = links (wstore w)" "queued w' = queued w" "trace w' = trace w"
    by (rule name_text_ok [OF ownedD(1) [OF ok] assms(2-5), of E])
  obtain p where p: "bufs w b = Some p" using assms(2) by (auto simp: buf_ready_def)
  have "only_store w w'"
    using w'(1) p w'(3) by (auto simp: name_text_def thread_buffer_def only_store_def crawl_frame_def split: bind_splits)
  moreover have "owned w' ext dext" using w'(2) ownedD(2) [OF ok] by (simp add: owned_def w'(5,7))
  moreover have "steady UNIV w w'"
    using buf_ready_frame [OF _ w'(3)] by (auto simp: steady_def fds_def w'(4,5))
  moreover have "load w' = load w" by (simp add: load_def w'(4,5,7))
  ultimately show thesis using that w' by simp
qed

lemma touch_step:
  assumes "buf_ready w b k"
  shows "\<exists>buf. touch_buffer E b n w = (buf, w) \<and> bufs w b = Some buf"
proof -
  obtain buf where "bufs w b = Some buf" using assms by (auto simp: buf_ready_def)
  moreover from this have "(bufs w)(b \<mapsto> buf) = bufs w" by auto
  ultimately show ?thesis by (simp add: touch_buffer_def thread_buffer_def)
qed

lemma quiet_steady: "quiet w w' \<Longrightarrow> \<forall>p. fds (wstore w') p = fds (wstore w) p \<Longrightarrow> steady UNIV w w'"
  using quiet_buf [of w _ _ w'] by (auto simp: steady_def quiet_def)

lemma inc_step:
  assumes "owned w ext dext" "p \<in># ext" "roomy w ext 0"
  obtains w' where "w_inc w p = Some w'" "only_store w w'" "owned w' (add_mset p ext) dext" "steady UNIV w w'" "load w' = load w"
    "fdrcs (wstore w') = fdrcs (wstore w)"
proof -
  obtain w' where w': "w_inc w p = Some w'" "owned w' (add_mset p ext) dext" "quiet w w'" "load w' = load w"
    "fdrcs (wstore w') = fdrcs (wstore w)" "links (wstore w') = links (wstore w)" "hinfos (wstore w') = hinfos (wstore w)"
    "\<And>q len. fresh_block (wstore w) q len \<Longrightarrow> fresh_block (wstore w') q len"
    by (rule w_inc_ok [OF assms]) blast
  have "only_store w w'" using w'(1) by (auto simp: w_inc_def)
  moreover have "steady UNIV w w'" by (rule quiet_steady [OF w'(3)]) (simp add: fds_def w'(5))
  ultimately show thesis using that w' by simp
qed

lemma incref_step:
  assumes "owned w ext dext" "p \<in># dext" "size (dext + q_dirs (queued w)) + 1 < 2 ^ 64"
  obtains w' where "incref p w = Some w'" "only_store w w'" "owned w' ext (add_mset p dext)" "steady UNIV w w'" "load w' = load w"
proof -
  obtain w' where w': "incref p w = Some w'" "owned w' ext (add_mset p dext)" "quiet w w'" "load w' = load w"
    "links (wstore w') = links (wstore w)" "hinfos (wstore w') = hinfos (wstore w)" "dom (fdrcs (wstore w')) = dom (fdrcs (wstore w))"
    "\<And>q len. fresh_block (wstore w) q len \<Longrightarrow> fresh_block (wstore w') q len"
    by (rule incref_ok [OF assms]) blast
  have "only_store w w' \<and> (\<forall>q. fds (wstore w') q = fds (wstore w) q)"
    using w'(1) by (auto simp: incref_def update_fdrc_def w_put_def fds_def split: bind_splits if_splits)
  then show thesis using that w' quiet_steady [OF w'(3)] by blast
qed

lemma drop_step:
  assumes "owned w (own p ext) dext"
  obtains w' where "drop_part w p = Some w'" "only_store w w'" "owned w' ext dext" "steady (set_mset ext) w w'" "load w' \<le> load w"
    "fdrcs (wstore w') = fdrcs (wstore w)" "steady (set_mset (ext + q_names (queued w))) w w'"
proof (cases "p = NULL")
  case True
  then show thesis using that [of w] assms by (simp add: drop_part_def isNullRef_def own_def)
next
  case False
  then have ok: "owned w (add_mset p ext) dext" using assms by (simp add: own_def)
  obtain w' where w': "w_release w p = Some w'" "owned w' ext dext" "crawl_frame w w'"
    "links (wstore w') = links (wstore w)" "load w' \<le> load w" "trace w' = trace w" "queued w' = queued w"
    "fdrcs (wstore w') = fdrcs (wstore w)" "\<And>q s. q \<in># ext \<or> q \<in># q_names (queued w) \<Longrightarrow> spells (strings (wstore w)) q s \<Longrightarrow> spells (strings (wstore w')) q s"
    by (rule name_release_ok [OF ok]) blast
  have "only_store w w'" using w'(1) by (auto simp: w_release_def)
  moreover have "steady (set_mset (ext + q_names (queued w))) w w'"
    using w'(9) buf_ready_frame [OF _ w'(3)] by (auto simp: steady_def fds_def w'(8))
  moreover from this have "steady (set_mset ext) w w'" by (rule steady_sub) simp
  ultimately show thesis using that [of w'] w' False by (simp add: drop_part_def isNullRef_def)
qed

lemma part_step:
  assumes ok: "owned w ext dext" and p: "p = NULL \<or> p \<in> dom (strings (wstore w))" and room: "roomy w ext 0"
    and s: "spells (strings (wstore w)) p s" and r: "w_part E w p s1 s2 = Some (c, w')"
  shows "only_store w w'" "owned w' (add_mset c ext) dext" "steady UNIV w w'" "load w' = load w + 1" "c \<noteq> NULL"
    "spells (strings (wstore w')) c (s @ s1 @ s2)" "fdrcs (wstore w') = fdrcs (wstore w)" "ents (wstore w') = ents (wstore w)"
proof -
  let ?N = "ext + path_refs (fdrcs (wstore w)) + q_names (queued w)"
  obtain st where st: "toStringPart (tid E) (wstore w) p s1 (length s1) s2 (length s2) = Some (c, st)" "w' = w\<lparr>wstore := st\<rparr>"
    using r by (auto simp: w_part_def)
  note sok = ownedD(1) [OF ok]
  have rr: "rc_room (wstore w) ?N" using room by (simp add: rc_room_def roomy_def)
  note t = toStringPart_ok [OF sok p rr s order.refl order.refl st(1)]
  show "only_store w w'" by (simp add: st(2))
  show "c \<noteq> NULL" by (rule t(2))
  show "spells (strings (wstore w')) c (s @ s1 @ s2)" using t(4) by (simp add: st(2))
  have views: "fdrcs st q = fdrcs (wstore w) q \<and> ents st q = ents (wstore w) q \<and> links st q = links (wstore w) q
      \<and> (\<forall>b. objects (wstore w) q = Some (Buf b) \<longrightarrow> objects st q = Some (Buf b))" for q
  proof (cases "q = c \<or> strings (wstore w) q \<noteq> None")
    case True
    then have "strings st q \<noteq> None" using t(6) by blast
    then obtain x where "objects st q = Some (Part x)" unfolding strings_iff by blast
    moreover have "objects (wstore w) q = None \<or> (\<exists>y. objects (wstore w) q = Some (Part y))"
      using True t(3) unfolding strings_iff by blast
    ultimately show ?thesis by (auto simp: fdrcs_def ents_def links_def)
  next
    case False
    then have "objects st q = objects (wstore w) q" by (intro t(7)) simp_all
    then show ?thesis by (simp add: fdrcs_def ents_def links_def)
  qed
  show F: "fdrcs (wstore w') = fdrcs (wstore w)" "ents (wstore w') = ents (wstore w)"
    using views by (simp_all add: st(2) fun_eq_iff)
  then have F': "fdrcs st = fdrcs (wstore w)" by (simp add: st(2))
  show "owned w' (add_mset c ext) dext" using t(1) ownedD(2) [OF ok] by (simp add: owned_def st(2) F' queued_def)
  have "buf_ready w' b k" if "buf_ready w b k" for b k
    using that views by (fastforce simp: buf_ready_def st(2))
  then show "steady UNIV w w'" using t(5) F(1) by (auto simp: steady_def fds_def names_kept_def st(2))
  have "strings (wstore w) c = None" by (rule strings_other [OF t(3)])
  then have "card (dom (strings st)) = card (dom (strings (wstore w))) + 1"
    unfolding t(6) using parts_okD(1) [OF strings_okD(2) [OF sok]] by (simp add: domIff)
  then show "load w' = load w + 1" by (simp add: load_def st(2) F' queued_def)
qed

end
