(* ===== verification/Finish_Steps.thy ===== *)
theory Finish_Steps
  imports Crawl_Steps
begin

text \<open>
  Finishing a job, step by step: calls to the system, giving back a directory, removing what has the
  name of the file, and the chain of calls that publish the copy.
\<close>

section \<open>Calls\<close>

lemma sys_step:
  "sys E w c = (r, w') \<longleftrightarrow> r = kernel E (trace w) c \<and> w' = w\<lparr>trace := trace w @ [c]\<rparr>"
  by (auto simp: sys_def)

lemma field_simps [simp]:
  "owned (w\<lparr>trace := t\<rparr>) = owned w" "load (w\<lparr>trace := t\<rparr>) = load w" "roomy (w\<lparr>trace := t\<rparr>) = roomy w"
  "owned (w\<lparr>fdSem := n\<rparr>) = owned w" "load (w\<lparr>fdSem := n\<rparr>) = load w" "roomy (w\<lparr>fdSem := n\<rparr>) = roomy w"
  "owned (w\<lparr>n_finished := n\<rparr>) = owned w" "load (w\<lparr>n_finished := n\<rparr>) = load w" "roomy (w\<lparr>n_finished := n\<rparr>) = roomy w"
  "owned (w\<lparr>n_removed := n\<rparr>) = owned w" "load (w\<lparr>n_removed := n\<rparr>) = load w" "roomy (w\<lparr>n_removed := n\<rparr>) = roomy w"
  "owned (w\<lparr>n_seen := n\<rparr>) = owned w" "load (w\<lparr>n_seen := n\<rparr>) = load w" "roomy (w\<lparr>n_seen := n\<rparr>) = roomy w"
  "owned (w\<lparr>bytes_done := n\<rparr>) = owned w" "load (w\<lparr>bytes_done := n\<rparr>) = load w" "roomy (w\<lparr>bytes_done := n\<rparr>) = roomy w"
  "owned (w\<lparr>bytes_seen := n\<rparr>) = owned w" "load (w\<lparr>bytes_seen := n\<rparr>) = load w" "roomy (w\<lparr>bytes_seen := n\<rparr>) = roomy w"
  "owned (w\<lparr>bytes_will := n\<rparr>) = owned w" "load (w\<lparr>bytes_will := n\<rparr>) = load w" "roomy (w\<lparr>bytes_will := n\<rparr>) = roomy w"
  "owned (w\<lparr>bytes_actually := n\<rparr>) = owned w" "load (w\<lparr>bytes_actually := n\<rparr>) = load w" "roomy (w\<lparr>bytes_actually := n\<rparr>) = roomy w"
  by (simp_all add: fun_eq_iff owned_def load_def roomy_def queued_def)

text \<open>What only depends on the store and the buffers.\<close>

definition same_names :: "'db world \<Rightarrow> 'db world \<Rightarrow> bool" where
  "same_names w w' \<longleftrightarrow> wstore w' = wstore w \<and> bufs w' = bufs w \<and> queued w' = queued w"

lemma same_namesD:
  assumes "same_names w w'"
  shows "owned w' = owned w" "load w' = load w" "roomy w' = roomy w" "buf_ready w' b k = buf_ready w b k" "fd_of w' p = fd_of w p"
    "steady Q w w'" "steady Q w' w"
  using assms by (simp_all add: same_names_def fun_eq_iff owned_def load_def roomy_def buf_ready_def fd_of_def steady_def)

section \<open>Directories\<close>

lemma fd_of_fds: "fd_of w p = fds (wstore w) p"
  by (simp add: fd_of_def fds_def)

lemma release_dir_step:
  assumes "owned w ext (add_mset p dext)" "roomy w ext 0"
  obtains w' where "fdrc_release E w p = Some w'" "owned w' ext dext" "steady (set_mset ext) w w'" "load w' \<le> load w + 1"
    "w' = w\<lparr>wstore := wstore w', trace := trace w', finishQ := finishQ w', fdSem := fdSem w'\<rparr>"
    "trace w' = trace w \<or> (\<exists>fd. trace w' = trace w @ [Close fd])"
    "p \<in># dext + q_dirs (queued w) \<Longrightarrow> only_store w w'" "steady (set_mset (ext + q_names (queued w))) w w'"
    "\<forall>q \<in># dext. dir_view (wstore w') q = dir_view (wstore w) q"
proof -
  obtain w' where w': "fdrc_release E w p = Some w'" "owned w' ext dext" "crawl_frame w w'" "load w' \<le> load w + 1"
    "trace w' = trace w \<or> (\<exists>fd. trace w' = trace w @ [Close fd])"
    "\<And>q s. q \<in># ext \<or> q \<in># q_names (queued w) \<Longrightarrow> spells (strings (wstore w)) q s \<Longrightarrow> spells (strings (wstore w')) q s"
    "\<And>q g. fdrcs (wstore w') q = Some g \<Longrightarrow> map_option fdrc_fd (fdrcs (wstore w) q) = Some (fdrc_fd g)"
    "\<forall>q \<in># dext. dir_view (wstore w') q = dir_view (wstore w) q"
    using fdrc_release_ok [OF assms, of E] by blast
  note d = ownedD(2) [OF assms(1)]
  obtain f where f: "fdrcs (wstore w) p = Some f"
    using dirs_okD(1) [OF d] by (metis domD union_iff union_single_eq_member set_mset_add_mset_insert insertI1)
  note e = fdrc_release_effect [OF f w'(1)]
  have rc: "fdrc_rc f = count (add_mset p dext + q_dirs (queued w)) p" by (rule dirs_okD(3) [OF d f])
  have "steady (set_mset (ext + q_names (queued w))) w w'"
    using w'(6,7) buf_ready_frame [OF _ w'(3)] by (auto simp: steady_def fds_def)
  moreover from this have "steady (set_mset ext) w w'" by (rule steady_sub) simp
  moreover have "only_store w w'" if "p \<in># dext + q_dirs (queued w)"
  proof -
    have "fdrc_rc f \<noteq> 1" using that unfolding rc by (auto simp: not_in_iff)
    then have "trace w' = trace w \<and> finishQ w' = finishQ w \<and> fdSem w' = fdSem w" by (rule e(1))
    then show ?thesis unfolding only_store_def by (subst e(4)) simp
  qed
  ultimately show thesis using that [of w'] w' e(4) by blast
qed

section \<open>What has the name of the file\<close>

text \<open>If it is not a directory, it is removed with one call.\<close>

lemma remove_shallow:
  assumes ok: "owned w (own path ext) dext" and p: "path \<noteq> NULL" and b: "buf_ready w Remove_remote k"
    and s: "spells (strings (wstore w)) path s" "length s < k" "c_name s"
    and k: "ret (kernel E (trace w) (Unlinkat fd s False)) = 0 \<or> errno (kernel E (trace w) (Unlinkat fd s False)) \<noteq> EISDIR"
  obtains rc w' where "recursiveRemove (Suc n) E fd 0 path w = Some (rc, w')" "owned w' ext dext" "steady (set_mset ext) w w'"
    "load w' \<le> load w" "w' = w\<lparr>wstore := wstore w', trace := trace w @ [Unlinkat fd s False], n_removed := n_removed w'\<rparr>"
proof -
  obtain w1 where w1: "name_text E Remove_remote w path = Some (s, w1)" "only_store w w1" "owned w1 (own path ext) dext"
    "steady UNIV w w1" "load w1 = load w" by (rule text_step [OF ok b s]) blast
  obtain buf where buf: "bufs w1 Remove_remote = Some buf" using b only_storeD(4) [OF w1(2)] by (auto simp: buf_ready_def)
  define r where "r = kernel E (trace w) (Unlinkat fd s False)"
  define w2 where "w2 = w1\<lparr>trace := trace w @ [Unlinkat fd s False], n_removed := (if ret r = 0 then inc64 (n_removed w) else n_removed w)\<rparr>"
  have f: "\<exists>rc. first_unlink E w1 fd s 0 = (Some rc, w2)"
    using k only_storeD(1,9) [OF w1(2)] by (auto simp: first_unlink_def sys_def add_removed_def w2_def r_def)
  then obtain rc where rc: "first_unlink E w1 fd s 0 = (Some rc, w2)" by blast
  have sn: "same_names w1 w2" by (simp add: same_names_def w2_def queued_def)
  have ok2: "owned w2 (own path ext) dext" using w1(3) same_namesD(1) [OF sn] by simp
  obtain w3 where w3: "drop_part w2 path = Some w3" "only_store w2 w3" "owned w3 ext dext" "steady (set_mset ext) w2 w3" "load w3 \<le> load w2"
    by (rule drop_step [OF ok2]) blast
  have "recursiveRemove (Suc n) E fd 0 path w = Some (rc, w3)"
    using w1(1) rc w3(1) buf by (simp add: case_prod_beta)
  moreover have "steady (set_mset ext) w w3"
    by (rule steady_trans [OF steady_sub [OF w1(4)]], simp)
      (rule steady_trans [OF same_namesD(6) [OF sn] w3(4)])
  moreover have "w3 = w\<lparr>wstore := wstore w3, trace := trace w @ [Unlinkat fd s False], n_removed := n_removed w3\<rparr>"
  proof -
    obtain st st3 where "w1 = w\<lparr>wstore := st\<rparr>" "w3 = w2\<lparr>wstore := st3\<rparr>" using w1(2) w3(2) unfolding only_store_def by blast
    then show ?thesis by (simp add: w2_def)
  qed
  ultimately show thesis using that w3(3,5) w1(5) same_namesD(2) [OF sn] by simp
qed

section \<open>Publishing\<close>

text \<open>The calls that the metadata of a file need, and how far a list of calls gets.\<close>

definition metadata_calls :: "'db program \<Rightarrow> statx \<Rightarrow> statx \<Rightarrow> int \<Rightarrow> string \<Rightarrow> syscall list" where
  "metadata_calls E st dest dir name =
     (if times_differ E st dest then [Utimensat dir name (fst (new_times E st)) (snd (new_times E st))] else [])
     @ (if stx_uid dest \<noteq> stx_uid st \<or> stx_gid dest \<noteq> stx_gid st then [Fchownat dir name (stx_uid st) (stx_gid st)] else [])
     @ (if \<not> S_ISLNK (stx_mode st) \<and> stx_mode dest \<noteq> stx_mode st then [Fchmodat dir name (stx_mode st)] else [])"

fun all_ok :: "'db program \<Rightarrow> syscall list \<Rightarrow> syscall list \<Rightarrow> bool" where
  "all_ok E tr [] \<longleftrightarrow> True"
| "all_ok E tr (c # cs) \<longleftrightarrow> 0 \<le> ret (kernel E tr c) \<and> all_ok E (tr @ [c]) cs"

fun tried :: "'db program \<Rightarrow> syscall list \<Rightarrow> syscall list \<Rightarrow> syscall list" where
  "tried E tr [] = []"
| "tried E tr (c # cs) = c # (if 0 \<le> ret (kernel E tr c) then tried E (tr @ [c]) cs else [])"

lemma set_metadata_calls:
  "set_metadata E w job dir name dest =
     (let cs = metadata_calls E (stx job) dest dir name in (all_ok E (trace w) cs, w\<lparr>trace := trace w @ tried E (trace w) cs\<rparr>))"
  by (simp add: set_metadata_def metadata_calls_def step_if_def sys_def Let_def)

lemma publish_step:
  fixes fd :: int and fname :: string and dest :: statx
  assumes ok: "owned w ext dext" and r: "remote job \<in># ext" "partial job \<noteq> NULL" "stx_nlink (stx job) \<le> 1" "\<not> isDot job"
    and b: "buf_ready w Remove_remote k" and s: "spells (strings (wstore w)) (remote job) s" "length s < k" "c_name s"
    and room: "roomy w ext 0"
    and k: "ret (kernel E (trace w) (Unlinkat (dst_root E) s False)) = 0 \<or> errno (kernel E (trace w) (Unlinkat (dst_root E) s False)) \<noteq> EISDIR"
  defines "t1 \<equiv> trace w @ [Unlinkat (dst_root E) s False]" and "dn \<equiv> base_name s"
  defines "t2 \<equiv> t1 @ [Renameat fd fname fd dn]" and "meta \<equiv> metadata_calls E (stx job) dest fd dn"
  obtains p w' where "publish (Suc n) E w job fd s fname dest = Some (p, w')" "owned w' ext dext" "steady (set_mset ext) w w'"
    "load w' \<le> load w"
    "w' = w\<lparr>wstore := wstore w', n_removed := n_removed w', trace := (if ret (kernel E t1 (Renameat fd fname fd dn)) < 0 then t2 else t2 @ tried E t2 meta)\<rparr>"
    "p = (if ret (kernel E t1 (Renameat fd fname fd dn)) < 0 then Not_renamed else if all_ok E t2 meta then Published else Not_set)"
proof -
  obtain w1 where w1: "w_inc w (remote job) = Some w1" "only_store w w1" "owned w1 (add_mset (remote job) ext) dext"
    "steady UNIV w w1" "load w1 = load w" by (rule inc_step [OF ok r(1) room]) blast
  have p0: "remote job \<noteq> NULL"
    using parts_ok_not_null [OF strings_okD(2) [OF ownedD(1) [OF w1(3)]], of "remote job"] by simp
  have ok1: "owned w1 (own (remote job) ext) dext" using w1(3) p0 by (simp add: own_def)
  note s1 = steadyD(1) [OF w1(4) UNIV_I s(1)]
  have k1: "ret (kernel E (trace w1) (Unlinkat (dst_root E) s False)) = 0 \<or> errno (kernel E (trace w1) (Unlinkat (dst_root E) s False)) \<noteq> EISDIR"
    using k by (simp add: only_storeD(1) [OF w1(2)])
  obtain rc w2 where w2: "recursiveRemove (Suc n) E (dst_root E) 0 (remote job) w1 = Some (rc, w2)" "owned w2 ext dext"
    "steady (set_mset ext) w1 w2" "load w2 \<le> load w1"
    "w2 = w1\<lparr>wstore := wstore w2, trace := trace w1 @ [Unlinkat (dst_root E) s False], n_removed := n_removed w2\<rparr>"
    by (rule remove_shallow [OF ok1 p0 steadyD(2) [OF w1(4) b] s1 s(2,3) k1, of n]) blast
  have t: "trace w1 = trace w" by (rule only_storeD(1) [OF w1(2)])
  obtain st where "w1 = w\<lparr>wstore := st\<rparr>" using w1(2) unfolding only_store_def by blast
  then have "w2 = w\<lparr>wstore := wstore w2, trace := t1, n_removed := n_removed w2\<rparr>" using w2(5) t by (simp add: t1_def)
  then obtain st2 n2 where e2: "w2 = w\<lparr>wstore := st2, trace := t1, n_removed := n2\<rparr>" by blast
  then have t2: "trace w2 = t1" by simp
  define c where "c = Renameat fd fname fd dn"
  define x where "x = kernel E t1 c"
  define w3 where "w3 = w2\<lparr>trace := t2\<rparr>"
  define w' where "w' = (if ret x < 0 then w3 else w3\<lparr>trace := t2 @ tried E t2 meta\<rparr>)"
  define p where "p = (if ret x < 0 then Not_renamed else if all_ok E t2 meta then Published else Not_set)"
  have step: "step_if True E w2 c = (0 \<le> ret x, w3)" by (simp add: step_if_def sys_def t2 x_def w3_def t2_def c_def)
  have meta: "set_metadata E w3 job fd dn dest = (all_ok E t2 meta, w3\<lparr>trace := t2 @ tried E t2 meta\<rparr>)"
    by (simp add: set_metadata_calls Let_def meta_def w3_def)
  have dn: "dst_remote_name job s = dn" using r(4) by (simp add: dst_remote_name_def dn_def)
  have "publish (Suc n) E w job fd s fname dest = Some (p, w')"
    using r(2,3) w1(1) w2(1) step meta by (simp add: publish_def dn isNullRef_def c_def [symmetric] p_def w'_def del: recursiveRemove.simps)
  moreover have sn: "same_names w2 w'" by (simp add: same_names_def w'_def w3_def queued_def)
  moreover have "w' = w\<lparr>wstore := wstore w', n_removed := n_removed w', trace := (if ret x < 0 then t2 else t2 @ tried E t2 meta)\<rparr>"
    by (simp add: w'_def w3_def e2)
  moreover have "steady (set_mset ext) w w'"
    by (rule steady_trans [OF steady_sub [OF w1(4)]], simp) (rule steady_trans [OF w2(3) same_namesD(6) [OF sn]])
  ultimately show thesis
    using that [of p w'] w2(2,4) w1(5) same_namesD(1,2) [OF sn] by (simp add: x_def c_def p_def)
qed

section \<open>A transferred file\<close>

text \<open>A job of a regular file with one name, with the two texts of its names and its directory.\<close>

definition copy_job :: "'db world \<Rightarrow> addr multiset \<Rightarrow> addr multiset \<Rightarrow> file_copy_job \<Rightarrow> string \<Rightarrow> string \<Rightarrow> int \<Rightarrow> bool" where
  "copy_job w ext dext job s p fd \<longleftrightarrow>
     owned w (add_mset (remote job) (add_mset (partial job) ext)) (add_mset (dstDirFD job) dext)
     \<and> spells (strings (wstore w)) (remote job) s \<and> c_name s \<and> spells (strings (wstore w)) (partial job) p \<and> c_name p
     \<and> fd_of w (dstDirFD job) = Some fd \<and> \<not> isDot job \<and> S_ISREG (stx_mode (stx job)) \<and> stx_nlink (stx job) \<le> 1
     \<and> 0 \<le> srcFd job \<and> 0 \<le> dstFd job \<and> nErrors job + 1 < 2 ^ 64"

text \<open>The buffers of the finishing thread, and room for a reference.\<close>

definition finish_ready :: "'db world \<Rightarrow> addr multiset \<Rightarrow> nat \<Rightarrow> bool" where
  "finish_ready w ext k \<longleftrightarrow> buf_ready w Finish_remote k \<and> buf_ready w Finish_partial k \<and> buf_ready w Remove_remote k
     \<and> roomy w ext 4"

lemma steady_fd: "steady Q w w' \<Longrightarrow> fd_of w p = Some fd \<Longrightarrow> p \<in> dom (fds (wstore w')) \<Longrightarrow> fd_of w' p = Some fd"
  unfolding steady_def fd_of_fds by metis

lemma dirs_in: "owned w ext dext \<Longrightarrow> p \<in># dext \<Longrightarrow> p \<in> dom (fds (wstore w))"
  using dirs_okD(1) [OF ownedD(2)] by (force simp: fds_def)

text \<open>Publishing the file, or not, once its descriptors are closed and its names are in the buffers.\<close>

lemma finish_file_ok:
  fixes E :: "'db program"
  assumes ok: "owned w N D" and rin: "remote job \<in># N" and nn: "partial job \<noteq> NULL" and room: "roomy w N 0"
    and job: "stx_nlink (stx job) \<le> 1" "\<not> isDot job" "S_ISREG (stx_mode (stx job))" and b: "buf_ready w Remove_remote k"
    and sp: "spells (strings (wstore w)) (remote job) s" "length s < k" "c_name s"
    and notdir: "ret (kernel E (trace w @ [Statx fd pn]) (Unlinkat (dst_root E) s False)) = 0
      \<or> errno (kernel E (trace w @ [Statx fd pn]) (Unlinkat (dst_root E) s False)) \<noteq> EISDIR"
    and dn_def: "dn = base_name s" and r_def: "r = kernel E (trace w) (Statx fd pn)"
    and good: "good \<longleftrightarrow> 0 \<le> ret r \<and> stx_size (out_stx r) = stx_size (stx job) \<and> errors = 0"
    and t2_def: "t2 = trace w @ [Statx fd pn, Unlinkat (dst_root E) s False]"
    and t3_def: "t3 = t2 @ [Renameat fd pn fd dn]" and meta_def: "meta = metadata_calls E (stx job) (out_stx r) fd dn"
    and renamed_def: "renamed \<longleftrightarrow> 0 \<le> ret (kernel E t2 (Renameat fd pn fd dn))"
  shows "\<exists>pd w'. finish_file (Suc n) E w job errors fd s pn = Some (pd, w') \<and> owned w' N D \<and> steady (set_mset N) w w'
    \<and> load w' \<le> load w \<and> (pd \<longleftrightarrow> good \<and> renamed)
    \<and> trace w' = (if \<not> good then trace w @ [Statx fd pn] else if \<not> renamed then t3 else t3 @ tried E t3 meta)
    \<and> bytes_done w' = (if good \<and> renamed \<and> all_ok E t3 meta \<and> firstLook job then (bytes_done w + stx_size (stx job)) mod 2 ^ 64 else bytes_done w)
    \<and> n_finished w' = n_finished w \<and> jobQ w' = jobQ w"
proof -
  define w4 where "w4 = w\<lparr>trace := trace w @ [Statx fd pn]\<rparr>"
  have sx: "statx_wrapper E w fd pn = (r, w4)" by (simp add: statx_wrapper_def sys_def r_def w4_def)
  have sn4: "same_names w w4" by (simp add: same_names_def w4_def queued_def)
  note e4 = same_namesD [OF sn4]
  show ?thesis
  proof (cases good)
    case False
    then have "finish_file (Suc n) E w job errors fd s pn = Some (False, w4)"
      unfolding finish_file_def sx using job(3) unfolding good by auto
    then show ?thesis using False ok e4 by (intro exI [of _ False] exI [of _ w4]) (simp add: w4_def)
  next
    case True
    have ok4: "owned w4 N D" and room4: "roomy w4 N 0" and b4: "buf_ready w4 Remove_remote k" using ok room b e4 by simp_all
    have s4: "spells (strings (wstore w4)) (remote job) s" using sp(1) by (simp add: w4_def)
    have t1: "trace w4 @ [Unlinkat (dst_root E) s False] = t2" by (simp add: w4_def t2_def)
    have k4: "ret (kernel E (trace w4) (Unlinkat (dst_root E) s False)) = 0
        \<or> errno (kernel E (trace w4) (Unlinkat (dst_root E) s False)) \<noteq> EISDIR"
      using notdir by (simp add: w4_def)
    obtain pr w5 where w5: "publish (Suc n) E w4 job fd s pn (out_stx r) = Some (pr, w5)" "owned w5 N D" "steady (set_mset N) w4 w5"
      "load w5 \<le> load w4"
      "w5 = w4\<lparr>wstore := wstore w5, n_removed := n_removed w5, trace := (if ret (kernel E t2 (Renameat fd pn fd dn)) < 0 then t3 else t3 @ tried E t3 meta)\<rparr>"
      "pr = (if ret (kernel E t2 (Renameat fd pn fd dn)) < 0 then Not_renamed else if all_ok E t3 meta then Published else Not_set)"
      by (rule publish_step [OF ok4 rin nn job(1,2) b4 s4 sp(2,3) room4 k4, of n fd pn "out_stx r",
            unfolded t1 dn_def [symmetric] t3_def [symmetric] meta_def [symmetric]]) blast
    have tr5: "(if ret (kernel E t2 (Renameat fd pn fd dn)) < 0 then t3 else t3 @ tried E t3 meta)
        = (if renamed then t3 @ tried E t3 meta else t3)" by (auto simp: renamed_def)
    obtain st5 n5 where w5e: "w5 = w4\<lparr>wstore := st5, n_removed := n5, trace := (if renamed then t3 @ tried E t3 meta else t3)\<rparr>"
      using w5(5) unfolding tr5 by blast
    define w6 where "w6 = (if pr = Published \<and> firstLook job then count_bytes job w5 else w5)"
    have "finish_file (Suc n) E w job errors fd s pn = Some (pr \<noteq> Not_renamed, w6)"
      unfolding finish_file_def sx using True job(3) w5(1) unfolding good w6_def by simp
    moreover have sn6: "same_names w5 w6" by (simp add: same_names_def w6_def count_bytes_def queued_def Let_def)
    moreover have "steady (set_mset N) w w6"
      by (rule steady_trans [OF e4(6) steady_trans [OF w5(3) same_namesD(6) [OF sn6]]])
    moreover have "pr \<noteq> Not_renamed \<longleftrightarrow> renamed" "pr = Published \<longleftrightarrow> renamed \<and> all_ok E t3 meta"
      using w5(6) by (auto simp: renamed_def)
    moreover have "trace w6 = trace w5" "n_finished w6 = n_finished w5" "jobQ w6 = jobQ w5"
      "bytes_done w6 = (if pr = Published \<and> firstLook job then (bytes_done w5 + stx_size (stx job)) mod 2 ^ 64 else bytes_done w5)"
      by (simp_all add: w6_def count_bytes_def Let_def)
    ultimately show ?thesis
      using True w5(2,4) same_namesD(1,2) [OF sn6] e4(2)
      by (intro exI [of _ "pr \<noteq> Not_renamed"] exI [of _ w6]) (simp add: w5e w4_def)
  qed
qed

text \<open>The directory and the two names of a job are given back.\<close>

lemma give_back_job:
  assumes ok: "owned w (add_mset r (add_mset q ext)) (add_mset d dext)" and room: "roomy w (add_mset r (add_mset q ext)) 0"
    and nn: "r \<noteq> NULL" "q \<noteq> NULL"
  obtains w1 w2 w3 cs where "fdrc_release E w d = Some w1" "drop_part w1 q = Some w2" "drop_part w2 r = Some w3" "owned w3 ext dext"
    "trace w3 = trace w @ cs" "\<forall>c \<in> set cs. is_close c" "bytes_done w3 = bytes_done w" "n_finished w3 = n_finished w" "jobQ w3 = jobQ w"
proof -
  obtain w1 where w1: "fdrc_release E w d = Some w1" "owned w1 (add_mset r (add_mset q ext)) dext"
    "w1 = w\<lparr>wstore := wstore w1, trace := trace w1, finishQ := finishQ w1, fdSem := fdSem w1\<rparr>"
    "trace w1 = trace w \<or> (\<exists>fd. trace w1 = trace w @ [Close fd])"
    by (rule release_dir_step [OF ok room]) blast
  have ok1: "owned w1 (own q (add_mset r ext)) dext" using w1(2) nn by (simp add: own_def add_mset_commute)
  obtain w2 where w2: "drop_part w1 q = Some w2" "only_store w1 w2" "owned w2 (add_mset r ext) dext"
    by (rule drop_step [OF ok1]) blast
  have ok2: "owned w2 (own r ext) dext" using w2(3) nn by (simp add: own_def)
  obtain w3 where w3: "drop_part w2 r = Some w3" "only_store w2 w3" "owned w3 ext dext" by (rule drop_step [OF ok2]) blast
  obtain cs where cs: "trace w1 = trace w @ cs" "\<forall>c \<in> set cs. is_close c"
    using w1(4) that by (metis append_Nil2 empty_iff empty_set is_close.simps(1) set_ConsD)
  have s1: "bytes_done w1 = bytes_done w" "n_finished w1 = n_finished w" "jobQ w1 = jobQ w" by (subst w1(3), simp)+
  show thesis
    by (rule that [OF w1(1) w2(1) w3(1,3) _ cs(2)]) (use cs(1) s1 only_storeD [OF w2(2)] only_storeD [OF w3(2)] in simp_all)
qed

lemma finish_one_ok:
  fixes E :: "'db program"
  assumes job: "copy_job w ext dext job s p fd" and ready: "finish_ready w ext k" and len: "length s < k" "length p < k"
    and sz_def: "sz = stx_size (stx job)" and pn_def: "pn = base_name p" and dn_def: "dn = base_name s"
    and t_def: "t = trace w @ [Close (srcFd job), Ftruncate (dstFd job) sz, Close (dstFd job)]"
    and r_def: "r = kernel E t (Statx fd pn)"
    and notdir: "ret (kernel E (t @ [Statx fd pn]) (Unlinkat (dst_root E) s False)) = 0
    \<or> errno (kernel E (t @ [Statx fd pn]) (Unlinkat (dst_root E) s False)) \<noteq> EISDIR"
    and good_def: "good \<longleftrightarrow> 0 \<le> ret r \<and> stx_size (out_stx r) = sz \<and> nErrors job = 0
      \<and> 0 \<le> ret (kernel E (trace w @ [Close (srcFd job)]) (Ftruncate (dstFd job) sz))"
    and t2_def: "t2 = t @ [Statx fd pn, Unlinkat (dst_root E) s False]"
    and t3_def: "t3 = t2 @ [Renameat fd pn fd dn]" and meta_def: "meta = metadata_calls E (stx job) (out_stx r) fd dn"
    and renamed_def: "renamed \<longleftrightarrow> 0 \<le> ret (kernel E t2 (Renameat fd pn fd dn))"
  obtains w' cl where "finishProcessorOne (Suc n) E job w = Some w'" "owned w' ext dext"
    "trace w' = (if \<not> good then t @ [Statx fd pn, Unlinkat fd pn False]
       else if \<not> renamed then t3 @ [Unlinkat fd pn False] else t3 @ tried E t3 meta) @ cl" "\<forall>c \<in> set cl. is_close c"
    "bytes_done w' = (if good \<and> renamed \<and> all_ok E t3 meta \<and> firstLook job then (bytes_done w + sz) mod 2 ^ 64 else bytes_done w)"
    "n_finished w' = (n_finished w + 1) mod 2 ^ 64" "jobQ w' = jobQ w"
proof -
  let ?D = "add_mset (dstDirFD job) dext" and ?N = "add_mset (remote job) (add_mset (partial job) ext)"
  have j: "owned w ?N ?D" "spells (strings (wstore w)) (remote job) s" "c_name s" "spells (strings (wstore w)) (partial job) p" "c_name p"
    "fd_of w (dstDirFD job) = Some fd" "\<not> isDot job" "S_ISREG (stx_mode (stx job))" "stx_nlink (stx job) \<le> 1"
    "0 \<le> srcFd job" "0 \<le> dstFd job" "nErrors job + 1 < 2 ^ 64" using job by (simp_all add: copy_job_def)
  have b: "buf_ready w Finish_remote k" "buf_ready w Finish_partial k" "buf_ready w Remove_remote k" "roomy w ext 4"
    using ready by (simp_all add: finish_ready_def)
  have nn: "remote job \<noteq> NULL" "partial job \<noteq> NULL"
    using parts_ok_not_null [OF strings_okD(2) [OF ownedD(1) [OF j(1)]], of "remote job"]
      parts_ok_not_null [OF strings_okD(2) [OF ownedD(1) [OF j(1)]], of "partial job"] by simp_all
  define errors where "errors = (if ret (kernel E (trace w @ [Close (srcFd job)]) (Ftruncate (dstFd job) sz)) < 0
    then inc64 (nErrors job) else nErrors job)"
  define w1 where "w1 = w\<lparr>trace := t, fdSem := fdSem w + 2\<rparr>"
  have cl: "close_files E w job = (errors, w1)"
    using j(8,10,11) by (simp add: close_files_def w_close_def sys_def errors_def w1_def t_def sz_def)
  have sn1: "same_names w w1" by (simp add: same_names_def w1_def queued_def)
  note e1 = same_namesD [OF sn1]
  have st1: "wstore w1 = wstore w" by (simp add: w1_def)
  obtain w2 where w2: "name_text E Finish_remote w1 (remote job) = Some (s, w2)" "only_store w1 w2" "owned w2 ?N ?D"
    "steady UNIV w1 w2" "load w2 = load w1"
    by (rule text_step [of w1 ?N ?D Finish_remote k "remote job" s E]) (use j b len e1 st1 in simp_all)
  note k2 = steadyD(2) [OF steady_trans [OF steady_sub [OF e1(6)] w2(4)], of UNIV, simplified]
  obtain pb where pb: "touch_buffer E Finish_partial PATH_MAX w2 = (pb, w2)"
    using touch_step [OF k2 [OF b(2)], of E PATH_MAX] by blast
  have p2: "spells (strings (wstore w2)) (partial job) p" using steadyD(1) [OF w2(4) UNIV_I] j(4) st1 by simp
  obtain w3 where w3: "name_text E Finish_partial w2 (partial job) = Some (p, w3)" "only_store w2 w3" "owned w3 ?N ?D"
    "steady UNIV w2 w3" "load w3 = load w2"
    by (rule text_step [OF w2(3) k2 [OF b(2)] p2 len(2) j(5)]) blast
  have os: "only_store w1 w3" by (rule only_store_trans [OF w2(2) w3(2)])
  then obtain st3 where w3e: "w3 = w1\<lparr>wstore := st3\<rparr>" unfolding only_store_def by blast
  have st03: "steady UNIV w w3" by (rule steady_trans [OF e1(6) steady_trans [OF w2(4) w3(4)]])
  have fd3: "fd_of w3 (dstDirFD job) = Some fd" by (rule steady_fd [OF st03 j(6) dirs_in [OF w3(3)]]) simp
  have load3: "load w3 = load w" using w3(5) w2(5) e1(2) by simp
  have fname: "dst_file_name job s p = pn" using j(7) nn(2) by (simp add: dst_file_name_def isNullRef_def pn_def)
  have good: "good \<longleftrightarrow> 0 \<le> ret r \<and> stx_size (out_stx r) = stx_size (stx job) \<and> errors = 0"
    using j(12) by (auto simp: good_def errors_def sz_def split: if_splits)
  have tr3: "trace w3 = t" "bytes_done w3 = bytes_done w" "n_finished w3 = n_finished w" "jobQ w3 = jobQ w" by (simp_all add: w3e w1_def)
  have rin: "remote job \<in># ?N" by simp
  have room3: "roomy w3 ?N 0" using b(4) load3 by (simp add: roomy_load)
  have s3: "spells (strings (wstore w3)) (remote job) s" using steadyD(1) [OF st03 UNIV_I j(2)] .
  have b3: "buf_ready w3 Remove_remote k" using k2 [OF b(3)] steadyD(2) [OF w3(4)] by simp
  have "\<exists>pd w5. finish_file (Suc n) E w3 job errors fd s pn = Some (pd, w5) \<and> owned w5 ?N ?D \<and> steady (set_mset ?N) w3 w5
    \<and> load w5 \<le> load w3 \<and> (pd \<longleftrightarrow> good \<and> renamed)
    \<and> trace w5 = (if \<not> good then trace w3 @ [Statx fd pn] else if \<not> renamed then t3 else t3 @ tried E t3 meta)
    \<and> bytes_done w5 = (if good \<and> renamed \<and> all_ok E t3 meta \<and> firstLook job then (bytes_done w3 + stx_size (stx job)) mod 2 ^ 64 else bytes_done w3)
    \<and> n_finished w5 = n_finished w3 \<and> jobQ w5 = jobQ w3"
    by (rule finish_file_ok [OF w3(3) rin nn(2) room3 j(9,7,8) b3 s3 len(1) j(3) _ dn_def _ good _ t3_def meta_def renamed_def])
      (use notdir in \<open>simp_all add: tr3 t2_def r_def\<close>)
  then obtain pd w5 where w5: "finish_file (Suc n) E w3 job errors fd s pn = Some (pd, w5)" "owned w5 ?N ?D"
    "load w5 \<le> load w" "pd \<longleftrightarrow> good \<and> renamed"
    "trace w5 = (if \<not> good then t @ [Statx fd pn] else if \<not> renamed then t3 else t3 @ tried E t3 meta)"
    "bytes_done w5 = (if good \<and> renamed \<and> all_ok E t3 meta \<and> firstLook job then (bytes_done w + sz) mod 2 ^ 64 else bytes_done w)"
    "n_finished w5 = n_finished w" "jobQ w5 = jobQ w" unfolding tr3 load3 sz_def by blast
  define w6 where "w6 = add_finished 1 (if pd then w5 else w5\<lparr>trace := trace w5 @ [Unlinkat fd pn False]\<rparr>)"
  have sn6: "same_names w5 w6" by (simp add: same_names_def w6_def queued_def add_finished_def)
  have ok6: "owned w6 ?N ?D" using w5(2) same_namesD(1) [OF sn6] by simp
  have room6: "roomy w6 ?N 0" using b(4) w5(3) same_namesD(2) [OF sn6] by (simp add: roomy_load)
  obtain w7 w8 w9 cs where w9: "fdrc_release E w6 (dstDirFD job) = Some w7" "drop_part w7 (partial job) = Some w8" "drop_part w8 (remote job) = Some w9"
      "owned w9 ext dext" "trace w9 = trace w6 @ cs" "\<forall>c \<in> set cs. is_close c"
      "bytes_done w9 = bytes_done w6" "n_finished w9 = n_finished w6" "jobQ w9 = jobQ w6"
    by (rule give_back_job [OF ok6 room6 nn]) blast
  have f: "finishProcessorOne (Suc n) E job w = Some w9"
    using cl w2(1) pb w3(1) fd3 w5(1) w9(1-3) nn(2)
    by (cases pd) (simp_all add: finishProcessorOne_def isNullRef_def fname w6_def sys_def case_prod_beta)
  show thesis
    by (rule that [OF f w9(4) _ w9(6)]) (use w5(4-8) in \<open>auto simp: w9(5,7-9) w6_def add_finished_def\<close>)
qed

end
