(* ===== verification/Crawl_Sample.thy ===== *)
theory Crawl_Sample
  imports Hlink_Sample Finish_Steps
begin

text \<open>
  A state in which the properties of the walk, of finishing and of removing apply: the file \<open>f\<close>, its
  copy \<open>f.partial\<close>, the root in the source and at the destination, and three buffers; eight slots are free.
\<close>

definition crawl_dir :: "int \<Rightarrow> bool \<Rightarrow> addr \<Rightarrow> fdrc" where
  "crawl_dir fd dst path = \<lparr>fdrc_rc = 1, fdrc_fd = fd, fdrc_path = path, fdrc_dst = dst, fdrc_srcStx = zero_statx\<rparr>"

definition crawl_store :: "buddy \<Rightarrow> addr list \<Rightarrow> store" where
  "crawl_store b ps = put_object (ps ! 0) (Part (sample_part ''.'' 2)) (put_object (ps ! 1) (Part (sample_part ''f'' 1))
     (put_object (ps ! 2) (Part (sample_part ''f.partial'' 1)) (put_object (ps ! 3) (Fdrc (crawl_dir 5 False (ps ! 0)))
     (put_object (ps ! 4) (Fdrc (crawl_dir 6 True (ps ! 0))) (put_object (ps ! 5) (Buf (replicate 64 NUL))
     (put_object (ps ! 6) (Buf (replicate 64 NUL)) (put_object (ps ! 7) (Buf (replicate 64 NUL))
     \<lparr>heap = page_heap b, heap_mem = (\<lambda>_. 0), objects = Map.empty\<rparr>)))))))"

definition crawl_world :: "buddy \<Rightarrow> addr list \<Rightarrow> buffer_name list \<Rightarrow> (dbi \<times> nat \<Rightarrow> addr option) world" where
  "crawl_world b ps bs = \<lparr>wstore = crawl_store b ps, trace = [], fdSem = 8,
     hlink = \<lparr>rwlock = Unlocked, env = Map.empty, maxTableCacheSize = 10,
       forwardTableCache = Map.empty, revTableCache = Map.empty, rdTxns = [0]\<rparr>,
     bufs = [bs ! 0 \<mapsto> (ps ! 5, 64), bs ! 1 \<mapsto> (ps ! 6, 64), bs ! 2 \<mapsto> (ps ! 7, 64)],
     jobQ = [], finishQ = [], n_finished = 0, n_seen = 0, n_removed = 0, n_dirs = 0, bytes_seen = 0, bytes_will = 0,
     bytes_done = 0, bytes_actually = 0\<rparr>"

definition crawl_pages :: "buddy \<Rightarrow> addr list \<Rightarrow> bool" where
  "crawl_pages b ps \<longleftrightarrow> pages 8 b \<and> length ps = 8 \<and> distinct ps \<and> NULL \<notin> set ps
     \<and> alloc_blocks (page_heap b) = (\<lambda>p. (p, 512)) ` set ps"

lemma crawl_pages_ex: "\<exists>b ps. crawl_pages b ps"
  using taken_pages [of 8] by (auto simp: crawl_pages_def)

lemma crawl_nth:
  assumes "crawl_pages b ps"
  shows "i < 8 \<Longrightarrow> j < 8 \<Longrightarrow> ps ! i = ps ! j \<longleftrightarrow> i = j" "i < 8 \<Longrightarrow> ps ! i \<noteq> NULL" "i < 8 \<Longrightarrow> ps ! i \<in> set ps"
proof -
  have "length ps = 8" "distinct ps" "NULL \<notin> set ps" using assms by (simp_all add: crawl_pages_def)
  then show "i < 8 \<Longrightarrow> j < 8 \<Longrightarrow> ps ! i = ps ! j \<longleftrightarrow> i = j" "i < 8 \<Longrightarrow> ps ! i \<noteq> NULL" "i < 8 \<Longrightarrow> ps ! i \<in> set ps"
    using nth_eq_iff_index_eq [of ps i j] nth_mem [of i ps] by (simp, metis, simp)
qed

lemma crawl_objects:
  "objects (crawl_store b ps) = (((((((Map.empty(ps ! 7 \<mapsto> Buf (replicate 64 NUL)))(ps ! 6 \<mapsto> Buf (replicate 64 NUL)))
     (ps ! 5 \<mapsto> Buf (replicate 64 NUL)))(ps ! 4 \<mapsto> Fdrc (crawl_dir 6 True (ps ! 0))))(ps ! 3 \<mapsto> Fdrc (crawl_dir 5 False (ps ! 0))))
     (ps ! 2 \<mapsto> Part (sample_part ''f.partial'' 1)))(ps ! 1 \<mapsto> Part (sample_part ''f'' 1)))(ps ! 0 \<mapsto> Part (sample_part ''.'' 2))"
  by (simp add: crawl_store_def)

lemma crawl_strings:
  "strings (crawl_store b ps) = ((Map.empty(ps ! 2 \<mapsto> sample_part ''f.partial'' 1))(ps ! 1 \<mapsto> sample_part ''f'' 1))(ps ! 0 \<mapsto> sample_part ''.'' 2)"
proof -
  have "strings \<lparr>heap = page_heap b, heap_mem = (\<lambda>_. 0), objects = Map.empty\<rparr> = Map.empty"
    by (simp add: strings_def fun_eq_iff)
  then show ?thesis by (simp add: crawl_store_def)
qed

lemma crawl_fdrcs:
  assumes "crawl_pages b ps"
  shows "fdrcs (crawl_store b ps) = (Map.empty(ps ! 4 \<mapsto> crawl_dir 6 True (ps ! 0)))(ps ! 3 \<mapsto> crawl_dir 5 False (ps ! 0))"
  using crawl_nth(1) [OF assms] by (auto simp: fdrcs_def crawl_objects fun_eq_iff)

lemma crawl_spells:
  assumes "crawl_pages b ps"
  shows "spells (strings (crawl_store b ps)) (ps ! 0) ''.''" "spells (strings (crawl_store b ps)) (ps ! 1) ''f''"
    "spells (strings (crawl_store b ps)) (ps ! 2) ''f.partial''"
proof -
  have "spells H p s" if "H p = Some (sample_part s n)" "p \<noteq> NULL" for H p s n
    using spells_part [of p H "sample_part s n" "[]"] that by (simp add: sample_part_def)
  then show "spells (strings (crawl_store b ps)) (ps ! 0) ''.''" "spells (strings (crawl_store b ps)) (ps ! 1) ''f''"
    "spells (strings (crawl_store b ps)) (ps ! 2) ''f.partial''"
    using crawl_nth(1,2) [OF assms] by (simp_all add: crawl_strings)
qed

lemma crawl_ok:
  assumes "crawl_pages b ps"
  shows "owned (crawl_world b ps bs) {#ps ! 1, ps ! 2#} {#ps ! 3, ps ! 4#}" "load (crawl_world b ps bs) = 5"
proof -
  let ?st = "crawl_store b ps" and ?ext = "{#ps ! 1, ps ! 2#}"
  note n = crawl_nth [OF assms]
  have p: "pages 8 b" "alloc_blocks (page_heap b) = (\<lambda>p. (p, 512)) ` set ps" using assms by (simp_all add: crawl_pages_def)
  have d: "dom (strings ?st) = {ps ! 0, ps ! 1, ps ! 2}" by (auto simp: crawl_strings split: if_splits)
  have c: "card (dom (strings ?st)) = 3" unfolding d by (simp add: n)
  have pr: "path_refs (fdrcs ?st) = {#ps ! 0, ps ! 0#}"
    by (simp add: crawl_fdrcs [OF assms] path_refs_def crawl_dir_def n)
  show "load (crawl_world b ps bs) = 5" by (simp add: load_def crawl_world_def queued_def q_names_def pr c)
  have parts: "parts_ok (strings ?st) (?ext + {#ps ! 0, ps ! 0#})"
  proof (rule flat_parts_ok)
    show "finite (dom (strings ?st))" "NULL \<notin> dom (strings ?st)" "set_mset (?ext + {#ps ! 0, ps ! 0#}) \<subseteq> dom (strings ?st)"
      unfolding d using n(2) by (auto simp: eq_commute [of 0])
    show "size (?ext + {#ps ! 0, ps ! 0#}) + card (dom (strings ?st)) < 2 ^ 64" unfolding c by simp
    fix p part
    assume "strings ?st p = Some part"
    then show "part_rc part = count (?ext + {#ps ! 0, ps ! 0#}) p \<and> 0 < part_rc part \<and> length (part_data part) = part_len part
      \<and> part_prev part = NULL"
      using n(1) by (auto simp: crawl_strings sample_part_def split: if_splits)
  qed
  have "\<exists>n \<ge> object_size x. (p, n) \<in> alloc_blocks (page_heap b)" if o: "objects ?st p = Some x" for p x
  proof -
    have "p \<in> set ps \<and> object_size x \<le> 512"
      using n(3) o by (auto simp: crawl_objects sample_part_def sizeof_StringPart_def sizeof_FDRC_def split: if_splits)
    then show ?thesis unfolding p(2) by (intro exI [of _ 512]) simp
  qed
  moreover have "finite (dom (objects ?st))" by (simp add: crawl_objects)
  moreover have heap: "heap ?st = page_heap b" by (simp add: crawl_store_def)
  moreover have "objects ?st NULL = None" using n(2) by (simp add: crawl_objects)
  ultimately have "store_ok ?st"
    using page_heap(1) [OF p(1)] unfolding store_ok_def by (simp add: heap)
  then have "strings_ok ?st (?ext + {#ps ! 0, ps ! 0#})" using parts by (simp add: strings_ok_def)
  then have "strings_ok ?st (?ext + path_refs (fdrcs ?st))" unfolding pr .
  moreover have "dirs_ok (fdrcs ?st) {#ps ! 3, ps ! 4#}"
    by (auto simp: dirs_ok_def crawl_fdrcs [OF assms] crawl_dir_def n)
  ultimately show "owned (crawl_world b ps bs) ?ext {#ps ! 3, ps ! 4#}"
    by (simp add: owned_def crawl_world_def queued_def q_names_def q_dirs_def)
qed

lemma crawl_bufs:
  assumes "crawl_pages b ps" "distinct [x, y, z]"
  shows "buf_ready (crawl_world b ps [x, y, z]) x 63" "buf_ready (crawl_world b ps [x, y, z]) y 63" "buf_ready (crawl_world b ps [x, y, z]) z 63"
  using assms(2) crawl_nth(1) [OF assms(1)]
  by (auto simp: buf_ready_def crawl_world_def crawl_objects intro!: exI [of _ "replicate 64 NUL"])

lemma crawl_fields [simp]:
  "trace (crawl_world b ps bs) = []" "wstore (crawl_world b ps bs) = crawl_store b ps" "queued (crawl_world b ps bs) = []"
  "jobQ (crawl_world b ps bs) = []" "finishQ (crawl_world b ps bs) = []" "fdSem (crawl_world b ps bs) = 8"
  "n_finished (crawl_world b ps bs) = 0" "bytes_done (crawl_world b ps bs) = 0" "bytes_will (crawl_world b ps bs) = 0"
  "n_removed (crawl_world b ps bs) = 0" "n_seen (crawl_world b ps bs) = 0"
  "n_dirs (crawl_world b ps bs) = 0" "bytes_seen (crawl_world b ps bs) = 0"
  by (simp_all add: crawl_world_def queued_def)

lemma crawl_fd_of:
  assumes "crawl_pages b ps"
  shows "fd_of (crawl_world b ps bs) (ps ! 3) = Some 5" "fd_of (crawl_world b ps bs) (ps ! 4) = Some 6"
  using crawl_nth(1) [OF assms] by (simp_all add: fd_of_def crawl_fdrcs [OF assms] crawl_dir_def)

definition crawl_program :: "(syscall list \<Rightarrow> syscall \<Rightarrow> reply) \<Rightarrow> (dbi \<times> nat \<Rightarrow> addr option) program" where
  "crawl_program k = \<lparr>tid = 0, kernel = k, db = map_db,
     opts = \<lparr>minBlockSize = 4096, maxBlockSize = 65536, preserveAtime = False, sync = False\<rparr>,
     src_root = 3, dst_root = 4, hash64 = (\<lambda>_. 0), task_order = (\<lambda>n. [0..<n]), other_threads = (\<lambda>w. w)\<rparr>"

lemma crawl_program_fields [simp]:
  "kernel (crawl_program k) = k" "dst_root (crawl_program k) = 4" "tid (crawl_program k) = 0"
  "hash64 (crawl_program k) = (\<lambda>_. 0)" "task_order (crawl_program k) = (\<lambda>n. [0..<n])" "preserveAtime (opts (crawl_program k)) = False"
  "\<not> sync (opts (crawl_program k))" "src_root (crawl_program k) = 3"
  by (simp_all add: crawl_program_def)

definition crawl_reply :: "int \<Rightarrow> int \<Rightarrow> statx \<Rightarrow> reply" where
  "crawl_reply r e st = \<lparr>ret = r, errno = e, out_stx = st, out_str = [], out_type = DT_OTHER\<rparr>"

lemma crawl_reply_fields [simp]:
  "ret (crawl_reply r e st) = r" "errno (crawl_reply r e st) = e" "out_stx (crawl_reply r e st) = st"
  "out_type (crawl_reply r e st) = DT_OTHER"
  by (simp_all add: crawl_reply_def)

end
