(* ===== verification/Room.thy ===== *)
theory Room
  imports Pages Finish_Steps
begin

text \<open>
  Memory for the walk: what a walk needs of the allocator is that a number of small requests is served,
  however many are given back in between. The contract is a locale; the steps of the walk are stated
  with what they cost.
\<close>

section \<open>The contract\<close>

text \<open>\<open>spare\<close> bounds from below how many requests of up to \<open>m\<close> bytes the thread \<open>t\<close> can still make.\<close>

locale room =
  fixes t m :: nat and spare :: "allocator \<Rightarrow> nat"
  assumes serve: "store_ok st \<Longrightarrow> 0 < n \<Longrightarrow> n \<le> m \<Longrightarrow> 0 < spare (heap st) \<Longrightarrow> fst (store_alloc t st n) \<noteq> NULL"
    and serve_cap: "store_ok st \<Longrightarrow> 0 < n \<Longrightarrow> n \<le> m \<Longrightarrow> spare (heap st) \<le> spare (heap (snd (store_alloc t st n))) + 1"
    and free_cap: "store_ok st \<Longrightarrow> spare (heap st) \<le> spare (AllocatorFree (heap st) p)"

text \<open>Names in \<open>Q\<close>, descriptors and buffers stay; at most \<open>k\<close> requests and \<open>l\<close> counters are used up.\<close>

definition advanced :: "(allocator \<Rightarrow> nat) \<Rightarrow> nat \<Rightarrow> nat \<Rightarrow> addr set \<Rightarrow> 'db world \<Rightarrow> 'db world \<Rightarrow> bool" where
  "advanced spare k l Q w w' \<longleftrightarrow> steady Q w w' \<and> spare (heap (wstore w)) \<le> spare (heap (wstore w')) + k \<and> load w' \<le> load w + l"

lemma advanced_refl [simp]: "advanced spare k l Q w w"
  by (simp add: advanced_def)

lemma advanced_trans: "advanced spare k l Q w w1 \<Longrightarrow> advanced spare k' l' Q w1 w2 \<Longrightarrow> advanced spare (k + k') (l + l') Q w w2"
  unfolding advanced_def using steady_trans [of Q w w1 w2] by linarith

lemma advanced_mono: "advanced spare k l Q w w' \<Longrightarrow> k \<le> k' \<Longrightarrow> l \<le> l' \<Longrightarrow> Q' \<subseteq> Q \<Longrightarrow> advanced spare k' l' Q' w w'"
  unfolding advanced_def using steady_sub [of Q w w' Q'] by linarith

lemma advancedD:
  assumes "advanced spare k l Q w w'"
  shows "steady Q w w'" "spare (heap (wstore w)) \<le> spare (heap (wstore w')) + k" "load w' \<le> load w + l"
  using assms by (simp_all add: advanced_def)

lemma advanced_same: "same_names w w' \<Longrightarrow> advanced spare 0 0 Q w w'"
  using same_namesD(2,6) [of w w'] by (simp add: advanced_def same_names_def)

section \<open>Names\<close>

lemma inc_heap: "w_inc w p = Some w' \<Longrightarrow> heap (wstore w') = heap (wstore w)"
  by (auto simp: w_inc_def string_part_rc_inc_def)

lemma incref_heap: "incref p w = Some w' \<Longrightarrow> heap (wstore w') = heap (wstore w)"
  by (auto simp: incref_def update_fdrc_def w_put_def split: bind_splits if_splits)

lemma text_adv:
  assumes "owned w ext dext" "buf_ready w b k" "spells (strings (wstore w)) ref s" "length s < k" "c_name s"
  obtains w' where "name_text E b w ref = Some (s, w')" "only_store w w'" "owned w' ext dext" "advanced spare 0 0 UNIV w w'"
    "strings (wstore w') = strings (wstore w)" "fdrcs (wstore w') = fdrcs (wstore w)"
proof -
  obtain w' where w': "name_text E b w ref = Some (s, w')" "only_store w w'" "owned w' ext dext" "steady UNIV w w'" "load w' = load w"
    "strings (wstore w') = strings (wstore w)" "fdrcs (wstore w') = fdrcs (wstore w)" by (rule text_step [OF assms])
  obtain w'' where "name_text E b w ref = Some (s, w'')" "heap (wstore w'') = heap (wstore w)"
    using name_text_quiet [OF assms, of E] by metis
  then have "heap (wstore w') = heap (wstore w)" using w'(1) by simp
  then show thesis using that w' by (simp add: advanced_def)
qed

lemma inc_adv:
  assumes "owned w ext dext" "p \<in># ext" "roomy w ext 0"
  obtains w' where "w_inc w p = Some w'" "only_store w w'" "owned w' (add_mset p ext) dext" "advanced spare 0 0 UNIV w w'"
    "fdrcs (wstore w') = fdrcs (wstore w)"
proof -
  obtain w' where w': "w_inc w p = Some w'" "only_store w w'" "owned w' (add_mset p ext) dext" "steady UNIV w w'" "load w' = load w"
    "fdrcs (wstore w') = fdrcs (wstore w)" by (rule inc_step [OF assms]) blast
  then show thesis using that inc_heap [OF w'(1)] by (simp add: advanced_def)
qed

lemma incref_adv:
  assumes "owned w ext dext" "p \<in># dext" "size (dext + q_dirs (queued w)) + 1 < 2 ^ 64"
  obtains w' where "incref p w = Some w'" "only_store w w'" "owned w' ext (add_mset p dext)" "advanced spare 0 0 UNIV w w'"
proof -
  obtain w' where w': "incref p w = Some w'" "only_store w w'" "owned w' ext (add_mset p dext)" "steady UNIV w w'" "load w' = load w" by (rule incref_step [OF assms]) blast
  then show thesis using that incref_heap [OF w'(1)] by (simp add: advanced_def)
qed

text \<open>A directory that somebody else still holds.\<close>

lemma unref_adv:
  assumes "owned w ext (add_mset p dext)" "p \<in># dext" "roomy w ext 0"
  obtains w' where "fdrc_release E w p = Some w'" "only_store w w'" "owned w' ext dext" "advanced spare 0 1 (set_mset (ext + q_names (queued w))) w w'"
    "\<forall>q \<in># dext. dir_view (wstore w') q = dir_view (wstore w) q"
proof -
  obtain w' where w': "fdrc_release E w p = Some w'" "owned w' ext dext" "load w' \<le> load w + 1"
    "p \<in># dext + q_dirs (queued w) \<Longrightarrow> only_store w w'" "steady (set_mset (ext + q_names (queued w))) w w'"
    "\<forall>q \<in># dext. dir_view (wstore w') q = dir_view (wstore w) q"
    by (rule release_dir_step [OF assms(1,3)]) blast
  have "only_store w w'" using w'(4) assms(2) by simp
  note d = ownedD(2) [OF assms(1)]
  obtain f where f: "fdrcs (wstore w) p = Some f"
    using dirs_okD(1) [OF d] by (metis domD union_iff union_single_eq_member set_mset_add_mset_insert insertI1)
  have "fdrc_rc f = count (add_mset p dext + q_dirs (queued w)) p" by (rule dirs_okD(3) [OF d f])
  moreover have "0 < count dext p" using assms(2) by simp
  ultimately have "fdrc_rc f \<noteq> 1" by simp
  then have "heap (wstore w') = heap (wstore w)" using w'(1) f by (auto simp: fdrc_release_def w_put_def split: bind_splits if_splits)
  then show thesis using that w' \<open>only_store w w'\<close> by (simp add: advanced_def)
qed

context room
begin

lemma release_cap:
  assumes "stringPartRelease st p = Some st'" "store_ok st"
  shows "spare (heap st) \<le> spare (heap st')"
proof -
  have "store_ok st \<longrightarrow> spare (heap st) \<le> spare (heap st')"
  proof (rule stringPartRelease.raw_induct [OF _ assms(1), where P = "\<lambda>st p st'. store_ok st \<longrightarrow> spare (heap st) \<le> spare (heap st')"])
    fix release :: "store \<Rightarrow> addr \<Rightarrow> store option" and st p st'
    assume IH: "\<And>st p st'. release st p = Some st' \<Longrightarrow> store_ok st \<longrightarrow> spare (heap st) \<le> spare (heap st')"
      and run: "(if isNullRef p then Some st else case strings st p of None \<Rightarrow> None
        | Some part \<Rightarrow> let rc = part_rc part; st = put_object p (Part (part\<lparr>part_rc := dec64 rc\<rparr>)) st
            in if rc \<le> 1 then release (store_free st p) (part_prev part) else Some st) = Some st'"
    show "store_ok st \<longrightarrow> spare (heap st) \<le> spare (heap st')"
    proof (rule impI, cases "p = NULL")
      case False
      assume ok: "store_ok st"
      obtain part where part: "strings st p = Some part" using run False by (auto simp: isNullRef_def split: option.splits)
      let ?st = "put_object p (Part (part\<lparr>part_rc := dec64 (part_rc part)\<rparr>)) st"
      have ok1: "store_ok ?st" by (rule store_ok_rewrite [OF ok strings_SomeD [OF part]]) simp
      have "(if part_rc part \<le> 1 then release (store_free ?st p) (part_prev part) else Some ?st) = Some st'"
        using run part False by (auto simp: isNullRef_def Let_def)
      then consider "release (store_free ?st p) (part_prev part) = Some st'" | "st' = ?st" by (auto split: if_splits)
      then show "spare (heap st) \<le> spare (heap st')"
      proof cases
        case 1
        from IH [OF this] store_ok_free [OF ok1] have "spare (heap (store_free ?st p)) \<le> spare (heap st')" by simp
        then show ?thesis using free_cap [OF ok1, of p] by (simp add: store_free_def)
      qed simp
    qed (use run in \<open>simp add: isNullRef_def\<close>)
  qed
  then show ?thesis using assms(2) by simp
qed

lemma drop_adv:
  assumes "owned w (own p ext) dext"
  obtains w' where "drop_part w p = Some w'" "only_store w w'" "owned w' ext dext"
    "advanced spare 0 0 (set_mset (ext + q_names (queued w))) w w'" "fdrcs (wstore w') = fdrcs (wstore w)"
proof -
  obtain w' where w': "drop_part w p = Some w'" "only_store w w'" "owned w' ext dext" "load w' \<le> load w"
    "fdrcs (wstore w') = fdrcs (wstore w)" "steady (set_mset (ext + q_names (queued w))) w w'"
    by (rule drop_step [OF assms])
  have "spare (heap (wstore w)) \<le> spare (heap (wstore w'))"
    using w'(1) release_cap [OF _ strings_okD(1) [OF ownedD(1) [OF assms]], of p]
    by (auto simp: drop_part_def w_release_def split: if_splits)
  then show thesis using that w' by (simp add: advanced_def)
qed

lemma alloc_adv:
  assumes ok: "owned w ext dext" and n: "tid E = t" "0 < n" "n \<le> m" "0 < spare (heap (wstore w))"
  obtains p w' where "w_alloc E w n = (p, w')" "p \<noteq> NULL" "only_store w w'" "owned w' ext dext" "advanced spare 1 0 UNIV w w'"
    "fdrcs (wstore w') = fdrcs (wstore w)" "fresh_block (wstore w') p n" "strings (wstore w') = strings (wstore w)"
    "objects (wstore w') = objects (wstore w)"
proof -
  obtain p w' where a: "w_alloc E w n = (p, w')" by fastforce
  note st = strings_okD(1) [OF ownedD(1) [OF ok]]
  have e: "p = fst (store_alloc t (wstore w) n)" "w' = w\<lparr>wstore := snd (store_alloc t (wstore w) n)\<rparr>"
    using a n(1) by (auto simp: w_alloc_def split: prod.splits)
  have p: "p \<noteq> NULL" unfolding e(1) by (rule serve [OF st n(2,3,4)])
  note k = w_alloc_ok [OF ok a p]
  have "steady UNIV w w'" by (rule quiet_steady [OF k(2)]) (simp add: fds_def k(4))
  moreover have "spare (heap (wstore w)) \<le> spare (heap (wstore w')) + 1" using serve_cap [OF st n(2,3)] by (simp add: e(2))
  ultimately have adv: "advanced spare 1 0 UNIV w w'" using k(3) by (simp add: advanced_def)
  have only: "only_store w w'" by (simp add: e(2))
  have obj: "objects (wstore w') = objects (wstore w)"
    using store_alloc_spec(2) [OF st, of t n] by (simp add: e(2) prod_eq_iff)
  show thesis by (rule that [OF a p only k(1) adv k(4,7) strings_objects [OF obj] obj])
qed

lemma part_adv:
  assumes ok: "owned w ext dext" and p: "p = NULL \<or> p \<in> dom (strings (wstore w))" and room: "roomy w ext 0"
    and s: "spells (strings (wstore w)) p s" and n: "tid E = t" "sizeof_StringPart + length s1 + length s2 + 1 \<le> m" "0 < spare (heap (wstore w))"
  obtains c w' where "w_part E w p s1 s2 = Some (c, w')" "only_store w w'" "owned w' (add_mset c ext) dext" "advanced spare 1 1 UNIV w w'"
    "c \<noteq> NULL" "spells (strings (wstore w')) c (s @ s1 @ s2)" "fdrcs (wstore w') = fdrcs (wstore w)" "ents (wstore w') = ents (wstore w)"
    "\<exists>part. strings (wstore w') c = Some part \<and> part_data part = s1 @ s2 \<and> part_prev part = p"
proof -
  note sok = strings_okD(1) [OF ownedD(1) [OF ok]]
  obtain st1 where st1: "(if \<not> isNullRef p then string_part_rc_inc (wstore w) p else Some (wstore w)) = Some st1"
    "store_ok st1" "heap st1 = heap (wstore w)"
  proof (cases "p = NULL")
    case False
    then have "p \<in> dom (strings (wstore w))" using p by blast
    moreover have "rc_room (wstore w) (ext + path_refs (fdrcs (wstore w)) + q_names (queued w))"
      using room by (simp add: rc_room_def roomy_def)
    ultimately show thesis
      using string_part_rc_inc_ok [OF ownedD(1) [OF ok]] strings_okD(1) that False by (metis isNullRef_def)
  qed (use that [of "wstore w"] sok in \<open>simp add: isNullRef_def\<close>)
  let ?n = "sizeof_StringPart + length s1 + length s2 + 1"
  obtain c st2 where al: "store_alloc t st1 ?n = (c, st2)" by fastforce
  have c: "c \<noteq> NULL" using serve [OF st1(2), of ?n] n(2,3) st1(3) al by simp
  have k: "spare (heap (wstore w)) \<le> spare (heap st2) + 1" using serve_cap [OF st1(2), of ?n] n(2) st1(3) al by simp
  let ?w = "w\<lparr>wstore := put_object c (Part \<lparr>part_rc = 1, part_len = length s1 + length s2, part_prev = p, part_data = s1 @ s2\<rparr>) st2\<rparr>"
  have r: "w_part E w p s1 s2 = Some (c, ?w)"
    unfolding w_part_def toStringPart_def n(1) st1(1) option.case Let_def al prod.case using c by (simp add: isNullRef_def)
  note ps = part_step [OF ok p room s r]
  show thesis by (rule that [OF r ps(1,2) _ ps(5,6,7,8)]) (use ps(3,4) k in \<open>simp_all add: advanced_def\<close>)
qed

end

section \<open>Slots of 512 bytes\<close>

definition page_spare :: "allocator \<Rightarrow> nat" where
  "page_spare a = (case memAlloc a of None \<Rightarrow> 0
     | Some b \<Rightarrow> if a = page_heap b \<and> pages (card (live b)) b then 16 - card (live b) else 0)"

lemma page_spare: "pages n b \<Longrightarrow> page_spare (page_heap b) = 16 - n"
  by (auto simp: page_spare_def page_heap_def pages_def)

lemma page_spare_pos:
  assumes "0 < page_spare a"
  obtains b n where "a = page_heap b" "pages n b" "n < 16"
proof -
  obtain b where "memAlloc a = Some b" "a = page_heap b" "pages (card (live b)) b" "card (live b) < 16"
    using assms by (auto simp: page_spare_def split: option.splits if_splits)
  then show thesis using that by blast
qed

lemma page_free_cap: "page_spare a \<le> page_spare (AllocatorFree a p)"
proof (cases "0 < page_spare a")
  case True
  then obtain b n where b: "a = page_heap b" "pages n b" "n < 16" by (rule page_spare_pos)
  obtain d where d: "buddy_free (Some b) p = Some d" "arena_inv d" "same_arena b d" "live d \<subseteq> live b"
    using buddy_free_correct [of b p] b(2) by (auto simp: pages_def)
  have "pages (card (live d)) d"
    using b(2) d(2,4) same_arenaD [OF d(3)] by (auto simp: pages_def)
  moreover have "card (live d) \<le> n" using card_mono [OF pages_finite [OF b(2)] d(4)] b(2) by (simp add: pages_def)
  moreover have "AllocatorFree a p = page_heap d"
    using d(1) by (simp add: b(1) AllocatorFree_def page_heap_def small_heap_def allocDeref_def buddy_free_def)
  ultimately show ?thesis using page_spare [OF b(2)] page_spare [of "card (live d)" d] b(1) by simp
qed simp

interpretation page: room t 512 page_spare for t
proof
  fix st :: store and n :: nat
  assume st: "store_ok st" and n: "0 < n" "n \<le> 512"
  have go: "fst (store_alloc t st n) \<noteq> NULL \<and> page_spare (heap (snd (store_alloc t st n))) + 1 = page_spare (heap st)"
    if pos: "0 < page_spare (heap st)"
  proof -
    obtain b k where b: "heap st = page_heap b" "pages k b" "k < 16" by (rule page_spare_pos [OF pos])
    obtain q d st' where "store_alloc t st n = (q, st')" "q \<noteq> NULL" "heap st' = page_heap d" "pages (Suc k) d"
      by (rule page_store_alloc [OF b(2,3,1) n]) blast
    then show ?thesis using page_spare [OF b(2)] page_spare [of "Suc k" d] b(1,3) by simp
  qed
  show "0 < page_spare (heap st) \<Longrightarrow> fst (store_alloc t st n) \<noteq> NULL" using go by blast
  show "page_spare (heap st) \<le> page_spare (heap (snd (store_alloc t st n))) + 1"
    using go by (cases "0 < page_spare (heap st)") simp_all
qed (rule page_free_cap)

end
