(* ===== verification/Script.thy ===== *)
theory Script
  imports Room
begin

text \<open>
  What the system is asked and how it answers, as lists of calls with conditions on their replies, and
  the orders in which the tasks of a directory run.
\<close>

section \<open>Scripts\<close>

type_synonym script = "(syscall \<times> (reply \<Rightarrow> bool)) list"

fun follows :: "'db program \<Rightarrow> syscall list \<Rightarrow> script \<Rightarrow> bool" where
  "follows E tr [] \<longleftrightarrow> True"
| "follows E tr ((c, P) # cs) \<longleftrightarrow> P (kernel E tr c) \<and> follows E (tr @ [c]) cs"

definition calls :: "script \<Rightarrow> syscall list" where
  "calls cs = map fst cs"

lemma calls_simps [simp]: "calls [] = []" "calls ((c, P) # cs) = c # calls cs" "calls (xs @ ys) = calls xs @ calls ys"
  "calls (if b then xs else ys) = (if b then calls xs else calls ys)"
  by (simp_all add: calls_def)

lemma follows_append: "follows E tr (xs @ ys) \<longleftrightarrow> follows E tr xs \<and> follows E (tr @ calls xs) ys"
  by (induction E tr xs rule: follows.induct) simp_all

text \<open>How many of the calls to \<open>unlinkat\<close> go well.\<close>

fun unlinked :: "'db program \<Rightarrow> syscall list \<Rightarrow> syscall list \<Rightarrow> nat" where
  "unlinked E tr [] = 0"
| "unlinked E tr (c # cs) =
     (case c of Unlinkat _ _ _ \<Rightarrow> if 0 \<le> ret (kernel E tr c) then 1 else 0 | _ \<Rightarrow> 0) + unlinked E (tr @ [c]) cs"

lemma unlinked_append: "unlinked E tr (xs @ ys) = unlinked E tr xs + unlinked E (tr @ xs) ys"
  by (induction E tr xs rule: unlinked.induct) simp_all

section \<open>Orders\<close>

definition orders :: "'db program \<Rightarrow> bool" where
  "orders E \<longleftrightarrow> (\<forall>n. mset (task_order E n) = mset [0..<n])"

lemma in_order_mset: "orders E \<Longrightarrow> mset (in_order E xs) = mset xs"
proof -
  assume "orders E"
  then have "mset (in_order E xs) = image_mset ((!) xs) (mset [0..<length xs])"
    unfolding in_order_def mset_map by (simp add: orders_def)
  also have "\<dots> = mset (map ((!) xs) [0..<length xs])" by (simp only: mset_map)
  finally show ?thesis by (simp add: map_nth)
qed

lemma in_order_all2:
  assumes "orders E" "list_all2 P xs ys"
  shows "list_all2 P (in_order E xs) (in_order E ys)"
proof -
  have "set (task_order E (length xs)) = {..<length xs}"
    using assms(1) by (metis orders_def set_mset_mset set_upt lessThan_atLeast0)
  then show ?thesis
    using assms(2) by (auto simp: in_order_def list_all2_conv_all_nth) (metis lessThan_iff nth_mem)
qed

lemma in_order_map: "orders E \<Longrightarrow> in_order E (map f xs) = map f (in_order E xs)"
proof -
  assume "orders E"
  then have "set (task_order E (length xs)) = {..<length xs}" by (metis orders_def set_mset_mset set_upt lessThan_atLeast0)
  then show ?thesis by (auto simp: in_order_def)
qed

lemma in_order_set: "orders E \<Longrightarrow> set (in_order E xs) = set xs"
  using in_order_mset [of E xs] by (metis set_mset_mset)

lemma in_order_length: "orders E \<Longrightarrow> length (in_order E xs) = length xs"
  using in_order_mset [of E xs] by (metis size_mset)

section \<open>Names\<close>

text \<open>A name of a directory entry.\<close>

definition file_name :: "string \<Rightarrow> bool" where
  "file_name n \<longleftrightarrow> c_name n \<and> CHR ''/'' \<notin> set n"

lemma base_name_whole: "CHR ''/'' \<notin> set n \<Longrightarrow> base_name n = n"
proof -
  assume "CHR ''/'' \<notin> set n"
  then have "takeWhile (\<lambda>c. c \<noteq> CHR ''/'') (rev n) = rev n" by (subst takeWhile_eq_all_conv) auto
  then show ?thesis by (simp only: base_name_def rev_rev_ident)
qed

lemma base_name_last: "CHR ''/'' \<notin> set n \<Longrightarrow> base_name (p @ ''/'' @ n) = n"
proof -
  assume "CHR ''/'' \<notin> set n"
  then have "takeWhile (\<lambda>c. c \<noteq> CHR ''/'') (rev n @ CHR ''/'' # rev p) = rev n"
    by (subst takeWhile_append2) auto
  then show ?thesis by (simp add: base_name_def)
qed

lemma base_name_append:
  assumes "CHR ''/'' \<notin> set x"
  shows "base_name (s @ x) = base_name s @ x"
proof -
  have "takeWhile (\<lambda>c. c \<noteq> CHR ''/'') (rev x @ rev s) = rev x @ takeWhile (\<lambda>c. c \<noteq> CHR ''/'') (rev s)"
    using assms by (subst takeWhile_append2) auto
  then show ?thesis by (simp add: base_name_def)
qed

lemma hex_digit: "n < 16 \<Longrightarrow> hex_digit n \<in> set ''0123456789ABCDEF''"
  unfolding hex_digit_def by (rule nth_mem) simp

lemma suffix_of: "CHR ''/'' \<notin> set (suffix_of h)" "NUL \<notin> set (suffix_of h)" "length (suffix_of h) = 24"
proof -
  have "hex_digit (h div 16 ^ (15 - i) mod 16) \<in> set ''0123456789ABCDEF''" for i by (rule hex_digit) simp
  then have "x \<in> set (suffix_of h) \<Longrightarrow> x \<in> set ''0123456789ABCDEF.partial''" for x by (auto simp: suffix_of_def)
  then show "CHR ''/'' \<notin> set (suffix_of h)" "NUL \<notin> set (suffix_of h)" by fastforce+
  show "length (suffix_of h) = 24" by (simp add: suffix_of_def)
qed

end
