(* ===== verification/Footprint.thy ===== *)
theory Footprint
  imports Script
begin

text \<open>
  What an operation leaves behind in memory: which blocks of the allocator, which parts of names and which
  entries of directories there are afterwards that were not there before.
\<close>

section \<open>Nothing new\<close>

text \<open>A part of a name without its counter.\<close>

definition part_view :: "store \<Rightarrow> addr \<Rightarrow> string_part option" where
  "part_view st p = map_option (\<lambda>x. x\<lparr>part_rc := 0\<rparr>) (strings st p)"

text \<open>Every block and every part was there before, and where a part has gone its block has gone too.\<close>

definition tidy :: "store \<Rightarrow> store \<Rightarrow> bool" where
  "tidy st st' \<longleftrightarrow> part_view st' \<subseteq>\<^sub>m part_view st \<and> ents st' = ents st \<and> fdrcs st' = fdrcs st
     \<and> (\<forall>x \<in> alloc_blocks (heap st'). x \<in> alloc_blocks (heap st) \<and> (fst x \<in> dom (strings st) \<longrightarrow> fst x \<in> dom (strings st')))"

lemma dom_part_view [simp]: "dom (part_view st) = dom (strings st)"
  by (auto simp: part_view_def dom_def)

lemma part_view_None [simp]: "part_view st p = None \<longleftrightarrow> strings st p = None"
  by (simp add: part_view_def)

lemma part_view_objects: "objects st' = objects st \<Longrightarrow> part_view st' = part_view st"
  using strings_objects [of st' st] by (simp add: part_view_def fun_eq_iff)

lemma tidy_refl [simp]: "tidy st st"
  by (simp add: tidy_def)

lemma tidy_trans:
  assumes "tidy st st1" "tidy st1 st2"
  shows "tidy st st2"
proof -
  have "dom (strings st1) \<subseteq> dom (strings st)" using assms(1) map_le_implies_dom_le [of "part_view st1" "part_view st"] by (simp add: tidy_def)
  moreover have "part_view st2 \<subseteq>\<^sub>m part_view st" using assms map_le_trans unfolding tidy_def by blast
  ultimately show ?thesis using assms unfolding tidy_def by (metis (no_types, lifting))
qed

lemma tidyD:
  assumes "tidy st st'"
  shows "alloc_blocks (heap st') \<subseteq> alloc_blocks (heap st)" "ents st' = ents st" "fdrcs st' = fdrcs st" "dom (strings st') \<subseteq> dom (strings st)"
  using assms map_le_implies_dom_le [of "part_view st'" "part_view st"] by (auto simp: tidy_def)

lemma tidy_same: "part_view st' = part_view st \<Longrightarrow> ents st' = ents st \<Longrightarrow> fdrcs st' = fdrcs st \<Longrightarrow> heap st' = heap st \<Longrightarrow> tidy st st'"
  using dom_part_view [of st] dom_part_view [of st'] by (simp add: tidy_def)

lemma part_view_recount:
  "strings st p = Some x \<Longrightarrow> part_view (put_object p (Part (x\<lparr>part_rc := n\<rparr>)) st) = part_view st"
  by (auto simp: part_view_def fun_eq_iff)

lemma other_object: "objects st p = Some (Part x) \<Longrightarrow> ents st p = None \<and> fdrcs st p = None"
  by (simp add: ents_def fdrcs_def)

lemma recount_tidy: "strings st p = Some x \<Longrightarrow> tidy st (put_object p (Part (x\<lparr>part_rc := n\<rparr>)) st)"
  using strings_SomeD [of st p x] other_object [of st p x]
  by (intro tidy_same part_view_recount) (auto simp: ents_def fdrcs_def put_object_def fun_eq_iff)

lemma free_part_tidy:
  assumes "store_ok st" "strings st p = Some x"
  shows "tidy st (store_free st p)"
proof -
  note o = other_object [OF strings_SomeD [OF assms(2)]]
  have "alloc_blocks (AllocatorFree (heap st) p) = {q \<in> alloc_blocks (heap st). fst q \<noteq> p}"
    using AllocatorFree_spec [OF store_okD(1) [OF assms(1)], of p] by simp
  moreover have "ents (store_free st p) = ents st" "fdrcs (store_free st p) = fdrcs st"
    using o by (auto simp: ents_def fdrcs_def store_free_def fun_eq_iff)
  moreover have "part_view (store_free st p) \<subseteq>\<^sub>m part_view st" by (simp add: map_le_def part_view_def)
  moreover have "heap (store_free st p) = AllocatorFree (heap st) p" by (simp add: store_free_def)
  ultimately show ?thesis by (auto simp: tidy_def)
qed

section \<open>Operations that leave nothing\<close>

lemma release_tidy:
  assumes "stringPartRelease st p = Some st'" "store_ok st"
  shows "tidy st st'"
proof -
  have "store_ok st \<longrightarrow> tidy st st'"
  proof (rule stringPartRelease.raw_induct [OF _ assms(1), where P = "\<lambda>st p st'. store_ok st \<longrightarrow> tidy st st'"])
    fix release :: "store \<Rightarrow> addr \<Rightarrow> store option" and st p st'
    assume IH: "\<And>st p st'. release st p = Some st' \<Longrightarrow> store_ok st \<longrightarrow> tidy st st'"
      and run: "(if isNullRef p then Some st else case strings st p of None \<Rightarrow> None
        | Some part \<Rightarrow> let rc = part_rc part; st = put_object p (Part (part\<lparr>part_rc := dec64 rc\<rparr>)) st
            in if rc \<le> 1 then release (store_free st p) (part_prev part) else Some st) = Some st'"
    show "store_ok st \<longrightarrow> tidy st st'"
    proof (rule impI, cases "p = NULL")
      case False
      assume ok: "store_ok st"
      obtain part where part: "strings st p = Some part" using run False by (auto simp: isNullRef_def split: option.splits)
      let ?part = "part\<lparr>part_rc := dec64 (part_rc part)\<rparr>"
      let ?st = "put_object p (Part ?part) st"
      have ok1: "store_ok ?st" by (rule store_ok_rewrite [OF ok strings_SomeD [OF part]]) simp
      have t1: "tidy st ?st" by (rule recount_tidy [OF part])
      have "strings ?st p = Some ?part" by simp
      note t2 = tidy_trans [OF t1 free_part_tidy [OF ok1 this]]
      have "(if part_rc part \<le> 1 then release (store_free ?st p) (part_prev part) else Some ?st) = Some st'"
        using run part False by (auto simp: isNullRef_def Let_def)
      then consider "release (store_free ?st p) (part_prev part) = Some st'" | "st' = ?st" by (auto split: if_splits)
      then show "tidy st st'"
      proof cases
        case 1
        then show ?thesis using IH [OF 1] store_ok_free [OF ok1] tidy_trans [OF t2] by blast
      qed (use t1 in simp)
    qed (use run in \<open>simp add: isNullRef_def\<close>)
  qed
  then show ?thesis using assms(2) by simp
qed

lemma drop_tidy: "drop_part w p = Some w' \<Longrightarrow> owned w ext dext \<Longrightarrow> tidy (wstore w) (wstore w')"
  using release_tidy [OF _ strings_okD(1) [OF ownedD(1)]] by (auto simp: drop_part_def w_release_def split: if_splits)

lemma text_tidy:
  assumes "owned w ext dext" "buf_ready w b k" "spells (strings (wstore w)) ref s" "length s < k" "c_name s" "name_text E b w ref = Some (s, w')"
  shows "tidy (wstore w) (wstore w')"
proof -
  obtain p c c' where p: "objects (wstore w) p = Some (Buf c)"
    and r: "name_text E b w ref = Some (s, w\<lparr>wstore := put_object p (Buf c') (wstore w)\<rparr>)"
    by (rule name_text_eq [OF ownedD(1) [OF assms(1)] assms(2-5)]) blast
  have "w' = w\<lparr>wstore := put_object p (Buf c') (wstore w)\<rparr>" using r assms(6) by simp
  then show ?thesis
    using p by (intro tidy_same) (auto simp: part_view_def strings_def ents_def fdrcs_def put_object_def fun_eq_iff)
qed

section \<open>Operations that add names and entries\<close>

text \<open>
  The new parts are at \<open>C\<close> and continue \<open>path\<close>, the new entries are at \<open>Q\<close>; there are no other new blocks.
\<close>

definition grown :: "addr \<Rightarrow> addr set \<Rightarrow> addr set \<Rightarrow> store \<Rightarrow> store \<Rightarrow> bool" where
  "grown path C Q st st' \<longleftrightarrow> fdrcs st' = fdrcs st
     \<and> (\<forall>p. p \<notin> C \<longrightarrow> part_view st' p = part_view st p)
     \<and> (\<forall>c \<in> C. strings st c = None \<and> (\<exists>v. part_view st' c = Some v \<and> part_prev v = path))
     \<and> (\<forall>q \<in> Q. ents st q = None) \<and> (\<forall>p. p \<notin> Q \<longrightarrow> ents st' p = ents st p)
     \<and> (\<forall>x \<in> alloc_blocks (heap st'). x \<in> alloc_blocks (heap st) \<or> fst x \<in> C \<union> Q)"

lemma grown_same: "objects st' = objects st \<Longrightarrow> heap st' = heap st \<Longrightarrow> grown path {} {} st st'"
  using part_view_objects [of st' st] by (simp add: grown_def ents_def fdrcs_def fun_eq_iff)

lemma grown_trans:
  assumes "grown path C Q st st1" "grown path C' Q' st1 st2"
  shows "grown path (C \<union> C') (Q \<union> Q') st st2"
proof -
  note a = assms [unfolded grown_def]
  have "strings st c = None \<and> (\<exists>v. part_view st2 c = Some v \<and> part_prev v = path)" if "c \<in> C \<union> C'" for c
  proof (cases "c \<in> C'")
    case True
    then have "strings st1 c = None" "\<exists>v. part_view st2 c = Some v \<and> part_prev v = path" using a(2) by blast+
    moreover from this have "c \<notin> C" using a(1) part_view_None by (metis option.distinct(1))
    then have "part_view st c = part_view st1 c" using a(1) by simp
    ultimately show ?thesis by (metis part_view_None)
  next
    case False
    then show ?thesis using that a by auto
  qed
  moreover have "ents st q = None" if "q \<in> Q \<union> Q'" for q using that a by (metis Un_iff)
  ultimately show ?thesis using a unfolding grown_def by (intro conjI) auto
qed

lemma alloc_blocks_new:
  assumes "store_ok st" "store_alloc t st len = (p, st')" "p \<noteq> NULL" "x \<in> alloc_blocks (heap st')"
  shows "x \<in> alloc_blocks (heap st) \<or> fst x = p"
proof -
  obtain a m where am: "AllocatorAllocate t (heap st) (heap_mem st) len = (p, a, m)" "st' = st\<lparr>heap := a, heap_mem := m\<rparr>"
    using assms(2) by (auto simp: store_alloc_def split: prod.splits)
  have "handed_out (heap st) (heap_mem st) len p a m" by (rule AllocatorAllocate_spec [OF store_okD(1) [OF assms(1)] am(1)])
  then show ?thesis using assms(3,4) am(2) by (auto simp: handed_out_def)
qed

lemma part_grown:
  assumes "store_ok (wstore w)" "w_part E w path s1 s2 = Some (c, w')"
  shows "grown path {c} {} (wstore w) (wstore w')"
proof -
  let ?n = "sizeof_StringPart + length s1 + length s2 + 1"
  obtain st1 st2 where st1: "(if \<not> isNullRef path then string_part_rc_inc (wstore w) path else Some (wstore w)) = Some st1"
    and al: "store_alloc (tid E) st1 ?n = (c, st2)" and c: "c \<noteq> NULL"
    and w': "wstore w' = put_object c (Part \<lparr>part_rc = 1, part_len = length s1 + length s2, part_prev = path, part_data = s1 @ s2\<rparr>) st2"
    using assms(2) by (auto simp: w_part_def toStringPart_def isNullRef_def Let_def split: option.splits prod.splits if_splits)
  have t: "tidy (wstore w) st1 \<and> heap st1 = heap (wstore w) \<and> part_view st1 = part_view (wstore w) \<and> store_ok st1"
  proof (cases "isNullRef path")
    case False
    then obtain x where x: "strings (wstore w) path = Some x" "st1 = put_object path (Part (x\<lparr>part_rc := inc64 (part_rc x)\<rparr>)) (wstore w)"
      using st1 by (auto simp: string_part_rc_inc_def)
    have "store_ok st1" unfolding x(2) by (rule store_ok_rewrite [OF assms(1) strings_SomeD [OF x(1)]]) simp
    then show ?thesis using recount_tidy [OF x(1)] part_view_recount [OF x(1)] x(2) by simp
  qed (use st1 assms(1) in simp)
  note n = store_alloc_spec [OF _ al]
  have o: "objects st1 c = None" using n(2,3) t c by (simp add: fresh_block_def)
  have s1: "strings (wstore w) c = None" using o t by (metis part_view_None strings_def option.simps(4))
  have "objects st2 = objects st1" using n(2) t by blast
  then have "ents (wstore w') = ents st1" "fdrcs (wstore w') = fdrcs st1" using o by (auto simp: w' ents_def fdrcs_def fun_eq_iff)
  then have e: "ents (wstore w') = ents (wstore w)" "fdrcs (wstore w') = fdrcs (wstore w)" using tidyD(2,3) [OF conjunct1 [OF t]] by simp_all
  have "part_view (wstore w') q = part_view (wstore w) q" if "q \<noteq> c" for q
  proof -
    have "part_view (wstore w') q = part_view st2 q" using that by (simp add: w' part_view_def)
    then show ?thesis using t n(2) part_view_objects [of st2 st1] by simp
  qed
  moreover have "part_view (wstore w') c = Some \<lparr>part_rc = 0, part_len = length s1 + length s2, part_prev = path, part_data = s1 @ s2\<rparr>"
    by (simp add: w' part_view_def)
  moreover have "x \<in> alloc_blocks (heap (wstore w)) \<or> fst x = c" if "x \<in> alloc_blocks (heap (wstore w'))" for x
    using that alloc_blocks_new [OF _ al c, of x] t by (simp add: w')
  ultimately show ?thesis using s1 e by (simp add: grown_def)
qed

lemma entry_grown:
  assumes "store_ok (wstore w)" "w_alloc E w n = (q, w1)" "w_put q (Ent x) w1 = Some w2"
  shows "grown path {} {q} (wstore w) (wstore w2)"
proof -
  have q: "q \<noteq> NULL" and w2: "wstore w2 = put_object q (Ent x) (wstore w1)" using assms(3) by (auto simp: w_put_def split: if_splits)
  have al: "store_alloc (tid E) (wstore w) n = (q, wstore w1)" using assms(2) by (auto simp: w_alloc_def split: prod.splits)
  note s = store_alloc_spec [OF assms(1) al]
  have o: "objects (wstore w) q = None" using s(2,3) q by (simp add: fresh_block_def)
  have "part_view (wstore w2) = part_view (wstore w)" "fdrcs (wstore w2) = fdrcs (wstore w)"
    using o s(2) by (auto simp: w2 part_view_def strings_def fdrcs_def fun_eq_iff)
  moreover have "ents (wstore w) q = None" "\<forall>p. p \<noteq> q \<longrightarrow> ents (wstore w2) p = ents (wstore w) p"
    using o s(2) by (simp_all add: w2 ents_def)
  ultimately show ?thesis using alloc_blocks_new [OF assms(1) al q] by (auto simp: grown_def w2)
qed

text \<open>The entries at \<open>Q\<close> are gone, and their blocks.\<close>

definition cleared :: "addr set \<Rightarrow> store \<Rightarrow> store \<Rightarrow> bool" where
  "cleared Q st st' \<longleftrightarrow> fdrcs st' = fdrcs st \<and> part_view st' = part_view st
     \<and> ents st' = (\<lambda>p. if p \<in> Q then None else ents st p)
     \<and> alloc_blocks (heap st') = {x \<in> alloc_blocks (heap st). fst x \<notin> Q}"

lemma cleared_empty [simp]: "cleared {} st st"
  by (simp add: cleared_def)

lemma cleared_trans: "cleared Q st st1 \<Longrightarrow> cleared Q' st1 st2 \<Longrightarrow> cleared (Q \<union> Q') st st2"
  by (auto simp: cleared_def)

lemma free_cleared:
  assumes "store_ok (wstore w)" "ents (wstore w) q = Some x"
  shows "cleared {q} (wstore w) (wstore (w_free w q))"
proof -
  have o: "objects (wstore w) q = Some (Ent x)" using assms(2) by (auto simp: ents_def split: option.splits object.splits)
  have "alloc_blocks (AllocatorFree (heap (wstore w)) q) = {y \<in> alloc_blocks (heap (wstore w)). fst y \<noteq> q}"
    using AllocatorFree_spec [OF store_okD(1) [OF assms(1)], of q] by simp
  moreover have "part_view (wstore (w_free w q)) = part_view (wstore w)" "fdrcs (wstore (w_free w q)) = fdrcs (wstore w)"
    "ents (wstore (w_free w q)) = (\<lambda>p. if p \<in> {q} then None else ents (wstore w) p)"
    using o by (auto simp: w_free_def store_free_def part_view_def strings_def fdrcs_def ents_def fun_eq_iff)
  ultimately show ?thesis by (simp add: cleared_def w_free_def store_free_def)
qed

section \<open>Nothing stays\<close>

text \<open>
  When entries and names have been added, the entries are gone, and then nothing was added and nobody outside holds one of the
  added names: then the added names are gone as well.
\<close>

lemma tidy_after:
  assumes g: "grown path C Q st st1" and c: "cleared Q st1 st2" and t: "tidy st2 st3"
    and ok: "parts_ok (strings st) N" "parts_ok (strings st3) N'" and N: "set_mset N' \<subseteq> dom (strings st)" "path \<in> dom (strings st)"
  shows "tidy st st3"
proof -
  note g = g [unfolded grown_def] and c = c [unfolded cleared_def] and t = t [unfolded tidy_def]
  have le: "part_view st3 \<subseteq>\<^sub>m part_view st1" using c t by simp
  have gone: "strings st3 p = None" if p: "p \<in> C" for p
  proof (rule ccontr)
    assume "strings st3 p \<noteq> None"
    then obtain x where x: "strings st3 p = Some x" by blast
    have p0: "strings st p = None" using g p by blast
    then have "count N' p = 0" using N(1) by (auto simp: not_in_iff [symmetric])
    then have "continuing (strings st3) p \<noteq> {}" using parts_okD(4,5) [OF ok(2) x] by auto
    then obtain q y where y: "strings st3 q = Some y" "part_prev y = p" by (auto simp: continuing_def)
    have "part_view st3 q = Some (y\<lparr>part_rc := 0\<rparr>)" using y(1) by (simp add: part_view_def)
    then have v: "part_view st1 q = Some (y\<lparr>part_rc := 0\<rparr>)" using le by (metis domI map_le_def)
    show False
    proof (cases "q \<in> C")
      case True
      then have "path = p" using g v y(2) by auto
      then show False using p0 N(2) by blast
    next
      case False
      then have "part_view st q = Some (y\<lparr>part_rc := 0\<rparr>)" using g v by simp
      then obtain z where z: "strings st q = Some z" "z\<lparr>part_rc := 0\<rparr> = y\<lparr>part_rc := 0\<rparr>" by (auto simp: part_view_def)
      have "part_prev z = p" using arg_cong [OF z(2), of part_prev] y(2) by simp
      then have "p = NULL" using parts_okD(7) [OF ok(1) z(1)] p0 by auto
      then show False using parts_okD(2) [OF ok(2)] x by simp
    qed
  qed
  have "part_view st3 p = part_view st p" if "p \<in> dom (part_view st3)" for p
  proof -
    have "p \<notin> C" using gone that by auto
    then show ?thesis using le that g by (metis map_le_def)
  qed
  then have "part_view st3 \<subseteq>\<^sub>m part_view st" by (simp add: map_le_def)
  moreover have "ents st3 = ents st" using g c t by (auto simp: fun_eq_iff)
  moreover have "x \<in> alloc_blocks (heap st) \<and> (fst x \<in> dom (strings st) \<longrightarrow> fst x \<in> dom (strings st3))"
    if x: "x \<in> alloc_blocks (heap st3)" for x
  proof -
    have x2: "x \<in> alloc_blocks (heap st2)" "fst x \<in> dom (strings st2) \<longrightarrow> fst x \<in> dom (strings st3)" using t x by blast+
    have d: "dom (strings st2) = dom (strings st1)" using c by (metis dom_part_view)
    have "dom (strings st) \<subseteq> dom (strings st1)"
    proof
      fix p assume p: "p \<in> dom (strings st)"
      then have "p \<notin> C" using g by auto
      then have "part_view st1 p = part_view st p" using g by simp
      then show "p \<in> dom (strings st1)" using p by (metis domIff part_view_None)
    qed
    moreover have "fst x \<notin> C"
    proof
      assume C: "fst x \<in> C"
      then have "fst x \<in> dom (strings st1)" using g part_view_None by (metis domIff option.distinct(1))
      then show False using x2(2) d gone [OF C] by auto
    qed
    moreover have "x \<in> alloc_blocks (heap st1)" "fst x \<notin> Q" using c x2(1) by auto
    ultimately show ?thesis using g x2(2) d by blast
  qed
  ultimately show ?thesis using g c t by (simp add: tidy_def)
qed

text \<open>The entries \<open>Q\<close> of a list have become \<open>Q'\<close>, and nothing is new but these and parts.\<close>

definition gained :: "addr \<Rightarrow> addr set \<Rightarrow> store \<Rightarrow> addr set \<Rightarrow> store \<Rightarrow> bool" where
  "gained path Q st Q' st' \<longleftrightarrow> (\<exists>C R. grown path C R st st' \<and> Q' = R \<union> Q)"

lemma gained_refl [simp]: "gained path Q st Q st"
  using grown_same [of st st path] unfolding gained_def by blast

lemma gained_step:
  assumes "grown path C R st st1" "gained path Q1 st1 Q' st'" "Q1 = R \<union> Q"
  shows "gained path Q st Q' st'"
proof -
  obtain C1 R1 where g: "grown path C1 R1 st1 st'" "Q' = R1 \<union> Q1" using assms(2) by (auto simp: gained_def)
  have "grown path (C \<union> C1) (R \<union> R1) st st'" by (rule grown_trans [OF assms(1) g(1)])
  moreover have "Q' = (R \<union> R1) \<union> Q" using g(2) assms(3) by auto
  ultimately show ?thesis unfolding gained_def by blast
qed

end
