(* ===== verification/Remove_Steps.thy ===== *)
theory Remove_Steps
  imports Footprint
begin

text \<open>
  Removing a tree: the calls it takes when the system answers as it does for that tree, and that
  \<open>recursiveRemove\<close> makes exactly these calls and gives everything back.
\<close>

section \<open>Trees\<close>

text \<open>A directory comes with the descriptor it is opened under and its entries as they are read.\<close>

datatype ftree = Leaf | Branch int "(string \<times> ftree) list"

abbreviation nondot :: "(string \<times> 'a) list \<Rightarrow> (string \<times> 'a) list" where
  "nondot es \<equiv> filter (\<lambda>e. \<not> ISDOT (fst e)) es"

fun is_branch :: "ftree \<Rightarrow> bool" where
  "is_branch Leaf = False"
| "is_branch (Branch d es) = True"

definition reading :: "('a \<Rightarrow> bool) \<Rightarrow> int \<Rightarrow> string \<times> 'a \<Rightarrow> syscall \<times> (reply \<Rightarrow> bool)" where
  "reading is_dir d e = (Readdir d, \<lambda>r. ret r \<noteq> 0 \<and> out_str r = fst e \<and> (ISDOT (fst e) \<or> (out_type r = DT_DIR \<longleftrightarrow> is_dir (snd e))))"

definition end_of :: "int \<Rightarrow> syscall \<times> (reply \<Rightarrow> bool)" where
  "end_of d = (Readdir d, \<lambda>r. ret r = 0)"

lemma follows_reading: "follows E tr (reading is_dir d e # cs) \<longleftrightarrow> ret (kernel E tr (Readdir d)) \<noteq> 0
    \<and> out_str (kernel E tr (Readdir d)) = fst e
    \<and> (ISDOT (fst e) \<or> (out_type (kernel E tr (Readdir d)) = DT_DIR \<longleftrightarrow> is_dir (snd e))) \<and> follows E (tr @ [Readdir d]) cs"
  by (simp add: reading_def)

lemma follows_end [simp]: "follows E tr (end_of d # cs) \<longleftrightarrow> ret (kernel E tr (Readdir d)) = 0 \<and> follows E (tr @ [Readdir d]) cs"
  by (simp add: end_of_def)

lemma calls_reading [simp]: "calls (reading is_dir d e # cs) = Readdir d # calls cs" "calls (end_of d # cs) = Readdir d # calls cs"
  by (simp_all add: reading_def end_of_def)

text \<open>The calls: a directory is read and closed, then what was in it goes, then the directory.\<close>

fun removal :: "'db program \<Rightarrow> int \<Rightarrow> string \<Rightarrow> ftree \<Rightarrow> script" where
  "removal E fd p Leaf = [(Unlinkat fd p False, \<lambda>r. True)]"
| "removal E fd p (Branch d es) =
     [(Openat fd p [O_DIRECTORY, O_RDONLY] 0, \<lambda>r. ret r = d \<and> 0 \<le> d), (Fdopendir d, \<lambda>r. ret r \<noteq> 0)]
     @ map (reading is_branch d) es @ [end_of d, (Closedir d, \<lambda>r. True)]
     @ concat (in_order E (map (\<lambda>e. removal E fd (p @ ''/'' @ fst e) (snd e)) (rev (nondot es))))
     @ [(Unlinkat fd p True, \<lambda>r. True)]"

text \<open>What a removal may use of memory and counters, how deep it goes, and the bound on names.\<close>

fun cost :: "ftree \<Rightarrow> nat" where
  "cost Leaf = 1"
| "cost (Branch d es) = 1 + sum_list (map (\<lambda>e. cost (snd e) + 2) (nondot es))"

fun deep :: "ftree \<Rightarrow> nat" where
  "deep Leaf = 1"
| "deep (Branch d es) = Suc (foldr max (map (\<lambda>e. deep (snd e)) es) 0)"

fun fits :: "nat \<Rightarrow> nat \<Rightarrow> string \<Rightarrow> ftree \<Rightarrow> bool" where
  "fits k m p Leaf \<longleftrightarrow> length p < k \<and> c_name p"
| "fits k m p (Branch d es) \<longleftrightarrow> length p < k \<and> c_name p
     \<and> (\<forall>e \<in> set (nondot es). sizeof_StringPart + length (fst e) + 2 \<le> m \<and> fits k m (p @ ''/'' @ fst e) (snd e))"

lemma sum_cost: "(\<Sum>e\<leftarrow>xs. Suc (Suc (cost (snd e)))) = 2 * length xs + (\<Sum>e\<leftarrow>xs. cost (snd e))"
  by (induction xs) auto

lemma fits_name: "fits k m p x \<Longrightarrow> length p < k \<and> c_name p"
  by (cases x) simp_all

lemma foldr_max: "x \<in> set xs \<Longrightarrow> x \<le> foldr max xs (0 :: nat)"
  by (induction xs) auto

lemma deep_child: "e \<in> set es \<Longrightarrow> deep (snd e) < deep (Branch d es)"
  using foldr_max [of "deep (snd e)" "map (\<lambda>e. deep (snd e)) es"] by simp

section \<open>The list of entries\<close>

fun listed :: "store \<Rightarrow> addr \<Rightarrow> (addr \<times> dir_ent) list \<Rightarrow> bool" where
  "listed st p [] \<longleftrightarrow> p = NULL"
| "listed st p ((q, e) # xs) \<longleftrightarrow> p = q \<and> q \<noteq> NULL \<and> ents st q = Some e \<and> listed st (ent_prev e) xs"

lemma listed_cong: "listed st p xs \<Longrightarrow> \<forall>q \<in> fst ` set xs. ents st' q = ents st q \<Longrightarrow> listed st' p xs"
  by (induction xs arbitrary: p) auto

lemma listed_some: "listed st p xs \<Longrightarrow> q \<in> fst ` set xs \<Longrightarrow> ents st q \<noteq> None"
  by (induction st p xs rule: listed.induct) auto

definition entry_refs :: "(addr \<times> dir_ent) list \<Rightarrow> addr multiset" where
  "entry_refs xs = mset (map (\<lambda>x. ent_path (snd x)) xs)"

text \<open>An entry holds the path of its name.\<close>

definition names_entry :: "store \<Rightarrow> string \<Rightarrow> dir_ent \<Rightarrow> string \<times> ftree \<Rightarrow> bool" where
  "names_entry st p e y \<longleftrightarrow> spells (strings st) (ent_path e) (p @ ''/'' @ fst y) \<and> (ent_isDir e \<longleftrightarrow> is_branch (snd y))"

lemma names_entry_steady:
  "names_entry (wstore w) p e y \<Longrightarrow> steady Q w w' \<Longrightarrow> ent_path e \<in> Q \<Longrightarrow> names_entry (wstore w') p e y"
  using steadyD(1) by (auto simp: names_entry_def)

lemma ents_SomeD: "ents st p = Some e \<Longrightarrow> objects st p = Some (Ent e)"
  by (auto simp: ents_def split: option.splits object.splits)

lemma put_entry:
  assumes ok: "owned w ext dext" and fresh: "fresh_block (wstore w) p len" and len: "sizeof_DirEnt \<le> len"
  obtains w' where "w_put p (Ent e) w = Some w'" "only_store w w'" "owned w' ext dext" "advanced spare 0 0 UNIV w w'"
    "ents (wstore w') = (ents (wstore w))(p \<mapsto> e)" "strings (wstore w') = strings (wstore w)" "p \<noteq> NULL" "ents (wstore w) p = None"
proof -
  let ?st = "wstore w" and ?st' = "put_object p (Ent e) (wstore w)"
  have n: "objects ?st p = None" "p \<noteq> NULL" using fresh by (simp_all add: fresh_block_def)
  note so = strings_ok_fresh [OF ownedD(1) [OF ok] fresh, of "Ent e"]
  have v: "fdrcs ?st' = fdrcs ?st" "ents ?st' = (ents ?st)(p \<mapsto> e)" "ents ?st p = None"
    using n(1) by (auto simp: fdrcs_def ents_def fun_eq_iff)
  let ?w = "w\<lparr>wstore := ?st'\<rparr>"
  have st: "strings ?st' = strings ?st" using so len by simp
  have "owned ?w ext dext" using so len ownedD(2) [OF ok] v(1) by (simp add: owned_def queued_def)
  moreover have "load ?w = load w" by (simp add: load_def st v(1) queued_def del: object_views fdrcs_simps)
  moreover have "buf_ready ?w b k" if "buf_ready w b k" for b k
    using that n(1) unfolding buf_ready_def by (elim exE conjE, intro exI conjI) auto
  then have "steady UNIV w ?w" by (simp add: steady_def fds_def st v(1) del: object_views fdrcs_simps)
  ultimately show thesis using that [of ?w] n(2) v(2,3) st by (simp add: w_put_def advanced_def)
qed

context room
begin

lemma free_entry:
  assumes ok: "owned w ext dext" and e: "ents (wstore w) p = Some e"
  shows "only_store w (w_free w p)" "owned (w_free w p) ext dext" "advanced spare 0 0 UNIV w (w_free w p)"
    "ents (wstore (w_free w p)) = (ents (wstore w))(p := None)"
proof -
  note o = ents_SomeD [OF e]
  have n: "strings (wstore w) p = None" "fdrcs (wstore w) p = None" using o by (simp_all add: strings_def fdrcs_def)
  note f = strings_ok_free [OF ownedD(1) [OF ok] n(1)]
  have F: "fdrcs (store_free (wstore w) p) = fdrcs (wstore w)" using n(2) by auto
  show "only_store w (w_free w p)" by (simp add: w_free_def)
  show "owned (w_free w p) ext dext" using f(1) ownedD(2) [OF ok] F by (simp add: owned_def w_free_def queued_def del: fdrcs_simps)
  show "ents (wstore (w_free w p)) = (ents (wstore w))(p := None)"
    by (auto simp: w_free_def ents_def fun_eq_iff)
  have "buf_ready (w_free w p) b k" if "buf_ready w b k" for b k
    using that o unfolding buf_ready_def w_free_def by (elim exE conjE, intro exI conjI) auto
  then have "steady UNIV w (w_free w p)" using f(2) F by (simp add: steady_def fds_def w_free_def del: fdrcs_simps object_views)
  moreover have "load (w_free w p) = load w" using f(2) F by (simp add: load_def w_free_def queued_def del: fdrcs_simps object_views)
  moreover have "spare (heap (wstore w)) \<le> spare (heap (wstore (w_free w p)))"
    using free_cap [OF strings_okD(1) [OF ownedD(1) [OF ok]], of p] by (simp add: w_free_def store_free_def)
  ultimately show "advanced spare 0 0 UNIV w (w_free w p)" by (simp add: advanced_def)
qed

lemma read_entries_ok:
  assumes E: "tid E = t" "sizeof_DirEnt \<le> m" and fit: "\<forall>e \<in> set (nondot es). sizeof_StringPart + length (fst e) + 2 \<le> m"
    and "follows E (trace w) (map (reading is_branch d) es @ [end_of d])" "owned w (ext + entry_refs xs) dext" "path \<in># ext"
    "spells (strings (wstore w)) path p" "listed (wstore w) it xs" "distinct (map fst xs)"
    "list_all2 (\<lambda>x y. names_entry (wstore w) p (snd x) y) xs ys"
    "roomy w (ext + entry_refs xs) (2 * length (nondot es))" "2 * length (nondot es) \<le> spare (heap (wstore w))"
  shows "\<exists>it' xs' w'. read_entries E d path it w = Some (it', w') \<and> owned w' (ext + entry_refs xs') dext
    \<and> w' = w\<lparr>wstore := wstore w', trace := trace w @ calls (map (reading is_branch d) es @ [end_of d])\<rparr>
    \<and> advanced spare (2 * length (nondot es)) (length (nondot es)) (set_mset (ext + q_names (queued w))) w w'
    \<and> listed (wstore w') it' xs' \<and> distinct (map fst xs')
    \<and> list_all2 (\<lambda>x y. names_entry (wstore w') p (snd x) y) xs' (rev (nondot es) @ ys)
    \<and> gained path (fst ` set xs) (wstore w) (fst ` set xs') (wstore w')"
  using assms(3-)
proof (induction es arbitrary: w it xs ys)
  case Nil
  let ?w = "w\<lparr>trace := trace w @ [Readdir d]\<rparr>"
  have sn: "same_names w ?w" by (simp add: same_names_def queued_def)
  have "read_entries E d path it w = Some (it, ?w)"
    using Nil.prems(2) by (subst read_entries.simps) (simp add: sys_def end_of_def)
  moreover have "owned ?w (ext + entry_refs xs) dext" using Nil.prems(3) by simp
  ultimately show ?case
    using Nil.prems(6-8) advanced_same [OF sn] by (intro exI [of _ it] exI [of _ xs] exI [of _ ?w]) (simp add: end_of_def)
next
  case (Cons e es)
  let ?w = "w\<lparr>trace := trace w @ [Readdir d]\<rparr>"
  have sn: "same_names w ?w" by (simp add: same_names_def queued_def)
  define r where "r = kernel E (trace w) (Readdir d)"
  have r: "ret r \<noteq> 0" "out_str r = fst e" "ISDOT (fst e) \<or> (out_type r = DT_DIR \<longleftrightarrow> is_branch (snd e))"
    and fw: "follows E (trace ?w) (map (reading is_branch d) es @ [end_of d])"
    using Cons.prems(2) by (simp_all add: follows_reading r_def)
  have q0: "queued ?w = queued w" by (simp add: queued_def)
  show ?case
  proof (cases "ISDOT (fst e)")
    case True
    obtain it' xs' w' where w': "read_entries E d path it ?w = Some (it', w')" "owned w' (ext + entry_refs xs') dext"
      "w' = ?w\<lparr>wstore := wstore w', trace := trace ?w @ calls (map (reading is_branch d) es @ [end_of d])\<rparr>"
      "advanced spare (2 * length (nondot es)) (length (nondot es)) (set_mset (ext + q_names (queued w))) ?w w'"
      "listed (wstore w') it' xs'" "distinct (map fst xs')" "list_all2 (\<lambda>x y. names_entry (wstore w') p (snd x) y) xs' (rev (nondot es) @ ys)"
      "gained path (fst ` set xs) (wstore w) (fst ` set xs') (wstore w')"
      using Cons.IH [of ?w xs it ys] Cons.prems True fw by (simp add: q0) blast
    have "read_entries E d path it w = Some (it', w')"
      using w'(1) r(1,2) True by (subst read_entries.simps) (simp add: sys_def r_def)
    moreover have "advanced spare (2 * length (nondot es)) (length (nondot es)) (set_mset (ext + q_names (queued w))) w w'"
      using advanced_trans [OF advanced_same [OF sn] w'(4)] by simp
    moreover have "w' = w\<lparr>wstore := wstore w', trace := trace w @ calls (map (reading is_branch d) (e # es) @ [end_of d])\<rparr>"
      by (subst w'(3)) simp
    ultimately show ?thesis using w'(2,5-8) True by (intro exI [of _ it'] exI [of _ xs'] exI [of _ w']) simp
  next
    case False
    let ?X = "ext + entry_refs xs" and ?Q = "set_mset (ext + q_names (queued w))"
    have ok0: "owned ?w ?X dext" using Cons.prems(3) by simp
    have room0: "roomy ?w ?X 0" using Cons.prems(9) by (simp add: roomy_load)
    have pd: "path = NULL \<or> path \<in> dom (strings (wstore ?w))"
      using parts_okD(3) [OF strings_okD(2) [OF ownedD(1) [OF ok0]]] Cons.prems(4) by auto
    have sz: "sizeof_StringPart + length ''/'' + length (fst e) + 1 \<le> m" using Cons.prems(1) False by simp
    have c0: "0 < spare (heap (wstore ?w))" using Cons.prems(10) False by simp
    have sp: "spells (strings (wstore ?w)) path p" using Cons.prems(5) by simp
    obtain c w1 where w1: "w_part E ?w path ''/'' (fst e) = Some (c, w1)" "only_store ?w w1" "owned w1 (add_mset c ?X) dext"
      "advanced spare 1 1 UNIV ?w w1" "c \<noteq> NULL" "spells (strings (wstore w1)) c (p @ ''/'' @ fst e)" "ents (wstore w1) = ents (wstore ?w)"
      by (rule part_adv [OF ok0 pd room0 sp E(1) sz c0]) blast
    have c1: "0 < spare (heap (wstore w1))" using advancedD(2) [OF w1(4)] Cons.prems(10) False by simp
    have "0 < sizeof_DirEnt" by (simp add: sizeof_DirEnt_def)
    then obtain q w2 where w2: "w_alloc E w1 sizeof_DirEnt = (q, w2)" "only_store w1 w2" "owned w2 (add_mset c ?X) dext"
      "advanced spare 1 0 UNIV w1 w2" "fresh_block (wstore w2) q sizeof_DirEnt" "strings (wstore w2) = strings (wstore w1)"
      "objects (wstore w2) = objects (wstore w1)"
      using alloc_adv [OF w1(3) E(1) _ E(2) c1] by metis
    define x where "x = \<lparr>ent_path = c, ent_prev = it, ent_isDir = (out_type r = DT_DIR)\<rparr>"
    obtain w3 where w3: "w_put q (Ent x) w2 = Some w3" "only_store w2 w3" "owned w3 (add_mset c ?X) dext" "advanced spare 0 0 UNIV w2 w3"
      "ents (wstore w3) = (ents (wstore w2))(q \<mapsto> x)" "strings (wstore w3) = strings (wstore w2)" "q \<noteq> NULL" "ents (wstore w2) q = None"
      by (rule put_entry [OF w2(3,5) order.refl]) blast
    have e2: "ents (wstore w2) = ents (wstore w)" using w2(7) w1(7) by (simp add: ents_def fun_eq_iff)
    have "advanced spare (0 + 1 + 1 + 0) (0 + 1 + 0 + 0) UNIV w w3"
      by (rule advanced_trans [OF advanced_trans [OF advanced_trans [OF advanced_same [OF sn] w1(4)] w2(4)] w3(4)])
    then have a3: "advanced spare 2 1 UNIV w w3" by (simp add: numeral_2_eq_2)
    have os: "only_store ?w w3" by (rule only_store_trans [OF only_store_trans [OF w1(2) w2(2)] w3(2)])
    then obtain st where w3e: "w3 = ?w\<lparr>wstore := st\<rparr>" unfolding only_store_def by blast
    have q3: "queued w3 = queued w" by (simp add: w3e queued_def)
    have qx: "q \<notin> fst ` set xs" using listed_some [OF Cons.prems(6), of q] w3(8) unfolding e2 by blast
    have st3: "steady UNIV w w3" by (rule advancedD(1) [OF a3])
    have X: "ext + entry_refs ((q, x) # xs) = add_mset c ?X" by (simp add: entry_refs_def x_def)
    have "listed (wstore w3) it xs"
      by (rule listed_cong [OF Cons.prems(6)]) (use qx in \<open>auto simp: w3(5) e2\<close>)
    then have l3: "listed (wstore w3) q ((q, x) # xs)" using w3(5,7) by (simp add: x_def)
    have "list_all2 (\<lambda>x y. names_entry (wstore w3) p (snd x) y) xs ys"
      by (rule list_all2_mono [OF Cons.prems(8)]) (rule names_entry_steady [OF _ st3 UNIV_I])
    moreover have "names_entry (wstore w3) p x e" using w1(6) r(3) False by (simp add: names_entry_def x_def w3(6) w2(6))
    ultimately have n3: "list_all2 (\<lambda>x y. names_entry (wstore w3) p (snd x) y) ((q, x) # xs) (e # ys)" by simp
    have "\<exists>it' xs' w'. read_entries E d path q w3 = Some (it', w') \<and> owned w' (ext + entry_refs xs') dext
      \<and> w' = w3\<lparr>wstore := wstore w', trace := trace w3 @ calls (map (reading is_branch d) es @ [end_of d])\<rparr>
      \<and> advanced spare (2 * length (nondot es)) (length (nondot es)) (set_mset (ext + q_names (queued w3))) w3 w'
      \<and> listed (wstore w') it' xs' \<and> distinct (map fst xs')
      \<and> list_all2 (\<lambda>x y. names_entry (wstore w') p (snd x) y) xs' (rev (nondot es) @ e # ys)
      \<and> gained path (fst ` set ((q, x) # xs)) (wstore w3) (fst ` set xs') (wstore w')"
    proof (rule Cons.IH)
      show "follows E (trace w3) (map (reading is_branch d) es @ [end_of d])" using fw by (simp add: w3e)
      show "owned w3 (ext + entry_refs ((q, x) # xs)) dext" unfolding X by (rule w3(3))
      show "spells (strings (wstore w3)) path p" by (rule steadyD(1) [OF st3 UNIV_I Cons.prems(5)])
      show "distinct (map fst ((q, x) # xs))" using Cons.prems(7) qx by simp
      show "roomy w3 (ext + entry_refs ((q, x) # xs)) (2 * length (nondot es))"
        using Cons.prems(9) advancedD(3) [OF a3] False unfolding X by (simp add: roomy_load)
      show "2 * length (nondot es) \<le> spare (heap (wstore w3))" using Cons.prems(10) advancedD(2) [OF a3] False by simp
    qed (use Cons.prems(1,4) l3 n3 in simp_all)
    then obtain it' xs' w' where w': "read_entries E d path q w3 = Some (it', w')" "owned w' (ext + entry_refs xs') dext"
      "w' = w3\<lparr>wstore := wstore w', trace := trace w3 @ calls (map (reading is_branch d) es @ [end_of d])\<rparr>"
      "advanced spare (2 * length (nondot es)) (length (nondot es)) (set_mset (ext + q_names (queued w3))) w3 w'"
      "listed (wstore w') it' xs'" "distinct (map fst xs')" "list_all2 (\<lambda>x y. names_entry (wstore w') p (snd x) y) xs' (rev (nondot es) @ e # ys)"
      "gained path (fst ` set ((q, x) # xs)) (wstore w3) (fst ` set xs') (wstore w')"
      by blast
    have "grown path {c} {} (wstore ?w) (wstore w1)" by (rule part_grown [OF strings_okD(1) [OF ownedD(1) [OF ok0]] w1(1)])
    from grown_trans [OF this entry_grown [OF strings_okD(1) [OF ownedD(1) [OF w1(3)]] w2(1) w3(1)]]
    have "grown path {c} {q} (wstore w) (wstore w3)" by simp
    then have g: "gained path (fst ` set xs) (wstore w) (fst ` set xs') (wstore w')" using gained_step [OF _ w'(8), of _ "{q}"] by auto
    have "read_entries E d path it w = Some (it', w')"
      using w'(1) r(1,2) False w1(1) w2(1) w3(1) by (subst read_entries.simps) (simp add: sys_def r_def x_def)
    moreover have "advanced spare (2 * length (nondot (e # es))) (length (nondot (e # es))) ?Q w w'"
      using advanced_trans [OF advanced_mono [OF a3 order.refl order.refl subset_UNIV] w'(4) [unfolded q3]] False by simp
    moreover have "w' = w\<lparr>wstore := wstore w', trace := trace w @ calls (map (reading is_branch d) (e # es) @ [end_of d])\<rparr>"
      by (subst w'(3)) (simp add: w3e)
    ultimately show ?thesis using w'(2,5-7) g False by (intro exI [of _ it'] exI [of _ xs'] exI [of _ w']) simp
  qed
qed

lemma take_entries_ok:
  assumes "owned w ext dext" "listed (wstore w) it xs" "distinct (map fst xs)"
  shows "\<exists>w'. take_entries it w = Some (map snd xs, w') \<and> owned w' ext dext \<and> only_store w w' \<and> advanced spare 0 0 UNIV w w'
    \<and> cleared (fst ` set xs) (wstore w) (wstore w')"
  using assms
proof (induction xs arbitrary: w it)
  case Nil
  then show ?case by (subst take_entries.simps) (simp add: isNullRef_def)
next
  case (Cons x xs)
  obtain q e where x: "x = (q, e)" by (cases x)
  have it: "it = q" "q \<noteq> NULL" "ents (wstore w) q = Some e" "listed (wstore w) (ent_prev e) xs" using Cons.prems(2) by (simp_all add: x)
  note f = free_entry [OF Cons.prems(1) it(3)]
  have "listed (wstore (w_free w q)) (ent_prev e) xs"
    by (rule listed_cong [OF it(4)]) (use Cons.prems(3) in \<open>auto simp: f(4) x\<close>)
  from Cons.IH [OF f(2) this] Cons.prems(3) obtain w' where w': "take_entries (ent_prev e) (w_free w q) = Some (map snd xs, w')"
    "owned w' ext dext" "only_store (w_free w q) w'" "advanced spare 0 0 UNIV (w_free w q) w'"
    "cleared (fst ` set xs) (wstore (w_free w q)) (wstore w')" by (auto simp: x)
  have cl: "cleared (fst ` set (x # xs)) (wstore w) (wstore w')"
    using cleared_trans [OF free_cleared [OF strings_okD(1) [OF ownedD(1) [OF Cons.prems(1)]] it(3)] w'(5)] by (simp add: x)
  have "take_entries it w = Some (map snd (x # xs), w')"
    using it w'(1) by (subst take_entries.simps) (simp add: isNullRef_def x)
  then show ?case using cl w'(2) only_store_trans [OF f(1) w'(3)] advanced_trans [OF f(3) w'(4)] by simp
qed

end

section \<open>Removing\<close>

fun is_unlink :: "syscall \<Rightarrow> bool" where
  "is_unlink (Unlinkat fd p d) \<longleftrightarrow> True"
| "is_unlink _ \<longleftrightarrow> False"

text \<open>What a part of a removal did: its calls, the count of what went, and nothing else but the store.\<close>

definition removed_by :: "'db program \<Rightarrow> (allocator \<Rightarrow> nat) \<Rightarrow> nat \<Rightarrow> addr multiset \<Rightarrow> 'db world \<Rightarrow> 'db world \<Rightarrow> syscall list \<Rightarrow> bool" where
  "removed_by E spare k ext w w' cs \<longleftrightarrow> advanced spare k k (set_mset (ext + q_names (queued w))) w w'
     \<and> w' = w\<lparr>wstore := wstore w', trace := trace w @ cs, n_removed := (n_removed w + unlinked E (trace w) cs) mod 2 ^ 64\<rparr>"

lemma removed_byD:
  assumes "removed_by E spare k ext w w' cs"
  shows "trace w' = trace w @ cs" "queued w' = queued w" "fdSem w' = fdSem w" "bufs w' = bufs w" "n_removed w' < 2 ^ 64"
    "n_removed w' = (n_removed w + unlinked E (trace w) cs) mod 2 ^ 64" "advanced spare k k (set_mset (ext + q_names (queued w))) w w'"
proof -
  obtain st where "w' = w\<lparr>wstore := st, trace := trace w @ cs, n_removed := (n_removed w + unlinked E (trace w) cs) mod 2 ^ 64\<rparr>"
    using assms unfolding removed_by_def by blast
  then show "trace w' = trace w @ cs" "queued w' = queued w" "fdSem w' = fdSem w" "bufs w' = bufs w" "n_removed w' < 2 ^ 64"
    "n_removed w' = (n_removed w + unlinked E (trace w) cs) mod 2 ^ 64" by (simp_all add: queued_def)
qed (use assms in \<open>simp add: removed_by_def\<close>)

lemma removed_by_trans:
  assumes "removed_by E spare k ext w w1 xs" "removed_by E spare k' ext w1 w2 ys"
  shows "removed_by E spare (k + k') ext w w2 (xs @ ys)"
proof -
  note d = removed_byD [OF assms(1)]
  obtain st1 st2 where e: "w1 = w\<lparr>wstore := st1, trace := trace w @ xs, n_removed := (n_removed w + unlinked E (trace w) xs) mod 2 ^ 64\<rparr>"
    "w2 = w1\<lparr>wstore := st2, trace := trace w1 @ ys, n_removed := (n_removed w1 + unlinked E (trace w1) ys) mod 2 ^ 64\<rparr>"
    using assms unfolding removed_by_def by blast
  have "w2 = w\<lparr>wstore := wstore w2, trace := trace w @ (xs @ ys), n_removed := (n_removed w + unlinked E (trace w) (xs @ ys)) mod 2 ^ 64\<rparr>"
    by (simp add: e unlinked_append mod_simps ac_simps)
  moreover have "advanced spare (k + k') (k + k') (set_mset (ext + q_names (queued w))) w w2"
    using advanced_trans [OF d(7) removed_byD(7) [OF assms(2), unfolded d(2)]] .
  ultimately show ?thesis unfolding removed_by_def by blast
qed

lemma removed_by_mono: "removed_by E spare k ext w w' cs \<Longrightarrow> k \<le> k' \<Longrightarrow> ext' \<subseteq># ext \<Longrightarrow> removed_by E spare k' ext' w w' cs"
  unfolding removed_by_def using advanced_mono [of spare k k _ w w' k' k'] set_mset_mono [of ext' ext] by (auto simp: subset_iff)

lemma removed_by_store:
  "only_store w w' \<Longrightarrow> advanced spare k k (set_mset (ext + q_names (queued w))) w w' \<Longrightarrow> n_removed w < 2 ^ 64 \<Longrightarrow> removed_by E spare k ext w w' []"
proof -
  assume a: "only_store w w'" "advanced spare k k (set_mset (ext + q_names (queued w))) w w'" "n_removed w < 2 ^ 64"
  then obtain st where "w' = w\<lparr>wstore := st\<rparr>" unfolding only_store_def by blast
  then show ?thesis using a(2,3) by (simp add: removed_by_def)
qed

lemma removed_by_call:
  assumes "n_removed w < 2 ^ 64"
    "w' = w\<lparr>trace := trace w @ [c], n_removed := (n_removed w + unlinked E (trace w) [c]) mod 2 ^ 64\<rparr>"
  shows "removed_by E spare 0 ext w w' [c]"
proof -
  have "same_names w w'" using assms(2) by (simp add: same_names_def queued_def)
  then show ?thesis unfolding removed_by_def by (intro conjI advanced_same) (simp_all add: assms(2))
qed

lemma unlinked_none: "\<forall>c \<in> set cs. \<not> is_unlink c \<Longrightarrow> unlinked E tr cs = 0"
  by (induction E tr cs rule: unlinked.induct) (auto split: syscall.splits)

lemma reading_calls: "c \<in> set (calls (map (reading is_dir d) es @ [end_of d])) \<Longrightarrow> \<not> is_unlink c"
  by (auto simp: calls_def reading_def end_of_def)

lemma removal_below:
  "orders E \<Longrightarrow> Unlinkat fd' q b \<in> set (calls (removal E fd p x)) \<Longrightarrow> fd' = fd \<and> (\<exists>q'. q = p @ q')"
proof (induction E fd p x rule: removal.induct)
  case (2 E fd p d es)
  let ?r = "\<lambda>e. removal E fd (p @ ''/'' @ fst e) (snd e)"
  have not_read: "Unlinkat fd' q b \<notin> set (calls (map (reading is_branch d) es))" by (auto simp: calls_def reading_def)
  consider "fd' = fd" "q = p" | e where "e \<in> set (nondot es)" "Unlinkat fd' q b \<in> set (calls (?r e))"
    using 2(3) not_read by (auto simp: calls_def in_order_set [OF 2(2)] end_of_def)
  then show ?case
  proof cases
    case (2 e)
    then show ?thesis using "2.IH" [of e] \<open>orders E\<close> by auto
  qed simp
qed simp

definition remove_ready :: "'db world \<Rightarrow> nat \<Rightarrow> bool" where
  "remove_ready w k \<longleftrightarrow> buf_ready w Remove_remote k \<and> buf_ready w RemoveNonDir_remote k \<and> n_removed w < 2 ^ 64 \<and> 0 < fdSem w"

lemma remove_ready_after: "remove_ready w k \<Longrightarrow> removed_by E spare l ext w w' cs \<Longrightarrow> remove_ready w' k"
  unfolding remove_ready_def using removed_byD [of E spare l ext w w' cs] advancedD(1) steadyD(2) by metis

text \<open>The calls that read the entries of a directory, and the state they leave.\<close>

definition listing :: "int \<Rightarrow> string \<Rightarrow> int \<Rightarrow> (string \<times> ftree) list \<Rightarrow> script" where
  "listing fd p d es = [(Openat fd p [O_DIRECTORY, O_RDONLY] 0, \<lambda>r. ret r = d \<and> 0 \<le> d), (Fdopendir d, \<lambda>r. ret r \<noteq> 0)]
     @ map (reading is_branch d) es @ [end_of d, (Closedir d, \<lambda>r. True)]"

lemma removal_listing:
  "removal E fd p (Branch d es) = listing fd p d es
     @ concat (in_order E (map (\<lambda>e. removal E fd (p @ ''/'' @ fst e) (snd e)) (rev (nondot es)))) @ [(Unlinkat fd p True, \<lambda>r. True)]"
  by (simp add: listing_def)

lemma listing_unlinks: "unlinked E tr (calls (listing fd p d es)) = 0"
  by (rule unlinked_none) (use reading_calls in \<open>auto simp: listing_def\<close>)

lemma first_unlink_branch:
  assumes "start = (if depth = 0 then [(Unlinkat fd p False, \<lambda>r. ret r < 0 \<and> errno r = EISDIR)] else [])"
    and "follows E (trace w) start" "n_removed w < 2 ^ 64"
  obtains w' where "first_unlink E w fd p depth = (None, w')" "same_names w w'" "removed_by E spare 0 ext w w' (calls start)"
proof
  let ?w = "if depth = 0 then w\<lparr>trace := trace w @ [Unlinkat fd p False]\<rparr> else w"
  have "EISDIR \<noteq> ENOENT" by (simp add: EISDIR_def ENOENT_def)
  then show "first_unlink E w fd p depth = (None, ?w)" using assms(1,2) by (cases "depth = 0") (simp_all add: first_unlink_def sys_def)
  show "same_names w ?w" by (simp add: same_names_def queued_def)
  show "removed_by E spare 0 ext w ?w (calls start)"
  proof (cases "depth = 0")
    case True
    then show ?thesis using assms by (simp add: removed_by_call)
  next
    case False
    then show ?thesis using assms(1,3) removed_by_store [of w w spare 0 ext E] by simp
  qed
qed

lemma open_stream_ok:
  assumes "follows E (trace w) (listing fd p d es)" "0 < fdSem w"
  defines "w' \<equiv> w\<lparr>trace := trace w @ [Openat fd p [O_DIRECTORY, O_RDONLY] 0, Fdopendir d], fdSem := fdSem w - 1\<rparr>"
  shows "open_stream E w fd p = Some (Some d, w')" "same_names w w'" "follows E (trace w') (map (reading is_branch d) es @ [end_of d])"
proof -
  let ?o = "Openat fd p [O_DIRECTORY, O_RDONLY] 0"
  have "ret (kernel E (trace w) ?o) = d" "0 \<le> d" "ret (kernel E (trace w @ [?o]) (Fdopendir d)) \<noteq> 0"
    and f: "follows E (trace w') (map (reading is_branch d) es @ [end_of d, (Closedir d, \<lambda>r. True)])"
    using assms(1) by (simp_all add: listing_def w'_def)
  then show "open_stream E w fd p = Some (Some d, w')"
    using assms(2) by (simp add: open_stream_def openat_wrapper_def sem_wait_def fdopendir_wrapper_def sys_def w'_def)
  show "same_names w w'" by (simp add: same_names_def w'_def queued_def)
  show "follows E (trace w') (map (reading is_branch d) es @ [end_of d])" using f by (simp add: follows_append end_of_def)
qed

context room
begin

lemma remove_leaf:
  assumes ok: "owned w (add_mset path ext) dext" and r: "remove_ready w k"
    and s: "spells (strings (wstore w)) path p" "length p < k" "c_name p"
  shows "\<exists>rc w'. recursiveRemoveNonDir E fd path w = Some (rc, w') \<and> owned w' ext dext
    \<and> removed_by E spare 0 ext w w' [Unlinkat fd p False] \<and> tidy (wstore w) (wstore w')"
proof -
  have b: "buf_ready w RemoveNonDir_remote k" "n_removed w < 2 ^ 64" using r by (simp_all add: remove_ready_def)
  obtain w1 where w1: "name_text E RemoveNonDir_remote w path = Some (p, w1)" "only_store w w1" "owned w1 (add_mset path ext) dext"
    "advanced spare 0 0 UNIV w w1" by (rule text_adv [OF ok b(1) s]) blast
  define u where "u = kernel E (trace w1) (Unlinkat fd p False)"
  define w2 where "w2 = (if ret u < 0 then w1\<lparr>trace := trace w1 @ [Unlinkat fd p False]\<rparr> else add_removed (w1\<lparr>trace := trace w1 @ [Unlinkat fd p False]\<rparr>))"
  have n1: "n_removed w1 < 2 ^ 64" using b(2) only_storeD(9) [OF w1(2)] by simp
  have sn: "same_names w1 w2" by (simp add: same_names_def w2_def add_removed_def queued_def)
  have "removed_by E spare 0 ext w1 w2 [Unlinkat fd p False]"
    by (rule removed_by_call [OF n1]) (use n1 in \<open>simp add: w2_def u_def add_removed_def\<close>)
  moreover have q1: "queued w1 = queued w" by (rule only_storeD(15) [OF w1(2)])
  have "removed_by E spare 0 ext w w1 []"
    by (rule removed_by_store [OF w1(2) advanced_mono [OF w1(4)] b(2)]) simp_all
  ultimately have r2: "removed_by E spare 0 ext w w2 [Unlinkat fd p False]"
    using removed_by_trans [of E spare 0 ext w w1 "[]" 0 w2] by simp
  have ok2: "owned w2 (add_mset path ext) dext" using w1(3) same_namesD(1) [OF sn] by simp
  have "path \<noteq> NULL" using parts_ok_not_null [OF strings_okD(2) [OF ownedD(1) [OF ok]], of path] by simp
  then have ok2': "owned w2 (own path ext) dext" using ok2 by (simp add: own_def)
  obtain w3 where w3: "drop_part w2 path = Some w3" "only_store w2 w3" "owned w3 ext dext"
    "advanced spare 0 0 (set_mset (ext + q_names (queued w2))) w2 w3" by (rule drop_adv [OF ok2']) blast
  have "recursiveRemoveNonDir E fd path w = Some (if ret u < 0 then -1 else 0, w3)"
    using w1(1) w3(1) by (simp add: recursiveRemoveNonDir_def sys_def u_def [symmetric] w2_def split: if_splits)
  moreover have "removed_by E spare 0 ext w2 w3 []"
    by (rule removed_by_store [OF w3(2,4) removed_byD(5) [OF r2]])
  moreover have "tidy (wstore w) (wstore w3)"
    using tidy_trans [OF text_tidy [OF ok b(1) s w1(1)]] drop_tidy [OF w3(1) ok2'] sn by (simp add: same_names_def)
  ultimately show ?thesis using removed_by_trans [OF r2, of 0 w3 "[]"] w3(3) by simp
qed

text \<open>The tasks of a directory, given what each of them does.\<close>

definition entry_done :: "'db program \<Rightarrow> int \<Rightarrow> nat \<Rightarrow> (dir_ent \<Rightarrow> 'db world \<Rightarrow> 'db world option) \<Rightarrow> string \<Rightarrow> addr multiset
    \<Rightarrow> dir_ent \<Rightarrow> string \<times> ftree \<Rightarrow> bool" where
  "entry_done E fd k f p dext e y \<longleftrightarrow> (\<forall>w ext. owned w (add_mset (ent_path e) ext) dext \<longrightarrow> names_entry (wstore w) p e y
     \<longrightarrow> remove_ready w k \<longrightarrow> roomy w (add_mset (ent_path e) ext) (cost (snd y)) \<longrightarrow> cost (snd y) \<le> spare (heap (wstore w))
     \<longrightarrow> follows E (trace w) (removal E fd (p @ ''/'' @ fst y) (snd y))
     \<longrightarrow> (\<exists>w'. f e w = Some w' \<and> owned w' ext dext \<and> removed_by E spare (cost (snd y)) ext w w' (calls (removal E fd (p @ ''/'' @ fst y) (snd y)))
           \<and> tidy (wstore w) (wstore w')))"

lemma run_removals:
  assumes "list_all2 (entry_done E fd k f p dext) zs ys" "list_all2 (names_entry (wstore w) p) zs ys"
    "owned w (ext + mset (map ent_path zs)) dext" "remove_ready w k"
    "roomy w (ext + mset (map ent_path zs)) (sum_list (map (\<lambda>y. cost (snd y)) ys))" "sum_list (map (\<lambda>y. cost (snd y)) ys) \<le> spare (heap (wstore w))"
    "follows E (trace w) (concat (map (\<lambda>y. removal E fd (p @ ''/'' @ fst y) (snd y)) ys))"
  shows "\<exists>w'. run_tasks f zs w = Some w' \<and> owned w' ext dext
    \<and> removed_by E spare (sum_list (map (\<lambda>y. cost (snd y)) ys)) ext w w' (calls (concat (map (\<lambda>y. removal E fd (p @ ''/'' @ fst y) (snd y)) ys)))
    \<and> tidy (wstore w) (wstore w')"
  using assms
proof (induction zs ys arbitrary: w rule: list_all2_induct)
  case Nil
  then show ?case using removed_by_store [of w w spare 0 ext E] by (simp add: remove_ready_def)
next
  case (Cons e zs y ys)
  let ?X = "ext + mset (map ent_path zs)" and ?c = "calls (removal E fd (p @ ''/'' @ fst y) (snd y))"
  have f: "follows E (trace w) (removal E fd (p @ ''/'' @ fst y) (snd y))"
    "follows E (trace w @ ?c) (concat (map (\<lambda>y. removal E fd (p @ ''/'' @ fst y) (snd y)) ys))"
    using Cons.prems(6) by (simp_all add: follows_append)
  have "owned w (add_mset (ent_path e) ?X) dext" using Cons.prems(2) by simp
  moreover have "roomy w (add_mset (ent_path e) ?X) (cost (snd y))" using Cons.prems(4) by (simp add: roomy_load)
  moreover have "cost (snd y) \<le> spare (heap (wstore w))" "names_entry (wstore w) p e y" using Cons.prems(1,5) by simp_all
  ultimately obtain w1 where w1: "f e w = Some w1" "owned w1 ?X dext" "removed_by E spare (cost (snd y)) ?X w w1 ?c" "tidy (wstore w) (wstore w1)"
    using Cons.hyps(1) Cons.prems(3) f(1) unfolding entry_done_def by blast
  note d = removed_byD [OF w1(3)]
  have "list_all2 (names_entry (wstore w1) p) zs ys"
  proof (rule list_all2I)
    have l: "length zs = length ys" using Cons.hyps(2) list_all2_lengthD by blast
    then show "length zs = length ys" .
    show "\<forall>x\<in>set (zip zs ys). case x of (e, y) \<Rightarrow> names_entry (wstore w1) p e y"
    proof (clarify)
      fix e' y' assume z: "(e', y') \<in> set (zip zs ys)"
      then have "names_entry (wstore w) p e' y'" using Cons.prems(1) l by (auto simp: list_all2_iff)
      then show "names_entry (wstore w1) p e' y'"
        by (rule names_entry_steady [OF _ advancedD(1) [OF d(7)]]) (use set_zip_leftD [OF z] in simp)
    qed
  qed
  moreover have "roomy w1 ?X (sum_list (map (\<lambda>y. cost (snd y)) ys))"
    using Cons.prems(4) advancedD(3) [OF d(7)] by (simp add: roomy_load)
  moreover have "sum_list (map (\<lambda>y. cost (snd y)) ys) \<le> spare (heap (wstore w1))" using Cons.prems(5) advancedD(2) [OF d(7)] by simp
  ultimately obtain w2 where w2: "run_tasks f zs w1 = Some w2" "owned w2 ext dext"
    "removed_by E spare (sum_list (map (\<lambda>y. cost (snd y)) ys)) ext w1 w2 (calls (concat (map (\<lambda>y. removal E fd (p @ ''/'' @ fst y) (snd y)) ys)))"
    "tidy (wstore w1) (wstore w2)"
    using Cons.IH [of w1] w1(2) remove_ready_after [OF Cons.prems(3) w1(3)] f(2) d(1) by auto
  have "removed_by E spare (cost (snd y)) ext w w1 ?c" by (rule removed_by_mono [OF w1(3)]) simp_all
  from removed_by_trans [OF this w2(3)] show ?case using w1(1) w2(1,2) tidy_trans [OF w1(4) w2(4)] by simp
qed

lemma buffer_text_name:
  assumes "name_text E b w ref = Some (s, w')" "bufs w' b = Some buf"
  shows "buffer_text w' (fst buf) = Some s"
  using assms by (auto simp: name_text_def buffer_text_def split: bind_splits object.splits option.splits prod.splits)

lemma list_directory:
  fixes E :: "'db program" and es :: "(string \<times> ftree) list"
  defines "N \<equiv> length (nondot es)"
  assumes E: "tid E = t" "sizeof_DirEnt \<le> m" and fit: "fits k m p (Branch d es)"
    and ok: "owned w (add_mset path ext) dext" and sp: "spells (strings (wstore w)) path p" and sem: "0 < fdSem w" "n_removed w < 2 ^ 64"
    and room: "roomy w (add_mset path ext) (2 * N)" "2 * N \<le> spare (heap (wstore w))" and f: "follows E (trace w) (listing fd p d es)"
  obtains w3 it xs w4 w6 where "open_stream E w fd p = Some (Some d, w3)" "read_entries E d path NULL w3 = Some (it, w4)"
    "take_entries it (closedir_wrapper E w4 d) = Some (map snd xs, w6)" "owned w6 (add_mset path ext + entry_refs xs) dext"
    "removed_by E spare (2 * N) (add_mset path ext) w w6 (calls (listing fd p d es))" "load w6 \<le> load w + N"
    "list_all2 (names_entry (wstore w6) p) (map snd xs) (rev (nondot es))"
    "\<exists>C Q st. grown path C Q (wstore w) st \<and> cleared Q st (wstore w6)"
proof -
  let ?es = "nondot es" and ?X = "add_mset path ext" and ?o = "Openat fd p [O_DIRECTORY, O_RDONLY] 0"
  define w3 where "w3 = w\<lparr>trace := trace w @ [?o, Fdopendir d], fdSem := fdSem w - 1\<rparr>"
  note o3 = open_stream_ok [OF f sem(1), folded w3_def]
  have ok3: "owned w3 (?X + entry_refs []) dext" using ok same_namesD(1) [OF o3(2)] by (simp add: entry_refs_def)
  have q3: "queued w3 = queued w" using o3(2) by (simp add: same_names_def)
  have sp3: "spells (strings (wstore w3)) path p" using sp by (simp add: w3_def)
  have fit': "\<forall>e \<in> set ?es. sizeof_StringPart + length (fst e) + 2 \<le> m" using fit unfolding fits.simps by blast
  let ?r = "calls (map (reading is_branch d) es @ [end_of d])"
  have "\<exists>it xs w4. read_entries E d path NULL w3 = Some (it, w4) \<and> owned w4 (?X + entry_refs xs) dext
    \<and> w4 = w3\<lparr>wstore := wstore w4, trace := trace w3 @ ?r\<rparr> \<and> advanced spare (2 * N) N (set_mset (?X + q_names (queued w3))) w3 w4
    \<and> listed (wstore w4) it xs \<and> distinct (map fst xs) \<and> list_all2 (\<lambda>x y. names_entry (wstore w4) p (snd x) y) xs (rev ?es @ [])
    \<and> gained path (fst ` set ([] :: (addr \<times> dir_ent) list)) (wstore w3) (fst ` set xs) (wstore w4)"
    unfolding N_def
  proof (rule read_entries_ok [OF E fit' o3(3) ok3 _ sp3])
    show "roomy w3 (?X + entry_refs []) (2 * length ?es)" using room(1) same_namesD(3) [OF o3(2)] by (simp add: N_def entry_refs_def)
    show "2 * length ?es \<le> spare (heap (wstore w3))" using room(2) by (simp add: N_def w3_def)
  qed simp_all
  then obtain it xs w4 where w4: "read_entries E d path NULL w3 = Some (it, w4)" "owned w4 (?X + entry_refs xs) dext"
    "w4 = w3\<lparr>wstore := wstore w4, trace := trace w3 @ ?r\<rparr>" "advanced spare (2 * N) N (set_mset (?X + q_names (queued w3))) w3 w4"
    "listed (wstore w4) it xs" "distinct (map fst xs)" "list_all2 (\<lambda>x y. names_entry (wstore w4) p (snd x) y) xs (rev ?es)"
    "gained path {} (wstore w3) (fst ` set xs) (wstore w4)" by auto
  define w5 where "w5 = closedir_wrapper E w4 d"
  have sn5: "same_names w4 w5" by (simp add: same_names_def w5_def closedir_wrapper_def sem_post_def sys_def queued_def)
  have ok5: "owned w5 (?X + entry_refs xs) dext" using w4(2) same_namesD(1) [OF sn5] by simp
  have l5: "listed (wstore w5) it xs" using w4(5) sn5 by (simp add: same_names_def)
  obtain w6 where w6: "take_entries it w5 = Some (map snd xs, w6)" "owned w6 (?X + entry_refs xs) dext" "only_store w5 w6"
    "advanced spare 0 0 UNIV w5 w6" "cleared (fst ` set xs) (wstore w5) (wstore w6)" using take_entries_ok [OF ok5 l5 w4(6)] by blast
  have grow: "\<exists>C Q st. grown path C Q (wstore w) st \<and> cleared Q st (wstore w6)"
    using w4(8) w6(5) sn5 o3(2) by (auto simp: same_names_def gained_def)
  have "advanced spare (0 + 2 * N + 0 + 0) (0 + N + 0 + 0) (set_mset (?X + q_names (queued w))) w w6"
    by (rule advanced_trans [OF advanced_trans [OF advanced_trans [OF advanced_same [OF o3(2)] _] advanced_same [OF sn5]]
          advanced_mono [OF w6(4) order.refl order.refl subset_UNIV]]) (use w4(4) q3 in simp)
  then have a6: "advanced spare (2 * N) N (set_mset (?X + q_names (queued w))) w w6" by simp
  obtain st4 st6 where "w4 = w3\<lparr>wstore := st4, trace := trace w3 @ ?r\<rparr>" "w6 = w5\<lparr>wstore := st6\<rparr>"
    using w4(3) w6(3) unfolding only_store_def by blast
  then have r6: "removed_by E spare (2 * N) ?X w w6 (calls (listing fd p d es))"
    using listing_unlinks [of E "trace w" fd p d es] sem advanced_mono [OF a6, of "2 * N" "2 * N" "set_mset (?X + q_names (queued w))"]
    by (simp add: removed_by_def w5_def closedir_wrapper_def sem_post_def sys_def w3_def listing_def)
  have st: "steady UNIV w4 w6" by (rule steady_trans [OF same_namesD(6) [OF sn5] advancedD(1) [OF w6(4)]])
  have "list_all2 (names_entry (wstore w4) p) (map snd xs) (rev ?es)" using w4(7) by (simp add: list_all2_map1)
  then have "list_all2 (names_entry (wstore w6) p) (map snd xs) (rev ?es)"
    by (rule list_all2_mono) (rule names_entry_steady [OF _ st UNIV_I])
  then show thesis by (rule that [OF o3(1) w4(1) w6(1) [unfolded w5_def] w6(2) r6 advancedD(3) [OF a6] _ grow])
qed

text \<open>What the last two steps of a directory do: it goes, and its name is given back.\<close>

lemma remove_self_ok:
  assumes ok: "owned w (add_mset path ext) dext" and r: "remove_ready w k" and sp: "spells (strings (wstore w)) path p"
    and pk: "length p < k" "c_name p" and buf: "bufs w Remove_remote = Some buf"
  obtains w1 w2 where "remove_self E w fd path (fst buf) = Some (0, w1)" "drop_part w1 path = Some w2" "owned w2 ext dext"
    "removed_by E spare 0 (add_mset path ext) w w1 [Unlinkat fd p True]" "removed_by E spare 0 ext w1 w2 []"
    "tidy (wstore w) (wstore w2)"
proof -
  let ?X = "add_mset path ext"
  have b: "buf_ready w Remove_remote k" and n: "n_removed w < 2 ^ 64" using r by (simp_all add: remove_ready_def)
  obtain w8 where w8: "name_text E Remove_remote w path = Some (p, w8)" "only_store w w8" "owned w8 ?X dext" "advanced spare 0 0 UNIV w w8"
    by (rule text_adv [OF ok b sp pk]) blast
  have r8: "removed_by E spare 0 ?X w w8 []" by (rule removed_by_store [OF w8(2) advanced_mono [OF w8(4)] n]) simp_all
  have bt: "buffer_text w8 (fst buf) = Some p"
    by (rule buffer_text_name [OF w8(1)]) (use only_storeD(4) [OF w8(2)] buf in simp)
  define u where "u = kernel E (trace w8) (Unlinkat fd p True)"
  define w9 where "w9 = (if ret u < 0 then w8\<lparr>trace := trace w8 @ [Unlinkat fd p True]\<rparr> else add_removed (w8\<lparr>trace := trace w8 @ [Unlinkat fd p True]\<rparr>))"
  have sn9: "same_names w8 w9" by (simp add: same_names_def w9_def add_removed_def queued_def)
  have n8: "n_removed w8 < 2 ^ 64" by (rule removed_byD(5) [OF r8])
  have r9: "removed_by E spare 0 ?X w8 w9 [Unlinkat fd p True]"
    by (rule removed_by_call [OF n8]) (use n8 in \<open>simp add: w9_def u_def add_removed_def\<close>)
  have self: "remove_self E w fd path (fst buf) = Some (0, w9)"
    using w8(1) bt by (simp add: remove_self_def sys_def u_def [symmetric] w9_def)
  have p0: "path \<noteq> NULL" using parts_ok_not_null [OF strings_okD(2) [OF ownedD(1) [OF ok]], of path] by simp
  have ok9: "owned w9 (own path ext) dext" using w8(3) same_namesD(1) [OF sn9] p0 by (simp add: own_def)
  obtain w10 where w10: "drop_part w9 path = Some w10" "only_store w9 w10" "owned w10 ext dext"
    "advanced spare 0 0 (set_mset (ext + q_names (queued w9))) w9 w10" by (rule drop_adv [OF ok9]) blast
  have r10: "removed_by E spare 0 ext w9 w10 []" by (rule removed_by_store [OF w10(2,4) removed_byD(5) [OF r9]])
  have "tidy (wstore w) (wstore w10)"
    using tidy_trans [OF text_tidy [OF ok b sp pk w8(1)]] drop_tidy [OF w10(1) ok9] sn9 by (simp add: same_names_def)
  then show thesis using that [OF self w10(1,3) _ r10] removed_by_trans [OF r8 r9] by simp
qed

lemma entry_removed:
  fixes E :: "'db program"
  assumes ft: "fits k m (p @ ''/'' @ fst y) (snd y)"
    and branch: "\<And>d es (v :: 'db world) X. snd y = Branch d es \<Longrightarrow> owned v (add_mset (ent_path e) X) dext \<Longrightarrow> spells (strings (wstore v)) (ent_path e) (p @ ''/'' @ fst y)
      \<Longrightarrow> remove_ready v k \<Longrightarrow> roomy v (add_mset (ent_path e) X) (cost (snd y)) \<Longrightarrow> cost (snd y) \<le> spare (heap (wstore v))
      \<Longrightarrow> follows E (trace v) (removal E fd (p @ ''/'' @ fst y) (snd y))
      \<Longrightarrow> \<exists>v'. g e v = Some (0, v') \<and> owned v' X dext \<and> removed_by E spare (cost (snd y)) X v v' (calls (removal E fd (p @ ''/'' @ fst y) (snd y)))
        \<and> tidy (wstore v) (wstore v')"
  shows "entry_done E fd k (\<lambda>e w. map_option snd (if ent_isDir e then g e w else recursiveRemoveNonDir E fd (ent_path e) w)) p dext e y"
  unfolding entry_done_def
proof (intro allI impI)
  fix v :: "'db world" and X
  let ?f = "\<lambda>e w. map_option snd (if ent_isDir e then g e w else recursiveRemoveNonDir E fd (ent_path e) w)"
  assume ok: "owned v (add_mset (ent_path e) X) dext" and nm: "names_entry (wstore v) p e y" and r: "remove_ready v k"
    and room: "roomy v (add_mset (ent_path e) X) (cost (snd y))" and sp: "cost (snd y) \<le> spare (heap (wstore v))"
    and f: "follows E (trace v) (removal E fd (p @ ''/'' @ fst y) (snd y))"
  have s: "spells (strings (wstore v)) (ent_path e) (p @ ''/'' @ fst y)" "ent_isDir e \<longleftrightarrow> is_branch (snd y)"
    using nm by (simp_all add: names_entry_def)
  show "\<exists>v'. ?f e v = Some v' \<and> owned v' X dext \<and> removed_by E spare (cost (snd y)) X v v' (calls (removal E fd (p @ ''/'' @ fst y) (snd y)))
    \<and> tidy (wstore v) (wstore v')"
  proof (cases "snd y")
    case Leaf
    obtain rc v' where v': "recursiveRemoveNonDir E fd (ent_path e) v = Some (rc, v')" "owned v' X dext"
      "removed_by E spare 0 X v v' [Unlinkat fd (p @ ''/'' @ fst y) False]" "tidy (wstore v) (wstore v')"
      using remove_leaf [OF ok r s(1)] fits_name [OF ft] by blast
    have "removed_by E spare 1 X v v' [Unlinkat fd (p @ ''/'' @ fst y) False]" by (rule removed_by_mono [OF v'(3)]) simp_all
    then show ?thesis using v'(1,2,4) s(2) Leaf by (intro exI [of _ v']) simp
  next
    case (Branch d es)
    then have "is_branch (snd y)" by simp
    then show ?thesis using branch [OF Branch ok s(1) r room sp f] s(2) by auto
  qed
qed

lemma ordered_tasks:
  assumes "orders E" "list_all2 (names_entry st p) (map snd xs) (rev es)"
  defines "ys \<equiv> in_order E (rev es)" and "zs \<equiv> in_order E (map snd xs)"
  shows "list_all2 (names_entry st p) zs ys" "mset (map ent_path zs) = entry_refs xs" "set ys = set es" "length xs = length es"
    "(\<Sum>y\<leftarrow>ys. cost (snd y)) = (\<Sum>y\<leftarrow>es. cost (snd y))"
    "in_order E (map (\<lambda>e. removal E fd (p @ ''/'' @ fst e) (snd e)) (rev es)) = map (\<lambda>e. removal E fd (p @ ''/'' @ fst e) (snd e)) ys"
proof -
  have my: "mset ys = mset es" by (simp add: ys_def in_order_mset [OF assms(1)])
  show "set ys = set es" using mset_eq_setD [OF my] .
  show "(\<Sum>y\<leftarrow>ys. cost (snd y)) = (\<Sum>y\<leftarrow>es. cost (snd y))"
    using sum_mset_sum_list [of "map (\<lambda>y. cost (snd y)) ys"] sum_mset_sum_list [of "map (\<lambda>y. cost (snd y)) es"] my by simp
  have "mset (map ent_path zs) = image_mset ent_path (mset (map snd xs))"
    unfolding mset_map zs_def using in_order_mset [OF assms(1), of "map snd xs"] by simp
  then show "mset (map ent_path zs) = entry_refs xs" by (simp add: entry_refs_def image_mset.compositionality comp_def)
  show "length xs = length es" using list_all2_lengthD [OF assms(2)] by simp
  show "list_all2 (names_entry st p) zs ys" unfolding zs_def ys_def by (rule in_order_all2 [OF assms(1,2)])
  show "in_order E (map (\<lambda>e. removal E fd (p @ ''/'' @ fst e) (snd e)) (rev es)) = map (\<lambda>e. removal E fd (p @ ''/'' @ fst e) (snd e)) ys"
    unfolding ys_def by (rule in_order_map [OF assms(1)])
qed

lemma remove_branch:
  fixes E :: "'db program"
  assumes E: "orders E" "tid E = t" "sizeof_DirEnt \<le> m"
  shows "\<lbrakk>deep (Branch d es) \<le> n; owned w (add_mset path ext) dext; spells (strings (wstore w)) path p; fits k m p (Branch d es);
      remove_ready w k; roomy w (add_mset path ext) (cost (Branch d es)); cost (Branch d es) \<le> spare (heap (wstore w));
      start = (if depth = 0 then [(Unlinkat fd p False, \<lambda>r. ret r < 0 \<and> errno r = EISDIR)] else []);
      follows E (trace w) (start @ removal E fd p (Branch d es))\<rbrakk>
    \<Longrightarrow> \<exists>w'. recursiveRemove n E fd depth path w = Some (0, w') \<and> owned w' ext dext
      \<and> removed_by E spare (cost (Branch d es)) ext w w' (calls (start @ removal E fd p (Branch d es))) \<and> tidy (wstore w) (wstore w')"
proof (induction n arbitrary: d es w path ext p depth start)
  case 0
  then show ?case by simp
next
  case (Suc n)
  let ?es = "nondot es" and ?N = "length (nondot es)" and ?X = "add_mset path ext"
  let ?S = "\<Sum>y\<leftarrow>?es. cost (snd y)" and ?l = "listing fd p d es"
  have cost: "cost (Branch d es) = 1 + 2 * ?N + ?S" by (simp add: sum_cost)
  note prems = Suc.prems
  have ready: "buf_ready w Remove_remote k" "n_removed w < 2 ^ 64" "0 < fdSem w" using prems(5) by (simp_all add: remove_ready_def)
  have pk: "length p < k" "c_name p" using fits_name [OF prems(4)] by blast+
  obtain w1 where w1: "name_text E Remove_remote w path = Some (p, w1)" "only_store w w1" "owned w1 ?X dext"
    "advanced spare 0 0 UNIV w w1" by (rule text_adv [OF prems(2) ready(1) prems(3) pk]) blast
  obtain buf where buf: "bufs w Remove_remote = Some buf" using ready(1) by (auto simp: buf_ready_def)
  note o1 = only_storeD [OF w1(2)]
  have r1: "removed_by E spare 0 ?X w w1 []" by (rule removed_by_store [OF w1(2) advanced_mono [OF w1(4)] ready(2)]) simp_all
  have f1: "follows E (trace w1) start" "follows E (trace w1 @ calls start) (removal E fd p (Branch d es))"
    using prems(9) o1(1) by (simp_all add: follows_append)
  obtain w2 where w2: "first_unlink E w1 fd p depth = (None, w2)" "same_names w1 w2" "removed_by E spare 0 ?X w1 w2 (calls start)"
    by (rule first_unlink_branch [OF prems(8) f1(1) removed_byD(5) [OF r1]]) blast
  have r2: "removed_by E spare 0 ?X w w2 (calls start)" using removed_by_trans [OF r1 w2(3)] by simp
  note d2 = removed_byD [OF r2]
  have st2: "steady UNIV w w2" by (rule steady_trans [OF advancedD(1) [OF w1(4)] same_namesD(6) [OF w2(2)]])
  have load2: "load w2 \<le> load w" "spare (heap (wstore w)) \<le> spare (heap (wstore w2))" using advancedD(2,3) [OF d2(7)] by simp_all
  have sp2: "spells (strings (wstore w2)) path p" by (rule steadyD(1) [OF st2 UNIV_I prems(3)])
  have f2: "follows E (trace w2) ?l" and f6: "follows E (trace w2 @ calls ?l) (concat (in_order E (map (\<lambda>e. removal E fd (p @ ''/'' @ fst e) (snd e)) (rev ?es))))"
    using f1(2) removed_byD(1) [OF w2(3)] unfolding removal_listing by (simp_all add: follows_append)
  have ok2: "owned w2 ?X dext" using w1(3) same_namesD(1) [OF w2(2)] by simp
  have sem2: "0 < fdSem w2" using d2(3) ready(3) by simp
  have room2: "roomy w2 ?X (2 * ?N)" using prems(6) load2(1) cost by (simp add: roomy_load)
  have spare2: "2 * ?N \<le> spare (heap (wstore w2))" using prems(7) load2(2) cost by simp
  obtain w3 it xs w4 w6 where opened: "open_stream E w2 fd p = Some (Some d, w3)" "read_entries E d path NULL w3 = Some (it, w4)"
      "take_entries it (closedir_wrapper E w4 d) = Some (map snd xs, w6)"
    and ok6: "owned w6 (?X + entry_refs xs) dext" and r6: "removed_by E spare (2 * ?N) ?X w2 w6 (calls ?l)" and load6: "load w6 \<le> load w2 + ?N"
    and n6: "list_all2 (names_entry (wstore w6) p) (map snd xs) (rev ?es)"
    and g6: "\<exists>C Q st. grown path C Q (wstore w2) st \<and> cleared Q st (wstore w6)"
    by (rule list_directory [OF E(2,3) prems(4) ok2 sp2 sem2 d2(5) room2 spare2 f2]) blast
  note d6 = removed_byD [OF r6]
  let ?g = "\<lambda>e. recursiveRemove n E fd (depth + 1) (ent_path e)"
  let ?f = "\<lambda>e w. map_option snd (if ent_isDir e then ?g e w else recursiveRemoveNonDir E fd (ent_path e) w)"
  define zs where "zs = in_order E (map snd xs)"
  define ys where "ys = in_order E (rev ?es)"
  note t = ordered_tasks [OF E(1) n6, folded zs_def ys_def]
  have each: "entry_done E fd k ?f p dext e y" if y: "y \<in> set ?es" for e y
  proof (rule entry_removed [where g = ?g])
    show "fits k m (p @ ''/'' @ fst y) (snd y)" using prems(4) y by simp
    fix d' es' X and v :: "'db world"
    assume b: "snd y = Branch d' es'" and ok: "owned v (add_mset (ent_path e) X) dext" and s: "spells (strings (wstore v)) (ent_path e) (p @ ''/'' @ fst y)"
      and r: "remove_ready v k" and room: "roomy v (add_mset (ent_path e) X) (cost (snd y))" and sp: "cost (snd y) \<le> spare (heap (wstore v))"
      and f: "follows E (trace v) (removal E fd (p @ ''/'' @ fst y) (snd y))"
    have ft: "fits k m (p @ ''/'' @ fst y) (Branch d' es')" using prems(4) y b [symmetric] by simp
    have "deep (snd y) < deep (Branch d es)" by (rule deep_child) (use y in simp)
    then have "deep (Branch d' es') \<le> n" using prems(1) b by simp
    from Suc.IH [OF this ok s ft r room [unfolded b] sp [unfolded b], of "[]" "depth + 1"]
    show "\<exists>v'. ?g e v = Some (0, v') \<and> owned v' X dext \<and> removed_by E spare (cost (snd y)) X v v' (calls (removal E fd (p @ ''/'' @ fst y) (snd y)))
      \<and> tidy (wstore v) (wstore v')"
      using f unfolding b by simp
  qed
  have all_done: "list_all2 (entry_done E fd k ?f p dext) zs ys"
    by (rule list_all2I) (use each t(3) list_all2_lengthD [OF t(1)] in \<open>auto dest: set_zip_rightD\<close>)
  let ?ts = "concat (map (\<lambda>y. removal E fd (p @ ''/'' @ fst y) (snd y)) ys)"
  have rd6: "remove_ready w6 k" by (rule remove_ready_after [OF remove_ready_after [OF prems(5) r2] r6])
  have "\<exists>w7. run_tasks ?f zs w6 = Some w7 \<and> owned w7 ?X dext \<and> removed_by E spare (\<Sum>y\<leftarrow>ys. cost (snd y)) ?X w6 w7 (calls ?ts)
    \<and> tidy (wstore w6) (wstore w7)"
  proof (rule run_removals [OF all_done t(1) _ rd6])
    show "owned w6 (?X + mset (map ent_path zs)) dext" unfolding t(2) by (rule ok6)
    show "roomy w6 (?X + mset (map ent_path zs)) (\<Sum>y\<leftarrow>ys. cost (snd y))"
      using prems(6) load2(1) load6 t(4) cost unfolding t(2,5) by (simp add: roomy_load entry_refs_def)
    show "(\<Sum>y\<leftarrow>ys. cost (snd y)) \<le> spare (heap (wstore w6))"
      using prems(7) load2(2) advancedD(2) [OF d6(7)] cost unfolding t(5) by simp
    show "follows E (trace w6) ?ts" using f6 d6(1) unfolding t(6) by simp
  qed
  then obtain w7 where w7: "run_tasks ?f zs w6 = Some w7" "owned w7 ?X dext" "removed_by E spare ?S ?X w6 w7 (calls ?ts)"
    "tidy (wstore w6) (wstore w7)" unfolding t(5) by blast
  note d7 = removed_byD [OF w7(3)]
  have "steady (set_mset (?X + q_names (queued w2))) w2 w7"
    by (rule steady_trans [OF advancedD(1) [OF d6(7)] advancedD(1) [OF d7(7), unfolded d6(2)]])
  then have sp7: "spells (strings (wstore w7)) path p" by (rule steadyD(1) [OF _ _ sp2]) simp
  have bf: "bufs w7 Remove_remote = Some buf" using d7(4) d6(4) d2(4) buf by simp
  obtain w9 w10 where self: "remove_self E w7 fd path (fst buf) = Some (0, w9)" "drop_part w9 path = Some w10"
    and ok10: "owned w10 ext dext" and r9: "removed_by E spare 0 ?X w7 w9 [Unlinkat fd p True]" and r10: "removed_by E spare 0 ext w9 w10 []"
    and t10: "tidy (wstore w7) (wstore w10)"
    by (rule remove_self_ok [OF w7(2) remove_ready_after [OF rd6 w7(3)] sp7 pk bf]) blast
  have "removed_by E spare (0 + 2 * ?N + ?S + 0) ?X w w9 (calls start @ calls ?l @ calls ?ts @ [Unlinkat fd p True])"
    using removed_by_trans [OF removed_by_trans [OF removed_by_trans [OF r2 r6] w7(3)] r9] by simp
  then have "removed_by E spare (2 * ?N + ?S) ext w w9 (calls start @ calls ?l @ calls ?ts @ [Unlinkat fd p True])"
    by (rule removed_by_mono) simp_all
  from removed_by_mono [OF removed_by_trans [OF this r10], of "cost (Branch d es)" ext]
  have all: "removed_by E spare (cost (Branch d es)) ext w w10 (calls (start @ removal E fd p (Branch d es)))"
    unfolding removal_listing t(6) by (simp add: cost del: cost.simps)
  have "recursiveRemove (Suc n) E fd depth path w = Some (0, w10)"
    using w1(1) o1(4) buf w2(1) opened w7(1) self by (simp add: zs_def [symmetric] case_prod_beta)
  moreover obtain C Q st where g: "grown path C Q (wstore w2) st" "cleared Q st (wstore w6)" using g6 by blast
  have "fdrcs (wstore w7) = fdrcs (wstore w2)" using g w7(4) by (simp add: grown_def cleared_def tidy_def)
  then have N: "set_mset (?X + path_refs (fdrcs (wstore w7)) + q_names (queued w7)) \<subseteq> dom (strings (wstore w2))"
    using parts_okD(3) [OF strings_okD(2) [OF ownedD(1) [OF ok2]]] d6(2) d7(2) by simp
  have "path \<in> dom (strings (wstore w2))" using N by simp
  then have t27: "tidy (wstore w2) (wstore w7)"
    by (rule tidy_after [OF g w7(4) strings_okD(2) [OF ownedD(1) [OF ok2]] strings_okD(2) [OF ownedD(1) [OF w7(2)]] N])
  have "tidy (wstore w) (wstore w10)"
    using tidy_trans [OF text_tidy [OF prems(2) ready(1) prems(3) pk w1(1)]] tidy_trans [OF t27 t10] w2(2) by (simp add: same_names_def)
  ultimately show ?case using ok10 all by blast
qed

end

end
