(* ===== verification/Walk.thy ===== *)
theory Walk
  imports Remove_Steps
begin

text \<open>
  Walking over a tree of directories and files with one name each: the calls it takes, and the jobs it
  puts on the two queues.
\<close>

section \<open>Trees of the source\<close>

text \<open>
  A file with what \<open>statx\<close> says of it in the source and at the destination, and the two descriptors it is
  opened under; a directory with its descriptor, the second one, the one at the destination, and its
  entries as they are read.
\<close>

datatype stree = File statx "statx option" int int | Dir statx int int int "(string \<times> stree) list"

fun is_sdir :: "stree \<Rightarrow> bool" where
  "is_sdir (File st dest a b) = False"
| "is_sdir (Dir st fd dup dst es) = True"

fun changed :: "stree \<Rightarrow> bool" where
  "changed (File st dest a b) = (case dest of None \<Rightarrow> True
     | Some d \<Rightarrow> fst (stx_mtime st) \<noteq> fst (stx_mtime d) \<or> stx_size st \<noteq> stx_size d)"
| "changed (Dir st fd dup dst es) = False"

definition found :: "statx option \<Rightarrow> reply \<Rightarrow> bool" where
  "found dest r = (case dest of None \<Rightarrow> ret r < 0 \<and> errno r = ENOENT | Some d \<Rightarrow> 0 \<le> ret r \<and> out_stx r = d)"

definition copy_name :: "'db program \<Rightarrow> string \<Rightarrow> string" where
  "copy_name E p = p @ suffix_of (hash64 E p)"

fun walk :: "'db program \<Rightarrow> int \<Rightarrow> int \<Rightarrow> string \<Rightarrow> stree \<Rightarrow> script" where
  "walk E sfd dfd p (File st dest a b) =
     [(Statx sfd (base_name p), \<lambda>r. 0 \<le> ret r \<and> out_stx r = st), (Statx dfd (base_name p), found dest)]
     @ (if changed (File st dest a b) then
          [(Unlinkat dfd (base_name (copy_name E p)) False, \<lambda>r. True),
           (Openat sfd (base_name p) [O_RDONLY, O_DIRECT, O_NOATIME] 0, \<lambda>r. ret r = a \<and> 0 \<le> a),
           (Openat dfd (base_name (copy_name E p)) [O_RDWR, O_CREAT, O_DIRECT, O_NOATIME] (stx_mode st), \<lambda>r. ret r = b \<and> 0 \<le> b),
           (Ftruncate b (alignUp (stx_size st) 4096), \<lambda>r. 0 \<le> ret r)]
        else [])"
| "walk E sfd dfd p (Dir st fd dup dst es) =
     [(Openat sfd (base_name p) [O_RDONLY, O_DIRECTORY, O_NOATIME] 0, \<lambda>r. ret r = fd \<and> 0 \<le> fd),
      (Statx sfd (base_name p), \<lambda>r. 0 \<le> ret r \<and> out_stx r = st),
      (Mkdirat dfd (base_name p) (stx_mode st), \<lambda>r. 0 \<le> ret r \<or> errno r = EEXIST), (Dup fd, \<lambda>r. ret r = dup \<and> 0 \<le> dup),
      (Openat dfd (base_name p) [O_DIRECTORY, O_NOATIME] 0, \<lambda>r. ret r = dst \<and> 0 \<le> dst), (Fdopendir fd, \<lambda>r. ret r \<noteq> 0)]
     @ map (reading is_sdir fd) es @ [end_of fd]
     @ concat (in_order E (map (\<lambda>e. walk E dup dst (p @ ''/'' @ fst e) (snd e)) (nondot es)))
     @ [(Closedir fd, \<lambda>r. True), (Close dup, \<lambda>r. True)]"

text \<open>The files in the order in which they are reached, with their paths.\<close>

fun files :: "'db program \<Rightarrow> string \<Rightarrow> stree \<Rightarrow> (string \<times> stree) list" where
  "files E p (File st dest a b) = [(p, File st dest a b)]"
| "files E p (Dir st fd dup dst es) = concat (in_order E (map (\<lambda>e. files E (p @ ''/'' @ fst e) (snd e)) (nondot es)))"

fun dirs :: "stree \<Rightarrow> nat" where
  "dirs (File st dest a b) = 0"
| "dirs (Dir st fd dup dst es) = 1 + sum_list (map (\<lambda>e. dirs (snd e)) (nondot es))"

text \<open>What a walk needs: counters, requests of memory, descriptors, the depth; names with bounds; one device.\<close>

fun effort :: "stree \<Rightarrow> nat" where
  "effort (File st dest a b) = 8"
| "effort (Dir st fd dup dst es) = 12 + sum_list (map (\<lambda>e. effort (snd e) + 4) (nondot es))"

fun memory :: "stree \<Rightarrow> nat" where
  "memory (File st dest a b) = 1"
| "memory (Dir st fd dup dst es) = 2 + sum_list (map (\<lambda>e. memory (snd e) + 1) (nondot es))"

fun descriptors :: "stree \<Rightarrow> nat" where
  "descriptors (File st dest a b) = (if changed (File st dest a b) then 2 else 0)"
| "descriptors (Dir st fd dup dst es) = 3 + sum_list (map (\<lambda>e. descriptors (snd e)) (nondot es))"

text \<open>The descriptors that the jobs hold afterwards: both of a file that changed, one of every directory.\<close>

fun taken :: "stree \<Rightarrow> nat" where
  "taken (File st dest a b) = (if changed (File st dest a b) then 2 else 0)"
| "taken (Dir st fd dup dst es) = 1 + sum_list (map (\<lambda>e. taken (snd e)) (nondot es))"

fun depth_of :: "stree \<Rightarrow> nat" where
  "depth_of (File st dest a b) = 1"
| "depth_of (Dir st fd dup dst es) = Suc (foldr max (map (\<lambda>e. depth_of (snd e)) es) 0)"

fun plain :: "nat \<times> nat \<Rightarrow> nat \<Rightarrow> string \<Rightarrow> stree \<Rightarrow> bool" where
  "plain dev k p (File st dest a b) \<longleftrightarrow> p \<noteq> [] \<and> length p + 24 < k \<and> c_name p \<and> S_ISREG (stx_mode st) \<and> stx_nlink st \<le> 1
     \<and> (case dest of None \<Rightarrow> True | Some d \<Rightarrow> stx_nlink d \<le> 1)"
| "plain dev k p (Dir st fd dup dst es) \<longleftrightarrow> p \<noteq> [] \<and> length p + 24 < k \<and> c_name p \<and> stx_dev st = dev
     \<and> (\<forall>e \<in> set (nondot es). plain dev k (p @ ''/'' @ fst e) (snd e))"

lemma plain_name: "plain dev k p x \<Longrightarrow> p \<noteq> [] \<and> length p + 24 < k \<and> c_name p"
  by (cases x) simp_all

lemma depth_child: "e \<in> set es \<Longrightarrow> depth_of (snd e) < depth_of (Dir st fd dup dst es)"
  using foldr_max [of "depth_of (snd e)" "map (\<lambda>e. depth_of (snd e)) es"] by simp

section \<open>Jobs\<close>

text \<open>A job to copy the file, and a job that only finishes it.\<close>

fun copies :: "'db program \<Rightarrow> 'db world \<Rightarrow> file_copy_job \<Rightarrow> string \<times> stree \<Rightarrow> bool" where
  "copies E w j (p, File st dest a b) \<longleftrightarrow> spells (strings (wstore w)) (remote j) p \<and> spells (strings (wstore w)) (partial j) (copy_name E p)
     \<and> stx j = st \<and> srcFd j = a \<and> dstFd j = b \<and> firstLook j \<and> nErrors j = 0 \<and> \<not> isDot j
     \<and> bsize j = blockSize (stx_size st) (64 * 2 ^ 20) (minBlockSize (opts E)) (maxBlockSize (opts E))"
| "copies E w j (p, Dir st fd dup dst es) \<longleftrightarrow> False"

fun checks :: "'db program \<Rightarrow> 'db world \<Rightarrow> file_copy_job \<Rightarrow> string \<times> stree \<Rightarrow> bool" where
  "checks E w j (p, File st dest a b) \<longleftrightarrow> spells (strings (wstore w)) (remote j) p \<and> partial j = NULL
     \<and> stx j = st \<and> srcFd j = -1 \<and> dstFd j = -1 \<and> firstLook j \<and> nErrors j = 0 \<and> \<not> isDot j"
| "checks E w j (p, Dir st fd dup dst es) \<longleftrightarrow> False"

text \<open>
  Names in \<open>Q\<close> still read the same, the directories in \<open>H\<close> are the same but for their counters, the buffers
  have their sizes;
  at most \<open>k\<close> requests and \<open>l\<close> counters are used up.
\<close>

definition world_kept :: "(allocator \<Rightarrow> nat) \<Rightarrow> nat \<Rightarrow> nat \<Rightarrow> addr set \<Rightarrow> addr set \<Rightarrow> 'db world \<Rightarrow> 'db world \<Rightarrow> bool" where
  "world_kept spare k l Q H w w' \<longleftrightarrow> (\<forall>q \<in> Q. \<forall>s. spells (strings (wstore w)) q s \<longrightarrow> spells (strings (wstore w')) q s)
     \<and> (\<forall>p \<in> H. dir_view (wstore w') p = dir_view (wstore w) p) \<and> (\<forall>b m. buf_ready w b m \<longrightarrow> buf_ready w' b m)
     \<and> spare (heap (wstore w)) \<le> spare (heap (wstore w')) + k \<and> load w' \<le> load w + l"

lemma keptD:
  assumes "world_kept spare k l Q H w w'"
  shows "q \<in> Q \<Longrightarrow> spells (strings (wstore w)) q s \<Longrightarrow> spells (strings (wstore w')) q s"
    "p \<in> H \<Longrightarrow> dir_view (wstore w') p = dir_view (wstore w) p" "buf_ready w b m \<Longrightarrow> buf_ready w' b m"
    "spare (heap (wstore w)) \<le> spare (heap (wstore w')) + k" "load w' \<le> load w + l"
  using assms by (simp_all add: world_kept_def)

lemma fd_of_view: "fd_of w p = map_option fdrc_fd (dir_view (wstore w) p)"
  by (simp add: fd_of_def dir_view_def option.map_comp comp_def)

lemma world_kept_trans: "world_kept spare k l Q H w w1 \<Longrightarrow> world_kept spare k' l' Q H w1 w2 \<Longrightarrow> world_kept spare (k + k') (l + l') Q H w w2"
  by (simp add: world_kept_def)

lemma world_kept_mono: "world_kept spare k l Q H w w' \<Longrightarrow> k \<le> k' \<Longrightarrow> l \<le> l' \<Longrightarrow> Q' \<subseteq> Q \<Longrightarrow> H' \<subseteq> H \<Longrightarrow> world_kept spare k' l' Q' H' w w'"
  unfolding world_kept_def by (elim conjE, intro conjI) (blast, blast, blast, simp, simp)

lemma world_kept_advanced:
  assumes "advanced spare k l Q w w'" "k \<le> k'" "l \<le> l'" "\<forall>p \<in> H. dir_view (wstore w') p = dir_view (wstore w) p"
  shows "world_kept spare k' l' Q H w w'"
  using assms by (simp add: world_kept_def advanced_def steady_def)

lemma view_same: "fdrcs (wstore w') = fdrcs (wstore w) \<Longrightarrow> \<forall>p \<in> H. dir_view (wstore w') p = dir_view (wstore w) p"
  by (simp add: dir_view_def)

lemma incref_view: "incref ref w = Some w' \<Longrightarrow> dir_view (wstore w') p = dir_view (wstore w) p"
  by (auto simp: incref_def update_fdrc_def w_put_def dir_view_def split: bind_splits if_splits)

lemma copies_kept:
  assumes "copies E w j y" "world_kept spare k l Q H w w'" "remote j = NULL \<or> remote j \<in> Q" "partial j = NULL \<or> partial j \<in> Q"
  shows "copies E w' j y"
  using assms(1,3,4) keptD(1) [OF assms(2)] by (cases y; cases "snd y") auto

lemma checks_kept:
  assumes "checks E w j y" "world_kept spare k l Q H w w'" "remote j = NULL \<or> remote j \<in> Q"
  shows "checks E w' j y"
  using assms(1,3) keptD(1) [OF assms(2)] by (cases y; cases "snd y") auto

lemma job_refs:
  assumes "j \<in> set q"
  shows "remote j = NULL \<or> remote j \<in># q_names q" "partial j = NULL \<or> partial j \<in># q_names q"
  using assms by (induction q) (auto simp: own_def)

section \<open>What a part of a walk did\<close>

abbreviation moved :: "(string \<times> stree) list \<Rightarrow> (string \<times> stree) list" where
  "moved fs \<equiv> filter (\<lambda>y. changed (snd y)) fs"

fun bytes_in :: "string \<times> stree \<Rightarrow> nat" where
  "bytes_in (p, File st dest a b) = stx_size st"
| "bytes_in (p, Dir st fd dup dst es) = 0"

definition bytes_of :: "(string \<times> stree) list \<Rightarrow> nat" where
  "bytes_of fs = sum_list (map bytes_in fs)"

lemma bytes_of_simps [simp]: "bytes_of [] = 0" "bytes_of (xs @ ys) = bytes_of xs + bytes_of ys" "bytes_of (y # ys) = bytes_in y + bytes_of ys"
  by (simp_all add: bytes_of_def)

text \<open>The state after the files \<open>fs\<close> and \<open>n\<close> directories, with \<open>s\<close> descriptors left.\<close>

definition after_walk :: "store \<Rightarrow> syscall list \<Rightarrow> file_copy_job list \<Rightarrow> file_copy_job list \<Rightarrow> (string \<times> stree) list \<Rightarrow> nat \<Rightarrow> nat
    \<Rightarrow> 'db world \<Rightarrow> 'db world" where
  "after_walk st cs js qs fs n s w = w\<lparr>wstore := st, trace := trace w @ cs, fdSem := s,
     jobQ := jobQ w @ js, finishQ := finishQ w @ qs, n_seen := (n_seen w + (length fs + n)) mod 2 ^ 64, n_dirs := (n_dirs w + n) mod 2 ^ 64,
     bytes_seen := (bytes_seen w + bytes_of fs) mod 2 ^ 64, bytes_will := (bytes_will w + bytes_of (moved fs)) mod 2 ^ 64\<rparr>"

lemma after_walk_trans:
  "after_walk st' cs' js' qs' fs' n' s' (after_walk st cs js qs fs n s w)
     = after_walk st' (cs @ cs') (js @ js') (qs @ qs') (fs @ fs') (n + n') s' w"
  by (simp add: after_walk_def mod_add_left_eq) (simp add: ac_simps)

definition in_range :: "'db world \<Rightarrow> bool" where
  "in_range w \<longleftrightarrow> n_seen w < 2 ^ 64 \<and> n_dirs w < 2 ^ 64 \<and> bytes_seen w < 2 ^ 64 \<and> bytes_will w < 2 ^ 64"

lemma in_range_after [simp]: "in_range (after_walk st cs js qs fs n s w)"
  by (simp add: after_walk_def in_range_def)

text \<open>
  The jobs \<open>js\<close> and \<open>qs\<close> are for the files \<open>fs\<close>, and no directory in \<open>H\<close> but \<open>dir\<close> is held by them; what finishes
  a directory is not counted.
\<close>

definition queued_well :: "'db program \<Rightarrow> addr set \<Rightarrow> addr \<Rightarrow> 'db world \<Rightarrow> file_copy_job list \<Rightarrow> file_copy_job list \<Rightarrow> (string \<times> stree) list \<Rightarrow> bool" where
  "queued_well E H dir w js qs fs \<longleftrightarrow> list_all2 (copies E w) js (moved fs)
     \<and> list_all2 (checks E w) (filter (\<lambda>j. \<not> isDot j) qs) (filter (\<lambda>y. \<not> changed (snd y)) fs)
     \<and> (\<forall>j \<in> set (js @ qs). dstDirFD j \<in> H \<longrightarrow> dstDirFD j = dir)"

definition walked_by :: "'db program \<Rightarrow> (allocator \<Rightarrow> nat) \<Rightarrow> nat \<Rightarrow> nat \<Rightarrow> addr multiset \<Rightarrow> addr set \<Rightarrow> addr
    \<Rightarrow> 'db world \<Rightarrow> 'db world \<Rightarrow> syscall list \<Rightarrow> (string \<times> stree) list \<Rightarrow> nat \<Rightarrow> int \<Rightarrow> bool" where
  "walked_by E spare k l ext H dir w w' cs fs n u \<longleftrightarrow> world_kept spare k l (set_mset (ext + q_names (queued w))) H w w'
     \<and> int (fdSem w') = int (fdSem w) - u
     \<and> (\<exists>st js qs. w' = after_walk st cs js qs fs n (fdSem w') w \<and> queued_well E H dir w' js qs fs \<and> length js + length qs \<le> l)"

lemma queued_after: "queued (after_walk st cs js qs fs n s w) = finishQ w @ qs @ jobQ w @ js"
  by (simp add: after_walk_def queued_def)

lemma queued_well_kept:
  assumes "queued_well E H dir w js qs fs" "world_kept spare k l Q H' w w'" "\<And>j. j \<in> set (js @ qs) \<Longrightarrow> (remote j = NULL \<or> remote j \<in> Q) \<and> (partial j = NULL \<or> partial j \<in> Q)"
  shows "queued_well E H dir w' js qs fs"
proof -
  have "list_all2 (copies E w') js (moved fs)"
    by (rule list.rel_mono_strong [OF conjunct1 [OF assms(1) [unfolded queued_well_def]]])
      (use copies_kept [OF _ assms(2)] assms(3) in auto)
  moreover have "list_all2 (checks E w') (filter (\<lambda>j. \<not> isDot j) qs) (filter (\<lambda>y. \<not> changed (snd y)) fs)"
    by (rule list.rel_mono_strong [OF conjunct1 [OF conjunct2 [OF assms(1) [unfolded queued_well_def]]]])
      (use checks_kept [OF _ assms(2)] assms(3) in auto)
  ultimately show ?thesis using assms(1) by (simp add: queued_well_def)
qed

lemma walked_by_trans:
  assumes "walked_by E spare k l ext H dir w w1 cs fs n u" "walked_by E spare k' l' ext H dir w1 w2 cs' fs' n' u'"
  shows "walked_by E spare (k + k') (l + l') ext H dir w w2 (cs @ cs') (fs @ fs') (n + n') (u + u')"
proof -
  obtain st js qs where 1: "world_kept spare k l (set_mset (ext + q_names (queued w))) H w w1" "int (fdSem w1) = int (fdSem w) - u"
    "w1 = after_walk st cs js qs fs n (fdSem w1) w" "queued_well E H dir w1 js qs fs" "length js + length qs \<le> l"
    using assms(1) unfolding walked_by_def by blast
  obtain st' js' qs' where 2: "world_kept spare k' l' (set_mset (ext + q_names (queued w1))) H w1 w2" "int (fdSem w2) = int (fdSem w1) - u'"
    "w2 = after_walk st' cs' js' qs' fs' n' (fdSem w2) w1" "queued_well E H dir w2 js' qs' fs'" "length js' + length qs' \<le> l'"
    using assms(2) unfolding walked_by_def by blast
  have q: "queued w1 = finishQ w @ qs @ jobQ w @ js" "queued w = finishQ w @ jobQ w"
    by (subst 1(3)) (simp_all add: queued_after queued_def [of w])
  have sub: "set_mset (ext + q_names (queued w)) \<subseteq> set_mset (ext + q_names (queued w1))" by (auto simp: q)
  have "queued_well E H dir w2 js qs fs"
    by (rule queued_well_kept [OF 1(4) 2(1)]) (use job_refs in \<open>fastforce simp: q\<close>)
  with 2(4) have "queued_well E H dir w2 (js @ js') (qs @ qs') (fs @ fs')"
    by (auto simp: queued_well_def intro: list_all2_appendI)
  moreover have "w2 = after_walk st' (cs @ cs') (js @ js') (qs @ qs') (fs @ fs') (n + n') (fdSem w2) w"
    by (subst 2(3), subst 1(3)) (simp add: after_walk_trans)
  moreover have "world_kept spare (k + k') (l + l') (set_mset (ext + q_names (queued w))) H w w2"
    by (rule world_kept_trans [OF 1(1) world_kept_mono [OF 2(1) order.refl order.refl sub order.refl]])
  moreover have "length (js @ js') + length (qs @ qs') \<le> l + l'" using 1(5) 2(5) by simp
  ultimately show ?thesis using 1(2) 2(2) unfolding walked_by_def by (intro conjI exI) (assumption | simp)+
qed

lemma walked_by_mono:
  assumes "walked_by E spare k l ext H dir w w' cs fs n u" "k \<le> k'" "l \<le> l'" "ext' \<subseteq># ext"
  shows "walked_by E spare k' l' ext' H dir w w' cs fs n u"
proof -
  have "set_mset (ext' + q_names (queued w)) \<subseteq> set_mset (ext + q_names (queued w))" using set_mset_mono [OF assms(4)] by auto
  then have "world_kept spare k l (set_mset (ext + q_names (queued w))) H w w' \<Longrightarrow> world_kept spare k' l' (set_mset (ext' + q_names (queued w))) H w w'"
    using assms(2,3) world_kept_mono by blast
  then show ?thesis using assms(1,3) unfolding walked_by_def by fastforce
qed

text \<open>A directory that was opened on the way is none of those that are held.\<close>

lemma walked_by_inner:
  assumes "walked_by E spare k l ext H dir w w' cs fs n u" "H' \<subseteq> H" "dir \<notin> H'"
  shows "walked_by E spare k l ext H' dir' w w' cs fs n u"
proof -
  have "queued_well E H dir w' js qs fs \<Longrightarrow> queued_well E H' dir' w' js qs fs" for js qs
    using assms(2,3) unfolding queued_well_def by blast
  then show ?thesis using assms(1) world_kept_mono [OF _ order.refl order.refl order.refl assms(2)] unfolding walked_by_def by blast
qed

text \<open>Calls only, counting, and work on the store only.\<close>

lemma walked_by_rest:
  assumes "world_kept spare k l (set_mset (ext + q_names (queued w))) H w w'" "int (fdSem w') = int (fdSem w) - u"
    "w' = after_walk (wstore w') cs [] [] [] n (fdSem w') w"
  shows "walked_by E spare k l ext H dir w w' cs [] n u"
  unfolding walked_by_def
  by (intro conjI assms(1,2) exI [of _ "wstore w'"] exI [of _ "[]"]) (use assms(3) in \<open>simp_all add: queued_well_def\<close>)

lemma calls_walked:
  assumes "in_range w" "w' = w\<lparr>fdSem := s, trace := trace w @ cs\<rparr>" "int s = int (fdSem w) - u"
  shows "walked_by E spare 0 0 ext H dir w w' cs [] 0 u"
  by (rule walked_by_rest) (use assms in \<open>simp_all add: world_kept_def after_walk_def in_range_def buf_ready_def load_def queued_def\<close>)

lemma dirs_walked:
  assumes "in_range w" "w' = (add_seen w)\<lparr>n_dirs := inc64 (n_dirs w)\<rparr>"
  shows "walked_by E spare 0 0 ext H dir w w' [] [] 1 0"
  by (rule walked_by_rest) (use assms in \<open>simp_all add: world_kept_def after_walk_def in_range_def buf_ready_def load_def queued_def add_seen_def\<close>)

lemma store_walked:
  assumes "only_store w w'" "world_kept spare k l Q H w w'" "in_range w" "set_mset (ext + q_names (queued w)) \<subseteq> Q"
  shows "walked_by E spare k l ext H dir w w' [] [] 0 0"
proof (rule walked_by_rest [OF world_kept_mono [OF assms(2) order.refl order.refl assms(4) order.refl]])
  obtain st where "w' = w\<lparr>wstore := st\<rparr>" using assms(1) unfolding only_store_def by blast
  then show "w' = after_walk (wstore w') [] [] [] [] 0 (fdSem w') w" using assms(3) by (simp add: after_walk_def in_range_def)
qed (use only_storeD(2) [OF assms(1)] in simp)

lemma walked_byD:
  assumes "walked_by E spare k l ext H dir w w' cs fs n u"
  shows "trace w' = trace w @ cs" "int (fdSem w') = int (fdSem w) - u" "bufs w' = bufs w" "in_range w'"
    "world_kept spare k l (set_mset (ext + q_names (queued w))) H w w'" "length (queued w') \<le> length (queued w) + l"
    "set_mset (q_names (queued w)) \<subseteq> set_mset (q_names (queued w'))"
    "p \<in> H \<Longrightarrow> p \<noteq> dir \<Longrightarrow> p \<in># q_dirs (queued w') \<Longrightarrow> p \<in># q_dirs (queued w)"
proof -
  obtain st js qs s where e: "w' = after_walk st cs js qs fs n s w" "queued_well E H dir w' js qs fs" "length js + length qs \<le> l"
    using assms unfolding walked_by_def by blast
  show "trace w' = trace w @ cs" "bufs w' = bufs w" "in_range w'" by (simp_all add: e(1)) (simp_all add: after_walk_def)
  show "length (queued w') \<le> length (queued w) + l" using e(3) by (simp add: e(1) queued_after queued_def [of w])
  show "set_mset (q_names (queued w)) \<subseteq> set_mset (q_names (queued w'))" unfolding e(1) queued_after queued_def [of w] by auto
  show "p \<in> H \<Longrightarrow> p \<noteq> dir \<Longrightarrow> p \<in># q_dirs (queued w') \<Longrightarrow> p \<in># q_dirs (queued w)"
    using e(2) unfolding e(1) queued_after queued_def [of w] queued_well_def q_dirs_def by auto
qed (use assms in \<open>simp_all add: walked_by_def\<close>)

end
