(* ===== verification/Walk_Files.thy ===== *)
theory Walk_Files
  imports Walk
begin

text \<open>
  One file of the walk: the calls it takes, the one job it leaves, and that everything else is given back.
\<close>

section \<open>Jobs into the queues\<close>

definition job_for :: "bool \<Rightarrow> addr \<Rightarrow> addr option \<Rightarrow> statx \<Rightarrow> int \<Rightarrow> int \<Rightarrow> nat \<Rightarrow> addr \<Rightarrow> file_copy_job" where
  "job_for first path part st src dst bs ref = zero_file_job\<lparr>firstLook := first, remote := path,
     partial := (case part of None \<Rightarrow> NULL | Some p \<Rightarrow> p), stx := st, srcFd := src, dstFd := dst, bsize := bs, dstDirFD := ref\<rparr>"

lemma job_for_fields [simp]:
  "remote (job_for first path part st src dst bs ref) = path" "dstDirFD (job_for first path part st src dst bs ref) = ref"
  "partial (job_for first path part st src dst bs ref) = (case part of None \<Rightarrow> NULL | Some p \<Rightarrow> p)"
  "stx (job_for first path part st src dst bs ref) = st" "srcFd (job_for first path part st src dst bs ref) = src"
  "dstFd (job_for first path part st src dst bs ref) = dst" "bsize (job_for first path part st src dst bs ref) = bs"
  "firstLook (job_for first path part st src dst bs ref) = first" "nErrors (job_for first path part st src dst bs ref) = 0"
  "isDot (job_for first path part st src dst bs ref) = False"
  by (simp_all add: job_for_def zero_file_job_def)

lemma make_job_ok:
  assumes ok: "owned w ext dext" and p: "path \<in># ext" "part = None \<or> (\<exists>q. part = Some q \<and> q \<in># ext)" and d: "ref \<in># dext"
    and room: "roomy w ext 1" "size (dext + q_dirs (queued w)) + 1 < 2 ^ 64"
  obtains w' where "make_job w first path part st src dst bs ref = Some (job_for first path part st src dst bs ref, w')" "only_store w w'"
    "owned w' (own path (own (case part of None \<Rightarrow> NULL | Some q \<Rightarrow> q) ext)) (add_mset ref dext)" "advanced spare 0 0 UNIV w w'"
    "\<forall>p. dir_view (wstore w') p = dir_view (wstore w) p"
proof -
  have nn: "q \<noteq> NULL" if "q \<in># ext" for q
    using parts_ok_not_null [OF strings_okD(2) [OF ownedD(1) [OF ok]], of q] that by simp
  obtain w1 where w1: "w_inc w path = Some w1" "only_store w w1" "owned w1 (add_mset path ext) dext" "advanced spare 0 0 UNIV w w1"
    "fdrcs (wstore w1) = fdrcs (wstore w)" by (rule inc_adv [OF ok p(1)]) (use room in \<open>simp_all add: roomy_load\<close>)
  note q1 = only_storeD(15) [OF w1(2)]
  let ?ext = "own path (own (case part of None \<Rightarrow> NULL | Some q \<Rightarrow> q) ext)"
  have "\<exists>w2. (case part of None \<Rightarrow> Some w1 | Some q \<Rightarrow> w_inc w1 q) = Some w2 \<and> only_store w1 w2 \<and> owned w2 ?ext dext \<and> advanced spare 0 0 UNIV w1 w2
    \<and> fdrcs (wstore w2) = fdrcs (wstore w1)"
  proof (cases part)
    case None
    then show ?thesis using w1(3) nn [OF p(1)] by (simp add: own_def)
  next
    case (Some q)
    then have q: "q \<in># ext" using p(2) by simp
    have "roomy w1 (add_mset path ext) 0" using room(1) advancedD(3) [OF w1(4)] by (simp add: roomy_load)
    then obtain w2 where "w_inc w1 q = Some w2" "only_store w1 w2" "owned w2 (add_mset q (add_mset path ext)) dext" "advanced spare 0 0 UNIV w1 w2"
      "fdrcs (wstore w2) = fdrcs (wstore w1)" using inc_adv [OF w1(3)] q by (metis insert_iff set_mset_add_mset_insert)
    then show ?thesis using Some nn [OF p(1)] nn [OF q] by (simp add: own_def add_mset_commute)
  qed
  then obtain w2 where w2: "(case part of None \<Rightarrow> Some w1 | Some q \<Rightarrow> w_inc w1 q) = Some w2" "only_store w1 w2" "owned w2 ?ext dext"
    "advanced spare 0 0 UNIV w1 w2" "fdrcs (wstore w2) = fdrcs (wstore w1)" by blast
  obtain w3 where w3: "incref ref w2 = Some w3" "only_store w2 w3" "owned w3 ?ext (add_mset ref dext)" "advanced spare 0 0 UNIV w2 w3"
    by (rule incref_adv [OF w2(3) d]) (use room(2) only_storeD(15) [OF w2(2)] q1 in simp_all)
  have "make_job w first path part st src dst bs ref = Some (job_for first path part st src dst bs ref, w3)"
    using w1(1) w2(1) w3(1) by (simp add: make_job_def job_for_def)
  moreover have "advanced spare 0 0 UNIV w w3" using advanced_trans [OF advanced_trans [OF w1(4) w2(4)] w3(4)] by simp
  moreover have "\<forall>p. dir_view (wstore w3) p = dir_view (wstore w) p"
    using incref_view [OF w3(1)] w2(5) w1(5) by (simp add: dir_view_def)
  ultimately show thesis
    using that w3(3) only_store_trans [OF only_store_trans [OF w1(2) w2(2)] w3(2)] by blast
qed

text \<open>The references of the job are then the queue's.\<close>

lemma enqueue_ok:
  assumes "owned w (own (remote j) (own (partial j) ext)) (add_mset (dstDirFD j) dext)"
    and "w' = w\<lparr>jobQ := jobQ w @ [j]\<rparr> \<or> w' = w\<lparr>finishQ := finishQ w @ [j]\<rparr>"
  shows "owned w' ext dext" "advanced spare 0 2 UNIV w w'"
proof -
  have st: "wstore w' = wstore w" "bufs w' = bufs w" using assms(2) by auto
  have q: "q_names (queued w') = own (remote j) (own (partial j) {#}) + q_names (queued w)" "q_dirs (queued w') = add_mset (dstDirFD j) (q_dirs (queued w))"
    using assms(2) by (auto simp: queued_def)
  have o: "own (remote j) (own (partial j) ext) = own (remote j) (own (partial j) {#}) + ext" by (simp add: own_def)
  show "owned w' ext dext" using assms(1) by (simp add: owned_def st(1) q o ac_simps)
  have "size (own (remote j) (own (partial j) {#})) \<le> 2" by (simp add: own_def)
  then have "load w' \<le> load w + 2" by (simp add: load_def st(1) q)
  moreover have "steady UNIV w w'" by (simp add: steady_def fds_def buf_ready_def st)
  ultimately show "advanced spare 0 2 UNIV w w'" by (simp add: advanced_def st(1))
qed

section \<open>One file\<close>

lemma nondir_plain:
  fixes E :: "'db program"
  assumes ok: "owned w ext dext" and refs: "path \<in># ext" "pref \<in># ext" "ref \<in># dext"
    and sp: "spells (strings (wstore w)) path p" "spells (strings (wstore w)) pref (copy_name E p)"
    and fd: "fd_of w src = Some sfd" "fd_of w ref = Some dfd"
    and pl: "plain dev k p (File st dest a b)" and sem: "descriptors (File st dest a b) \<le> fdSem w" and c: "in_range w"
    and room: "roomy w ext 4" "size (dext + q_dirs (queued w)) + 1 < 2 ^ 64"
    and f: "follows E (trace w) (walk E sfd dfd p (File st dest a b))"
  shows "\<exists>w'. nondir_body E w path pref src ref p (copy_name E p) = Some (0, w') \<and> owned w' ext dext
    \<and> walked_by E spare 0 2 ext H ref w w' (calls (walk E sfd dfd p (File st dest a b))) [(p, File st dest a b)] 0
        (if changed (File st dest a b) then 2 else 0)"
proof -
  let ?x = "File st dest a b" and ?n = "base_name p"
  have st: "S_ISREG (stx_mode st)" "stx_nlink st \<le> 1" "\<And>d. dest = Some d \<Longrightarrow> stx_nlink d \<le> 1"
    using pl by (auto split: option.splits)
  define l where "l = \<lparr>lk_stx = st, lk_destStx = (case dest of None \<Rightarrow> zero_statx | Some d \<Rightarrow> d), lk_exists = (dest \<noteq> None)\<rparr>"
  have l: "lk_stx l = st" "differs l \<longleftrightarrow> changed ?x" "stx_nlink (lk_destStx l) \<le> 1"
    using st(3) by (cases dest; simp add: l_def differs_def zero_statx_def)+
  let ?t0 = "trace w @ [Statx sfd ?n, Statx dfd ?n]"
  have look: "look E w sfd dfd ?n = (Some l, w\<lparr>trace := ?t0\<rparr>)"
    using f by (cases dest) (simp_all add: look_def statx_wrapper_def sys_def found_def l_def)
  define w1 where "w1 = (add_seen (w\<lparr>trace := ?t0\<rparr>))\<lparr>bytes_seen := (bytes_seen w + stx_size st) mod 2 ^ 64\<rparr>"
  have link: "link_state E (add_seen (w\<lparr>trace := ?t0\<rparr>)) p path ref l
      = Some (\<lparr>shouldTransfer = changed ?x, isFirstLook = True, isPendingHardlink = False\<rparr>, add_seen (w\<lparr>trace := ?t0\<rparr>))"
    using l st(2) by (simp add: link_state_def del: changed.simps)
  have body: "nondir_body E w path pref src ref p (copy_name E p)
      = transfer_name E w1 \<lparr>shouldTransfer = changed ?x, isFirstLook = True, isPendingHardlink = False\<rparr> path pref src ref ?n (base_name (copy_name E p)) st"
    using fd look link st(1) l(1) by (simp add: nondir_body_def w1_def add_seen_def Let_def del: changed.simps)
  have paths: "spells (strings (wstore w')) path p \<and> spells (strings (wstore w')) pref (copy_name E p)" if "advanced spare 0 2 UNIV w w'" for w'
    using sp steadyD(1) [OF advancedD(1) [OF that] UNIV_I] by blast
  have carry: "owned w' ext dext" "roomy w' ext 1" "size (dext + q_dirs (queued w')) + 1 < 2 ^ 64" if "same_names w w'" for w'
    using ok room same_namesD(1,2) [OF that] that by (simp_all add: roomy_load same_names_def)
  obtain fs fr where open_fds: "fdrcs (wstore w) src = Some fs" "fdrc_fd fs = sfd" "fdrcs (wstore w) ref = Some fr" "fdrc_fd fr = dfd"
    using fd by (auto simp: fd_of_def)
  show ?thesis
  proof (cases "changed ?x")
    case True
    let ?m = "base_name (copy_name E p)"
    let ?cs = "[Statx sfd ?n, Statx dfd ?n, Unlinkat dfd ?m False, Openat sfd ?n [O_RDONLY, O_DIRECT, O_NOATIME] 0,
      Openat dfd ?m [O_RDWR, O_CREAT, O_DIRECT, O_NOATIME] (stx_mode st), Ftruncate b (alignUp (stx_size st) 4096)]"
    define w2 where "w2 = w1\<lparr>fdSem := fdSem w - Suc (Suc 0), trace := trace w @ ?cs, bytes_will := (bytes_will w + stx_size st) mod 2 ^ 64\<rparr>"
    let ?bs = "blockSize (stx_size st) (64 * 2 ^ 20) (minBlockSize (opts E)) (maxBlockSize (opts E))"
    let ?j = "job_for True path (Some pref) st a b ?bs ref"
    have sn: "same_names w w2" by (simp add: same_names_def w2_def w1_def add_seen_def queued_def)
    obtain w3 where w3: "make_job w2 True path (Some pref) st a b ?bs ref = Some (?j, w3)" "only_store w2 w3"
      "owned w3 (own path (own (case Some pref of None \<Rightarrow> NULL | Some q \<Rightarrow> q) ext)) (add_mset ref dext)" "advanced spare 0 0 UNIV w2 w3"
      "\<forall>p. dir_view (wstore w3) p = dir_view (wstore w2) p" by (rule make_job_ok [OF carry(1) [OF sn] refs(1) disjI2 refs(3) carry(2,3) [OF sn], of "Some pref"]) (use refs(2) in simp)
    define w' where "w' = w3\<lparr>jobQ := jobQ w3 @ [?j]\<rparr>"
    have en: "owned w' ext dext" "advanced spare 0 2 UNIV w3 w'"
      by (rule enqueue_ok [of w3 ?j ext dext w']; use w3(3) in \<open>simp add: w'_def\<close>)+
    have run: "transfer_name E w1 \<lparr>shouldTransfer = changed ?x, isFirstLook = True, isPendingHardlink = False\<rparr> path pref src ref ?n ?m st = Some (0, w')"
      using True f open_fds st(1) sem w3(1)
      by (simp add: transfer_name_def transfer_file_def fd_of_def openat_wrapper_def sem_wait_def sys_def w1_def w2_def add_seen_def w'_def del: changed.simps)
    have adv: "advanced spare 0 2 UNIV w w'"
      using advanced_mono [OF advanced_trans [OF advanced_trans [OF advanced_same [OF sn] w3(4)] en(2)], of 0 2] by simp
    have after: "w' = after_walk (wstore w') ?cs [?j] [] [(p, ?x)] 0 (fdSem w - 2) w"
    proof -
      obtain st' where "w3 = w2\<lparr>wstore := st'\<rparr>" using w3(2) unfolding only_store_def by blast
      then show ?thesis using c True
        by (simp add: w'_def w2_def w1_def add_seen_def after_walk_def in_range_def numeral_2_eq_2 del: changed.simps)
    qed
    have well: "queued_well E H ref w' [?j] [] [(p, ?x)]"
      using True paths [OF adv] by (simp add: queued_well_def del: changed.simps)
    have kp: "world_kept spare 0 2 UNIV H w w'" by (rule world_kept_advanced [OF adv order.refl order.refl])
      (use w3(5) sn in \<open>simp add: w'_def dir_view_def same_names_def\<close>)
    have sm: "fdSem w' = fdSem w - 2" by (subst after) (simp add: after_walk_def)
    have "walked_by E spare 0 2 ext H ref w w' (calls (walk E sfd dfd p ?x)) [(p, ?x)] 0 2"
      unfolding walked_by_def using True sem sm world_kept_mono [OF kp] after [folded sm] well
      by (intro conjI exI [of _ "wstore w'"] exI [of _ "[?j]"] exI [of _ "[]"]) (simp_all del: changed.simps)
    then show ?thesis using en(1) True run body by (simp del: changed.simps walk.simps)
  next
    case False
    let ?cs = "[Statx sfd ?n, Statx dfd ?n]"
    let ?j = "job_for True path None st (-1) (-1) 0 ref"
    have sn: "same_names w w1" by (simp add: same_names_def w1_def add_seen_def queued_def)
    obtain w3 where w3: "make_job w1 True path None st (-1) (-1) 0 ref = Some (?j, w3)" "only_store w1 w3"
      "owned w3 (own path (own (case None of None \<Rightarrow> NULL | Some q \<Rightarrow> q) ext)) (add_mset ref dext)" "advanced spare 0 0 UNIV w1 w3"
      "\<forall>p. dir_view (wstore w3) p = dir_view (wstore w1) p" by (rule make_job_ok [OF carry(1) [OF sn] refs(1) disjI1 refs(3) carry(2,3) [OF sn], of None]) simp
    define w' where "w' = w3\<lparr>finishQ := finishQ w3 @ [?j]\<rparr>"
    have en: "owned w' ext dext" "advanced spare 0 2 UNIV w3 w'"
      by (rule enqueue_ok [of w3 ?j ext dext w']; use w3(3) in \<open>simp add: w'_def\<close>)+
    have run: "transfer_name E w1 \<lparr>shouldTransfer = changed ?x, isFirstLook = True, isPendingHardlink = False\<rparr> path pref src ref ?n
        (base_name (copy_name E p)) st = Some (0, w')"
      using False w3(1) by (simp add: transfer_name_def finish_later_def w'_def del: changed.simps)
    have adv: "advanced spare 0 2 UNIV w w'"
      using advanced_mono [OF advanced_trans [OF advanced_trans [OF advanced_same [OF sn] w3(4)] en(2)], of 0 2] by simp
    have after: "w' = after_walk (wstore w') ?cs [] [?j] [(p, ?x)] 0 (fdSem w) w"
    proof -
      obtain st' where "w3 = w1\<lparr>wstore := st'\<rparr>" using w3(2) unfolding only_store_def by blast
      then show ?thesis using c False
        by (simp add: w'_def w1_def add_seen_def after_walk_def in_range_def numeral_2_eq_2 del: changed.simps)
    qed
    have well: "queued_well E H ref w' [] [?j] [(p, ?x)]"
      using False paths [OF adv] by (simp add: queued_well_def del: changed.simps)
    have kp: "world_kept spare 0 2 UNIV H w w'" by (rule world_kept_advanced [OF adv order.refl order.refl])
      (use w3(5) sn in \<open>simp add: w'_def dir_view_def same_names_def\<close>)
    have sm: "fdSem w' = fdSem w" by (subst after) (simp add: after_walk_def)
    have "walked_by E spare 0 2 ext H ref w w' (calls (walk E sfd dfd p ?x)) [(p, ?x)] 0 0"
      unfolding walked_by_def using False sm world_kept_mono [OF kp] after [folded sm] well
      by (intro conjI exI [of _ "wstore w'"] exI [of _ "[]"] exI [of _ "[?j]"]) (simp_all del: changed.simps)
    then show ?thesis using en(1) False run body by (simp del: changed.simps walk.simps)
  qed
qed

context room
begin

lemma partial_adv:
  assumes ok: "owned w ext dext" and p: "path \<in># ext" "spells (strings (wstore w)) path p" and room: "roomy w ext 0"
    and n: "tid E = t" "sizeof_StringPart + length p + 25 \<le> m" "0 < spare (heap (wstore w))"
  obtains c w' where "partial_part E w path p = Some (c, w')" "only_store w w'" "owned w' (add_mset c ext) dext" "advanced spare 1 1 UNIV w w'"
    "c \<noteq> NULL" "spells (strings (wstore w')) c (copy_name E p)" "fdrcs (wstore w') = fdrcs (wstore w)"
proof -
  note po = strings_okD(2) [OF ownedD(1) [OF ok]]
  have p0: "path \<noteq> NULL" using parts_ok_not_null [OF po, of path] p(1) by simp
  obtain part s where part: "strings (wstore w) path = Some part" "spells (strings (wstore w)) (part_prev part) s" "p = s @ part_data part"
    using p(2) p0 by (auto elim: spells_cases)
  have prev: "part_prev part = NULL \<or> part_prev part \<in> dom (strings (wstore w))"
    using parts_ok_part [OF po part(1)] by (simp add: part_ok_def)
  have len: "sizeof_StringPart + length (part_data part) + length (suffix_of (hash64 E p)) + 1 \<le> m"
    using n(2) unfolding part(3) by (simp add: suffix_of)
  obtain c w' where w': "w_part E w (part_prev part) (part_data part) (suffix_of (hash64 E p)) = Some (c, w')" "only_store w w'"
    "owned w' (add_mset c ext) dext" "advanced spare 1 1 UNIV w w'" "c \<noteq> NULL"
    "spells (strings (wstore w')) c (s @ part_data part @ suffix_of (hash64 E p))" "fdrcs (wstore w') = fdrcs (wstore w)"
    by (rule part_adv [OF ok prev room part(2) n(1) len n(3)]) blast
  then show thesis using that [of c w'] part by (simp add: partial_part_def copy_name_def)
qed

text \<open>What every task gives back at its end: its two directories, which somebody else still holds, and its path.\<close>

lemma give_back:
  assumes ok: "owned w (add_mset path ext) (add_mset ref (add_mset src dext))" and held: "ref \<in># dext" "src \<in># dext"
    and room: "roomy w (add_mset path ext) 1" and c: "in_range w" and H: "H \<subseteq> set_mset dext"
  shows "\<exists>w1 w2 w'. fdrc_release E w ref = Some w1 \<and> fdrc_release E w1 src = Some w2 \<and> drop_part w2 path = Some w' \<and> owned w' ext dext
    \<and> walked_by E spare 0 2 ext H dir w w' [] [] 0 0"
proof -
  let ?Q = "set_mset (ext + q_names (queued w))"
  obtain w1 where w1: "fdrc_release E w ref = Some w1" "only_store w w1" "owned w1 (add_mset path ext) (add_mset src dext)"
    "advanced spare 0 1 (set_mset (add_mset path ext + q_names (queued w))) w w1"
    "\<forall>q \<in># add_mset src dext. dir_view (wstore w1) q = dir_view (wstore w) q"
    by (rule unref_adv [OF ok]) (use held room in \<open>simp_all add: roomy_load\<close>)
  obtain w2 where w2: "fdrc_release E w1 src = Some w2" "only_store w1 w2" "owned w2 (add_mset path ext) dext"
    "advanced spare 0 1 (set_mset (add_mset path ext + q_names (queued w1))) w1 w2" "\<forall>q \<in># dext. dir_view (wstore w2) q = dir_view (wstore w1) q"
    by (rule unref_adv [OF w1(3)]) (use held room advancedD(3) [OF w1(4)] in \<open>simp_all add: roomy_load\<close>)
  have "path \<noteq> NULL" using parts_ok_not_null [OF strings_okD(2) [OF ownedD(1) [OF ok]], of path] by simp
  then have ok2: "owned w2 (own path ext) dext" using w2(3) by (simp add: own_def)
  obtain w3 where w3: "drop_part w2 path = Some w3" "only_store w2 w3" "owned w3 ext dext"
    "advanced spare 0 0 (set_mset (ext + q_names (queued w2))) w2 w3" "fdrcs (wstore w3) = fdrcs (wstore w2)" by (rule drop_adv [OF ok2]) blast
  have o: "only_store w w3" by (rule only_store_trans [OF w1(2) only_store_trans [OF w2(2) w3(2)]])
  note q = only_storeD(15) [OF w1(2)] only_storeD(15) [OF w2(2)]
  have "advanced spare 0 1 ?Q w w1" "advanced spare 0 1 ?Q w1 w2" "advanced spare 0 0 ?Q w2 w3"
    using w1(4) w2(4) w3(4) q by (auto elim!: advanced_mono)
  then have a3: "advanced spare 0 2 ?Q w w3"
    using advanced_trans [of spare 0 1 ?Q w w1 0 1 w2] advanced_trans [of spare 0 2 ?Q w w2 0 0 w3] by (simp add: numeral_2_eq_2)
  have "\<forall>p \<in> H. dir_view (wstore w3) p = dir_view (wstore w) p"
    using H w1(5) w2(5) w3(5) by (auto simp: dir_view_def subset_iff)
  then have k3: "world_kept spare 0 2 ?Q H w w3" by (rule world_kept_advanced [OF a3 order.refl order.refl])
  have "walked_by E spare 0 2 ext H dir w w3 [] [] 0 0" by (rule store_walked [OF o k3 c order.refl])
  then show ?thesis using w1(1) w2(1) w3(1,3) by blast
qed

lemma file_walked:
  fixes E :: "'db program"
  assumes E: "tid E = t" "sizeof_StringPart + k + 1 \<le> m"
    and ok: "owned w (add_mset path ext) (add_mset ref (add_mset src dext))" and held: "ref \<in># dext" "src \<in># dext"
    and sp: "spells (strings (wstore w)) path p" and fd: "fd_of w src = Some sfd" "fd_of w ref = Some dfd"
    and pl: "plain dev k p (File st dest a b)" and bf: "buf_ready w NonDir_remote k" "buf_ready w NonDir_partial k"
    and sem: "descriptors (File st dest a b) \<le> fdSem w" and c: "in_range w"
    and room: "roomy w (add_mset path ext) 8" "size (dext + q_dirs (queued w)) + 6 < 2 ^ 64" and mem: "1 \<le> spare (heap (wstore w))"
    and H: "H \<subseteq> set_mset dext"
    and f: "follows E (trace w) (walk E sfd dfd p (File st dest a b))"
  shows "\<exists>w'. processNonDir E path src ref w = Some (0, w') \<and> owned w' ext dext
    \<and> walked_by E spare 1 6 ext H ref w w' (calls (walk E sfd dfd p (File st dest a b))) [(p, File st dest a b)] 0
        (if changed (File st dest a b) then 2 else 0)"
proof -
  let ?x = "File st dest a b" and ?u = "if changed (File st dest a b) then 2 else 0 :: int"
  have pk: "length p < k" "c_name p" "length (copy_name E p) < k" "c_name (copy_name E p)"
    using pl suffix_of [of "hash64 E p"] by (auto simp: copy_name_def c_name_def)
  have touch: "\<exists>buf. touch_buffer E NonDir_remote PATH_MAX w = (buf, w)" "\<exists>buf. touch_buffer E NonDir_partial PATH_MAX w = (buf, w)"
    using touch_step [OF bf(1)] touch_step [OF bf(2)] by blast+
  obtain w1 where w1: "name_text E NonDir_remote w path = Some (p, w1)" "only_store w w1" "owned w1 (add_mset path ext) (add_mset ref (add_mset src dext))"
    "advanced spare 0 0 UNIV w w1" "fdrcs (wstore w1) = fdrcs (wstore w)" by (rule text_adv [OF ok bf(1) sp pk(1,2)]) blast
  have sp1: "spells (strings (wstore w1)) path p" by (rule steadyD(1) [OF advancedD(1) [OF w1(4)] UNIV_I sp])
  obtain q w2 where w2: "partial_part E w1 path p = Some (q, w2)" "only_store w1 w2" "owned w2 (add_mset q (add_mset path ext)) (add_mset ref (add_mset src dext))"
    "advanced spare 1 1 UNIV w1 w2" "q \<noteq> NULL" "spells (strings (wstore w2)) q (copy_name E p)" "fdrcs (wstore w2) = fdrcs (wstore w1)"
    by (rule partial_adv [OF w1(3) _ sp1 _ E(1)])
      (use pl E(2) room(1) mem advancedD(2,3) [OF w1(4)] in \<open>simp_all add: roomy_load\<close>)
  have a2: "advanced spare 1 1 UNIV w w2" using advanced_trans [OF w1(4) w2(4)] by simp
  have bf2: "buf_ready w2 NonDir_partial k" by (rule steadyD(2) [OF advancedD(1) [OF a2] bf(2)])
  obtain w3 where w3: "name_text E NonDir_partial w2 q = Some (copy_name E p, w3)" "only_store w2 w3"
    "owned w3 (add_mset q (add_mset path ext)) (add_mset ref (add_mset src dext))"
    "advanced spare 0 0 UNIV w2 w3" "fdrcs (wstore w3) = fdrcs (wstore w2)" by (rule text_adv [OF w2(3) bf2 w2(6) pk(3,4)]) blast
  have o3: "only_store w w3" by (rule only_store_trans [OF only_store_trans [OF w1(2) w2(2)] w3(2)])
  have a3: "advanced spare 1 1 UNIV w w3" using advanced_trans [OF a2 w3(4)] by simp
  have s3: "spells (strings (wstore w3)) path p" "spells (strings (wstore w3)) q (copy_name E p)"
    using steadyD(1) [OF advancedD(1) [OF a3] UNIV_I sp] steadyD(1) [OF advancedD(1) [OF w3(4)] UNIV_I w2(6)] by blast+
  have fd3: "fd_of w3 src = Some sfd" "fd_of w3 ref = Some dfd" using fd w1(5) w2(7) w3(5) by (simp_all add: fd_of_def)
  note on3 = only_storeD [OF o3]
  have c3: "in_range w3" using c on3 by (simp add: in_range_def)
  have "\<exists>w4. nondir_body E w3 path q src ref p (copy_name E p) = Some (0, w4)
    \<and> owned w4 (add_mset q (add_mset path ext)) (add_mset ref (add_mset src dext))
    \<and> walked_by E spare 0 2 (add_mset q (add_mset path ext)) H ref w3 w4 (calls (walk E sfd dfd p ?x)) [(p, ?x)] 0 ?u"
    by (rule nondir_plain [OF w3(3) _ _ _ s3 fd3 pl _ c3])
      (use sem room advancedD(3) [OF a3] f on3 in \<open>simp_all add: roomy_load del: walk.simps\<close>)
  then obtain w4 where w4: "nondir_body E w3 path q src ref p (copy_name E p) = Some (0, w4)"
    "owned w4 (add_mset q (add_mset path ext)) (add_mset ref (add_mset src dext))"
    "walked_by E spare 0 2 (add_mset q (add_mset path ext)) H ref w3 w4 (calls (walk E sfd dfd p ?x)) [(p, ?x)] 0 ?u" by blast
  have "fdrcs (wstore w3) = fdrcs (wstore w)" using w1(5) w2(7) w3(5) by simp
  then have k3: "world_kept spare 1 1 UNIV H w w3" by (intro world_kept_advanced [OF a3 order.refl order.refl view_same])
  have r3: "walked_by E spare 1 1 ext H ref w w3 [] [] 0 0" by (rule store_walked [OF o3 k3 c]) simp
  have sub: "ext \<subseteq># add_mset q (add_mset path ext)" by (simp add: subset_mset.le_iff_add)
  have r4: "walked_by E spare 1 3 ext H ref w w4 (calls (walk E sfd dfd p ?x)) [(p, ?x)] 0 ?u"
    by (rule walked_by_mono [OF walked_by_trans [OF r3 walked_by_mono [OF w4(3) order.refl order.refl sub], unfolded append_Nil add_0]]) simp_all
  note d4 = walked_byD [OF r4]
  have ok4: "owned w4 (own q (add_mset path ext)) (add_mset ref (add_mset src dext))" using w4(2) w2(5) by (simp add: own_def)
  obtain w5 where w5: "drop_part w4 q = Some w5" "only_store w4 w5" "owned w5 (add_mset path ext) (add_mset ref (add_mset src dext))"
    "advanced spare 0 0 (set_mset (add_mset path ext + q_names (queued w4))) w4 w5" "fdrcs (wstore w5) = fdrcs (wstore w4)" by (rule drop_adv [OF ok4]) blast
  have k5: "world_kept spare 0 0 (set_mset (add_mset path ext + q_names (queued w4))) H w4 w5"
    by (rule world_kept_advanced [OF w5(4) order.refl order.refl view_same [OF w5(5)]])
  have r5: "walked_by E spare 0 0 ext H ref w4 w5 [] [] 0 0" by (rule store_walked [OF w5(2) k5 d4(4)]) auto
  have room5: "roomy w5 (add_mset path ext) 1" using room(1) keptD(5) [OF d4(5)] advancedD(3) [OF w5(4)] by (simp add: roomy_load)
  obtain w6 w7 w8 where w8: "fdrc_release E w5 ref = Some w6" "fdrc_release E w6 src = Some w7" "drop_part w7 path = Some w8" "owned w8 ext dext"
    "walked_by E spare 0 2 ext H ref w5 w8 [] [] 0 0"
    using give_back [OF w5(3) held room5 walked_byD(4) [OF r5] H] by blast
  have r8: "walked_by E spare 0 2 ext H ref w4 w8 [] [] 0 0" by (rule walked_by_trans [OF r5 w8(5), unfolded append_Nil add_0])
  have "walked_by E spare 1 6 ext H ref w w8 (calls (walk E sfd dfd p ?x)) [(p, ?x)] 0 ?u"
    by (rule walked_by_mono [OF walked_by_trans [OF r4 r8, unfolded append_Nil2 add_0_right]]) simp_all
  moreover have "processNonDir E path src ref w = Some (0, w8)"
    using touch w1(1) w2(1) w3(1) w4(1) w5(1) w8(1-3) by (auto simp: processNonDir_def)
  ultimately show ?thesis using w8(4) by blast
qed

end

end
