(* ===== verification/Walk_Dirs.thy ===== *)
theory Walk_Dirs
  imports Walk_Files
begin

text \<open>
  One directory of the walk: its two counted descriptors, its entries, and what giving back the last
  reference to either of them does.
\<close>

section \<open>New directories\<close>

lemma second_fresh:
  assumes ok: "store_ok st" and q: "fresh_block st q n" and r: "store_alloc t st len = (p, st')" "p \<noteq> NULL"
  shows "fresh_block st' q n" "p \<noteq> q"
proof -
  obtain a m where am: "AllocatorAllocate t (heap st) (heap_mem st) len = (p, a, m)" and st': "st' = st\<lparr>heap := a, heap_mem := m\<rparr>"
    using r(1) by (auto simp: store_alloc_def split: prod.splits)
  have h: "handed_out (heap st) (heap_mem st) len p a m" by (rule AllocatorAllocate_spec [OF store_okD(1) [OF ok] am])
  obtain k where k: "(q, k) \<in> alloc_blocks (heap st)" using q by (auto simp: fresh_block_def)
  have inv: "alloc_inv (fst (heap st, heap_mem st))" using store_okD(1) [OF ok] by simp
  have "(p, k) \<notin> alloc_blocks (heap st)"
    using prog.tk_fresh [OF inv, of t len k] r(2) am by (simp add: allocate_step_def)
  then show "p \<noteq> q" using k by blast
  have "alloc_blocks (heap st) \<subseteq> alloc_blocks a" using h r(2) unfolding handed_out_def by auto
  then show "fresh_block st' q n" using q unfolding fresh_block_def st' by auto
qed

lemma put_dir:
  assumes ok: "owned w (add_mset (fdrc_path f) ext) dext" and fresh: "fresh_block (wstore w) p len" "sizeof_FDRC \<le> len"
    and f: "fdrc_rc f = 1" and room: "size (dext + q_dirs (queued w)) + 1 < 2 ^ 64" and H: "H \<subseteq> dom (fdrcs (wstore w))"
  obtains w' where "w_put p (Fdrc f) w = Some w'" "only_store w w'" "owned w' ext (add_mset p dext)" "world_kept spare 0 1 UNIV H w w'"
    "fdrcs (wstore w') = (fdrcs (wstore w))(p \<mapsto> f)" "fdrcs (wstore w) p = None"
    "\<And>q n. fresh_block (wstore w) q n \<Longrightarrow> q \<noteq> p \<Longrightarrow> fresh_block (wstore w') q n"
proof -
  let ?st = "wstore w" and ?st' = "put_object p (Fdrc f) (wstore w)" and ?F = "fdrcs (wstore w)"
  have n: "objects ?st p = None" "p \<noteq> NULL" using fresh by (simp_all add: fresh_block_def)
  note so = strings_ok_fresh [OF ownedD(1) [OF ok] fresh(1), of "Fdrc f"]
  have Fp: "?F p = None" using n(1) by (simp add: fdrcs_def)
  have st: "strings ?st' = strings ?st" using so fresh(2) by simp
  have F: "fdrcs ?st' = ?F(p \<mapsto> f)" by simp
  note d = ownedD(2) [OF ok]
  have pr: "path_refs (?F(p \<mapsto> f)) = add_mset (fdrc_path f) (path_refs ?F)" by (rule path_refs_add [OF Fp dirs_okD(4) [OF d]])
  let ?w = "w\<lparr>wstore := ?st'\<rparr>"
  have "strings_ok ?st' (ext + path_refs (?F(p \<mapsto> f)) + q_names (queued w))" using so fresh(2) unfolding pr by simp
  moreover have "p \<notin># dext + q_dirs (queued w)" using dirs_okD(1) [OF d] Fp by blast
  then have "dirs_ok (?F(p \<mapsto> f)) (add_mset p dext + q_dirs (queued w))"
    using d room f unfolding dirs_ok_def by (auto simp: not_in_iff)
  ultimately have ok': "owned ?w ext (add_mset p dext)" by (simp add: owned_def F queued_def del: fdrcs_simps)
  have ld: "load ?w = load w + 1" by (simp add: load_def F pr st queued_def del: fdrcs_simps object_views)
  have "buf_ready ?w b k" if "buf_ready w b k" for b k
    using that n(1) unfolding buf_ready_def by (elim exE conjE, intro exI conjI) auto
  moreover have "dir_view ?st' q = dir_view ?st q" if "q \<in> H" for q using that H Fp by (auto simp: dir_view_def)
  moreover have "heap ?st' = heap ?st" by simp
  ultimately have "world_kept spare 0 1 UNIV H w ?w" using ld by (simp add: world_kept_def st del: object_views)
  moreover have "fresh_block ?st' q k" if "fresh_block ?st q k" "q \<noteq> p" for q k
    using that by (simp add: fresh_block_def)
  ultimately show thesis using that [of ?w] n(2) Fp F ok' by (simp add: w_put_def)
qed

text \<open>Two descriptors with one path: those of a new directory, and those of the root.\<close>

definition two_dirs :: "'db program \<Rightarrow> 'db world \<Rightarrow> addr \<Rightarrow> fdrc \<Rightarrow> fdrc \<Rightarrow> (addr \<times> addr \<times> 'db world) option" where
  "two_dirs E w path f g = do {
     let (a, w) = w_alloc E w sizeof_FDRC;
     let (b, w) = w_alloc E w sizeof_FDRC;
     w \<leftarrow> w_inc w path;
     w \<leftarrow> w_put a (Fdrc f) w;
     w \<leftarrow> w_inc w path;
     w \<leftarrow> w_put b (Fdrc g) w;
     Some (a, b, w) }"

lemma new_dir_two:
  "new_dir E w path sf df st = two_dirs E w path
     \<lparr>fdrc_rc = 1, fdrc_fd = sf, fdrc_path = path, fdrc_dst = False, fdrc_srcStx = zero_statx\<rparr>
     \<lparr>fdrc_rc = 1, fdrc_fd = df, fdrc_path = path, fdrc_dst = True, fdrc_srcStx = st\<rparr>"
  by (simp add: new_dir_def two_dirs_def)

context room
begin

lemma two_dirs_ok:
  assumes ok: "owned w ext dext" and p: "path \<in># ext" and n: "tid E = t" "sizeof_FDRC \<le> m" "2 \<le> spare (heap (wstore w))"
    and room: "roomy w ext 3" "size (dext + q_dirs (queued w)) + 2 < 2 ^ 64" and H: "H \<subseteq> set_mset dext"
    and f: "fdrc_rc f = 1" "fdrc_path f = path" and g: "fdrc_rc g = 1" "fdrc_path g = path"
  obtains a b w' where "two_dirs E w path f g = Some (a, b, w')" "only_store w w'" "owned w' ext (add_mset b (add_mset a dext))"
    "world_kept spare 2 2 UNIV H w w'" "a \<noteq> b" "fdrcs (wstore w) a = None" "fdrcs (wstore w) b = None"
    "fdrcs (wstore w') a = Some f" "fdrcs (wstore w') b = Some g"
proof -
  have z: "0 < sizeof_FDRC" by (simp add: sizeof_FDRC_def)
  obtain a w1 where w1: "w_alloc E w sizeof_FDRC = (a, w1)" "a \<noteq> NULL" "only_store w w1" "owned w1 ext dext" "advanced spare 1 0 UNIV w w1"
    "fdrcs (wstore w1) = fdrcs (wstore w)" "fresh_block (wstore w1) a sizeof_FDRC"
    by (rule alloc_adv [OF ok n(1) z n(2)]) (use n(3) in auto)
  obtain b w2 where w2: "w_alloc E w1 sizeof_FDRC = (b, w2)" "b \<noteq> NULL" "only_store w1 w2" "owned w2 ext dext" "advanced spare 1 0 UNIV w1 w2"
    "fdrcs (wstore w2) = fdrcs (wstore w1)" "fresh_block (wstore w2) b sizeof_FDRC"
    by (rule alloc_adv [OF w1(4) n(1) z n(2)]) (use n(3) advancedD(2) [OF w1(5)] in auto)
  obtain st2 where al: "store_alloc t (wstore w1) sizeof_FDRC = (b, st2)" "wstore w2 = st2"
    using w2(1) n(1) by (auto simp: w_alloc_def split: prod.splits)
  note two = second_fresh [OF strings_okD(1) [OF ownedD(1) [OF w1(4)]] w1(7) al(1) w2(2)]
  have a2: "fresh_block (wstore w2) a sizeof_FDRC" using two(1) al(2) by simp
  have q2: "queued w2 = queued w" using only_storeD(15) [OF w1(3)] only_storeD(15) [OF w2(3)] by simp
  have ld2: "load w2 \<le> load w" using advancedD(3) [OF w1(5)] advancedD(3) [OF w2(5)] by simp
  obtain w3 where w3: "w_inc w2 path = Some w3" "owned w3 (add_mset path ext) dext" "load w3 = load w2" "fdrcs (wstore w3) = fdrcs (wstore w2)"
    "\<And>q n. fresh_block (wstore w2) q n \<Longrightarrow> fresh_block (wstore w3) q n"
    by (rule w_inc_ok [OF w2(4) p]) (use room(1) ld2 in \<open>simp_all add: roomy_load\<close>)
  have o3: "only_store w2 w3" using w3(1) by (auto simp: w_inc_def)
  have "advanced spare 0 0 UNIV w2 w3"
    using inc_adv [OF w2(4) p, of spare] w3(1) room(1) ld2 by (auto simp: roomy_load)
  then have a3: "advanced spare 2 0 UNIV w w3" using advanced_trans [OF advanced_trans [OF w1(5) w2(5)], of 0 0 w3] by (simp add: numeral_2_eq_2)
  have dom3: "H \<subseteq> dom (fdrcs (wstore w3))" using dirs_okD(1) [OF ownedD(2) [OF w3(2)]] H by auto
  have k3: "world_kept spare 2 0 UNIV H w w3" by (rule world_kept_advanced [OF a3 order.refl order.refl view_same]) (simp add: w3(4) w2(6) w1(6))
  have q3: "queued w3 = queued w" using only_storeD(15) [OF o3] q2 by simp
  have r3: "size (dext + q_dirs (queued w3)) + 1 < 2 ^ 64" using room(2) unfolding q3 by linarith
  obtain w4 where w4: "w_put a (Fdrc f) w3 = Some w4" "only_store w3 w4" "owned w4 ext (add_mset a dext)" "world_kept spare 0 1 UNIV H w3 w4"
    "fdrcs (wstore w4) = (fdrcs (wstore w3))(a \<mapsto> f)" "fdrcs (wstore w3) a = None"
    "\<And>q n. fresh_block (wstore w3) q n \<Longrightarrow> q \<noteq> a \<Longrightarrow> fresh_block (wstore w4) q n"
    by (rule put_dir [where f = f and spare = spare, OF _ w3(5) [OF a2] order.refl _ r3 dom3]) (use w3(2) f in simp_all)
  have p4: "roomy w4 ext 0" using room(1) ld2 keptD(5) [OF k3] keptD(5) [OF w4(4)] by (simp add: roomy_load)
  obtain w5 where w5: "w_inc w4 path = Some w5" "owned w5 (add_mset path ext) (add_mset a dext)" "load w5 = load w4" "fdrcs (wstore w5) = fdrcs (wstore w4)"
    "\<And>q n. fresh_block (wstore w4) q n \<Longrightarrow> fresh_block (wstore w5) q n"
    by (rule w_inc_ok [OF w4(3) p p4]) blast
  have o5: "only_store w4 w5" using w5(1) by (auto simp: w_inc_def)
  have a5: "advanced spare 0 0 UNIV w4 w5" using inc_adv [OF w4(3) p p4, of spare] w5(1) by auto
  have dom5: "H \<subseteq> dom (fdrcs (wstore w5))" using dirs_okD(1) [OF ownedD(2) [OF w5(2)]] H by auto
  have k5: "world_kept spare 0 0 UNIV H w4 w5" by (rule world_kept_advanced [OF a5 order.refl order.refl view_same [OF w5(4)]])
  have q5: "queued w5 = queued w" using only_storeD(15) [OF o5] only_storeD(15) [OF w4(2)] q3 by simp
  have r5: "size (add_mset a dext + q_dirs (queued w5)) + 1 < 2 ^ 64" using room(2) unfolding q5 by simp
  have fb: "fresh_block (wstore w5) b sizeof_FDRC" by (rule w5(5) [OF w4(7) [OF w3(5) [OF w2(7)] two(2)]])
  obtain w6 where w6: "w_put b (Fdrc g) w5 = Some w6" "only_store w5 w6" "owned w6 ext (add_mset b (add_mset a dext))" "world_kept spare 0 1 UNIV H w5 w6"
    "fdrcs (wstore w6) = (fdrcs (wstore w5))(b \<mapsto> g)" "fdrcs (wstore w5) b = None"
    by (rule put_dir [where f = g and spare = spare, OF _ fb order.refl _ r5 dom5]) (use w5(2) g in simp_all)
  have k: "world_kept spare 2 2 UNIV H w w6" using world_kept_trans [OF world_kept_trans [OF world_kept_trans [OF k3 w4(4)] k5] w6(4)] by (simp add: numeral_2_eq_2)
  have o: "only_store w w6"
    by (rule only_store_trans [OF w1(3) only_store_trans [OF w2(3) only_store_trans [OF o3 only_store_trans [OF w4(2) only_store_trans [OF o5 w6(2)]]]]])
  have "fdrcs (wstore w) a = None" "fdrcs (wstore w) b = None"
    using w4(6) w6(6) two(2) by (simp_all add: w1(6) w2(6) w3(4) w4(5) w5(4) split: if_splits)
  moreover have "two_dirs E w path f g = Some (a, b, w6)"
    using w1(1) w2(1) w3(1) w4(1) w5(1) w6(1) by (simp add: two_dirs_def)
  ultimately show thesis using that [of a b w6] o w6(3) k two(2) by (simp add: w6(5) w5(4) w4(5))
qed

end

section \<open>Giving directories back\<close>

lemma release_rc:
  assumes "owned w ext (add_mset p dext)"
  obtains f where "fdrcs (wstore w) p = Some f" "fdrc_rc f = Suc (count (dext + q_dirs (queued w)) p)"
proof -
  note d = ownedD(2) [OF assms]
  obtain f where f: "fdrcs (wstore w) p = Some f"
    using dirs_okD(1) [OF d] by (metis domD union_iff union_single_eq_member set_mset_add_mset_insert insertI1)
  then show thesis using that dirs_okD(3) [OF d f] by simp
qed

context room
begin

lemma release_spare:
  assumes ok: "owned w ext (add_mset p dext)" and r: "fdrc_release E w p = Some w'"
  shows "spare (heap (wstore w)) \<le> spare (heap (wstore w'))"
proof -
  note sok = strings_okD(1) [OF ownedD(1) [OF ok]]
  obtain f where f: "fdrcs (wstore w) p = Some f" by (rule release_rc [OF ok])
  let ?f = "f\<lparr>fdrc_rc := dec64 (fdrc_rc f)\<rparr>" and ?st = "wstore w"
  let ?st1 = "put_object p (Fdrc ?f) ?st"
  have ok1: "store_ok ?st1" by (rule store_ok_rewrite [OF sok fdrcs_SomeD [OF f]]) simp
  have c1: "spare (heap ?st) \<le> spare (heap (store_free ?st1 p))" using free_cap [OF ok1, of p] by (simp add: store_free_def)
  note rel = release_cap [OF _ store_ok_free [OF ok1, of p], of "fdrc_path f"]
  show ?thesis
    using r f c1 rel
    by (auto simp: fdrc_release_def w_put_def w_inc_def w_release_def w_free_def w_close_def sys_def Let_def string_part_rc_inc_def
        split: bind_splits if_splits)
qed

lemma src_released:
  assumes ok: "owned w ext (add_mset p dext)" and f: "fdrcs (wstore w) p = Some f" "\<not> fdrc_dst f"
    and last: "p \<notin># dext" "p \<notin># q_dirs (queued w)" and room: "roomy w ext 0" and c: "in_range w" and H: "H \<subseteq> set_mset dext"
  shows "\<exists>w'. fdrc_release E w p = Some w' \<and> owned w' ext dext \<and> walked_by E spare 0 1 ext H dir w w' [Close (fdrc_fd f)] [] 0 (- 1)"
proof -
  have rc: "fdrc_rc f = 1" by (rule release_rc [OF ok]) (use f(1) last in \<open>simp add: not_in_iff\<close>)
  obtain w' where w': "fdrc_release E w p = Some w'" "owned w' ext dext" "load w' \<le> load w + 1" "steady (set_mset (ext + q_names (queued w))) w w'"
    "\<forall>q \<in># dext. dir_view (wstore w') q = dir_view (wstore w) q" by (rule release_dir_step [OF ok room]) blast
  note e = fdrc_release_effect [OF f(1) w'(1)]
  have "advanced spare 0 1 (set_mset (ext + q_names (queued w))) w w'"
    using w'(3,4) release_spare [OF ok w'(1)] by (simp add: advanced_def)
  moreover have "\<forall>p \<in> H. dir_view (wstore w') p = dir_view (wstore w) p" using w'(5) H by (auto simp: subset_iff)
  ultimately have k: "world_kept spare 0 1 (set_mset (ext + q_names (queued w))) H w w'" by (intro world_kept_advanced [OF _ order.refl order.refl])
  have "w' = w\<lparr>wstore := wstore w', trace := trace w @ [Close (fdrc_fd f)], finishQ := finishQ w, fdSem := fdSem w + 1\<rparr>"
    using e(3) [OF rc f(2)] by (subst e(4)) simp
  then obtain st where "w' = w\<lparr>wstore := st, trace := trace w @ [Close (fdrc_fd f)], finishQ := finishQ w, fdSem := fdSem w + 1\<rparr>" by blast
  then have "w' = after_walk (wstore w') [Close (fdrc_fd f)] [] [] [] 0 (fdSem w') w" "fdSem w' = fdSem w + 1"
    using c by (simp_all add: after_walk_def in_range_def)
  then have "walked_by E spare 0 1 ext H dir w w' [Close (fdrc_fd f)] [] 0 (- 1)" by (intro walked_by_rest [OF k]) simp_all
  then show ?thesis using w' by blast
qed

lemma dst_released:
  assumes ok: "owned w ext (add_mset p dext)" and f: "fdrcs (wstore w) p = Some f" "fdrc_dst f"
    and last: "p \<notin># dext" and room: "roomy w ext 0" and c: "in_range w" and H: "H \<subseteq> set_mset dext"
  shows "\<exists>w'. fdrc_release E w p = Some w' \<and> owned w' ext dext \<and> walked_by E spare 0 1 ext H dir w w' [] [] 0 0"
proof -
  have pH: "p \<notin> H" using last H by blast
  obtain w' where w': "fdrc_release E w p = Some w'" "owned w' ext dext" "load w' \<le> load w + 1" "steady (set_mset (ext + q_names (queued w))) w w'"
    "p \<in># dext + q_dirs (queued w) \<Longrightarrow> only_store w w'"
    "\<forall>q \<in># dext. dir_view (wstore w') q = dir_view (wstore w) q" by (rule release_dir_step [OF ok room]) blast
  note e = fdrc_release_effect [OF f(1) w'(1)]
  have "advanced spare 0 1 (set_mset (ext + q_names (queued w))) w w'"
    using w'(3,4) release_spare [OF ok w'(1)] by (simp add: advanced_def)
  moreover have "\<forall>p \<in> H. dir_view (wstore w') p = dir_view (wstore w) p" using w'(6) H by (auto simp: subset_iff)
  ultimately have k: "world_kept spare 0 1 (set_mset (ext + q_names (queued w))) H w w'" by (intro world_kept_advanced [OF _ order.refl order.refl])
  have "walked_by E spare 0 1 ext H dir w w' [] [] 0 0"
  proof (cases "p \<in># q_dirs (queued w)")
    case True
    then show ?thesis by (intro store_walked [OF w'(5) k c order.refl]) simp
  next
    case False
    have rc: "fdrc_rc f = 1" by (rule release_rc [OF ok]) (use f(1) last False in \<open>simp add: not_in_iff\<close>)
    have "w' = w\<lparr>wstore := wstore w', trace := trace w, finishQ := finishQ w @ [dot_job p f], fdSem := fdSem w\<rparr>"
      using e(2) [OF rc f(2)] by (subst e(4)) simp
    then obtain st where "w' = w\<lparr>wstore := st, trace := trace w, finishQ := finishQ w @ [dot_job p f], fdSem := fdSem w\<rparr>" by blast
    then have "w' = after_walk (wstore w') [] [] [dot_job p f] [] 0 (fdSem w') w" "fdSem w' = fdSem w"
      using c by (simp_all add: after_walk_def in_range_def)
    moreover have "queued_well E H dir w' [] [dot_job p f] []" using pH by (simp add: queued_well_def dot_job_def zero_file_job_def)
    ultimately show ?thesis unfolding walked_by_def using k
      by (intro conjI exI [of _ "wstore w'"] exI [of _ "[]"] exI [of _ "[dot_job p f]"]) simp_all
  qed
  then show ?thesis using w' by blast
qed

end

section \<open>Entries\<close>

text \<open>The task of an entry.\<close>

definition names_task :: "store \<Rightarrow> string \<Rightarrow> dir_task \<Rightarrow> string \<times> stree \<Rightarrow> bool" where
  "names_task st p x y \<longleftrightarrow> spells (strings st) (dt_path x) (p @ ''/'' @ fst y) \<and> (dt_isDir x \<longleftrightarrow> is_sdir (snd y))"

definition task_refs :: "dir_task list \<Rightarrow> addr multiset" where
  "task_refs ts = mset (map dt_path ts)"

lemma task_refs_simps [simp]: "task_refs [] = {#}" "task_refs (x # ts) = add_mset (dt_path x) (task_refs ts)"
  by (simp_all add: task_refs_def)

context room
begin

lemma crawl_entries_ok:
  assumes E: "tid E = t" and fit: "\<forall>e \<in> set (nondot es). sizeof_StringPart + length (fst e) + 2 \<le> m"
    and "follows E (trace w) (map (reading is_sdir d) es @ [end_of d])" "owned w ext dext" "path \<in># ext" "a \<in># dext" "b \<in># dext"
    "spells (strings (wstore w)) path p" "roomy w ext (2 * length (nondot es))"
    "size (dext + q_dirs (queued w)) + 2 * length (nondot es) < 2 ^ 64" "length (nondot es) \<le> spare (heap (wstore w))"
  shows "\<exists>ts w'. crawl_entries E d path a b w = Some (ts, w')
    \<and> owned w' (ext + task_refs ts) (dext + replicate_mset (length (nondot es)) a + replicate_mset (length (nondot es)) b)
    \<and> w' = w\<lparr>wstore := wstore w', trace := trace w @ calls (map (reading is_sdir d) es @ [end_of d])\<rparr>
    \<and> world_kept spare (length (nondot es)) (length (nondot es)) UNIV H w w' \<and> list_all2 (names_task (wstore w') p) ts (nondot es)"
  using assms(2-)
proof (induction es arbitrary: w ext dext)
  case Nil
  let ?w = "w\<lparr>trace := trace w @ [Readdir d]\<rparr>"
  have sn: "same_names w ?w" by (simp add: same_names_def queued_def)
  have "crawl_entries E d path a b w = Some ([], ?w)"
    using Nil.prems(2) by (subst crawl_entries.simps) (simp add: sys_def end_of_def)
  moreover have "world_kept spare 0 0 UNIV H w ?w"
    by (rule world_kept_advanced [OF advanced_same [OF sn]]) simp_all
  ultimately show ?case using Nil.prems(3) by (intro exI [of _ "[]"] exI [of _ ?w]) (simp add: end_of_def)
next
  case (Cons e es)
  let ?w = "w\<lparr>trace := trace w @ [Readdir d]\<rparr>" and ?N = "length (nondot es)"
  have sn: "same_names w ?w" by (simp add: same_names_def queued_def)
  define r where "r = kernel E (trace w) (Readdir d)"
  have r: "ret r \<noteq> 0" "out_str r = fst e" "ISDOT (fst e) \<or> (out_type r = DT_DIR \<longleftrightarrow> is_sdir (snd e))"
    and fw: "follows E (trace ?w) (map (reading is_sdir d) es @ [end_of d])"
    using Cons.prems(2) by (simp_all add: follows_reading r_def)
  have q0: "queued ?w = queued w" by (simp add: queued_def)
  have k0: "world_kept spare 0 0 UNIV H w ?w"
    by (rule world_kept_advanced [OF advanced_same [OF sn]]) simp_all
  show ?case
  proof (cases "ISDOT (fst e)")
    case True
    obtain ts w' where w': "crawl_entries E d path a b ?w = Some (ts, w')"
      "owned w' (ext + task_refs ts) (dext + replicate_mset ?N a + replicate_mset ?N b)"
      "w' = ?w\<lparr>wstore := wstore w', trace := trace ?w @ calls (map (reading is_sdir d) es @ [end_of d])\<rparr>"
      "world_kept spare ?N ?N UNIV H ?w w'" "list_all2 (names_task (wstore w') p) ts (nondot es)"
      using Cons.IH [of ?w ext dext] Cons.prems True fw by (simp add: q0) blast
    have "crawl_entries E d path a b w = Some (ts, w')"
      using w'(1) r(1,2) True by (subst crawl_entries.simps) (simp add: sys_def r_def)
    moreover have "w' = w\<lparr>wstore := wstore w', trace := trace w @ calls (map (reading is_sdir d) (e # es) @ [end_of d])\<rparr>"
      by (subst w'(3)) simp
    ultimately show ?thesis using w'(2,5) world_kept_trans [OF k0 w'(4)] True by (intro exI [of _ ts] exI [of _ w']) simp
  next
    case False
    have ok0: "owned ?w ext dext" using Cons.prems(3) by simp
    obtain w1 where w1: "incref b ?w = Some w1" "only_store ?w w1" "owned w1 ext (add_mset b dext)" "advanced spare 0 0 UNIV ?w w1"
      by (rule incref_adv [OF ok0 Cons.prems(6)]) (use Cons.prems(9) False q0 in \<open>simp_all\<close>)
    have q1: "queued w1 = queued w" using only_storeD(15) [OF w1(2)] q0 by simp
    obtain w2 where w2: "incref a w1 = Some w2" "only_store w1 w2" "owned w2 ext (add_mset a (add_mset b dext))" "advanced spare 0 0 UNIV w1 w2"
      by (rule incref_adv [OF w1(3), of a]) (use Cons.prems(5,9) False q1 in \<open>simp_all\<close>)
    have a2: "advanced spare 0 0 UNIV ?w w2" using advanced_trans [OF w1(4) w2(4)] by simp
    have l2: "load w2 \<le> load w" "spare (heap (wstore w)) \<le> spare (heap (wstore w2))" using advancedD(2,3) [OF a2] by simp_all
    have pd: "path = NULL \<or> path \<in> dom (strings (wstore w2))"
      using parts_okD(3) [OF strings_okD(2) [OF ownedD(1) [OF w2(3)]]] Cons.prems(4) by auto
    have room2: "roomy w2 ext 0" using Cons.prems(8) l2 by (simp add: roomy_load)
    have sp2: "spells (strings (wstore w2)) path p" using steadyD(1) [OF advancedD(1) [OF a2] UNIV_I] Cons.prems(7) by simp
    have sz: "sizeof_StringPart + length ''/'' + length (fst e) + 1 \<le> m" using Cons.prems(1) False by simp
    have c2: "0 < spare (heap (wstore w2))" using l2 Cons.prems(10) False by simp
    obtain c w3 where w3: "w_part E w2 path ''/'' (fst e) = Some (c, w3)" "only_store w2 w3" "owned w3 (add_mset c ext) (add_mset a (add_mset b dext))"
      "advanced spare 1 1 UNIV w2 w3" "spells (strings (wstore w3)) c (p @ ''/'' @ fst e)" "fdrcs (wstore w3) = fdrcs (wstore w2)"
      by (rule part_adv [OF w2(3) pd room2 sp2 E sz c2]) blast
    have a3: "advanced spare 1 1 UNIV ?w w3" using advanced_trans [OF a2 w3(4)] by simp
    have k3: "world_kept spare 1 1 UNIV H w w3"
      using world_kept_trans [OF k0 world_kept_advanced [OF a3 order.refl order.refl]] incref_view [OF w1(1)] incref_view [OF w2(1)] w3(6) by (simp add: dir_view_def)
    have os: "only_store ?w w3" by (rule only_store_trans [OF only_store_trans [OF w1(2) w2(2)] w3(2)])
    then obtain st where w3e: "w3 = ?w\<lparr>wstore := st\<rparr>" unfolding only_store_def by blast
    have q3: "queued w3 = queued w" by (simp add: w3e queued_def)
    let ?X = "add_mset c ext" and ?D = "add_mset a (add_mset b dext)"
    have "\<exists>ts w'. crawl_entries E d path a b w3 = Some (ts, w')
      \<and> owned w' (?X + task_refs ts) (?D + replicate_mset ?N a + replicate_mset ?N b)
      \<and> w' = w3\<lparr>wstore := wstore w', trace := trace w3 @ calls (map (reading is_sdir d) es @ [end_of d])\<rparr>
      \<and> world_kept spare ?N ?N UNIV H w3 w' \<and> list_all2 (names_task (wstore w') p) ts (nondot es)"
    proof (rule Cons.IH)
      show "follows E (trace w3) (map (reading is_sdir d) es @ [end_of d])" using fw by (simp add: w3e)
      show "spells (strings (wstore w3)) path p" by (rule keptD(1) [OF k3 UNIV_I Cons.prems(7)])
      show "roomy w3 ?X (2 * ?N)" using Cons.prems(8) keptD(5) [OF k3] False by (simp add: roomy_load)
      show "size (?D + q_dirs (queued w3)) + 2 * ?N < 2 ^ 64" using Cons.prems(9) False unfolding q3 by simp
      show "?N \<le> spare (heap (wstore w3))" using Cons.prems(10) keptD(4) [OF k3] False by simp
    qed (use Cons.prems(1,4) w3(3) in simp_all)
    then obtain ts w' where w': "crawl_entries E d path a b w3 = Some (ts, w')"
      "owned w' (?X + task_refs ts) (?D + replicate_mset ?N a + replicate_mset ?N b)"
      "w' = w3\<lparr>wstore := wstore w', trace := trace w3 @ calls (map (reading is_sdir d) es @ [end_of d])\<rparr>"
      "world_kept spare ?N ?N UNIV H w3 w'" "list_all2 (names_task (wstore w') p) ts (nondot es)" by blast
    define x where "x = \<lparr>dt_path = c, dt_isDir = (out_type r = DT_DIR)\<rparr>"
    have "crawl_entries E d path a b w = Some (x # ts, w')"
      using w'(1) r(1,2) False w1(1) w2(1) w3(1) by (subst crawl_entries.simps) (simp add: sys_def r_def x_def)
    moreover have "names_task (wstore w') p x e"
      using keptD(1) [OF w'(4) UNIV_I w3(5)] r(3) False by (simp add: names_task_def x_def)
    moreover have "w' = w\<lparr>wstore := wstore w', trace := trace w @ calls (map (reading is_sdir d) (e # es) @ [end_of d])\<rparr>"
      by (subst w'(3)) (simp add: w3e)
    moreover have "owned w' (ext + task_refs (x # ts)) (dext + replicate_mset (Suc ?N) a + replicate_mset (Suc ?N) b)"
      using w'(2) by (simp add: x_def ac_simps)
    ultimately show ?thesis using w'(5) world_kept_trans [OF k3 w'(4)] False by (intro exI [of _ "x # ts"] exI [of _ w']) simp
  qed
qed

end

end
