(* ===== verification/Walk_Tree.thy ===== *)
theory Walk_Tree
  imports Walk_Dirs
begin

text \<open>
  The walk over a whole tree: every task of a directory does its part, and the parts add up.
\<close>

section \<open>Tasks\<close>

lemma taken_descriptors: "taken x \<le> descriptors x"
proof (induction x rule: taken.induct)
  case (2 st fd dup dst es)
  then have "(\<Sum>e\<leftarrow>nondot es. taken (snd e)) \<le> (\<Sum>e\<leftarrow>nondot es. descriptors (snd e))" by (intro sum_list_mono) blast
  then show ?case by simp
qed simp

definition walk_ready :: "'db world \<Rightarrow> nat \<Rightarrow> bool" where
  "walk_ready w k \<longleftrightarrow> buf_ready w Dir_remote k \<and> buf_ready w NonDir_remote k \<and> buf_ready w NonDir_partial k \<and> in_range w"

lemma walk_ready_after: "walk_ready w k \<Longrightarrow> walked_by E spare i l ext H dir w w' cs fs n u \<Longrightarrow> walk_ready w' k"
  using walked_byD(4,5) [of E spare i l ext H dir w w' cs fs n u] keptD(3) [of spare i l _ H w w'] unfolding walk_ready_def by blast

text \<open>
  What is promised of a task for \<open>x\<close>: while its two directories are held by somebody else, it makes the
  calls of the walk over \<open>x\<close>, queues its files and gives back its own references.
\<close>

definition walks :: "'db program \<Rightarrow> (allocator \<Rightarrow> nat) \<Rightarrow> nat \<Rightarrow> addr set \<Rightarrow> addr \<Rightarrow> addr \<Rightarrow> int \<Rightarrow> int
    \<Rightarrow> ('db world \<Rightarrow> (int \<times> 'db world) option) \<Rightarrow> addr \<Rightarrow> string \<Rightarrow> stree \<Rightarrow> bool" where
  "walks E spare k H src ref sfd dfd f path p x \<longleftrightarrow> (\<forall>w ext dext.
     owned w (add_mset path ext) (add_mset ref (add_mset src dext)) \<longrightarrow> {src, ref} \<union> H \<subseteq> set_mset dext
     \<longrightarrow> spells (strings (wstore w)) path p \<longrightarrow> walk_ready w k \<longrightarrow> fd_of w src = Some sfd \<longrightarrow> fd_of w ref = Some dfd
     \<longrightarrow> descriptors x \<le> fdSem w \<longrightarrow> roomy w (add_mset path ext) (effort x) \<longrightarrow> size (dext + q_dirs (queued w)) + effort x < 2 ^ 64
     \<longrightarrow> memory x \<le> spare (heap (wstore w)) \<longrightarrow> follows E (trace w) (walk E sfd dfd p x)
     \<longrightarrow> (\<exists>w'. f w = Some (0, w') \<and> owned w' ext dext
           \<and> walked_by E spare (memory x) (effort x) ext H ref w w' (calls (walk E sfd dfd p x)) (files E p x) (dirs x) (int (taken x))))"

lemma walksD:
  assumes "walks E spare k H src ref sfd dfd f path p x" "owned w (add_mset path ext) (add_mset ref (add_mset src dext))"
    "{src, ref} \<union> H \<subseteq> set_mset dext" "spells (strings (wstore w)) path p" "walk_ready w k" "fd_of w src = Some sfd" "fd_of w ref = Some dfd"
    "descriptors x \<le> fdSem w" "roomy w (add_mset path ext) (effort x)" "size (dext + q_dirs (queued w)) + effort x < 2 ^ 64"
    "memory x \<le> spare (heap (wstore w))" "follows E (trace w) (walk E sfd dfd p x)"
  obtains w' where "f w = Some (0, w')" "owned w' ext dext"
    "walked_by E spare (memory x) (effort x) ext H ref w w' (calls (walk E sfd dfd p x)) (files E p x) (dirs x) (int (taken x))"
  using assms unfolding walks_def by blast

context room
begin

lemma file_walks:
  fixes E :: "'db program"
  assumes E: "tid E = t" "sizeof_StringPart + k + 1 \<le> m" and pl: "plain dev k p (File st dest a b)"
  shows "walks E spare k H src ref sfd dfd (processNonDir E path src ref) path p (File st dest a b)"
  unfolding walks_def
proof (intro allI impI)
  fix w :: "'db world" and ext dext
  assume ok: "owned w (add_mset path ext) (add_mset ref (add_mset src dext))" and H: "{src, ref} \<union> H \<subseteq> set_mset dext"
    and sp: "spells (strings (wstore w)) path p" and r: "walk_ready w k" and fd: "fd_of w src = Some sfd" "fd_of w ref = Some dfd"
    and n: "descriptors (File st dest a b) \<le> fdSem w" "roomy w (add_mset path ext) (effort (File st dest a b))"
      "size (dext + q_dirs (queued w)) + effort (File st dest a b) < 2 ^ 64" "memory (File st dest a b) \<le> spare (heap (wstore w))"
    and f: "follows E (trace w) (walk E sfd dfd p (File st dest a b))"
  have "\<exists>w'. processNonDir E path src ref w = Some (0, w') \<and> owned w' ext dext
    \<and> walked_by E spare 1 6 ext H ref w w' (calls (walk E sfd dfd p (File st dest a b))) [(p, File st dest a b)] 0
        (if changed (File st dest a b) then 2 else 0)"
    by (rule file_walked [OF E ok _ _ sp fd pl _ _ n(1) _ _ _ _ _ f])
      (use r n H in \<open>simp_all add: walk_ready_def\<close>)
  then obtain w' where w': "processNonDir E path src ref w = Some (0, w')" "owned w' ext dext"
    "walked_by E spare 1 6 ext H ref w w' (calls (walk E sfd dfd p (File st dest a b))) [(p, File st dest a b)] 0
        (if changed (File st dest a b) then 2 else 0)" by blast
  have "walked_by E spare 1 8 ext H ref w w' (calls (walk E sfd dfd p (File st dest a b))) [(p, File st dest a b)] 0
        (if changed (File st dest a b) then 2 else 0)" by (rule walked_by_mono [OF w'(3)]) simp_all
  then show "\<exists>w'. processNonDir E path src ref w = Some (0, w') \<and> owned w' ext dext
    \<and> walked_by E spare (memory (File st dest a b)) (effort (File st dest a b)) ext H ref w w' (calls (walk E sfd dfd p (File st dest a b)))
        (files E p (File st dest a b)) (dirs (File st dest a b)) (int (taken (File st dest a b)))"
    using w'(1,2) by (intro exI [of _ w']) (simp add: if_distrib del: walk.simps changed.simps cong: if_cong)
qed

end

lemma run_walks:
  assumes "list_all2 (\<lambda>x y. walks E spare k H a b sfd dfd (g x) (dt_path x) (p @ ''/'' @ fst y) (snd y)) ts ys"
    "list_all2 (names_task (wstore w) p) ts ys"
    "owned w (ext + task_refs ts) (dext + replicate_mset (length ts) a + replicate_mset (length ts) b)" "H \<subseteq> set_mset dext" "a \<in> H" "b \<in> H"
    "walk_ready w k" "fd_of w a = Some sfd" "fd_of w b = Some dfd" "(\<Sum>y\<leftarrow>ys. descriptors (snd y)) \<le> fdSem w"
    "roomy w (ext + task_refs ts) (\<Sum>y\<leftarrow>ys. effort (snd y))" "size (dext + q_dirs (queued w)) + 2 * length ts + (\<Sum>y\<leftarrow>ys. effort (snd y)) < 2 ^ 64"
    "(\<Sum>y\<leftarrow>ys. memory (snd y)) \<le> spare (heap (wstore w))"
    "follows E (trace w) (concat (map (\<lambda>y. walk E sfd dfd (p @ ''/'' @ fst y) (snd y)) ys))"
  shows "\<exists>w'. run_tasks (\<lambda>x w. map_option snd (g x w)) ts w = Some w' \<and> owned w' ext dext
    \<and> walked_by E spare (\<Sum>y\<leftarrow>ys. memory (snd y)) (\<Sum>y\<leftarrow>ys. effort (snd y)) ext H b w w'
        (calls (concat (map (\<lambda>y. walk E sfd dfd (p @ ''/'' @ fst y) (snd y)) ys)))
        (concat (map (\<lambda>y. files E (p @ ''/'' @ fst y) (snd y)) ys)) (\<Sum>y\<leftarrow>ys. dirs (snd y)) (int (\<Sum>y\<leftarrow>ys. taken (snd y)))"
  using assms
proof (induction ts ys arbitrary: w rule: list_all2_induct)
  case Nil
  have c: "in_range w" using Nil.prems(6) by (simp add: walk_ready_def)
  have "walked_by E spare 0 0 ext H b w w [] [] 0 0" by (rule calls_walked [OF c, of w "[]" "fdSem w"]) simp_all
  then show ?case using Nil.prems(2) by simp
next
  case (Cons x ts y ys)
  let ?X = "ext + task_refs ts" and ?D = "dext + replicate_mset (length ts) a + replicate_mset (length ts) b"
  let ?q = "p @ ''/'' @ fst y" and ?y = "snd y"
  let ?W = "walk E sfd dfd ?q ?y" and ?Ws = "concat (map (\<lambda>y. walk E sfd dfd (p @ ''/'' @ fst y) (snd y)) ys)"
  have ok: "owned w (add_mset (dt_path x) ?X) (add_mset b (add_mset a ?D))"
    using Cons.prems(2) by (simp add: ac_simps add_mset_commute)
  have sp: "spells (strings (wstore w)) (dt_path x) ?q" using Cons.prems(1) by (simp add: names_task_def)
  have HD: "{a, b} \<union> H \<subseteq> set_mset ?D" using Cons.prems(3-5) by auto
  have f: "follows E (trace w) ?W" "follows E (trace w @ calls ?W) ?Ws" using Cons.prems(13) by (simp_all add: follows_append)
  obtain w1 where w1: "g x w = Some (0, w1)" "owned w1 ?X ?D"
    "walked_by E spare (memory ?y) (effort ?y) ?X H b w w1 (calls ?W) (files E ?q ?y) (dirs ?y) (int (taken ?y))"
    by (rule walksD [OF Cons.hyps(1) ok HD sp Cons.prems(6,7,8) _ _ _ _ f(1)])
      (use Cons.prems(9-12) in \<open>simp_all add: roomy_load\<close>)
  note d = walked_byD [OF w1(3)]
  have le: "length (queued w1) \<le> length (queued w) + effort ?y" by (rule d(6))
  have "\<exists>w'. run_tasks (\<lambda>x w. map_option snd (g x w)) ts w1 = Some w' \<and> owned w' ext dext
    \<and> walked_by E spare (\<Sum>y\<leftarrow>ys. memory (snd y)) (\<Sum>y\<leftarrow>ys. effort (snd y)) ext H b w1 w' (calls ?Ws)
        (concat (map (\<lambda>y. files E (p @ ''/'' @ fst y) (snd y)) ys)) (\<Sum>y\<leftarrow>ys. dirs (snd y)) (int (\<Sum>y\<leftarrow>ys. taken (snd y)))"
  proof (rule Cons.IH)
    show "list_all2 (names_task (wstore w1) p) ts ys"
    proof (rule list.rel_mono_strong)
      show "list_all2 (names_task (wstore w) p) ts ys" using Cons.prems(1) by simp
      fix x y assume "x \<in> set ts" "names_task (wstore w) p x y"
      then show "names_task (wstore w1) p x y"
        using keptD(1) [OF d(5), of "dt_path x"] by (auto simp: names_task_def task_refs_def)
    qed
    show "fd_of w1 a = Some sfd" "fd_of w1 b = Some dfd"
      using Cons.prems(4,5,7,8) keptD(2) [OF d(5)] by (simp_all add: fd_of_view)
    show "(\<Sum>y\<leftarrow>ys. descriptors (snd y)) \<le> fdSem w1" using Cons.prems(9) d(2) taken_descriptors [of ?y] by simp
    show "roomy w1 (ext + task_refs ts) (\<Sum>y\<leftarrow>ys. effort (snd y))" using Cons.prems(10) keptD(5) [OF d(5)] by (simp add: roomy_load)
    show "size (dext + q_dirs (queued w1)) + 2 * length ts + (\<Sum>y\<leftarrow>ys. effort (snd y)) < 2 ^ 64"
      using Cons.prems(11) le by (simp add: q_dirs_def)
    show "(\<Sum>y\<leftarrow>ys. memory (snd y)) \<le> spare (heap (wstore w1))" using Cons.prems(12) keptD(4) [OF d(5)] by simp
    show "follows E (trace w1) ?Ws" using f(2) d(1) by simp
    show "walk_ready w1 k" by (rule walk_ready_after [OF Cons.prems(6) w1(3)])
  qed (use w1(2) Cons.prems(3-5) in simp_all)
  then obtain w' where w': "run_tasks (\<lambda>x w. map_option snd (g x w)) ts w1 = Some w'" "owned w' ext dext"
    "walked_by E spare (\<Sum>y\<leftarrow>ys. memory (snd y)) (\<Sum>y\<leftarrow>ys. effort (snd y)) ext H b w1 w' (calls ?Ws)
        (concat (map (\<lambda>y. files E (p @ ''/'' @ fst y) (snd y)) ys)) (\<Sum>y\<leftarrow>ys. dirs (snd y)) (int (\<Sum>y\<leftarrow>ys. taken (snd y)))" by blast
  have "walked_by E spare (memory ?y) (effort ?y) ext H b w w1 (calls ?W) (files E ?q ?y) (dirs ?y) (int (taken ?y))"
    by (rule walked_by_mono [OF w1(3)]) simp_all
  from walked_by_trans [OF this w'(3)] show ?case using w1(1) w'(1,2) by (intro exI [of _ w']) simp
qed

section \<open>Inside a directory\<close>

lemma view_SomeE:
  assumes "dir_view (wstore w') p = dir_view (wstore w) p" "fdrcs (wstore w) p = Some f"
  obtains f' where "fdrcs (wstore w') p = Some f'" "fdrc_fd f' = fdrc_fd f" "fdrc_dst f' = fdrc_dst f"
proof -
  obtain f' where f': "fdrcs (wstore w') p = Some f'" "f'\<lparr>fdrc_rc := 0\<rparr> = f\<lparr>fdrc_rc := 0\<rparr>"
    using assms by (auto simp: dir_view_def)
  have "fdrc_fd (f'\<lparr>fdrc_rc := 0\<rparr>) = fdrc_fd (f\<lparr>fdrc_rc := 0\<rparr>)" "fdrc_dst (f'\<lparr>fdrc_rc := 0\<rparr>) = fdrc_dst (f\<lparr>fdrc_rc := 0\<rparr>)"
    by (simp_all only: f'(2))
  then show thesis using that f'(1) by simp
qed

lemma in_order_sum: "orders E \<Longrightarrow> sum_list (map f (in_order E xs)) = sum_list (map f xs)" for f :: "'a \<Rightarrow> nat"
proof -
  assume "orders E"
  then have "mset (map f (in_order E xs)) = mset (map f xs)" using in_order_mset [of E xs] by simp
  then show ?thesis by (metis sum_mset_sum_list)
qed

definition scan :: "'db program \<Rightarrow> addr \<Rightarrow> addr \<Rightarrow> addr \<Rightarrow> int \<Rightarrow> (dir_task \<Rightarrow> 'db world \<Rightarrow> (int \<times> 'db world) option) \<Rightarrow> 'db world
    \<Rightarrow> (int \<times> 'db world) option" where
  "scan E path a b fd g w = (case fdopendir_wrapper E w fd of
      (None, w) \<Rightarrow> Some (-1, w)
    | (Some dir, w) \<Rightarrow> do {
        (ts, w) \<leftarrow> crawl_entries E dir path a b w;
        w \<leftarrow> run_tasks (\<lambda>t w. map_option snd (g t w)) (in_order E ts) w;
        Some (0, closedir_wrapper E w dir) })"

context room
begin

lemma scan_walked:
  fixes E :: "'db program" and es :: "(string \<times> stree) list" and p :: string and sfd dfd :: int
  defines "N \<equiv> length (nondot es)" and "M \<equiv> (\<Sum>y\<leftarrow>nondot es. memory (snd y))" and "S \<equiv> (\<Sum>y\<leftarrow>nondot es. effort (snd y))"
    and "C \<equiv> concat (in_order E (map (\<lambda>e. walk E sfd dfd (p @ ''/'' @ fst e) (snd e)) (nondot es)))"
  assumes E: "orders E" "tid E = t" and fit: "\<forall>e \<in> set (nondot es). sizeof_StringPart + length (fst e) + 2 \<le> m"
    and each: "\<And>x y. y \<in> set (nondot es) \<Longrightarrow> dt_isDir x = is_sdir (snd y) \<Longrightarrow> walks E spare k H a b sfd dfd (g x) (dt_path x) (p @ ''/'' @ fst y) (snd y)"
    and ok: "owned w X D" "path \<in># X" "spells (strings (wstore w)) path p" and H: "H \<subseteq> set_mset D" "a \<in> H" "b \<in> H"
    and r: "walk_ready w k" and fd: "fd_of w a = Some sfd" "fd_of w b = Some dfd" and sem: "(\<Sum>y\<leftarrow>nondot es. descriptors (snd y)) \<le> fdSem w"
    and room: "roomy w X (2 * N + S)" "size (D + q_dirs (queued w)) + 2 * N + S < 2 ^ 64" "N + M \<le> spare (heap (wstore w))"
    and f: "follows E (trace w) ([(Fdopendir fd, \<lambda>r. ret r \<noteq> 0)] @ map (reading is_sdir fd) es @ [end_of fd] @ C @ [(Closedir fd, \<lambda>r. True)])"
  shows "\<exists>w'. scan E path a b fd g w = Some (0, w') \<and> owned w' X D
    \<and> walked_by E spare (N + M) (N + S) X H b w w'
        (calls ([(Fdopendir fd, \<lambda>r. ret r \<noteq> 0)] @ map (reading is_sdir fd) es @ [end_of fd] @ C @ [(Closedir fd, \<lambda>r. True)]))
        (concat (in_order E (map (\<lambda>e. files E (p @ ''/'' @ fst e) (snd e)) (nondot es)))) (\<Sum>y\<leftarrow>nondot es. dirs (snd y))
        (int (\<Sum>y\<leftarrow>nondot es. taken (snd y)) - 1)"
proof -
  let ?R = "map (reading is_sdir fd) es @ [end_of fd]"
  have c: "in_range w" using r by (simp add: walk_ready_def)
  define w1 where "w1 = w\<lparr>fdSem := fdSem w, trace := trace w @ [Fdopendir fd]\<rparr>"
  have r1: "walked_by E spare 0 0 X H b w w1 [Fdopendir fd] [] 0 0" by (rule calls_walked [OF c w1_def]) simp
  have sn1: "same_names w w1" by (simp add: same_names_def w1_def queued_def)
  have f1: "ret (kernel E (trace w) (Fdopendir fd)) \<noteq> 0" "follows E (trace w1) ?R" "follows E (trace w1 @ calls ?R) C"
    using f by (simp_all add: follows_append w1_def)
  have "\<exists>ts w2. crawl_entries E fd path a b w1 = Some (ts, w2)
    \<and> owned w2 (X + task_refs ts) (D + replicate_mset N a + replicate_mset N b)
    \<and> w2 = w1\<lparr>wstore := wstore w2, trace := trace w1 @ calls ?R\<rparr>
    \<and> world_kept spare N N UNIV H w1 w2 \<and> list_all2 (names_task (wstore w2) p) ts (nondot es)"
    unfolding N_def
  proof (rule crawl_entries_ok [OF E(2) fit f1(2) _ ok(2)])
    show "owned w1 X D" using ok(1) same_namesD(1) [OF sn1] by simp
    show "a \<in># D" "b \<in># D" using H by auto
    show "spells (strings (wstore w1)) path p" using ok(3) by (simp add: w1_def)
    show "roomy w1 X (2 * length (nondot es))" using room(1) same_namesD(3) [OF sn1] by (simp add: roomy_load N_def [symmetric])
    show "size (D + q_dirs (queued w1)) + 2 * length (nondot es) < 2 ^ 64"
      using room(2) sn1 by (simp add: same_names_def N_def [symmetric])
    show "length (nondot es) \<le> spare (heap (wstore w1))" using room(3) by (simp add: w1_def N_def [symmetric])
  qed
  then obtain ts w2 where w2: "crawl_entries E fd path a b w1 = Some (ts, w2)"
    "owned w2 (X + task_refs ts) (D + replicate_mset N a + replicate_mset N b)"
    "w2 = w1\<lparr>wstore := wstore w2, trace := trace w1 @ calls ?R\<rparr>"
    "world_kept spare N N UNIV H w1 w2" "list_all2 (names_task (wstore w2) p) ts (nondot es)" by blast
  have len: "length ts = N" using list_all2_lengthD [OF w2(5)] by (simp add: N_def)
  have r2: "walked_by E spare N N X H b w1 w2 (calls ?R) [] 0 0"
  proof (rule walked_by_rest [OF world_kept_mono [OF w2(4) order.refl order.refl subset_UNIV order.refl]])
    obtain st where "w2 = w1\<lparr>wstore := st, trace := trace w1 @ calls ?R\<rparr>" using w2(3) by blast
    then show "w2 = after_walk (wstore w2) (calls ?R) [] [] [] 0 (fdSem w2) w1" "int (fdSem w2) = int (fdSem w1) - 0"
      using walked_byD(4) [OF r1] by (simp_all add: after_walk_def in_range_def)
  qed
  have r02: "walked_by E spare N N X H b w w2 (Fdopendir fd # calls ?R) [] 0 0" using walked_by_trans [OF r1 r2] by simp
  note d2 = walked_byD [OF r02]
  define zs where "zs = in_order E ts"
  define ys where "ys = in_order E (nondot es)"
  have all: "list_all2 (names_task (wstore w2) p) zs ys" unfolding zs_def ys_def by (rule in_order_all2 [OF E(1) w2(5)])
  have ys: "set ys = set (nondot es)" unfolding ys_def by (rule in_order_set [OF E(1)])
  have walks: "list_all2 (\<lambda>x y. walks E spare k H a b sfd dfd (g x) (dt_path x) (p @ ''/'' @ fst y) (snd y)) zs ys"
    by (rule list.rel_mono_strong [OF all]) (use each ys in \<open>auto simp: names_task_def\<close>)
  have tr: "task_refs zs = task_refs ts" "length zs = N"
    using in_order_mset [OF E(1), of ts] in_order_length [OF E(1), of ts] len by (simp_all add: zs_def task_refs_def)
  have sums: "(\<Sum>y\<leftarrow>ys. memory (snd y)) = M" "(\<Sum>y\<leftarrow>ys. effort (snd y)) = S"
    "(\<Sum>y\<leftarrow>ys. descriptors (snd y)) = (\<Sum>y\<leftarrow>nondot es. descriptors (snd y))" "(\<Sum>y\<leftarrow>ys. dirs (snd y)) = (\<Sum>y\<leftarrow>nondot es. dirs (snd y))"
    "(\<Sum>y\<leftarrow>ys. taken (snd y)) = (\<Sum>y\<leftarrow>nondot es. taken (snd y))"
    unfolding ys_def M_def S_def by (rule in_order_sum [OF E(1)])+
  have C: "C = concat (map (\<lambda>y. walk E sfd dfd (p @ ''/'' @ fst y) (snd y)) ys)"
    "concat (in_order E (map (\<lambda>e. files E (p @ ''/'' @ fst e) (snd e)) (nondot es))) = concat (map (\<lambda>y. files E (p @ ''/'' @ fst y) (snd y)) ys)"
    unfolding C_def ys_def by (simp_all only: in_order_map [OF E(1)])
  have fd2: "fd_of w2 a = Some sfd" "fd_of w2 b = Some dfd" using fd H keptD(2) [OF d2(5)] by (simp_all add: fd_of_view)
  have "\<exists>w3. run_tasks (\<lambda>x w. map_option snd (g x w)) zs w2 = Some w3 \<and> owned w3 X D
    \<and> walked_by E spare (\<Sum>y\<leftarrow>ys. memory (snd y)) (\<Sum>y\<leftarrow>ys. effort (snd y)) X H b w2 w3
        (calls (concat (map (\<lambda>y. walk E sfd dfd (p @ ''/'' @ fst y) (snd y)) ys)))
        (concat (map (\<lambda>y. files E (p @ ''/'' @ fst y) (snd y)) ys)) (\<Sum>y\<leftarrow>ys. dirs (snd y)) (int (\<Sum>y\<leftarrow>ys. taken (snd y)))"
  proof (rule run_walks [OF walks all _ H walk_ready_after [OF r r02] fd2])
    show "owned w2 (X + task_refs zs) (D + replicate_mset (length zs) a + replicate_mset (length zs) b)" using w2(2) by (simp add: tr)
    show "(\<Sum>y\<leftarrow>ys. descriptors (snd y)) \<le> fdSem w2" using sem d2(2) by (simp add: sums)
    show "roomy w2 (X + task_refs zs) (\<Sum>y\<leftarrow>ys. effort (snd y))"
      using room(1) keptD(5) [OF d2(5)] len unfolding tr sums by (simp add: roomy_load task_refs_def)
    show "size (D + q_dirs (queued w2)) + 2 * length zs + (\<Sum>y\<leftarrow>ys. effort (snd y)) < 2 ^ 64"
    proof -
      have "queued w2 = queued w" by (subst w2(3)) (simp add: w1_def queued_def)
      then show ?thesis using room(2) unfolding tr sums by simp
    qed
    show "(\<Sum>y\<leftarrow>ys. memory (snd y)) \<le> spare (heap (wstore w2))" using room(3) keptD(4) [OF d2(5)] unfolding sums by simp
    show "follows E (trace w2) (concat (map (\<lambda>y. walk E sfd dfd (p @ ''/'' @ fst y) (snd y)) ys))"
      using f1(3) unfolding C(1) d2(1) w1_def by simp
  qed
  then obtain w3 where w3: "run_tasks (\<lambda>x w. map_option snd (g x w)) zs w2 = Some w3" "owned w3 X D"
    "walked_by E spare M S X H b w2 w3 (calls C) (concat (in_order E (map (\<lambda>e. files E (p @ ''/'' @ fst e) (snd e)) (nondot es))))
      (\<Sum>y\<leftarrow>nondot es. dirs (snd y)) (int (\<Sum>y\<leftarrow>nondot es. taken (snd y)))"
    unfolding sums C by blast
  define w4 where "w4 = closedir_wrapper E w3 fd"
  have sn4: "same_names w3 w4" by (simp add: same_names_def w4_def closedir_wrapper_def sem_post_def sys_def queued_def)
  have w4: "w4 = w3\<lparr>fdSem := fdSem w3 + 1, trace := trace w3 @ [Closedir fd]\<rparr>" by (simp add: w4_def closedir_wrapper_def sem_post_def sys_def)
  have r4: "walked_by E spare 0 0 X H b w3 w4 [Closedir fd] [] 0 (- 1)" by (rule calls_walked [OF walked_byD(4) [OF w3(3)] w4]) simp
  have "scan E path a b fd g w = Some (0, w4)"
    using f1(1) w2(1) w3(1) by (simp add: scan_def fdopendir_wrapper_def sys_def w1_def zs_def w4_def)
  moreover have "owned w4 X D" using w3(2) same_namesD(1) [OF sn4] by simp
  ultimately show ?thesis using walked_by_trans [OF walked_by_trans [OF r02 w3(3)] r4] by (intro exI [of _ w4]) simp
qed

end

section \<open>A directory\<close>

definition entry_calls :: "int \<Rightarrow> int \<Rightarrow> string \<Rightarrow> statx \<Rightarrow> int \<Rightarrow> int \<Rightarrow> int \<Rightarrow> script" where
  "entry_calls sfd dfd p st fd dup dst =
     [(Openat sfd (base_name p) [O_RDONLY, O_DIRECTORY, O_NOATIME] 0, \<lambda>r. ret r = fd \<and> 0 \<le> fd),
      (Statx sfd (base_name p), \<lambda>r. 0 \<le> ret r \<and> out_stx r = st),
      (Mkdirat dfd (base_name p) (stx_mode st), \<lambda>r. 0 \<le> ret r \<or> errno r = EEXIST), (Dup fd, \<lambda>r. ret r = dup \<and> 0 \<le> dup),
      (Openat dfd (base_name p) [O_DIRECTORY, O_NOATIME] 0, \<lambda>r. ret r = dst \<and> 0 \<le> dst)]"

lemma entry_calls_ok:
  assumes "follows E (trace w) (entry_calls sfd dfd p st fd dup dst)" "p \<noteq> []" "3 \<le> fdSem w" "dv = None \<or> dv = Some (stx_dev st)"
  obtains w1 where "open_dir E w dv p sfd dfd = Some (Opened fd st dup, w1)"
    "openat_wrapper E w1 dfd (base_name p) [O_DIRECTORY, O_NOATIME] 0
       = Some (kernel E (trace w1) (Openat dfd (base_name p) [O_DIRECTORY, O_NOATIME] 0),
           w\<lparr>fdSem := fdSem w - 3, trace := trace w @ calls (entry_calls sfd dfd p st fd dup dst)\<rparr>)"
    "ret (kernel E (trace w1) (Openat dfd (base_name p) [O_DIRECTORY, O_NOATIME] 0)) = dst" "0 \<le> dst"
proof -
  obtain i where i: "fdSem w = Suc (Suc (Suc i))" using assms(3) by (metis add_2_eq_Suc add_Suc le_Suc_ex numeral_3_eq_3)
  let ?t1 = "trace w @ [Openat sfd (base_name p) [O_RDONLY, O_DIRECTORY, O_NOATIME] 0]"
  let ?t2 = "?t1 @ [Statx sfd (base_name p)]"
  let ?t3 = "?t2 @ [Mkdirat dfd (base_name p) (stx_mode st)]"
  let ?t4 = "?t3 @ [Dup fd]"
  have r: "ret (kernel E (trace w) (Openat sfd (base_name p) [O_RDONLY, O_DIRECTORY, O_NOATIME] 0)) = fd" "0 \<le> fd"
    "0 \<le> ret (kernel E ?t1 (Statx sfd (base_name p)))" "out_stx (kernel E ?t1 (Statx sfd (base_name p))) = st"
    "\<not> (ret (kernel E ?t2 (Mkdirat dfd (base_name p) (stx_mode st))) < 0 \<and> errno (kernel E ?t2 (Mkdirat dfd (base_name p) (stx_mode st))) \<noteq> EEXIST)"
    "ret (kernel E ?t3 (Dup fd)) = dup" "0 \<le> dup" "ret (kernel E ?t4 (Openat dfd (base_name p) [O_DIRECTORY, O_NOATIME] 0)) = dst" "0 \<le> dst"
    using assms(1) by (auto simp: entry_calls_def)
  let ?w = "w\<lparr>fdSem := Suc i, trace := ?t4\<rparr>"
  have "open_dir E w dv p sfd dfd = Some (Opened fd st dup, ?w)"
    using r(1-7) assms(2,4) i
    by (cases dv; cases "ret (kernel E ?t2 (Mkdirat dfd (base_name p) (stx_mode st))) < 0")
      (simp_all add: open_dir_def openat_wrapper_def statx_wrapper_def sem_wait_def sys_def Let_def)
  moreover have "openat_wrapper E ?w dfd (base_name p) [O_DIRECTORY, O_NOATIME] 0
       = Some (kernel E (trace ?w) (Openat dfd (base_name p) [O_DIRECTORY, O_NOATIME] 0),
           w\<lparr>fdSem := fdSem w - 3, trace := trace w @ calls (entry_calls sfd dfd p st fd dup dst)\<rparr>)"
    using r(8,9) i by (simp add: openat_wrapper_def sem_wait_def sys_def entry_calls_def)
  ultimately show thesis using that r(8,9) by simp
qed

lemma sum_plus: "(\<Sum>e\<leftarrow>xs. f e + (c :: nat)) = (\<Sum>e\<leftarrow>xs. f e) + c * length xs"
  by (induction xs) simp_all

text \<open>After the entries: the two descriptors of the directory go, the one at the destination only if no job holds it.\<close>

context room
begin

lemma leave_dir:
  assumes ok: "owned w X (add_mset b (add_mset a D))" and ab: "a \<noteq> b" "a \<notin># D" "b \<notin># D" "a \<notin># q_dirs (queued w)"
    and f: "fdrcs (wstore w) a = Some fa" "\<not> fdrc_dst fa" "fdrcs (wstore w) b = Some fb" "fdrc_dst fb"
    and room: "roomy w X 1" and c: "in_range w" and H: "H \<subseteq> set_mset D"
  shows "\<exists>w1 w'. fdrc_release E w b = Some w1 \<and> fdrc_release E w1 a = Some w' \<and> owned w' X D
    \<and> walked_by E spare 0 2 X H dir w w' [Close (fdrc_fd fa)] [] 0 (- 1)"
proof -
  have "\<exists>w1. fdrc_release E w b = Some w1 \<and> owned w1 X (add_mset a D) \<and> walked_by E spare 0 1 X (insert a H) b w w1 [] [] 0 0"
    by (rule dst_released [OF ok f(3,4) _ _ c]) (use ab room H in \<open>auto simp: roomy_load\<close>)
  then obtain w1 where w1: "fdrc_release E w b = Some w1" "owned w1 X (add_mset a D)"
    "walked_by E spare 0 1 X (insert a H) b w w1 [] [] 0 0" by blast
  note d = walked_byD [OF w1(3)]
  obtain fa' where fa': "fdrcs (wstore w1) a = Some fa'" "fdrc_fd fa' = fdrc_fd fa" "fdrc_dst fa' = fdrc_dst fa"
    by (rule view_SomeE [OF keptD(2) [OF d(5)] f(1)]) blast+
  have aq: "a \<notin># q_dirs (queued w1)" using d(8) [of a] ab by blast
  have "\<exists>w'. fdrc_release E w1 a = Some w' \<and> owned w' X D \<and> walked_by E spare 0 1 X H dir w1 w' [Close (fdrc_fd fa')] [] 0 (- 1)"
    by (rule src_released [OF w1(2) fa'(1) _ ab(2) aq _ d(4) H]) (use fa'(3) f(2) room keptD(5) [OF d(5)] in \<open>simp_all add: roomy_load\<close>)
  then obtain w' where w': "fdrc_release E w1 a = Some w'" "owned w' X D" "walked_by E spare 0 1 X H dir w1 w' [Close (fdrc_fd fa')] [] 0 (- 1)" by blast
  have "walked_by E spare 0 1 X H dir w w1 [] [] 0 0" by (rule walked_by_inner [OF w1(3)]) (use H ab in auto)
  from walked_by_mono [OF walked_by_trans [OF this w'(3)]] have "walked_by E spare 0 2 X H dir w w' [Close (fdrc_fd fa)] [] 0 (- 1)"
    by (simp add: fa'(2))
  then show ?thesis using w1(1) w'(1,2) by blast
qed

text \<open>Before the entries: the directory is opened on both sides, and its two descriptors are counted.\<close>

lemma enter_dir:
  fixes E :: "'db program"
  defines "f \<equiv> \<lambda>path dup. \<lparr>fdrc_rc = 1, fdrc_fd = dup, fdrc_path = path, fdrc_dst = False, fdrc_srcStx = zero_statx\<rparr>"
    and "g \<equiv> \<lambda>path dst st. \<lparr>fdrc_rc = 1, fdrc_fd = dst, fdrc_path = path, fdrc_dst = True, fdrc_srcStx = st\<rparr>"
  assumes E: "tid E = t" "sizeof_FDRC \<le> m" and ok: "owned w (add_mset path ext) D" and H: "H \<subseteq> set_mset D"
    and sp: "spells (strings (wstore w)) path p" "p \<noteq> []" "length p < k" "c_name p" and r: "walk_ready w k" and dv: "dv = None \<or> dv = Some (stx_dev st)"
    and sem: "3 \<le> fdSem w" and room: "roomy w (add_mset path ext) 3" "size (D + q_dirs (queued w)) + 2 < 2 ^ 64" "2 \<le> spare (heap (wstore w))"
    and fl: "follows E (trace w) (entry_calls sfd dfd p st fd dup dst)"
  obtains w1 v res w2 a b w3 w4 where "name_text E Dir_remote w path = Some (p, w1)" "fdrcs (wstore w1) = fdrcs (wstore w)"
    "open_dir E w1 dv p sfd dfd = Some (Opened fd st dup, v)" "openat_wrapper E v dfd (base_name p) [O_DIRECTORY, O_NOATIME] 0 = Some (res, w2)"
    "ret res = dst" "0 \<le> dst" "new_dir E w2 path dup dst st = Some (a, b, w3)" "w4 = (add_seen w3)\<lparr>n_dirs := inc64 (n_dirs w3)\<rparr>"
    "owned w4 (add_mset path ext) (add_mset b (add_mset a D))" "a \<noteq> b" "a \<notin># D + q_dirs (queued w)" "b \<notin># D + q_dirs (queued w)"
    "fdrcs (wstore w4) a = Some (f path dup)" "fdrcs (wstore w4) b = Some (g path dst st)" "queued w4 = queued w"
    "walked_by E spare 2 2 (add_mset path ext) H ref w w4 (calls (entry_calls sfd dfd p st fd dup dst)) [] 1 3"
proof -
  let ?X = "add_mset path ext" and ?cs = "calls (entry_calls sfd dfd p st fd dup dst)"
  have c: "in_range w" and b: "buf_ready w Dir_remote k" using r by (simp_all add: walk_ready_def)
  obtain w1 where w1: "name_text E Dir_remote w path = Some (p, w1)" "only_store w w1" "owned w1 ?X D" "advanced spare 0 0 UNIV w w1"
    "fdrcs (wstore w1) = fdrcs (wstore w)" by (rule text_adv [OF ok b sp(1,3,4)]) blast
  have r1: "walked_by E spare 0 0 ?X H ref w w1 [] [] 0 0"
    by (rule store_walked [OF w1(2) world_kept_advanced [OF w1(4) order.refl order.refl view_same [OF w1(5)]] c]) simp
  note on1 = only_storeD [OF w1(2)]
  have f1: "follows E (trace w1) (entry_calls sfd dfd p st fd dup dst)" using fl unfolding on1(1) .
  have s3: "3 \<le> fdSem w1" using sem on1(2) by simp
  define w2 where "w2 = w1\<lparr>fdSem := fdSem w1 - 3, trace := trace w1 @ ?cs\<rparr>"
  obtain v where v: "open_dir E w1 dv p sfd dfd = Some (Opened fd st dup, v)"
    "openat_wrapper E v dfd (base_name p) [O_DIRECTORY, O_NOATIME] 0
       = Some (kernel E (trace v) (Openat dfd (base_name p) [O_DIRECTORY, O_NOATIME] 0), w2)"
    "ret (kernel E (trace v) (Openat dfd (base_name p) [O_DIRECTORY, O_NOATIME] 0)) = dst" "0 \<le> dst"
    by (rule entry_calls_ok [OF f1 sp(2) s3 dv, folded w2_def]) blast
  have r2: "walked_by E spare 0 0 ?X H ref w1 w2 ?cs [] 0 3" by (rule calls_walked [OF walked_byD(4) [OF r1] w2_def]) (use s3 in simp)
  have r02: "walked_by E spare 0 0 ?X H ref w w2 ?cs [] 0 3" using walked_by_trans [OF r1 r2] by simp
  note d2 = walked_byD [OF r02]
  have sn2: "same_names w1 w2" by (simp add: same_names_def w2_def queued_def)
  have ok2: "owned w2 ?X D" using w1(3) same_namesD(1) [OF sn2] by simp
  have q2: "queued w2 = queued w" using sn2 on1(15) by (simp add: same_names_def)
  have px: "path \<in># ?X" by simp
  have fg: "fdrc_rc (f path dup) = 1" "fdrc_path (f path dup) = path" "fdrc_rc (g path dst st) = 1" "fdrc_path (g path dst st) = path"
    by (simp_all add: f_def g_def)
  obtain a b w3 where w3: "new_dir E w2 path dup dst st = Some (a, b, w3)" "only_store w2 w3" "owned w3 ?X (add_mset b (add_mset a D))"
    "world_kept spare 2 2 UNIV H w2 w3" "a \<noteq> b" "fdrcs (wstore w2) a = None" "fdrcs (wstore w2) b = None"
    "fdrcs (wstore w3) a = Some (f path dup)" "fdrcs (wstore w3) b = Some (g path dst st)"
    unfolding new_dir_two f_def [symmetric] g_def [symmetric]
  proof (rule two_dirs_ok [OF ok2 px E _ _ _ H fg])
    show "2 \<le> spare (heap (wstore w2))" using room(3) keptD(4) [OF d2(5)] by simp
    show "roomy w2 ?X 3" using room(1) keptD(5) [OF d2(5)] by (simp add: roomy_load)
    show "size (D + q_dirs (queued w2)) + 2 < 2 ^ 64" using room(2) unfolding q2 by simp
  qed (unfold f_def g_def, blast)
  have fresh: "a \<notin># D + q_dirs (queued w)" "b \<notin># D + q_dirs (queued w)"
    using dirs_okD(1) [OF ownedD(2) [OF ok2]] w3(6,7) unfolding q2 by blast+
  define w4 where "w4 = (add_seen w3)\<lparr>n_dirs := inc64 (n_dirs w3)\<rparr>"
  have r3: "walked_by E spare 2 2 ?X H ref w2 w3 [] [] 0 0" by (rule store_walked [OF w3(2,4) d2(4)]) simp
  have r4: "walked_by E spare 0 0 ?X H ref w3 w4 [] [] 1 0" by (rule dirs_walked [OF walked_byD(4) [OF r3] w4_def])
  have r04: "walked_by E spare 2 2 ?X H ref w w4 ?cs [] 1 3"
    using walked_by_trans [OF r02 walked_by_trans [OF r3 r4, unfolded append_Nil add_0 add_0_right], unfolded append_Nil append_Nil2 add_0 add_0_right] .
  have sn4: "same_names w3 w4" by (simp add: same_names_def w4_def add_seen_def queued_def)
  have q4: "queued w4 = queued w" using sn4 only_storeD(15) [OF w3(2)] q2 by (simp add: same_names_def)
  show thesis
    by (rule that [OF w1(1,5) v(1,2) v(3,4) w3(1) w4_def _ w3(5) fresh _ _ q4 r04]) (use w3(3,8,9) sn4 same_namesD(1) [OF sn4] in \<open>simp_all add: same_names_def\<close>)
qed

text \<open>What one entry of a directory does when its directories are walked as \<open>walks\<close> says.\<close>

lemma entry_walks:
  fixes E :: "'db program"
  assumes E: "tid E = t" "sizeof_StringPart + k + 1 \<le> m"
    and pl: "plain dev k p y" and x: "dt_isDir x = is_sdir y"
    and IH: "is_sdir y \<Longrightarrow> walks E spare k H a b dup dst (processDir n E (Some dev) (dt_path x) a b) (dt_path x) p y"
  shows "walks E spare k H a b dup dst (\<lambda>w. if dt_isDir x then processDir n E (Some dev) (dt_path x) a b w else processNonDir E (dt_path x) a b w) (dt_path x) p y"
proof (cases y)
  case (File st' dest' a' b')
  then show ?thesis using file_walks [OF E pl [unfolded File]] x by simp
next
  case (Dir st' fd' dup' dst' es')
  then show ?thesis using IH x by simp
qed

lemma dir_walks:
  fixes E :: "'db program"
  assumes E: "orders E" "tid E = t" "sizeof_StringPart + k + 1 \<le> m" "sizeof_FDRC \<le> m" "\<not> sync (opts E)"
    and pl: "plain dev k p (Dir st fd dup dst es)" and dv: "dv = None \<or> dv = Some dev"
    and IH: "\<And>src ref sfd dfd path q H x. plain dev k q x \<Longrightarrow> is_sdir x \<Longrightarrow> x \<in> snd ` set es \<Longrightarrow>
      walks E spare k H src ref sfd dfd (processDir n E (Some dev) path src ref) path q x"
  shows "walks E spare k H src ref sfd dfd (processDir (Suc n) E dv path src ref) path p (Dir st fd dup dst es)"
  unfolding walks_def
proof (intro allI impI)
  let ?x = "Dir st fd dup dst es" and ?es = "nondot es"
  define N where "N = length ?es"
  define M where "M = (\<Sum>y\<leftarrow>?es. memory (snd y))"
  define S where "S = (\<Sum>y\<leftarrow>?es. effort (snd y))"
  let ?C = "concat (in_order E (map (\<lambda>e. walk E dup dst (p @ ''/'' @ fst e) (snd e)) ?es))"
  let ?F = "concat (in_order E (map (\<lambda>e. files E (p @ ''/'' @ fst e) (snd e)) ?es))"
  let ?in = "[(Fdopendir fd, \<lambda>r. ret r \<noteq> 0)] @ map (reading is_sdir fd) es @ [end_of fd] @ ?C @ [(Closedir fd, \<lambda>r. True)]"
  have W: "walk E sfd dfd p ?x = entry_calls sfd dfd p st fd dup dst @ ?in @ [(Close dup, \<lambda>r. True)]" by (simp add: entry_calls_def)
  have mem: "memory ?x = 2 + (N + M)" "effort ?x = 12 + (4 * N + S)" by (simp_all only: memory.simps effort.simps sum_plus N_def M_def S_def)
  fix w :: "'db world" and ext dext
  let ?X = "add_mset path ext" and ?D = "add_mset ref (add_mset src dext)"
  assume ok: "owned w ?X ?D" and H: "{src, ref} \<union> H \<subseteq> set_mset dext"
    and sp: "spells (strings (wstore w)) path p" and r: "walk_ready w k" and fds: "fd_of w src = Some sfd" "fd_of w ref = Some dfd"
    and sem: "descriptors ?x \<le> fdSem w" and room: "roomy w ?X (effort ?x)" "size (dext + q_dirs (queued w)) + effort ?x < 2 ^ 64"
      "memory ?x \<le> spare (heap (wstore w))" and f: "follows E (trace w) (walk E sfd dfd p ?x)"
  have pk: "p \<noteq> []" "length p < k" "c_name p" "stx_dev st = dev" using pl by auto
  have HD: "H \<subseteq> set_mset dext" "H \<subseteq> set_mset ?D" "ref \<in># dext" "src \<in># dext" using H by auto
  have f1: "follows E (trace w) (entry_calls sfd dfd p st fd dup dst)" "follows E (trace w @ calls (entry_calls sfd dfd p st fd dup dst)) ?in"
    using f unfolding W by (simp_all add: follows_append)
  have dv': "dv = None \<or> dv = Some (stx_dev st)" and s3: "3 \<le> fdSem w" using dv sem pk(4) by auto
  have room1: "roomy w ?X 3" "size (?D + q_dirs (queued w)) + 2 < 2 ^ 64" "2 \<le> spare (heap (wstore w))"
    using room unfolding mem by (simp_all add: roomy_load)
  obtain w1 v res w2 a b w3 w4 where w1: "name_text E Dir_remote w path = Some (p, w1)" "fdrcs (wstore w1) = fdrcs (wstore w)"
    and v: "open_dir E w1 dv p sfd dfd = Some (Opened fd st dup, v)" "openat_wrapper E v dfd (base_name p) [O_DIRECTORY, O_NOATIME] 0 = Some (res, w2)"
      "ret res = dst" "0 \<le> dst"
    and w3: "new_dir E w2 path dup dst st = Some (a, b, w3)" and w4: "w4 = (add_seen w3)\<lparr>n_dirs := inc64 (n_dirs w3)\<rparr>"
    and ok4: "owned w4 ?X (add_mset b (add_mset a ?D))" and ab: "a \<noteq> b" and fresh: "a \<notin># ?D + q_dirs (queued w)" "b \<notin># ?D + q_dirs (queued w)"
    and fd4: "fdrcs (wstore w4) a = Some \<lparr>fdrc_rc = 1, fdrc_fd = dup, fdrc_path = path, fdrc_dst = False, fdrc_srcStx = zero_statx\<rparr>"
      "fdrcs (wstore w4) b = Some \<lparr>fdrc_rc = 1, fdrc_fd = dst, fdrc_path = path, fdrc_dst = True, fdrc_srcStx = st\<rparr>"
    and q4: "queued w4 = queued w" and r04: "walked_by E spare 2 2 ?X H ref w w4 (calls (entry_calls sfd dfd p st fd dup dst)) [] 1 3"
    by (rule enter_dir [OF E(2,4) ok HD(2) sp pk(1-3) r dv' s3 room1 f1(1)]) blast
  note d4 = walked_byD [OF r04]
  let ?H = "insert a (insert b H)" and ?DD = "add_mset b (add_mset a ?D)"
  define g where "g = (\<lambda>(x :: dir_task) w. if dt_isDir x then processDir n E (Some (stx_dev st)) (dt_path x) a b w else processNonDir E (dt_path x) a b w)"
  have each: "walks E spare k ?H a b dup dst (g x) (dt_path x) (p @ ''/'' @ fst y) (snd y)"
    if y: "y \<in> set ?es" and x: "dt_isDir x = is_sdir (snd y)" for x :: dir_task and y
  proof -
    have py: "plain dev k (p @ ''/'' @ fst y) (snd y)" using pl y by simp
    have "snd y \<in> snd ` set es" using y by (intro imageI) simp
    then show ?thesis unfolding g_def pk(4) using entry_walks [OF E(2,3) py x IH [OF py]] by simp
  qed
  have fit: "\<forall>e \<in> set ?es. sizeof_StringPart + length (fst e) + 2 \<le> m"
  proof
    fix e assume "e \<in> set ?es"
    then have "plain dev k (p @ ''/'' @ fst e) (snd e)" using pl by simp
    then show "sizeof_StringPart + length (fst e) + 2 \<le> m" using plain_name E(3) by fastforce
  qed
  have of4: "fd_of w4 a = Some dup" "fd_of w4 b = Some dst" using fd4 by (simp_all add: fd_of_def)
  have "\<exists>w5. scan E path a b fd g w4 = Some (0, w5) \<and> owned w5 ?X ?DD
    \<and> walked_by E spare (N + M) (N + S) ?X ?H b w4 w5 (calls ?in) ?F (\<Sum>y\<leftarrow>?es. dirs (snd y)) (int (\<Sum>y\<leftarrow>?es. taken (snd y)) - 1)"
    unfolding N_def M_def S_def
  proof (rule scan_walked [OF E(1,2) fit each ok4 _ _ _ _ _ walk_ready_after [OF r r04] of4])
    show "spells (strings (wstore w4)) path p" by (rule keptD(1) [OF d4(5) _ sp]) simp
    show "?H \<subseteq> set_mset ?DD" using HD(2) by auto
    show "(\<Sum>y\<leftarrow>?es. descriptors (snd y)) \<le> fdSem w4" using sem d4(2) by simp
    show "roomy w4 ?X (2 * length ?es + (\<Sum>y\<leftarrow>?es. effort (snd y)))"
      using room(1) keptD(5) [OF d4(5)] unfolding mem N_def [symmetric] S_def [symmetric] by (simp add: roomy_load)
    show "size (?DD + q_dirs (queued w4)) + 2 * length ?es + (\<Sum>y\<leftarrow>?es. effort (snd y)) < 2 ^ 64"
      using room(2) unfolding q4 mem N_def [symmetric] S_def [symmetric] by simp
    show "length ?es + (\<Sum>y\<leftarrow>?es. memory (snd y)) \<le> spare (heap (wstore w4))"
      using room(3) keptD(4) [OF d4(5)] unfolding mem N_def [symmetric] M_def [symmetric] by simp
    show "follows E (trace w4) ?in" using f1(2) d4(1) by simp
  qed simp_all
  then obtain w5 where w5: "scan E path a b fd g w4 = Some (0, w5)" "owned w5 ?X ?DD"
    "walked_by E spare (N + M) (N + S) ?X ?H b w4 w5 (calls ?in) ?F (\<Sum>y\<leftarrow>?es. dirs (snd y)) (int (\<Sum>y\<leftarrow>?es. taken (snd y)) - 1)" by blast
  note d5 = walked_byD [OF w5(3)]
  have r5: "walked_by E spare (N + M) (N + S) ?X H ref w4 w5 (calls ?in) ?F (\<Sum>y\<leftarrow>?es. dirs (snd y)) (int (\<Sum>y\<leftarrow>?es. taken (snd y)) - 1)"
    by (rule walked_by_inner [OF w5(3)]) (use HD(2) fresh in auto)
  obtain fa where fa: "fdrcs (wstore w5) a = Some fa" "fdrc_fd fa = dup" "\<not> fdrc_dst fa"
    by (rule view_SomeE [OF keptD(2) [OF d5(5), of a] fd4(1)]) auto
  obtain fb where fb: "fdrcs (wstore w5) b = Some fb" "fdrc_dst fb"
    by (rule view_SomeE [OF keptD(2) [OF d5(5), of b] fd4(2)]) auto
  have aq: "a \<notin># q_dirs (queued w5)" using d5(8) [of a] ab fresh(1) unfolding q4 by auto
  have room5: "roomy w5 ?X 1" using room(1) keptD(5) [OF d4(5)] keptD(5) [OF d5(5)] unfolding mem by (simp add: roomy_load)
  have "\<exists>w6 w7. fdrc_release E w5 b = Some w6 \<and> fdrc_release E w6 a = Some w7 \<and> owned w7 ?X ?D
    \<and> walked_by E spare 0 2 ?X H ref w5 w7 [Close (fdrc_fd fa)] [] 0 (- 1)"
    by (rule leave_dir [OF w5(2) ab _ _ aq fa(1,3) fb room5 d5(4) HD(2)]) (use fresh in simp_all)
  then obtain w6 w7 where w7: "fdrc_release E w5 b = Some w6" "fdrc_release E w6 a = Some w7" "owned w7 ?X ?D"
    "walked_by E spare 0 2 ?X H ref w5 w7 [Close dup] [] 0 (- 1)" using fa(2) by auto
  have r07: "walked_by E spare (2 + (N + M) + 0) (2 + (N + S) + 2) ?X H ref w w7 (calls (entry_calls sfd dfd p st fd dup dst) @ calls ?in @ [Close dup]) ?F
      (1 + (\<Sum>y\<leftarrow>?es. dirs (snd y))) (3 + (int (\<Sum>y\<leftarrow>?es. taken (snd y)) - 1) + (- 1))"
    using walked_by_trans [OF walked_by_trans [OF r04 r5] w7(4)] by simp
  note d7 = walked_byD [OF r07]
  have room7: "roomy w7 ?X 1" using room(1) keptD(5) [OF d7(5)] unfolding mem by (simp add: roomy_load)
  obtain w8 w9 w' where w': "fdrc_release E w7 ref = Some w8" "fdrc_release E w8 src = Some w9" "drop_part w9 path = Some w'" "owned w' ext dext"
    "walked_by E spare 0 2 ext H ref w7 w' [] [] 0 0"
    using give_back [OF w7(3) HD(3,4) room7 d7(4) HD(1)] by blast
  have sub: "ext \<subseteq># ?X" by (simp add: subset_mset.le_iff_add)
  have "walked_by E spare (memory ?x) (effort ?x) ext H ref w w' (calls (walk E sfd dfd p ?x)) (files E p ?x) (dirs ?x) (int (taken ?x))"
    using walked_by_mono [OF walked_by_trans [OF walked_by_mono [OF r07 order.refl order.refl sub] w'(5)], of "memory ?x" "effort ?x" ext]
    unfolding mem W by (simp add: algebra_simps)
  moreover obtain fs fr where "fdrcs (wstore w) src = Some fs" "fdrc_fd fs = sfd" "fdrcs (wstore w) ref = Some fr" "fdrc_fd fr = dfd"
    using fds by (auto simp: fd_of_def)
  then have "processDir (Suc n) E dv path src ref w = Some (0, w')"
    using w1 v w3 w5(1) w7(1,2) w'(1-3) E(5)
    by (simp add: fd_of_def w4 g_def scan_def Let_def)
  ultimately show "\<exists>w'. processDir (Suc n) E dv path src ref w = Some (0, w') \<and> owned w' ext dext
    \<and> walked_by E spare (memory ?x) (effort ?x) ext H ref w w' (calls (walk E sfd dfd p ?x)) (files E p ?x) (dirs ?x) (int (taken ?x))"
    using w'(4) by blast
qed

end

section \<open>The whole tree\<close>

text \<open>The files of a tree as they stand in it.\<close>

fun leaves :: "string \<Rightarrow> stree \<Rightarrow> (string \<times> stree) list" where
  "leaves p (File st dest a b) = [(p, File st dest a b)]"
| "leaves p (Dir st fd dup dst es) = concat (map (\<lambda>e. leaves (p @ ''/'' @ fst e) (snd e)) (nondot es))"

lemma mset_concat_map: "mset (concat (map f xs)) = (\<Sum>x \<in># mset xs. mset (f x))"
  by (induction xs) simp_all

lemma mset_concat_cong: "(\<And>x. x \<in> set xs \<Longrightarrow> mset (f x) = mset (g x)) \<Longrightarrow> mset (concat (map f xs)) = mset (concat (map g xs))"
  by (induction xs) simp_all

lemma files_leaves: "orders E \<Longrightarrow> mset (files E p x) = mset (leaves p x)"
proof (induction E p x rule: files.induct)
  case (2 E p st fd dup dst es)
  let ?f = "\<lambda>e. files E (p @ ''/'' @ fst e) (snd e)"
  have "mset (files E p (Dir st fd dup dst es)) = mset (concat (map ?f (nondot es)))"
    using in_order_mset [OF 2(2), of "nondot es"] unfolding files.simps in_order_map [OF 2(2)] mset_concat_map by simp
  also have "\<dots> = mset (leaves p (Dir st fd dup dst es))"
    unfolding leaves.simps by (rule mset_concat_cong) (rule 2(1) [OF _ 2(2)])
  finally show ?case .
qed simp

context room
begin

lemma tree_walks:
  fixes E :: "'db program"
  assumes E: "orders E" "tid E = t" "sizeof_StringPart + k + 1 \<le> m" "sizeof_FDRC \<le> m" "\<not> sync (opts E)"
    and "plain dev k p x" "is_sdir x" "depth_of x \<le> n" "dv = None \<or> dv = Some dev"
  shows "walks E spare k H src ref sfd dfd (processDir n E dv path src ref) path p x"
  using assms(6-)
proof (induction n arbitrary: x p dv H src ref sfd dfd path)
  case 0
  then show ?case by (cases x) simp_all
next
  case (Suc n)
  obtain st fd dup dst es where x: "x = Dir st fd dup dst es" using Suc.prems(2) by (cases x) simp_all
  show ?case
    unfolding x
  proof (rule dir_walks [OF E Suc.prems(1) [unfolded x] Suc.prems(4)])
    fix src ref sfd dfd path q H y
    assume y: "plain dev k q y" "is_sdir y" "y \<in> snd ` set es"
    then obtain e where "e \<in> set es" "y = snd e" by blast
    then have "depth_of y \<le> n" using depth_child [of e es st fd dup dst] Suc.prems(3) x by simp
    then show "walks E spare k H src ref sfd dfd (processDir n E (Some dev) path src ref) path q y"
      using Suc.IH [OF y(1,2)] by blast
  qed
qed

lemma start_walks:
  fixes E :: "'db program" and w :: "'db world"
  assumes E: "orders E" "tid E = t" "sizeof_StringPart + k + 1 \<le> m" "sizeof_FDRC \<le> m" "\<not> sync (opts E)"
    and x: "plain dev k ''.'' x" "is_sdir x" "depth_of x \<le> n"
    and ok: "owned w ext dext" "walk_ready w k" "descriptors x \<le> fdSem w" "roomy w ext (effort x + 6)"
      "size (dext + q_dirs (queued w)) + effort x + 4 < 2 ^ 64" "memory x + 3 \<le> spare (heap (wstore w))"
    and f: "follows E (trace w) (walk E (src_root E) (dst_root E) ''.'' x)"
  shows "\<exists>root a b w'. start_crawl n E w = Some (0, a, b, w') \<and> owned w' (add_mset root ext) (add_mset b (add_mset a dext))
    \<and> walked_by E spare (memory x + 3) (effort x + 3) ext {} a w w' (calls (walk E (src_root E) (dst_root E) ''.'' x))
        (files E ''.'' x) (dirs x) (int (taken x))"
proof -
  let ?W = "walk E (src_root E) (dst_root E) ''.'' x"
  have c: "in_range w" using ok(2) by (simp add: walk_ready_def)
  have n0: "NULL = NULL \<or> NULL \<in> dom (strings (wstore w))" "spells (strings (wstore w)) NULL []" by simp_all
  have m0: "sizeof_StringPart + length ''.'' + length ([] :: string) + 1 \<le> m" "0 < spare (heap (wstore w))" "roomy w ext 0"
    using E(3) ok(4,6) plain_name [OF x(1)] by (simp_all add: roomy_load)
  obtain root w1 where w1': "w_part E w NULL ''.'' [] = Some (root, w1)" "only_store w w1" "owned w1 (add_mset root ext) dext"
    "advanced spare 1 1 UNIV w w1" "spells (strings (wstore w1)) root ([] @ ''.'' @ [])" "fdrcs (wstore w1) = fdrcs (wstore w)"
    by (rule part_adv [OF ok(1) n0(1) m0(3) n0(2) E(2) m0(1,2)]) blast
  note w1 = w1'(1-4) w1'(5) [unfolded append_Nil append_Nil2] w1'(6)
  have r1: "walked_by E spare 1 1 ext {} a w w1 [] [] 0 0" for a
    by (rule store_walked [OF w1(2) world_kept_advanced [OF w1(4) order.refl order.refl view_same [OF w1(6)]] c]) simp
  have q1: "queued w1 = queued w" by (rule only_storeD(15) [OF w1(2)])
  let ?f = "\<lparr>fdrc_rc = 1, fdrc_fd = src_root E, fdrc_path = root, fdrc_dst = False, fdrc_srcStx = zero_statx\<rparr>"
    and ?g = "\<lparr>fdrc_rc = 1, fdrc_fd = dst_root E, fdrc_path = root, fdrc_dst = False, fdrc_srcStx = zero_statx\<rparr>"
  have fg: "fdrc_rc ?f = 1" "fdrc_path ?f = root" "fdrc_rc ?g = 1" "fdrc_path ?g = root" by simp_all
  have px: "root \<in># add_mset root ext" by simp
  obtain a b w2 where w2: "two_dirs E w1 root ?f ?g = Some (a, b, w2)" "only_store w1 w2" "owned w2 (add_mset root ext) (add_mset b (add_mset a dext))"
    "world_kept spare 2 2 UNIV {} w1 w2" "a \<noteq> b" "fdrcs (wstore w2) a = Some ?f" "fdrcs (wstore w2) b = Some ?g"
  proof (rule two_dirs_ok [OF w1(3) px E(2,4) _ _ _ empty_subsetI fg])
    show "2 \<le> spare (heap (wstore w1))" using ok(6) advancedD(2) [OF w1(4)] by simp
    show "roomy w1 (add_mset root ext) 3" using ok(4) advancedD(3) [OF w1(4)] by (simp add: roomy_load)
    show "size (dext + q_dirs (queued w1)) + 2 < 2 ^ 64" using ok(5) unfolding q1 by linarith
  qed blast
  have r2: "walked_by E spare 3 3 ext {} a w w2 [] [] 0 0"
    using walked_by_trans [OF r1 store_walked [OF w2(2,4) walked_byD(4) [OF r1] subset_UNIV], of a] by (simp add: numeral_3_eq_3 numeral_2_eq_2)
  have q2: "queued w2 = queued w" using only_storeD(15) [OF w2(2)] q1 by simp
  let ?D = "add_mset b (add_mset a dext)"
  have l2: "load w2 \<le> load w + 3" using keptD(5) [OF walked_byD(5) [OF r2]] .
  obtain w3 where w3: "w_inc w2 root = Some w3" "only_store w2 w3" "owned w3 (add_mset root (add_mset root ext)) ?D" "advanced spare 0 0 UNIV w2 w3"
    "fdrcs (wstore w3) = fdrcs (wstore w2)" by (rule inc_adv [OF w2(3) px]) (use ok(4) l2 in \<open>simp_all add: roomy_load\<close>)
  have q3: "queued w3 = queued w" using only_storeD(15) [OF w3(2)] q2 by simp
  obtain w4 where w4: "incref a w3 = Some w4" "only_store w3 w4" "owned w4 (add_mset root (add_mset root ext)) (add_mset a ?D)" "advanced spare 0 0 UNIV w3 w4"
    by (rule incref_adv [OF w3(3), of a]) (use ok(5) q3 in simp_all)
  have q4: "queued w4 = queued w" using only_storeD(15) [OF w4(2)] q3 by simp
  obtain w5 where w5: "incref b w4 = Some w5" "only_store w4 w5" "owned w5 (add_mset root (add_mset root ext)) (add_mset b (add_mset a ?D))"
    "advanced spare 0 0 UNIV w4 w5"
    by (rule incref_adv [OF w4(3), of b]) (use ok(5) q4 in simp_all)
  have q5: "queued w5 = queued w" using only_storeD(15) [OF w5(2)] q4 by simp
  have a5: "advanced spare 0 0 UNIV w2 w5" using advanced_trans [OF advanced_trans [OF w3(4) w4(4)] w5(4)] by simp
  have v5: "dir_view (wstore w5) p = dir_view (wstore w2) p" for p
    using incref_view [OF w4(1)] incref_view [OF w5(1)] w3(5) by (simp add: dir_view_def)
  have o5: "only_store w2 w5" by (rule only_store_trans [OF w3(2) only_store_trans [OF w4(2) w5(2)]])
  have k5: "world_kept spare 0 0 UNIV {} w2 w5" by (rule world_kept_advanced [OF a5 order.refl order.refl]) simp
  have r5: "walked_by E spare 3 3 ext {} a w w5 [] [] 0 0"
    using walked_by_trans [OF r2 store_walked [OF o5 k5 walked_byD(4) [OF r2] subset_UNIV]] by simp
  note d5 = walked_byD [OF r5]
  have "walks E spare k {} a b (src_root E) (dst_root E) (processDir n E None root a b) root ''.'' x"
    by (rule tree_walks [OF E x]) simp
  then obtain w6 where w6: "processDir n E None root a b w5 = Some (0, w6)" "owned w6 (add_mset root ext) ?D"
    "walked_by E spare (memory x) (effort x) (add_mset root ext) {} b w5 w6 (calls ?W) (files E ''.'' x) (dirs x) (int (taken x))"
  proof (rule walksD [OF _ w5(3)])
    show "spells (strings (wstore w5)) root ''.''"
      by (rule steadyD(1) [OF advancedD(1) [OF a5] UNIV_I keptD(1) [OF w2(4) UNIV_I w1(5)]])
    show "walk_ready w5 k" by (rule walk_ready_after [OF ok(2) r5])
    show "fd_of w5 a = Some (src_root E)" "fd_of w5 b = Some (dst_root E)"
      using w2(6,7) by (simp_all add: fd_of_view v5) (simp_all add: dir_view_def)
    show "descriptors x \<le> fdSem w5" using ok(3) d5(2) by simp
    show "roomy w5 (add_mset root (add_mset root ext)) (effort x)" using ok(4) keptD(5) [OF d5(5)] by (simp add: roomy_load)
    show "size (?D + q_dirs (queued w5)) + effort x < 2 ^ 64" using ok(5) unfolding q5 by simp
    show "memory x \<le> spare (heap (wstore w5))" using ok(6) keptD(4) [OF d5(5)] by simp
    show "follows E (trace w5) ?W" using f d5(1) by simp
  qed simp_all
  have "walked_by E spare (memory x) (effort x) ext {} a w5 w6 (calls ?W) (files E ''.'' x) (dirs x) (int (taken x))"
    by (rule walked_by_inner [OF walked_by_mono [OF w6(3)]]) simp_all
  from walked_by_trans [OF r5 this] have "walked_by E spare (memory x + 3) (effort x + 3) ext {} a w w6 (calls ?W) (files E ''.'' x) (dirs x) (int (taken x))"
    by (simp add: add.commute)
  moreover have "start_crawl n E w = Some (0, a, b, w6)"
    using w1(1) w2(1) w3(1) w4(1) w5(1) w6(1) by (auto simp: start_crawl_def two_dirs_def split: prod.splits bind_splits)
  ultimately show ?thesis using w6(2) by blast
qed

end

end
