(* ===== verification/Crawl_Properties.thy ===== *)
theory Crawl_Properties
  imports Path_Text Crawl_Sample Walk_Tree
begin

text \<open>
  The properties of the walk over the source, of finishing and of removing (\<open>copy2.cpp\<close>, \<open>syscalls.h\<close>).
\<close>

section \<open>Paths\<close>

text \<open>
  C39: \<open>path_ok\<close> accepts a path exactly if it is relative, not empty, and none of the names between its
  slashes is the parent directory.
\<close>

theorem path_ok_correct:
  "path_ok path \<longleftrightarrow> (\<exists>s. path = Some s \<and> s \<noteq> [] \<and> hd s \<noteq> CHR ''/'' \<and> ''..'' \<notin> set (components s))"
  using path_ok_iff by (cases path) (simp_all add: path_ok_def)

section \<open>Finishing\<close>


text \<open>A system in which every call goes well; the file \<open>f\<close> has 5 bytes and has been copied by the owner.\<close>

definition five_bytes :: statx where
  "five_bytes = zero_statx\<lparr>stx_mode := 8 * 4096 + 420, stx_size := 5, stx_nlink := 1, stx_mtime := (100, 0)\<rparr>"




section \<open>Removing\<close>

text \<open>
  C11: removing a directory returns if the recursion is allowed to go as deep as the tree, and makes
  exactly the calls that the tree needs, in an order that empties every directory before it goes: the
  entries are read and the directory is closed before the first of them is removed. Nothing that does
  not begin with the path is unlinked. The number of removed files grows by the number of calls that
  went well, whether or not some fail; the descriptors and the references to names are given back. So is
  the memory: every block of the allocator that is in use afterwards was in use before, and no entry of a
  list is left that was not there before. Of the \<open>spare\<close> requests counted before, at most \<open>cost\<close> are gone.
\<close>

theorem recursiveRemove_correct:
  assumes "room (tid E) m spare" "orders E" "sizeof_DirEnt \<le> m" "deep (Branch d es) \<le> n"
    and "owned w (add_mset path ext) dext" "spells (strings (wstore w)) path p" "fits k m p (Branch d es)" "remove_ready w k"
    and "roomy w (add_mset path ext) (cost (Branch d es))" "cost (Branch d es) \<le> spare (heap (wstore w))"
    and "todo = (Unlinkat fd p False, \<lambda>r. ret r < 0 \<and> errno r = EISDIR) # removal E fd p (Branch d es)" "follows E (trace w) todo"
  shows "\<exists>w'. recursiveRemove n E fd 0 path w = Some (0, w') \<and> owned w' ext dext \<and> trace w' = trace w @ calls todo
    \<and> n_removed w' = (n_removed w + unlinked E (trace w) (calls todo)) mod 2 ^ 64 \<and> fdSem w' = fdSem w \<and> queued w' = queued w
    \<and> alloc_blocks (heap (wstore w')) \<subseteq> alloc_blocks (heap (wstore w)) \<and> ents (wstore w') = ents (wstore w)
    \<and> spare (heap (wstore w)) \<le> spare (heap (wstore w')) + cost (Branch d es)
    \<and> (\<forall>fd' q b. Unlinkat fd' q b \<in> set (calls todo) \<longrightarrow> fd' = fd \<and> (\<exists>q'. q = p @ q'))"
proof -
  have "\<exists>w'. recursiveRemove n E fd 0 path w = Some (0, w') \<and> owned w' ext dext
      \<and> removed_by E spare (cost (Branch d es)) ext w w' (calls ([(Unlinkat fd p False, \<lambda>r. ret r < 0 \<and> errno r = EISDIR)] @ removal E fd p (Branch d es))) \<and> tidy (wstore w) (wstore w')"
    by (rule room.remove_branch [OF assms(1,2) refl assms(3-10)]) (use assms(11,12) in simp_all)
  then obtain w' where w': "recursiveRemove n E fd 0 path w = Some (0, w')" "owned w' ext dext"
    "removed_by E spare (cost (Branch d es)) ext w w' (calls todo)" "tidy (wstore w) (wstore w')" using assms(11) by auto
  have below: "fd' = fd \<and> (\<exists>q'. q = p @ q')" if "Unlinkat fd' q b \<in> set (calls todo)" for fd' q b
    using that removal_below [OF assms(2), of fd' q b fd p "Branch d es"] unfolding assms(11) by (auto simp del: removal.simps)
  then show ?thesis using w'(1,2) removed_byD [OF w'(3)] advancedD(2) [OF removed_byD(7) [OF w'(3)]] tidyD(1,2) [OF w'(4)]
    by (intro exI [of _ w'] conjI allI impI) blast+
qed

text \<open>The directory \<open>f\<close> holds one file \<open>x\<close>.\<close>

definition tree_kernel :: "syscall list \<Rightarrow> syscall \<Rightarrow> reply" where
  "tree_kernel tr c = (case c of
     Unlinkat fd p b \<Rightarrow> if p = ''f'' \<and> \<not> b then crawl_reply (-1) EISDIR zero_statx else crawl_reply 0 0 zero_statx
   | Openat fd p fl md \<Rightarrow> crawl_reply 9 0 zero_statx
   | Fdopendir fd \<Rightarrow> crawl_reply 1 0 zero_statx
   | Readdir fd \<Rightarrow> (let k = length (filter (\<lambda>c. c = Readdir fd) tr)
       in if k = 0 then (crawl_reply 1 0 zero_statx)\<lparr>out_str := ''.''\<rparr> else if k = 1 then (crawl_reply 1 0 zero_statx)\<lparr>out_str := ''x''\<rparr> else crawl_reply 0 0 zero_statx)
   | _ \<Rightarrow> crawl_reply 0 0 zero_statx)"

theorem recursiveRemove_correct_witness:
  "\<exists>b ps w'. recursiveRemove 2 (crawl_program tree_kernel) 4 0 (ps ! 1) (crawl_world b ps [Remove_remote, RemoveNonDir_remote, Finish_remote]) = Some (0, w')
    \<and> trace w' = [Unlinkat 4 ''f'' False, Openat 4 ''f'' [O_DIRECTORY, O_RDONLY] 0, Fdopendir 9, Readdir 9, Readdir 9, Readdir 9, Closedir 9,
        Unlinkat 4 ''f/x'' False, Unlinkat 4 ''f'' True] \<and> n_removed w' = 2 \<and> fdSem w' = 8"
proof -
  obtain b ps where s: "crawl_pages b ps" using crawl_pages_ex by blast
  let ?E = "crawl_program tree_kernel" and ?w = "crawl_world b ps [Remove_remote, RemoveNonDir_remote, Finish_remote]"
  let ?es = "[(''.'', Branch 0 []), (''x'', Leaf)]"
  have ok: "owned ?w (add_mset (ps ! 1) {#ps ! 2#}) {#ps ! 3, ps ! 4#}" using crawl_ok(1) [OF s] .
  have dots: "ISDOT ''.''" "\<not> ISDOT ''x''" by (simp_all add: ISDOT_def)
  have ready: "remove_ready ?w 63"
    using crawl_bufs [OF s, of Remove_remote RemoveNonDir_remote Finish_remote] by (simp add: remove_ready_def)
  have "pages 8 b" using s by (simp add: crawl_pages_def)
  then have spare: "page_spare (heap (wstore ?w)) = 8" using page_spare by (simp add: crawl_store_def)
  have ord: "orders ?E" by (simp add: orders_def)
  show ?thesis
    using recursiveRemove_correct [OF page.room_axioms ord _ _ ok _ _ ready _ _ refl, where d = 9 and es = ?es and n = 2 and p = "''f''" and fd = 4] crawl_spells(2) [OF s]
      crawl_ok(2) [OF s, of "[Remove_remote, RemoveNonDir_remote, Finish_remote]"] spare
    by (simp add: dots in_order_def tree_kernel_def follows_reading sizeof_DirEnt_def sizeof_StringPart_def c_name_def roomy_load EISDIR_def)
      (simp add: numeral_2_eq_2, blast)
qed

section \<open>Walking\<close>

text \<open>
  C2: the walk from the root finds every file. For a tree of directories and files with one name each,
  on one device, to whose calls the system answers, it returns 0 having made exactly the calls of the
  tree. Every file that is not at the destination, or differs there in size or time, is in the queue of
  the copiers exactly once, with the path, the name of its copy, its metadata, both of its descriptors and its block
  size; every other file is in the queue of the finishers exactly once. What was seen is counted, a descriptor
  is kept only for these jobs and for each directory at the destination, and all references but those of the root and of
  the queues are given back. The memory, the descriptors and the counters that suffice follow from the tree.
\<close>

theorem start_crawl_correct:
  fixes E :: "'db program" and w :: "'db world"
  assumes "room (tid E) m spare" "orders E" "sizeof_StringPart + k + 1 \<le> m" "sizeof_FDRC \<le> m" "\<not> sync (opts E)"
    and "tree = Dir st fd dup dst es" "plain (stx_dev st) k ''.'' tree" "depth_of tree \<le> n"
    and "owned w ext dext" "walk_ready w k" "descriptors tree \<le> fdSem w" "roomy w ext (effort tree + 6)"
    and "size (dext + q_dirs (queued w)) + effort tree + 4 < 2 ^ 64" "memory tree + 3 \<le> spare (heap (wstore w))"
    and "todo = walk E (src_root E) (dst_root E) ''.'' tree" "follows E (trace w) todo"
  shows "\<exists>root srcRef dstRef w' fs js qs. start_crawl n E w = Some (0, srcRef, dstRef, w')
    \<and> trace w' = trace w @ calls todo \<and> mset fs = mset (leaves ''.'' tree)
    \<and> jobQ w' = jobQ w @ js \<and> list_all2 (copies E w') js (filter (\<lambda>y. changed (snd y)) fs)
    \<and> finishQ w' = finishQ w @ qs \<and> list_all2 (checks E w') (filter (\<lambda>j. \<not> isDot j) qs) (filter (\<lambda>y. \<not> changed (snd y)) fs)
    \<and> n_seen w' = (n_seen w + length fs + dirs tree) mod 2 ^ 64 \<and> n_dirs w' = (n_dirs w + dirs tree) mod 2 ^ 64
    \<and> bytes_seen w' = (bytes_seen w + bytes_of fs) mod 2 ^ 64
    \<and> bytes_will w' = (bytes_will w + bytes_of (filter (\<lambda>y. changed (snd y)) fs)) mod 2 ^ 64
    \<and> fdSem w' + taken tree = fdSem w \<and> owned w' (add_mset root ext) (add_mset dstRef (add_mset srcRef dext))"
proof -
  obtain root a b w' where w': "start_crawl n E w = Some (0, a, b, w')" "owned w' (add_mset root ext) (add_mset b (add_mset a dext))"
    "walked_by E spare (memory tree + 3) (effort tree + 3) ext {} a w w' (calls todo) (files E ''.'' tree) (dirs tree) (int (taken tree))"
    using room.start_walks [OF assms(1,2) refl assms(3-5) assms(7) _ assms(8-14), of] assms(6,15,16) by auto
  obtain st js qs where e: "w' = after_walk st (calls todo) js qs (files E ''.'' tree) (dirs tree) (fdSem w') w"
    "queued_well E {} a w' js qs (files E ''.'' tree)" "int (fdSem w') = int (fdSem w) - int (taken tree)"
    using w'(3) unfolding walked_by_def by blast
  have f: "jobQ w' = jobQ w @ js" "finishQ w' = finishQ w @ qs" "trace w' = trace w @ calls todo"
    "n_seen w' = (n_seen w + length (files E ''.'' tree) + dirs tree) mod 2 ^ 64" "n_dirs w' = (n_dirs w + dirs tree) mod 2 ^ 64"
    "bytes_seen w' = (bytes_seen w + bytes_of (files E ''.'' tree)) mod 2 ^ 64"
    "bytes_will w' = (bytes_will w + bytes_of (moved (files E ''.'' tree))) mod 2 ^ 64"
    by (subst e(1), simp add: after_walk_def add.assoc)+
  have q: "list_all2 (copies E w') js (moved (files E ''.'' tree))"
    "list_all2 (checks E w') (filter (\<lambda>j. \<not> isDot j) qs) (filter (\<lambda>y. \<not> changed (snd y)) (files E ''.'' tree))"
    using e(2) by (simp_all add: queued_well_def)
  have "fdSem w' + taken tree = fdSem w" using e(3) by linarith
  then show ?thesis using w'(1,2) f q files_leaves [OF assms(2), of "''.''" tree] by blast
qed

text \<open>The root holds one new file \<open>x\<close> of 5 bytes.\<close>

definition root_tree :: stree where
  "root_tree = Dir zero_statx 9 10 11 [(''.'', Dir zero_statx 0 0 0 []), (''x'', File five_bytes None 12 13)]"

definition root_kernel :: "syscall list \<Rightarrow> syscall \<Rightarrow> reply" where
  "root_kernel tr c = (case c of
     Openat fd p fl md \<Rightarrow> crawl_reply (if fd = 3 then 9 else if fd = 4 then 11 else if fd = 10 then 12 else 13) 0 zero_statx
   | Dup fd \<Rightarrow> crawl_reply 10 0 zero_statx
   | Statx fd p \<Rightarrow> if fd = 10 then crawl_reply 0 0 five_bytes else if fd = 11 then crawl_reply (-1) ENOENT zero_statx else crawl_reply 0 0 zero_statx
   | Fdopendir fd \<Rightarrow> crawl_reply 1 0 zero_statx
   | Readdir fd \<Rightarrow> (let k = length (filter (\<lambda>c. c = Readdir fd) tr)
       in if k = 0 then (crawl_reply 1 0 zero_statx)\<lparr>out_str := ''.''\<rparr> else if k = 1 then (crawl_reply 1 0 zero_statx)\<lparr>out_str := ''x''\<rparr> else crawl_reply 0 0 zero_statx)
   | _ \<Rightarrow> crawl_reply 0 0 zero_statx)"

theorem start_crawl_correct_witness:
  "\<exists>b ps srcRef dstRef w' j. start_crawl 2 (crawl_program root_kernel) (crawl_world b ps [Dir_remote, NonDir_remote, NonDir_partial]) = Some (0, srcRef, dstRef, w')
    \<and> jobQ w' = [j] \<and> spells (strings (wstore w')) (remote j) ''./x'' \<and> stx j = five_bytes \<and> srcFd j = 12 \<and> dstFd j = 13
    \<and> n_seen w' = 2 \<and> bytes_will w' = 5 \<and> fdSem w' = 5"
proof -
  obtain b ps where s: "crawl_pages b ps" using crawl_pages_ex by blast
  let ?bs = "[Dir_remote, NonDir_remote, NonDir_partial]" let ?E = "crawl_program root_kernel" and ?w = "crawl_world b ps ?bs"
  have dots: "ISDOT ''.''" "\<not> ISDOT ''x''" by (simp_all add: ISDOT_def)
  have ready: "walk_ready ?w 63" using crawl_bufs [OF s, of Dir_remote NonDir_remote NonDir_partial] by (simp add: walk_ready_def in_range_def)
  have "pages 8 b" using s by (simp add: crawl_pages_def)
  then have spare: "page_spare (heap (wstore ?w)) = 8" using page_spare by (simp add: crawl_store_def)
  have ord: "orders ?E" by (simp add: orders_def)
  have bn: "base_name ''.'' = ''.''" "base_name ''./x'' = ''x''" by (simp_all add: base_name_def)
  have suf: "length (suffix_of h) = 24" for h by (rule suffix_of)
  have tree: "plain (stx_dev zero_statx) 63 ''.'' root_tree" "depth_of root_tree \<le> 2" "descriptors root_tree = 5" "effort root_tree = 24"
    "memory root_tree = 4" "dirs root_tree = 1" "taken root_tree = 3" "leaves ''.'' root_tree = [(''./x'', File five_bytes None 12 13)]"
    by (simp_all add: root_tree_def dots c_name_def five_bytes_def S_ISREG_def zero_statx_def)
  have todo: "follows ?E (trace ?w) (walk ?E (src_root ?E) (dst_root ?E) ''.'' root_tree)"
    by (simp add: root_tree_def dots in_order_def root_kernel_def follows_reading bn found_def)
  have n: "sizeof_StringPart + 63 + 1 \<le> 512" "sizeof_FDRC \<le> 512" "\<not> sync (opts ?E)" "descriptors root_tree \<le> fdSem ?w"
    "roomy ?w {#ps ! 1, ps ! 2#} (effort root_tree + 6)" "size ({#ps ! 3, ps ! 4#} + q_dirs (queued ?w)) + effort root_tree + 4 < 2 ^ 64"
    "memory root_tree + 3 \<le> page_spare (heap (wstore ?w))"
    using tree spare crawl_ok(2) [OF s] by (simp_all add: sizeof_StringPart_def sizeof_FDRC_def roomy_load)
  obtain a c w' fs js where r: "start_crawl 2 ?E ?w = Some (0, a, c, w')" "mset fs = mset (leaves ''.'' root_tree)" "jobQ w' = js"
    "list_all2 (copies ?E w') js (filter (\<lambda>y. changed (snd y)) fs)" "n_seen w' = (length fs + 1) mod 2 ^ 64"
    "bytes_will w' = bytes_of (filter (\<lambda>y. changed (snd y)) fs) mod 2 ^ 64" "fdSem w' + 3 = 8"
    using start_crawl_correct [OF page.room_axioms ord n(1-3) root_tree_def tree(1,2) crawl_ok(1) [OF s] ready n(4-7) refl todo] tree(6,7) by auto
  have fs: "fs = [(''./x'', File five_bytes None 12 13)]" using r(2) by (simp add: tree(8))
  then obtain j where j: "js = [j]" "copies ?E w' j (''./x'', File five_bytes None 12 13)" using r(4) by (auto simp: list_all2_Cons2)
  then show ?thesis using r(1,3,5-7) fs by (intro exI [of _ b] exI [of _ ps] exI [of _ a] exI [of _ c] exI [of _ w'] exI [of _ j]) (simp add: five_bytes_def)
qed

end
