(* ===== verification/Hlink_Properties.thy ===== *)
theory Hlink_Properties
  imports Hlink_Sample
begin

text \<open>
  The properties of the hard link state and of the counted directory descriptors, with instances in
  the sample state.
\<close>

section \<open>The sample state\<close>

lemma sample_fields:
  "hlink (sample_world b ps) = \<lparr>rwlock = Unlocked, env = Map.empty, maxTableCacheSize = 10,
     forwardTableCache = [7 \<mapsto> ps ! 8], revTableCache = Map.empty, rdTxns = [0]\<rparr>"
  "wstore (sample_world b ps) = sample_store b ps" "trace (sample_world b ps) = []" "queued (sample_world b ps) = []"
  "tid (sample_program r) = 0" "db (sample_program r) = map_db" "other_threads (sample_program r) = (\<lambda>w. w)"
  by (simp_all add: sample_world_def sample_program_def queued_def)

lemma sample_roomy:
  assumes "sample_pages b ps" "size ext \<le> 10" "k \<le> 10"
  shows "roomy (sample_world b ps) ext k"
  using assms(2,3) sample_ok(2) [OF assms(1)] by (simp add: roomy_load)

lemma sample_serves:
  assumes "sample_pages b ps" "length ns \<le> 7" "\<forall>r \<in> set ns. 0 < r \<and> r \<le> 512"
  shows "serves t (sample_store b ps) ns"
  by (rule serves_pages [of 9 b]) (use assms in \<open>simp_all add: sample_pages_def sample_store_def\<close>)

lemma sample_txn: "txn_ready (sample_program r) (sample_world b ps)"
  by (simp add: txn_ready_def sample_fields)

lemma sample_root_entry:
  assumes "sample_pages b ps"
  shows "root_entry (sample_world b ps) 7 (ps ! 8) (sample_root (ps ! 0))"
  using sample_views(3) [OF assms]
  by (simp add: root_entry_def sample_fields cache_of_def sample_root_def)

lemma sample_fresh: "fresh_file (sample_program r) (sample_world b ps) 8"
  by (simp add: fresh_file_def sample_fields w_read_def readPair_def cache_of_def map_db_def)

lemma sample_looks_new:
  "rwlock (hlink v) = Unlocked \<Longrightarrow> looks_new ((sample_program r)\<lparr>other_threads := \<lambda>_. v\<rparr>) (sample_world b ps) 8 v"
  by (simp add: looks_new_def sample_fields w_read_def readPair_def cache_of_def map_db_def)

lemma sample_alone: "looks_new (sample_program r) (sample_world b ps) 8 (sample_world b ps)"
  by (simp add: looks_new_def sample_fields w_read_def readPair_def cache_of_def map_db_def)

lemma sample_names:
  assumes "sample_pages b ps"
  defines "N \<equiv> {#ps ! 0, ps ! 0, ps ! 1, ps ! 2, ps ! 4#}"
  shows "new_name (sample_world b ps) n N {#ps ! 5#} (sample_args n ''b'' (ps ! 1) (ps ! 5))"
    "new_name (sample_world b ps) n N {#ps ! 5#} (sample_args n ''c'' (ps ! 2) (ps ! 5))"
    "new_name (sample_world b ps) n N {#ps ! 5#} (sample_args n ''e'' (ps ! 4) (ps ! 5))"
  using sample_spells [OF assms(1)] by (simp_all add: new_name_def sample_args_def sample_fields N_def c_name_def)

section \<open>The tables\<close>



section \<open>Hard links\<close>

text \<open>
  C12: the names of a file that do not exist at the destination, registered and transferred by one thread.
  A name whose file is not in the table gives up the read lock to take the write lock; other threads may
  do anything in between (\<open>v\<close> is what they leave), and the table is read again. If the file is still not
  there, and the cache is not flushed by the new entry, the name becomes the root: it keeps its answer
  whether to transfer, all later names wait without any call to the system, and when the root has been
  transferred each of them is unlinked and linked to it exactly once, in the reverse order of
  registration; the number of names is reported, their list is freed, every counter of a name or of a
  directory equals the number of its owners again, and the lock is free. If another thread has
  registered the file in the meantime, and its root has not been transferred, the name is not a root but
  put in front of those that wait for that root, without any call.
\<close>

theorem hardlinks_copied_once:
  assumes "looks_new E w src v" "owned v ext dext" "new_name v src ext dext a0" "1 < ra_srcNLinks a0" "ra_srcNLinks a0 < 2 ^ 64"
    and "\<forall>(a, _) \<in> set as. new_name v src ext dext a \<and> length (ra_remote a) < k"
    and "length (ra_remote a0) < k" "buf_ready v Register_linkRoot k" "buf_ready v Transfer_linkRoot k"
    and "roomy v ext (length as + 1)" "size (dext + q_dirs (queued v)) + length as + 1 < 2 ^ 64"
    and "serves (tid E) (wstore v) (sizeof_HLinkInfo # name_sizes as)" "serves (tid E) (wstore v) [sizeof_LinkEntry]"
  shows "(fresh_file E v src \<longrightarrow> (\<exists>w1 w2 w3 q.
        hlinkStateRegisterLinkRoot E a0 orig w = Some (\<lparr>shouldTransfer = orig, isFirstLook = True, isPendingHardlink = False\<rparr>, w1)
      \<and> register_names E as w1 = Some (map (\<lambda>_. pending) as, w2) \<and> trace w2 = trace v
      \<and> hlinkStateHandleTransfer E (ra_remote a0) src dest fd w2 = Some (length as, w3)
      \<and> new_calls v w3 = link_calls fd (ra_remote a0) (rev (map (\<lambda>(a, _). ra_remote a) as))
      \<and> owned w3 (add_mset (ra_remoteRef a0) ext) dext \<and> links (wstore w3) = links (wstore v)
      \<and> rwlock (hlink w3) = Unlocked \<and> cache_of (hlink w3) FORWARD src = Some q
      \<and> map_option (\<lambda>h. (transferred h, destInode h, hl_nlinkRC h, hl_locked h)) (hinfos (wstore w3) q)
          = Some (True, dest, ra_srcNLinks a0 - 1, False)))
    \<and> (\<forall>q h xs ss. root_waits E v src k q h xs ss \<longrightarrow> (\<exists>w1 p e.
        hlinkStateRegisterLinkRoot E a0 orig w = Some (pending, w1) \<and> trace w1 = trace v
      \<and> root_waits E w1 src k q (h\<lparr>hl_links := p\<rparr>) ((p, e) # xs) (ra_remote a0 # ss) \<and> entry_link e = ra_remoteRef a0
      \<and> owned w1 (add_mset (ra_remoteRef a0) ext) (add_mset (ra_dstFDRef a0) dext)))"
proof (intro conjI impI allI)
  have as: "new_name v src ext dext a" "length (ra_remote a) < k" if "a \<in> fst ` set as" for a
    using that assms(6) by auto
  have dirs: "size (dext + q_dirs (queued v)) + length as < 2 ^ 64" "size (dext + q_dirs (queued v)) + 1 < 2 ^ 64"
    using assms(11) by simp_all
  have room: "roomy v ext 0" using assms(10) by (simp add: roomy_def)
  have mem: "fst (store_alloc (tid E) (wstore v) sizeof_LinkEntry) \<noteq> NULL" using assms(13) by simp
  {
    assume fresh: "fresh_file E v src"
    show "\<exists>w1 w2 w3 q.
        hlinkStateRegisterLinkRoot E a0 orig w = Some (\<lparr>shouldTransfer = orig, isFirstLook = True, isPendingHardlink = False\<rparr>, w1)
      \<and> register_names E as w1 = Some (map (\<lambda>_. pending) as, w2) \<and> trace w2 = trace v
      \<and> hlinkStateHandleTransfer E (ra_remote a0) src dest fd w2 = Some (length as, w3)
      \<and> new_calls v w3 = link_calls fd (ra_remote a0) (rev (map (\<lambda>(a, _). ra_remote a) as))
      \<and> owned w3 (add_mset (ra_remoteRef a0) ext) dext \<and> links (wstore w3) = links (wstore v)
      \<and> rwlock (hlink w3) = Unlocked \<and> cache_of (hlink w3) FORWARD src = Some q
      \<and> map_option (\<lambda>h. (transferred h, destInode h, hl_nlinkRC h, hl_locked h)) (hinfos (wstore w3) q)
          = Some (True, dest, ra_srcNLinks a0 - 1, False)"
      by (rule hardlinks_ok [OF assms(1) fresh assms(2-5) as(1) assms(7) as(2) assms(8-10) dirs(1) assms(12), of orig dest fd]) blast+
  next
    fix q h xs ss
    assume root: "root_waits E v src k q h xs ss"
    show "\<exists>w1 p e. hlinkStateRegisterLinkRoot E a0 orig w = Some (pending, w1) \<and> trace w1 = trace v
      \<and> root_waits E w1 src k q (h\<lparr>hl_links := p\<rparr>) ((p, e) # xs) (ra_remote a0 # ss) \<and> entry_link e = ra_remoteRef a0
      \<and> owned w1 (add_mset (ra_remoteRef a0) ext) (add_mset (ra_dstFDRef a0) dext)"
      by (rule reroll_ok [OF assms(1) root assms(2,3,8) room dirs(2) mem])
  }
qed

text \<open>The root \<open>b\<close>, registered by another thread before \<open>c\<close> has the write lock.\<close>

lemma sample_reroll:
  assumes s: "sample_pages b ps"
  defines "E \<equiv> \<lambda>v. (sample_program 0)\<lparr>other_threads := \<lambda>_. v\<rparr>" and "w \<equiv> sample_world b ps"
    and "ext \<equiv> {#ps ! 1, ps ! 0, ps ! 0, ps ! 1, ps ! 2, ps ! 4#}" and "a \<equiv> sample_args 8 ''c'' (ps ! 2) (ps ! 5)"
  obtains v q h where "root_waits (E v) v 8 63 q h [] []" "looks_new (E v) w 8 v" "owned v ext {#ps ! 5#}"
    "new_name v 8 ext {#ps ! 5#} a" "buf_ready v Register_linkRoot 63" "buf_ready v Transfer_linkRoot 63"
    "roomy v ext 1" "size ({#ps ! 5#} + q_dirs (queued v)) + 0 + 1 < 2 ^ 64"
    "serves (tid (E v)) (wstore v) [sizeof_HLinkInfo]" "serves (tid (E v)) (wstore v) [sizeof_LinkEntry]"
proof -
  let ?a = "sample_args 8 ''b'' (ps ! 1) (ps ! 5)" and ?N = "{#ps ! 0, ps ! 0, ps ! 1, ps ! 2, ps ! 4#}"
  have n: "ra_remoteRef ?a \<in># ?N" "\<not> ra_destExists ?a" "ra_srcInode ?a = 8" by (simp_all add: sample_args_def)
  have f: "tid (sample_program 0) \<in> set (rdTxns (hlink w))" "w_read (sample_program 0) w (RdTxn (tid (sample_program 0))) FORWARD 8 = Some None"
    "length (iter (db (sample_program 0)) ((cache_of (hlink w) FORWARD)(8 \<mapsto> p))) < maxTableCacheSize (hlink w)" for p
    using sample_fresh [of 0 b ps] by (simp_all add: fresh_file_def w_def)
  have room: "roomy w ?N 0" unfolding w_def by (rule sample_roomy [OF s]) simp_all
  have sv: "serves 0 (wstore w) [sizeof_HLinkInfo, r]" if "0 < r" "r \<le> 512" for r
    unfolding w_def sample_fields by (rule sample_serves [OF s]) (use that in \<open>simp_all add: sizeof_HLinkInfo_def\<close>)
  have mem: "fst (store_alloc (tid (sample_program 0)) (wstore w) sizeof_HLinkInfo) \<noteq> NULL"
    using sv [of 1] by (simp add: sample_fields)
  obtain v q where v: "root_entry v 8 q \<lparr>transferred = False, destInode = ra_destInode ?a, hl_remote = ra_remoteRef ?a, hl_links = NULL,
        hl_nlinkRC = ra_srcNLinks ?a, hl_locked = False\<rparr>"
    "owned v (add_mset (ra_remoteRef ?a) ?N) {#ps ! 5#}" "load v = load w" "txn_ready (sample_program 0) v" "queued v = queued w"
    "\<And>b k. buf_ready w b k \<Longrightarrow> buf_ready v b k" "\<And>q s. spells (strings (wstore w)) q s \<Longrightarrow> spells (strings (wstore v)) q s"
    "same_heap (snd (store_alloc (tid (sample_program 0)) (wstore w) sizeof_HLinkInfo)) (wstore v)"
    by (rule register_first_ok [OF sample_alone [of 0 b ps, folded w_def] f(1) n f(2,3) sample_ok(1) [OF s, folded w_def] room mem]) blast
  let ?h = "\<lparr>transferred = False, destInode = ra_destInode ?a, hl_remote = ra_remoteRef ?a, hl_links = NULL,
        hl_nlinkRC = ra_srcNLinks ?a, hl_locked = False\<rparr>"
  have b: "spells (strings (wstore w)) (ps ! 1) ''b''"
    using sample_names(1) [OF s, of 8] by (simp add: new_name_def sample_args_def w_def)
  have root: "root_waits (E v) v 8 63 q ?h [] []"
    using v(1,4) v(7) [OF b] by (auto simp: root_waits_def waiting_def named_def txn_ready_def E_def sample_args_def c_name_def)
  have new: "looks_new (E v) w 8 v" unfolding E_def w_def by (rule sample_looks_new) (use v(1) in \<open>simp add: root_entry_def\<close>)
  have ext: "add_mset (ra_remoteRef ?a) ?N = ext" by (simp add: sample_args_def ext_def)
  have name: "new_name v 8 ext {#ps ! 5#} a"
    unfolding a_def ext [symmetric] by (rule new_name_mono [OF sample_names(2) [OF s, of 8, folded w_def] v(7)]) simp_all
  have big: "roomy w ext 1" unfolding w_def by (rule sample_roomy [OF s]) (simp_all add: ext_def)
  have serve: "serves (tid (E v)) (wstore v) [r]" if "0 < r" "r \<le> 512" for r
    using serves_same [OF _ v(8), of 0 "[r]"] sv [OF that] by (simp add: E_def sample_fields)
  have sizes: "serves (tid (E v)) (wstore v) [sizeof_HLinkInfo]" "serves (tid (E v)) (wstore v) [sizeof_LinkEntry]"
    by (rule serve; simp add: sizeof_HLinkInfo_def sizeof_LinkEntry_def)+
  show thesis
    by (rule that [OF root new v(2) [unfolded ext] name v(6) v(6) _ _ sizes])
      (use big sample_bufs [OF s, folded w_def] in \<open>simp_all add: roomy_load v(3,5) w_def sample_fields q_dirs_def\<close>)
qed

theorem hardlinks_copied_once_witness:
  "\<exists>b ps w1 w2 w3 v w'. hlinkStateRegisterLinkRoot (sample_program 0) (sample_args 8 ''b'' (ps ! 1) (ps ! 5)) True (sample_world b ps)
      = Some (\<lparr>shouldTransfer = True, isFirstLook = True, isPendingHardlink = False\<rparr>, w1)
    \<and> register_names (sample_program 0)
        [(sample_args 8 ''c'' (ps ! 2) (ps ! 5), True), (sample_args 8 ''e'' (ps ! 4) (ps ! 5), False)] w1 = Some ([pending, pending], w2)
    \<and> hlinkStateHandleTransfer (sample_program 0) ''b'' 8 11 4 w2 = Some (2, w3)
    \<and> new_calls (sample_world b ps) w3
        = [Unlinkat 4 ''e'' False, Linkat 4 ''b'' 4 ''e'', Unlinkat 4 ''c'' False, Linkat 4 ''b'' 4 ''c'']
    \<and> hlinkStateRegisterLinkRoot ((sample_program 0)\<lparr>other_threads := \<lambda>_. v\<rparr>) (sample_args 8 ''c'' (ps ! 2) (ps ! 5)) True (sample_world b ps)
      = Some (pending, w')"
proof -
  obtain b ps where s: "sample_pages b ps" using sample_pages_ex by blast
  let ?a = "sample_args 8 ''b'' (ps ! 1) (ps ! 5)" and ?c = "sample_args 8 ''c'' (ps ! 2) (ps ! 5)"
    and ?as = "[(sample_args 8 ''c'' (ps ! 2) (ps ! 5), True), (sample_args 8 ''e'' (ps ! 4) (ps ! 5), False)]"
  have len: "size {#ps ! 0, ps ! 0, ps ! 1, ps ! 2, ps ! 4#} \<le> 10" "length ?as + 1 \<le> 10" by simp_all
  have sv: "serves (tid (sample_program 0)) (wstore (sample_world b ps)) (sizeof_HLinkInfo # name_sizes ?as)"
    "serves (tid (sample_program 0)) (wstore (sample_world b ps)) [sizeof_LinkEntry]"
    unfolding sample_fields(2)
    by (rule sample_serves [OF s]; simp add: name_sizes_def sizeof_HLinkInfo_def sizeof_LinkEntry_def)+
  have n: "1 < ra_srcNLinks ?a" "ra_srcNLinks ?a < 2 ^ 64" "length (ra_remote ?a) < 63"
    and m: "1 < ra_srcNLinks ?c" "ra_srcNLinks ?c < 2 ^ 64" "length (ra_remote ?c) < 63" by (simp_all add: sample_args_def)
  have as: "\<forall>(a, _) \<in> set ?as. new_name (sample_world b ps) 8 {#ps ! 0, ps ! 0, ps ! 1, ps ! 2, ps ! 4#} {#ps ! 5#} a
      \<and> length (ra_remote a) < 63"
    using sample_names(2,3) [OF s, of 8] by (simp add: sample_args_def)
  have dirs: "size ({#ps ! 5#} + q_dirs (queued (sample_world b ps))) + length ?as + 1 < 2 ^ 64"
    by (simp add: sample_fields q_dirs_def)
  have t: "ra_remote ?a = ''b''" "map (\<lambda>(a, _). ra_remote a) ?as = [''c'', ''e'']" "length ?as = 2" by (simp_all add: sample_args_def)
  note first = conjunct1 [OF hardlinks_copied_once [OF sample_alone sample_ok(1) [OF s] sample_names(1) [OF s] n(1,2) as n(3) sample_bufs [OF s]
      sample_roomy [OF s len] dirs sv, of True 11 4]]
  from sample_reroll [OF s] obtain v q h where v: "root_waits ((sample_program 0)\<lparr>other_threads := \<lambda>_. v\<rparr>) v 8 63 q h [] []"
    "looks_new ((sample_program 0)\<lparr>other_threads := \<lambda>_. v\<rparr>) (sample_world b ps) 8 v" "owned v {#ps ! 1, ps ! 0, ps ! 0, ps ! 1, ps ! 2, ps ! 4#} {#ps ! 5#}"
    "new_name v 8 {#ps ! 1, ps ! 0, ps ! 0, ps ! 1, ps ! 2, ps ! 4#} {#ps ! 5#} ?c" "buf_ready v Register_linkRoot 63" "buf_ready v Transfer_linkRoot 63"
    "roomy v {#ps ! 1, ps ! 0, ps ! 0, ps ! 1, ps ! 2, ps ! 4#} 1" "size ({#ps ! 5#} + q_dirs (queued v)) + 0 + 1 < 2 ^ 64"
    "serves (tid ((sample_program 0)\<lparr>other_threads := \<lambda>_. v\<rparr>)) (wstore v) [sizeof_HLinkInfo]"
    "serves (tid ((sample_program 0)\<lparr>other_threads := \<lambda>_. v\<rparr>)) (wstore v) [sizeof_LinkEntry]" by blast
  have "\<exists>w'. hlinkStateRegisterLinkRoot ((sample_program 0)\<lparr>other_threads := \<lambda>_. v\<rparr>) ?c True (sample_world b ps) = Some (pending, w')"
    using hardlinks_copied_once [where as = "[]" and orig = True, OF v(2-4) m(1,2) _ m(3) v(5,6) _ _ _ v(10)] v(1,7-9)
    by (simp add: name_sizes_def) blast
  moreover have "fresh_file (sample_program 0) (sample_world b ps) 8" by (rule sample_fresh)
  ultimately show ?thesis using first unfolding t by (simp add: link_calls_def) blast
qed

text \<open>
  C15: a name that is registered after its root has been transferred is unlinked and linked to the root
  at once, exactly once; the entry counts one name less and stays in the table with its lock free, even
  if this was the last name that was expected.
\<close>

theorem late_name_linked:
  assumes "root_entry w src q h" "transferred h" "owned w ext dext"
    and "spells (strings (wstore w)) (hl_remote h) root" "c_name root" "length root < k" "buf_ready w Register_linkRoot k"
    and "\<not> ra_destExists a" "ra_srcInode a = src" "0 < hl_nlinkRC h" "hl_nlinkRC h < 2 ^ 64" "txn_ready E w"
    and "u = Unlinkat (ra_destRootFD a) (ra_remote a) False" "l = Linkat (ra_destRootFD a) root (ra_destRootFD a) (ra_remote a)"
    and "0 \<le> ret (kernel E (trace w) u) \<or> errno (kernel E (trace w) u) = ENOENT" "0 \<le> ret (kernel E (trace w @ [u]) l)"
  shows "\<exists>w'. hlinkStateRegisterLinkRoot E a orig w
      = Some (\<lparr>shouldTransfer = False, isFirstLook = False, isPendingHardlink = False\<rparr>, w')
    \<and> trace w' = trace w @ [u, l] \<and> owned w' ext dext \<and> root_entry w' src q (h\<lparr>hl_nlinkRC := hl_nlinkRC h - 1\<rparr>)"
  by (rule register_linked_ok [OF assms(1-15), of orig]) (use assms(16) in blast)

theorem late_name_linked_witness:
  "\<exists>b ps w'. hlinkStateRegisterLinkRoot (sample_program 0) (sample_args 7 ''e'' (ps ! 4) (ps ! 5)) False (sample_world b ps)
      = Some (\<lparr>shouldTransfer = False, isFirstLook = False, isPendingHardlink = False\<rparr>, w')
    \<and> trace w' = [Unlinkat 4 ''e'' False, Linkat 4 ''a'' 4 ''e'']"
proof -
  obtain b ps where s: "sample_pages b ps" using sample_pages_ex by blast
  let ?w = "sample_world b ps" and ?a = "sample_args 7 ''e'' (ps ! 4) (ps ! 5)"
  have sp: "spells (strings (wstore ?w)) (hl_remote (sample_root (ps ! 0))) ''a''"
    using sample_spells(1) [OF s] by (simp add: sample_root_def sample_fields)
  have k: "ret (kernel (sample_program 0) t c) = 0" for t c by (simp add: sample_program_def split: syscall.splits)
  have "\<exists>w'. hlinkStateRegisterLinkRoot (sample_program 0) ?a False ?w
      = Some (\<lparr>shouldTransfer = False, isFirstLook = False, isPendingHardlink = False\<rparr>, w')
    \<and> trace w' = trace ?w @ [Unlinkat 4 ''e'' False, Linkat 4 ''a'' 4 ''e'']
    \<and> owned w' {#ps ! 0, ps ! 0, ps ! 1, ps ! 2, ps ! 4#} {#ps ! 5#}
    \<and> root_entry w' 7 (ps ! 8) ((sample_root (ps ! 0))\<lparr>hl_nlinkRC := hl_nlinkRC (sample_root (ps ! 0)) - 1\<rparr>)"
    by (rule late_name_linked [OF sample_root_entry [OF s] _ sample_ok(1) [OF s] sp _ _ sample_bufs(1) [OF s] _ _ _ _ sample_txn])
      (simp_all add: sample_root_def sample_args_def c_name_def k)
  then show ?thesis by (simp add: sample_fields) blast
qed

text \<open>
  C16: if linking such a name fails, the function returns with its locks: the read lock of the hard link
  state and the lock of the entry are still held, nothing is reported, and any transfer of that file in
  the same thread never returns.
\<close>

theorem late_name_failure:
  assumes "root_entry w src q h" "transferred h" "owned w ext dext"
    and "spells (strings (wstore w)) (hl_remote h) root" "c_name root" "length root < k" "buf_ready w Register_linkRoot k"
    and "\<not> ra_destExists a" "ra_srcInode a = src" "0 < hl_nlinkRC h" "hl_nlinkRC h < 2 ^ 64"
    and "tid E \<in> set (rdTxns (hlink w))"
    and "u = Unlinkat (ra_destRootFD a) (ra_remote a) False" "l = Linkat (ra_destRootFD a) root (ra_destRootFD a) (ra_remote a)"
    and "0 \<le> ret (kernel E (trace w) u) \<or> errno (kernel E (trace w) u) = ENOENT" "ret (kernel E (trace w @ [u]) l) < 0"
  shows "\<exists>w'. hlinkStateRegisterLinkRoot E a orig w
      = Some (\<lparr>shouldTransfer = False, isFirstLook = False, isPendingHardlink = False\<rparr>, w')
    \<and> rwlock (hlink w') = Rdlocked 1 \<and> map_option hl_locked (hinfos (wstore w') q) = Some True
    \<and> hlinkStateHandleTransfer E root' src dest fd w' = None"
proof -
  have "txn_ready E w" using assms(12) by (simp add: txn_ready_def)
  from register_linked_ok [OF assms(1-11) this assms(13-15), of orig] assms(16)
  obtain w' where w': "hlinkStateRegisterLinkRoot E a orig w
      = Some (\<lparr>shouldTransfer = False, isFirstLook = False, isPendingHardlink = False\<rparr>, w')"
    "rwlock (hlink w') = Rdlocked 1" "cache_of (hlink w') FORWARD src = Some q" "hinfos (wstore w') q = Some (h\<lparr>hl_locked := True\<rparr>)"
    "tid E \<in> set (rdTxns (hlink w'))" by blast
  then show ?thesis using handle_transfer_stuck [OF w'(2,5,3,4)] by simp
qed

theorem late_name_failure_witness:
  "\<exists>b ps w'. hlinkStateRegisterLinkRoot (sample_program (-1)) (sample_args 7 ''e'' (ps ! 4) (ps ! 5)) False (sample_world b ps)
      = Some (\<lparr>shouldTransfer = False, isFirstLook = False, isPendingHardlink = False\<rparr>, w')
    \<and> hlinkStateHandleTransfer (sample_program (-1)) ''a'' 7 9 4 w' = None"
proof -
  obtain b ps where s: "sample_pages b ps" using sample_pages_ex by blast
  let ?E = "sample_program (-1)" and ?w = "sample_world b ps" and ?a = "sample_args 7 ''e'' (ps ! 4) (ps ! 5)"
  have sp: "spells (strings (wstore ?w)) (hl_remote (sample_root (ps ! 0))) ''a''"
    using sample_spells(1) [OF s] by (simp add: sample_root_def sample_fields)
  have k: "ret (kernel ?E t (Unlinkat fd n d)) = 0" "ret (kernel ?E t (Linkat fd n fd' n')) = -1" for t fd n d fd' n'
    by (simp_all add: sample_program_def)
  have "\<exists>w'. hlinkStateRegisterLinkRoot ?E ?a False ?w
      = Some (\<lparr>shouldTransfer = False, isFirstLook = False, isPendingHardlink = False\<rparr>, w')
    \<and> rwlock (hlink w') = Rdlocked 1 \<and> map_option hl_locked (hinfos (wstore w') (ps ! 8)) = Some True
    \<and> hlinkStateHandleTransfer ?E ''a'' 7 9 4 w' = None"
    by (rule late_name_failure [OF sample_root_entry [OF s] _ sample_ok(1) [OF s] sp _ _ sample_bufs(1) [OF s]])
      (simp_all add: sample_root_def sample_args_def c_name_def sample_fields, simp_all add: k)
  then show ?thesis by blast
qed

section \<open>Counted directories\<close>

text \<open>
  C14: releasing a directory always returns and keeps the counters of all names and directories equal
  to the number of their owners. While another owner is left, nothing happens; the last release of a
  destination directory puts exactly one job on the queue that finishes it, and the descriptor stays
  open for that job; the last release of any other directory closes its descriptor exactly once, gives
  back its place, and the object is gone.
\<close>

theorem fdrc_release_correct:
  assumes "owned w ext (add_mset p dext)" "roomy w ext 0" "fdrcs (wstore w) p = Some f"
  shows "\<exists>w'. fdrc_release E w p = Some w' \<and> owned w' ext dext
    \<and> (\<forall>q \<in># ext. \<forall>s. spells (strings (wstore w)) q s \<longrightarrow> spells (strings (wstore w')) q s)
    \<and> (if p \<in># dext + q_dirs (queued w) then trace w' = trace w \<and> finishQ w' = finishQ w
       else if fdrc_dst f then trace w' = trace w \<and> finishQ w' = finishQ w @ [dot_job p f] \<and> p \<in> dom (fdrcs (wstore w'))
       else trace w' = trace w @ [Close (fdrc_fd f)] \<and> finishQ w' = finishQ w \<and> fdSem w' = fdSem w + 1
         \<and> fdrcs (wstore w') p = None)"
proof -
  obtain w' where w': "fdrc_release E w p = Some w'" "owned w' ext dext"
    "\<forall>q s. q \<in># ext \<longrightarrow> spells (strings (wstore w)) q s \<longrightarrow> spells (strings (wstore w')) q s"
    using fdrc_release_ok [OF assms(1,2), of E] by blast
  note e = fdrc_release_effect [OF assms(3) w'(1)]
  have jobs: "jobQ w' = jobQ w" by (subst e(4)) simp
  have rc: "fdrc_rc f = count (add_mset p dext + q_dirs (queued w)) p"
    using dirs_okD(3) [OF ownedD(2) [OF assms(1)] assms(3)] by simp
  have d: "dom (fdrcs (wstore w')) = set_mset (dext + q_dirs (queued w'))"
    by (rule dirs_okD(1) [OF ownedD(2) [OF w'(2)]])
  consider "p \<in># dext + q_dirs (queued w)" | (none) "p \<notin># dext + q_dirs (queued w)" by blast
  then show ?thesis
  proof cases
    case 1
    then have "fdrc_rc f \<noteq> 1" unfolding rc by (simp add: not_in_iff)
    then show ?thesis using 1 w' e(1) by (intro exI [of _ w']) simp
  next
    case none
    then have one: "fdrc_rc f = 1" unfolding rc by (simp add: not_in_iff)
    show ?thesis
    proof (cases "fdrc_dst f")
      case True
      then have q: "queued w' = finishQ w @ [dot_job p f] @ jobQ w" using e(2) jobs one by (simp add: queued_def)
      have "p \<in> dom (fdrcs (wstore w'))" unfolding d q by (simp add: q_dirs_def dot_job_def)
      then show ?thesis using True none w' e(2) [OF one True] by (intro exI [of _ w']) simp
    next
      case False
      then have "queued w' = queued w" using e(3) jobs one by (simp add: queued_def)
      then have "p \<notin> dom (fdrcs (wstore w'))" using none unfolding d by simp
      then show ?thesis using False none w' e(3) [OF one False] by (intro exI [of _ w']) (simp add: domIff)
    qed
  qed
qed

theorem fdrc_release_correct_witness:
  "\<exists>b ps w'. fdrc_release (sample_program 0) (sample_world b ps) (ps ! 5) = Some w' \<and> trace w' = [Close 5]
    \<and> fdSem w' = 1 \<and> fdrcs (wstore w') (ps ! 5) = None"
proof -
  obtain b ps where s: "sample_pages b ps" using sample_pages_ex by blast
  let ?w = "sample_world b ps" and ?ext = "{#ps ! 0, ps ! 0, ps ! 1, ps ! 2, ps ! 4#}"
  have ok: "owned ?w ?ext (add_mset (ps ! 5) {#})" using sample_ok(1) [OF s] .
  have room: "roomy ?w ?ext 0" by (rule sample_roomy [OF s]) simp_all
  have f: "fdrcs (wstore ?w) (ps ! 5) = Some (sample_dir (ps ! 3))" by (simp add: sample_fields sample_views(1) [OF s])
  have "fdSem ?w = 0" by (simp add: sample_world_def)
  with fdrc_release_correct [OF ok room f, of "sample_program 0"] show ?thesis
    by (simp add: sample_fields q_dirs_def sample_dir_def) blast
qed

end
