(* ===== verification/Work_Queue.thy ===== *)
theory Work_Queue
  imports World
begin

text \<open>
  The bounded queues between crawlers, copiers and finishers (\<open>queue.h\<close>): a queue that several threads
  use, with a semaphore that counts the free places, and the functions through which that queue gets
  its memory. The queue below is vendored: its operations are a parameter.
\<close>

section \<open>The operations\<close>

record 'q mpmc_ops =
  mq_new :: "nat \<Rightarrow> 'q"
  mq_enqueue :: "'q \<Rightarrow> file_copy_job \<Rightarrow> bool \<times> 'q"
  mq_try_dequeue :: "'q \<Rightarrow> file_copy_job option \<times> 'q"
  mq_wait_dequeue_timed :: "'q \<Rightarrow> int \<Rightarrow> file_copy_job option \<times> 'q"
  mq_size_approx :: "'q \<Rightarrow> nat"

record 'q work_queue =
  wq_q :: 'q
  enqueueSem :: nat

definition new_queue :: "'q mpmc_ops \<Rightarrow> nat \<Rightarrow> 'q work_queue" where
  "new_queue U s = \<lparr>wq_q = mq_new U s, enqueueSem = s\<rparr>"

definition move_queue :: "'q work_queue \<Rightarrow> 'q work_queue \<Rightarrow> 'q work_queue \<times> 'q work_queue" where
  "move_queue this other = (other, this)"

text \<open>
  Another thread may run between the two halves of an operation. \<open>None\<close> is to wait for a place.
\<close>

definition enqueue_wait :: "'q work_queue \<Rightarrow> 'q work_queue option" where
  "enqueue_wait s = (if enqueueSem s = 0 then None else Some (s\<lparr>enqueueSem := enqueueSem s - 1\<rparr>))"

definition enqueue_put :: "'q mpmc_ops \<Rightarrow> file_copy_job \<Rightarrow> 'q work_queue \<Rightarrow> bool \<times> 'q work_queue" where
  "enqueue_put U item s = (let (ok, q') = mq_enqueue U (wq_q s) item in (ok, s\<lparr>wq_q := q'\<rparr>))"

definition enqueue :: "'q mpmc_ops \<Rightarrow> file_copy_job \<Rightarrow> 'q work_queue \<Rightarrow> (bool \<times> 'q work_queue) option" where
  "enqueue U item s = map_option (enqueue_put U item) (enqueue_wait s)"

definition signal :: "file_copy_job option \<Rightarrow> 'q work_queue \<Rightarrow> 'q work_queue" where
  "signal res s = (if res \<noteq> None then s\<lparr>enqueueSem := enqueueSem s + 1\<rparr> else s)"

definition wait_dequeue_timed :: "'q mpmc_ops \<Rightarrow> int \<Rightarrow> 'q work_queue \<Rightarrow> file_copy_job option \<times> 'q work_queue" where
  "wait_dequeue_timed U timeout_usecs s =
     (let (res, q') = mq_wait_dequeue_timed U (wq_q s) timeout_usecs in (res, signal res (s\<lparr>wq_q := q'\<rparr>)))"

definition try_dequeue :: "'q mpmc_ops \<Rightarrow> 'q work_queue \<Rightarrow> file_copy_job option \<times> 'q work_queue" where
  "try_dequeue U s = (let (res, q') = mq_try_dequeue U (wq_q s) in (res, signal res (s\<lparr>wq_q := q'\<rparr>)))"

definition size_approx :: "'q mpmc_ops \<Rightarrow> 'q work_queue \<Rightarrow> nat" where
  "size_approx U s = mq_size_approx U (wq_q s)"

section \<open>Memory of the queue\<close>

text \<open>A block starts with its own reference; \<open>hdr\<close> is what such words hold.\<close>

definition sizeof_AllocRef :: nat where
  "sizeof_AllocRef = 8"

definition queue_malloc :: "nat \<Rightarrow> allocator \<Rightarrow> memory \<Rightarrow> (addr \<Rightarrow> addr option) \<Rightarrow> nat
    \<Rightarrow> (addr \<times> allocator \<times> memory \<times> (addr \<Rightarrow> addr option)) option" where
  "queue_malloc t a mem hdr len =
     (let (ref, a, mem) = AllocatorAllocate t a mem (len + sizeof_AllocRef)
      in if ref = NULL then None
         else Some (allocDeref ref + sizeof_AllocRef, a, mem, hdr(allocDeref ref \<mapsto> ref)))"

definition queue_free :: "allocator \<Rightarrow> (addr \<Rightarrow> addr option) \<Rightarrow> addr \<Rightarrow> allocator option" where
  "queue_free a hdr ptr =
     (if ptr = NULL then Some a else map_option (AllocatorFree a) (hdr (ptr - sizeof_AllocRef)))"

lemma queue_free_malloc:
  assumes "alloc_inv a" "queue_malloc t a mem hdr len = Some (ptr, a', mem', hdr')"
  shows "\<exists>a''. queue_free a' hdr' ptr = Some a'' \<and> alloc_inv a'' \<and> alloc_blocks a'' = {x \<in> alloc_blocks a. fst x \<noteq> ptr - sizeof_AllocRef}"
proof -
  obtain ref where r: "AllocatorAllocate t a mem (len + sizeof_AllocRef) = (ref, a', mem')" "ref \<noteq> NULL"
    "ptr = ref + sizeof_AllocRef" "hdr' = hdr(ref \<mapsto> ref)"
    using assms(2) by (auto simp: queue_malloc_def allocDeref_def split: prod.splits if_splits)
  have h: "handed_out a mem (len + sizeof_AllocRef) ref a' mem'" by (rule AllocatorAllocate_spec [OF assms(1) r(1)])
  have inv: "alloc_inv a'" using h by (simp add: handed_out_def)
  have "alloc_blocks (AllocatorFree a' ref) = {x \<in> alloc_blocks a. fst x \<noteq> ref}"
    using h r(2) AllocatorFree_spec [OF inv, of ref] unfolding handed_out_def by auto
  then show ?thesis
    using r(3,4) AllocatorFree_spec [OF inv, of ref] by (simp add: queue_free_def sizeof_AllocRef_def)
qed

section \<open>Threads\<close>

text \<open>
  What the vendored queue documents: it holds a bag of jobs, an accepted job is added, a job that comes
  out is removed; in which order they come out is left open.
\<close>

definition bag_ok :: "'q mpmc_ops \<Rightarrow> ('q \<Rightarrow> file_copy_job multiset) \<Rightarrow> bool" where
  "bag_ok U bag \<longleftrightarrow> (\<forall>n. bag (mq_new U n) = {#})
     \<and> (\<forall>x j y. mq_enqueue U x j = (True, y) \<longrightarrow> bag y = add_mset j (bag x))
     \<and> (\<forall>x j y. mq_enqueue U x j = (False, y) \<longrightarrow> bag y = bag x)
     \<and> (\<forall>x r y. mq_try_dequeue U x = (r, y) \<longrightarrow> bag x = bag y + (case r of None \<Rightarrow> {#} | Some j \<Rightarrow> {#j#}))
     \<and> (\<forall>x t r y. mq_wait_dequeue_timed U x t = (r, y) \<longrightarrow> bag x = bag y + (case r of None \<Rightarrow> {#} | Some j \<Rightarrow> {#j#}))"

text \<open>
  Where a thread is: it has a place and not yet entered, or has a job and not yet given back its place.
  The machine remembers the jobs for which a place was had, and what became of them.
\<close>

datatype phase = Outside | Entering file_copy_job | Leaving file_copy_job

record 'q machine =
  queue :: "'q work_queue"
  phases :: "phase list"
  asked :: "file_copy_job multiset"
  accepted :: "file_copy_job multiset"
  refused :: "file_copy_job multiset"
  delivered :: "file_copy_job multiset"

definition taken_by :: "'q mpmc_ops \<Rightarrow> int option \<Rightarrow> 'q \<Rightarrow> file_copy_job option \<times> 'q" where
  "taken_by U timeout x = (case timeout of None \<Rightarrow> mq_try_dequeue U x | Some t \<Rightarrow> mq_wait_dequeue_timed U x t)"

inductive qstep :: "'q mpmc_ops \<Rightarrow> 'q machine \<Rightarrow> 'q machine \<Rightarrow> bool" for U where
  ask: "i < length (phases s) \<Longrightarrow> phases s ! i = Outside \<Longrightarrow> enqueue_wait (queue s) = Some x
    \<Longrightarrow> qstep U s (s\<lparr>queue := x, phases := (phases s)[i := Entering j], asked := add_mset j (asked s)\<rparr>)"
| put: "i < length (phases s) \<Longrightarrow> phases s ! i = Entering j \<Longrightarrow> enqueue_put U j (queue s) = (ok, x)
    \<Longrightarrow> qstep U s (s\<lparr>queue := x, phases := (phases s)[i := Outside], accepted := (if ok then add_mset j (accepted s) else accepted s),
          refused := (if ok then refused s else add_mset j (refused s))\<rparr>)"
| take: "i < length (phases s) \<Longrightarrow> phases s ! i = Outside \<Longrightarrow> taken_by U t (wq_q (queue s)) = (r, x)
    \<Longrightarrow> qstep U s (s\<lparr>queue := (queue s)\<lparr>wq_q := x\<rparr>, phases := (case r of None \<Rightarrow> phases s | Some j \<Rightarrow> (phases s)[i := Leaving j])\<rparr>)"
| leave: "i < length (phases s) \<Longrightarrow> phases s ! i = Leaving j
    \<Longrightarrow> qstep U s (s\<lparr>queue := signal (Some j) (queue s), phases := (phases s)[i := Outside], delivered := add_mset j (delivered s)\<rparr>)"

definition start :: "'q mpmc_ops \<Rightarrow> nat \<Rightarrow> nat \<Rightarrow> 'q machine" where
  "start U places n = \<lparr>queue = new_queue U places, phases = replicate n Outside, asked = {#}, accepted = {#}, refused = {#}, delivered = {#}\<rparr>"

text \<open>The steps of one thread with no other in between are the operations.\<close>

lemma enqueue_steps:
  assumes "i < length (phases s)" "phases s ! i = Outside" "enqueue U j (queue s) = Some (ok, x)"
  shows "\<exists>s'. (qstep U)\<^sup>*\<^sup>* s s' \<and> queue s' = x \<and> phases s' = phases s \<and> accepted s' = (if ok then add_mset j (accepted s) else accepted s)
    \<and> refused s' = (if ok then refused s else add_mset j (refused s))"
proof -
  obtain y where y: "enqueue_wait (queue s) = Some y" "enqueue_put U j y = (ok, x)" using assms(3) by (auto simp: enqueue_def)
  let ?s = "s\<lparr>queue := y, phases := (phases s)[i := Entering j], asked := add_mset j (asked s)\<rparr>"
  have "qstep U s ?s" by (rule qstep.ask [OF assms(1,2) y(1)])
  moreover have "qstep U ?s (?s\<lparr>queue := x, phases := (phases ?s)[i := Outside], accepted := (if ok then add_mset j (accepted ?s) else accepted ?s),
      refused := (if ok then refused ?s else add_mset j (refused ?s))\<rparr>)"
    by (rule qstep.put) (use assms(1) y(2) in simp_all)
  moreover have "(phases ?s)[i := Outside] = phases s" using assms(1,2) by (simp add: list_update_same_conv)
  ultimately show ?thesis by (intro exI conjI) (erule (1) converse_rtranclp_into_rtranclp [OF _ r_into_rtranclp], simp_all)
qed

lemma try_dequeue_steps:
  assumes "i < length (phases s)" "phases s ! i = Outside" "try_dequeue U (queue s) = (Some j, x)"
  shows "\<exists>s'. (qstep U)\<^sup>*\<^sup>* s s' \<and> queue s' = x \<and> phases s' = phases s \<and> delivered s' = add_mset j (delivered s)"
proof -
  obtain y where y: "mq_try_dequeue U (wq_q (queue s)) = (Some j, y)" "x = signal (Some j) ((queue s)\<lparr>wq_q := y\<rparr>)"
    using assms(3) by (auto simp: try_dequeue_def split: prod.splits)
  let ?s = "s\<lparr>queue := (queue s)\<lparr>wq_q := y\<rparr>, phases := (phases s)[i := Leaving j]\<rparr>"
  have "qstep U s ?s" using qstep.take [OF assms(1,2), of U None "Some j" y] y(1) by (simp add: taken_by_def)
  moreover have "qstep U ?s (?s\<lparr>queue := signal (Some j) (queue ?s), phases := (phases ?s)[i := Outside], delivered := add_mset j (delivered ?s)\<rparr>)"
    by (rule qstep.leave) (use assms(1) in simp_all)
  moreover have "(phases ?s)[i := Outside] = phases s" using assms(1,2) by (simp add: list_update_same_conv)
  ultimately show ?thesis using y(2) by (intro exI conjI) (erule (1) converse_rtranclp_into_rtranclp [OF _ r_into_rtranclp], simp_all)
qed

section \<open>Counting places\<close>

fun entering :: "phase \<Rightarrow> file_copy_job multiset" where
  "entering (Entering j) = {#j#}"
| "entering _ = {#}"

fun leaving :: "phase \<Rightarrow> file_copy_job multiset" where
  "leaving (Leaving j) = {#j#}"
| "leaving _ = {#}"

definition jobs_at :: "(phase \<Rightarrow> file_copy_job multiset) \<Rightarrow> phase list \<Rightarrow> file_copy_job multiset" where
  "jobs_at f ps = sum_list (map f ps)"

lemma jobs_at_update: "i < length ps \<Longrightarrow> f (ps ! i) + jobs_at f (ps[i := x]) = f x + jobs_at f ps"
proof (induction ps arbitrary: i)
  case (Cons p ps)
  then show ?case by (cases i) (auto simp: jobs_at_def ac_simps)
qed simp

lemma jobs_at_size: "i < length ps \<Longrightarrow> size (f (ps ! i)) + size (jobs_at f (ps[i := x])) = size (f x) + size (jobs_at f ps)"
  using jobs_at_update [of i ps f x] by (metis size_union)

text \<open>
  Every place is free, taken by a job, held by a thread on its way in or out, or lost with a job that the
  queue below has refused; every job is on its way in, accepted or refused, and no accepted job is lost or
  doubled.
\<close>

definition places_ok :: "('q \<Rightarrow> file_copy_job multiset) \<Rightarrow> nat \<Rightarrow> 'q machine \<Rightarrow> bool" where
  "places_ok bag places s \<longleftrightarrow>
     enqueueSem (queue s) + size (bag (wq_q (queue s)) + jobs_at entering (phases s) + jobs_at leaving (phases s) + refused s) = places
     \<and> accepted s = bag (wq_q (queue s)) + jobs_at leaving (phases s) + delivered s
     \<and> asked s = accepted s + jobs_at entering (phases s) + refused s"

lemma places_start: "bag_ok U bag \<Longrightarrow> places_ok bag places (start U places n)"
proof -
  have "jobs_at f (replicate n Outside) = {#}" if "f Outside = {#}" for f
    using that by (induction n) (simp_all add: jobs_at_def)
  then show "bag_ok U bag \<Longrightarrow> places_ok bag places (start U places n)"
    by (simp add: places_ok_def start_def new_queue_def bag_ok_def)
qed

lemma places_step:
  assumes "qstep U s s'" "bag_ok U bag" "places_ok bag places s"
  shows "places_ok bag places s'"
  using assms
proof (induction rule: qstep.induct)
  case (ask i s x j)
  then show ?case
    using jobs_at_update [OF ask.hyps(1), of entering "Entering j"] jobs_at_size [OF ask.hyps(1), of entering "Entering j"] jobs_at_update [OF ask.hyps(1), of leaving "Entering j"] jobs_at_size [OF ask.hyps(1), of leaving "Entering j"]
    by (auto simp: places_ok_def enqueue_wait_def split: if_splits)
next
  case (put i s j ok x)
  obtain y where y: "mq_enqueue U (wq_q (queue s)) j = (ok, y)" "x = (queue s)\<lparr>wq_q := y\<rparr>"
    using put.hyps(3) by (auto simp: enqueue_put_def split: prod.splits)
  have "bag y = (if ok then add_mset j (bag (wq_q (queue s))) else bag (wq_q (queue s)))"
    using put.prems(1) y(1) by (cases ok) (auto simp: bag_ok_def)
  then show ?case
    using jobs_at_update [OF put.hyps(1), of entering Outside] jobs_at_size [OF put.hyps(1), of entering Outside] jobs_at_update [OF put.hyps(1), of leaving Outside] jobs_at_size [OF put.hyps(1), of leaving Outside] put.hyps(2) put.prems(2) y(2)
    by (auto simp: places_ok_def)
next
  case (take i s t r x)
  have b: "bag (wq_q (queue s)) = bag x + (case r of None \<Rightarrow> {#} | Some j \<Rightarrow> {#j#})"
    using take.prems(1) take.hyps(3) by (cases t) (auto simp: bag_ok_def taken_by_def)
  show ?case
  proof (cases r)
    case None
    then show ?thesis using b take.prems(2) by (simp add: places_ok_def)
  next
    case (Some j)
    then show ?thesis
      using b jobs_at_update [OF take.hyps(1), of entering "Leaving j"] jobs_at_size [OF take.hyps(1), of entering "Leaving j"] jobs_at_update [OF take.hyps(1), of leaving "Leaving j"] jobs_at_size [OF take.hyps(1), of leaving "Leaving j"] take.hyps(2) take.prems(2)
      by (auto simp: places_ok_def)
  qed
next
  case (leave i s j)
  then show ?case
    using jobs_at_update [OF leave.hyps(1), of entering Outside] jobs_at_size [OF leave.hyps(1), of entering Outside] jobs_at_update [OF leave.hyps(1), of leaving Outside] jobs_at_size [OF leave.hyps(1), of leaving Outside]
    by (auto simp: places_ok_def signal_def)
qed

lemma places_reachable:
  assumes "(qstep U)\<^sup>*\<^sup>* (start U places n) s" "bag_ok U bag"
  shows "places_ok bag places s"
  using assms(1)
proof (induction rule: rtranclp_induct)
  case base
  then show ?case by (rule places_start [OF assms(2)])
next
  case (step y z)
  then show ?case by (metis places_step assms(2))
qed

section \<open>The bound\<close>

text \<open>
  C40: whatever the threads do, a queue never holds more jobs than it has places. Every place is free, taken
  by a job, held by a thread on its way in or out, or lost: when the queue below refuses a job
  after its place was had, the place is never given back and the job is gone. So a thread waits
  exactly while all places are in use or lost, and as long as no job is refused, only while all are in use.
  Every job for which a place was had is on its way in, accepted or refused, and the accepted ones are in the
  queue, on their way out or delivered, none lost and none delivered twice.
\<close>

theorem queue_bounded:
  assumes "bag_ok U bag" "(qstep U)\<^sup>*\<^sup>* (start U places n) s"
  shows "size (bag (wq_q (queue s))) \<le> places
    \<and> enqueueSem (queue s) + size (bag (wq_q (queue s))) + size (jobs_at entering (phases s)) + size (jobs_at leaving (phases s)) + size (refused s) = places
    \<and> asked s = accepted s + jobs_at entering (phases s) + refused s
    \<and> accepted s = bag (wq_q (queue s)) + jobs_at leaving (phases s) + delivered s
    \<and> (enqueue U j (queue s) = None \<longleftrightarrow>
         size (bag (wq_q (queue s))) + size (jobs_at entering (phases s)) + size (jobs_at leaving (phases s)) + size (refused s) = places)"
  using places_reachable [OF assms(2,1)] by (auto simp: places_ok_def enqueue_def enqueue_wait_def)

text \<open>
  A list, with one place and two threads; the first has put a job into it. The same with a list that has
  no room for a job: it is refused, and the next thread waits for a place in an empty queue.
\<close>

definition list_ops :: "nat \<Rightarrow> file_copy_job list mpmc_ops" where
  "list_ops room = \<lparr>mq_new = (\<lambda>n. []), mq_enqueue = (\<lambda>x j. if length x < room then (True, x @ [j]) else (False, x)),
     mq_try_dequeue = (\<lambda>x. case x of [] \<Rightarrow> (None, []) | j # y \<Rightarrow> (Some j, y)),
     mq_wait_dequeue_timed = (\<lambda>x t. case x of [] \<Rightarrow> (None, []) | j # y \<Rightarrow> (Some j, y)), mq_size_approx = length\<rparr>"

lemma list_ops_bag: "bag_ok (list_ops room) mset"
  by (auto simp: bag_ok_def list_ops_def split: list.splits if_splits)

theorem queue_bounded_witness:
  "(\<exists>s. (qstep (list_ops 8))\<^sup>*\<^sup>* (start (list_ops 8) 1 2) s \<and> accepted s = {#zero_file_job#} \<and> wq_q (queue s) = [zero_file_job]
      \<and> enqueue (list_ops 8) zero_file_job (queue s) = None)
    \<and> (\<exists>s. (qstep (list_ops 0))\<^sup>*\<^sup>* (start (list_ops 0) 1 2) s \<and> refused s = {#zero_file_job#} \<and> wq_q (queue s) = []
      \<and> enqueue (list_ops 0) zero_file_job (queue s) = None)"
proof -
  let ?q = "\<lparr>wq_q = [zero_file_job], enqueueSem = 0\<rparr>" and ?e = "\<lparr>wq_q = [], enqueueSem = 0\<rparr>"
  have q: "enqueue (list_ops 8) zero_file_job (queue (start (list_ops 8) 1 2)) = Some (True, ?q)"
    and e: "enqueue (list_ops 0) zero_file_job (queue (start (list_ops 0) 1 2)) = Some (False, ?e)"
    by (simp_all add: enqueue_def enqueue_wait_def enqueue_put_def start_def new_queue_def list_ops_def)
  obtain s where s: "(qstep (list_ops 8))\<^sup>*\<^sup>* (start (list_ops 8) 1 2) s" "queue s = ?q" "accepted s = {#zero_file_job#}"
    using enqueue_steps [OF _ _ q, of 0] by (auto simp: start_def)
  obtain t where t: "(qstep (list_ops 0))\<^sup>*\<^sup>* (start (list_ops 0) 1 2) t" "queue t = ?e" "refused t = {#zero_file_job#}"
    using enqueue_steps [OF _ _ e, of 0] by (auto simp: start_def)
  have "enqueue (list_ops 8) zero_file_job (queue s) = None"
    using queue_bounded [OF list_ops_bag s(1), of zero_file_job] s(2) by (simp add: enqueue_def enqueue_wait_def)
  moreover have "enqueue (list_ops 0) zero_file_job (queue t) = None"
    using queue_bounded [OF list_ops_bag t(1), of zero_file_job] t(2,3) by simp
  ultimately show ?thesis using s t by auto
qed

end
