(* ===== verification/Spec2Isabelle.thy ===== *)
theory Spec2Isabelle
  imports Buddy_Properties Buddy_Resize Midl_Properties Copy_Properties Store_Properties Crawl_Properties Hlink_Properties Work_Queue
begin

text \<open>
  \<^bold>\<open>copy2\<close>: a parallel copier of directory trees. Crawler threads walk over the source and queue a job
  for every file that differs; transfer threads cut files into blocks and copy them with asynchronous
  requests; finishing threads put each copy under its name and set its metadata. Names, directory
  descriptors, lists and buffers live in one allocator made of buddy arenas; hard links are kept in two
  tables that overflow into a database. This development models the program's own code and proves what
  each part promises to the others.

  \<^bold>\<open>The parts, the theories and the source.\<close>

  \<^item> The buddy allocator, \<open>buddy_alloc.h\<close>. \<open>Buddy_Bits\<close> and \<open>Buddy_Bitset\<close> hold the integer and bitset
    helpers, \<open>Buddy_Tree\<close> the packed tree, \<open>Buddy_Arena\<close> the arena on top of it (\<open>buddy_init\<close>,
    \<open>buddy_malloc\<close>, \<open>buddy_calloc\<close>, \<open>buddy_realloc\<close>, \<open>buddy_free\<close>, \<open>buddy_safe_free\<close>), \<open>Buddy_Resize\<close> the walk, resizing,
    reservation of ranges, iteration and statistics. \<open>Buddy_Layout\<close>, \<open>Buddy_Status\<close>, \<open>Buddy_Refine\<close>,
    \<open>Buddy_Tree_Correct\<close>, \<open>Buddy_Blocks\<close>, \<open>Buddy_Alloc\<close>, \<open>Buddy_Free\<close>, \<open>Buddy_Init\<close>, \<open>Buddy_Realloc\<close> and
    \<open>Buddy_Correct\<close> prove that the bits implement an abstract tree and the tree a set of disjoint live
    blocks. \<open>Buddy_Interface\<close> states the contract of an allocator as a locale, which the arena and the
    program's allocator interpret.
  \<^item> The allocator of the program, \<open>allocator.cpp\<close> and \<open>allocator.h\<close>: \<open>Allocator\<close> (arenas per thread,
    the shared one in memory and the one on disk). \<open>Store\<close> adds the objects that the program keeps in
    it and the reference-counted parts of names; \<open>Store_Strings\<close>, \<open>Store_Owners\<close>, \<open>Store_Ops\<close> prove that
    counters equal the number of owners and that names print what they were built from.
  \<^item> The lists of \<open>liblmdb/midl.c\<close>: \<open>Midl\<close>, \<open>Midl_Sort\<close>, \<open>Midl_Lists\<close>.
  \<^item> The transfer threads, \<open>copy2.cpp\<close> and \<open>filejob.h\<close>: \<open>File_Job\<close>, \<open>Copy_Scheduler\<close>;
    \<open>Copy_Accounting\<close>, \<open>Copy_Content\<close>, \<open>Copy_Run\<close>, \<open>Copy_Deliver\<close>, \<open>Copy_Update\<close> prove the scheduler's
    invariant: its books, its buffers, and that a file which is complete has the bytes of the source.
  \<^item> What crawling and finishing threads share, \<open>sharedstate.h\<close>, \<open>fdrcguard.h\<close>, \<open>spinlock.h\<close>: \<open>World\<close>;
    \<open>World_Owners\<close> proves that releasing a directory keeps all counters.
  \<^item> Hard links, \<open>hlinkstate.cpp\<close> and \<open>hlinkstate.h\<close>: \<open>Hlink\<close>; \<open>Hlink_Tables\<close> proves the cached tables
    to be maps as long as commits succeed, and says what is left of them if not (a locale, interpreted by
    the code's own tables), \<open>Hlink_Links\<close>, \<open>Hlink_Steps\<close>,
    \<open>Hlink_Register\<close>, \<open>Hlink_Names\<close> follow the names of one file from registering to linking.
  \<^item> System calls, removal, the walk and finishing, \<open>syscalls.h\<close> and \<open>copy2.cpp\<close>: \<open>Syscalls\<close>
    (\<open>path_ok\<close> and the wrappers that count descriptors), \<open>Remove\<close> (\<open>recursiveRemove\<close>), \<open>Crawl\<close>
    (\<open>readSymlink\<close>, \<open>processNonDir\<close>, \<open>processDir\<close>, the start in \<open>main\<close>), \<open>Finish\<close>
    (\<open>finishProcessorOne\<close>). \<open>Path_Text\<close> proves what \<open>path_ok\<close> accepts; \<open>Crawl_Steps\<close> and \<open>Finish_Steps\<close> say
    of every step what it keeps of names, directories and buffers. \<open>Room\<close> is the contract of an allocator
    that serves small requests, a locale that an arena interprets, and restates the steps with what they
    cost. \<open>Script\<close> writes down what the system is asked and how it answers, \<open>Footprint\<close> what an operation
    leaves in memory; \<open>Remove_Steps\<close> proves that removing makes the calls of a tree and leaves nothing behind, and \<open>Walk\<close>, \<open>Walk_Files\<close>, \<open>Walk_Dirs\<close>, \<open>Walk_Tree\<close> that the walk makes
    the calls of a tree and leaves one job for each of its files.
  \<^item> The queues between the threads, \<open>queue.h\<close>: \<open>Work_Queue\<close>, with a step relation in which
    threads interleave within \<open>enqueue\<close>, \<open>try_dequeue\<close> and \<open>wait_dequeue_timed\<close>.

  The properties are in \<open>Copy_Properties\<close>, \<open>Store_Properties\<close>, \<open>Crawl_Properties\<close>, \<open>Hlink_Properties\<close>,
  \<open>Buddy_Properties\<close>, \<open>Midl_Properties\<close> and \<open>Work_Queue\<close>, each numbered in the text before it. \<open>Pages\<close>, \<open>Hlink_Sample\<close> and
  \<open>Crawl_Sample\<close> hold the concrete states in which they are applied; \<open>Prelude\<close> holds what all share.

  \<^bold>\<open>State and operations.\<close> A struct of the source is a record with the source's fields, a function of
  the source is a definition with its name; a part of a long function is a definition that the text
  before it describes. Objects in the allocator are a map from addresses to \<open>object\<close>; a reference is
  an address, the null reference is 0. The state of the crawling and finishing threads is the record
  \<open>world\<close> (\<open>SharedState\<close>, the thread's buffers, the store, the calls to the system made so far), that of
  a transfer thread is \<open>copy_scheduler\<close> with the shared state of \<open>Copy_Scheduler\<close>. A function that ends
  the program, reads an address without such an object, or waits for something that its own thread
  would have to provide has the result \<open>None\<close>; error codes are results.

  \<^bold>\<open>What is assumed of the surroundings.\<close> The kernel, the database, the asynchronous queue, the concurrent queue
  below \<open>queue.h\<close>, the hash of a name and the order of tasks are parameters: a reply may depend on all calls made before. A theorem
  that needs more than that says so: LMDB's write transaction keeps what it is given, a commit that succeeds makes it
  durable and one that fails drops it (\<open>lmdb_ok\<close>), a completed request has transferred all its bytes or says that it has not, no completion carries
  the number that the program uses for a request in flight, the queue holds a bag of jobs and may refuse one (\<open>bag_ok\<close>), and the
  walk over a tree is answered as the tree has it (\<open>follows\<close>). The program is the one built
  with \<open>NDEBUG\<close>, so assertions and the leak report of a debug build do nothing.

  \<^bold>\<open>Numbers.\<close> \<open>size_t\<close> and 64-bit counters are natural numbers with \<open>mod 2 ^ 64\<close> wherever the code adds or
  subtracts without a bound that the model shows, machine words where the code works on bits. The positions in a
  tree wrap as in the code, and trees are proved correct up to order 60, since the bitset of a larger one would
  need more than \<open>2 ^ 61\<close> bits, beyond any address space. The indices of \<open>mdb_midl_sort\<close> are \<open>int\<close>: a sum that
  overflows has the result \<open>None\<close>, and the theorems are for lists of fewer than \<open>2 ^ 30\<close> entries. Counters of owners need \<open>roomy\<close>: fewer than \<open>2 ^ 64\<close> references exist.

  \<^bold>\<open>Loops and recursion.\<close> Loops that end by construction are total functions with their measures. A loop
  that depends on the heap or on replies is a \<open>partial_function\<close> whose value \<open>None\<close> is not to return, and the
  theorems state that a value is returned. Removing and walking are recursive over
  directories whose depth the kernel determines: they take a bound on the depth, and a run whose bound
  is too small is \<open>None\<close>; the theorems give a bound that suffices, the depth of the tree (\<open>deep\<close>, \<open>depth_of\<close>), as
  they give the memory, descriptors and counters that suffice (\<open>cost\<close>, \<open>memory\<close>, \<open>descriptors\<close>, \<open>effort\<close>).

  \<^bold>\<open>Threads.\<close> Each arena has a lock, so an operation on it is one step, and
  the theorem on the allocator speaks of any interleaving of threads. A transfer thread takes turns with an arbitrary
  environment that leaves alone what the thread owns. In \<open>World\<close> one thread runs at a time: other
  threads act, in any way that the parameter \<open>other_threads\<close> gives, where the hard link state gives up its lock, tasks of a group run to their ends one after
  another in any order that the parameter \<open>task_order\<close> gives, and they start when their directory has
  been read, although OpenMP may start them earlier. A place in a queue is taken to be free there, and the job to be
  accepted; how threads wait for a place, and how one is lost, is the subject of \<open>Work_Queue\<close>.

  \<^bold>\<open>Not modelled.\<close> The vendored libraries (LMDB apart from its ID lists, the concurrent queues
  and their semaphore, xxHash) are parameters or lie below what the model describes. Text output
  (\<open>logging.h\<close>, \<open>bytesize.hh\<close>, \<open>incrementalLogger\<close>) and the parsing of options change no state that the copy
  depends on; \<open>main\<close> starts the threads, whose loops only take jobs from the queues. \<open>lmdb-misc.c\<close> is linked
  into no program and \<open>pace-removeextra.cpp\<close> is built by none of the build files. Benchmarks and tests are
  scripts. The theorem on the walk is for files with one name and without \<open>--sync\<close>; the definitions have hard
  links, symbolic links, errors and \<open>--sync\<close> as well, and hard links have their own theorems.
\<close>

end
